(* ===== verification/Prelude.thy ===== *)
theory Prelude
  imports Main "HOL-Library.Word" "HOL-Library.Monad_Syntax"
begin

text \<open>
  What every component of the development shares.

  The C code is translated into the option monad: \<open>None\<close> stands for an execution the
  C standard gives no meaning to, or that stops the process (a failed \<open>rassert\<close>, an access
  outside an object, signed overflow, overlapping \<open>memcpy\<close>, a loop that does not come to
  an end), and \<open>Some\<close> for a run that returns.  Error codes of the code are ordinary
  returned values.  A C \<open>int\<close> is an \<open>int\<close> that is checked against its 32-bit range where
  the code computes with it, an unsigned integer a word of its width, and an object in memory
  the list of its cells.
\<close>

named_theorems mem_simps "evaluation of memory accesses that stay inside their object"
named_theorems opt_intros "introduction rules for runs that return"

type_synonym byte = "8 word"
type_synonym bytes = "byte list"

section \<open>Codes and assertions\<close>

abbreviation (input) rcode_ok :: int where "rcode_ok \<equiv> 0"
abbreviation (input) rcode_invalid :: int where "rcode_invalid \<equiv> 1"
abbreviation (input) rcode_err_ok :: int where "rcode_err_ok \<equiv> 0"
abbreviation (input) rcode_err_unknown :: int where "rcode_err_unknown \<equiv> 1"

text \<open>\<open>rassert\<close> of a build that does not set \<open>rbuild_as_release\<close>: it aborts the process.\<close>

definition rassert :: "bool \<Rightarrow> unit option" where
  "rassert b = (if b then Some () else None)"

lemma rassert_simps [simp]:
  "rassert True = Some ()" "rassert False = None"
  by (simp_all add: rassert_def)

lemma rassert_eq_Some [simp]: "rassert b = Some u \<longleftrightarrow> b"
  by (simp add: rassert_def)

lemma bind_rassert: "(rassert b \<bind> f) = (if b then f () else None)"
  by (simp add: rassert_def)

section \<open>Signed 32-bit arithmetic\<close>

abbreviation (input) INT_MAX :: int where "INT_MAX \<equiv> 2147483647"
abbreviation (input) INT_MIN :: int where "INT_MIN \<equiv> - 2147483648"

text \<open>The value of a signed 32-bit computation, when it is representable.\<close>

definition int32 :: "int \<Rightarrow> int option" where
  "int32 x = (if INT_MIN \<le> x \<and> x \<le> INT_MAX then Some x else None)"

lemma int32_in_range: "INT_MIN \<le> x \<Longrightarrow> x \<le> INT_MAX \<Longrightarrow> int32 x = Some x"
  by (simp add: int32_def)

lemma int32_eq_Some: "int32 x = Some y \<longleftrightarrow> y = x \<and> INT_MIN \<le> x \<and> x \<le> INT_MAX"
  by (auto simp: int32_def)

text \<open>An unsigned 32-bit counter held as a natural, one up and one down.\<close>

definition inc32 :: "nat \<Rightarrow> nat" where
  "inc32 n = (n + 1) mod 2 ^ 32"

definition dec32 :: "nat \<Rightarrow> nat" where
  "dec32 n = (n + (2 ^ 32 - 1)) mod 2 ^ 32"

lemma inc32_in [simp]: "n + 1 < 2 ^ 32 \<Longrightarrow> inc32 n = n + 1"
  by (simp add: inc32_def)

lemma dec32_Suc [simp]: "n < 2 ^ 32 \<Longrightarrow> dec32 (Suc n) = n"
  by (simp add: dec32_def add.commute)

section \<open>Memory objects\<close>

text \<open>The cells \<open>[at, at + n)\<close> of an object, and the object with the cells from \<open>at\<close> on replaced.\<close>

definition mem_get :: "'a list \<Rightarrow> int \<Rightarrow> int \<Rightarrow> 'a list option" where
  "mem_get m at n =
    (if 0 \<le> at \<and> 0 \<le> n \<and> at + n \<le> int (length m)
     then Some (take (nat n) (drop (nat at) m)) else None)"

definition mem_put :: "'a list \<Rightarrow> int \<Rightarrow> 'a list \<Rightarrow> 'a list option" where
  "mem_put m at xs =
    (if 0 \<le> at \<and> at + int (length xs) \<le> int (length m)
     then Some (take (nat at) m @ xs @ drop (nat at + length xs) m) else None)"

text \<open>\<open>memcpy(m + dst, m + src, n)\<close> inside one object: the two regions must not overlap.\<close>

definition mem_copy :: "'a list \<Rightarrow> int \<Rightarrow> int \<Rightarrow> int \<Rightarrow> 'a list option" where
  "mem_copy m dst src n =
    (if n = 0 \<or> dst + n \<le> src \<or> src + n \<le> dst
     then do { xs \<leftarrow> mem_get m src n; mem_put m dst xs } else None)"

lemma mem_get_Some:
  "mem_get m at n = Some xs \<longleftrightarrow>
    0 \<le> at \<and> 0 \<le> n \<and> at + n \<le> int (length m) \<and> xs = take (nat n) (drop (nat at) m)"
  by (auto simp: mem_get_def)

lemma mem_get_length: "mem_get m at n = Some xs \<Longrightarrow> int (length xs) = n"
  by (auto simp: mem_get_Some)

lemma mem_get_in [mem_simps]:
  "0 \<le> at \<Longrightarrow> 0 \<le> n \<Longrightarrow> at + n \<le> int (length m) \<Longrightarrow>
    mem_get m at n = Some (take (nat n) (drop (nat at) m))"
  by (simp add: mem_get_def)

lemma mem_put_in [mem_simps]:
  "0 \<le> at \<Longrightarrow> at + int (length xs) \<le> int (length m) \<Longrightarrow>
    mem_put m at xs = Some (take (nat at) m @ xs @ drop (nat at + length xs) m)"
  by (simp add: mem_put_def)

lemma mem_put_Some:
  "mem_put m at xs = Some m' \<longleftrightarrow>
    0 \<le> at \<and> at + int (length xs) \<le> int (length m) \<and>
    m' = take (nat at) m @ xs @ drop (nat at + length xs) m"
  by (auto simp: mem_put_def)

lemma mem_put_length: "mem_put m at xs = Some m' \<Longrightarrow> length m' = length m"
  by (auto simp: mem_put_Some)

lemma mem_get_put_same:
  assumes "mem_put m at xs = Some m'"
  shows "mem_get m' at (int (length xs)) = Some xs"
  using assms by (auto simp: mem_put_Some mem_get_Some)

lemma mem_get_split:
  assumes "0 \<le> a" "0 \<le> b" "0 \<le> n" "n + a + b \<le> int (length m)"
  shows "take (nat (a + b)) (drop (nat n) m) =
    take (nat a) (drop (nat n) m) @ take (nat b) (drop (nat (n + a)) m)"
  using assms by (simp add: nat_add_distrib take_add add.commute)

lemma take_length_append: "take (length xs) (xs @ ys) = xs"
  by simp

text \<open>Reading back an object after cells of it were replaced.\<close>

lemma splice_take:
  "length xs = b \<Longrightarrow> m \<le> length d \<Longrightarrow> take (m + b) (take m d @ xs @ drop (m + b) d) = take m d @ xs"
  by simp

lemma splice_drop:
  "length xs = b \<Longrightarrow> m + b \<le> k \<Longrightarrow> m + b \<le> length d \<Longrightarrow>
    drop k (take m d @ xs @ drop (m + b) d) = drop k d"
  by (simp add: drop_Cons' min_def)

section \<open>C strings\<close>

text \<open>\<open>strlen\<close>: the index of the first NUL of the object; reading past the object is undefined.\<close>

fun c_strlen :: "'a::zero list \<Rightarrow> int option" where
  "c_strlen [] = None"
| "c_strlen (c # cs) = (if c = 0 then Some 0 else map_option ((+) 1) (c_strlen cs))"

lemma c_strlen_append: "0 \<notin> set xs \<Longrightarrow> c_strlen (xs @ 0 # ys) = Some (int (length xs))"
  by (induction xs) auto

lemma c_strlen_bounds:
  "c_strlen m = Some n \<Longrightarrow> 0 \<le> n \<and> n < int (length m) \<and> m ! nat n = 0 \<and> 0 \<notin> set (take (nat n) m)"
proof (induction m arbitrary: n)
  case (Cons c cs)
  show ?case
  proof (cases "c = 0")
    case False
    with Cons.prems obtain k where k: "c_strlen cs = Some k" "n = 1 + k" by auto
    with Cons.IH [OF k(1)] False show ?thesis by (auto simp: nat_add_distrib)
  qed (use Cons.prems in auto)
qed simp

end
