(* ===== verification/RBuffer.thy ===== *)
theory RBuffer
  imports Prelude
begin

text \<open>
  The byte buffer of \<open>common/src/rbuffer.c\<close> and \<open>common/include/rbuffer.h\<close>: a fixed block of
  \<open>capacity\<close> bytes with a read position \<open>offset\<close> and a write position \<open>pos\<close>.  The theory holds
  its record, every operation and size macro, the invariant \<open>0 \<le> offset \<le> pos \<le> capacity\<close>, the
  abstraction to the byte string between the two positions, and the locale \<open>byte_fifo\<close> of
  what the codec may rely on, interpreted on the operations.  A pointer to a buffer is an
  option: \<open>None\<close> is the null pointer.
\<close>

section \<open>The buffer and its macros\<close>

record rbuffer =
  rb_data :: bytes
  rb_offset :: int
  rb_pos :: int
  rb_capacity :: int

definition rbuffer_size :: "rbuffer \<Rightarrow> int" where
  "rbuffer_size d = rb_pos d - rb_offset d"

definition rbuffer_left :: "rbuffer \<Rightarrow> int" where
  "rbuffer_left d = rb_capacity d - rb_pos d"

definition rbuffer_left_write :: "rbuffer \<Rightarrow> int" where
  "rbuffer_left_write d = rb_capacity d - rb_pos d + rb_offset d"

definition rbuffer_full :: "rbuffer \<Rightarrow> bool" where
  "rbuffer_full d \<longleftrightarrow> rbuffer_left d = 0"

definition rbuffer_empty :: "rbuffer \<Rightarrow> bool" where
  "rbuffer_empty d \<longleftrightarrow> rb_pos d = rb_offset d"

lemmas rbuffer_macros = rbuffer_size_def rbuffer_left_def rbuffer_left_write_def
  rbuffer_full_def rbuffer_empty_def

section \<open>Operations\<close>

text \<open>\<open>block\<close> is what \<open>raymalloc\<close> returned: \<open>init_capacity\<close> cells of indeterminate content.\<close>

definition rbuffer_create :: "bytes \<Rightarrow> int \<Rightarrow> rbuffer option" where
  "rbuffer_create block init_capacity =
    (if int (length block) = init_capacity
     then Some \<lparr>rb_data = block, rb_offset = 0, rb_pos = 0, rb_capacity = init_capacity\<rparr>
     else None)"

text \<open>
  \<open>val\<close> is the destination: \<open>None\<close> when it is \<open>NULL\<close> or the shared constant \<open>rstr_empty\<close>, the two
  pointers \<open>rstr_is_empty\<close> tests for.  The results are the buffer, the destination and the
  returned count.
\<close>

definition rbuffer_read ::
  "rbuffer option \<Rightarrow> bytes option \<Rightarrow> int \<Rightarrow> (rbuffer option \<times> bytes option \<times> int) option" where
  "rbuffer_read dp val read_size = (case dp of
     None \<Rightarrow> Some (None, val, 0)
   | Some d \<Rightarrow> (case val of
       None \<Rightarrow> Some (Some d, None, 0)
     | Some dest \<Rightarrow>
         let sz = rbuffer_size d;
             n = (if read_size > sz then sz else read_size)
         in do {
           xs \<leftarrow> mem_get (rb_data d) (rb_offset d) n;
           dest' \<leftarrow> mem_put dest 0 xs;
           let d1 = d\<lparr>rb_offset := rb_offset d + n\<rparr>;
           let d2 = (if rbuffer_empty d1 then d1\<lparr>rb_offset := 0, rb_pos := 0\<rparr> else d1);
           Some (Some d2, Some dest', n)
         }))"

function rewind_loop :: "bytes \<Rightarrow> int \<Rightarrow> int \<Rightarrow> int \<Rightarrow> int \<Rightarrow> (bytes \<times> int) option" where
  "rewind_loop data offset sz block move_size =
    (if move_size < sz
     then let block' = (if move_size + block > sz then sz - move_size else block)
          in if block' \<le> 0 then None
             else do {
               data' \<leftarrow> mem_copy data move_size (offset + move_size) block';
               rewind_loop data' offset sz block' (move_size + block')
             }
     else Some (data, move_size))"
  by pat_completeness auto
termination by (relation "measure (\<lambda>(data, offset, sz, block, move_size). nat (sz - move_size))") auto

declare rewind_loop.simps [simp del]

text \<open>The body of \<open>rbuffer_rewind\<close> for a buffer that is there.\<close>

definition rewind_body :: "rbuffer \<Rightarrow> (rbuffer \<times> int) option" where
  "rewind_body d =
    (if rb_offset d > 0
     then do {
       (data, move_size) \<leftarrow> rewind_loop (rb_data d) (rb_offset d) (rbuffer_size d) (rb_offset d) 0;
       Some (d\<lparr>rb_data := data, rb_offset := 0, rb_pos := rbuffer_size d\<rparr>, move_size)
     }
     else Some (d, 0))"

definition rbuffer_rewind :: "rbuffer option \<Rightarrow> (rbuffer option \<times> int) option" where
  "rbuffer_rewind dp = (case dp of
     None \<Rightarrow> Some (None, rcode_invalid)
   | Some d \<Rightarrow> map_option (\<lambda>(d', n). (Some d', n)) (rewind_body d))"

definition rbuffer_write ::
  "rbuffer option \<Rightarrow> bytes option \<Rightarrow> int \<Rightarrow> (rbuffer option \<times> int) option" where
  "rbuffer_write dp val sz = (case dp of
     None \<Rightarrow> Some (None, 0)
   | Some d \<Rightarrow> (case val of
       None \<Rightarrow> Some (Some d, 0)
     | Some src \<Rightarrow> do {
         sz' \<leftarrow> (if sz \<le> 0 then c_strlen src else Some sz);
         d1 \<leftarrow> (if rbuffer_left d < sz' then map_option fst (rewind_body d) else Some d);
         let n = (if rbuffer_left d1 \<ge> sz' then sz' else rbuffer_left d1);
         xs \<leftarrow> mem_get src 0 n;
         data' \<leftarrow> mem_put (rb_data d1) (rb_pos d1) xs;
         Some (Some (d1\<lparr>rb_data := data', rb_pos := rb_pos d1 + n\<rparr>), n)
       }))"

definition rbuffer_seek :: "rbuffer option \<Rightarrow> int \<Rightarrow> rbuffer option \<times> int" where
  "rbuffer_seek dp pos = (case dp of
     None \<Rightarrow> (None, rcode_invalid)
   | Some d \<Rightarrow>
      (Some (if pos \<ge> rb_offset d \<and> pos < rb_capacity d then d\<lparr>rb_pos := pos\<rparr>
             else if pos < rb_offset d then d\<lparr>rb_pos := rb_offset d\<rparr>
             else d\<lparr>rb_pos := rb_capacity d - 1\<rparr>), rcode_ok))"

definition rbuffer_skip :: "rbuffer option \<Rightarrow> int \<Rightarrow> (rbuffer option \<times> int) option" where
  "rbuffer_skip dp sz = (case dp of
     None \<Rightarrow> Some (None, rcode_invalid)
   | Some d \<Rightarrow> do {
       off \<leftarrow> int32 (rb_offset d + sz);
       let d1 = d\<lparr>rb_offset := off\<rparr>;
       let d2 = (if rb_offset d1 > rb_pos d1 then d1\<lparr>rb_offset := rb_pos d1\<rparr> else d1);
       let d3 = (if rb_offset d2 < 0 then d2\<lparr>rb_offset := 0\<rparr> else d2);
       Some (Some d3, rcode_ok)
     })"

definition rbuffer_revert :: "rbuffer option \<Rightarrow> rbuffer option \<times> int" where
  "rbuffer_revert dp = (case dp of
     None \<Rightarrow> (None, rcode_invalid)
   | Some d \<Rightarrow> (Some (d\<lparr>rb_offset := rb_pos d\<rparr>), rcode_ok))"

definition rbuffer_clear :: "rbuffer option \<Rightarrow> rbuffer option" where
  "rbuffer_clear dp = map_option (\<lambda>d. d\<lparr>rb_offset := 0, rb_pos := 0\<rparr>) dp"

definition rbuffer_output :: "rbuffer option \<Rightarrow> bytes option \<Rightarrow> int \<Rightarrow> int" where
  "rbuffer_output dp dest dest_size = dest_size"

text \<open>The two macros that move a position relative to where it is; both dereference the buffer.\<close>

definition rbuffer_read_ext :: "rbuffer option \<Rightarrow> int \<Rightarrow> (rbuffer option \<times> int) option" where
  "rbuffer_read_ext dp len = (case dp of
     None \<Rightarrow> None
   | Some d \<Rightarrow> do { n \<leftarrow> int32 (rb_offset d + len); rbuffer_skip (Some d) n })"

definition rbuffer_write_ext :: "rbuffer option \<Rightarrow> int \<Rightarrow> (rbuffer option \<times> int) option" where
  "rbuffer_write_ext dp len = (case dp of
     None \<Rightarrow> None
   | Some d \<Rightarrow> do { n \<leftarrow> int32 (rb_pos d + len); Some (rbuffer_seek (Some d) n) })"


section \<open>Invariant and content\<close>

definition rbuffer_inv :: "rbuffer \<Rightarrow> bool" where
  "rbuffer_inv d \<longleftrightarrow> 0 \<le> rb_offset d \<and> rb_offset d \<le> rb_pos d \<and> rb_pos d \<le> rb_capacity d \<and>
    rb_capacity d = int (length (rb_data d)) \<and> rb_capacity d \<le> INT_MAX"

text \<open>The bytes written and not yet read.\<close>

definition rbuffer_content :: "rbuffer \<Rightarrow> bytes" where
  "rbuffer_content d = take (nat (rbuffer_size d)) (drop (nat (rb_offset d)) (rb_data d))"

lemma rbuffer_content_length:
  "rbuffer_inv d \<Longrightarrow> int (length (rbuffer_content d)) = rbuffer_size d"
  by (auto simp: rbuffer_inv_def rbuffer_content_def rbuffer_size_def)

lemma rbuffer_content_bound:
  "rbuffer_inv d \<Longrightarrow> int (length (rbuffer_content d)) \<le> rb_capacity d"
  by (auto simp: rbuffer_inv_def rbuffer_content_def rbuffer_size_def)

lemma rbuffer_content_Nil: "rbuffer_inv d \<Longrightarrow> rbuffer_content d = [] \<longleftrightarrow> rbuffer_empty d"
  by (auto simp: rbuffer_inv_def rbuffer_content_def rbuffer_size_def rbuffer_empty_def)

lemma rewind_loop_spec:
  "0 \<le> mv \<Longrightarrow> mv \<le> sz \<Longrightarrow> 0 < blk \<Longrightarrow> blk \<le> off \<Longrightarrow> off + sz \<le> int (length data) \<Longrightarrow>
   \<exists>data'. rewind_loop data off sz blk mv = Some (data', sz) \<and> length data' = length data \<and>
     take (nat sz) data' = take (nat mv) data @ take (nat (sz - mv)) (drop (nat (off + mv)) data)"
proof (induction data off sz blk mv rule: rewind_loop.induct)
  case (1 data off sz blk mv)
  show ?case
  proof (cases "mv < sz")
    case False
    with "1.prems" show ?thesis by (auto simp: rewind_loop.simps)
  next
    case True
    define b where "b = (if mv + blk > sz then sz - mv else blk)"
    define xs where "xs = take (nat b) (drop (nat (off + mv)) data)"
    define data1 where "data1 = take (nat mv) data @ xs @ drop (nat mv + nat b) data"
    have b: "0 < b" "b \<le> off" "mv + b \<le> sz" using "1.prems" True by (auto simp: b_def)
    have xs: "length xs = nat b" using "1.prems" b by (simp add: xs_def)
    have copy: "mem_copy data mv (off + mv) b = Some data1"
      using "1.prems" b xs by (simp add: mem_copy_def mem_get_in mem_put_in xs_def data1_def)
    have len: "length data1 = length data"
      using "1.prems" b xs by (simp add: data1_def)
    have "\<exists>data'. rewind_loop data1 off sz b (mv + b) = Some (data', sz) \<and>
        length data' = length data1 \<and>
        take (nat sz) data' = take (nat (mv + b)) data1 @
          take (nat (sz - (mv + b))) (drop (nat (off + (mv + b))) data1)"
      using "1.prems" b len by (intro "1.IH" [OF True, OF b_def _ copy]) auto
    moreover have "take (nat (mv + b)) data1 = take (nat mv) data @ xs"
      using "1.prems" b xs splice_take [of xs "nat b" "nat mv" data] by (simp add: data1_def nat_add_distrib)
    moreover have "drop (nat (off + (mv + b))) data1 = drop (nat (off + (mv + b))) data"
      using "1.prems" b xs splice_drop [of xs "nat b" "nat mv" "nat (off + (mv + b))" data]
      by (simp add: data1_def)
    moreover have "take (nat (sz - mv)) (drop (nat (off + mv)) data) =
        xs @ take (nat (sz - (mv + b))) (drop (nat (off + (mv + b))) data)"
      using "1.prems" b mem_get_split [of b "sz - (mv + b)" "off + mv" data] by (simp add: xs_def algebra_simps)
    moreover have "rewind_loop data off sz blk mv = rewind_loop data1 off sz b (mv + b)"
      using True b copy by (subst rewind_loop.simps) (simp add: b_def [symmetric] Let_def)
    ultimately show ?thesis using len by auto
  qed
qed

lemma rewind_body_spec:
  assumes "rbuffer_inv d"
  shows "\<exists>d' n. rewind_body d = Some (d', n) \<and> rbuffer_inv d' \<and>
    rbuffer_content d' = rbuffer_content d \<and> rb_offset d' = 0 \<and> rb_pos d' = rbuffer_size d \<and>
    rb_capacity d' = rb_capacity d \<and> n = (if rb_offset d > 0 then rbuffer_size d else 0)"
proof (cases "rb_offset d > 0")
  case False
  with assms show ?thesis
    by (auto simp: rewind_body_def rbuffer_inv_def rbuffer_size_def)
next
  case True
  obtain data where "rewind_loop (rb_data d) (rb_offset d) (rbuffer_size d) (rb_offset d) 0
      = Some (data, rbuffer_size d)" "length data = length (rb_data d)"
      "take (nat (rbuffer_size d)) data = rbuffer_content d"
    using rewind_loop_spec [of 0 "rbuffer_size d" "rb_offset d" "rb_offset d" "rb_data d"] assms True
    by (auto simp: rbuffer_inv_def rbuffer_size_def rbuffer_content_def)
  with assms True show ?thesis
    by (auto simp: rewind_body_def rbuffer_inv_def rbuffer_size_def rbuffer_content_def)
qed


section \<open>What the operations do to the content\<close>

lemma rbuffer_create_spec:
  "int (length block) = cap \<Longrightarrow> cap \<le> INT_MAX \<Longrightarrow>
    \<exists>d. rbuffer_create block cap = Some d \<and> rbuffer_inv d \<and> rbuffer_content d = [] \<and>
      rb_capacity d = cap"
  by (auto simp: rbuffer_create_def rbuffer_inv_def rbuffer_content_def rbuffer_size_def)

lemma rbuffer_read_body:
  assumes "rbuffer_inv d" "0 \<le> n" "n \<le> int (length dest)"
  shows "\<exists>d'. rbuffer_read (Some d) (Some dest) n =
      Some (Some d', Some (take (nat n) (rbuffer_content d) @ drop (nat (min n (rbuffer_size d))) dest),
        min n (rbuffer_size d)) \<and>
    rbuffer_inv d' \<and> rbuffer_content d' = drop (nat n) (rbuffer_content d) \<and>
    rb_capacity d' = rb_capacity d \<and> rb_data d' = rb_data d \<and>
    (if n < rbuffer_size d then rb_offset d' = rb_offset d + n \<and> rb_pos d' = rb_pos d
     else rb_offset d' = 0 \<and> rb_pos d' = 0)"
proof -
  define m where "m = min n (rbuffer_size d)"
  have m: "(if n > rbuffer_size d then rbuffer_size d else n) = m" by (auto simp: m_def)
  have b: "0 \<le> m" "m \<le> n" "m \<le> rbuffer_size d" "0 \<le> rb_offset d"
      "rb_offset d + rbuffer_size d \<le> int (length (rb_data d))"
    using assms by (auto simp: m_def rbuffer_inv_def rbuffer_size_def)
  have "nat m = min (nat n) (nat (rbuffer_size d))" using assms b by (auto simp: m_def)
  then have get: "mem_get (rb_data d) (rb_offset d) m = Some (take (nat n) (rbuffer_content d))"
    using b by (simp add: mem_get_in rbuffer_content_def take_take min.commute)
  have len: "int (length (take (nat n) (rbuffer_content d))) = m"
    using mem_get_length [OF get] .
  then have nat_len: "length (take (nat n) (rbuffer_content d)) = nat m" by linarith
  have put: "mem_put dest 0 (take (nat n) (rbuffer_content d)) =
      Some (take (nat n) (rbuffer_content d) @ drop (nat m) dest)"
    using assms b len by (simp add: mem_put_in nat_len del: length_take)
  show ?thesis
  proof (cases "n < rbuffer_size d")
    case True
    then have "m = n" by (simp add: m_def)
    with True assms b get put m show ?thesis
      by (auto simp: rbuffer_read_def Let_def rbuffer_empty_def rbuffer_size_def rbuffer_inv_def
          rbuffer_content_def m_def [symmetric] drop_take nat_diff_distrib nat_add_distrib add.commute)
  next
    case False
    then have "m = rbuffer_size d" by (simp add: m_def)
    with False assms b get put m show ?thesis
      by (auto simp: rbuffer_read_def Let_def rbuffer_empty_def rbuffer_size_def rbuffer_inv_def
          rbuffer_content_def m_def [symmetric])
  qed
qed

lemma rbuffer_write_content:
  assumes "rbuffer_inv d" "0 \<le> n" "n \<le> rbuffer_left d" "n \<le> int (length src)"
  shows "\<exists>data. mem_put (rb_data d) (rb_pos d) (take (nat n) src) = Some data \<and>
    rbuffer_inv (d\<lparr>rb_data := data, rb_pos := rb_pos d + n\<rparr>) \<and>
    rbuffer_content (d\<lparr>rb_data := data, rb_pos := rb_pos d + n\<rparr>) =
      rbuffer_content d @ take (nat n) src"
proof -
  obtain data where put: "mem_put (rb_data d) (rb_pos d) (take (nat n) src) = Some data"
    using assms by (simp add: mem_put_in rbuffer_inv_def rbuffer_left_def)
  have ln: "length (take (nat n) src) = nat n" using assms by simp
  have data: "data = take (nat (rb_pos d)) (rb_data d) @ take (nat n) src @
      drop (nat (rb_pos d) + nat n) (rb_data d)" "nat (rb_pos d) \<le> length (rb_data d)"
    using put assms unfolding mem_put_Some ln by (auto simp: rbuffer_inv_def rbuffer_left_def)
  have len: "length data = length (rb_data d)" using mem_put_length [OF put] .
  have "take (nat (rb_pos d + n)) data = take (nat (rb_pos d)) (rb_data d) @ take (nat n) src"
    using assms splice_take [of "take (nat n) src" "nat n" "nat (rb_pos d)" "rb_data d"]
    by (simp add: data rbuffer_inv_def nat_add_distrib)
  then have "drop (nat (rb_offset d)) (take (nat (rb_pos d + n)) data) =
      rbuffer_content d @ take (nat n) src"
    using assms data(2) nat_mono [of "rb_offset d" "rb_pos d"]
    by (simp add: rbuffer_content_def rbuffer_inv_def rbuffer_size_def drop_take nat_diff_distrib)
  moreover have "nat (rb_pos d + n - rb_offset d) = nat (rb_pos d + n) - nat (rb_offset d)"
    using assms by (simp add: rbuffer_inv_def nat_diff_distrib)
  ultimately show ?thesis
    using put assms len
    by (auto simp: rbuffer_content_def rbuffer_size_def rbuffer_inv_def rbuffer_left_def drop_take)
qed


lemma rbuffer_write_body:
  assumes "rbuffer_inv d" "0 < n" "n \<le> int (length src)"
  shows "\<exists>d'. rbuffer_write (Some d) (Some src) n = Some (Some d', min n (rbuffer_left_write d)) \<and>
    rbuffer_inv d' \<and> rb_capacity d' = rb_capacity d \<and>
    rbuffer_content d' = rbuffer_content d @ take (nat (min n (rbuffer_left_write d))) src"
proof -
  obtain d1 where d1: "(if rbuffer_left d < n then map_option fst (rewind_body d) else Some d) = Some d1"
      "rbuffer_inv d1" "rbuffer_content d1 = rbuffer_content d" "rb_capacity d1 = rb_capacity d"
      "min n (rbuffer_left d1) = min n (rbuffer_left_write d)"
  proof (cases "rbuffer_left d < n")
    case True
    obtain e k where "rewind_body d = Some (e, k)" "rbuffer_inv e"
        "rbuffer_content e = rbuffer_content d" "rb_pos e = rbuffer_size d"
        "rb_capacity e = rb_capacity d"
      using rewind_body_spec [OF assms(1)] by blast
    with True show ?thesis
      by (intro that [of e]) (simp_all add: rbuffer_macros)
  next
    case False
    with assms show ?thesis
      by (intro that [of d]) (auto simp: rbuffer_macros rbuffer_inv_def)
  qed
  define k where "k = min n (rbuffer_left d1)"
  have k: "0 \<le> k" "k \<le> rbuffer_left d1" "k \<le> int (length src)"
    using assms d1(2) by (auto simp: k_def rbuffer_left_def rbuffer_inv_def)
  have k_if: "(if n \<le> rbuffer_left d1 then n else rbuffer_left d1) = k"
    by (auto simp: k_def)
  obtain data where data: "mem_put (rb_data d1) (rb_pos d1) (take (nat k) src) = Some data"
      "rbuffer_inv (d1\<lparr>rb_data := data, rb_pos := rb_pos d1 + k\<rparr>)"
      "rbuffer_content (d1\<lparr>rb_data := data, rb_pos := rb_pos d1 + k\<rparr>) =
        rbuffer_content d1 @ take (nat k) src"
    using rbuffer_write_content [OF d1(2) k] by blast
  have "rbuffer_write (Some d) (Some src) n =
      Some (Some (d1\<lparr>rb_data := data, rb_pos := rb_pos d1 + k\<rparr>), k)"
    using assms(2) d1(1) k data(1)
    by (simp add: rbuffer_write_def Let_def k_if mem_get_in)
  with data d1 show ?thesis by (auto simp: k_def)
qed

lemma rbuffer_seek_spec:
  assumes "rbuffer_inv d" "rb_offset d < rb_capacity d"
  shows "\<exists>d'. rbuffer_seek (Some d) p = (Some d', rcode_ok) \<and> rbuffer_inv d' \<and>
    rb_pos d' = max (rb_offset d) (min p (rb_capacity d - 1)) \<and> rb_offset d' = rb_offset d \<and>
    rb_data d' = rb_data d \<and> rb_capacity d' = rb_capacity d"
  using assms by (auto simp: rbuffer_seek_def rbuffer_inv_def)

lemma rbuffer_skip_spec:
  assumes "rbuffer_inv d" "INT_MIN \<le> rb_offset d + n" "rb_offset d + n \<le> INT_MAX"
  shows "\<exists>d'. rbuffer_skip (Some d) n = Some (Some d', rcode_ok) \<and> rbuffer_inv d' \<and>
    rb_offset d' = max 0 (min (rb_offset d + n) (rb_pos d)) \<and> rb_pos d' = rb_pos d \<and>
    rb_data d' = rb_data d \<and> rb_capacity d' = rb_capacity d"
  using assms by (auto simp: rbuffer_skip_def rbuffer_inv_def int32_in_range Let_def)

lemma rbuffer_clear_spec:
  "rbuffer_inv d \<Longrightarrow> \<exists>d'. rbuffer_clear (Some d) = Some d' \<and> rbuffer_inv d' \<and>
    rbuffer_content d' = [] \<and> rb_capacity d' = rb_capacity d"
  by (auto simp: rbuffer_clear_def rbuffer_inv_def rbuffer_content_def rbuffer_size_def)

section \<open>The interface: a bounded first-in first-out byte string\<close>

datatype fifo_op = Put bytes | Get int

fun fifo_op_ok :: "fifo_op \<Rightarrow> bool" where
  "fifo_op_ok (Put xs) \<longleftrightarrow> xs \<noteq> [] \<and> int (length xs) \<le> INT_MAX"
| "fifo_op_ok (Get n) \<longleftrightarrow> 0 \<le> n"

text \<open>A sequence of operations, with the bytes that were accepted and the bytes that came out.\<close>

fun fifo_run ::
  "('b \<Rightarrow> bytes \<Rightarrow> ('b \<times> int) option) \<Rightarrow> ('b \<Rightarrow> int \<Rightarrow> ('b \<times> bytes) option) \<Rightarrow>
    'b \<Rightarrow> fifo_op list \<Rightarrow> ('b \<times> bytes \<times> bytes) option"
where
  "fifo_run put get b [] = Some (b, [], [])"
| "fifo_run put get b (Put xs # ops) = do {
     (b1, k) \<leftarrow> put b xs;
     (b2, sent, recvd) \<leftarrow> fifo_run put get b1 ops;
     Some (b2, take (nat k) xs @ sent, recvd)
   }"
| "fifo_run put get b (Get n # ops) = do {
     (b1, ys) \<leftarrow> get b n;
     (b2, sent, recvd) \<leftarrow> fifo_run put get b1 ops;
     Some (b2, sent, ys @ recvd)
   }"

locale byte_fifo =
  fixes inv :: "'b \<Rightarrow> bool"
    and content :: "'b \<Rightarrow> bytes"
    and cap :: "'b \<Rightarrow> int"
    and put :: "'b \<Rightarrow> bytes \<Rightarrow> ('b \<times> int) option"
    and get :: "'b \<Rightarrow> int \<Rightarrow> ('b \<times> bytes) option"
  assumes bounded: "inv b \<Longrightarrow> int (length (content b)) \<le> cap b"
    and put_law: "inv b \<Longrightarrow> fifo_op_ok (Put xs) \<Longrightarrow> k = min (int (length xs)) (cap b - int (length (content b))) \<Longrightarrow>
      \<exists>b'. put b xs = Some (b', k) \<and> inv b' \<and> cap b' = cap b \<and> content b' = content b @ take (nat k) xs"
    and get_law: "inv b \<Longrightarrow> 0 \<le> n \<Longrightarrow>
      \<exists>b'. get b n = Some (b', take (nat n) (content b)) \<and> inv b' \<and> cap b' = cap b \<and>
        content b' = drop (nat n) (content b)"
begin

lemma stream:
  "inv b \<Longrightarrow> list_all fifo_op_ok ops \<Longrightarrow>
    \<exists>b' sent recvd. fifo_run put get b ops = Some (b', sent, recvd) \<and> inv b' \<and> cap b' = cap b \<and>
      content b @ sent = recvd @ content b'"
proof (induction ops arbitrary: b)
  case (Cons op ops)
  show ?case
  proof (cases op)
    case (Put xs)
    obtain b1 k where 1: "put b xs = Some (b1, k)" "inv b1" "cap b1 = cap b"
        "content b1 = content b @ take (nat k) xs"
      using put_law [of b xs] Cons.prems Put by (auto simp del: fifo_op_ok.simps)
    with Cons.IH [of b1] Cons.prems Put show ?thesis by fastforce
  next
    case (Get n)
    obtain b1 where 1: "get b n = Some (b1, take (nat n) (content b))" "inv b1" "cap b1 = cap b"
        "content b1 = drop (nat n) (content b)"
      using get_law [of b n] Cons.prems Get by auto
    obtain b2 sent recvd where 2: "fifo_run put get b1 ops = Some (b2, sent, recvd)" "inv b2"
        "cap b2 = cap b1" "content b1 @ sent = recvd @ content b2"
      using Cons.IH [of b1] Cons.prems 1(2) by auto
    have "content b @ sent = take (nat n) (content b) @ recvd @ content b2"
      using 1(4) 2(4) by (metis append.assoc append_take_drop_id)
    with 1 2 Get show ?thesis by simp
  qed
qed simp

text \<open>A message that fits is taken as a whole, and a reader that asks for its length gets it.\<close>

lemma put_get_whole:
  assumes "inv b" "fifo_op_ok (Put xs)" "content b = []" "int (length xs) \<le> cap b"
  shows "\<exists>b' b''. put b xs = Some (b', int (length xs)) \<and> get b' (int (length xs)) = Some (b'', xs) \<and>
    inv b'' \<and> content b'' = []"
proof -
  obtain b' where 1: "put b xs = Some (b', int (length xs))" "inv b'" "content b' = xs"
    using put_law [OF assms(1,2) refl] assms(3,4) by auto
  with get_law [of b' "int (length xs)"] show ?thesis by auto
qed

end

text \<open>The two operations of the code, as an owner of a buffer calls them.\<close>

definition rb_put :: "rbuffer \<Rightarrow> bytes \<Rightarrow> (rbuffer \<times> int) option" where
  "rb_put d xs = do {
     (dp, k) \<leftarrow> rbuffer_write (Some d) (Some xs) (int (length xs));
     d' \<leftarrow> dp;
     Some (d', k)
   }"

definition rb_get :: "rbuffer \<Rightarrow> int \<Rightarrow> (rbuffer \<times> bytes) option" where
  "rb_get d n = do {
     (dp, val, k) \<leftarrow> rbuffer_read (Some d) (Some (replicate (nat n) 0)) n;
     d' \<leftarrow> dp;
     ys \<leftarrow> val;
     Some (d', take (nat k) ys)
   }"

interpretation rb: byte_fifo rbuffer_inv rbuffer_content rb_capacity rb_put rb_get
proof
  show "int (length (rbuffer_content b)) \<le> rb_capacity b" if "rbuffer_inv b" for b
    using that by (rule rbuffer_content_bound)
next
  fix b xs k
  assume *: "rbuffer_inv b" "fifo_op_ok (Put xs)"
    "k = min (int (length xs)) (rb_capacity b - int (length (rbuffer_content b)))"
  have "k = min (int (length xs)) (rbuffer_left_write b)"
    using *(1,3) by (simp add: rbuffer_content_length rbuffer_size_def rbuffer_left_write_def)
  then show "\<exists>b'. rb_put b xs = Some (b', k) \<and> rbuffer_inv b' \<and> rb_capacity b' = rb_capacity b \<and>
      rbuffer_content b' = rbuffer_content b @ take (nat k) xs"
    using rbuffer_write_body [of b "int (length xs)" xs] *(1,2) by (auto simp: rb_put_def)
next
  fix b and n :: int
  assume *: "rbuffer_inv b" "0 \<le> n"
  have len: "length (take (nat n) (rbuffer_content b)) = nat (min n (rbuffer_size b))"
    using * rbuffer_content_length [OF *(1)] by (simp add: min_def) linarith
  have cut: "take (nat (min n (rbuffer_size b))) (take (nat n) (rbuffer_content b) @ ys) =
      take (nat n) (rbuffer_content b)" for ys
    unfolding len [symmetric] by (rule take_length_append)
  show "\<exists>b'. rb_get b n = Some (b', take (nat n) (rbuffer_content b)) \<and> rbuffer_inv b' \<and>
      rb_capacity b' = rb_capacity b \<and> rbuffer_content b' = drop (nat n) (rbuffer_content b)"
    using rbuffer_read_body [of b n "replicate (nat n) 0"] *
    by (auto simp: rb_get_def cut simp del: take_append)
qed

section \<open>Properties\<close>

text \<open>
  C17: Whatever sequence of writes and reads a user of the buffer performs, with whatever chunk
  sizes, every operation returns, the invariant holds, and the bytes accepted by the writes come
  out of the reads unchanged, once each and in order; what is left is the content of the buffer.
\<close>

theorem rbuffer_stream:
  assumes "rbuffer_inv d" "list_all fifo_op_ok ops"
  shows "\<exists>d' sent recvd. fifo_run rb_put rb_get d ops = Some (d', sent, recvd) \<and> rbuffer_inv d' \<and>
    rb_capacity d' = rb_capacity d \<and> rbuffer_content d @ sent = recvd @ rbuffer_content d'"
  by (rule rb.stream [OF assms])

definition rbuffer_demo :: rbuffer where
  "rbuffer_demo = \<lparr>rb_data = [1, 2, 3, 4], rb_offset = 1, rb_pos = 3, rb_capacity = 4\<rparr>"

theorem rbuffer_stream_witness:
  "\<exists>d' sent recvd. fifo_run rb_put rb_get rbuffer_demo [Put [7, 8], Get 3] = Some (d', sent, recvd) \<and>
    rbuffer_inv d' \<and> rb_capacity d' = rb_capacity rbuffer_demo \<and>
    rbuffer_content rbuffer_demo @ sent = recvd @ rbuffer_content d'"
  by (rule rbuffer_stream) (simp_all add: rbuffer_demo_def rbuffer_inv_def)

text \<open>
  A write of \<open>n > 0\<close> bytes compacts the buffer when the bytes do not fit behind the write
  position, and accepts \<open>min n (capacity - unread bytes)\<close> of them, appended to the unread bytes; a
  count of zero or less stands for the length of the C string; null pointers write nothing.
\<close>

theorem rbuffer_write_accepts:
  assumes "rbuffer_inv d"
  shows "rbuffer_write None v n = Some (None, 0) \<and>
    rbuffer_write (Some d) None n = Some (Some d, 0) \<and>
    (0 < m \<and> m \<le> int (length src) \<and> (m = n \<or> n \<le> 0 \<and> c_strlen src = Some m) \<longrightarrow>
      (\<exists>d'. rbuffer_write (Some d) (Some src) n = Some (Some d', min m (rbuffer_left_write d)) \<and>
        rbuffer_inv d' \<and> rb_capacity d' = rb_capacity d \<and>
        rbuffer_content d' = rbuffer_content d @ take (nat (min m (rbuffer_left_write d))) src))"
proof (intro conjI impI)
  assume *: "0 < m \<and> m \<le> int (length src) \<and> (m = n \<or> n \<le> 0 \<and> c_strlen src = Some m)"
  then have "rbuffer_write (Some d) (Some src) n = rbuffer_write (Some d) (Some src) m"
    by (auto simp: rbuffer_write_def)
  with rbuffer_write_body [OF assms] * show "\<exists>d'. rbuffer_write (Some d) (Some src) n =
      Some (Some d', min m (rbuffer_left_write d)) \<and>
        rbuffer_inv d' \<and> rb_capacity d' = rb_capacity d \<and>
        rbuffer_content d' = rbuffer_content d @ take (nat (min m (rbuffer_left_write d))) src"
    by simp
qed (simp_all add: rbuffer_write_def)

theorem rbuffer_write_accepts_witness:
  "\<exists>d'. rbuffer_write (Some rbuffer_demo) (Some [5, 6, 7, 8, 0]) 0 =
      Some (Some d', min 4 (rbuffer_left_write rbuffer_demo)) \<and> rbuffer_inv d' \<and>
    rb_capacity d' = rb_capacity rbuffer_demo \<and>
    rbuffer_content d' = rbuffer_content rbuffer_demo @
      take (nat (min 4 (rbuffer_left_write rbuffer_demo))) [5, 6, 7, 8, 0]"
  using rbuffer_write_accepts [of rbuffer_demo None 0 4 "[5, 6, 7, 8, 0]"]
  by (simp add: rbuffer_demo_def rbuffer_inv_def)

text \<open>
  C39: Every operation keeps \<open>0 \<le> offset \<le> pos \<le> capacity\<close>, except \<open>rbuffer_seek\<close> beyond the end of
  a buffer whose read position already is at its end: the clamp to \<open>capacity - 1\<close> then moves the
  write position before the read position.
\<close>

theorem rbuffer_ops_inv:
  assumes "rbuffer_inv d"
  shows "(rbuffer_read (Some d) v n = Some (Some d1, v', k1) \<and> 0 \<le> n \<longrightarrow> rbuffer_inv d1) \<and>
    (rbuffer_rewind (Some d) = Some (Some d2, k2) \<longrightarrow> rbuffer_inv d2) \<and>
    (rbuffer_skip (Some d) n = Some (Some d3, k3) \<longrightarrow> rbuffer_inv d3) \<and>
    (rbuffer_revert (Some d) = (Some d4, k4) \<longrightarrow> rbuffer_inv d4) \<and>
    (rbuffer_clear (Some d) = Some d5 \<longrightarrow> rbuffer_inv d5) \<and>
    (rbuffer_seek (Some d) n = (Some d6, k6) \<longrightarrow>
      rbuffer_inv d6 = (rb_offset d < rb_capacity d \<or> n < rb_offset d))"
proof (intro conjI impI)
  assume r: "rbuffer_read (Some d) v n = Some (Some d1, v', k1) \<and> 0 \<le> n"
  show "rbuffer_inv d1"
    using assms r by (cases v) (auto simp: rbuffer_read_def Let_def bind_eq_Some_conv rbuffer_inv_def
        rbuffer_size_def rbuffer_empty_def split: if_splits)
next
  assume "rbuffer_rewind (Some d) = Some (Some d2, k2)"
  with rewind_body_spec [OF assms] show "rbuffer_inv d2" by (auto simp: rbuffer_rewind_def)
next
  assume "rbuffer_skip (Some d) n = Some (Some d3, k3)"
  with assms show "rbuffer_inv d3"
    by (auto simp: rbuffer_skip_def rbuffer_inv_def int32_eq_Some bind_eq_Some_conv Let_def split: if_splits)
next
  assume "rbuffer_seek (Some d) n = (Some d6, k6)"
  with assms show "rbuffer_inv d6 = (rb_offset d < rb_capacity d \<or> n < rb_offset d)"
    by (auto simp: rbuffer_seek_def rbuffer_inv_def split: if_splits)
qed (use assms in \<open>auto simp: rbuffer_revert_def rbuffer_clear_def rbuffer_inv_def\<close>)

theorem rbuffer_ops_inv_witness:
  "rbuffer_inv (rbuffer_demo\<lparr>rb_pos := 3\<rparr>) \<and>
   \<not> rbuffer_inv \<lparr>rb_data = [1, 2], rb_offset = 2, rb_pos = 1, rb_capacity = 2\<rparr>"
proof
  have "rbuffer_inv rbuffer_demo" by (simp add: rbuffer_demo_def rbuffer_inv_def)
  from rbuffer_ops_inv [OF this, where n = 9 and ?k6.0 = 0 and ?d6.0 = "rbuffer_demo\<lparr>rb_pos := 3\<rparr>"]
  show "rbuffer_inv (rbuffer_demo\<lparr>rb_pos := 3\<rparr>)"
    by (simp add: rbuffer_demo_def rbuffer_seek_def)
next
  let ?d = "\<lparr>rb_data = [1, 2], rb_offset = 2, rb_pos = 2, rb_capacity = 2\<rparr> :: rbuffer"
  have "rbuffer_inv ?d" by (simp add: rbuffer_inv_def)
  from rbuffer_ops_inv [OF this, where n = 2 and ?k6.0 = 0 and ?d6.0 = "?d\<lparr>rb_pos := 1\<rparr>"]
  show "\<not> rbuffer_inv \<lparr>rb_data = [1, 2], rb_offset = 2, rb_pos = 1, rb_capacity = 2\<rparr>"
    by (simp add: rbuffer_seek_def)
qed

end
