(* ===== verification/RIpc.thy ===== *)
theory RIpc
  imports RBuffer
begin

text \<open>
  The vocabulary of the inter-process layer (\<open>ipc/include/ripc.h\<close>, \<open>ipc/src/ripc.c\<close>): the
  data source types and states, the error codes, the data source with its two buffers, and
  \<open>ripc_on_code\<close>.
\<close>

datatype ripc_data_source_type =
  ripc_data_source_type_unknown | ripc_data_source_type_server | ripc_data_source_type_client
| ripc_data_source_type_peer | ripc_data_source_type_session | ripc_data_source_type_mix

datatype ripc_state =
  ripc_state_unknown | ripc_state_init | ripc_state_ready_pending | ripc_state_ready
| ripc_state_start | ripc_state_stop | ripc_state_disconnect | ripc_state_closed
| ripc_state_error | ripc_state_full | ripc_state_timeout | ripc_state_uninit

datatype ripc_err =
  rcode_err_ipc_connect | rcode_err_ipc_timeout | rcode_err_ipc_disconnect
| rcode_err_ipc_broken_pipe_in | rcode_err_ipc_broken_pipe_out | rcode_err_ipc_encode
| rcode_err_ipc_decode | rcode_err_ipc_version | rcode_err_ipc_magic
| rcode_err_ipc_cache_full | rcode_err_ipc_cache_null

text \<open>The numeric value of an enumerator; the first one is set to 12002.\<close>

fun ipc_code :: "ripc_err \<Rightarrow> int" where
  "ipc_code rcode_err_ipc_connect = 12002"
| "ipc_code rcode_err_ipc_timeout = 12003"
| "ipc_code rcode_err_ipc_disconnect = 12004"
| "ipc_code rcode_err_ipc_broken_pipe_in = 12005"
| "ipc_code rcode_err_ipc_broken_pipe_out = 12006"
| "ipc_code rcode_err_ipc_encode = 12007"
| "ipc_code rcode_err_ipc_decode = 12008"
| "ipc_code rcode_err_ipc_version = 12009"
| "ipc_code rcode_err_ipc_magic = 12010"
| "ipc_code rcode_err_ipc_cache_full = 12011"
| "ipc_code rcode_err_ipc_cache_null = 12012"

abbreviation (input) rcode_err_ipc_begin :: int where "rcode_err_ipc_begin \<equiv> 12000"
abbreviation (input) rcode_err_ipc_end :: int where "rcode_err_ipc_end \<equiv> 12199"

lemma ipc_code_inject [simp]: "ipc_code a = ipc_code b \<longleftrightarrow> a = b"
  by (cases a; cases b) simp_all

lemma ipc_code_range: "12001 < ipc_code e" "ipc_code e < 12199"
  by (cases e; simp)+

lemma ipc_code_not_ok [simp]: "ipc_code e \<noteq> 0" "0 \<noteq> ipc_code e"
  using ipc_code_range [of e] by auto

text \<open>
  \<open>ripc_on_code\<close>: a disconnect is absorbed, every other code is handed on.  The handler, the data
  source and the data are not used.
\<close>

definition ripc_on_code :: "int \<Rightarrow> int" where
  "ripc_on_code code =
    (if code \<le> rcode_err_ipc_begin \<or> code \<ge> rcode_err_ipc_end then code
     else if code = ipc_code rcode_err_ipc_disconnect then rcode_err_ok
     else code)"

record ripc_data_source =
  ds_id :: "64 word"
  ds_type :: ripc_data_source_type
  ds_state :: ripc_state
  ds_read_cache :: "rbuffer option"
  ds_write_buff :: "rbuffer option"

lemma ripc_on_code_ok_iff:
  "ripc_on_code code = rcode_err_ok \<longleftrightarrow> code = rcode_err_ok \<or> code = ipc_code rcode_err_ipc_disconnect"
  by (auto simp: ripc_on_code_def)

end
