(* ===== verification/RCodec.thy ===== *)
theory RCodec
  imports RIpc
begin

text \<open>
  The framing codec of \<open>ipc/src/rcodec_default.c\<close>: a message is sent as a packed 32-byte head in
  network byte order followed by the payload.  The theory holds the head layout on a
  little-endian host, the byte order conversions, the encoder and the decoder with their
  callbacks, and the lemmas on what they put on and take from the wire.
\<close>

unbundle bit_operations_syntax

section \<open>Words in memory\<close>

text \<open>The \<open>n\<close> low bytes of a word, as a little-endian host stores them, and back.\<close>

fun le_bytes :: "nat \<Rightarrow> 'a::len word \<Rightarrow> bytes" where
  "le_bytes 0 w = []"
| "le_bytes (Suc n) w = ucast w # le_bytes n (drop_bit 8 w)"

fun le_word :: "bytes \<Rightarrow> 'a::len word" where
  "le_word [] = 0"
| "le_word (b # bs) = ucast b OR push_bit 8 (le_word bs)"

lemma le_bytes_length [simp]: "length (le_bytes n w) = n"
  by (induction n arbitrary: w) auto

lemma le_word_le_bytes: "le_word (le_bytes n w) = take_bit (8 * n) w"
proof (induction n arbitrary: w)
  case (Suc n)
  show ?case
    by (rule bit_eqI) (auto simp: Suc bit_simps)
qed simp

lemma le_bytes_take_bit: "8 * n \<le> m \<Longrightarrow> le_bytes n (take_bit m w) = le_bytes n w"
proof (induction n arbitrary: m w)
  case (Suc n)
  have "(ucast (take_bit m w) :: byte) = ucast w"
    using Suc.prems by (intro bit_eqI) (auto simp: bit_simps)
  moreover have "drop_bit 8 (take_bit m w) = take_bit (m - 8) (drop_bit 8 w)"
    using Suc.prems by (intro bit_eqI) (auto simp: bit_simps)
  ultimately show ?case using Suc by simp
qed simp

lemma le_bytes_le_word:
  "8 * length bs \<le> LENGTH('a) \<Longrightarrow> le_bytes (length bs) (le_word bs :: 'a::len word) = bs"
proof (induction bs)
  case (Cons b bs)
  have low: "(ucast (ucast b OR push_bit 8 (le_word bs :: 'a word)) :: byte) = b"
    using Cons.prems by (intro bit_eqI) (auto simp: bit_simps)
  have "drop_bit 8 (ucast b OR push_bit 8 (le_word bs :: 'a word)) = take_bit (LENGTH('a) - 8) (le_word bs :: 'a word)"
    by (intro bit_eqI) (auto simp: bit_simps dest: bit_imp_le_length)
  with Cons low show ?case by (simp add: le_bytes_take_bit)
qed simp

text \<open>
  The byte order conversions of the socket library on a little-endian host: \<open>htonl\<close> and \<open>ntohl\<close>,
  \<open>htonll\<close> and \<open>ntohll\<close> are the same reversal of the bytes.
\<close>

definition hton32 :: "32 word \<Rightarrow> 32 word" where
  "hton32 w = le_word (rev (le_bytes 4 w))"

definition hton64 :: "64 word \<Rightarrow> 64 word" where
  "hton64 w = le_word (rev (le_bytes 8 w))"

lemma le_bytes_hton32: "le_bytes 4 (hton32 w) = rev (le_bytes 4 w)"
  using le_bytes_le_word [where 'a = 32, of "rev (le_bytes 4 w)"] by (simp add: hton32_def)

lemma le_bytes_hton64: "le_bytes 8 (hton64 w) = rev (le_bytes 8 w)"
  using le_bytes_le_word [where 'a = 64, of "rev (le_bytes 8 w)"] by (simp add: hton64_def)

lemma hton32_hton32 [simp]: "hton32 (hton32 w) = w"
  by (subst hton32_def) (simp add: le_bytes_hton32 le_word_le_bytes take_bit_word_eq_self)

lemma hton64_hton64 [simp]: "hton64 (hton64 w) = w"
  by (subst hton64_def) (simp add: le_bytes_hton64 le_word_le_bytes take_bit_word_eq_self)

section \<open>The message head\<close>

text \<open>\<open>ripc_data_default_t\<close>; the signed fields are kept as their 32-bit patterns.\<close>

record ripc_data_default =
  id_version :: byte
  id_magic :: bytes
  id_len :: "32 word"
  id_cmd :: "32 word"
  id_sid :: "64 word"
  id_crc :: "32 word"
  id_reserve0 :: "64 word"
  id_data :: "bytes option"

definition ripc_head_default_magic :: bytes where
  "ripc_head_default_magic = [0x52, 0x61, 0x79]"

abbreviation (input) full_head_len :: int where "full_head_len \<equiv> 32"
abbreviation (input) data_head_len :: int where "data_head_len \<equiv> 24"

text \<open>The first 32 bytes of the packed struct, and the struct with these bytes overwritten.\<close>

definition head_bytes :: "ripc_data_default \<Rightarrow> bytes" where
  "head_bytes m = [id_version m] @ id_magic m @ le_bytes 4 (id_len m) @ le_bytes 4 (id_cmd m) @
    le_bytes 8 (id_sid m) @ le_bytes 4 (id_crc m) @ le_bytes 8 (id_reserve0 m)"

definition head_of_bytes :: "bytes \<Rightarrow> ripc_data_default" where
  "head_of_bytes h =
    \<lparr>id_version = h ! 0, id_magic = take 3 (drop 1 h), id_len = le_word (take 4 (drop 4 h)),
     id_cmd = le_word (take 4 (drop 8 h)), id_sid = le_word (take 8 (drop 12 h)),
     id_crc = le_word (take 4 (drop 20 h)), id_reserve0 = le_word (take 8 (drop 24 h)),
     id_data = None\<rparr>"

lemma head_bytes_length: "length (id_magic m) = 3 \<Longrightarrow> length (head_bytes m) = 32"
  by (simp add: head_bytes_def)

lemma head_of_head_bytes:
  "length (id_magic m) = 3 \<Longrightarrow> head_of_bytes (head_bytes m) = m\<lparr>id_data := None\<rparr>"
  by (simp add: head_of_bytes_def head_bytes_def le_word_le_bytes take_bit_word_eq_self)

text \<open>The conversion of every field, as the encoder and the decoder write it.\<close>

definition head_to_net :: "64 word \<Rightarrow> ripc_data_default \<Rightarrow> ripc_data_default" where
  "head_to_net sid m = m\<lparr>id_cmd := hton32 (id_cmd m), id_sid := hton64 sid,
    id_crc := hton32 (id_crc m), id_reserve0 := ucast (hton32 (ucast (id_reserve0 m)))\<rparr>"

definition head_of_net :: "ripc_data_default \<Rightarrow> ripc_data_default" where
  "head_of_net m = m\<lparr>id_len := hton32 (id_len m), id_cmd := hton32 (id_cmd m),
    id_sid := hton64 (id_sid m), id_crc := hton32 (id_crc m), id_reserve0 := hton64 (id_reserve0 m)\<rparr>"

section \<open>Encoding\<close>

type_synonym ipc_handler =
  "ripc_data_source \<Rightarrow> ripc_data_default \<Rightarrow> (ripc_data_source \<times> ripc_data_default \<times> int) option"

text \<open>\<open>rbuffer_left(...) < (ipc_data->len + header_len)\<close> compares unsigned 32-bit values.\<close>

definition encode_on_before :: "ripc_data_source \<Rightarrow> ripc_data_default \<Rightarrow> (ripc_data_source \<times> int) option" where
  "encode_on_before ds data = do {
     b \<leftarrow> ds_write_buff ds;
     (bp, _) \<leftarrow> (if rbuffer_size b = 0 then rbuffer_rewind (Some b) else Some (Some b, 0));
     b1 \<leftarrow> bp;
     let ds1 = ds\<lparr>ds_write_buff := bp\<rparr>;
     Some (ds1, if word_of_int (rbuffer_left b1) < id_len data + 32
                then ipc_code rcode_err_ipc_cache_full else rcode_err_ok)
   }"

definition encode_on_after :: "ipc_handler option \<Rightarrow> ipc_handler" where
  "encode_on_after next_process ds data = (case next_process of
     Some process \<Rightarrow> process ds data
   | None \<Rightarrow> Some (ds, data, rcode_err_ok))"

definition encode_process :: "ipc_handler option \<Rightarrow> ipc_handler" where
  "encode_process next_process ds data = do {
     (ds1, ret_code) \<leftarrow> encode_on_before ds data;
     if ret_code \<noteq> rcode_err_ok then Some (ds1, data, ret_code)
     else do {
       let payload_len = sint (id_len data);
       total \<leftarrow> int32 (data_head_len + payload_len);
       let data1 = head_to_net (ds_id ds) (data\<lparr>id_version := 0,
         id_magic := ripc_head_default_magic, id_len := hton32 (word_of_int total)\<rparr>);
       (bp, write_len) \<leftarrow> rbuffer_write (ds_write_buff ds1) (Some (head_bytes data1)) full_head_len;
       if write_len \<noteq> full_head_len then do {
         (bp', _) \<leftarrow> rbuffer_read_ext bp (- write_len);
         Some (ds1\<lparr>ds_write_buff := bp'\<rparr>, head_of_net data1, ipc_code rcode_err_ipc_cache_full)
       } else do {
         (bp1, write_len1) \<leftarrow> rbuffer_write bp (id_data data1) payload_len;
         let ds2 = ds1\<lparr>ds_write_buff := bp1\<rparr>;
         if write_len1 \<noteq> payload_len then do {
           (bp2, _) \<leftarrow> rbuffer_read_ext bp1 (- write_len1 - full_head_len);
           Some (ds2\<lparr>ds_write_buff := bp2\<rparr>, data1, ipc_code rcode_err_ipc_cache_full)
         } else do {
           (ds3, data2, ret) \<leftarrow> encode_on_after next_process ds2 data1;
           if ret \<noteq> rcode_err_ok then do {
             (bp3, _) \<leftarrow> rbuffer_read_ext (ds_write_buff ds3) (- write_len1 - full_head_len);
             Some (ds3\<lparr>ds_write_buff := bp3\<rparr>, data2, ret)
           } else Some (ds3, data2, ret)
         }
       }
     }
   }"

section \<open>Decoding\<close>

text \<open>
  What the decoder calls.  \<open>de_malloc n\<close> says whether \<open>raymalloc\<close> of \<open>n\<close> bytes succeeds.  The entry
  functions \<open>send\<close> and \<open>stop\<close> of the session work on what lies behind the data source (the write
  side and the socket context), the state \<open>'w\<close>.  \<open>de_local\<close> is the uninitialised local \<open>data_send\<close>.
\<close>

record 'w decode_env =
  de_malloc :: "int \<Rightarrow> bool"
  de_send :: "ripc_data_default \<Rightarrow> 'w \<Rightarrow> 'w option"
  de_stop :: "'w \<Rightarrow> 'w option"
  de_local :: ripc_data_default

text \<open>A message as the decoder holds it: the head in host order and the payload.\<close>

type_synonym ipc_msg = "ripc_data_default \<times> bytes"

definition server_response_suffix :: bytes where
  "server_response_suffix = map of_char '' - server response.''"

definition session_response :: "'w decode_env \<Rightarrow> bytes \<Rightarrow> ripc_data_default" where
  "session_response env payload =
    (let joined = takeWhile (\<lambda>c. c \<noteq> 0) payload @ server_response_suffix
     in (de_local env)\<lparr>id_cmd := 101, id_data := Some (joined @ [0]),
          id_len := word_of_int (int (length joined))\<rparr>)"

definition decode_dispatch ::
  "'w decode_env \<Rightarrow> ripc_data_source_type \<Rightarrow> ipc_msg \<Rightarrow> 'w \<Rightarrow> 'w option"
where
  "decode_dispatch env ty msg w =
    (if ty = ripc_data_source_type_session then do {
       w1 \<leftarrow> de_send env (session_response env (snd msg)) w;
       if id_cmd (fst msg) = 999 then de_stop env w1 else Some w1
     } else Some w)"

text \<open>
  One round of the loop of \<open>decode_process\<close>: it leaves the loop (\<open>Inl\<close>, with the error code or
  \<open>rcode_err_ok\<close> for \<open>break\<close>) or it has taken one message off the buffer (\<open>Inr\<close>).  A negative
  size handed to \<open>raymalloc\<close> is a huge unsigned one, which fails; the null pointer then makes
  \<open>rbuffer_read\<close> return 0.
\<close>

definition decode_head :: "bytes \<Rightarrow> ripc_data_default" where
  "decode_head h = head_of_net (head_of_bytes h)"

definition payload_len :: "ripc_data_default \<Rightarrow> int" where
  "payload_len m = sint (id_len m - 24)"

definition decode_one :: "'w decode_env \<Rightarrow> rbuffer \<Rightarrow> ((rbuffer option \<times> int) + (rbuffer \<times> ipc_msg)) option" where
  "decode_one env d = do {
     (dp1, hv, read_len) \<leftarrow> rbuffer_read (Some d) (Some (replicate 32 0)) full_head_len;
     h \<leftarrow> hv;
     if read_len \<noteq> full_head_len then do {
       (dp2, _) \<leftarrow> rbuffer_read_ext dp1 (- read_len);
       Some (Inl (dp2, rcode_err_ok))
     }
     else if id_magic (head_of_bytes h) \<noteq> ripc_head_default_magic
     then Some (Inl (rbuffer_clear dp1, ipc_code rcode_err_ipc_magic))
     else do {
       let m = decode_head h;
       let require_len = payload_len m;
       n \<leftarrow> int32 (require_len + 1);
       let block = (if 0 \<le> n \<and> de_malloc env n then Some (replicate (nat n) 0) else None);
       (dp2, pv, read_len2) \<leftarrow> rbuffer_read dp1 block require_len;
       if read_len2 \<noteq> require_len then do {
         (dp3, _) \<leftarrow> rbuffer_read_ext dp2 (- read_len2);
         Some (Inl (dp3, rcode_err_ok))
       }
       else do {
         pb \<leftarrow> pv;
         d2 \<leftarrow> dp2;
         payload \<leftarrow> mem_get pb 0 require_len;
         Some (Inr (d2, m, payload))
       }
     }
   }"

text \<open>Every message taken off the buffer shortens it by its head.\<close>

lemma rbuffer_read_size:
  assumes "rbuffer_read (Some d) v n = Some (Some d', v', k)"
  shows "rbuffer_size d' = rbuffer_size d - k \<or> k = 0 \<and> d' = d"
  using assms
  by (cases v) (auto simp: rbuffer_read_def Let_def bind_eq_Some_conv rbuffer_size_def
      rbuffer_empty_def split: if_splits)

lemma rbuffer_read_nonneg:
  "rbuffer_read (Some d) v n = Some (Some d', v', k) \<Longrightarrow> 0 \<le> k"
  by (cases v) (auto simp: rbuffer_read_def Let_def bind_eq_Some_conv mem_get_Some)

lemma rbuffer_read_le_size:
  "rbuffer_read (Some d) (Some v) n = Some (Some d', v', k) \<Longrightarrow> k \<le> rbuffer_size d"
  by (auto simp: rbuffer_read_def Let_def bind_eq_Some_conv)

lemma rbuffer_read_ptr:
  "rbuffer_read (Some d) v n = Some (dp, v', k) \<Longrightarrow> \<exists>d'. dp = Some d'"
  by (cases v) (auto simp: rbuffer_read_def Let_def bind_eq_Some_conv)

lemma decode_one_shrinks:
  assumes "decode_one env d = Some (Inr (d', m))"
  shows "rbuffer_size d' + 32 \<le> rbuffer_size d \<and> 32 \<le> rbuffer_size d"
proof -
  obtain dp1 hv k where 1: "rbuffer_read (Some d) (Some (replicate 32 0)) 32 = Some (dp1, hv, k)"
    using assms by (fastforce simp: decode_one_def bind_eq_Some_conv)
  obtain d1 where d1: "dp1 = Some d1" using rbuffer_read_ptr [OF 1] by blast
  obtain v n k2 v2 where k: "k = 32" and 2: "rbuffer_read (Some d1) v n = Some (Some d', v2, k2)"
    using assms 1 d1 by (auto simp: decode_one_def bind_eq_Some_conv Let_def split: if_splits prod.splits)
  show ?thesis
    using rbuffer_read_size [OF 1 [unfolded d1]] rbuffer_read_le_size [OF 1 [unfolded d1]]
      rbuffer_read_size [OF 2] rbuffer_read_nonneg [OF 2] k by auto
qed

text \<open>
  The loop, with the messages it received (the ones its \<open>rdebug\<close> reports) in order.
\<close>

function decode_loop ::
  "'w decode_env \<Rightarrow> ripc_data_source_type \<Rightarrow> rbuffer \<Rightarrow> 'w \<Rightarrow> ((rbuffer option \<times> int) \<times> 'w \<times> ipc_msg list) option"
where
  "decode_loop env ty d w = (case decode_one env d of
     None \<Rightarrow> None
   | Some (Inl r) \<Rightarrow> Some (r, w, [])
   | Some (Inr (d', m)) \<Rightarrow> (case decode_dispatch env ty m w of
       None \<Rightarrow> None
     | Some w' \<Rightarrow> map_option (\<lambda>(r, w'', ms). (r, w'', m # ms)) (decode_loop env ty d' w')))"
  by pat_completeness auto
termination
  by (relation "measure (\<lambda>(env, ty, d, w). nat (rbuffer_size d))")
     (auto dest!: decode_one_shrinks)

declare decode_loop.simps [simp del]

text \<open>The position handed to \<open>rbuffer_seek\<close> is an unsigned sum converted to \<open>int\<close>.\<close>

definition decode_on_before :: "ripc_data_source \<Rightarrow> 32 word \<Rightarrow> (ripc_data_source \<times> int) option" where
  "decode_on_before ds raw_len = do {
     b \<leftarrow> ds_read_cache ds;
     let (bp, _) = rbuffer_seek (Some b) (sint (word_of_int (rb_pos b) + raw_len));
     Some (ds\<lparr>ds_read_cache := bp\<rparr>, rcode_err_ok)
   }"

definition decode_on_after ::
  "(ripc_data_source \<Rightarrow> (ripc_data_source \<times> int) option) option \<Rightarrow> ripc_data_source \<Rightarrow> (ripc_data_source \<times> int) option"
where
  "decode_on_after next_process ds = do {
     b \<leftarrow> ds_read_cache ds;
     (bp, _) \<leftarrow> (if rbuffer_size b = 0 \<or> rbuffer_left b < rb_capacity b div 2
                then rbuffer_rewind (Some b) else Some (Some b, 0));
     b1 \<leftarrow> bp;
     let ds1 = ds\<lparr>ds_read_cache := bp\<rparr>;
     if rbuffer_left b1 < 1 \<or> rbuffer_left b1 > rb_capacity b1
     then Some (ds1, ipc_code rcode_err_ipc_cache_full)
     else (case next_process of Some process \<Rightarrow> process ds1 | None \<Rightarrow> Some (ds1, rcode_err_ok))
   }"

definition decode_process ::
  "'w decode_env \<Rightarrow> (ripc_data_source \<Rightarrow> (ripc_data_source \<times> int) option) option \<Rightarrow>
    ripc_data_source \<Rightarrow> 32 word \<Rightarrow> 'w \<Rightarrow> (ripc_data_source \<times> 'w \<times> ipc_msg list \<times> int) option"
where
  "decode_process env next_process ds raw_len w = do {
     (ds1, ret_code) \<leftarrow> decode_on_before ds raw_len;
     if ret_code \<noteq> rcode_err_ok then Some (ds1, w, [], ret_code)
     else do {
       d \<leftarrow> ds_read_cache ds1;
       ((dp, code), w1, ms) \<leftarrow> decode_loop env (ds_type ds1) d w;
       let ds2 = ds1\<lparr>ds_read_cache := dp\<rparr>;
       if code \<noteq> rcode_err_ok then Some (ds2, w1, ms, code)
       else do {
         (ds3, ret) \<leftarrow> decode_on_after next_process ds2;
         Some (ds3, w1, ms, ret)
       }
     }
   }"

section \<open>The wire format\<close>

abbreviation (input) be32 :: "32 word \<Rightarrow> bytes" where "be32 w \<equiv> rev (le_bytes 4 w)"
abbreviation (input) be64 :: "64 word \<Rightarrow> bytes" where "be64 w \<equiv> rev (le_bytes 8 w)"

text \<open>
  A frame on the wire: every field in network byte order, except the eight bytes of \<open>reserve0\<close>,
  which carry the low half of the field in network order followed by four zero bytes.
\<close>

definition wire_head :: "64 word \<Rightarrow> ripc_data_default \<Rightarrow> nat \<Rightarrow> bytes" where
  "wire_head sid m n = [0] @ ripc_head_default_magic @ be32 (word_of_nat (24 + n)) @ be32 (id_cmd m) @
    be64 sid @ be32 (id_crc m) @ be32 (ucast (id_reserve0 m)) @ replicate 4 0"

definition wire_frame :: "64 word \<Rightarrow> ripc_data_default \<Rightarrow> bytes \<Rightarrow> bytes" where
  "wire_frame sid m payload = wire_head sid m (length payload) @ payload"

lemma wire_head_length [simp]: "length (wire_head sid m n) = 32"
  by (simp add: wire_head_def ripc_head_default_magic_def)

lemma wire_frame_length [simp]: "length (wire_frame sid m payload) = 32 + length payload"
  by (simp add: wire_frame_def)

lemma le_bytes_add: "le_bytes (a + b) w = le_bytes a w @ le_bytes b (drop_bit (8 * a) w)"
  by (induction a arbitrary: w) (auto simp: add.commute)

lemma le_bytes_ucast:
  fixes w :: "'a::len word"
  assumes "8 * n \<le> LENGTH('a)" "LENGTH('a) \<le> LENGTH('b)"
  shows "le_bytes n (ucast w :: 'b::len word) = le_bytes n w"
  using assms(1)
proof (induction n arbitrary: w)
  case (Suc n)
  have "(ucast (ucast w :: 'b word) :: byte) = ucast w"
    using Suc.prems assms(2) by (intro bit_eqI) (auto simp: bit_simps)
  moreover have "drop_bit 8 (ucast w :: 'b word) = ucast (drop_bit 8 w)"
    using assms(2) by (intro bit_eqI) (auto simp: bit_simps dest: bit_imp_le_length)
  ultimately show ?case using Suc by simp
qed simp

lemma le_bytes_zero: "le_bytes n 0 = replicate n 0"
  by (induction n) auto

lemma le_bytes_8_ucast: "le_bytes 8 (ucast (w :: 32 word) :: 64 word) = le_bytes 4 w @ replicate 4 0"
proof -
  have "drop_bit 32 (ucast w :: 64 word) = 0"
    by (intro bit_eqI) (auto simp: bit_simps dest: bit_imp_le_length)
  then show ?thesis
    using le_bytes_add [of 4 4 "ucast w :: 64 word"] le_bytes_ucast [of 4 w, where 'b = 64]
    by (simp add: le_bytes_zero)
qed

lemma head_bytes_to_net:
  "head_bytes (head_to_net sid (m\<lparr>id_version := 0, id_magic := ripc_head_default_magic,
    id_len := hton32 (word_of_nat (24 + n))\<rparr>)) = wire_head sid m n"
  by (simp add: head_bytes_def head_to_net_def wire_head_def le_bytes_hton32 le_bytes_hton64
      le_bytes_8_ucast)

text \<open>What the decoder makes of a head it finds on the wire.\<close>

definition wire_decoded :: "64 word \<Rightarrow> ripc_data_default \<Rightarrow> nat \<Rightarrow> ripc_data_default" where
  "wire_decoded sid m n = \<lparr>id_version = 0, id_magic = ripc_head_default_magic,
    id_len = word_of_nat (24 + n), id_cmd = id_cmd m, id_sid = sid, id_crc = id_crc m,
    id_reserve0 = push_bit 32 (ucast (ucast (id_reserve0 m) :: 32 word)), id_data = None\<rparr>"

lemma le_word_append:
  "8 * (length xs + length ys) \<le> LENGTH('a) \<Longrightarrow>
    (le_word (xs @ ys) :: 'a::len word) = le_word xs OR push_bit (8 * length xs) (le_word ys)"
proof (induction xs)
  case (Cons x xs)
  then show ?case by (simp add: push_bit_or or.assoc)
qed simp

lemma le_word_zeros: "le_word (replicate n 0) = 0"
  by (induction n) auto

lemma hton64_ucast_hton32:
  "hton64 (ucast (hton32 w)) = push_bit 32 (ucast w)"
proof -
  have "rev (le_bytes 8 (ucast (hton32 w) :: 64 word)) = replicate 4 0 @ le_bytes 4 (ucast w :: 64 word)"
    using le_bytes_ucast [of 4 w, where 'b = 64] by (simp add: le_bytes_8_ucast le_bytes_hton32)
  moreover have "(le_word (replicate 4 0 @ le_bytes 4 (ucast w :: 64 word)) :: 64 word) =
      push_bit 32 (take_bit 32 (ucast w))"
    by (subst le_word_append) (simp_all add: le_word_zeros le_word_le_bytes)
  moreover have "take_bit 32 (ucast w :: 64 word) = ucast w"
    by (intro bit_eqI) (auto simp: bit_simps dest: bit_imp_le_length)
  ultimately show ?thesis by (simp add: hton64_def)
qed

lemma decode_wire_head: "decode_head (wire_head sid m n) = wire_decoded sid m n"
  unfolding decode_head_def
  by (subst head_bytes_to_net [symmetric], subst head_of_head_bytes)
     (simp_all add: head_to_net_def head_of_net_def wire_decoded_def hton64_ucast_hton32
       ripc_head_default_magic_def)

lemma magic_wire_head [simp]: "id_magic (head_of_bytes (wire_head sid m n)) = ripc_head_default_magic"
  by (simp add: head_of_bytes_def wire_head_def ripc_head_default_magic_def)

lemma payload_len_decoded:
  "n < 2147483648 \<Longrightarrow> payload_len (wire_decoded sid m n) = int n"
  by (simp add: payload_len_def wire_decoded_def signed_of_nat signed_take_bit_int_eq_self)

section \<open>What the encoder puts into the buffer\<close>

lemma encode_on_before_spec:
  assumes "ds_write_buff ds = Some b" "rbuffer_inv b"
  shows "\<exists>b'. rbuffer_inv b' \<and> rbuffer_content b' = rbuffer_content b \<and> rb_capacity b' = rb_capacity b \<and>
    rbuffer_left b' = (if rbuffer_size b = 0 then rb_capacity b else rbuffer_left b) \<and>
    encode_on_before ds data = Some (ds\<lparr>ds_write_buff := Some b'\<rparr>,
      if uint (id_len data + 32) > rbuffer_left b' then ipc_code rcode_err_ipc_cache_full else rcode_err_ok)"
proof -
  obtain b' n where b': "(if rbuffer_size b = 0 then rbuffer_rewind (Some b) else Some (Some b, 0)) = Some (Some b', n)"
     "rbuffer_inv b'" "rbuffer_content b' = rbuffer_content b" "rb_capacity b' = rb_capacity b"
     "rbuffer_left b' = (if rbuffer_size b = 0 then rb_capacity b else rbuffer_left b)"
  proof (cases "rbuffer_size b = 0")
    case True
    with rewind_body_spec [OF assms(2)] show ?thesis
      by (auto simp: rbuffer_rewind_def rbuffer_left_def intro: that)
  next
    case False
    then show ?thesis using assms by (intro that [of b 0]) (auto simp: rbuffer_left_def)
  qed
  have "0 \<le> rbuffer_left b'" "rbuffer_left b' \<le> INT_MAX"
    using b'(2) by (auto simp: rbuffer_inv_def rbuffer_left_def)
  then have "uint (word_of_int (rbuffer_left b') :: 32 word) = rbuffer_left b'"
    by (simp add: unsigned_of_int take_bit_int_eq_self)
  then have "(word_of_int (rbuffer_left b') < id_len data + 32) \<longleftrightarrow> rbuffer_left b' < uint (id_len data + 32)"
    by (simp only: word_less_alt)
  then have "encode_on_before ds data = Some (ds\<lparr>ds_write_buff := Some b'\<rparr>,
      if uint (id_len data + 32) > rbuffer_left b' then ipc_code rcode_err_ipc_cache_full else rcode_err_ok)"
    unfolding encode_on_before_def assms(1) by (simp only: bind.simps b'(1) prod.case Let_def)
  with b' show ?thesis by blast
qed

lemma encode_process_full:
  assumes "ds_write_buff ds = Some b" "rbuffer_inv b"
    and "uint (id_len data + 32) > (if rbuffer_size b = 0 then rb_capacity b else rbuffer_left b)"
  shows "\<exists>b'. encode_process next_process ds data =
      Some (ds\<lparr>ds_write_buff := Some b'\<rparr>, data, ipc_code rcode_err_ipc_cache_full) \<and>
    rbuffer_inv b' \<and> rbuffer_content b' = rbuffer_content b"
  using encode_on_before_spec [OF assms(1,2), of data] assms(3) by (auto simp: encode_process_def)

lemma rbuffer_write_pos:
  "rbuffer_write (Some d) (Some src) n = Some (Some d', k) \<Longrightarrow> 0 < n \<Longrightarrow> n \<le> rbuffer_left d \<Longrightarrow>
    rb_pos d' = rb_pos d + n \<and> rb_capacity d' = rb_capacity d"
  by (auto simp: rbuffer_write_def bind_eq_Some_conv Let_def)

lemma encode_process_frame:
  assumes "ds_write_buff ds = Some b" "rbuffer_inv b"
    and "id_data data = Some src" "id_len data = word_of_nat n" "0 < n" "n \<le> length src"
    and "32 + int n \<le> (if rbuffer_size b = 0 then rb_capacity b else rbuffer_left b)"
  shows "\<exists>b'. encode_process None ds data = Some (ds\<lparr>ds_write_buff := Some b'\<rparr>,
      head_to_net (ds_id ds) (data\<lparr>id_version := 0, id_magic := ripc_head_default_magic,
        id_len := hton32 (word_of_nat (24 + n))\<rparr>), rcode_err_ok) \<and>
    rbuffer_inv b' \<and> rbuffer_content b' = rbuffer_content b @ wire_frame (ds_id ds) data (take n src) \<and>
    rbuffer_left b' = (if rbuffer_size b = 0 then rb_capacity b else rbuffer_left b) - (32 + int n)"
proof -
  obtain b0 where b0: "rbuffer_inv b0" "rbuffer_content b0 = rbuffer_content b"
     "rbuffer_left b0 = (if rbuffer_size b = 0 then rb_capacity b else rbuffer_left b)"
     "encode_on_before ds data = Some (ds\<lparr>ds_write_buff := Some b0\<rparr>,
      if uint (id_len data + 32) > rbuffer_left b0 then ipc_code rcode_err_ipc_cache_full else rcode_err_ok)"
    using encode_on_before_spec [OF assms(1,2), of data] by blast
  have left: "32 + int n \<le> rbuffer_left b0" and n: "int n \<le> INT_MAX - 32"
    using assms(7) b0(1,3) by (auto simp: rbuffer_inv_def rbuffer_left_def split: if_splits)
  have "id_len data + 32 = word_of_nat (n + 32)" using assms(4) by simp
  then have len: "uint (id_len data + 32) = int n + 32"
    using n by (simp add: unsigned_of_nat take_bit_nat_eq_self del: of_nat_add of_nat_numeral)
  have sint: "sint (id_len data) = int n"
    using n assms(4) by (simp add: signed_of_nat signed_take_bit_int_eq_self)
  define hb where "hb = wire_head (ds_id ds) data n"
  have min1: "min 32 (rbuffer_left_write b0) = 32"
    using left b0(1) by (auto simp: rbuffer_left_write_def rbuffer_left_def rbuffer_inv_def)
  obtain b1 where b1: "rbuffer_write (Some b0) (Some hb) 32 = Some (Some b1, 32)" "rbuffer_inv b1"
     "rb_capacity b1 = rb_capacity b0" "rbuffer_content b1 = rbuffer_content b0 @ hb"
    using rbuffer_write_body [OF b0(1), of 32 hb] unfolding min1 by (auto simp: hb_def)
  have "rbuffer_size b1 = rbuffer_size b0 + 32"
    using rbuffer_content_length [OF b1(2)] rbuffer_content_length [OF b0(1)]
    by (simp add: b1(4) hb_def)
  then have min2: "min (int n) (rbuffer_left_write b1) = int n"
    using left b1(3) b0(1) by (auto simp: rbuffer_left_write_def rbuffer_left_def rbuffer_size_def rbuffer_inv_def)
  obtain b2 where b2: "rbuffer_write (Some b1) (Some src) (int n) = Some (Some b2, int n)" "rbuffer_inv b2"
     "rbuffer_content b2 = rbuffer_content b1 @ take n src"
    using rbuffer_write_body [OF b1(2), of "int n" src] assms(5,6) unfolding min2 by auto
  define D where "D = head_to_net (ds_id ds) (data\<lparr>id_version := 0, id_magic := ripc_head_default_magic,
        id_len := hton32 (word_of_nat (24 + n))\<rparr>)"
  have D: "head_bytes D = hb" "id_data D = Some src"
    using assms(3) by (simp_all only: D_def head_bytes_to_net hb_def) (simp add: head_to_net_def)
  have total: "int32 (24 + int n) = Some (int (24 + n))" using n by (simp add: int32_in_range)
  have "\<not> rbuffer_left b0 < int n + 32" using left by simp
  then have "encode_process None ds data = Some (ds\<lparr>ds_write_buff := Some b2\<rparr>, D, rcode_err_ok)"
    unfolding encode_process_def b0(4) len sint
    by (simp only: bind.simps prod.case if_False simp_thms Let_def total of_int_of_nat_eq D_def [symmetric]
        D ripc_data_source.simps encode_on_after_def option.case) (simp add: b1(1) b2(1))
  moreover have "rbuffer_content b2 = rbuffer_content b @ wire_frame (ds_id ds) data (take n src)"
    using assms(6) by (simp add: b2(3) b1(4) b0(2) wire_frame_def hb_def min_absorb1)
  moreover have "rbuffer_left b2 = rbuffer_left b0 - (32 + int n)"
    using rbuffer_write_pos [OF b1(1)] rbuffer_write_pos [OF b2(1)] left assms(5)
    by (simp add: rbuffer_left_def)
  ultimately show ?thesis using b2(2) b0(3) by (intro exI [of _ b2]) (simp add: D_def)
qed

section \<open>What the decoder takes from the buffer\<close>

text \<open>
  A short read empties the buffer, and an emptied buffer is reset to position 0, so the negative
  skip by which the decoder means to give the bytes back finds nothing to give back.
\<close>

lemma read_ext_emptied:
  assumes "rb_offset d = 0" "rb_pos d = 0" "0 \<le> k" "k \<le> INT_MAX"
  shows "rbuffer_read_ext (Some d) (- k) = Some (Some d, rcode_ok)"
  using assms by (auto simp: rbuffer_read_ext_def rbuffer_skip_def int32_in_range Let_def)

lemma decode_one_short_head:
  assumes "rbuffer_inv d" "length (rbuffer_content d) < 32"
  shows "\<exists>d'. decode_one env d = Some (Inl (Some d', rcode_err_ok)) \<and> rbuffer_inv d' \<and>
    rbuffer_content d' = [] \<and> rb_capacity d' = rb_capacity d"
proof -
  have size: "0 \<le> rbuffer_size d" "rbuffer_size d < 32"
    using assms rbuffer_content_length [of d] by auto
  obtain d' v where "rbuffer_read (Some d) (Some (replicate 32 0)) 32 = Some (Some d', Some v, rbuffer_size d)"
      "rbuffer_inv d'" "rbuffer_content d' = []" "rb_capacity d' = rb_capacity d" "rb_offset d' = 0" "rb_pos d' = 0"
    using rbuffer_read_body [OF assms(1), of 32 "replicate 32 0"] assms(2) size
    by (auto simp: min_def split: if_splits)
  with size read_ext_emptied [of d' "rbuffer_size d"] show ?thesis
    by (auto simp: decode_one_def)
qed

lemma decode_one_take_head:
  assumes "rbuffer_inv d" "rbuffer_content d = h @ rest" "length h = 32"
  shows "\<exists>d1. rbuffer_read (Some d) (Some (replicate 32 0)) 32 = Some (Some d1, Some h, 32) \<and>
    rbuffer_inv d1 \<and> rbuffer_content d1 = rest \<and> rb_capacity d1 = rb_capacity d \<and>
    (rest = [] \<longrightarrow> rb_offset d1 = 0 \<and> rb_pos d1 = 0)"
proof -
  have "rbuffer_size d = 32 + int (length rest)"
    using rbuffer_content_length [OF assms(1)] assms(2,3) by simp
  with rbuffer_read_body [OF assms(1), of 32 "replicate 32 0"] assms(2,3) show ?thesis
    by (fastforce split: if_splits)
qed

lemma decode_one_bad_magic:
  assumes "rbuffer_inv d" "rbuffer_content d = h @ rest" "length h = 32"
    and "id_magic (head_of_bytes h) \<noteq> ripc_head_default_magic"
  shows "\<exists>d'. decode_one env d = Some (Inl (Some d', ipc_code rcode_err_ipc_magic)) \<and> rbuffer_inv d' \<and>
    rbuffer_content d' = [] \<and> rb_capacity d' = rb_capacity d"
proof -
  obtain d1 where "rbuffer_read (Some d) (Some (replicate 32 0)) 32 = Some (Some d1, Some h, 32)"
      "rbuffer_inv d1" "rb_capacity d1 = rb_capacity d"
    using decode_one_take_head [OF assms(1-3)] by blast
  with assms(4) rbuffer_clear_spec [of d1] show ?thesis
    by (auto simp: decode_one_def)
qed

lemma decode_one_frame:
  assumes "rbuffer_inv d" "rbuffer_content d = wire_frame sid m payload @ rest"
    and "de_malloc env (int (length payload) + 1)"
  shows "\<exists>d'. decode_one env d = Some (Inr (d', wire_decoded sid m (length payload), payload)) \<and>
    rbuffer_inv d' \<and> rbuffer_content d' = rest \<and> rb_capacity d' = rb_capacity d"
proof -
  let ?n = "int (length payload)"
  obtain d1 where d1: "rbuffer_read (Some d) (Some (replicate 32 0)) 32 =
        Some (Some d1, Some (wire_head sid m (length payload)), 32)"
      "rbuffer_inv d1" "rbuffer_content d1 = payload @ rest" "rb_capacity d1 = rb_capacity d"
    using decode_one_take_head [OF assms(1), of "wire_head sid m (length payload)" "payload @ rest"] assms(2)
    by (auto simp: wire_frame_def)
  have size: "rbuffer_size d1 = ?n + int (length rest)"
    using rbuffer_content_length [OF d1(2)] d1(3) by simp
  have n: "?n + 32 \<le> INT_MAX"
    using rbuffer_content_bound [OF assms(1)] assms(1,2) by (simp add: rbuffer_inv_def)
  obtain d2 where d2: "rbuffer_read (Some d1) (Some (replicate (nat (?n + 1)) 0)) ?n =
        Some (Some d2, Some (payload @ drop (nat ?n) (replicate (nat (?n + 1)) 0)), ?n)"
      "rbuffer_inv d2" "rbuffer_content d2 = rest" "rb_capacity d2 = rb_capacity d1"
    using rbuffer_read_body [OF d1(2), of ?n "replicate (nat (?n + 1)) 0"] size d1(3) by auto
  have "mem_get (payload @ drop (nat ?n) (replicate (nat (?n + 1)) 0)) 0 ?n = Some payload"
    by (simp add: mem_get_in)
  with d1 d2 n assms(3) show ?thesis
    by (simp add: decode_one_def Let_def payload_len_decoded decode_wire_head int32_in_range)
qed

lemma decode_one_short_payload:
  assumes "rbuffer_inv d" "rbuffer_content d = wire_head sid m n @ part" "length part < n"
    and "n < 2147483647" "de_malloc env (int n + 1)"
  shows "\<exists>d'. decode_one env d = Some (Inl (Some d', rcode_err_ok)) \<and> rbuffer_inv d' \<and>
    rbuffer_content d' = [] \<and> rb_capacity d' = rb_capacity d"
proof -
  obtain d1 where d1: "rbuffer_read (Some d) (Some (replicate 32 0)) 32 =
        Some (Some d1, Some (wire_head sid m n), 32)"
      "rbuffer_inv d1" "rbuffer_content d1 = part" "rb_capacity d1 = rb_capacity d"
    using decode_one_take_head [OF assms(1), of "wire_head sid m n" part] assms(2) by auto
  have size: "rbuffer_size d1 = int (length part)"
    using rbuffer_content_length [OF d1(2)] d1(3) by simp
  obtain d2 v where d2: "rbuffer_read (Some d1) (Some (replicate (nat (int n + 1)) 0)) (int n) =
        Some (Some d2, Some v, int (length part))"
      "rbuffer_inv d2" "rbuffer_content d2 = []" "rb_capacity d2 = rb_capacity d1" "rb_offset d2 = 0" "rb_pos d2 = 0"
    using rbuffer_read_body [OF d1(2), of "int n" "replicate (nat (int n + 1)) 0"] size d1(3) assms(3) by auto
  with d1 assms(3-5) read_ext_emptied [of d2 "int (length part)"] show ?thesis
    by (auto simp: decode_one_def Let_def payload_len_decoded decode_wire_head int32_in_range)
qed

section \<open>The loop over a buffer of frames\<close>

type_synonym wire_msg = "64 word \<times> ripc_data_default \<times> bytes"

fun frame_of :: "wire_msg \<Rightarrow> bytes" where
  "frame_of (sid, m, payload) = wire_frame sid m payload"

fun decoded_of :: "wire_msg \<Rightarrow> ipc_msg" where
  "decoded_of (sid, m, payload) = (wire_decoded sid m (length payload), payload)"

text \<open>The callbacks made for a sequence of messages.\<close>

fun dispatch_all :: "'w decode_env \<Rightarrow> ripc_data_source_type \<Rightarrow> ipc_msg list \<Rightarrow> 'w \<Rightarrow> 'w option" where
  "dispatch_all env ty [] w = Some w"
| "dispatch_all env ty (m # ms) w = (case decode_dispatch env ty m w of
     None \<Rightarrow> None | Some w' \<Rightarrow> dispatch_all env ty ms w')"

text \<open>A proper prefix of a frame that the decoder can allocate.\<close>

definition partial_frame :: "'w decode_env \<Rightarrow> bytes \<Rightarrow> bool" where
  "partial_frame env xs \<longleftrightarrow> length xs < 32 \<or>
    (\<exists>sid m n part. xs = wire_head sid m n @ part \<and> length part < n \<and> n < 2147483647 \<and>
      de_malloc env (int n + 1))"

lemma decode_loop_frames:
  assumes "rbuffer_inv d" "rbuffer_content d = concat (map frame_of ms) @ rest"
    and "list_all (\<lambda>(sid, m, p). de_malloc env (int (length p) + 1)) ms"
    and "partial_frame env rest" "dispatch_all env ty (map decoded_of ms) w = Some w'"
  shows "\<exists>d'. decode_loop env ty d w = Some ((Some d', rcode_err_ok), w', map decoded_of ms) \<and>
    rbuffer_inv d' \<and> rbuffer_content d' = [] \<and> rb_capacity d' = rb_capacity d"
  using assms
proof (induction ms arbitrary: d w)
  case Nil
  then have "\<exists>d'. decode_one env d = Some (Inl (Some d', rcode_err_ok)) \<and> rbuffer_inv d' \<and>
      rbuffer_content d' = [] \<and> rb_capacity d' = rb_capacity d"
    using decode_one_short_head [of d env] decode_one_short_payload [of d _ _ _ _ env]
    unfolding partial_frame_def by auto
  with Nil show ?case by (auto simp: decode_loop.simps)
next
  case (Cons x ms)
  obtain sid m p where x: "x = (sid, m, p)" by (cases x)
  obtain d1 where d1: "decode_one env d = Some (Inr (d1, wire_decoded sid m (length p), p))"
      "rbuffer_inv d1" "rbuffer_content d1 = concat (map frame_of ms) @ rest" "rb_capacity d1 = rb_capacity d"
    using decode_one_frame [of d sid m p "concat (map frame_of ms) @ rest" env] Cons.prems x by auto
  obtain w1 where w1: "decode_dispatch env ty (wire_decoded sid m (length p), p) w = Some w1"
      "dispatch_all env ty (map decoded_of ms) w1 = Some w'"
    using Cons.prems(5) x by (auto split: option.splits)
  from Cons.IH [OF d1(2,3) _ Cons.prems(4) w1(2)] Cons.prems(3) d1 w1(1) x
  show ?case by (auto simp: decode_loop.simps [of env ty d w])
qed

lemma decode_on_before_spec:
  assumes "ds_read_cache ds = Some b" "rbuffer_inv b" "rb_pos b + int n < rb_capacity b"
    and "take n (drop (nat (rb_pos b)) (rb_data b)) = xs"
  shows "\<exists>b'. decode_on_before ds (word_of_nat n) = Some (ds\<lparr>ds_read_cache := Some b'\<rparr>, rcode_err_ok) \<and>
    rbuffer_inv b' \<and> rbuffer_content b' = rbuffer_content b @ xs \<and> rb_capacity b' = rb_capacity b"
proof -
  have bounds: "0 \<le> rb_offset b" "rb_offset b \<le> rb_pos b" "rb_pos b + int n \<le> INT_MAX"
      "rb_pos b + int n \<le> int (length (rb_data b))"
    using assms(2,3) by (auto simp: rbuffer_inv_def)
  have "word_of_int (rb_pos b) + word_of_nat n = (word_of_int (rb_pos b + int n) :: 32 word)" by simp
  then have sint: "sint (word_of_int (rb_pos b) + word_of_nat n :: 32 word) = rb_pos b + int n"
    using bounds by (simp add: signed_of_int signed_take_bit_int_eq_self del: of_int_add)
  have "rbuffer_content (b\<lparr>rb_pos := rb_pos b + int n\<rparr>) = rbuffer_content b @ xs"
    using bounds assms(4) mem_get_split [of "rb_pos b - rb_offset b" "int n" "rb_offset b" "rb_data b"]
    by (simp add: rbuffer_content_def rbuffer_size_def algebra_simps)
  then show ?thesis
    using assms sint bounds by (auto simp: decode_on_before_def rbuffer_seek_def rbuffer_inv_def Let_def
      intro!: exI [of _ "b\<lparr>rb_pos := rb_pos b + int n\<rparr>"])
qed

lemma decode_on_after_empty:
  assumes "ds_read_cache ds = Some b" "rbuffer_inv b" "rbuffer_content b = []" "0 < rb_capacity b"
  shows "\<exists>b'. decode_on_after None ds = Some (ds\<lparr>ds_read_cache := Some b'\<rparr>, rcode_err_ok) \<and>
    rbuffer_inv b' \<and> rbuffer_content b' = [] \<and> rb_capacity b' = rb_capacity b"
proof -
  have "rbuffer_size b = 0" using rbuffer_content_length [OF assms(2)] assms(3) by simp
  with rewind_body_spec [OF assms(2)] assms show ?thesis
    by (auto simp: decode_on_after_def rbuffer_rewind_def rbuffer_left_def Let_def)
qed

lemma decode_process_from:
  assumes b1: "decode_on_before ds n = Some (ds\<lparr>ds_read_cache := Some b1\<rparr>, rcode_err_ok)"
     "rbuffer_inv b1" "rbuffer_content b1 = concat (map frame_of ms) @ rest" "0 < rb_capacity b1"
    and "list_all (\<lambda>(sid, m, p). de_malloc env (int (length p) + 1)) ms"
    and "partial_frame env rest" "dispatch_all env (ds_type ds) (map decoded_of ms) w = Some w'"
  shows "\<exists>b'. decode_process env None ds n w =
      Some (ds\<lparr>ds_read_cache := Some b'\<rparr>, w', map decoded_of ms, rcode_err_ok) \<and>
    rbuffer_inv b' \<and> rbuffer_content b' = [] \<and> rb_capacity b' = rb_capacity b1"
proof -
  obtain b2 where b2: "decode_loop env (ds_type ds) b1 w = Some ((Some b2, rcode_err_ok), w', map decoded_of ms)"
     "rbuffer_inv b2" "rbuffer_content b2 = []" "rb_capacity b2 = rb_capacity b1"
    using decode_loop_frames [OF b1(2,3) assms(5-7)] by blast
  then obtain b3 where "decode_on_after None (ds\<lparr>ds_read_cache := Some b2\<rparr>) =
      Some (ds\<lparr>ds_read_cache := Some b3\<rparr>, rcode_err_ok)" "rbuffer_inv b3" "rbuffer_content b3 = []"
      "rb_capacity b3 = rb_capacity b2"
    using decode_on_after_empty [of "ds\<lparr>ds_read_cache := Some b2\<rparr>" b2] b1(4) by auto
  with b1 b2 show ?thesis
    by (intro exI [of _ b3]) (simp add: decode_process_def Let_def)
qed

lemma decode_process_spec:
  assumes "ds_read_cache ds = Some b" "rbuffer_inv b" "rb_pos b + int n < rb_capacity b"
    and "rbuffer_content b @ take n (drop (nat (rb_pos b)) (rb_data b)) = concat (map frame_of ms) @ rest"
    and "list_all (\<lambda>(sid, m, p). de_malloc env (int (length p) + 1)) ms"
    and "partial_frame env rest" "dispatch_all env (ds_type ds) (map decoded_of ms) w = Some w'"
  shows "\<exists>b'. decode_process env None ds (word_of_nat n) w =
      Some (ds\<lparr>ds_read_cache := Some b'\<rparr>, w', map decoded_of ms, rcode_err_ok) \<and>
    rbuffer_inv b' \<and> rbuffer_content b' = []"
proof -
  obtain b1 where b1: "decode_on_before ds (word_of_nat n) = Some (ds\<lparr>ds_read_cache := Some b1\<rparr>, rcode_err_ok)"
     "rbuffer_inv b1" "rbuffer_content b1 = concat (map frame_of ms) @ rest" "rb_capacity b1 = rb_capacity b"
    using decode_on_before_spec [OF assms(1-3) refl] assms(4) by auto
  have "0 < rb_capacity b1" using assms(2,3) b1(4) by (auto simp: rbuffer_inv_def)
  from decode_process_from [OF b1(1-3) this assms(5-7)] show ?thesis by blast
qed

text \<open>When the bytes fill the cache up to its end, the clamp of \<open>rbuffer_seek\<close> drops the last one.\<close>

lemma decode_on_before_full:
  assumes "ds_read_cache ds = Some b" "rbuffer_inv b" "rb_pos b + int n = rb_capacity b" "0 < n"
    and "rbuffer_content b @ take n (drop (nat (rb_pos b)) (rb_data b)) = xs @ [x]"
  shows "\<exists>b'. decode_on_before ds (word_of_nat n) = Some (ds\<lparr>ds_read_cache := Some b'\<rparr>, rcode_err_ok) \<and>
    rbuffer_inv b' \<and> rbuffer_content b' = xs \<and> rb_capacity b' = rb_capacity b"
proof -
  have bounds: "0 \<le> rb_offset b" "rb_offset b \<le> rb_pos b" "rb_pos b + int n \<le> INT_MAX"
      "rb_capacity b = int (length (rb_data b))"
    using assms(2,3) by (auto simp: rbuffer_inv_def)
  have "word_of_int (rb_pos b) + word_of_nat n = (word_of_int (rb_pos b + int n) :: 32 word)" by simp
  then have sint: "sint (word_of_int (rb_pos b) + word_of_nat n :: 32 word) = rb_pos b + int n"
    using bounds by (simp add: signed_of_int signed_take_bit_int_eq_self del: of_int_add)
  have "drop (nat (rb_pos b)) (rb_data b) = drop (nat (rbuffer_size b)) (drop (nat (rb_offset b)) (rb_data b))"
    using bounds by (simp add: rbuffer_size_def nat_diff_distrib)
  moreover have "take n (drop (nat (rb_pos b)) (rb_data b)) = drop (nat (rb_pos b)) (rb_data b)"
    using bounds assms(3) by simp
  ultimately have all: "drop (nat (rb_offset b)) (rb_data b) = xs @ [x]"
    using assms(5) by (simp only: rbuffer_content_def append_take_drop_id)
  have "int (length (xs @ [x])) = rb_capacity b - rb_offset b"
    using all [symmetric] bounds assms(3) by simp
  then have "rbuffer_content (b\<lparr>rb_pos := rb_capacity b - 1\<rparr>) = xs"
    by (simp add: rbuffer_content_def rbuffer_size_def all)
  then show ?thesis
    using assms sint bounds
    by (auto simp: decode_on_before_def rbuffer_seek_def rbuffer_inv_def Let_def
      intro!: exI [of _ "b\<lparr>rb_pos := rb_capacity b - 1\<rparr>"])
qed

lemma partial_frame_prefix:
  assumes "wire_frame sid m payload = part @ missing" "missing \<noteq> []"
    and "length payload < 2147483647" "\<And>k. de_malloc env k"
  shows "partial_frame env part"
proof (cases "length part < 32")
  case False
  have len: "length part + length missing = 32 + length payload"
    using arg_cong [OF assms(1), of length] by simp
  have "part = take (length part) (wire_head sid m (length payload) @ payload)"
    using arg_cong [OF assms(1), of "take (length part)"] by (simp add: wire_frame_def)
  with False have part: "part = wire_head sid m (length payload) @ take (length part - 32) payload"
    by simp
  have "length (take (length part - 32) payload) < length payload"
    using len False assms(2) by (cases missing) auto
  with part assms(3,4) show ?thesis unfolding partial_frame_def by blast
qed (simp add: partial_frame_def)

section \<open>Properties\<close>

text \<open>Several messages sent one after the other through the same data source.\<close>

fun encode_all :: "ripc_data_source \<Rightarrow> ripc_data_default list \<Rightarrow> ripc_data_source option" where
  "encode_all ds [] = Some ds"
| "encode_all ds (m # ms) = (case encode_process None ds m of
     Some (ds', _, ret) \<Rightarrow> if ret = rcode_err_ok then encode_all ds' ms else None
   | None \<Rightarrow> None)"

definition msg_ok :: "ripc_data_default \<Rightarrow> bool" where
  "msg_ok m \<longleftrightarrow> (case id_data m of None \<Rightarrow> False
    | Some p \<Rightarrow> p \<noteq> [] \<and> id_len m = word_of_nat (length p))"

definition msg_payload :: "ripc_data_default \<Rightarrow> bytes" where
  "msg_payload m = the (id_data m)"

definition wire_size :: "ripc_data_default list \<Rightarrow> int" where
  "wire_size ms = sum_list (map (\<lambda>m. 32 + int (length (msg_payload m))) ms)"

definition sent_msg :: "64 word \<Rightarrow> ripc_data_default \<Rightarrow> wire_msg" where
  "sent_msg sid m = (sid, m, msg_payload m)"

lemma encode_all_frames:
  assumes "ds_write_buff ds = Some b" "rbuffer_inv b" "list_all msg_ok ms" "wire_size ms \<le> rbuffer_left b"
  shows "\<exists>b'. encode_all ds ms = Some (ds\<lparr>ds_write_buff := Some b'\<rparr>) \<and> rbuffer_inv b' \<and>
    rbuffer_content b' = rbuffer_content b @ concat (map (\<lambda>m. frame_of (sent_msg (ds_id ds) m)) ms)"
  using assms
proof (induction ms arbitrary: ds b)
  case Nil
  then show ?case by (intro exI [of _ b]) (cases ds, simp)
next
  case (Cons m ms)
  obtain p where p: "id_data m = Some p" "p \<noteq> []" "id_len m = word_of_nat (length p)"
    using Cons.prems(3) by (auto simp: msg_ok_def split: option.splits)
  have left: "rbuffer_left b \<le> (if rbuffer_size b = 0 then rb_capacity b else rbuffer_left b)"
    using Cons.prems(2) by (auto simp: rbuffer_left_def rbuffer_inv_def)
  have ws: "wire_size (m # ms) = 32 + int (length p) + wire_size ms" "0 \<le> wire_size ms"
    using p by (auto simp: wire_size_def msg_payload_def intro!: sum_list_nonneg)
  then have fit: "32 + int (length p) \<le> (if rbuffer_size b = 0 then rb_capacity b else rbuffer_left b)"
    using left Cons.prems(4) by linarith
  define D where "D = head_to_net (ds_id ds) (m\<lparr>id_version := 0, id_magic := ripc_head_default_magic,
        id_len := hton32 (word_of_nat (24 + length p))\<rparr>)"
  obtain b1 where b1: "encode_process None ds m = Some (ds\<lparr>ds_write_buff := Some b1\<rparr>, D, rcode_err_ok)"
      "rbuffer_inv b1" "rbuffer_content b1 = rbuffer_content b @ wire_frame (ds_id ds) m p"
      "rbuffer_left b1 = (if rbuffer_size b = 0 then rb_capacity b else rbuffer_left b) - (32 + int (length p))"
    using encode_process_frame [OF Cons.prems(1,2) p(1,3) _ _ fit] p(2) unfolding D_def
    by (simp del: of_nat_add) blast
  have fit': "wire_size ms \<le> rbuffer_left b1" using b1(4) left ws Cons.prems(4) by linarith
  have "\<exists>b2. encode_all (ds\<lparr>ds_write_buff := Some b1\<rparr>) ms = Some (ds\<lparr>ds_write_buff := Some b2\<rparr>) \<and>
      rbuffer_inv b2 \<and>
      rbuffer_content b2 = rbuffer_content b1 @ concat (map (\<lambda>m. frame_of (sent_msg (ds_id ds) m)) ms)"
    using Cons.IH [of "ds\<lparr>ds_write_buff := Some b1\<rparr>" b1] Cons.prems(3) b1(2) fit' by simp
  then obtain b2 where "encode_all (ds\<lparr>ds_write_buff := Some b1\<rparr>) ms = Some (ds\<lparr>ds_write_buff := Some b2\<rparr>)"
      "rbuffer_inv b2"
      "rbuffer_content b2 = rbuffer_content b1 @ concat (map (\<lambda>m. frame_of (sent_msg (ds_id ds) m)) ms)"
    by blast
  with b1 p show ?case
    by (intro exI [of _ b2]) (simp add: sent_msg_def msg_payload_def)
qed

text \<open>
  C1: Messages with a non-empty payload that fit into the write buffer of a sender are all encoded,
  and a receiver that finds the bytes of the sender's buffer behind the write position of its own
  read cache (with a byte of the cache to spare) takes exactly these messages off it, in order: same
  command, check sum and payload, the sender's id as session id; of \<open>reserve0\<close> only the low half
  comes through, in the high half.
\<close>

theorem codec_roundtrip:
  assumes "ds_write_buff ds = Some wb" "rbuffer_inv wb" "rbuffer_content wb = []"
    and "list_all msg_ok ms" "wire_size ms \<le> rbuffer_left wb"
    and "ds_read_cache rs = Some rb" "rbuffer_inv rb" "rbuffer_content rb = []"
    and "rb_pos rb + wire_size ms < rb_capacity rb" "\<And>n. de_malloc env n"
    and "dispatch_all env (ds_type rs) (map (decoded_of \<circ> sent_msg (ds_id ds)) ms) w = Some w'"
  shows "\<exists>wb'. encode_all ds ms = Some (ds\<lparr>ds_write_buff := Some wb'\<rparr>) \<and>
    int (length (rbuffer_content wb')) = wire_size ms \<and>
    (take (length (rbuffer_content wb')) (drop (nat (rb_pos rb)) (rb_data rb)) = rbuffer_content wb' \<longrightarrow>
      (\<exists>rb'. decode_process env None rs (word_of_nat (length (rbuffer_content wb'))) w =
          Some (rs\<lparr>ds_read_cache := Some rb'\<rparr>, w',
            map (\<lambda>m. (\<lparr>id_version = 0, id_magic = ripc_head_default_magic,
                id_len = word_of_nat (24 + length (msg_payload m)), id_cmd = id_cmd m, id_sid = ds_id ds,
                id_crc = id_crc m, id_reserve0 = push_bit 32 (ucast (ucast (id_reserve0 m) :: 32 word)),
                id_data = None\<rparr>, msg_payload m)) ms, rcode_err_ok) \<and>
        rbuffer_inv rb' \<and> rbuffer_content rb' = []))"
proof -
  obtain wb' where wb': "encode_all ds ms = Some (ds\<lparr>ds_write_buff := Some wb'\<rparr>)" "rbuffer_inv wb'"
     "rbuffer_content wb' = rbuffer_content wb @ concat (map (\<lambda>m. frame_of (sent_msg (ds_id ds) m)) ms)"
    using encode_all_frames [OF assms(1,2,4,5)] by blast
  have len: "int (length (rbuffer_content wb')) = wire_size ms"
    unfolding wb'(3) assms(3) wire_size_def by (induction ms) (auto simp: sent_msg_def)
  have dec: "map decoded_of (map (sent_msg (ds_id ds)) ms) =
      map (\<lambda>m. (wire_decoded (ds_id ds) m (length (msg_payload m)), msg_payload m)) ms"
    by (simp add: sent_msg_def)
  show ?thesis
  proof (rule exI [of _ wb'], intro conjI impI wb'(1) len)
    assume t: "take (length (rbuffer_content wb')) (drop (nat (rb_pos rb)) (rb_data rb)) = rbuffer_content wb'"
    have c4: "rbuffer_content rb @ take (length (rbuffer_content wb')) (drop (nat (rb_pos rb)) (rb_data rb)) =
        concat (map frame_of (map (sent_msg (ds_id ds)) ms)) @ []"
      using t assms(3,8) wb'(3) by (simp add: comp_def)
    have c5: "list_all (\<lambda>(sid, m, p). de_malloc env (int (length p) + 1)) (map (sent_msg (ds_id ds)) ms)"
      using assms(10) by (auto simp: list_all_iff sent_msg_def)
    have c6: "partial_frame env []" by (simp add: partial_frame_def)
    have c7: "dispatch_all env (ds_type rs) (map decoded_of (map (sent_msg (ds_id ds)) ms)) w = Some w'"
      using assms(11) by (simp add: comp_def)
    have c3: "rb_pos rb + int (length (rbuffer_content wb')) < rb_capacity rb" using assms(9) len by simp
    have "\<exists>rb'. decode_process env None rs (word_of_nat (length (rbuffer_content wb'))) w =
        Some (rs\<lparr>ds_read_cache := Some rb'\<rparr>, w', map decoded_of (map (sent_msg (ds_id ds)) ms), rcode_err_ok) \<and>
        rbuffer_inv rb' \<and> rbuffer_content rb' = []"
      using decode_process_spec [OF assms(6,7) c3 c4 c5 c6 c7] by blast
    then show "\<exists>rb'. decode_process env None rs (word_of_nat (length (rbuffer_content wb'))) w =
          Some (rs\<lparr>ds_read_cache := Some rb'\<rparr>, w',
            map (\<lambda>m. (\<lparr>id_version = 0, id_magic = ripc_head_default_magic,
                id_len = word_of_nat (24 + length (msg_payload m)), id_cmd = id_cmd m, id_sid = ds_id ds,
                id_crc = id_crc m, id_reserve0 = push_bit 32 (ucast (ucast (id_reserve0 m) :: 32 word)),
                id_data = None\<rparr>, msg_payload m)) ms, rcode_err_ok) \<and>
        rbuffer_inv rb' \<and> rbuffer_content rb' = []"
      by (simp only: dec wire_decoded_def)
  qed
qed

definition codec_demo_ds :: ripc_data_source where
  "codec_demo_ds = \<lparr>ds_id = 7, ds_type = ripc_data_source_type_client, ds_state = ripc_state_start,
    ds_read_cache = Some \<lparr>rb_data = replicate 64 0, rb_offset = 0, rb_pos = 0, rb_capacity = 64\<rparr>,
    ds_write_buff = Some \<lparr>rb_data = replicate 64 0, rb_offset = 0, rb_pos = 0, rb_capacity = 64\<rparr>\<rparr>"

definition codec_demo_msg :: ripc_data_default where
  "codec_demo_msg = \<lparr>id_version = 0, id_magic = [0, 0, 0], id_len = 2, id_cmd = 5, id_sid = 0,
    id_crc = 1, id_reserve0 = 3, id_data = Some [104, 105]\<rparr>"

definition codec_demo_env :: "unit decode_env" where
  "codec_demo_env = \<lparr>de_malloc = (\<lambda>_. True), de_send = (\<lambda>_ w. Some w), de_stop = Some,
    de_local = codec_demo_msg\<rparr>"

definition codec_demo_wire :: bytes where
  "codec_demo_wire = [0, 0x52, 0x61, 0x79, 0, 0, 0, 26, 0, 0, 0, 5, 0, 0, 0, 0, 0, 0, 0, 7, 0, 0, 0, 1,
    0, 0, 0, 3, 0, 0, 0, 0, 104, 105]"

definition codec_demo_rs :: ripc_data_source where
  "codec_demo_rs = codec_demo_ds\<lparr>ds_read_cache := Some \<lparr>rb_data = codec_demo_wire @ replicate 30 0,
    rb_offset = 0, rb_pos = 0, rb_capacity = 64\<rparr>\<rparr>"

lemma codec_demo_encoded:
  "map_option (\<lambda>ds. map_option rbuffer_content (ds_write_buff ds)) (encode_all codec_demo_ds [codec_demo_msg]) =
    Some (Some codec_demo_wire)"
  by code_simp

theorem codec_roundtrip_witness:
  "\<exists>rb'. decode_process codec_demo_env None codec_demo_rs 34 () =
    Some (codec_demo_rs\<lparr>ds_read_cache := Some rb'\<rparr>, (),
      [(\<lparr>id_version = 0, id_magic = ripc_head_default_magic, id_len = 26, id_cmd = 5, id_sid = 7,
         id_crc = 1, id_reserve0 = 3 * 2 ^ 32, id_data = None\<rparr>, [104, 105])], rcode_err_ok) \<and>
    rbuffer_inv rb' \<and> rbuffer_content rb' = []"
proof -
  let ?b = "\<lparr>rb_data = replicate 64 0, rb_offset = 0, rb_pos = 0, rb_capacity = 64\<rparr> :: rbuffer"
  let ?r = "\<lparr>rb_data = codec_demo_wire @ replicate 30 0, rb_offset = 0, rb_pos = 0, rb_capacity = 64\<rparr> :: rbuffer"
  have ds: "ds_write_buff codec_demo_ds = Some ?b" "ds_read_cache codec_demo_rs = Some ?r" "ds_id codec_demo_ds = 7"
    by (simp_all add: codec_demo_ds_def codec_demo_rs_def)
  have buf: "rbuffer_inv ?b" "rbuffer_inv ?r" "rbuffer_content ?b = []" "rbuffer_content ?r = []"
    by (simp_all add: rbuffer_inv_def codec_demo_wire_def rbuffer_content_def rbuffer_size_def)
  have msg: "list_all msg_ok [codec_demo_msg]" "wire_size [codec_demo_msg] = 34"
    "msg_payload codec_demo_msg = [104, 105]"
    by (simp_all add: msg_ok_def codec_demo_msg_def wire_size_def msg_payload_def)
  have fit: "wire_size [codec_demo_msg] \<le> rbuffer_left ?b" "rb_pos ?r + wire_size [codec_demo_msg] < rb_capacity ?r"
    by (simp_all add: msg rbuffer_left_def)
  have env: "de_malloc codec_demo_env n" "dispatch_all codec_demo_env (ds_type codec_demo_rs) xs () = Some ()" for n xs
    by (simp add: codec_demo_env_def) (induction xs, simp_all add: decode_dispatch_def codec_demo_rs_def codec_demo_ds_def)
  obtain wb' where wb': "encode_all codec_demo_ds [codec_demo_msg] = Some (codec_demo_ds\<lparr>ds_write_buff := Some wb'\<rparr>)"
    and dec: "take (length (rbuffer_content wb')) (drop (nat (rb_pos ?r)) (rb_data ?r)) = rbuffer_content wb' \<longrightarrow>
      (\<exists>rb'. decode_process codec_demo_env None codec_demo_rs (word_of_nat (length (rbuffer_content wb'))) () =
          Some (codec_demo_rs\<lparr>ds_read_cache := Some rb'\<rparr>, (),
            map (\<lambda>m. (\<lparr>id_version = 0, id_magic = ripc_head_default_magic,
                id_len = word_of_nat (24 + length (msg_payload m)), id_cmd = id_cmd m, id_sid = ds_id codec_demo_ds,
                id_crc = id_crc m, id_reserve0 = push_bit 32 (ucast (ucast (id_reserve0 m) :: 32 word)),
                id_data = None\<rparr>, msg_payload m)) [codec_demo_msg], rcode_err_ok) \<and>
        rbuffer_inv rb' \<and> rbuffer_content rb' = [])"
    using codec_roundtrip [OF ds(1) buf(1,3) msg(1) fit(1) ds(2) buf(2,4) fit(2) env] by blast
  have "rbuffer_content wb' = codec_demo_wire" using codec_demo_encoded wb' by simp
  with dec show ?thesis
    by (simp add: ds(3) codec_demo_wire_def codec_demo_msg_def msg_payload_def push_bit_eq_mult)
qed

text \<open>
  C2: A chunk that ends in the middle of a frame: the complete frames before it are delivered, and
  the part of the last frame that has already arrived is dropped.  The decoder means to give the
  bytes back with a negative \<open>rbuffer_read_ext\<close>, but the short read has already reset the buffer;
  the call returns \<open>rcode_err_ok\<close> with an empty cache.
\<close>

theorem decode_drops_partial_frame:
  assumes "ds_read_cache ds = Some b" "rbuffer_inv b" "rb_pos b + int n < rb_capacity b"
    and "rbuffer_content b @ take n (drop (nat (rb_pos b)) (rb_data b)) = concat (map frame_of ms) @ part"
    and "wire_frame sid m payload = part @ missing" "missing \<noteq> []" "length payload < 2147483647"
    and "\<And>k. de_malloc env k" "dispatch_all env (ds_type ds) (map decoded_of ms) w = Some w'"
  shows "\<exists>b'. decode_process env None ds (word_of_nat n) w =
      Some (ds\<lparr>ds_read_cache := Some b'\<rparr>, w', map decoded_of ms, rcode_err_ok) \<and>
    rbuffer_inv b' \<and> rbuffer_content b' = []"
  using decode_process_spec [OF assms(1-4) _ partial_frame_prefix [OF assms(5-8)] assms(9)] assms(8)
  by (auto simp: list_all_iff)

lemma codec_demo_read_cache:
  "ds_read_cache codec_demo_rs = Some \<lparr>rb_data = codec_demo_wire @ replicate 30 0, rb_offset = 0,
    rb_pos = 0, rb_capacity = 64\<rparr>"
  "rbuffer_inv \<lparr>rb_data = codec_demo_wire @ replicate 30 0, rb_offset = 0, rb_pos = 0, rb_capacity = 64\<rparr>"
  by (simp_all add: codec_demo_rs_def rbuffer_inv_def codec_demo_wire_def)

lemma codec_demo_frame: "wire_frame 7 codec_demo_msg [104, 105] = codec_demo_wire"
  by code_simp

theorem decode_drops_partial_frame_witness:
  "\<exists>b'. decode_process codec_demo_env None codec_demo_rs 33 () =
      Some (codec_demo_rs\<lparr>ds_read_cache := Some b'\<rparr>, (), [], rcode_err_ok) \<and>
    rbuffer_inv b' \<and> rbuffer_content b' = []"
  using decode_drops_partial_frame [OF codec_demo_read_cache, of 33 "[]" "take 33 codec_demo_wire" 7
      codec_demo_msg "[104, 105]" "drop 33 codec_demo_wire" codec_demo_env "()" "()"]
  by (simp add: codec_demo_frame) (simp add: codec_demo_wire_def rbuffer_content_def rbuffer_size_def
      codec_demo_env_def)

text \<open>
  C4: A chunk of complete frames that fills the read cache up to its last byte: all frames but the
  last are delivered, and the last one is lost, because \<open>rbuffer_seek\<close> cannot place the write position
  at the end of the cache.
\<close>

theorem decode_full_cache_loses_frame:
  assumes "ds_read_cache ds = Some b" "rbuffer_inv b" "rb_pos b + int n = rb_capacity b" "0 < n"
    and "rbuffer_content b @ take n (drop (nat (rb_pos b)) (rb_data b)) =
      concat (map frame_of ms) @ wire_frame sid m payload"
    and "length payload < 2147483647"
    and "\<And>k. de_malloc env k" "dispatch_all env (ds_type ds) (map decoded_of ms) w = Some w'"
  shows "\<exists>b'. decode_process env None ds (word_of_nat n) w =
      Some (ds\<lparr>ds_read_cache := Some b'\<rparr>, w', map decoded_of ms, rcode_err_ok) \<and>
    rbuffer_inv b' \<and> rbuffer_content b' = []"
proof -
  obtain part x where px: "wire_frame sid m payload = part @ [x]"
    using wire_frame_length [of sid m payload] by (cases "wire_frame sid m payload" rule: rev_cases) auto
  obtain b1 where b1: "decode_on_before ds (word_of_nat n) = Some (ds\<lparr>ds_read_cache := Some b1\<rparr>, rcode_err_ok)"
     "rbuffer_inv b1" "rbuffer_content b1 = concat (map frame_of ms) @ part" "rb_capacity b1 = rb_capacity b"
    using decode_on_before_full [OF assms(1-4), of "concat (map frame_of ms) @ part" x] assms(5) px by auto
  have "0 < rb_capacity b1" using b1(4) assms(2-4) by (auto simp: rbuffer_inv_def)
  from decode_process_from [OF b1(1-3) this _ partial_frame_prefix [OF px _ assms(6,7)] assms(8)] assms(7)
  show ?thesis by (auto simp: list_all_iff)
qed

definition codec_demo_tight :: ripc_data_source where
  "codec_demo_tight = codec_demo_ds\<lparr>ds_read_cache := Some \<lparr>rb_data = codec_demo_wire,
    rb_offset = 0, rb_pos = 0, rb_capacity = 34\<rparr>\<rparr>"

theorem decode_full_cache_loses_frame_witness:
  "\<exists>b'. decode_process codec_demo_env None codec_demo_tight 34 () =
      Some (codec_demo_tight\<lparr>ds_read_cache := Some b'\<rparr>, (), [], rcode_err_ok) \<and>
    rbuffer_inv b' \<and> rbuffer_content b' = []"
proof -
  let ?b = "\<lparr>rb_data = codec_demo_wire, rb_offset = 0, rb_pos = 0, rb_capacity = 34\<rparr> :: rbuffer"
  have "ds_read_cache codec_demo_tight = Some ?b" "rbuffer_inv ?b"
    by (simp_all add: codec_demo_tight_def rbuffer_inv_def codec_demo_wire_def)
  from decode_full_cache_loses_frame [OF this, of 34 "[]" 7 codec_demo_msg "[104, 105]" codec_demo_env "()" "()"]
  show ?thesis
    by (simp add: codec_demo_frame) (simp add: codec_demo_wire_def rbuffer_content_def rbuffer_size_def
      codec_demo_env_def)
qed

text \<open>
  C40: The error paths of the codec: the encoder refuses a message whose frame does not fit, with
  \<open>rcode_err_ipc_cache_full\<close>, the caller's message untouched and no byte written; the decoder answers
  32 bytes without the magic with \<open>rcode_err_ipc_magic\<close> and clears the cache.
\<close>

theorem codec_errors:
  assumes "rbuffer_inv b"
  shows "(ds_write_buff ds = Some b \<and>
      uint (id_len data + 32) > (if rbuffer_size b = 0 then rb_capacity b else rbuffer_left b) \<longrightarrow>
      (\<exists>b'. encode_process next_process ds data =
          Some (ds\<lparr>ds_write_buff := Some b'\<rparr>, data, ipc_code rcode_err_ipc_cache_full) \<and>
        rbuffer_inv b' \<and> rbuffer_content b' = rbuffer_content b)) \<and>
    (rbuffer_content b = h @ rest \<and> length h = 32 \<and>
      id_magic (head_of_bytes h) \<noteq> ripc_head_default_magic \<longrightarrow>
      (\<exists>b'. decode_loop env ty b w = Some ((Some b', ipc_code rcode_err_ipc_magic), w, []) \<and>
        rbuffer_inv b' \<and> rbuffer_content b' = []))"
  using encode_process_full [OF _ assms, of ds data next_process] decode_one_bad_magic [OF assms, of h rest env]
  by (fastforce simp: decode_loop.simps [of env ty b w])

definition codec_demo_full :: rbuffer where
  "codec_demo_full = \<lparr>rb_data = replicate 32 0, rb_offset = 0, rb_pos = 32, rb_capacity = 32\<rparr>"

theorem codec_errors_witness:
  "(\<exists>b'. encode_process None (codec_demo_ds\<lparr>ds_write_buff := Some codec_demo_full\<rparr>) codec_demo_msg =
      Some (codec_demo_ds\<lparr>ds_write_buff := Some b'\<rparr>, codec_demo_msg, ipc_code rcode_err_ipc_cache_full) \<and>
    rbuffer_inv b' \<and> rbuffer_content b' = replicate 32 0) \<and>
   (\<exists>b'. decode_loop codec_demo_env ripc_data_source_type_session codec_demo_full () =
      Some ((Some b', ipc_code rcode_err_ipc_magic), (), []) \<and> rbuffer_inv b' \<and> rbuffer_content b' = [])"
proof -
  have inv: "rbuffer_inv codec_demo_full" by (simp add: codec_demo_full_def rbuffer_inv_def)
  have c: "rbuffer_content codec_demo_full = replicate 32 0"
    by (simp add: codec_demo_full_def rbuffer_content_def rbuffer_size_def)
  have "id_magic (head_of_bytes (replicate 32 0)) \<noteq> ripc_head_default_magic"
    by code_simp
  with codec_errors [OF inv, of "codec_demo_ds\<lparr>ds_write_buff := Some codec_demo_full\<rparr>" codec_demo_msg None
      "replicate 32 0" "[]" codec_demo_env ripc_data_source_type_session "()"] c
  show ?thesis
    by (simp add: codec_demo_full_def codec_demo_msg_def rbuffer_size_def rbuffer_left_def)
qed

end
