(* ===== verification/RArray.thy ===== *)
theory RArray
  imports Prelude "HOL-Library.Log_Nat"
begin

text \<open>
  The growable array of \<open>common/src/rarray.c\<close> and \<open>common/include/rarray.h\<close>: its record, the set,
  get and remove functions of the element types, every operation, the abstraction to the list of
  its first \<open>size\<close> cells, and the locale \<open>list_store\<close> of what its users rely on, interpreted on the
  operations.  A cell of value 0 is a null pointer or a zeroed number; the sizes are \<open>uint32_t\<close>
  values held as naturals.
\<close>

section \<open>The array\<close>

text \<open>
  \<open>rarray_init\<close> installs the set, get and remove functions of an element type together;
  \<open>kind_none\<close> is an array that only went through \<open>rarray_create\<close>, whose function pointers are null.
  A value of a string array is the text.
\<close>

datatype rarray_kind = kind_none | kind_ptr | kind_string | kind_plain

text \<open>
  \<open>ra_free\<close> yields what a call of \<open>free_value_func\<close> releases; \<open>ra_freed\<close> is a ghost field that
  collects it.
\<close>

record 'v rarray =
  ra_value_size :: nat
  ra_size :: nat
  ra_capacity :: nat
  ra_kind :: rarray_kind
  ra_copy :: "('v \<Rightarrow> 'v) option"
  ra_compare :: "'v \<Rightarrow> 'v \<Rightarrow> int"
  ra_free :: "('v \<Rightarrow> 'v list) option"
  ra_items :: "'v list option"
  ra_freed :: "'v list"

abbreviation (input) rarray_code_error :: int where "rarray_code_error \<equiv> 1"
abbreviation (input) rarray_code_not_exist :: int where "rarray_code_not_exist \<equiv> 4"
abbreviation (input) rarray_code_index_out4_size :: int where "rarray_code_index_out4_size \<equiv> 5"

text \<open>
  What lies outside the array: whether an allocation of so many bytes succeeds, and whether the
  platform's \<open>memcpy\<close> tolerates a move of cells to lower addresses (the C standard gives
  overlapping regions no meaning).
\<close>

record rarray_env =
  ae_alloc :: "nat \<Rightarrow> bool"
  ae_memcpy_down :: bool

text \<open>A \<open>uint32_t\<close> product of a count and the cell size, as a number of cells.\<close>

definition cells32 :: "nat \<Rightarrow> nat \<Rightarrow> nat" where
  "cells32 n value_size = (n * value_size) mod 2 ^ 32 div value_size"

text \<open>The conversion of a natural to \<open>float\<close>: 24 significant bits, ties to even.\<close>

definition round_f32 :: "nat \<Rightarrow> nat" where
  "round_f32 n = (if n < 2 ^ 24 then n
     else let e = floorlog 2 n - 24; q = n div 2 ^ e; r = n mod 2 ^ e; h = 2 ^ (e - 1)
          in (if r < h \<or> r = h \<and> even q then q else q + 1) * 2 ^ e)"

definition compare_func_default :: "'v \<Rightarrow> 'v \<Rightarrow> int" where
  "compare_func_default a b = (if a = b then 0 else 2)"

section \<open>Operations\<close>

definition rarray_alloc :: "rarray_env \<Rightarrow> 'v::zero rarray \<Rightarrow> nat \<Rightarrow> ('v rarray \<times> int) option" where
  "rarray_alloc env ar capacity =
    (if \<not> ae_alloc env (ra_value_size ar * capacity) then Some (ar, rarray_code_error)
     else do {
       cells \<leftarrow> (case ra_items ar of
           None \<Rightarrow> Some (replicate capacity 0)
         | Some old \<Rightarrow>
             let copy_len = sint (word_of_nat (ra_size ar) :: 32 word)
             in if copy_len > 0
                then do {
                  xs \<leftarrow> mem_get old 0 (int (cells32 (nat copy_len) (ra_value_size ar)));
                  mem_put (replicate capacity 0) 0 xs
                }
                else Some (replicate capacity 0));
       Some (ar\<lparr>ra_items := Some cells, ra_capacity := capacity\<rparr>, rcode_ok)
     })"

definition rarray_create :: "rarray_env \<Rightarrow> nat \<Rightarrow> nat \<Rightarrow> 'v::zero rarray option" where
  "rarray_create env value_size init_capacity = do {
     let ar = \<lparr>ra_value_size = value_size, ra_size = 0,
       ra_capacity = (if init_capacity > 0 then init_capacity else 16),
       ra_kind = kind_none, ra_copy = None, ra_compare = compare_func_default, ra_free = None,
       ra_items = None, ra_freed = []\<rparr>;
     (ar1, ret) \<leftarrow> rarray_alloc env ar (ra_capacity ar);
     _ \<leftarrow> rassert (ret = rcode_ok);
     Some ar1
   }"

text \<open>\<open>rarray_init\<close> of a type: string arrays free their texts, the other types free nothing.\<close>

definition rarray_init :: "rarray_env \<Rightarrow> rarray_kind \<Rightarrow> nat \<Rightarrow> nat \<Rightarrow> 'v::zero rarray option" where
  "rarray_init env kind value_size sz = do {
     ar \<leftarrow> rarray_create env value_size sz;
     Some (ar\<lparr>ra_kind := kind, ra_free := Some (\<lambda>v. if kind = kind_string then [v] else [])\<rparr>)
   }"

text \<open>A call of \<open>free_value_func\<close>; a null function pointer crashes.\<close>

definition call_free :: "'v rarray \<Rightarrow> 'v \<Rightarrow> 'v rarray option" where
  "call_free ar v = (case ra_free ar of
     None \<Rightarrow> None | Some f \<Rightarrow> Some (ar\<lparr>ra_freed := ra_freed ar @ f v\<rparr>))"

definition rarray_set_value :: "'v::zero rarray \<Rightarrow> nat \<Rightarrow> 'v \<Rightarrow> ('v rarray \<times> int) option" where
  "rarray_set_value ar offset obj = do {
     items \<leftarrow> ra_items ar;
     _ \<leftarrow> (if offset < length items then Some () else None);
     (case ra_kind ar of
        kind_none \<Rightarrow> None
      | kind_ptr \<Rightarrow> do {
          ar1 \<leftarrow> (if items ! offset \<noteq> 0 then call_free ar (items ! offset) else Some ar);
          let v = (case ra_copy ar of Some cp \<Rightarrow> cp obj | None \<Rightarrow> obj);
          Some (ar1\<lparr>ra_items := Some (items[offset := v])\<rparr>, rcode_ok)
        }
      | _ \<Rightarrow> Some (ar\<lparr>ra_items := Some (items[offset := obj])\<rparr>, rcode_ok))
   }"

definition rarray_get_value :: "'v rarray \<Rightarrow> nat \<Rightarrow> 'v option" where
  "rarray_get_value ar offset = do {
     items \<leftarrow> ra_items ar;
     if ra_kind ar \<noteq> kind_none \<and> offset < length items then Some (items ! offset) else None
   }"

text \<open>
  The remove functions: the object is freed (pointers and strings), the cells behind it move down
  by one, the last one is zeroed.  For pointers and strings the number of bytes is a 32-bit
  product, for the other types a \<open>size_t\<close> one.
\<close>

definition rarray_remove_value :: "rarray_env \<Rightarrow> 'v::zero rarray \<Rightarrow> nat \<Rightarrow> ('v rarray \<times> int) option" where
  "rarray_remove_value env ar index = do {
     items \<leftarrow> ra_items ar;
     _ \<leftarrow> (if ra_kind ar \<noteq> kind_none \<and> index < length items then Some () else None);
     ar1 \<leftarrow> (if ra_kind ar \<noteq> kind_plain \<and> items ! index \<noteq> 0 then call_free ar (items ! index) else Some ar);
     let copy_len = int (ra_size ar) - int index - 1;
     let n = (if ra_kind ar = kind_plain then copy_len
              else int (cells32 (nat copy_len) (ra_value_size ar)));
     moved \<leftarrow> (if copy_len > 0
       then if n \<le> 1 \<or> ae_memcpy_down env
         then do { xs \<leftarrow> mem_get items (int index + 1) n; mem_put items (int index) xs }
         else None
       else Some items);
     cleared \<leftarrow> mem_put moved (int (ra_size ar) - 1) [0];
     Some (ar1\<lparr>ra_items := Some cleared, ra_size := ra_size ar - 1\<rparr>, rcode_ok)
   }"

definition rarray_add :: "rarray_env \<Rightarrow> 'v::zero rarray option \<Rightarrow> 'v \<Rightarrow> ('v rarray option \<times> int) option" where
  "rarray_add env arp val = (case arp of
     None \<Rightarrow> Some (None, rcode_ok)
   | Some ar \<Rightarrow> do {
       ar1 \<leftarrow> (if ra_size ar \<ge> ra_capacity ar
         then let c = 2 * round_f32 (ra_capacity ar)
              in if c \<ge> 2 ^ 32 then None
                 else do { (ar', ret) \<leftarrow> rarray_alloc env ar c; _ \<leftarrow> rassert (ret = rcode_ok); Some ar' }
         else Some ar);
       (ar2, code) \<leftarrow> rarray_set_value ar1 (ra_size ar1) val;
       Some (Some (ar2\<lparr>ra_size := (ra_size ar2 + 1) mod 2 ^ 32\<rparr>), code)
     })"

definition rarray_at :: "'v::zero rarray option \<Rightarrow> nat \<Rightarrow> 'v option" where
  "rarray_at arp index = (case arp of
     None \<Rightarrow> Some 0
   | Some ar \<Rightarrow> if index \<ge> ra_capacity ar then Some 0 else rarray_get_value ar index)"

text \<open>
  The iteration \<open>for (; temp = rarray_next(&it), rarray_has_next(&it); )\<close> from an index on: the values
  handed to the body, one after the other.  The value of the round that ends the loop is read too.
\<close>

function rarray_iter :: "'v::zero rarray \<Rightarrow> nat \<Rightarrow> 'v list option" where
  "rarray_iter ar i = do {
     temp \<leftarrow> rarray_at (Some ar) i;
     if i + 1 \<le> ra_size ar then map_option ((#) temp) (rarray_iter ar (i + 1)) else Some []
   }"
  by pat_completeness auto
termination by (relation "measure (\<lambda>(ar, i). ra_size ar - i)") auto

declare rarray_iter.simps [simp del]

text \<open>The index at which a search of the loop stops.\<close>

fun find_first :: "('v \<Rightarrow> bool) \<Rightarrow> 'v list \<Rightarrow> nat option" where
  "find_first P [] = None"
| "find_first P (x # xs) = (if P x then Some 0 else map_option Suc (find_first P xs))"

definition rarray_remove :: "rarray_env \<Rightarrow> 'v::zero rarray option \<Rightarrow> 'v \<Rightarrow> ('v rarray option \<times> int) option" where
  "rarray_remove env arp val = (case arp of
     None \<Rightarrow> Some (None, rcode_ok)
   | Some ar \<Rightarrow> do {
       xs \<leftarrow> rarray_iter ar 0;
       (case find_first (\<lambda>x. ra_compare ar x val = 0) xs of
          None \<Rightarrow> Some (Some ar, rarray_code_not_exist)
        | Some index \<Rightarrow> do {
            (ar', _) \<leftarrow> rarray_remove_value env ar index;
            Some (Some ar', rcode_ok)
          })
     })"

definition rarray_remove_at :: "rarray_env \<Rightarrow> 'v::zero rarray option \<Rightarrow> nat \<Rightarrow> ('v rarray option \<times> int) option" where
  "rarray_remove_at env arp index = (case arp of
     None \<Rightarrow> Some (None, rcode_ok)
   | Some ar \<Rightarrow>
       if index \<ge> ra_size ar then Some (Some ar, rarray_code_index_out4_size)
       else do { (ar', ret) \<leftarrow> rarray_remove_value env ar index; Some (Some ar', ret) })"

definition rarray_get_all :: "rarray_env \<Rightarrow> 'v::zero rarray option \<Rightarrow> 'v list option option" where
  "rarray_get_all env arp = (case arp of
     None \<Rightarrow> Some None
   | Some ar \<Rightarrow> (case ra_items ar of
       None \<Rightarrow> Some None
     | Some items \<Rightarrow>
         if \<not> ae_alloc env (ra_value_size ar * ra_size ar) then Some None
         else let copy_len = sint (word_of_nat (ra_size ar) :: 32 word)
              in if copy_len > 0
                 then do {
                   xs \<leftarrow> mem_get items 0 (int (cells32 (nat copy_len) (ra_value_size ar)));
                   map_option Some (mem_put (replicate (ra_size ar) 0) 0 xs)
                 }
                 else Some (Some (replicate (ra_size ar) 0))))"

definition rarray_exist :: "'v::zero rarray option \<Rightarrow> 'v \<Rightarrow> bool option" where
  "rarray_exist arp data = (case arp of
     None \<Rightarrow> Some False
   | Some ar \<Rightarrow> map_option (\<lambda>xs. \<exists>x\<in>set xs. ra_compare ar x data = 0) (rarray_iter ar 0))"

definition rarray_clear :: "'v::zero rarray option \<Rightarrow> 'v rarray option option" where
  "rarray_clear arp = (case arp of
     None \<Rightarrow> Some None
   | Some ar \<Rightarrow> do {
       freed \<leftarrow> (case ra_free ar of
           None \<Rightarrow> Some []
         | Some f \<Rightarrow> map_option (\<lambda>xs. concat (map f xs)) (rarray_iter ar 0));
       items \<leftarrow> ra_items ar;
       let n = cells32 (ra_capacity ar) (ra_value_size ar);
       cleared \<leftarrow> mem_put items 0 (replicate n 0);
       Some (Some (ar\<lparr>ra_items := Some cleared, ra_size := 0, ra_freed := ra_freed ar @ freed\<rparr>))
     })"

section \<open>Invariant and abstraction\<close>

text \<open>
  The cells behind the last element are zero; the byte sizes the code computes in 32 bits fit.
\<close>

definition rarray_inv :: "'v::zero rarray \<Rightarrow> bool" where
  "rarray_inv ar \<longleftrightarrow> (\<exists>items. ra_items ar = Some items \<and> length items = ra_capacity ar \<and>
      drop (ra_size ar) items = replicate (ra_capacity ar - ra_size ar) 0) \<and>
    ra_size ar \<le> ra_capacity ar \<and> 0 < ra_capacity ar \<and> ra_capacity ar < 2 ^ 31 \<and>
    0 < ra_value_size ar \<and> ra_capacity ar * ra_value_size ar < 2 ^ 32 \<and>
    ra_kind ar \<noteq> kind_none \<and> ra_free ar \<noteq> None"

definition rarray_abs :: "'v rarray \<Rightarrow> 'v list" where
  "rarray_abs ar = (case ra_items ar of None \<Rightarrow> [] | Some items \<Rightarrow> take (ra_size ar) items)"

text \<open>What an array keeps of a value it is given: pointer arrays with a copy function keep its copy.\<close>

definition rarray_stored :: "'v rarray \<Rightarrow> 'v \<Rightarrow> 'v" where
  "rarray_stored ar v = (if ra_kind ar = kind_ptr then (case ra_copy ar of Some cp \<Rightarrow> cp v | None \<Rightarrow> v) else v)"

text \<open>An element can be added: there is a free cell, or doubling the array succeeds.\<close>

definition rarray_room :: "rarray_env \<Rightarrow> 'v rarray \<Rightarrow> bool" where
  "rarray_room env ar \<longleftrightarrow> ra_size ar < ra_capacity ar \<or>
    ra_capacity ar < 2 ^ 24 \<and> 2 * ra_capacity ar * ra_value_size ar < 2 ^ 32 \<and>
    ae_alloc env (ra_value_size ar * (2 * ra_capacity ar))"

lemma rarray_invE:
  assumes "rarray_inv ar"
  obtains items where "ra_items ar = Some items" "length items = ra_capacity ar"
    "drop (ra_size ar) items = replicate (ra_capacity ar - ra_size ar) 0"
    "ra_size ar \<le> ra_capacity ar" "0 < ra_capacity ar" "ra_capacity ar < 2 ^ 31"
    "0 < ra_value_size ar" "ra_capacity ar * ra_value_size ar < 2 ^ 32"
    "ra_kind ar \<noteq> kind_none" "ra_free ar \<noteq> None"
  using assms unfolding rarray_inv_def by blast

lemma rarray_abs_length: "rarray_inv ar \<Longrightarrow> length (rarray_abs ar) = ra_size ar"
  by (erule rarray_invE) (simp add: rarray_abs_def)

lemma cells32_in: "0 < v \<Longrightarrow> n * v < 2 ^ 32 \<Longrightarrow> cells32 n v = n"
  by (simp add: cells32_def)

lemma cells32_le:
  assumes "0 < v" "m * v < 2 ^ 32" "n \<le> m"
  shows "cells32 n v = n"
proof -
  have "n * v \<le> m * v" using assms(3) by (rule mult_le_mono1)
  then have "n * v < 2 ^ 32" using assms(2) by (rule le_less_trans)
  with assms(1) show ?thesis by (rule cells32_in)
qed

lemma copy_len32: "n < 2 ^ 31 \<Longrightarrow> sint (word_of_nat n :: 32 word) = int n"
  by (simp add: signed_of_nat signed_take_bit_int_eq_self)

lemma rarray_create_spec:
  assumes "0 < v" "0 < c \<Longrightarrow> c * v < 2 ^ 32 \<and> c < 2 ^ 31" "16 * v < 2 ^ 32"
    and "ae_alloc env (v * (if c > 0 then c else 16))" "kind \<noteq> kind_none"
  shows "\<exists>ar. rarray_init env kind v c = Some ar \<and> rarray_inv ar \<and> rarray_abs ar = [] \<and>
    ra_capacity ar = (if c > 0 then c else 16) \<and> ra_kind ar = kind \<and> ra_value_size ar = v \<and> ra_freed ar = []"
  using assms
  by (auto simp: rarray_init_def rarray_create_def rarray_alloc_def rarray_inv_def rarray_abs_def Let_def)

lemma rarray_alloc_spec:
  assumes "rarray_inv ar" "ra_capacity ar \<le> c" "c < 2 ^ 31" "c * ra_value_size ar < 2 ^ 32"
    and "ae_alloc env (ra_value_size ar * c)"
  shows "\<exists>ar'. rarray_alloc env ar c = Some (ar', rcode_ok) \<and> rarray_inv ar' \<and>
    rarray_abs ar' = rarray_abs ar \<and> ra_capacity ar' = c \<and> ra_size ar' = ra_size ar \<and>
    ra_kind ar' = ra_kind ar \<and> ra_value_size ar' = ra_value_size ar \<and> ra_freed ar' = ra_freed ar \<and>
    ra_copy ar' = ra_copy ar \<and> ra_compare ar' = ra_compare ar \<and> ra_free ar' = ra_free ar"
proof -
  obtain items where i: "ra_items ar = Some items" "length items = ra_capacity ar"
    "ra_size ar \<le> ra_capacity ar" "0 < ra_capacity ar" "ra_capacity ar < 2 ^ 31"
    "0 < ra_value_size ar" "ra_capacity ar * ra_value_size ar < 2 ^ 32"
    "ra_kind ar \<noteq> kind_none" "ra_free ar \<noteq> None"
    using assms(1) by (rule rarray_invE)
  have sint: "sint (word_of_nat (ra_size ar) :: 32 word) = int (ra_size ar)"
    using i by (intro copy_len32) simp
  have cells: "cells32 (ra_size ar) (ra_value_size ar) = ra_size ar"
    using i by (intro cells32_le)
  define ar' where "ar' = ar\<lparr>ra_items := Some (take (ra_size ar) items @ replicate (c - ra_size ar) 0), ra_capacity := c\<rparr>"
  have "rarray_alloc env ar c = Some (ar', rcode_ok)"
    using i assms(2,5) by (auto simp: rarray_alloc_def sint cells Let_def mem_get_in mem_put_in ar'_def)
  moreover have "rarray_inv ar'"
    using i assms by (auto simp: rarray_inv_def ar'_def)
  ultimately show ?thesis using i by (simp add: ar'_def rarray_abs_def)
qed

lemma rarray_set_value_end:
  assumes "rarray_inv ar" "ra_size ar < ra_capacity ar" "v' = rarray_stored ar v"
  shows "\<exists>ar'. rarray_set_value ar (ra_size ar) v = Some (ar', rcode_ok) \<and>
    rarray_inv (ar'\<lparr>ra_size := ra_size ar + 1\<rparr>) \<and>
    rarray_abs (ar'\<lparr>ra_size := ra_size ar + 1\<rparr>) = rarray_abs ar @ [v'] \<and>
    ar' = ar\<lparr>ra_items := ra_items ar'\<rparr>"
proof -
  obtain items where i: "ra_items ar = Some items" "length items = ra_capacity ar"
    "drop (ra_size ar) items = replicate (ra_capacity ar - ra_size ar) 0"
    "ra_size ar \<le> ra_capacity ar" "0 < ra_capacity ar" "ra_capacity ar < 2 ^ 31"
    "0 < ra_value_size ar" "ra_capacity ar * ra_value_size ar < 2 ^ 32"
    "ra_kind ar \<noteq> kind_none" "ra_free ar \<noteq> None"
    using assms(1) by (rule rarray_invE)
  have zero: "items ! ra_size ar = 0"
    using arg_cong [OF i(3), of hd] assms(2) i(2) by (simp add: hd_drop_conv_nth)
  have set: "rarray_set_value ar (ra_size ar) v = Some (ar\<lparr>ra_items := Some (items[ra_size ar := v'])\<rparr>, rcode_ok)"
    using i assms(2,3) zero
    by (cases "ra_kind ar") (auto simp: rarray_set_value_def rarray_stored_def Let_def split: option.splits)
  have rest: "drop (Suc (ra_size ar)) (items[ra_size ar := v']) = replicate (ra_capacity ar - Suc (ra_size ar)) 0"
    using arg_cong [OF i(3), of "drop 1"] assms(2) i(2) by simp
  have "take (Suc (ra_size ar)) (items[ra_size ar := v']) = take (ra_size ar) items @ [v']"
    using assms(2) i(2) by (simp add: take_Suc_conv_app_nth)
  with rest set i assms(2) show ?thesis
    by (simp add: rarray_inv_def rarray_abs_def)
qed

lemma rarray_add_spec:
  assumes "rarray_inv ar" "rarray_room env ar" "v' = rarray_stored ar v"
  shows "\<exists>ar'. rarray_add env (Some ar) v = Some (Some ar', rcode_ok) \<and> rarray_inv ar' \<and>
    rarray_abs ar' = rarray_abs ar @ [v'] \<and> ra_freed ar' = ra_freed ar \<and>
    ra_capacity ar' = (if ra_size ar < ra_capacity ar then ra_capacity ar else 2 * ra_capacity ar) \<and>
    ra_kind ar' = ra_kind ar \<and> ra_copy ar' = ra_copy ar \<and> ra_compare ar' = ra_compare ar \<and>
    ra_free ar' = ra_free ar \<and> ra_value_size ar' = ra_value_size ar"
proof -
  obtain ar1 where ar1: "(if ra_size ar \<ge> ra_capacity ar
       then let c = 2 * round_f32 (ra_capacity ar)
            in if c \<ge> 2 ^ 32 then None
               else do { (ar', ret) \<leftarrow> rarray_alloc env ar c; _ \<leftarrow> rassert (ret = rcode_ok); Some ar' }
       else Some ar) = Some ar1"
    "rarray_inv ar1" "rarray_abs ar1 = rarray_abs ar" "ra_size ar1 = ra_size ar" "ra_size ar1 < ra_capacity ar1"
    "ra_capacity ar1 = (if ra_size ar < ra_capacity ar then ra_capacity ar else 2 * ra_capacity ar)"
    "ra_kind ar1 = ra_kind ar" "ra_copy ar1 = ra_copy ar" "ra_compare ar1 = ra_compare ar"
    "ra_free ar1 = ra_free ar" "ra_value_size ar1 = ra_value_size ar" "ra_freed ar1 = ra_freed ar"
  proof (cases "ra_size ar < ra_capacity ar")
    case True
    with that [of ar] assms(1) show ?thesis by simp
  next
    case False
    then have r: "ra_capacity ar < 2 ^ 24" "2 * ra_capacity ar * ra_value_size ar < 2 ^ 32"
      "ae_alloc env (ra_value_size ar * (2 * ra_capacity ar))" using assms(2) by (auto simp: rarray_room_def)
    have f: "round_f32 (ra_capacity ar) = ra_capacity ar" using r(1) by (simp add: round_f32_def)
    obtain ar2 where "rarray_alloc env ar (2 * ra_capacity ar) = Some (ar2, rcode_ok)" "rarray_inv ar2"
      "rarray_abs ar2 = rarray_abs ar" "ra_capacity ar2 = 2 * ra_capacity ar" "ra_size ar2 = ra_size ar"
      "ra_kind ar2 = ra_kind ar" "ra_value_size ar2 = ra_value_size ar" "ra_freed ar2 = ra_freed ar"
      "ra_copy ar2 = ra_copy ar" "ra_compare ar2 = ra_compare ar" "ra_free ar2 = ra_free ar"
      using rarray_alloc_spec [OF assms(1), of "2 * ra_capacity ar" env] r by auto
    moreover have "ra_size ar \<le> ra_capacity ar" "0 < ra_capacity ar"
      using assms(1) by (auto elim: rarray_invE)
    ultimately show ?thesis using False r(1) f by (intro that [of ar2]) (auto simp: Let_def)
  qed
  have "v' = rarray_stored ar1 v" using assms(3) ar1(7,8) by (simp add: rarray_stored_def)
  from rarray_set_value_end [OF ar1(2,5) this]
  obtain ar2 where ar2: "rarray_set_value ar1 (ra_size ar1) v = Some (ar2, rcode_ok)"
      "rarray_inv (ar2\<lparr>ra_size := ra_size ar1 + 1\<rparr>)"
      "rarray_abs (ar2\<lparr>ra_size := ra_size ar1 + 1\<rparr>) = rarray_abs ar1 @ [v']"
      "ar2 = ar1\<lparr>ra_items := ra_items ar2\<rparr>"
    by blast
  have keep: "ra_size ar2 = ra_size ar1" "ra_freed ar2 = ra_freed ar1" "ra_capacity ar2 = ra_capacity ar1"
     "ra_kind ar2 = ra_kind ar1" "ra_copy ar2 = ra_copy ar1" "ra_compare ar2 = ra_compare ar1"
     "ra_free ar2 = ra_free ar1" "ra_value_size ar2 = ra_value_size ar1"
    by (subst ar2(4), simp)+
  have "ra_capacity ar1 < 2 ^ 31" using ar1(2) by (rule rarray_invE)
  then have "(ra_size ar1 + 1) mod 2 ^ 32 = ra_size ar1 + 1" using ar1(5) by simp
  then have "rarray_add env (Some ar) v = Some (Some (ar2\<lparr>ra_size := ra_size ar1 + 1\<rparr>), rcode_ok)"
    unfolding rarray_add_def option.case ar1(1) by (simp add: ar2(1) keep)
  with ar1 ar2 keep show ?thesis by simp
qed

section \<open>What the operations do to the list\<close>

lemma rarray_at_spec:
  assumes "rarray_inv ar"
  shows "rarray_at (Some ar) i = Some (if i < ra_size ar then rarray_abs ar ! i else 0)"
proof -
  obtain items where i: "ra_items ar = Some items" "length items = ra_capacity ar"
    "drop (ra_size ar) items = replicate (ra_capacity ar - ra_size ar) 0" "ra_kind ar \<noteq> kind_none"
    "ra_size ar \<le> ra_capacity ar"
    using assms by (rule rarray_invE)
  have "items ! i = 0" if "ra_size ar \<le> i" "i < ra_capacity ar"
  proof -
    have "items ! i = drop (ra_size ar) items ! (i - ra_size ar)" using that i(2) by simp
    then show ?thesis using that by (simp add: i(3))
  qed
  with i show ?thesis by (auto simp: rarray_at_def rarray_get_value_def rarray_abs_def)
qed

lemma rarray_iter_spec:
  "rarray_inv ar \<Longrightarrow> i \<le> ra_size ar \<Longrightarrow> rarray_iter ar i = Some (drop i (rarray_abs ar))"
proof (induction ar i rule: rarray_iter.induct)
  case (1 ar i)
  show ?case
  proof (cases "i < ra_size ar")
    case True
    have "rarray_at (Some ar) i = Some (rarray_abs ar ! i)"
      using rarray_at_spec [OF "1.prems"(1), of i] True by simp
    moreover from this have "rarray_iter ar (i + 1) = Some (drop (i + 1) (rarray_abs ar))"
      using "1.IH" "1.prems" True by simp
    moreover have "drop i (rarray_abs ar) = rarray_abs ar ! i # drop (i + 1) (rarray_abs ar)"
      using True rarray_abs_length [OF "1.prems"(1)] by (simp add: Cons_nth_drop_Suc)
    ultimately show ?thesis using True by (subst rarray_iter.simps) simp
  next
    case False
    with "1.prems" rarray_abs_length [OF "1.prems"(1)] rarray_at_spec [OF "1.prems"(1), of i]
    show ?thesis by (subst rarray_iter.simps) simp
  qed
qed

lemma rarray_iter_all: "rarray_inv ar \<Longrightarrow> rarray_iter ar 0 = Some (rarray_abs ar)"
  using rarray_iter_spec [of ar 0] by simp

text \<open>What is released when a cell is removed.\<close>

definition removed_free :: "'v::zero rarray \<Rightarrow> 'v \<Rightarrow> 'v list" where
  "removed_free ar v = (if ra_kind ar \<noteq> kind_plain \<and> v \<noteq> 0 then the (ra_free ar) v else [])"

lemma rarray_remove_value_spec:
  assumes "rarray_inv ar" "index < ra_size ar" "ae_memcpy_down env \<or> ra_size ar \<le> index + 2"
  shows "\<exists>ar'. rarray_remove_value env ar index = Some (ar', rcode_ok) \<and> rarray_inv ar' \<and>
    rarray_abs ar' = take index (rarray_abs ar) @ drop (index + 1) (rarray_abs ar) \<and>
    ra_freed ar' = ra_freed ar @ removed_free ar (rarray_abs ar ! index) \<and>
    ra_capacity ar' = ra_capacity ar \<and> ra_kind ar' = ra_kind ar \<and> ra_copy ar' = ra_copy ar \<and>
    ra_compare ar' = ra_compare ar \<and> ra_free ar' = ra_free ar \<and> ra_value_size ar' = ra_value_size ar"
proof -
  obtain items where i: "ra_items ar = Some items" "length items = ra_capacity ar"
    "drop (ra_size ar) items = replicate (ra_capacity ar - ra_size ar) 0"
    "ra_size ar \<le> ra_capacity ar" "0 < ra_capacity ar" "ra_capacity ar < 2 ^ 31"
    "0 < ra_value_size ar" "ra_capacity ar * ra_value_size ar < 2 ^ 32"
    "ra_kind ar \<noteq> kind_none" "ra_free ar \<noteq> None"
    using assms(1) by (rule rarray_invE)
  define n where "n = ra_size ar - index - 1"
  define moved where "moved = take index items @ take n (drop (index + 1) items) @ drop (index + n) items"
  define cleared where "cleared = take index items @ take n (drop (index + 1) items) @ 0 # drop (ra_size ar) items"
  have n: "int (ra_size ar) - int index - 1 = int n" "index + n + 1 = ra_size ar" "n \<le> ra_capacity ar"
    using assms(2) i(4) by (auto simp: n_def)
  have cells: "cells32 n (ra_value_size ar) = n"
    using i(7,8) n(3) by (rule cells32_le)
  have at: "items ! index = rarray_abs ar ! index"
    using i(1) assms(2) by (simp add: rarray_abs_def)
  have lt: "length (take n (drop (Suc index) items)) = n" using i(2,4) n by simp
  have move: "(if int n > 0 then if int n \<le> 1 \<or> ae_memcpy_down env
         then do { xs \<leftarrow> mem_get items (int index + 1) (int n); mem_put items (int index) xs }
         else None else Some items) = Some moved"
    using i(2,4) n assms(3)
    by (auto simp: mem_get_in mem_put_in moved_def nat_add_distrib lt simp del: length_take)
  have len: "length moved = length items" using i(2,4) n by (simp add: moved_def)
  have idx: "index + n = ra_size ar - 1" using n by simp
  have "take (ra_size ar - 1) moved = take index items @ take n (drop (index + 1) items)"
    using i(2,4) n unfolding idx [symmetric] by (simp add: moved_def)
  moreover have "drop (ra_size ar) moved = drop (ra_size ar) items"
    using i(2,4) n by (simp add: moved_def)
  ultimately have clear: "mem_put moved (int (ra_size ar) - 1) [0] = Some cleared"
    using assms(2) i(2,4) len
    by (simp add: mem_put_in cleared_def nat_diff_distrib Suc_diff_1)
  obtain f where f: "ra_free ar = Some f" using i(10) by auto
  define ar' where "ar' = ar\<lparr>ra_freed := ra_freed ar @ removed_free ar (rarray_abs ar ! index),
    ra_items := Some cleared, ra_size := ra_size ar - 1\<rparr>"
  have free: "(if ra_kind ar \<noteq> kind_plain \<and> items ! index \<noteq> 0 then call_free ar (items ! index) else Some ar) =
      Some (ar\<lparr>ra_freed := ra_freed ar @ removed_free ar (rarray_abs ar ! index)\<rparr>)"
    by (auto simp: call_free_def removed_free_def f at)
  have "rarray_remove_value env ar index = Some (ar', rcode_ok)"
    unfolding rarray_remove_value_def i(1) Option.bind.simps free n(1) nat_int cells if_cancel Let_def
      move clear using i(2,4,9) assms(2)
    by (simp add: ar'_def)
  moreover have "rarray_abs ar' = take index (rarray_abs ar) @ drop (index + 1) (rarray_abs ar)"
    using i(1,2,4) n by (simp add: rarray_abs_def ar'_def cleared_def idx [symmetric] drop_take)
  moreover have "rarray_inv ar'"
  proof -
    have "drop (ra_size ar - 1) cleared = 0 # replicate (ra_capacity ar - ra_size ar) 0"
      using i(2,4) n by (simp add: cleared_def idx [symmetric] i(3) [symmetric])
    also have "\<dots> = replicate (ra_capacity ar - (ra_size ar - 1)) 0"
      using assms(2) i(4) by (simp add: Suc_diff_le [symmetric] replicate_Suc [symmetric] del: replicate_Suc)
    finally have "drop (ra_size ar - 1) cleared = replicate (ra_capacity ar - (ra_size ar - 1)) 0" .
    moreover have "length cleared = ra_capacity ar" using i(2,4) n by (simp add: cleared_def)
    ultimately show ?thesis using i by (simp add: rarray_inv_def ar'_def)
  qed
  ultimately show ?thesis by (simp add: ar'_def)
qed

lemma find_first_Some:
  "find_first P xs = Some i \<Longrightarrow> i < length xs \<and> P (xs ! i) \<and>
    take i xs = takeWhile (\<lambda>x. \<not> P x) xs \<and> drop i xs = dropWhile (\<lambda>x. \<not> P x) xs"
  by (induction xs arbitrary: i) (auto split: if_splits)

lemma find_first_None: "find_first P xs = None \<longleftrightarrow> (\<forall>x\<in>set xs. \<not> P x)"
  by (induction xs) auto

lemma rarray_clear_spec:
  assumes "rarray_inv ar"
  shows "\<exists>ar'. rarray_clear (Some ar) = Some (Some ar') \<and> rarray_inv ar' \<and> rarray_abs ar' = [] \<and>
    ra_freed ar' = ra_freed ar @ concat (map (the (ra_free ar)) (rarray_abs ar))"
proof -
  obtain items where i: "ra_items ar = Some items" "length items = ra_capacity ar"
    "0 < ra_capacity ar" "ra_capacity ar < 2 ^ 31"
    "0 < ra_value_size ar" "ra_capacity ar * ra_value_size ar < 2 ^ 32"
    "ra_kind ar \<noteq> kind_none" "ra_free ar \<noteq> None"
    using assms by (rule rarray_invE)
  then show ?thesis
    by (auto simp: rarray_clear_def rarray_iter_all [OF assms] cells32_in mem_put_in Let_def
        rarray_inv_def rarray_abs_def)
qed

lemma rarray_remove_overlap:
  assumes "rarray_inv ar" "\<not> ae_memcpy_down env" "index + 2 < ra_size ar"
  shows "rarray_remove_value env ar index = None"
proof -
  obtain items where i: "ra_items ar = Some items" "length items = ra_capacity ar"
    "ra_size ar \<le> ra_capacity ar" "ra_capacity ar < 2 ^ 31"
    "0 < ra_value_size ar" "ra_capacity ar * ra_value_size ar < 2 ^ 32"
    using assms(1) by (rule rarray_invE)
  have "cells32 (nat (int (ra_size ar) - int index - 1)) (ra_value_size ar) =
      nat (int (ra_size ar) - int index - 1)"
    using i assms(3) by (intro cells32_le [of _ "ra_capacity ar"]) auto
  with i(1) assms(2,3) show ?thesis
    by (auto simp: rarray_remove_value_def Let_def bind_eq_None_conv)
qed

section \<open>The interface: a store that behaves as a list\<close>

datatype 'v list_op = Push 'v | Del nat

fun list_run :: "'v list_op list \<Rightarrow> 'v list \<Rightarrow> 'v list" where
  "list_run [] xs = xs"
| "list_run (Push v # ops) xs = list_run ops (xs @ [v])"
| "list_run (Del i # ops) xs = list_run ops (take i xs @ drop (i + 1) xs)"

text \<open>
  Every value is one the store accepts, every deletion hits an element, and the list never gets
  longer than \<open>n\<close>.
\<close>

fun list_ops_ok :: "('v \<Rightarrow> bool) \<Rightarrow> nat \<Rightarrow> 'v list_op list \<Rightarrow> nat \<Rightarrow> bool" where
  "list_ops_ok valid n [] k \<longleftrightarrow> True"
| "list_ops_ok valid n (Push v # ops) k \<longleftrightarrow> valid v \<and> k < n \<and> list_ops_ok valid n ops (k + 1)"
| "list_ops_ok valid n (Del i # ops) k \<longleftrightarrow> i < k \<and> list_ops_ok valid n ops (k - 1)"

fun store_run :: "('s \<Rightarrow> 'v \<Rightarrow> 's option) \<Rightarrow> ('s \<Rightarrow> nat \<Rightarrow> 's option) \<Rightarrow> 'v list_op list \<Rightarrow> 's \<Rightarrow> 's option" where
  "store_run push del [] s = Some s"
| "store_run push del (Push v # ops) s = do { s' \<leftarrow> push s v; store_run push del ops s' }"
| "store_run push del (Del i # ops) s = do { s' \<leftarrow> del s i; store_run push del ops s' }"

locale list_store =
  fixes inv :: "'s \<Rightarrow> bool"
    and fits :: "nat \<Rightarrow> 's \<Rightarrow> bool"
    and valid :: "'v \<Rightarrow> bool"
    and abs :: "'s \<Rightarrow> 'v list"
    and push :: "'s \<Rightarrow> 'v \<Rightarrow> 's option"
    and del :: "'s \<Rightarrow> nat \<Rightarrow> 's option"
    and nth_of :: "'s \<Rightarrow> nat \<Rightarrow> 'v option"
  assumes push_law: "inv s \<Longrightarrow> fits n s \<Longrightarrow> valid v \<Longrightarrow> length (abs s) < n \<Longrightarrow>
      \<exists>s'. push s v = Some s' \<and> inv s' \<and> fits n s' \<and> abs s' = abs s @ [v]"
    and del_law: "inv s \<Longrightarrow> fits n s \<Longrightarrow> i < length (abs s) \<Longrightarrow>
      \<exists>s'. del s i = Some s' \<and> inv s' \<and> fits n s' \<and> abs s' = take i (abs s) @ drop (i + 1) (abs s)"
    and nth_law: "inv s \<Longrightarrow> i < length (abs s) \<Longrightarrow> nth_of s i = Some (abs s ! i)"
begin

lemma run_refines:
  "inv s \<Longrightarrow> fits n s \<Longrightarrow> list_ops_ok valid n ops (length (abs s)) \<Longrightarrow>
    \<exists>s'. store_run push del ops s = Some s' \<and> inv s' \<and> fits n s' \<and> abs s' = list_run ops (abs s) \<and>
      (\<forall>i<length (abs s'). nth_of s' i = Some (list_run ops (abs s) ! i))"
proof (induction ops arbitrary: s)
  case Nil
  then show ?case by (simp add: nth_law)
next
  case (Cons op ops)
  show ?case
  proof (cases op)
    case (Push v)
    with Cons.prems push_law [of s n v] Cons.IH show ?thesis by fastforce
  next
    case (Del i)
    then have i: "i < length (abs s)" "list_ops_ok valid n ops (length (abs s) - 1)" using Cons.prems by auto
    obtain s' where s': "del s i = Some s'" "inv s'" "fits n s'" "abs s' = take i (abs s) @ drop (i + 1) (abs s)"
      using del_law [OF Cons.prems(1,2) i(1)] by blast
    have "length (abs s') = length (abs s) - 1" using i(1) s'(4) by simp
    with Cons.IH [OF s'(2,3)] i(2) have "\<exists>t. store_run push del ops s' = Some t \<and> inv t \<and> fits n t \<and>
        abs t = list_run ops (abs s') \<and> (\<forall>i<length (abs t). nth_of t i = Some (list_run ops (abs s') ! i))"
      by simp
    with s' Del show ?thesis by simp
  qed
qed

end

text \<open>The array's operations, as a user with a working allocator calls them.\<close>

definition plain_env :: rarray_env where
  "plain_env = \<lparr>ae_alloc = (\<lambda>_. True), ae_memcpy_down = True\<rparr>"

definition ra_push :: "'v::zero rarray \<Rightarrow> 'v \<Rightarrow> 'v rarray option" where
  "ra_push ar v = do { (arp, ret) \<leftarrow> rarray_add plain_env (Some ar) v; arp }"

definition ra_del :: "'v::zero rarray \<Rightarrow> nat \<Rightarrow> 'v rarray option" where
  "ra_del ar i = do { (arp, ret) \<leftarrow> rarray_remove_at plain_env (Some ar) i; arp }"

definition ra_fits :: "nat \<Rightarrow> 'v rarray \<Rightarrow> bool" where
  "ra_fits n ar \<longleftrightarrow> n \<le> 2 ^ 24 \<and> 2 * n * ra_value_size ar < 2 ^ 32"

interpretation ra: list_store "\<lambda>ar. rarray_inv ar \<and> ra_copy ar = None" ra_fits "\<lambda>_. True" rarray_abs ra_push ra_del
  "\<lambda>ar. rarray_at (Some ar)"
proof
  fix s :: "'a rarray" and n v
  assume *: "rarray_inv s \<and> ra_copy s = None" "ra_fits n s" "length (rarray_abs s) < n"
  have "ra_size s \<le> ra_capacity s" using *(1) by (auto elim: rarray_invE)
  moreover have "ra_size s * ra_value_size s < 2147483648"
    by (rule le_less_trans [OF mult_le_mono1, of _ n])
      (use * in \<open>simp_all add: rarray_abs_length ra_fits_def\<close>)
  ultimately have room: "rarray_room plain_env s"
    using * by (auto simp: rarray_room_def ra_fits_def plain_env_def rarray_abs_length mult.assoc)
  have "v = rarray_stored s v" using *(1) by (simp add: rarray_stored_def)
  from rarray_add_spec [OF conjunct1 [OF *(1)] room this]
  show "\<exists>s'. ra_push s v = Some s' \<and> (rarray_inv s' \<and> ra_copy s' = None) \<and> ra_fits n s' \<and>
      rarray_abs s' = rarray_abs s @ [v]"
    using * by (auto simp: ra_push_def ra_fits_def)
next
  fix s :: "'a rarray" and n i
  assume "rarray_inv s \<and> ra_copy s = None" "ra_fits n s" "i < length (rarray_abs s)"
  then show "\<exists>s'. ra_del s i = Some s' \<and> (rarray_inv s' \<and> ra_copy s' = None) \<and> ra_fits n s' \<and>
      rarray_abs s' = take i (rarray_abs s) @ drop (i + 1) (rarray_abs s)"
    using rarray_remove_value_spec [of s i plain_env]
    by (auto simp: ra_del_def rarray_remove_at_def rarray_abs_length ra_fits_def plain_env_def)
next
  fix s :: "'a rarray" and i
  assume "rarray_inv s \<and> ra_copy s = None" "i < length (rarray_abs s)"
  then show "rarray_at (Some s) i = Some (rarray_abs s ! i)"
    by (simp add: rarray_at_spec rarray_abs_length)
qed

section \<open>Properties\<close>


definition rarray_demo :: "int rarray" where
  "rarray_demo = the (rarray_init plain_env kind_plain 4 2)"

lemma rarray_demo_inv:
  "rarray_inv rarray_demo" "ra_copy rarray_demo = None" "ra_value_size rarray_demo = 4"
  "rarray_abs rarray_demo = []" "ra_kind rarray_demo = kind_plain"
  by (simp_all add: rarray_demo_def rarray_init_def rarray_create_def rarray_alloc_def plain_env_def
      rarray_inv_def rarray_abs_def)


lemma rarray_remove_cases:
  fixes ar :: "'v::zero rarray"
  defines "eq \<equiv> \<lambda>v x. ra_compare ar x v = 0"
  assumes "rarray_inv ar" "ae_memcpy_down env"
  shows "rarray_exist (Some ar) v = Some (\<exists>x\<in>set (rarray_abs ar). eq v x) \<and>
    ((\<forall>x\<in>set (rarray_abs ar). \<not> eq v x) \<longrightarrow>
      rarray_remove env (Some ar) v = Some (Some ar, rarray_code_not_exist)) \<and>
    ((\<exists>x\<in>set (rarray_abs ar). eq v x) \<longrightarrow>
      (\<exists>ar'. rarray_remove env (Some ar) v = Some (Some ar', rcode_ok) \<and> rarray_inv ar' \<and>
        rarray_abs ar' = takeWhile (\<lambda>x. \<not> eq v x) (rarray_abs ar) @ tl (dropWhile (\<lambda>x. \<not> eq v x) (rarray_abs ar)) \<and>
        ra_freed ar' = ra_freed ar @ removed_free ar (hd (dropWhile (\<lambda>x. \<not> eq v x) (rarray_abs ar)))))"
proof (intro conjI impI)
  show "rarray_exist (Some ar) v = Some (\<exists>x\<in>set (rarray_abs ar). eq v x)"
    by (simp add: rarray_exist_def rarray_iter_all [OF assms(2)] eq_def)
next
  assume "\<forall>x\<in>set (rarray_abs ar). \<not> eq v x"
  then show "rarray_remove env (Some ar) v = Some (Some ar, rarray_code_not_exist)"
    using find_first_None [of "eq v" "rarray_abs ar"]
    by (simp add: rarray_remove_def rarray_iter_all [OF assms(2)] eq_def)
next
  assume "\<exists>x\<in>set (rarray_abs ar). eq v x"
  then obtain i where f: "find_first (eq v) (rarray_abs ar) = Some i"
    using find_first_None [of "eq v" "rarray_abs ar"] by auto
  note i = find_first_Some [OF f]
  obtain ar' where "rarray_remove_value env ar i = Some (ar', rcode_ok)" "rarray_inv ar'"
      "rarray_abs ar' = take i (rarray_abs ar) @ drop (i + 1) (rarray_abs ar)"
      "ra_freed ar' = ra_freed ar @ removed_free ar (rarray_abs ar ! i)"
    using rarray_remove_value_spec [OF assms(2), of i env] i rarray_abs_length [OF assms(2)] assms(3) by auto
  moreover have "drop (i + 1) (rarray_abs ar) = tl (drop i (rarray_abs ar))" by (simp add: drop_Suc tl_drop)
  moreover have "rarray_abs ar ! i = hd (drop i (rarray_abs ar))" using conjunct1 [OF i] by (simp only: hd_drop_conv_nth)
  ultimately show "\<exists>ar'. rarray_remove env (Some ar) v = Some (Some ar', rcode_ok) \<and> rarray_inv ar' \<and>
        rarray_abs ar' = takeWhile (\<lambda>x. \<not> eq v x) (rarray_abs ar) @ tl (dropWhile (\<lambda>x. \<not> eq v x) (rarray_abs ar)) \<and>
        ra_freed ar' = ra_freed ar @ removed_free ar (hd (dropWhile (\<lambda>x. \<not> eq v x) (rarray_abs ar)))"
    using i f by (simp add: rarray_remove_def rarray_iter_all [OF assms(2)] eq_def)
qed

text \<open>
  \<open>rarray_remove\<close> takes out the first element that compares equal (freeing it, for pointer and
  string arrays) and keeps the order of the others; without such an element it changes nothing and
  answers \<open>rarray_code_not_exist\<close>.  \<open>rarray_exist\<close> decides which of the two happens.
\<close>

theorem rarray_remove_first:
  fixes ar :: "'v::zero rarray"
  defines "eq \<equiv> \<lambda>v x. ra_compare ar x v = 0"
  assumes "rarray_inv ar" "ae_memcpy_down env"
  shows "rarray_exist (Some ar) v = Some (\<exists>x\<in>set (rarray_abs ar). eq v x) \<and>
    ((\<forall>x\<in>set (rarray_abs ar). \<not> eq v x) \<longrightarrow>
      rarray_remove env (Some ar) v = Some (Some ar, rarray_code_not_exist)) \<and>
    ((\<exists>x\<in>set (rarray_abs ar). eq v x) \<longrightarrow>
      (\<exists>ar'. rarray_remove env (Some ar) v = Some (Some ar', rcode_ok) \<and> rarray_inv ar' \<and>
        rarray_abs ar' = takeWhile (\<lambda>x. \<not> eq v x) (rarray_abs ar) @ tl (dropWhile (\<lambda>x. \<not> eq v x) (rarray_abs ar)) \<and>
        ra_freed ar' = ra_freed ar @ removed_free ar (hd (dropWhile (\<lambda>x. \<not> eq v x) (rarray_abs ar)))))"
  unfolding eq_def using assms(2,3) by (rule rarray_remove_cases)

definition rarray_demo_strings :: "nat rarray" where
  "rarray_demo_strings = \<lparr>ra_value_size = 8, ra_size = 3, ra_capacity = 4, ra_kind = kind_string,
    ra_copy = None, ra_compare = compare_func_default, ra_free = Some (\<lambda>v. [v]),
    ra_items = Some [3, 5, 3, 0], ra_freed = []\<rparr>"

theorem rarray_remove_first_witness:
  "\<exists>ar'. rarray_remove plain_env (Some rarray_demo_strings) 5 = Some (Some ar', rcode_ok) \<and>
    rarray_abs ar' = [3, 3] \<and> ra_freed ar' = [5]"
  using rarray_remove_first [of rarray_demo_strings plain_env 5]
  by (auto simp: rarray_demo_strings_def rarray_inv_def rarray_abs_def plain_env_def
      compare_func_default_def removed_free_def)

text \<open>
  Removing an element with two or more elements behind it copies overlapping cells with
  \<open>memcpy\<close>: on a platform whose \<open>memcpy\<close> does not tolerate that the operation has no defined result.
  An index outside the list is answered with \<open>rarray_code_index_out4_size\<close>.
\<close>

theorem rarray_remove_at_limits:
  assumes "rarray_inv ar"
  shows "(index \<ge> length (rarray_abs ar) \<longrightarrow>
      rarray_remove_at env (Some ar) index = Some (Some ar, rarray_code_index_out4_size)) \<and>
    (index < length (rarray_abs ar) \<longrightarrow>
      (rarray_remove_at env (Some ar) index = None) =
        (\<not> ae_memcpy_down env \<and> index + 2 < length (rarray_abs ar)))"
  using rarray_remove_value_spec [OF assms, of index env] rarray_remove_overlap [OF assms, of env index]
  by (fastforce simp: rarray_remove_at_def rarray_abs_length [OF assms])

theorem rarray_remove_at_limits_witness:
  "rarray_remove_at (plain_env\<lparr>ae_memcpy_down := False\<rparr>) (Some rarray_demo_strings) 0 = None \<and>
   rarray_remove_at plain_env (Some rarray_demo_strings) 3 =
     Some (Some rarray_demo_strings, rarray_code_index_out4_size)"
proof -
  have "rarray_inv rarray_demo_strings" by (simp add: rarray_demo_strings_def rarray_inv_def)
  from rarray_remove_at_limits [OF this, of 0 "plain_env\<lparr>ae_memcpy_down := False\<rparr>"]
    rarray_remove_at_limits [OF this, of 3 plain_env]
  show ?thesis by (simp add: rarray_demo_strings_def rarray_abs_def)
qed

end
