(* ===== verification/RList.thy ===== *)
theory RList
  imports RArray
begin

text \<open>
  The doubly linked list of \<open>common/src/rlist.c\<close>: nodes live in a heap and are reached by address,
  lists share the heap.  The theory holds the node and list records, every operation with its
  pointer updates, the invariant that ties the links to a sequence of addresses, and the
  interpretation of the \<open>list_store\<close> interface.  \<open>None\<close> is the null pointer; a value of 0 is a null
  value, which the push operations refuse.
\<close>

section \<open>Nodes, the heap, lists\<close>

type_synonym addr = nat

datatype rlist_direction = rlist_dir_head | rlist_dir_tail

record 'v rlist_node =
  ln_prev :: "addr option"
  ln_next :: "addr option"
  ln_val :: 'v

record 'v rlist =
  rl_head :: "addr option"
  rl_tail :: "addr option"
  rl_len :: nat
  rl_malloc :: "('v \<Rightarrow> 'v) option"
  rl_free :: "('v \<Rightarrow> 'v list) option"
  rl_compare :: "('v \<Rightarrow> 'v \<Rightarrow> int) option"

text \<open>
  The heap: the nodes, the next address the allocator hands out, how many allocations it still
  grants, and a ghost log of the values handed to \<open>free_node_val\<close>.
\<close>

record 'v lheap =
  lh_nodes :: "addr \<Rightarrow> 'v rlist_node option"
  lh_fresh :: addr
  lh_budget :: nat
  lh_freed :: "'v list"

definition set_prev :: "'v lheap \<Rightarrow> addr \<Rightarrow> addr option \<Rightarrow> 'v lheap option" where
  "set_prev h a p = map_option
     (\<lambda>n. h\<lparr>lh_nodes := (lh_nodes h)(a \<mapsto> n\<lparr>ln_prev := p\<rparr>)\<rparr>) (lh_nodes h a)"

definition set_next :: "'v lheap \<Rightarrow> addr \<Rightarrow> addr option \<Rightarrow> 'v lheap option" where
  "set_next h a p = map_option
     (\<lambda>n. h\<lparr>lh_nodes := (lh_nodes h)(a \<mapsto> n\<lparr>ln_next := p\<rparr>)\<rparr>) (lh_nodes h a)"

text \<open>\<open>rdata_new(rlist_node_t)\<close>: \<open>None\<close> when the allocator refuses; the fields are then set by the code.\<close>

definition new_node :: "'v lheap \<Rightarrow> 'v rlist_node \<Rightarrow> ('v lheap \<times> addr) option" where
  "new_node h n = (if lh_budget h = 0 then None
     else Some (h\<lparr>lh_nodes := (lh_nodes h)(lh_fresh h \<mapsto> n), lh_fresh := lh_fresh h + 1,
       lh_budget := lh_budget h - 1\<rparr>, lh_fresh h))"

text \<open>\<open>rlist_free_node\<close>: the value is handed to \<open>free_node_val\<close> when there is one, the node is freed.\<close>

definition rlist_free_node :: "'v lheap \<Rightarrow> 'v rlist \<Rightarrow> addr option \<Rightarrow> 'v lheap option" where
  "rlist_free_node h l p = (case p of
     None \<Rightarrow> Some h
   | Some a \<Rightarrow> do {
       n \<leftarrow> lh_nodes h a;
       let freed = (case rl_free l of None \<Rightarrow> [] | Some f \<Rightarrow> f (ln_val n));
       Some (h\<lparr>lh_nodes := (lh_nodes h)(a := None), lh_budget := lh_budget h + 1,
         lh_freed := lh_freed h @ freed\<rparr>)
     })"

section \<open>Operations\<close>

text \<open>\<open>rlist_create\<close> leaves the three function pointers as the allocator returned them.\<close>

definition rlist_create :: "'v rlist \<Rightarrow> 'v rlist" where
  "rlist_create block = block\<lparr>rl_head := None, rl_tail := None, rl_len := 0\<rparr>"

text \<open>The loop \<open>while (len--)\<close> that frees the nodes from the head on.\<close>

fun free_nodes :: "'v lheap \<Rightarrow> 'v rlist \<Rightarrow> nat \<Rightarrow> addr option \<Rightarrow> 'v lheap option" where
  "free_nodes h l 0 cur = Some h"
| "free_nodes h l (Suc k) cur = do {
     a \<leftarrow> cur;
     n \<leftarrow> lh_nodes h a;
     h' \<leftarrow> rlist_free_node h l cur;
     free_nodes h' l k (ln_next n)
   }"

definition rlist_clear :: "'v lheap \<Rightarrow> 'v rlist option \<Rightarrow> ('v lheap \<times> 'v rlist option) option" where
  "rlist_clear h lp = (case lp of
     None \<Rightarrow> Some (h, None)
   | Some l \<Rightarrow>
       if rl_len l = 0 then Some (h, Some l)
       else do {
         h' \<leftarrow> free_nodes h l (rl_len l) (rl_head l);
         Some (h', Some (l\<lparr>rl_head := None, rl_tail := None, rl_len := 0\<rparr>))
       })"

definition rlist_destroy :: "'v lheap \<Rightarrow> 'v rlist option \<Rightarrow> 'v lheap option" where
  "rlist_destroy h lp = (case lp of
     None \<Rightarrow> Some h | Some l \<Rightarrow> free_nodes h l (rl_len l) (rl_head l))"

definition node_value :: "'v rlist \<Rightarrow> 'v \<Rightarrow> 'v" where
  "node_value l v = (case rl_malloc l of Some f \<Rightarrow> f v | None \<Rightarrow> v)"

definition rlist_rpush ::
  "'v::zero lheap \<Rightarrow> 'v rlist option \<Rightarrow> 'v \<Rightarrow> ('v lheap \<times> 'v rlist option \<times> addr option) option" where
  "rlist_rpush h lp v = (case lp of
     None \<Rightarrow> Some (h, None, None)
   | Some l \<Rightarrow>
       if v = 0 then Some (h, Some l, None)
       else (case new_node h \<lparr>ln_prev = None, ln_next = None, ln_val = node_value l v\<rparr> of
         None \<Rightarrow> Some (h, Some l, None)
       | Some (h1, node) \<Rightarrow>
           if rl_len l > 0 then do {
             h2 \<leftarrow> set_prev h1 node (rl_tail l);
             h3 \<leftarrow> set_next h2 node None;
             t \<leftarrow> rl_tail l;
             h4 \<leftarrow> set_next h3 t (Some node);
             Some (h4, Some (l\<lparr>rl_tail := Some node, rl_len := inc32 (rl_len l)\<rparr>), Some node)
           } else
             Some (h1, Some (l\<lparr>rl_head := Some node, rl_tail := Some node,
               rl_len := inc32 (rl_len l)\<rparr>), Some node)))"

definition rlist_lpush ::
  "'v::zero lheap \<Rightarrow> 'v rlist option \<Rightarrow> 'v \<Rightarrow> ('v lheap \<times> 'v rlist option \<times> addr option) option" where
  "rlist_lpush h lp v = (case lp of
     None \<Rightarrow> Some (h, None, None)
   | Some l \<Rightarrow>
       if v = 0 then Some (h, Some l, None)
       else (case new_node h \<lparr>ln_prev = None, ln_next = None, ln_val = node_value l v\<rparr> of
         None \<Rightarrow> Some (h, Some l, None)
       | Some (h1, node) \<Rightarrow>
           if rl_len l > 0 then do {
             h2 \<leftarrow> set_next h1 node (rl_head l);
             h3 \<leftarrow> set_prev h2 node None;
             a \<leftarrow> rl_head l;
             h4 \<leftarrow> set_prev h3 a (Some node);
             Some (h4, Some (l\<lparr>rl_head := Some node, rl_len := inc32 (rl_len l)\<rparr>), Some node)
           } else
             Some (h1, Some (l\<lparr>rl_head := Some node, rl_tail := Some node,
               rl_len := inc32 (rl_len l)\<rparr>), Some node)))"

definition rlist_rpop ::
  "'v lheap \<Rightarrow> 'v rlist option \<Rightarrow> ('v lheap \<times> 'v rlist option \<times> addr option) option" where
  "rlist_rpop h lp = (case lp of
     None \<Rightarrow> Some (h, None, None)
   | Some l \<Rightarrow>
       if rl_len l = 0 then Some (h, Some l, None)
       else do {
         node \<leftarrow> rl_tail l;
         n \<leftarrow> lh_nodes h node;
         (h1, l1) \<leftarrow> (if rl_len l - 1 > 0
           then do { p \<leftarrow> ln_prev n; h' \<leftarrow> set_next h p None; Some (h', l\<lparr>rl_tail := Some p\<rparr>) }
           else Some (h, l\<lparr>rl_tail := None, rl_head := None\<rparr>));
         h2 \<leftarrow> set_prev h1 node None;
         h3 \<leftarrow> set_next h2 node None;
         Some (h3, Some (l1\<lparr>rl_len := rl_len l - 1\<rparr>), Some node)
       })"

definition rlist_lpop ::
  "'v lheap \<Rightarrow> 'v rlist option \<Rightarrow> ('v lheap \<times> 'v rlist option \<times> addr option) option" where
  "rlist_lpop h lp = (case lp of
     None \<Rightarrow> Some (h, None, None)
   | Some l \<Rightarrow>
       if rl_len l = 0 then Some (h, Some l, None)
       else do {
         node \<leftarrow> rl_head l;
         n \<leftarrow> lh_nodes h node;
         (h1, l1) \<leftarrow> (if rl_len l - 1 > 0
           then do { q \<leftarrow> ln_next n; h' \<leftarrow> set_prev h q None; Some (h', l\<lparr>rl_head := Some q\<rparr>) }
           else Some (h, l\<lparr>rl_head := None, rl_tail := None\<rparr>));
         h2 \<leftarrow> set_prev h1 node None;
         h3 \<leftarrow> set_next h2 node None;
         Some (h3, Some (l1\<lparr>rl_len := rl_len l - 1\<rparr>), Some node)
       })"

text \<open>The iterator: the node it hands out next and its direction.\<close>

record rlist_iterator =
  it_next :: "addr option"
  it_direction :: rlist_direction

definition rlist_it :: "'v rlist \<Rightarrow> rlist_direction \<Rightarrow> rlist_iterator" where
  "rlist_it l dir = \<lparr>it_next = (if dir = rlist_dir_tail then rl_head l else rl_tail l), it_direction = dir\<rparr>"

definition rlist_next :: "'v lheap \<Rightarrow> rlist_iterator option \<Rightarrow> (rlist_iterator option \<times> addr option) option" where
  "rlist_next h itp = (case itp of
     None \<Rightarrow> Some (None, None)
   | Some it \<Rightarrow> (case it_next it of
       None \<Rightarrow> Some (Some it, None)
     | Some cur \<Rightarrow> do {
         n \<leftarrow> lh_nodes h cur;
         Some (Some (it\<lparr>it_next := (if it_direction it = rlist_dir_tail then ln_next n else ln_prev n)\<rparr>), Some cur)
       }))"

text \<open>The loops \<open>while ((node = rlist_next(&it)))\<close>; on a cyclic list they do not end.\<close>

partial_function (option) find_loop ::
  "'v lheap \<Rightarrow> ('v \<Rightarrow> 'v \<Rightarrow> int) option \<Rightarrow> 'v \<Rightarrow> rlist_iterator option \<Rightarrow> addr option option"
where
  "find_loop h cmp val it = do {
     (it', node) \<leftarrow> rlist_next h it;
     (case node of
        None \<Rightarrow> Some None
      | Some a \<Rightarrow> do {
          n \<leftarrow> lh_nodes h a;
          if (case cmp of Some f \<Rightarrow> f val (ln_val n) = 0 | None \<Rightarrow> val = ln_val n)
          then Some (Some a)
          else find_loop h cmp val it'
        })
   }"

definition rlist_find :: "'v lheap \<Rightarrow> 'v rlist option \<Rightarrow> 'v \<Rightarrow> addr option option" where
  "rlist_find h lp val = (case lp of
     None \<Rightarrow> Some None
   | Some l \<Rightarrow> find_loop h (rl_compare l) val (Some (rlist_it l rlist_dir_tail)))"

text \<open>\<open>while (index--) node = rlist_next(&it)\<close>.\<close>

fun at_loop :: "'v lheap \<Rightarrow> nat \<Rightarrow> rlist_iterator option \<Rightarrow> addr option \<Rightarrow> addr option option" where
  "at_loop h 0 it node = Some node"
| "at_loop h (Suc k) it node = do { (it', node') \<leftarrow> rlist_next h it; at_loop h k it' node' }"

definition rlist_at :: "'v lheap \<Rightarrow> 'v rlist option \<Rightarrow> int \<Rightarrow> addr option option" where
  "rlist_at h lp index = (case lp of
     None \<Rightarrow> Some None
   | Some l \<Rightarrow>
       let direction = (if index < 0 then rlist_dir_head else rlist_dir_tail);
           index' = (if index < 0 then - index - 1 else index)
       in if nat index' < rl_len l
          then do {
            (it, node) \<leftarrow> rlist_next h (Some (rlist_it l direction));
            at_loop h (nat index') it node
          }
          else Some None)"

definition rlist_remove ::
  "'v lheap \<Rightarrow> 'v rlist option \<Rightarrow> addr option \<Rightarrow> ('v lheap \<times> 'v rlist option) option"
where
  "rlist_remove h lp node = (case lp of
     None \<Rightarrow> Some (h, None)
   | Some l \<Rightarrow> (case node of
       None \<Rightarrow> Some (h, Some l)
     | Some a \<Rightarrow> do {
         n \<leftarrow> lh_nodes h a;
         (h1, l1) \<leftarrow> (case ln_prev n of
             Some p \<Rightarrow> do { h' \<leftarrow> set_next h p (ln_next n); Some (h', l) }
           | None \<Rightarrow> Some (h, l\<lparr>rl_head := ln_next n\<rparr>));
         n1 \<leftarrow> lh_nodes h1 a;
         (h2, l2) \<leftarrow> (case ln_next n1 of
             Some q \<Rightarrow> do { h' \<leftarrow> set_prev h1 q (ln_prev n1); Some (h', l1) }
           | None \<Rightarrow> Some (h1, l1\<lparr>rl_tail := ln_prev n1\<rparr>));
         h3 \<leftarrow> rlist_free_node h2 l2 node;
         Some (h3, Some (l2\<lparr>rl_len := dec32 (rl_len l2)\<rparr>))
       }))"

text \<open>
  The loop of \<open>rlist_clone\<close> and \<open>rlist_merge\<close>: every value met is pushed to the end of the
  destination.  The count goes up whether the push succeeded or not; in \<open>rlist_merge\<close> it is an \<open>int\<close>.
\<close>

partial_function (option) merge_loop ::
  "'v::zero lheap \<Rightarrow> 'v rlist option \<Rightarrow> rlist_iterator option \<Rightarrow> nat \<Rightarrow> ('v lheap \<times> 'v rlist option \<times> nat) option"
where
  "merge_loop h dest it count = do {
     (it', node) \<leftarrow> rlist_next h it;
     (case node of
        None \<Rightarrow> Some (h, dest, count)
      | Some a \<Rightarrow> do {
          n \<leftarrow> lh_nodes h a;
          (h', dest', _) \<leftarrow> rlist_rpush h dest (ln_val n);
          merge_loop h' dest' it' (count + 1)
        })
   }"

definition rlist_clone ::
  "'v::zero lheap \<Rightarrow> 'v rlist \<Rightarrow> 'v rlist option \<Rightarrow> rlist_direction \<Rightarrow> ('v lheap \<times> 'v rlist option) option"
where
  "rlist_clone h block srcp dir = (case srcp of
     None \<Rightarrow> Some (h, None)
   | Some src \<Rightarrow> do {
       let dest = (rlist_create block)\<lparr>rl_malloc := rl_malloc src, rl_free := rl_free src, rl_compare := rl_compare src\<rparr>;
       (h', dest', _) \<leftarrow> merge_loop h (Some dest) (Some (rlist_it src dir)) 0;
       Some (h', dest')
     })"

definition rlist_merge ::
  "'v::zero lheap \<Rightarrow> 'v rlist option \<Rightarrow> 'v rlist option \<Rightarrow> rlist_direction \<Rightarrow> ('v lheap \<times> 'v rlist option \<times> int) option"
where
  "rlist_merge h destp tempp dir = (case (destp, tempp) of
     (Some dest, Some temp) \<Rightarrow> do {
       (h', dest', n) \<leftarrow> merge_loop h (Some dest) (Some (rlist_it temp dir)) 0;
       count \<leftarrow> int32 (int n);
       Some (h', dest', count)
     }
   | _ \<Rightarrow> Some (h, destp, 0))"

section \<open>The links and the sequence of addresses\<close>

definition first_of :: "addr list \<Rightarrow> addr option \<Rightarrow> addr option" where
  "first_of as q = (case as of [] \<Rightarrow> q | b # _ \<Rightarrow> Some b)"

definition last_of :: "addr option \<Rightarrow> addr list \<Rightarrow> addr option" where
  "last_of p as = (if as = [] then p else Some (last as))"

text \<open>
  A stretch of nodes at the addresses \<open>as\<close>, linked in both directions, with \<open>p\<close> before its first and
  \<open>q\<close> behind its last node.
\<close>

fun dseg :: "(addr \<Rightarrow> 'v rlist_node option) \<Rightarrow> addr option \<Rightarrow> addr list \<Rightarrow> addr option \<Rightarrow> bool" where
  "dseg m p [] q \<longleftrightarrow> True"
| "dseg m p (a # as) q \<longleftrightarrow> (\<exists>v. m a = Some \<lparr>ln_prev = p, ln_next = first_of as q, ln_val = v\<rparr>) \<and>
     dseg m (Some a) as q"

lemma first_of_simps [simp]:
  "first_of [] q = q" "first_of (a # as) q = Some a" "first_of (as @ bs) q = first_of as (first_of bs q)"
  by (cases as; simp add: first_of_def)+

lemma last_of_simps [simp]:
  "last_of p [] = p" "last_of p (as @ bs) = last_of (last_of p as) bs" "last_of p [a] = Some a"
  by (simp_all add: last_of_def)

lemma last_of_Cons [simp]: "last_of p (a # as) = last_of (Some a) as"
  by (simp add: last_of_def)

lemma dseg_append [simp]:
  "dseg m p (as @ bs) q \<longleftrightarrow> dseg m p as (first_of bs q) \<and> dseg m (last_of p as) bs q"
  by (induction as arbitrary: p) auto

lemma dseg_other [simp]: "a \<notin> set as \<Longrightarrow> dseg (m(a := x)) p as q = dseg m p as q"
  by (induction as arbitrary: p) auto

lemma dseg_cong: "(\<And>a. a \<in> set as \<Longrightarrow> m' a = m a) \<Longrightarrow> dseg m' p as q = dseg m p as q"
  by (induction as arbitrary: p) auto

lemma dseg_allocated: "dseg m p as q \<Longrightarrow> a \<in> set as \<Longrightarrow> m a \<noteq> None"
  by (induction as arbitrary: p) auto

definition heap_ok :: "'v lheap \<Rightarrow> bool" where
  "heap_ok h \<longleftrightarrow> (\<forall>a\<ge>lh_fresh h. lh_nodes h a = None)"

definition rlist_rep :: "'v lheap \<Rightarrow> 'v rlist \<Rightarrow> addr list \<Rightarrow> bool" where
  "rlist_rep h l ps \<longleftrightarrow> dseg (lh_nodes h) None ps None \<and> distinct ps \<and> rl_head l = first_of ps None \<and>
    rl_tail l = last_of None ps \<and> rl_len l = length ps \<and> length ps < 2 ^ 32"

definition rlist_vals :: "'v lheap \<Rightarrow> addr list \<Rightarrow> 'v list" where
  "rlist_vals h ps = map (\<lambda>a. ln_val (the (lh_nodes h a))) ps"

text \<open>What an operation leaves as it is: nodes outside the list, the freed log, the function pointers.\<close>

definition rl_same :: "'v rlist \<Rightarrow> 'v rlist \<Rightarrow> bool" where
  "rl_same l l' \<longleftrightarrow> rl_malloc l' = rl_malloc l \<and> rl_free l' = rl_free l \<and> rl_compare l' = rl_compare l"

definition lh_frame :: "'v lheap \<Rightarrow> 'v lheap \<Rightarrow> addr set \<Rightarrow> bool" where
  "lh_frame h h' A \<longleftrightarrow> (\<forall>a. a \<notin> A \<longrightarrow> lh_nodes h' a = lh_nodes h a)"

lemma rlist_vals_append [simp]: "rlist_vals h (xs @ ys) = rlist_vals h xs @ rlist_vals h ys"
  by (simp add: rlist_vals_def)

lemma rlist_vals_Cons [simp]: "rlist_vals h (a # as) = ln_val (the (lh_nodes h a)) # rlist_vals h as"
  by (simp add: rlist_vals_def)

lemma rlist_vals_Nil [simp]: "rlist_vals h [] = []"
  by (simp add: rlist_vals_def)

lemma rlist_vals_cong: "(\<And>a. a \<in> set ps \<Longrightarrow> lh_nodes h' a = lh_nodes h a) \<Longrightarrow> rlist_vals h' ps = rlist_vals h ps"
  by (simp add: rlist_vals_def)

lemma rlist_rep_allocated: "rlist_rep h l ps \<Longrightarrow> a \<in> set ps \<Longrightarrow> \<exists>n. lh_nodes h a = Some n"
  using dseg_allocated [of "lh_nodes h" None ps None a] by (auto simp: rlist_rep_def)

lemma rlist_rep_fresh:
  assumes "heap_ok h" "rlist_rep h l ps"
  shows "lh_fresh h \<notin> set ps"
  using rlist_rep_allocated [OF assms(2), of "lh_fresh h"] assms(1) by (auto simp: heap_ok_def)

lemma rlist_rep_frame:
  "rlist_rep h l ps \<Longrightarrow> lh_frame h h' A \<Longrightarrow> set ps \<inter> A = {} \<Longrightarrow>
    rlist_rep h' l ps \<and> rlist_vals h' ps = rlist_vals h ps"
  using dseg_cong [of ps "lh_nodes h'" "lh_nodes h" None None]
  by (auto simp: rlist_rep_def lh_frame_def disjoint_iff intro!: rlist_vals_cong)

section \<open>What the operations do to the list\<close>

lemma rlist_rpush_spec:
  assumes "heap_ok h" "rlist_rep h l ps" "v \<noteq> 0" "0 < lh_budget h" "length ps + 1 < 2 ^ 32"
  defines "a \<equiv> lh_fresh h"
  shows "\<exists>h' l'. rlist_rpush h (Some l) v = Some (h', Some l', Some a) \<and>
    heap_ok h' \<and> rlist_rep h' l' (ps @ [a]) \<and> rlist_vals h' (ps @ [a]) = rlist_vals h ps @ [node_value l v] \<and>
    lh_frame h h' (insert a (set ps)) \<and> rl_same l l' \<and>
    lh_budget h' = lh_budget h - 1 \<and> lh_fresh h' = a + 1 \<and> lh_freed h' = lh_freed h"
proof (cases ps rule: rev_cases)
  case Nil
  with assms show ?thesis
    by (auto simp: rlist_rpush_def new_node_def rlist_rep_def heap_ok_def lh_frame_def rl_same_def)
next
  case (snoc qs t)
  have fresh: "a \<notin> set qs" "a \<noteq> t" "lh_nodes h a = None"
    using rlist_rep_fresh [OF assms(1,2)] assms(1) snoc by (auto simp: a_def heap_ok_def)
  obtain vt where t: "lh_nodes h t = Some \<lparr>ln_prev = last_of None qs, ln_next = None, ln_val = vt\<rparr>"
    "dseg (lh_nodes h) None qs (Some t)" "distinct qs" "t \<notin> set qs" "rl_tail l = Some t"
    "rl_len l = Suc (length qs)" "rl_head l = first_of qs (Some t)"
    using assms(2) snoc by (auto simp: rlist_rep_def)
  have len: "Suc (Suc (length qs)) < 2 ^ 32" using assms(5) snoc by simp
  define m where "m = (lh_nodes h)(a \<mapsto> \<lparr>ln_prev = Some t, ln_next = None, ln_val = node_value l v\<rparr>,
     t \<mapsto> \<lparr>ln_prev = last_of None qs, ln_next = Some a, ln_val = vt\<rparr>)"
  define h' where "h' = h\<lparr>lh_nodes := m, lh_fresh := a + 1, lh_budget := lh_budget h - 1\<rparr>"
  define l' where "l' = l\<lparr>rl_tail := Some a, rl_len := Suc (Suc (length qs))\<rparr>"
  have "rlist_rpush h (Some l) v = Some (h', Some l', Some a)"
    using assms(3,4) fresh t len
    by (simp add: rlist_rpush_def new_node_def set_prev_def set_next_def a_def [symmetric] h'_def l'_def m_def)
  moreover have "rlist_rep h' l' (ps @ [a])"
    using t fresh len by (simp add: rlist_rep_def h'_def l'_def m_def snoc)
  moreover have "rlist_vals h' (ps @ [a]) = rlist_vals h ps @ [node_value l v]"
    using t fresh by (simp add: snoc h'_def m_def rlist_vals_def)
  moreover have "heap_ok h'"
    using assms(1) fresh t by (auto simp: heap_ok_def h'_def m_def a_def)
  moreover have "lh_frame h h' (insert a (set ps))"
    by (simp add: lh_frame_def h'_def m_def snoc)
  moreover have "rl_same l l'" by (simp add: rl_same_def l'_def)
  moreover have "lh_budget h' = lh_budget h - 1" "lh_fresh h' = a + 1" "lh_freed h' = lh_freed h"
    by (simp_all add: h'_def)
  ultimately show ?thesis by blast
qed

lemma rlist_lpush_spec:
  assumes "heap_ok h" "rlist_rep h l ps" "v \<noteq> 0" "0 < lh_budget h" "length ps + 1 < 2 ^ 32"
  defines "a \<equiv> lh_fresh h"
  shows "\<exists>h' l'. rlist_lpush h (Some l) v = Some (h', Some l', Some a) \<and>
    heap_ok h' \<and> rlist_rep h' l' (a # ps) \<and> rlist_vals h' (a # ps) = node_value l v # rlist_vals h ps \<and>
    lh_frame h h' (insert a (set ps)) \<and> rl_same l l' \<and>
    lh_budget h' = lh_budget h - 1 \<and> lh_fresh h' = a + 1 \<and> lh_freed h' = lh_freed h"
proof (cases ps)
  case Nil
  with assms show ?thesis
    by (auto simp: rlist_lpush_def new_node_def rlist_rep_def heap_ok_def lh_frame_def rl_same_def)
next
  case (Cons t qs)
  have fresh: "a \<notin> set qs" "a \<noteq> t" "lh_nodes h a = None"
    using rlist_rep_fresh [OF assms(1,2)] assms(1) Cons by (auto simp: a_def heap_ok_def)
  obtain vt where t: "lh_nodes h t = Some \<lparr>ln_prev = None, ln_next = first_of qs None, ln_val = vt\<rparr>"
    "dseg (lh_nodes h) (Some t) qs None" "distinct qs" "t \<notin> set qs" "rl_head l = Some t"
    "rl_len l = Suc (length qs)" "rl_tail l = last_of (Some t) qs"
    using assms(2) Cons by (auto simp: rlist_rep_def)
  have len: "Suc (Suc (length qs)) < 2 ^ 32" using assms(5) Cons by simp
  define m where "m = (lh_nodes h)(a \<mapsto> \<lparr>ln_prev = None, ln_next = Some t, ln_val = node_value l v\<rparr>,
     t \<mapsto> \<lparr>ln_prev = Some a, ln_next = first_of qs None, ln_val = vt\<rparr>)"
  define h' where "h' = h\<lparr>lh_nodes := m, lh_fresh := a + 1, lh_budget := lh_budget h - 1\<rparr>"
  define l' where "l' = l\<lparr>rl_head := Some a, rl_len := Suc (Suc (length qs))\<rparr>"
  have "rlist_lpush h (Some l) v = Some (h', Some l', Some a)"
    using assms(3,4) fresh t len
    by (simp add: rlist_lpush_def new_node_def set_prev_def set_next_def a_def [symmetric] h'_def l'_def m_def)
  moreover have "rlist_rep h' l' (a # ps)"
    using t fresh len by (simp add: rlist_rep_def h'_def l'_def m_def Cons)
  moreover have "rlist_vals h' (a # ps) = node_value l v # rlist_vals h ps"
    using t fresh by (simp add: Cons h'_def m_def rlist_vals_def)
  moreover have "heap_ok h'"
    using assms(1) fresh t by (auto simp: heap_ok_def h'_def m_def a_def)
  moreover have "lh_frame h h' (insert a (set ps))"
    by (simp add: lh_frame_def h'_def m_def Cons)
  moreover have "rl_same l l'" by (simp add: rl_same_def l'_def)
  moreover have "lh_budget h' = lh_budget h - 1" "lh_fresh h' = a + 1" "lh_freed h' = lh_freed h"
    by (simp_all add: h'_def)
  ultimately show ?thesis by blast
qed


lemma rlist_rpop_spec:
  assumes "heap_ok h" "rlist_rep h l (qs @ [t])"
  shows "\<exists>h' l'. rlist_rpop h (Some l) = Some (h', Some l', Some t) \<and>
    heap_ok h' \<and> rlist_rep h' l' qs \<and> rlist_vals h' (qs @ [t]) = rlist_vals h (qs @ [t]) \<and>
    lh_nodes h' t = map_option (\<lambda>n. n\<lparr>ln_prev := None, ln_next := None\<rparr>) (lh_nodes h t) \<and>
    lh_frame h h' (set (qs @ [t])) \<and> rl_same l l' \<and>
    lh_budget h' = lh_budget h \<and> lh_fresh h' = lh_fresh h \<and> lh_freed h' = lh_freed h"
proof -
  obtain vt where t: "lh_nodes h t = Some \<lparr>ln_prev = last_of None qs, ln_next = None, ln_val = vt\<rparr>"
    "dseg (lh_nodes h) None qs (Some t)" "distinct qs" "t \<notin> set qs" "rl_tail l = Some t"
    "rl_len l = Suc (length qs)" "rl_head l = first_of qs (Some t)" "Suc (length qs) < 2 ^ 32"
    using assms(2) by (auto simp: rlist_rep_def)
  have fr: "heap_ok (h\<lparr>lh_nodes := (lh_nodes h)(t \<mapsto> n)\<rparr>)" for n
    using assms(1) t(1) by (auto simp: heap_ok_def)
  show ?thesis
  proof (cases qs rule: rev_cases)
    case Nil
    with t fr show ?thesis
      by (auto simp: rlist_rpop_def set_prev_def set_next_def rlist_rep_def lh_frame_def rl_same_def)
  next
    case (snoc rs p)
    obtain vp where p: "lh_nodes h p = Some \<lparr>ln_prev = last_of None rs, ln_next = Some t, ln_val = vp\<rparr>"
      "dseg (lh_nodes h) None rs (Some p)" "p \<notin> set rs" "distinct rs" "p \<noteq> t" "t \<notin> set rs"
      using t snoc by auto
    define m where "m = (lh_nodes h)(p \<mapsto> \<lparr>ln_prev = last_of None rs, ln_next = None, ln_val = vp\<rparr>,
      t \<mapsto> \<lparr>ln_prev = None, ln_next = None, ln_val = vt\<rparr>)"
    define h' where "h' = h\<lparr>lh_nodes := m\<rparr>"
    define l' where "l' = l\<lparr>rl_tail := Some p, rl_len := Suc (length rs)\<rparr>"
    have "rlist_rpop h (Some l) = Some (h', Some l', Some t)"
      using t(1,5,6) p snoc by (simp add: rlist_rpop_def set_prev_def set_next_def h'_def l'_def m_def)
    moreover have "rlist_rep h' l' qs"
      using t(3,7,8) p snoc by (simp add: rlist_rep_def h'_def l'_def m_def)
    moreover have "rlist_vals h' (qs @ [t]) = rlist_vals h (qs @ [t])"
      using t(1) p snoc by (simp add: h'_def m_def rlist_vals_def)
    moreover have "heap_ok h'"
      using assms(1) t(1) p(1) by (auto simp: heap_ok_def h'_def m_def)
    moreover have "lh_nodes h' t = map_option (\<lambda>n. n\<lparr>ln_prev := None, ln_next := None\<rparr>) (lh_nodes h t)"
      using t(1) by (simp add: h'_def m_def)
    moreover have "lh_frame h h' (set (qs @ [t]))" by (simp add: lh_frame_def h'_def m_def snoc)
    moreover have "rl_same l l'" by (simp add: rl_same_def l'_def)
    moreover have "lh_budget h' = lh_budget h" "lh_fresh h' = lh_fresh h" "lh_freed h' = lh_freed h"
      by (simp_all add: h'_def)
    ultimately show ?thesis by blast
  qed
qed

lemma rlist_lpop_spec:
  assumes "heap_ok h" "rlist_rep h l (t # qs)"
  shows "\<exists>h' l'. rlist_lpop h (Some l) = Some (h', Some l', Some t) \<and>
    heap_ok h' \<and> rlist_rep h' l' qs \<and> rlist_vals h' (t # qs) = rlist_vals h (t # qs) \<and>
    lh_nodes h' t = map_option (\<lambda>n. n\<lparr>ln_prev := None, ln_next := None\<rparr>) (lh_nodes h t) \<and>
    lh_frame h h' (set (t # qs)) \<and> rl_same l l' \<and>
    lh_budget h' = lh_budget h \<and> lh_fresh h' = lh_fresh h \<and> lh_freed h' = lh_freed h"
proof -
  obtain vt where t: "lh_nodes h t = Some \<lparr>ln_prev = None, ln_next = first_of qs None, ln_val = vt\<rparr>"
    "dseg (lh_nodes h) (Some t) qs None" "distinct qs" "t \<notin> set qs" "rl_head l = Some t"
    "rl_len l = Suc (length qs)" "rl_tail l = last_of (Some t) qs" "Suc (length qs) < 2 ^ 32"
    using assms(2) by (auto simp: rlist_rep_def)
  have fr: "heap_ok (h\<lparr>lh_nodes := (lh_nodes h)(t \<mapsto> n)\<rparr>)" for n
    using assms(1) t(1) by (auto simp: heap_ok_def)
  show ?thesis
  proof (cases qs)
    case Nil
    with t fr show ?thesis
      by (auto simp: rlist_lpop_def set_prev_def set_next_def rlist_rep_def lh_frame_def rl_same_def)
  next
    case (Cons p rs)
    obtain vp where p: "lh_nodes h p = Some \<lparr>ln_prev = Some t, ln_next = first_of rs None, ln_val = vp\<rparr>"
      "dseg (lh_nodes h) (Some p) rs None" "p \<notin> set rs" "distinct rs" "p \<noteq> t" "t \<notin> set rs"
      using t Cons by auto
    define m where "m = (lh_nodes h)(p \<mapsto> \<lparr>ln_prev = None, ln_next = first_of rs None, ln_val = vp\<rparr>,
      t \<mapsto> \<lparr>ln_prev = None, ln_next = None, ln_val = vt\<rparr>)"
    define h' where "h' = h\<lparr>lh_nodes := m\<rparr>"
    define l' where "l' = l\<lparr>rl_head := Some p, rl_len := Suc (length rs)\<rparr>"
    have "rlist_lpop h (Some l) = Some (h', Some l', Some t)"
      using t(1,5,6) p Cons by (simp add: rlist_lpop_def set_prev_def set_next_def h'_def l'_def m_def)
    moreover have "rlist_rep h' l' qs"
      using t(3,7,8) p Cons by (simp add: rlist_rep_def h'_def l'_def m_def)
    moreover have "rlist_vals h' (t # qs) = rlist_vals h (t # qs)"
      using t(1) p Cons by (simp add: h'_def m_def rlist_vals_def)
    moreover have "heap_ok h'"
      using assms(1) t(1) p(1) by (auto simp: heap_ok_def h'_def m_def)
    moreover have "lh_nodes h' t = map_option (\<lambda>n. n\<lparr>ln_prev := None, ln_next := None\<rparr>) (lh_nodes h t)"
      using t(1) by (simp add: h'_def m_def)
    moreover have "lh_frame h h' (set (t # qs))" by (simp add: lh_frame_def h'_def m_def Cons)
    moreover have "rl_same l l'" by (simp add: rl_same_def l'_def)
    moreover have "lh_budget h' = lh_budget h" "lh_fresh h' = lh_fresh h" "lh_freed h' = lh_freed h"
      by (simp_all add: h'_def)
    ultimately show ?thesis by blast
  qed
qed
lemma rlist_remove_spec:
  assumes "heap_ok h" "rlist_rep h l (xs @ a # ys)"
  shows "\<exists>h' l'. rlist_remove h (Some l) (Some a) = Some (h', Some l') \<and>
    heap_ok h' \<and> rlist_rep h' l' (xs @ ys) \<and> rlist_vals h' (xs @ ys) = rlist_vals h (xs @ ys) \<and>
    lh_nodes h' a = None \<and> lh_frame h h' (set (xs @ a # ys)) \<and> rl_same l l' \<and>
    lh_budget h' = lh_budget h + 1 \<and> lh_fresh h' = lh_fresh h \<and>
    lh_freed h' = lh_freed h @ (case rl_free l of None \<Rightarrow> [] | Some f \<Rightarrow> f (ln_val (the (lh_nodes h a))))"
proof -
  obtain va where a: "lh_nodes h a = Some \<lparr>ln_prev = last_of None xs, ln_next = first_of ys None, ln_val = va\<rparr>"
    "dseg (lh_nodes h) None xs (Some a)" "dseg (lh_nodes h) (Some a) ys None" "distinct (xs @ ys)"
    "a \<notin> set xs" "a \<notin> set ys" "rl_tail l = last_of (Some a) ys" "rl_head l = first_of xs (Some a)"
    "rl_len l = Suc (length xs + length ys)" "Suc (length xs + length ys) < 2 ^ 32"
    using assms(2) by (auto simp: rlist_rep_def)
  define fl where "fl = (case rl_free l of None \<Rightarrow> [] | Some f \<Rightarrow> f va)"
  have fl: "(case rl_free l of None \<Rightarrow> [] | Some f \<Rightarrow> f (ln_val (the (lh_nodes h a)))) = fl"
    "(case rl_free l of None \<Rightarrow> [] | Some f \<Rightarrow> f (ln_val \<lparr>ln_prev = p, ln_next = q, ln_val = va\<rparr>)) = fl" for p q
    by (cases "rl_free l"; simp add: fl_def a(1))+
  note ops = rlist_remove_def rlist_free_node_def rlist_rep_def lh_frame_def rl_same_def heap_ok_def
    Let_def fl set_prev_def set_next_def
  show ?thesis
  proof (cases xs rule: rev_cases)
    case Nil
    then show ?thesis
      using a assms(1) by (cases ys) (auto simp: ops rlist_vals_def)
  next
    case (snoc ws p)
    then show ?thesis
      using a assms(1) by (cases ys) (auto simp: ops rlist_vals_def)
  qed
qed

section \<open>Iteration\<close>

text \<open>
  An iterator that stands in a list: the nodes still to come are \<open>as\<close>, in its direction.
\<close>

definition it_stands :: "'v lheap \<Rightarrow> rlist_iterator \<Rightarrow> addr list \<Rightarrow> bool" where
  "it_stands h it as \<longleftrightarrow> it_next it = first_of as None \<and>
    (case it_direction it of
       rlist_dir_tail \<Rightarrow> (\<exists>p. dseg (lh_nodes h) p as None)
     | rlist_dir_head \<Rightarrow> (\<exists>q. dseg (lh_nodes h) None (rev as) q))"

definition dir_order :: "rlist_direction \<Rightarrow> 'a list \<Rightarrow> 'a list" where
  "dir_order dir xs = (case dir of rlist_dir_tail \<Rightarrow> xs | rlist_dir_head \<Rightarrow> rev xs)"

lemma first_of_rev: "first_of (rev as) None = last_of None as"
  by (cases as rule: rev_cases) auto

lemma last_of_rev: "last_of None (rev as) = first_of as None"
  by (cases as) auto

lemma rlist_it_stands:
  "rlist_rep h l ps \<Longrightarrow> it_stands h (rlist_it l dir) (dir_order dir ps) \<and> it_direction (rlist_it l dir) = dir"
  by (cases dir) (auto simp: it_stands_def rlist_it_def dir_order_def rlist_rep_def first_of_rev)

lemma rlist_next_Cons:
  assumes "it_stands h it (a # as)"
  shows "\<exists>it' n. rlist_next h (Some it) = Some (Some it', Some a) \<and> it_stands h it' as \<and>
    it_direction it' = it_direction it \<and> lh_nodes h a = Some n"
proof (cases "it_direction it")
  case rlist_dir_tail
  with assms show ?thesis by (auto simp: it_stands_def rlist_next_def)
next
  case rlist_dir_head
  with assms obtain n where "lh_nodes h a = Some n" "ln_prev n = first_of as None"
    "dseg (lh_nodes h) None (rev as) (Some a)" "it_next it = Some a"
    by (auto simp: it_stands_def last_of_rev)
  with rlist_dir_head show ?thesis by (auto simp: it_stands_def rlist_next_def)
qed

lemma rlist_next_Nil: "it_stands h it [] \<Longrightarrow> rlist_next h (Some it) = Some (Some it, None)"
  by (simp add: it_stands_def rlist_next_def)

definition node_matches :: "('v \<Rightarrow> 'v \<Rightarrow> int) option \<Rightarrow> 'v \<Rightarrow> 'v \<Rightarrow> bool" where
  "node_matches cmp val v = (case cmp of Some f \<Rightarrow> f val v = 0 | None \<Rightarrow> val = v)"

lemma find_loop_spec:
  assumes "it_stands h it as"
  shows "find_loop h cmp val (Some it) = Some (List.find (\<lambda>a. node_matches cmp val (ln_val (the (lh_nodes h a)))) as)"
  using assms
proof (induction as arbitrary: it)
  case Nil
  then show ?case by (subst find_loop.simps) (simp add: rlist_next_Nil)
next
  case (Cons a as)
  obtain it' n where 1: "rlist_next h (Some it) = Some (Some it', Some a)" "it_stands h it' as"
    "lh_nodes h a = Some n" using rlist_next_Cons [OF Cons.prems] by blast
  show ?case
    using Cons.IH [OF 1(2)]
    by (subst find_loop.simps, cases cmp) (simp_all add: 1 node_matches_def)
qed

lemma at_loop_spec:
  "it_stands h it as \<Longrightarrow> k \<le> length as \<Longrightarrow> at_loop h k (Some it) node =
    Some (if k = 0 then node else Some (as ! (k - 1)))"
proof (induction k arbitrary: it as node)
  case (Suc k)
  obtain a bs where as: "as = a # bs" using Suc.prems(2) by (cases as) auto
  obtain it' where 1: "rlist_next h (Some it) = Some (Some it', Some a)" "it_stands h it' bs"
    using rlist_next_Cons [of h it a bs] Suc.prems(1) as by blast
  show ?case using Suc.IH [OF 1(2)] Suc.prems(2) 1(1) as by (cases k) auto
qed simp

lemma rlist_at_spec:
  assumes "rlist_rep h l ps"
  shows "rlist_at h (Some l) index = Some (
    if 0 \<le> index \<and> nat index < length ps then Some (ps ! nat index)
    else if index < 0 \<and> nat (- index - 1) < length ps then Some (rev ps ! nat (- index - 1))
    else None)"
proof -
  define dir where "dir = (if index < 0 then rlist_dir_head else rlist_dir_tail)"
  define k where "k = nat (if index < 0 then - index - 1 else index)"
  have len: "rl_len l = length ps" using assms by (simp add: rlist_rep_def)
  show ?thesis
  proof (cases "k < length ps")
    case True
    then obtain a as where as: "dir_order dir ps = a # as"
      by (cases "dir_order dir ps") (auto simp: dir_order_def split: rlist_direction.splits)
    have "it_stands h (rlist_it l dir) (a # as)"
      using rlist_it_stands [OF assms, of dir] as by simp
    then obtain it where it: "rlist_next h (Some (rlist_it l dir)) = Some (Some it, Some a)" "it_stands h it as"
      using rlist_next_Cons by blast
    have "length (dir_order dir ps) = length ps" by (cases dir) (simp_all add: dir_order_def)
    then have "k \<le> length as" using True as by simp
    from at_loop_spec [OF it(2) this, of "Some a"]
    have "at_loop h k (Some it) (Some a) = Some (Some (dir_order dir ps ! k))" by (cases k) (auto simp: as)
    moreover have "rlist_at h (Some l) index = at_loop h k (Some it) (Some a)"
      using True it(1) len by (simp add: rlist_at_def Let_def dir_def [symmetric] k_def [symmetric])
    ultimately show ?thesis using True by (cases "index < 0") (auto simp: k_def dir_def dir_order_def)
  next
    case False
    then show ?thesis by (auto simp: rlist_at_def Let_def k_def [symmetric] len dest: ) (auto simp: k_def split: if_splits)
  qed
qed

section \<open>The list as a list store\<close>

text \<open>The addresses reached from the head, \<open>k\<close> links far.\<close>

fun chain :: "(addr \<Rightarrow> 'v rlist_node option) \<Rightarrow> addr option \<Rightarrow> nat \<Rightarrow> addr list" where
  "chain m p 0 = []"
| "chain m p (Suc k) = (case p of None \<Rightarrow> []
     | Some a \<Rightarrow> a # chain m (case m a of None \<Rightarrow> None | Some n \<Rightarrow> ln_next n) k)"

lemma chain_dseg: "dseg m p as None \<Longrightarrow> chain m (first_of as None) (length as) = as"
  by (induction as arbitrary: p) auto

definition rl_addrs :: "'v lheap \<times> 'v rlist \<Rightarrow> addr list" where
  "rl_addrs s = chain (lh_nodes (fst s)) (rl_head (snd s)) (rl_len (snd s))"

definition rl_inv :: "'v lheap \<times> 'v rlist \<Rightarrow> bool" where
  "rl_inv s \<longleftrightarrow> heap_ok (fst s) \<and> rlist_rep (fst s) (snd s) (rl_addrs s) \<and> rl_malloc (snd s) = None"

definition rl_abs :: "'v lheap \<times> 'v rlist \<Rightarrow> 'v list" where
  "rl_abs s = rlist_vals (fst s) (rl_addrs s)"

definition rl_fits :: "nat \<Rightarrow> 'v lheap \<times> 'v rlist \<Rightarrow> bool" where
  "rl_fits n s \<longleftrightarrow> n < 2 ^ 32 \<and> n \<le> rl_len (snd s) + lh_budget (fst s)"

lemma rlist_rep_addrs: "rlist_rep h l ps \<Longrightarrow> rl_addrs (h, l) = ps"
  using chain_dseg [of "lh_nodes h" None ps] by (simp add: rl_addrs_def rlist_rep_def)

lemma rl_invI: "heap_ok h \<Longrightarrow> rlist_rep h l ps \<Longrightarrow> rl_malloc l = None \<Longrightarrow> rl_inv (h, l)"
  by (simp add: rl_inv_def rlist_rep_addrs)

lemma rl_abs_eq: "rlist_rep h l ps \<Longrightarrow> rl_abs (h, l) = rlist_vals h ps"
  by (simp add: rl_abs_def rlist_rep_addrs)

definition rl_push :: "'v::zero lheap \<times> 'v rlist \<Rightarrow> 'v \<Rightarrow> ('v lheap \<times> 'v rlist) option" where
  "rl_push s v = do {
     (h, lp, node) \<leftarrow> rlist_rpush (fst s) (Some (snd s)) v;
     l \<leftarrow> lp;
     _ \<leftarrow> node;
     Some (h, l)
   }"

definition rl_del :: "'v lheap \<times> 'v rlist \<Rightarrow> nat \<Rightarrow> ('v lheap \<times> 'v rlist) option" where
  "rl_del s i = do {
     node \<leftarrow> rlist_at (fst s) (Some (snd s)) (int i);
     (h, lp) \<leftarrow> rlist_remove (fst s) (Some (snd s)) node;
     l \<leftarrow> lp;
     Some (h, l)
   }"

definition rl_nth :: "'v lheap \<times> 'v rlist \<Rightarrow> nat \<Rightarrow> 'v option" where
  "rl_nth s i = do {
     node \<leftarrow> rlist_at (fst s) (Some (snd s)) (int i);
     a \<leftarrow> node;
     n \<leftarrow> lh_nodes (fst s) a;
     Some (ln_val n)
   }"

lemma rlist_vals_length [simp]: "length (rlist_vals h ps) = length ps"
  by (simp add: rlist_vals_def)

interpretation rl: list_store rl_inv rl_fits "\<lambda>v. v \<noteq> 0" rl_abs rl_push rl_del rl_nth
proof
  fix s :: "'a lheap \<times> 'a rlist" and n and v :: 'a
  assume *: "rl_inv s" "rl_fits n s" "v \<noteq> 0" "length (rl_abs s) < n"
  obtain h l where s: "s = (h, l)" by (cases s)
  define ps where "ps = rl_addrs s"
  have rep: "heap_ok h" "rlist_rep h l ps" "rl_malloc l = None"
    using *(1) by (auto simp: rl_inv_def s ps_def)
  have len: "rl_len l = length ps" using rep(2) by (simp add: rlist_rep_def)
  have "0 < lh_budget h" "length ps + 1 < 2 ^ 32"
    using *(2,4) len by (auto simp: rl_fits_def rl_abs_def s ps_def)
  from rlist_rpush_spec [OF rep(1,2) *(3) this] obtain h' l' where
    r: "rlist_rpush h (Some l) v = Some (h', Some l', Some (lh_fresh h))" "heap_ok h'"
      "rlist_rep h' l' (ps @ [lh_fresh h])" "rl_same l l'" "lh_budget h' = lh_budget h - 1"
      "rlist_vals h' (ps @ [lh_fresh h]) = rlist_vals h ps @ [v]"
    using rep(3) by (auto simp: node_value_def)
  have "rl_len l' = length ps + 1" using r(3) by (simp add: rlist_rep_def)
  moreover have "rl_malloc l' = None" using r(4) rep(3) by (simp add: rl_same_def)
  ultimately show "\<exists>s'. rl_push s v = Some s' \<and> rl_inv s' \<and> rl_fits n s' \<and> rl_abs s' = rl_abs s @ [v]"
    using r *(2) len rl_invI [OF r(2,3)] rl_abs_eq [OF r(3)] rl_abs_eq [OF rep(2)] \<open>0 < lh_budget h\<close>
    by (auto simp: rl_push_def s rl_fits_def)
next
  fix s :: "'a lheap \<times> 'a rlist" and n i
  assume *: "rl_inv s" "rl_fits n s" "i < length (rl_abs s)"
  obtain h l where s: "s = (h, l)" by (cases s)
  define ps where "ps = rl_addrs s"
  have rep: "heap_ok h" "rlist_rep h l ps" "rl_malloc l = None"
    using *(1) by (auto simp: rl_inv_def s ps_def)
  have len: "rl_len l = length ps" using rep(2) by (simp add: rlist_rep_def)
  have i: "i < length ps" using *(3) by (simp add: rl_abs_def ps_def)
  then have split: "ps = take i ps @ ps ! i # drop (i + 1) ps" by (simp add: id_take_nth_drop)
  obtain h' l' where r: "rlist_remove h (Some l) (Some (ps ! i)) = Some (h', Some l')" "heap_ok h'"
      "rlist_rep h' l' (take i ps @ drop (i + 1) ps)" "rl_same l l'" "lh_budget h' = lh_budget h + 1"
      "rlist_vals h' (take i ps @ drop (i + 1) ps) = rlist_vals h (take i ps @ drop (i + 1) ps)"
    using rlist_remove_spec [of h l "take i ps" "ps ! i" "drop (i + 1) ps"] rep(1,2) split by auto
  have "rl_len l' = length ps - 1" using r(3) i by (simp add: rlist_rep_def)
  moreover have "rl_malloc l' = None" using r(4) rep(3) by (simp add: rl_same_def)
  moreover have "rlist_vals h (take i ps @ drop (i + 1) ps) = take i (rl_abs s) @ drop (i + 1) (rl_abs s)"
    by (simp add: rl_abs_def s ps_def rlist_vals_def take_map drop_map)
  ultimately show "\<exists>s'. rl_del s i = Some s' \<and> rl_inv s' \<and> rl_fits n s' \<and>
      rl_abs s' = take i (rl_abs s) @ drop (i + 1) (rl_abs s)"
    using r *(2) len i rl_invI [OF r(2,3)] rl_abs_eq [OF r(3)]
    by (auto simp: rl_del_def s rl_fits_def rlist_at_spec [OF rep(2)])
next
  fix s :: "'a lheap \<times> 'a rlist" and i
  assume *: "rl_inv s" "i < length (rl_abs s)"
  obtain h l where s: "s = (h, l)" by (cases s)
  define ps where "ps = rl_addrs s"
  have rep: "rlist_rep h l ps" using *(1) by (auto simp: rl_inv_def s ps_def)
  have i: "i < length ps" using *(2) by (simp add: rl_abs_def ps_def)
  then obtain n where "lh_nodes h (ps ! i) = Some n" using rlist_rep_allocated [OF rep, of "ps ! i"] by auto
  with i show "rl_nth s i = Some (rl_abs s ! i)"
    by (auto simp: rl_nth_def s rlist_at_spec [OF rep] rl_abs_eq [OF rep] rlist_vals_def)
qed

section \<open>The list as a double-ended queue, merging\<close>

datatype 'v dq_op = RPush 'v | LPush 'v | RPop | LPop

text \<open>What a caller sees: the value of a detached node; pops of an empty list give null.\<close>

fun dq_run :: "'v::zero dq_op list \<Rightarrow> 'v lheap \<Rightarrow> 'v rlist option \<Rightarrow> ('v lheap \<times> 'v rlist option \<times> 'v option list) option" where
  "dq_run [] h l = Some (h, l, [])"
| "dq_run (RPush v # ops) h l = do { (h', l', _) \<leftarrow> rlist_rpush h l v; dq_run ops h' l' }"
| "dq_run (LPush v # ops) h l = do { (h', l', _) \<leftarrow> rlist_lpush h l v; dq_run ops h' l' }"
| "dq_run (RPop # ops) h l = do {
     (h', l', node) \<leftarrow> rlist_rpop h l;
     out \<leftarrow> (case node of None \<Rightarrow> Some None | Some a \<Rightarrow> map_option (\<lambda>n. Some (ln_val n)) (lh_nodes h' a));
     (h'', l'', outs) \<leftarrow> dq_run ops h' l';
     Some (h'', l'', out # outs)
   }"
| "dq_run (LPop # ops) h l = do {
     (h', l', node) \<leftarrow> rlist_lpop h l;
     out \<leftarrow> (case node of None \<Rightarrow> Some None | Some a \<Rightarrow> map_option (\<lambda>n. Some (ln_val n)) (lh_nodes h' a));
     (h'', l'', outs) \<leftarrow> dq_run ops h' l';
     Some (h'', l'', out # outs)
   }"

fun dq_list :: "('v \<Rightarrow> 'v) \<Rightarrow> 'v dq_op list \<Rightarrow> 'v list \<Rightarrow> 'v list \<times> 'v option list" where
  "dq_list f [] xs = (xs, [])"
| "dq_list f (RPush v # ops) xs = dq_list f ops (xs @ [f v])"
| "dq_list f (LPush v # ops) xs = dq_list f ops (f v # xs)"
| "dq_list f (RPop # ops) xs = (case dq_list f ops (butlast xs) of
     (ys, outs) \<Rightarrow> (ys, (if xs = [] then None else Some (last xs)) # outs))"
| "dq_list f (LPop # ops) xs = (case dq_list f ops (tl xs) of
     (ys, outs) \<Rightarrow> (ys, (if xs = [] then None else Some (hd xs)) # outs))"

fun dq_pushes :: "'v::zero dq_op list \<Rightarrow> nat" where
  "dq_pushes [] = 0"
| "dq_pushes (RPush v # ops) = Suc (dq_pushes ops)"
| "dq_pushes (LPush v # ops) = Suc (dq_pushes ops)"
| "dq_pushes (_ # ops) = dq_pushes ops"

fun dq_nonnull :: "'v::zero dq_op \<Rightarrow> bool" where
  "dq_nonnull (RPush v) \<longleftrightarrow> v \<noteq> 0"
| "dq_nonnull (LPush v) \<longleftrightarrow> v \<noteq> 0"
| "dq_nonnull _ \<longleftrightarrow> True"

text \<open>The addresses an operation sequence may touch: the list's own and fresh ones.\<close>

definition touched :: "'v lheap \<Rightarrow> addr list \<Rightarrow> addr set" where
  "touched h ps = set ps \<union> {a. lh_fresh h \<le> a}"

lemma lh_frame_trans:
  "lh_frame h h1 A \<Longrightarrow> lh_frame h1 h2 B \<Longrightarrow> A \<subseteq> C \<Longrightarrow> B \<subseteq> C \<Longrightarrow> lh_frame h h2 C"
  unfolding lh_frame_def by (metis subsetD)

lemma node_value_same: "rl_same l l' \<Longrightarrow> node_value l' = node_value l"
  by (auto simp: rl_same_def node_value_def fun_eq_iff)

lemma rlist_vals_rev_hd: "rlist_vals h (qs @ [t]) = ys \<Longrightarrow> ys \<noteq> [] \<and> last ys = ln_val (the (lh_nodes h t)) \<and> butlast ys = rlist_vals h qs"
  by auto

lemma dq_run_spec:
  assumes "heap_ok h" "rlist_rep h l ps" "list_all dq_nonnull ops"
    and "dq_pushes ops \<le> lh_budget h" "length ps + dq_pushes ops < 2 ^ 32"
  shows "\<exists>h' l' ps'. dq_run ops h (Some l) =
      Some (h', Some l', snd (dq_list (node_value l) ops (rlist_vals h ps))) \<and>
    heap_ok h' \<and> rlist_rep h' l' ps' \<and>
    rlist_vals h' ps' = fst (dq_list (node_value l) ops (rlist_vals h ps)) \<and>
    lh_frame h h' (touched h ps)"
  using assms
proof (induction ops arbitrary: h l ps)
  case Nil
  then show ?case by (auto simp: lh_frame_def)
next
  case (Cons op ops)
  have step: "\<exists>h' l' ps'. dq_run ops h1 (Some l1) =
      Some (h', Some l', snd (dq_list (node_value l) ops xs)) \<and>
      heap_ok h' \<and> rlist_rep h' l' ps' \<and> rlist_vals h' ps' = fst (dq_list (node_value l) ops xs) \<and>
      lh_frame h h' (touched h ps)"
    if "heap_ok h1" "rlist_rep h1 l1 ps1" "rlist_vals h1 ps1 = xs" "rl_same l l1"
      "dq_pushes ops \<le> lh_budget h1" "length ps1 + dq_pushes ops < 2 ^ 32"
      "lh_frame h h1 (touched h ps)" "touched h1 ps1 \<subseteq> touched h ps" for h1 l1 ps1 xs
    using Cons.IH [OF that(1,2)] Cons.prems(3) that(3-8) lh_frame_trans [OF that(7) _ order_refl that(8)]
    by (fastforce simp: node_value_same)
  show ?case
  proof (cases op)
    case (RPush v)
    have c: "v \<noteq> 0" "0 < lh_budget h" "length ps + 1 < 2 ^ 32" using Cons.prems(3-5) RPush by auto
    obtain h1 l1 where 1: "rlist_rpush h (Some l) v = Some (h1, Some l1, Some (lh_fresh h))" "heap_ok h1"
      "rlist_rep h1 l1 (ps @ [lh_fresh h])" "rlist_vals h1 (ps @ [lh_fresh h]) = rlist_vals h ps @ [node_value l v]"
      "lh_frame h h1 (insert (lh_fresh h) (set ps))" "rl_same l l1" "lh_budget h1 = lh_budget h - 1"
      "lh_fresh h1 = lh_fresh h + 1"
      using rlist_rpush_spec [OF Cons.prems(1,2) c] by blast
    have "lh_frame h h1 (touched h ps)" using 1(5) by (auto simp: lh_frame_def touched_def)
    moreover have "touched h1 (ps @ [lh_fresh h]) \<subseteq> touched h ps" using 1(8) by (auto simp: touched_def)
    ultimately show ?thesis
      using step [OF 1(2,3,4,6)] 1(1,7) Cons.prems(4,5) RPush by auto
  next
    case (LPush v)
    have c: "v \<noteq> 0" "0 < lh_budget h" "length ps + 1 < 2 ^ 32" using Cons.prems(3-5) LPush by auto
    obtain h1 l1 where 1: "rlist_lpush h (Some l) v = Some (h1, Some l1, Some (lh_fresh h))" "heap_ok h1"
      "rlist_rep h1 l1 (lh_fresh h # ps)" "rlist_vals h1 (lh_fresh h # ps) = node_value l v # rlist_vals h ps"
      "lh_frame h h1 (insert (lh_fresh h) (set ps))" "rl_same l l1" "lh_budget h1 = lh_budget h - 1"
      "lh_fresh h1 = lh_fresh h + 1"
      using rlist_lpush_spec [OF Cons.prems(1,2) c] by blast
    have "lh_frame h h1 (touched h ps)" using 1(5) by (auto simp: lh_frame_def touched_def)
    moreover have "touched h1 (lh_fresh h # ps) \<subseteq> touched h ps" using 1(8) by (auto simp: touched_def)
    ultimately show ?thesis
      using step [OF 1(2,3,4,6)] 1(1,7) Cons.prems(4,5) LPush by auto
  next
    case RPop
    show ?thesis
    proof (cases ps rule: rev_cases)
      case Nil
      have "rlist_rpop h (Some l) = Some (h, Some l, None)"
        using Cons.prems(2) Nil by (simp add: rlist_rpop_def rlist_rep_def)
      with step [OF Cons.prems(1,2) refl] Cons.prems(4,5) RPop Nil show ?thesis
        by (auto simp: rl_same_def lh_frame_def split: prod.splits)
    next
      case (snoc qs t)
      obtain n where n: "lh_nodes h t = Some n" using rlist_rep_allocated [OF Cons.prems(2), of t] snoc by auto
      obtain h1 l1 where 1: "rlist_rpop h (Some l) = Some (h1, Some l1, Some t)" "heap_ok h1"
        "rlist_rep h1 l1 qs" "rlist_vals h1 (qs @ [t]) = rlist_vals h (qs @ [t])"
        "lh_nodes h1 t = map_option (\<lambda>n. n\<lparr>ln_prev := None, ln_next := None\<rparr>) (lh_nodes h t)"
        "lh_frame h h1 (set (qs @ [t]))" "rl_same l l1" "lh_budget h1 = lh_budget h" "lh_fresh h1 = lh_fresh h"
        using rlist_rpop_spec [OF Cons.prems(1), of l qs t] Cons.prems(2) snoc by auto
      have "lh_frame h h1 (touched h ps)" "touched h1 qs \<subseteq> touched h ps"
        using 1(6,9) snoc by (auto simp: lh_frame_def touched_def)
      moreover have "rlist_vals h1 qs = butlast (rlist_vals h ps)" using 1(4) snoc by simp
      ultimately show ?thesis
        using step [OF 1(2,3) _ 1(7)] 1(1,5,8) n Cons.prems(4,5) RPop snoc
        by (fastforce simp: split: prod.splits)
    qed
  next
    case LPop
    show ?thesis
    proof (cases ps)
      case Nil
      have "rlist_lpop h (Some l) = Some (h, Some l, None)"
        using Cons.prems(2) Nil by (simp add: rlist_lpop_def rlist_rep_def)
      with step [OF Cons.prems(1,2) refl] Cons.prems(4,5) LPop Nil show ?thesis
        by (auto simp: rl_same_def lh_frame_def split: prod.splits)
    next
      case (Cons t qs)
      obtain n where n: "lh_nodes h t = Some n" using rlist_rep_allocated [OF Cons.prems(2), of t] Cons by auto
      obtain h1 l1 where 1: "rlist_lpop h (Some l) = Some (h1, Some l1, Some t)" "heap_ok h1"
        "rlist_rep h1 l1 qs" "rlist_vals h1 (t # qs) = rlist_vals h (t # qs)"
        "lh_nodes h1 t = map_option (\<lambda>n. n\<lparr>ln_prev := None, ln_next := None\<rparr>) (lh_nodes h t)"
        "lh_frame h h1 (set (t # qs))" "rl_same l l1" "lh_budget h1 = lh_budget h" "lh_fresh h1 = lh_fresh h"
        using rlist_lpop_spec [OF Cons.prems(1), of l t qs] Cons.prems(2) Cons by auto
      have "lh_frame h h1 (touched h ps)" "touched h1 qs \<subseteq> touched h ps"
        using 1(6,9) Cons by (auto simp: lh_frame_def touched_def)
      moreover have "rlist_vals h1 qs = tl (rlist_vals h ps)" using 1(4) Cons by simp
      ultimately show ?thesis
        using step [OF 1(2,3) _ 1(7)] 1(1,5,8) n Cons.prems(4,5) LPop Cons
        by (fastforce simp: split: prod.splits)
    qed
  qed
qed

lemma it_stands_frame:
  "it_stands h it as \<Longrightarrow> (\<And>a. a \<in> set as \<Longrightarrow> lh_nodes h' a = lh_nodes h a) \<Longrightarrow> it_stands h' it as"
  using dseg_cong [of as "lh_nodes h'" "lh_nodes h"] dseg_cong [of "rev as" "lh_nodes h'" "lh_nodes h"]
  by (auto simp: it_stands_def split: rlist_direction.splits)

lemma merge_loop_spec:
  assumes "heap_ok h" "rlist_rep h d ds" "it_stands h it as" "set as \<inter> set ds = {}"
    and "\<And>a. a \<in> set as \<Longrightarrow> ln_val (the (lh_nodes h a)) \<noteq> 0"
    and "length as \<le> lh_budget h" "length ds + length as < 2 ^ 32"
  shows "\<exists>h' d' ds'. merge_loop h (Some d) (Some it) k = Some (h', Some d', k + length as) \<and>
    heap_ok h' \<and> rlist_rep h' d' ds' \<and>
    rlist_vals h' ds' = rlist_vals h ds @ map (node_value d) (rlist_vals h as) \<and>
    lh_frame h h' (touched h ds) \<and> rl_same d d'"
  using assms
proof (induction as arbitrary: h d ds it k)
  case Nil
  then show ?case
    by (subst merge_loop.simps) (auto simp: rlist_next_Nil lh_frame_def rl_same_def)
next
  case (Cons a as)
  obtain it' n where nx: "rlist_next h (Some it) = Some (Some it', Some a)" "it_stands h it' as"
    "lh_nodes h a = Some n" using rlist_next_Cons [OF Cons.prems(3)] by blast
  have c: "ln_val n \<noteq> 0" "0 < lh_budget h" "length ds + 1 < 2 ^ 32"
    using Cons.prems(5) [of a] Cons.prems(6,7) nx(3) by auto
  define b where "b = lh_fresh h"
  obtain h1 d1 where 1: "rlist_rpush h (Some d) (ln_val n) = Some (h1, Some d1, Some b)" "heap_ok h1"
    "rlist_rep h1 d1 (ds @ [b])" "rlist_vals h1 (ds @ [b]) = rlist_vals h ds @ [node_value d (ln_val n)]"
    "lh_frame h h1 (insert b (set ds))" "rl_same d d1" "lh_budget h1 = lh_budget h - 1" "lh_fresh h1 = b + 1"
    using rlist_rpush_spec [OF Cons.prems(1,2) c] unfolding b_def by blast
  have alloc: "lh_nodes h x \<noteq> None" if "x \<in> set as" for x
    using nx(2) that dseg_allocated [of "lh_nodes h" _ as _ x] dseg_allocated [of "lh_nodes h" _ "rev as" _ x]
    by (auto simp: it_stands_def split: rlist_direction.splits)
  have "b \<notin> set as" using alloc [of b] Cons.prems(1) by (auto simp: heap_ok_def b_def)
  then have same: "lh_nodes h1 x = lh_nodes h x" if "x \<in> set as" for x
    using that 1(5) Cons.prems(4) by (auto simp: lh_frame_def disjoint_iff)
  have "\<exists>h' d' ds'. merge_loop h1 (Some d1) (Some it') (k + 1) = Some (h', Some d', k + 1 + length as) \<and>
    heap_ok h' \<and> rlist_rep h' d' ds' \<and>
    rlist_vals h' ds' = rlist_vals h1 (ds @ [b]) @ map (node_value d1) (rlist_vals h1 as) \<and>
    lh_frame h1 h' (touched h1 (ds @ [b])) \<and> rl_same d1 d'"
    using Cons.prems(4-7) 1(7) same \<open>b \<notin> set as\<close>
    by (intro Cons.IH [OF 1(2,3)] it_stands_frame [OF nx(2) same]) auto
  then obtain h' d' ds' where 2: "merge_loop h1 (Some d1) (Some it') (k + 1) = Some (h', Some d', k + 1 + length as)"
    "heap_ok h'" "rlist_rep h' d' ds'"
    "rlist_vals h' ds' = rlist_vals h1 (ds @ [b]) @ map (node_value d1) (rlist_vals h1 as)"
    "lh_frame h1 h' (touched h1 (ds @ [b]))" "rl_same d1 d'" by blast
  have "merge_loop h (Some d) (Some it) k = Some (h', Some d', k + length (a # as))"
    using nx 1(1) 2(1) by (subst merge_loop.simps) simp
  moreover have "rlist_vals h1 as = rlist_vals h as" using same by (rule rlist_vals_cong)
  moreover have "lh_frame h h' (touched h ds)"
    by (rule lh_frame_trans [OF 1(5) 2(5)]) (auto simp: touched_def b_def 1(8))
  moreover have "rl_same d d'" using 1(6) 2(6) by (simp add: rl_same_def)
  ultimately show ?case
    using 2(2-4) 1(4) nx(3) by (auto simp: node_value_same [OF 1(6)])
qed

lemma free_nodes_spec:
  assumes "dseg (lh_nodes h) p as None" "distinct as"
  shows "\<exists>h'. free_nodes h l (length as) (first_of as None) = Some h' \<and>
    (\<forall>a. lh_nodes h' a = (if a \<in> set as then None else lh_nodes h a)) \<and>
    lh_fresh h' = lh_fresh h \<and> lh_budget h' = lh_budget h + length as \<and>
    lh_freed h' = lh_freed h @ concat (map (case rl_free l of None \<Rightarrow> \<lambda>_. [] | Some f \<Rightarrow> f) (rlist_vals h as))"
  using assms
proof (induction as arbitrary: h p)
  case (Cons a as)
  obtain v where a: "lh_nodes h a = Some \<lparr>ln_prev = p, ln_next = first_of as None, ln_val = v\<rparr>"
    "dseg (lh_nodes h) (Some a) as None" "a \<notin> set as" "distinct as" using Cons.prems by auto
  define h1 where "h1 = h\<lparr>lh_nodes := (lh_nodes h)(a := None), lh_budget := lh_budget h + 1,
    lh_freed := lh_freed h @ (case rl_free l of None \<Rightarrow> [] | Some f \<Rightarrow> f v)\<rparr>"
  have h1: "rlist_free_node h l (Some a) = Some h1" "dseg (lh_nodes h1) (Some a) as None"
    "rlist_vals h1 as = rlist_vals h as"
    using a by (auto simp: rlist_free_node_def h1_def rlist_vals_def Let_def split: option.splits)
  from Cons.IH [OF h1(2) a(4)] a h1 show ?case
    by (auto simp: h1_def split: option.splits)
qed simp

lemma rlist_clear_spec:
  assumes "heap_ok h" "rlist_rep h l ps"
  shows "\<exists>h' l'. rlist_clear h (Some l) = Some (h', Some l') \<and> heap_ok h' \<and> rlist_rep h' l' [] \<and>
    rl_same l l' \<and> lh_frame h h' (set ps) \<and> (\<forall>a\<in>set ps. lh_nodes h' a = None) \<and>
    lh_budget h' = lh_budget h + length ps \<and>
    lh_freed h' = lh_freed h @ concat (map (case rl_free l of None \<Rightarrow> \<lambda>_. [] | Some f \<Rightarrow> f) (rlist_vals h ps))"
proof -
  have rep: "dseg (lh_nodes h) None ps None" "distinct ps" "rl_head l = first_of ps None" "rl_len l = length ps"
    "rl_tail l = last_of None ps"
    using assms(2) by (auto simp: rlist_rep_def)
  obtain h' where h': "free_nodes h l (rl_len l) (rl_head l) = Some h'"
    "\<And>a. lh_nodes h' a = (if a \<in> set ps then None else lh_nodes h a)"
    "lh_fresh h' = lh_fresh h" "lh_budget h' = lh_budget h + length ps"
    "lh_freed h' = lh_freed h @ concat (map (case rl_free l of None \<Rightarrow> \<lambda>_. [] | Some f \<Rightarrow> f) (rlist_vals h ps))"
    using free_nodes_spec [OF rep(1,2), of l] rep(3,4) by auto
  define l' where "l' = l\<lparr>rl_head := None, rl_tail := None, rl_len := 0\<rparr>"
  have "rlist_clear h (Some l) = Some (h', Some l')"
  proof (cases "ps = []")
    case True
    then have "free_nodes h l (rl_len l) (rl_head l) = Some h" "l' = l" using rep by (simp_all add: l'_def)
    with h'(1) True rep show ?thesis by (simp add: rlist_clear_def)
  next
    case False
    with h'(1) rep show ?thesis by (simp add: rlist_clear_def l'_def)
  qed
  moreover have "heap_ok h'" using assms(1) h'(2,3) by (simp add: heap_ok_def)
  moreover have "rlist_rep h' l' []" by (simp add: rlist_rep_def l'_def)
  moreover have "rl_same l l'" by (simp add: rl_same_def l'_def)
  moreover have "lh_frame h h' (set ps)" using h'(2) by (simp add: lh_frame_def)
  ultimately show ?thesis using h' by auto
qed

section \<open>Properties\<close>

text \<open>
  Any sequence of pushes at the end, and removals of the node at an index, on a list of non-null
  values that the allocator can serve, leaves the list the same operations give on lists; the node
  found by \<open>rlist_at\<close> holds the element.
\<close>

theorem rlist_refines_list:
  assumes "rl_inv s" "rl_fits n s" "list_ops_ok (\<lambda>v. v \<noteq> 0) n ops (length (rl_abs s))"
  shows "\<exists>s'. store_run rl_push rl_del ops s = Some s' \<and> rl_inv s' \<and>
    rl_abs s' = list_run ops (rl_abs s) \<and>
    (\<forall>i<length (rl_abs s'). rl_nth s' i = Some (list_run ops (rl_abs s) ! i))"
  using rl.run_refines [OF assms] by blast

definition rlist_demo :: "nat lheap \<times> nat rlist" where
  "rlist_demo = (\<lparr>lh_nodes = Map.empty, lh_fresh = 1, lh_budget = 10, lh_freed = []\<rparr>,
    \<lparr>rl_head = None, rl_tail = None, rl_len = 0, rl_malloc = None, rl_free = Some (\<lambda>v. [v]), rl_compare = None\<rparr>)"

lemma rlist_demo_rep:
  "heap_ok (fst rlist_demo)" "rlist_rep (fst rlist_demo) (snd rlist_demo) []" "rl_addrs rlist_demo = []"
  "rl_inv rlist_demo" "rl_abs rlist_demo = []"
  by (simp_all add: rlist_demo_def heap_ok_def rlist_rep_def rl_addrs_def rl_inv_def rl_abs_def)

theorem rlist_refines_list_witness:
  "\<exists>s'. store_run rl_push rl_del [Push 5, Push 6, Push 7, Del 1, Push 8] rlist_demo = Some s' \<and>
    rl_inv s' \<and> rl_abs s' = [5, 7, 8] \<and> (\<forall>i<length (rl_abs s'). rl_nth s' i = Some ([5, 7, 8] ! i))"
  using rlist_refines_list [OF rlist_demo_rep(4), of 10 "[Push 5, Push 6, Push 7, Del 1, Push 8]"]
  by (simp add: rlist_demo_rep rl_fits_def) (simp add: rlist_demo_def)

text \<open>
  C20: The list is a double-ended queue: for any sequence of pushes and pops at both ends the links
  stay consistent, the values are those of the queue on lists, each pop detaches the node with the
  value at its end (null when the list is empty), and no node of another list is written.
\<close>

theorem rlist_deque:
  assumes "heap_ok h" "rlist_rep h l ps" "list_all dq_nonnull ops"
    and "dq_pushes ops \<le> lh_budget h" "length ps + dq_pushes ops < 2 ^ 32"
  shows "\<exists>h' l' ps'. dq_run ops h (Some l) =
      Some (h', Some l', snd (dq_list (node_value l) ops (rlist_vals h ps))) \<and>
    heap_ok h' \<and> rlist_rep h' l' ps' \<and>
    rlist_vals h' ps' = fst (dq_list (node_value l) ops (rlist_vals h ps)) \<and>
    lh_frame h h' (touched h ps)"
  by (rule dq_run_spec [OF assms])

theorem rlist_deque_witness:
  "\<exists>h' l' ps'. dq_run [RPush 3, LPush 4, RPush 5, LPop, RPop, RPop, RPop] (fst rlist_demo) (Some (snd rlist_demo)) =
      Some (h', Some l', [Some 4, Some 5, Some 3, None]) \<and> heap_ok h' \<and> rlist_rep h' l' ps' \<and> rlist_vals h' ps' = []"
proof -
  have "node_value (snd rlist_demo) = (\<lambda>v. v)" by (simp add: node_value_def rlist_demo_def fun_eq_iff)
  with rlist_deque [OF rlist_demo_rep(1,2), of "[RPush 3, LPush 4, RPush 5, LPop, RPop, RPop, RPop]"]
  show ?thesis by (auto simp: rlist_demo_def)
qed

text \<open>
  \<open>rlist_merge\<close> appends the values of another list, in the chosen direction, and counts them; the
  other list keeps its nodes and values.  Every value goes through \<open>malloc_node_val\<close> of the destination.
\<close>

theorem rlist_merge_appends:
  assumes "heap_ok h" "rlist_rep h dest ds" "rlist_rep h temp ts" "set ds \<inter> set ts = {}"
    and "0 \<notin> set (rlist_vals h ts)" "length ts \<le> lh_budget h" "length ds + length ts < 2 ^ 31"
  shows "\<exists>h' dest' ds'. rlist_merge h (Some dest) (Some temp) dir = Some (h', Some dest', int (length ts)) \<and>
    heap_ok h' \<and> rlist_rep h' dest' ds' \<and>
    rlist_vals h' ds' = rlist_vals h ds @ map (node_value dest) (dir_order dir (rlist_vals h ts)) \<and>
    rlist_rep h' temp ts \<and> rlist_vals h' ts = rlist_vals h ts"
proof -
  let ?as = "dir_order dir ts"
  have as: "set ?as = set ts" "length ?as = length ts" "rlist_vals h ?as = dir_order dir (rlist_vals h ts)"
    by (cases dir; simp add: dir_order_def rlist_vals_def rev_map)+
  have nz: "ln_val (the (lh_nodes h a)) \<noteq> 0" if "a \<in> set ts" for a
    using assms(5) that by (auto simp: rlist_vals_def image_iff)
  obtain h' d' ds' where m: "merge_loop h (Some dest) (Some (rlist_it temp dir)) 0 = Some (h', Some d', 0 + length ?as)"
    "heap_ok h'" "rlist_rep h' d' ds'"
    "rlist_vals h' ds' = rlist_vals h ds @ map (node_value dest) (rlist_vals h ?as)"
    "lh_frame h h' (touched h ds)"
    using merge_loop_spec [OF assms(1,2), of "rlist_it temp dir" ?as 0] rlist_it_stands [OF assms(3), of dir]
      assms(4,6,7) as nz by (fastforce simp: Int_commute)
  have "set ts \<inter> touched h ds = {}"
    using assms(4) rlist_rep_allocated [OF assms(3)] assms(1) by (fastforce simp: touched_def heap_ok_def)
  from rlist_rep_frame [OF assms(3) m(5) this] have "rlist_rep h' temp ts \<and> rlist_vals h' ts = rlist_vals h ts" .
  with m as assms(7) show ?thesis by (auto simp: rlist_merge_def int32_in_range)
qed

definition rlist_demo2 :: "nat lheap" where
  "rlist_demo2 = \<lparr>lh_nodes = [1 \<mapsto> \<lparr>ln_prev = None, ln_next = Some 2, ln_val = 7\<rparr>,
    2 \<mapsto> \<lparr>ln_prev = Some 1, ln_next = None, ln_val = 8\<rparr>], lh_fresh = 3, lh_budget = 5, lh_freed = []\<rparr>"

theorem rlist_merge_appends_witness:
  "\<exists>h' dest' ds'. rlist_merge rlist_demo2 (Some (snd rlist_demo))
      (Some ((snd rlist_demo)\<lparr>rl_head := Some 1, rl_tail := Some 2, rl_len := 2\<rparr>)) rlist_dir_head =
      Some (h', Some dest', 2) \<and> rlist_rep h' dest' ds' \<and> rlist_vals h' ds' = [8, 7]"
proof -
  have 1: "heap_ok rlist_demo2" "rlist_rep rlist_demo2 (snd rlist_demo) []"
    by (auto simp: rlist_demo2_def rlist_demo_def heap_ok_def rlist_rep_def)
  have 2: "rlist_rep rlist_demo2 ((snd rlist_demo)\<lparr>rl_head := Some 1, rl_tail := Some 2, rl_len := 2\<rparr>) [1, 2]"
    by (simp add: rlist_demo2_def rlist_demo_def rlist_rep_def)
  have 3: "rlist_vals rlist_demo2 [1, 2] = [7, 8]" "node_value (snd rlist_demo) = (\<lambda>v. v)"
    by (simp_all add: rlist_demo2_def node_value_def rlist_demo_def fun_eq_iff)
  from rlist_merge_appends [OF 1 2, of rlist_dir_head] 3 show ?thesis
    by (auto simp: dir_order_def rlist_demo2_def)
qed

end
