(* ===== verification/RDict.thy ===== *)
theory RDict
  imports RArray
begin

text \<open>
  The dictionary of \<open>common/src/rdict.c\<close>: an array of buckets of a fixed capacity, the entries of
  a bucket packed at its beginning, and a separate entry for the null key.  The theory holds the
  record, every operation (with the rehashing and its float arithmetic), the invariant of the
  table, the abstraction to a map, the locale \<open>dictionary\<close> and its interpretation.  A key or a
  value is an option: \<open>None\<close> is the null pointer.
\<close>

section \<open>The table\<close>

record ('k, 'v) rdict_entry =
  e_key :: "'k option"
  e_val :: "'v option"

text \<open>
  The functions are the ones \<open>rdict_init\<close> installs: \<open>d_eq\<close> is the test \<open>rdict_is_key_equal\<close>; the two
  ghost fields log what \<open>free_key_func\<close> and \<open>free_value_func\<close> are called with.
\<close>

record ('k, 'v) rdict =
  d_entry :: "('k, 'v) rdict_entry list option"
  d_null :: "('k, 'v) rdict_entry option"
  d_size :: nat
  d_capacity :: nat
  d_buckets :: nat
  d_bucket_capacity :: nat
  d_hash :: "'k \<Rightarrow> 64 word"
  d_eq :: "'k \<Rightarrow> 'k \<Rightarrow> bool"
  d_copy_key :: "('k option \<Rightarrow> 'k option) option"
  d_copy_value :: "('v option \<Rightarrow> 'v option) option"
  d_freed_keys :: "'k option list"
  d_freed_values :: "'v option list"

text \<open>The allocator: whether a table of so many entries, or a single entry, can be had.\<close>

record rdict_env =
  de_calloc :: "nat \<Rightarrow> bool"
  de_malloc_entry :: bool

abbreviation (input) rdict_code_ok :: int where "rdict_code_ok \<equiv> 0"
abbreviation (input) rdict_code_error :: int where "rdict_code_error \<equiv> 1"
abbreviation (input) rdict_code_not_exist :: int where "rdict_code_not_exist \<equiv> 2"

definition empty_entry :: "('k, 'v) rdict_entry" where
  "empty_entry = \<lparr>e_key = None, e_val = None\<rparr>"

section \<open>The macros\<close>

definition copied_key :: "('k, 'v) rdict \<Rightarrow> 'k option \<Rightarrow> 'k option" where
  "copied_key d k = (case d_copy_key d of Some f \<Rightarrow> f k | None \<Rightarrow> k)"

definition copied_value :: "('k, 'v) rdict \<Rightarrow> 'v option \<Rightarrow> 'v option" where
  "copied_value d v = (case d_copy_value d of Some f \<Rightarrow> f v | None \<Rightarrow> v)"

text \<open>The first cell of the bucket of a key; the remainder by zero buckets is undefined.\<close>

definition find_bucket_raw :: "('k \<Rightarrow> 64 word) \<Rightarrow> 'k \<Rightarrow> nat \<Rightarrow> nat \<Rightarrow> nat option" where
  "find_bucket_raw hash k bucket_count bucket_capacity =
    (if bucket_count = 0 then None else Some (unat (hash k) mod bucket_count * bucket_capacity))"

definition find_bucket :: "('k, 'v) rdict \<Rightarrow> 'k \<Rightarrow> nat option" where
  "find_bucket d k = find_bucket_raw (d_hash d) k (d_buckets d) (d_bucket_capacity d)"

section \<open>Growing\<close>

text \<open>\<open>capacity / 0.75\<close> in \<open>float\<close>, truncated: both the conversion and the quotient are rounded.\<close>

definition scale_capacity :: "nat \<Rightarrow> nat" where
  "scale_capacity c =
    (let p = 4 * round_f32 c
     in if p < 3 * 2 ^ 23 then p div 3
        else let u = 2 ^ (floorlog 2 (p div 3) - 24); q = p div (3 * u); r = p mod (3 * u)
             in (if 2 * r < 3 * u \<or> 2 * r = 3 * u \<and> even q then q else q + 1) * u)"

text \<open>The doubling below the hill of 640000 entries (16 bytes each), the addition of 64000 above.\<close>

definition expand_capacity :: "nat \<Rightarrow> nat" where
  "expand_capacity c = (if c < 640000 then c * 2 else c + 64000) mod 2 ^ 32"

text \<open>
  The search for a free cell of a bucket of the new table: \<open>Some None\<close> when all cells are taken.
\<close>

fun free_cell :: "('k, 'v) rdict_entry list \<Rightarrow> nat \<Rightarrow> nat \<Rightarrow> nat option option" where
  "free_cell ents pos n =
    (if length ents \<le> pos then None
     else if e_key (ents ! pos) = None then Some (Some pos)
     else case n of 0 \<Rightarrow> Some None | Suc m \<Rightarrow> free_cell ents (pos + 1) m)"

declare free_cell.simps [simp del]

lemma next_bucket_gt: "0 < b \<Longrightarrow> (i :: nat) < (i div b + 1) * b"
  by (metis add.commute div_mult_mod_eq mod_less_divisor mult_Suc nat_add_left_cancel_less plus_1_eq_Suc)

text \<open>
  The loop over the cells of the old table; \<open>Some None\<close> when an entry found its new bucket full.
\<close>

function rehash :: "('k \<Rightarrow> 64 word) \<Rightarrow> nat \<Rightarrow> nat \<Rightarrow> ('k, 'v) rdict_entry list \<Rightarrow> nat \<Rightarrow> nat \<Rightarrow>
    ('k, 'v) rdict_entry list \<Rightarrow> ('k, 'v) rdict_entry list option option"
where
  "rehash hash count bcap old capacity i new =
    (if i \<ge> capacity then Some (Some new)
     else if i \<ge> length old \<or> bcap = 0 then None
     else case e_key (old ! i) of
       None \<Rightarrow> rehash hash count bcap old capacity ((i div bcap + 1) * bcap) new
     | Some k \<Rightarrow> do {
         start \<leftarrow> find_bucket_raw hash k count bcap;
         cell \<leftarrow> free_cell new start (bcap - 1);
         (case cell of
            None \<Rightarrow> Some None
          | Some pos \<Rightarrow> rehash hash count bcap old capacity (i + 1) (new[pos := old ! i]))
       })"
  by pat_completeness auto

termination
proof (relation "measure (\<lambda>(hash, count, bcap, old, capacity, i, new). capacity - i)", goal_cases)
  case (2 hash count bcap old capacity i new)
  then show ?case using next_bucket_gt [of bcap i] by (simp add: diff_less_mono2)
qed auto

declare rehash.simps [simp del]

text \<open>
  \<open>_expand_buckets\<close> and \<open>rdict_expand\<close>, which call each other.  The range test on the scaled
  capacity is never true for a \<open>uint32_t\<close>; a quotient that does not fit one is undefined.
\<close>

partial_function (option) expand_buckets ::
  "rdict_env \<Rightarrow> ('k, 'v) rdict \<Rightarrow> nat \<Rightarrow> (('k, 'v) rdict \<times> int) option"
where
  "expand_buckets env d cap =
    (let capacity = scale_capacity cap; b = d_bucket_capacity d
     in if capacity \<ge> 2 ^ 32 \<or> b = 0 then None
        else
          let bucket_count = (if capacity mod b = 0 then capacity div b else capacity div b + 1);
              dest_capacity = (bucket_count * b) mod 2 ^ 32
          in if \<not> de_calloc env dest_capacity then Some (d, rdict_code_error)
             else (case d_entry d of
                 None \<Rightarrow> Some (d\<lparr>d_capacity := dest_capacity, d_size := 0, d_buckets := bucket_count,
                   d_entry := Some (replicate dest_capacity empty_entry)\<rparr>, rdict_code_ok)
               | Some old \<Rightarrow> do {
                   moved \<leftarrow> rehash (d_hash d) bucket_count b old (d_capacity d) 0
                     (replicate dest_capacity empty_entry);
                   (case moved of
                      None \<Rightarrow> expand_buckets env d (expand_capacity ((capacity * 2) mod 2 ^ 32))
                    | Some new \<Rightarrow> Some (d\<lparr>d_entry := Some new, d_capacity := dest_capacity,
                        d_buckets := bucket_count\<rparr>, rdict_code_ok))
                 }))"

definition rdict_expand ::
  "rdict_env \<Rightarrow> ('k, 'v) rdict option \<Rightarrow> nat \<Rightarrow> (('k, 'v) rdict option \<times> int) option"
where
  "rdict_expand env dp capacity = (case dp of
     None \<Rightarrow> Some (None, rcode_invalid)
   | Some d \<Rightarrow> map_option (\<lambda>(d', c). (Some d', c)) (expand_buckets env d (expand_capacity capacity)))"

text \<open>
  \<open>rdict_create\<close> with the functions \<open>rdict_init\<close> sets afterwards (\<open>fns\<close> carries them); the result
  of building the first table is not looked at.
\<close>

definition rdict_create ::
  "rdict_env \<Rightarrow> ('k, 'v) rdict \<Rightarrow> nat \<Rightarrow> nat \<Rightarrow> ('k, 'v) rdict option"
where
  "rdict_create env fns init_capacity bucket_capacity = do {
     let d = fns\<lparr>d_entry := None, d_null := None, d_size := 0,
       d_capacity := (if init_capacity > 0 then init_capacity else 16), d_buckets := 0,
       d_bucket_capacity := (if bucket_capacity = 0 then 16 else bucket_capacity),
       d_freed_keys := [], d_freed_values := []\<rparr>;
     (d', _) \<leftarrow> expand_buckets env d (d_capacity d);
     Some d'
   }"

section \<open>Operations\<close>

text \<open>\<open>rdict_free_key\<close> and \<open>rdict_free_value\<close> of an entry.\<close>

definition free_key :: "('k, 'v) rdict \<Rightarrow> ('k, 'v) rdict_entry \<Rightarrow> ('k, 'v) rdict \<times> ('k, 'v) rdict_entry" where
  "free_key d e = (d\<lparr>d_freed_keys := d_freed_keys d @ [e_key e]\<rparr>, e\<lparr>e_key := None\<rparr>)"

definition free_value :: "('k, 'v) rdict \<Rightarrow> ('k, 'v) rdict_entry \<Rightarrow> ('k, 'v) rdict \<times> ('k, 'v) rdict_entry" where
  "free_value d e = (d\<lparr>d_freed_values := d_freed_values d @ [e_val e]\<rparr>, e\<lparr>e_val := None\<rparr>)"

text \<open>The null key: one entry of its own.  A failed allocation of it goes unnoticed.\<close>

definition add_null :: "rdict_env \<Rightarrow> ('k, 'v) rdict \<Rightarrow> 'v option \<Rightarrow> ('k, 'v) rdict" where
  "add_null env d val = (case d_null d of
     None \<Rightarrow> d\<lparr>d_size := inc32 (d_size d),
       d_null := (if de_malloc_entry env
         then Some \<lparr>e_key = copied_key d None, e_val = copied_value d val\<rparr> else None)\<rparr>
   | Some e \<Rightarrow>
       let (d1, e1) = free_value d e in d1\<lparr>d_null := Some (e1\<lparr>e_val := copied_value d1 val\<rparr>)\<rparr>)"

text \<open>
  The walk to the key or to the first free cell.  It is bounded by neither the bucket nor the
  table: a read behind the last cell is undefined.
\<close>

function scan :: "('k \<Rightarrow> 'k \<Rightarrow> bool) \<Rightarrow> ('k, 'v) rdict_entry list \<Rightarrow> 'k \<Rightarrow> nat \<Rightarrow> nat option" where
  "scan eq ents key pos =
    (if pos \<ge> length ents then None
     else case e_key (ents ! pos) of
       None \<Rightarrow> Some pos
     | Some k \<Rightarrow> if eq k key then Some pos else scan eq ents key (pos + 1))"
  by pat_completeness auto
termination by (relation "measure (\<lambda>(eq, ents, key, pos). length ents - pos)") auto

declare scan.simps [simp del]

text \<open>What \<open>rdict_add\<close> does to the cell it settled on.\<close>

definition add_at :: "('k, 'v) rdict \<Rightarrow> ('k, 'v) rdict_entry list \<Rightarrow> nat \<Rightarrow> 'k \<Rightarrow> 'v option \<Rightarrow> ('k, 'v) rdict" where
  "add_at d ents pos key val =
    (let e = ents ! pos;
         (d1, e1) = (if e_key e = None
           then (d\<lparr>d_size := inc32 (d_size d)\<rparr>, e\<lparr>e_key := copied_key d (Some key)\<rparr>)
           else free_value d e)
     in d1\<lparr>d_entry := Some (ents[pos := e1\<lparr>e_val := copied_value d1 val\<rparr>])\<rparr>)"

partial_function (option) add_key ::
  "rdict_env \<Rightarrow> ('k, 'v) rdict \<Rightarrow> 'k \<Rightarrow> 'v option \<Rightarrow> (('k, 'v) rdict \<times> int) option"
where
  "add_key env d key val = do {
     start \<leftarrow> find_bucket d key;
     ents \<leftarrow> d_entry d;
     pos \<leftarrow> scan (d_eq d) ents key start;
     if pos + 1 \<ge> start + d_bucket_capacity d
     then do {
       (d1, code) \<leftarrow> expand_buckets env d (expand_capacity (d_capacity d));
       if code \<noteq> rdict_code_ok then Some (d1, code) else add_key env d1 key val
     }
     else Some (add_at d ents pos key val, rdict_code_ok)
   }"

definition rdict_add ::
  "rdict_env \<Rightarrow> ('k, 'v) rdict option \<Rightarrow> 'k option \<Rightarrow> 'v option \<Rightarrow> (('k, 'v) rdict option \<times> int) option"
where
  "rdict_add env dp key val = (case dp of
     None \<Rightarrow> Some (None, rdict_code_error)
   | Some d \<Rightarrow> (case key of
       None \<Rightarrow> Some (Some (add_null env d val), rdict_code_ok)
     | Some k \<Rightarrow> map_option (\<lambda>(d', c). (Some d', c)) (add_key env d k val)))"

text \<open>
  The walk of \<open>rdict_remove\<close>, bounded by the last cell \<open>fin\<close> of the bucket: \<open>Some None\<close> when the key
  is not there.
\<close>

function scan_to :: "('k \<Rightarrow> 'k \<Rightarrow> bool) \<Rightarrow> ('k, 'v) rdict_entry list \<Rightarrow> 'k \<Rightarrow> nat \<Rightarrow> nat \<Rightarrow> nat option option" where
  "scan_to eq ents key pos fin =
    (if pos \<ge> length ents then None
     else case e_key (ents ! pos) of
       None \<Rightarrow> Some None
     | Some k \<Rightarrow>
         if eq k key then Some (Some pos)
         else if pos = fin then Some None
         else scan_to eq ents key (pos + 1) fin)"
  by pat_completeness auto
termination by (relation "measure (\<lambda>(eq, ents, key, pos, fin). length ents - pos)") auto

declare scan_to.simps [simp del]

text \<open>The last entry of the bucket behind the hole, from the end of the bucket downwards.\<close>

fun last_behind :: "('k, 'v) rdict_entry list \<Rightarrow> nat \<Rightarrow> nat \<Rightarrow> nat option" where
  "last_behind ents hole 0 = None"
| "last_behind ents hole (Suc n) =
    (if e_key (ents ! (hole + Suc n)) \<noteq> None then Some (hole + Suc n) else last_behind ents hole n)"

definition remove_at :: "('k, 'v) rdict \<Rightarrow> ('k, 'v) rdict_entry list \<Rightarrow> nat \<Rightarrow> nat \<Rightarrow> ('k, 'v) rdict" where
  "remove_at d ents pos fin =
    (let (d1, e1) = free_key d (ents ! pos);
         (d2, e2) = free_value d1 e1;
         ents1 = ents[pos := empty_entry];
         ents2 = (case last_behind ents1 pos (fin - pos) of
             None \<Rightarrow> ents1 | Some i \<Rightarrow> ents1[pos := ents1 ! i, i := empty_entry])
     in d2\<lparr>d_size := dec32 (d_size d2), d_entry := Some ents2\<rparr>)"

definition remove_null :: "('k, 'v) rdict \<Rightarrow> ('k, 'v) rdict" where
  "remove_null d = (case d_null d of
     None \<Rightarrow> d
   | Some e \<Rightarrow>
       let (d1, e1) = free_key d e; (d2, e2) = free_value d1 e1
       in d2\<lparr>d_null := None, d_size := dec32 (d_size d2)\<rparr>)"

definition rdict_remove ::
  "('k, 'v) rdict option \<Rightarrow> 'k option \<Rightarrow> (('k, 'v) rdict option \<times> int) option"
where
  "rdict_remove dp key = (case dp of
     None \<Rightarrow> Some (None, rdict_code_error)
   | Some d \<Rightarrow> (case key of
       None \<Rightarrow> Some (Some (remove_null d), rdict_code_ok)
     | Some k \<Rightarrow> do {
         start \<leftarrow> find_bucket d k;
         ents \<leftarrow> d_entry d;
         let fin = start + (d_bucket_capacity d - 1);
         found \<leftarrow> scan_to (d_eq d) ents k start fin;
         (case found of
            None \<Rightarrow> Some (Some d, rdict_code_not_exist)
          | Some pos \<Rightarrow> Some (Some (remove_at d ents pos fin), rdict_code_ok))
       }))"

text \<open>\<open>rdict_find\<close>: the entry found, or \<open>Some None\<close> for a null result.\<close>

definition rdict_find :: "('k, 'v) rdict option \<Rightarrow> 'k option \<Rightarrow> ('k, 'v) rdict_entry option option" where
  "rdict_find dp key = (case dp of
     None \<Rightarrow> Some None
   | Some d \<Rightarrow> (case key of
       None \<Rightarrow> Some (d_null d)
     | Some k \<Rightarrow> do {
         start \<leftarrow> find_bucket d k;
         ents \<leftarrow> d_entry d;
         pos \<leftarrow> scan (d_eq d) ents k start;
         Some (if e_key (ents ! pos) = None then None else Some (ents ! pos))
       }))"

text \<open>
  The iterator: its \<open>next\<close> is the null entry's pointer (\<open>None\<close>, also when there is no null entry) or
  a cell of the table.
\<close>

type_synonym rdict_iterator = "nat option"

function skip_buckets :: "('k, 'v) rdict_entry list \<Rightarrow> nat \<Rightarrow> nat \<Rightarrow> nat \<Rightarrow> (nat \<times> ('k, 'v) rdict_entry option) option" where
  "skip_buckets ents capacity bcap i =
    (if bcap = 0 then None
     else if i < capacity - 1 then
       if i \<ge> length ents then None
       else if e_key (ents ! i) \<noteq> None then Some (i + 1, Some (ents ! i))
       else skip_buckets ents capacity bcap ((i div bcap + 1) * bcap)
     else Some (i, None))"
  by pat_completeness auto
termination
proof (relation "measure (\<lambda>(ents, capacity, bcap, i). capacity - i)", goal_cases)
  case (2 ents capacity bcap i)
  then show ?case using next_bucket_gt [of bcap i] by (simp add: diff_less_mono2)
qed simp

declare skip_buckets.simps [simp del]

definition rdict_next :: "('k, 'v) rdict \<Rightarrow> rdict_iterator \<Rightarrow> (rdict_iterator \<times> ('k, 'v) rdict_entry option) option" where
  "rdict_next d it = (case (it, d_null d) of
     (None, Some e) \<Rightarrow> Some (Some 0, Some e)
   | _ \<Rightarrow>
       let i = (case it of None \<Rightarrow> 0 | Some j \<Rightarrow> j)
       in if i < d_capacity d then do {
            ents \<leftarrow> d_entry d;
            if i \<ge> length ents then None
            else if e_key (ents ! i) \<noteq> None then Some (Some (i + 1), Some (ents ! i))
            else if d_bucket_capacity d = 0 then None
            else map_option (\<lambda>(j, e). (Some j, e))
              (skip_buckets ents (d_capacity d) (d_bucket_capacity d)
                ((i div d_bucket_capacity d + 1) * d_bucket_capacity d))
          }
          else Some (Some i, None))"

text \<open>The iteration \<open>for (...; (de = rdict_next(&it)) != NULL; )\<close>: the entries it hands out.\<close>

partial_function (option) iterate :: "('k, 'v) rdict \<Rightarrow> rdict_iterator \<Rightarrow> ('k, 'v) rdict_entry list option" where
  "iterate d it = do {
     (it', e) \<leftarrow> rdict_next d it;
     (case e of None \<Rightarrow> Some [] | Some de \<Rightarrow> do { rest \<leftarrow> iterate d it'; Some (de # rest) })
   }"

text \<open>
  \<open>rdict_clear\<close>: the null entry is freed, then every entry; clearing the key of an entry already
  handed out does not change where the iteration goes.
\<close>

definition rdict_clear :: "('k, 'v) rdict option \<Rightarrow> ('k, 'v) rdict option option" where
  "rdict_clear dp = (case dp of
     None \<Rightarrow> Some None
   | Some d \<Rightarrow> do {
       let d1 = (case d_null d of
           None \<Rightarrow> d
         | Some e \<Rightarrow> let (d', e') = free_key d e; (d'', _) = free_value d' e' in d''\<lparr>d_null := None\<rparr>);
       es \<leftarrow> iterate d1 None;
       let d2 = d1\<lparr>d_freed_keys := d_freed_keys d1 @ map e_key es,
         d_freed_values := d_freed_values d1 @ map e_val es, d_size := 0\<rparr>;
       Some (Some (case d_entry d2 of
           None \<Rightarrow> d2
         | Some ents \<Rightarrow> d2\<lparr>d_entry := Some (map (\<lambda>_. empty_entry) ents)\<rparr>))
     })"

section \<open>The invariant of the table and the map it stands for\<close>

definition home :: "('k \<Rightarrow> 64 word) \<Rightarrow> nat \<Rightarrow> 'k \<Rightarrow> nat" where
  "home hash count k = unat (hash k) mod count"

text \<open>
  Every key lies in its bucket, the entries of a bucket are packed at its beginning, no key occurs
  twice.
\<close>

definition table_ok :: "('k \<Rightarrow> 64 word) \<Rightarrow> nat \<Rightarrow> nat \<Rightarrow> ('k, 'v) rdict_entry list \<Rightarrow> bool" where
  "table_ok hash count b ents \<longleftrightarrow> 0 < count \<and> 0 < b \<and> length ents = count * b \<and>
    (\<forall>i k. i < length ents \<and> e_key (ents ! i) = Some k \<longrightarrow> i div b = home hash count k) \<and>
    (\<forall>i j. i \<le> j \<and> j < length ents \<and> i div b = j div b \<and> e_key (ents ! i) = None \<longrightarrow> e_key (ents ! j) = None) \<and>
    (\<forall>i j k. i < length ents \<and> j < length ents \<and> e_key (ents ! i) = Some k \<and> e_key (ents ! j) = Some k \<longrightarrow> i = j)"

lemma table_okD:
  assumes "table_ok hash count b ents"
  shows "0 < count" "0 < b" "length ents = count * b"
    "\<And>i k. i < length ents \<Longrightarrow> e_key (ents ! i) = Some k \<Longrightarrow> i div b = home hash count k"
    "\<And>i j. i \<le> j \<Longrightarrow> j < length ents \<Longrightarrow> i div b = j div b \<Longrightarrow> e_key (ents ! i) = None \<Longrightarrow> e_key (ents ! j) = None"
    "\<And>i j k. i < length ents \<Longrightarrow> j < length ents \<Longrightarrow> e_key (ents ! i) = Some k \<Longrightarrow> e_key (ents ! j) = Some k \<Longrightarrow> i = j"
  using assms unfolding table_ok_def by blast+

definition lookup :: "('k, 'v) rdict_entry list \<Rightarrow> 'k \<Rightarrow> 'v option option" where
  "lookup ents k = map_option e_val (List.find (\<lambda>e. e_key e = Some k) ents)"

definition occupied :: "('k, 'v) rdict_entry list \<Rightarrow> nat" where
  "occupied ents = length (filter (\<lambda>e. e_key e \<noteq> None) ents)"

lemma lookup_None: "lookup ents k = None \<longleftrightarrow> (\<forall>i<length ents. e_key (ents ! i) \<noteq> Some k)"
  by (auto simp: lookup_def find_None_iff in_set_conv_nth)

lemma lookup_Some:
  assumes "table_ok hash count b ents"
  shows "lookup ents k = Some v \<longleftrightarrow> (\<exists>i<length ents. e_key (ents ! i) = Some k \<and> e_val (ents ! i) = v)"
proof
  assume "lookup ents k = Some v"
  then show "\<exists>i<length ents. e_key (ents ! i) = Some k \<and> e_val (ents ! i) = v"
    by (auto simp: lookup_def find_Some_iff)
next
  assume "\<exists>i<length ents. e_key (ents ! i) = Some k \<and> e_val (ents ! i) = v"
  then obtain i where i: "i < length ents" "e_key (ents ! i) = Some k" "e_val (ents ! i) = v" by blast
  then have "lookup ents k \<noteq> None" by (auto simp: lookup_None)
  then obtain e where e: "List.find (\<lambda>e. e_key e = Some k) ents = Some e" by (auto simp: lookup_def)
  then obtain j where "j < length ents" "e_key (ents ! j) = Some k" "e = ents ! j"
    by (auto simp: find_Some_iff)
  with table_okD(6) [OF assms this(1) i(1) this(2) i(2)] i e show "lookup ents k = Some v"
    by (simp add: lookup_def)
qed

lemma lookup_eqI:
  assumes "table_ok hash c b es" "table_ok hash' c' b' es'"
    and "\<And>k v. (\<exists>i<length es. e_key (es ! i) = Some k \<and> e_val (es ! i) = v) \<longleftrightarrow>
      (\<exists>i<length es'. e_key (es' ! i) = Some k \<and> e_val (es' ! i) = v)"
  shows "lookup es = lookup es'"
proof (rule ext)
  fix k
  show "lookup es k = lookup es' k"
  proof (cases "lookup es k")
    case None
    then have "lookup es' k = None" using assms(3) [of k] unfolding lookup_None by blast
    with None show ?thesis by simp
  next
    case (Some v)
    then have "lookup es' k = Some v"
      using assms(3) [of k v] unfolding lookup_Some [OF assms(1)] lookup_Some [OF assms(2)] by blast
    with Some show ?thesis by simp
  qed
qed

lemma occupied_update:
  assumes "i < length ents"
  shows "occupied (ents[i := e]) + (if e_key (ents ! i) = None then 0 else 1) =
    occupied ents + (if e_key e = None then 0 else 1)"
proof -
  define a c x where "a = take i ents" and "c = drop (Suc i) ents" and "x = ents ! i"
  have e: "ents = a @ x # c" using assms by (simp add: a_def c_def x_def id_take_nth_drop)
  have u: "ents[i := e] = a @ e # c" using assms by (simp add: a_def c_def upd_conv_take_nth_drop)
  have "occupied (ents[i := e]) = occupied a + occupied c + (if e_key e = None then 0 else 1)"
    unfolding u by (simp add: occupied_def)
  moreover have "occupied ents = occupied a + occupied c + (if e_key x = None then 0 else 1)"
    by (subst e) (simp add: occupied_def)
  ultimately show ?thesis by (simp add: x_def)
qed

lemma occupied_le: "occupied ents \<le> length ents"
  by (simp add: occupied_def)

section \<open>Walking through a bucket\<close>

lemma scan_Some:
  "scan eq ents key pos = Some p \<Longrightarrow> pos \<le> p \<and> p < length ents \<and>
    (case e_key (ents ! p) of None \<Rightarrow> True | Some k \<Rightarrow> eq k key) \<and>
    (\<forall>j. pos \<le> j \<and> j < p \<longrightarrow> (\<exists>k. e_key (ents ! j) = Some k \<and> \<not> eq k key))"
proof (induction eq ents key pos rule: scan.induct)
  case (1 eq ents key pos)
  show ?case
  proof (cases "e_key (ents ! pos)")
    case None
    with "1.prems" show ?thesis by (subst (asm) scan.simps) (auto split: if_splits)
  next
    case (Some k)
    show ?thesis
    proof (cases "eq k key")
      case True
      with "1.prems" Some show ?thesis by (subst (asm) scan.simps) (auto split: if_splits)
    next
      case False
      with "1.prems" Some have *: "pos < length ents" "scan eq ents key (pos + 1) = Some p"
        by (subst (asm) scan.simps; simp split: if_splits)+
      from "1.IH" [OF _ Some False *(2)] * have IH: "pos + 1 \<le> p" "p < length ents"
        "case e_key (ents ! p) of None \<Rightarrow> True | Some k \<Rightarrow> eq k key"
        "\<And>j. pos + 1 \<le> j \<Longrightarrow> j < p \<Longrightarrow> \<exists>k. e_key (ents ! j) = Some k \<and> \<not> eq k key" by auto
      have "\<exists>k. e_key (ents ! j) = Some k \<and> \<not> eq k key" if "pos \<le> j" "j < p" for j
        using IH(4) [of j] that Some False by (cases "j = pos") auto
      with IH(1-3) show ?thesis by simp
    qed
  qed
qed

lemma scan_None:
  "scan eq ents key pos = None \<Longrightarrow> pos \<le> j \<Longrightarrow> j < length ents \<Longrightarrow>
    \<exists>k. e_key (ents ! j) = Some k \<and> \<not> eq k key"
proof (induction eq ents key pos rule: scan.induct)
  case (1 eq ents key pos)
  then have "pos < length ents" by simp
  with "1.prems"(1) obtain k where k: "e_key (ents ! pos) = Some k" "\<not> eq k key"
    "scan eq ents key (pos + 1) = None"
    by (subst (asm) scan.simps) (auto split: option.splits if_splits)
  show ?case
  proof (cases "j = pos")
    case False
    with "1.IH" [OF _ k] "1.prems" \<open>pos < length ents\<close> show ?thesis by simp
  qed (use k in simp)
qed

lemma bucket_iff: "0 < b \<Longrightarrow> (i :: nat) div b = h \<longleftrightarrow> h * b \<le> i \<and> i < h * b + b"
  by (metis add.commute div_nat_eqI div_times_less_eq_dividend dividend_less_div_times mult.commute
      mult_Suc)

lemma bucket_inside: "h < count \<Longrightarrow> h * b + b \<le> count * (b :: nat)"
  by (metis Suc_leI add.commute mult_Suc mult_le_mono1)

lemma home_less: "0 < count \<Longrightarrow> home hash count k < count"
  by (simp add: home_def)

lemma table_scan_present:
  assumes "table_ok hash count b ents" "i < length ents" "e_key (ents ! i) = Some k"
  shows "scan (=) ents k (home hash count k * b) = Some i"
proof -
  note t = table_okD [OF assms(1)]
  have i: "home hash count k * b \<le> i" "i < home hash count k * b + b"
    using t(4) [OF assms(2,3)] t(2) by (simp_all add: bucket_iff)
  have "scan (=) ents k (home hash count k * b) \<noteq> None"
    using scan_None [of "(=)" ents k _ i] i assms by auto
  then obtain p where p: "scan (=) ents k (home hash count k * b) = Some p" by auto
  note sp = scan_Some [OF p]
  have "\<not> i < p" using sp i assms(3) by auto
  moreover have "\<not> p < i"
  proof
    assume "p < i"
    then have "p div b = i div b"
      using sp i t(2) bucket_iff [of b p "home hash count k"] bucket_iff [of b i "home hash count k"] by simp
    moreover have "e_key (ents ! p) \<noteq> None"
      using t(5) [of p i] \<open>p < i\<close> assms calculation by auto
    then have "e_key (ents ! p) = Some k" using sp by auto
    then show False using t(6) [of p i k] sp assms \<open>p < i\<close> by simp
  qed
  ultimately show ?thesis using p by simp
qed

lemma table_scan_absent:
  assumes "\<forall>i<length ents. e_key (ents ! i) \<noteq> Some k" "scan (=) ents k s = Some p"
  shows "e_key (ents ! p) = None"
  using scan_Some [OF assms(2)] assms(1) by (auto split: option.splits)

lemma table_put:
  fixes v :: "'v option"
  assumes "table_ok hash count b ents" "p < length ents" "p div b = home hash count k"
    and "e_key (ents ! p) = Some k \<or> e_key (ents ! p) = None \<and> lookup ents k = None \<and>
      (\<forall>j. home hash count k * b \<le> j \<and> j < p \<longrightarrow> e_key (ents ! j) \<noteq> None)"
  defines "ents' \<equiv> ents[p := \<lparr>e_key = Some k, e_val = v\<rparr>]"
  shows "table_ok hash count b ents'" "lookup ents' = (lookup ents)(k := Some v)"
proof -
  note t = table_okD [OF assms(1)]
  have nth: "ents' ! i = (if i = p then \<lparr>e_key = Some k, e_val = v\<rparr> else ents ! i)" if "i < length ents" for i
    using that by (simp add: ents'_def)
  have len: "length ents' = length ents" by (simp add: ents'_def)
  have only: "i = p" if "i < length ents" "e_key (ents ! i) = Some k" for i
    using assms(4) t(6) [OF that(1) assms(2) that(2)] that by (auto simp: lookup_None)
  show ok: "table_ok hash count b ents'"
    unfolding table_ok_def len
  proof (intro conjI allI impI)
    fix i j
    assume *: "i \<le> j \<and> j < length ents \<and> i div b = j div b \<and> e_key (ents' ! i) = None"
    then have i: "i \<noteq> p" "e_key (ents ! i) = None" by (auto simp: nth split: if_splits)
    have "j \<noteq> p"
    proof
      assume "j = p"
      then have "i div b = home hash count k" "i < p" using * i(1) assms(3) by auto
      then have "home hash count k * b \<le> i" using t(2) bucket_iff by blast
      then show False using assms(4) i * \<open>i < p\<close> \<open>j = p\<close> t(5) [of i p] by auto
    qed
    with * i t(5) [of i j] show "e_key (ents' ! j) = None" by (simp add: nth)
  next
    fix i j k'
    assume *: "i < length ents \<and> j < length ents \<and> e_key (ents' ! i) = Some k' \<and> e_key (ents' ! j) = Some k'"
    show "i = j"
    proof (cases "k' = k")
      case True
      have "i = p" "j = p" using * True only [of i] only [of j] nth [of i] nth [of j] by (auto split: if_splits)
      then show ?thesis by simp
    next
      case False
      then have "e_key (ents ! i) = Some k'" "e_key (ents ! j) = Some k'"
        using * nth [of i] nth [of j] by (auto split: if_splits)
      with t(6) [of i j k'] * show ?thesis by simp
    qed
  next
    fix i k'
    assume "i < length ents \<and> e_key (ents' ! i) = Some k'"
    then show "i div b = home hash count k'" using t(4) [of i k'] assms(3) nth [of i] by (auto split: if_splits)
  qed (use t(1-3) in simp_all)
  show "lookup ents' = (lookup ents)(k := Some v)"
  proof
    fix k'
    show "lookup ents' k' = ((lookup ents)(k := Some v)) k'"
    proof (cases "k' = k")
      case True
      have "lookup ents' k = Some v"
        unfolding lookup_Some [OF ok] len using assms(2) nth by (intro exI [of _ p]) simp
      with True show ?thesis by simp
    next
      case False
      have "lookup ents' k' = lookup ents k'"
      proof (cases "lookup ents k'")
        case None
        then have "lookup ents' k' = None" unfolding lookup_None len using False by (auto simp: nth)
        with None show ?thesis by simp
      next
        case (Some w)
        then obtain i where i: "i < length ents" "e_key (ents ! i) = Some k'" "e_val (ents ! i) = w"
          unfolding lookup_Some [OF assms(1)] by blast
        have "i \<noteq> p" using i assms(4) False by auto
        then have "lookup ents' k' = Some w"
          unfolding lookup_Some [OF ok] len using i by (intro exI [of _ i]) (simp add: nth)
        with Some show ?thesis by simp
      qed
      with False show ?thesis by simp
    qed
  qed
qed

lemma last_behind_Some:
  "last_behind ents hole n = Some i \<Longrightarrow> hole < i \<and> i \<le> hole + n \<and> e_key (ents ! i) \<noteq> None \<and>
    (\<forall>j. i < j \<and> j \<le> hole + n \<longrightarrow> e_key (ents ! j) = None)"
proof (induction n)
  case (Suc n)
  show ?case
  proof (cases "e_key (ents ! (hole + Suc n)) = None")
    case True
    with Suc have IH: "hole < i" "i \<le> hole + n" "e_key (ents ! i) \<noteq> None"
      "\<And>j. i < j \<Longrightarrow> j \<le> hole + n \<Longrightarrow> e_key (ents ! j) = None" by auto
    have "e_key (ents ! j) = None" if "i < j" "j \<le> hole + Suc n" for j
      using IH(4) [of j] that True by (cases "j = hole + Suc n") auto
    with IH show ?thesis by simp
  qed (use Suc.prems in auto)
qed simp

lemma last_behind_None:
  "last_behind ents hole n = None \<Longrightarrow> hole < j \<Longrightarrow> j \<le> hole + n \<Longrightarrow> e_key (ents ! j) = None"
proof (induction n)
  case (Suc n)
  then show ?case by (cases "j = hole + Suc n") (auto split: if_splits)
qed simp

lemma table_remove:
  fixes ents :: "('k, 'v) rdict_entry list"
  assumes "table_ok hash count b ents" "pos < length ents" "e_key (ents ! pos) = Some k"
  defines "fin \<equiv> home hash count k * b + (b - 1)"
  defines "ents1 \<equiv> ents[pos := empty_entry]"
  defines "ents2 \<equiv> (case last_behind ents1 pos (fin - pos) of
      None \<Rightarrow> ents1 | Some i \<Rightarrow> ents1[pos := ents1 ! i, i := empty_entry])"
  shows "table_ok hash count b ents2" "lookup ents2 = (lookup ents)(k := None)"
    "occupied ents2 + 1 = occupied ents"
    "\<forall>j<length ents. e_key (ents ! j) = None \<longrightarrow> e_key (ents2 ! j) = None" "length ents2 = length ents"
proof -
  note t = table_okD [OF assms(1)]
  have pos: "home hash count k * b \<le> pos" "pos \<le> fin" "pos div b = home hash count k"
    using t(4) [OF assms(2,3)] t(2) bucket_iff [of b pos "home hash count k"] by (auto simp: fin_def)
  have fin: "fin < length ents"
    using bucket_inside [OF home_less [OF t(1)], of hash k b] t(2,3) by (simp add: fin_def)
  have same: "j div b = pos div b \<longleftrightarrow> home hash count k * b \<le> j \<and> j \<le> fin" for j
    using t(2) bucket_iff [of b j "home hash count k"] pos(3) by (auto simp: fin_def)
  have e1: "ents1 ! j = ents ! j" if "j \<noteq> pos" for j using that by (simp add: ents1_def)
  obtain m where m: "m = pos \<or> pos < m" "m \<le> fin" "m = pos \<or> e_key (ents ! m) \<noteq> None"
    "\<And>j. m < j \<Longrightarrow> j \<le> fin \<Longrightarrow> e_key (ents ! j) = None"
    "ents2 = ents[pos := ents ! m, m := empty_entry]"
  proof (cases "last_behind ents1 pos (fin - pos)")
    case None
    then have "e_key (ents ! j) = None" if "pos < j" "j \<le> fin" for j
      using last_behind_None [OF None, of j] that pos e1 [of j] by simp
    then show ?thesis
      by (intro that [of pos]) (use None pos in \<open>auto simp: ents2_def ents1_def\<close>)
  next
    case (Some i)
    note l = last_behind_Some [OF Some]
    have i: "pos < i" "i \<le> fin" "e_key (ents ! i) \<noteq> None" using l pos e1 [of i] by auto
    have "e_key (ents ! j) = None" if "i < j" "j \<le> fin" for j
      using l that i pos e1 [of j] by auto
    then show ?thesis
      by (intro that [of i]) (use Some i e1 [of i] in \<open>auto simp: ents2_def ents1_def list_update_swap\<close>)
  qed
  have nth: "ents2 ! j = (if j = m then empty_entry else if j = pos then ents ! m else ents ! j)" if "j < length ents" for j
    using that assms(2) by (auto simp: m(5) nth_list_update)
  show len: "length ents2 = length ents" by (simp add: m(5))
  have mb: "m div b = pos div b" "m < length ents" using same [of m] m(1,2) pos fin by auto
  have src: "\<exists>n<length ents. ents ! n = ents2 ! j \<and> n \<noteq> pos \<and> n div b = j div b \<and> (n = j \<and> j \<noteq> pos \<or> n = m \<and> j = pos) \<and> j \<noteq> m"
    if "j < length ents" "e_key (ents2 ! j) = Some k'" for j k'
  proof (cases "j = pos")
    case True
    then have "m \<noteq> pos" using that nth [of j] by (auto simp: empty_entry_def)
    with True that mb nth [of j] show ?thesis by (intro exI [of _ m]) auto
  next
    case False
    then have "j \<noteq> m" using that nth [of j] by (auto simp: empty_entry_def)
    with False that nth [of j] show ?thesis by (intro exI [of _ j]) auto
  qed
  show empt: "\<forall>j<length ents. e_key (ents ! j) = None \<longrightarrow> e_key (ents2 ! j) = None"
    using nth assms(3) by (auto simp: empty_entry_def)
  show ok: "table_ok hash count b ents2"
    unfolding table_ok_def len
  proof (intro conjI allI impI)
    fix i k'
    assume "i < length ents \<and> e_key (ents2 ! i) = Some k'"
    then show "i div b = home hash count k'" using src [of i k'] t(4) by metis
  next
    fix i j
    assume *: "i \<le> j \<and> j < length ents \<and> i div b = j div b \<and> e_key (ents2 ! i) = None"
    show "e_key (ents2 ! j) = None"
    proof (cases "i = m")
      case True
      then have "j = m \<or> m < j \<and> j \<le> fin" using * mb same [of j] by auto
      then show ?thesis
      proof
        assume "m < j \<and> j \<le> fin"
        then show ?thesis using m(4) [of j] empt * by auto
      qed (use nth [of j] * in \<open>simp add: empty_entry_def\<close>)
    next
      case False
      then have "i \<noteq> pos \<or> m = pos" "e_key (ents ! i) = None"
        using * nth [of i] m(3) by (auto split: if_splits)
      with * t(5) [of i j] empt show ?thesis by auto
    qed
  next
    fix i j k'
    assume *: "i < length ents \<and> j < length ents \<and> e_key (ents2 ! i) = Some k' \<and> e_key (ents2 ! j) = Some k'"
    then obtain n n' where "n < length ents" "ents ! n = ents2 ! i" "n = i \<and> i \<noteq> pos \<or> n = m \<and> i = pos" "i \<noteq> m"
      "n' < length ents" "ents ! n' = ents2 ! j" "n' = j \<and> j \<noteq> pos \<or> n' = m \<and> j = pos" "j \<noteq> m"
      using src [of i k'] src [of j k'] by blast
    with * t(6) [of n n' k'] show "i = j" by auto
  qed (use t(1-3) in simp_all)
  show "lookup ents2 = (lookup ents)(k := None)"
  proof
    fix k'
    show "lookup ents2 k' = ((lookup ents)(k := None)) k'"
    proof (cases "lookup ents2 k'")
      case (Some w)
      then obtain j where j: "j < length ents" "e_key (ents2 ! j) = Some k'" "e_val (ents2 ! j) = w"
        unfolding lookup_Some [OF ok] len by blast
      then obtain n where n: "n < length ents" "ents ! n = ents2 ! j" "n \<noteq> pos" using src by blast
      then have "k' \<noteq> k" using t(6) [OF n(1) assms(2), of k] j assms(3) by auto
      moreover have "lookup ents k' = Some w"
        unfolding lookup_Some [OF assms(1)] using n j by auto
      ultimately show ?thesis using Some by simp
    next
      case None
      have "lookup ents k' = None" if "k' \<noteq> k"
      proof (rule ccontr)
        assume "lookup ents k' \<noteq> None"
        then obtain n where n: "n < length ents" "e_key (ents ! n) = Some k'" by (auto simp: lookup_None)
        then have "n \<noteq> pos" using assms(3) that by auto
        then have "e_key (ents2 ! (if n = m then pos else n)) = Some k'"
          using n nth [of n] nth [of pos] assms(2) by auto
        then show False using None n(1) assms(2) by (auto simp: lookup_None len split: if_splits)
      qed
      with None show ?thesis by simp
    qed
  qed
  have "occupied ents1 + 1 = occupied ents"
    using occupied_update [OF assms(2), of empty_entry] assms(3) by (simp add: ents1_def empty_entry_def)
  moreover have "occupied ents2 = occupied ents1"
  proof (cases "m = pos")
    case False
    let ?e = "ents[pos := ents ! m]"
    have "occupied ?e = occupied ents"
      using occupied_update [OF assms(2), of "ents ! m"] assms(3) m(3) False by auto
    moreover have "occupied ents2 + 1 = occupied ?e"
      using occupied_update [of m ?e empty_entry] mb(2) m(3,5) False by (auto simp: empty_entry_def)
    ultimately show ?thesis using \<open>occupied ents1 + 1 = occupied ents\<close> by simp
  qed (simp add: m(5) ents1_def)
  ultimately show "occupied ents2 + 1 = occupied ents" by simp
qed

lemma table_scan_to:
  fixes ents :: "('k, 'v) rdict_entry list" and k :: 'k
  assumes "table_ok hash count b ents"
  defines "s \<equiv> home hash count k * b"
  shows "scan_to (=) ents k s (s + (b - 1)) =
    Some (if lookup ents k = None then None else scan (=) ents k s)"
proof -
  note t = table_okD [OF assms(1)]
  have in_table: "s + b \<le> length ents"
    using bucket_inside [OF home_less [OF t(1)], of hash k b] t(3) by (simp add: s_def)
  have walk: "scan_to (=) ents k pos (s + (b - 1)) =
      Some (if lookup ents k = None then None else scan (=) ents k pos)"
    if "s \<le> pos" "pos \<le> s + (b - 1)" "\<forall>j. s \<le> j \<and> j < pos \<longrightarrow> (\<exists>k'. e_key (ents ! j) = Some k' \<and> k' \<noteq> k)" for pos
    using that
  proof (induction "s + b - pos" arbitrary: pos rule: less_induct)
    case less
    have pos: "pos < length ents" using less.prems(2) in_table t(2) by simp
    have inb: "j div b = home hash count k \<longleftrightarrow> s \<le> j \<and> j < s + b" for j
      using t(2) bucket_iff by (simp add: s_def)
    show ?case
    proof (cases "e_key (ents ! pos)")
      case None
      have "e_key (ents ! i) \<noteq> Some k" if "i < length ents" for i
      proof
        assume *: "e_key (ents ! i) = Some k"
        then have "s \<le> i" "i < s + b" using t(4) [OF that *] inb by auto
        moreover have "\<not> i < pos" using less.prems(3) * calculation(1) by auto
        moreover have "pos div b = i div b" using inb [of pos] inb [of i] less.prems(1,2) t(2) calculation by simp
        ultimately show False using t(5) [of pos i] that None * by simp
      qed
      with None pos show ?thesis
        by (subst scan_to.simps) (simp add: lookup_None)
    next
      case (Some k')
      show ?thesis
      proof (cases "k' = k")
        case True
        then have "lookup ents k \<noteq> None" using Some pos by (auto simp: lookup_None)
        with Some True pos show ?thesis by (subst scan_to.simps, subst scan.simps) auto
      next
        case False
        show ?thesis
        proof (cases "pos = s + (b - 1)")
          case True
          have "e_key (ents ! i) \<noteq> Some k" if "i < length ents" for i
          proof
            assume *: "e_key (ents ! i) = Some k"
            then have "s \<le> i" "i < s + b" using t(4) [OF that *] inb by auto
            then show False using less.prems(3) * Some False True by (cases "i = pos") auto
          qed
          with Some False True pos show ?thesis by (subst scan_to.simps) (simp add: lookup_None)
        next
          case nf: False
          have "scan_to (=) ents k (pos + 1) (s + (b - 1)) =
              Some (if lookup ents k = None then None else scan (=) ents k (pos + 1))"
          proof (rule less.hyps)
            show "s + b - (pos + 1) < s + b - pos" using less.prems(2) t(2) by simp
            show "\<forall>j. s \<le> j \<and> j < pos + 1 \<longrightarrow> (\<exists>k'. e_key (ents ! j) = Some k' \<and> k' \<noteq> k)"
              using less.prems(3) Some False by (auto simp: less_Suc_eq)
          qed (use less.prems nf in auto)
          with Some False nf pos show ?thesis by (subst scan_to.simps, subst scan.simps) simp
        qed
      qed
    qed
  qed
  show ?thesis by (rule walk) auto
qed

section \<open>Rehashing\<close>

lemma free_cell_Some:
  "free_cell ents pos n = Some (Some p) \<Longrightarrow> pos \<le> p \<and> p \<le> pos + n \<and> p < length ents \<and>
    e_key (ents ! p) = None \<and> (\<forall>j. pos \<le> j \<and> j < p \<longrightarrow> e_key (ents ! j) \<noteq> None)"
proof (induction ents pos n rule: free_cell.induct)
  case (1 ents pos n)
  show ?case
  proof (cases "pos < length ents \<and> e_key (ents ! pos) \<noteq> None")
    case True
    then obtain m where n: "n = Suc m" "free_cell ents (pos + 1) m = Some (Some p)"
      using "1.prems" by (subst (asm) free_cell.simps) (auto split: nat.splits if_splits)
    from "1.IH" [OF _ _ n] True have IH: "pos + 1 \<le> p" "p \<le> pos + 1 + m" "p < length ents"
      "e_key (ents ! p) = None" "\<And>j. pos + 1 \<le> j \<Longrightarrow> j < p \<Longrightarrow> e_key (ents ! j) \<noteq> None" by auto
    have "e_key (ents ! j) \<noteq> None" if "pos \<le> j" "j < p" for j
      using IH(5) [of j] that True by (cases "j = pos") auto
    with IH n show ?thesis by auto
  qed (use "1.prems" in \<open>subst (asm) free_cell.simps, auto split: if_splits\<close>)
qed

lemma free_cell_inside:
  "pos + n < length ents \<Longrightarrow> free_cell ents pos n \<noteq> None"
proof (induction ents pos n rule: free_cell.induct)
  case (1 ents pos n)
  then show ?case by (subst free_cell.simps) (auto split: nat.splits)
qed

text \<open>The part of the old table that has been moved: its first \<open>i\<close> cells.\<close>

lemma rehash_spec:
  assumes "table_ok hash c0 b old" "0 < count"
  shows "table_ok hash count b new \<Longrightarrow> i \<le> length old \<Longrightarrow>
    (\<forall>k v. (\<exists>j<length new. e_key (new ! j) = Some k \<and> e_val (new ! j) = v) \<longleftrightarrow>
      (\<exists>j<i. e_key (old ! j) = Some k \<and> e_val (old ! j) = v)) \<Longrightarrow>
    occupied new = occupied (take i old) \<Longrightarrow>
    \<exists>r. rehash hash count b old (length old) i new = Some r \<and>
      (case r of None \<Rightarrow> True | Some new' \<Rightarrow> table_ok hash count b new' \<and> lookup new' = lookup old \<and>
        length new' = length new \<and> occupied new' = occupied old)"
proof (induction "length old - i" arbitrary: i new rule: less_induct)
  case less
  note t = table_okD [OF assms(1)] and tn = table_okD [OF less.prems(1)]
  show ?case
  proof (cases "i = length old")
    case True
    have "lookup new = lookup old"
      using less.prems(3) True by (intro lookup_eqI [OF less.prems(1) assms(1)]) simp
    with True less.prems show ?thesis by (subst rehash.simps) simp
  next
    case False
    then have i: "i < length old" using less.prems(2) by simp
    show ?thesis
    proof (cases "e_key (old ! i)")
      case None
      let ?j = "(i div b + 1) * b"
      have gt: "i < ?j" using t(2) by (rule next_bucket_gt)
      have le: "?j \<le> length old"
      proof -
        have "i div b < c0" using i t(2,3) by (simp add: less_mult_imp_div_less)
        then show ?thesis using t(3) by (metis Suc_eq_plus1 Suc_leI mult_le_mono1)
      qed
      have skip: "e_key (old ! j) = None" if "i \<le> j" "j < ?j" for j
      proof (rule t(5) [of i j])
        have "i div b * b \<le> j" using that(1) div_times_less_eq_dividend [of i b] by linarith
        moreover have "j < i div b * b + b" using that(2) by (simp add: algebra_simps)
        ultimately have "j div b = i div b" using t(2) bucket_iff [of b j "i div b"] by blast
        then show "i div b = j div b" by simp
      qed (use that le None in auto)
      have "occupied (take ?j old) = occupied (take i old)"
      proof -
        have "take ?j old = take i old @ take (?j - i) (drop i old)" using gt by (simp flip: take_add)
        moreover have "occupied (take (?j - i) (drop i old)) = 0"
        proof -
          have "e_key e = None" if mem: "e \<in> set (take (?j - i) (drop i old))" for e
          proof -
            obtain n where "n < ?j - i" "n < length old - i" "e = old ! (i + n)"
              using mem le by (auto simp: in_set_conv_nth)
            then show ?thesis using skip [of "i + n"] by simp
          qed
          then show ?thesis unfolding occupied_def by (simp add: filter_empty_conv del: not_None_eq)
        qed
        ultimately show ?thesis by (simp add: occupied_def)
      qed
      moreover have "(\<exists>j<?j. e_key (old ! j) = Some k \<and> e_val (old ! j) = v) \<longleftrightarrow>
          (\<exists>j<i. e_key (old ! j) = Some k \<and> e_val (old ! j) = v)" for k v
        using skip gt by (metis (no_types, lifting) less_le_trans less_or_eq_imp_le not_le_imp_less option.distinct(1) order_less_imp_le)
      ultimately have "\<exists>r. rehash hash count b old (length old) ?j new = Some r \<and>
          (case r of None \<Rightarrow> True | Some new' \<Rightarrow> table_ok hash count b new' \<and> lookup new' = lookup old \<and>
        length new' = length new \<and> occupied new' = occupied old)"
        using less.prems(1,3,4) gt le i by (intro less.hyps) auto
      with None i t(2) show ?thesis by (subst rehash.simps) simp
    next
      case (Some k)
      let ?s = "home hash count k * b"
      have start: "find_bucket_raw hash k count b = Some ?s"
        using assms(2) by (simp add: find_bucket_raw_def home_def)
      have inb: "?s + b \<le> length new" using bucket_inside [OF home_less [OF assms(2)], of hash k b] tn(3) by simp
      obtain cell where cell: "free_cell new ?s (b - 1) = Some cell"
      proof -
        have "?s + (b - 1) < length new" using inb t(2) by linarith
        from free_cell_inside [OF this] show ?thesis using that by blast
      qed
      show ?thesis
      proof (cases cell)
        case None
        with Some i start cell t(2) show ?thesis by (subst rehash.simps) simp
      next
        case (Some p)
        note fc = free_cell_Some [OF cell [unfolded Some]]
        have old_i: "old ! i = \<lparr>e_key = e_key (old ! i), e_val = e_val (old ! i)\<rparr>" by simp
        have upd: "new[p := old ! i] = new[p := \<lparr>e_key = Some k, e_val = e_val (old ! i)\<rparr>]"
          using \<open>e_key (old ! i) = Some k\<close> by (metis old_i)
        have fresh: "e_key (old ! j) \<noteq> Some k" if "j < i" for j
          using t(6) [of j i k] i \<open>e_key (old ! i) = Some k\<close> that by auto
        then have absent: "lookup new k = None"
          unfolding lookup_None using less.prems(3) by blast
        have "p div b = home hash count k" using fc t(2) bucket_iff [of b p "home hash count k"] by auto
        then have put: "table_ok hash count b (new[p := old ! i])"
          "lookup (new[p := old ! i]) = (lookup new)(k := Some (e_val (old ! i)))"
          unfolding upd using fc absent by (intro table_put [OF less.prems(1)]; simp)+
        have src: "(\<exists>j<length new. e_key (new[p := old ! i] ! j) = Some k' \<and> e_val (new[p := old ! i] ! j) = v) \<longleftrightarrow>
            (\<exists>j<i + 1. e_key (old ! j) = Some k' \<and> e_val (old ! j) = v)" for k' v
        proof -
          have "(\<exists>j<length new. e_key (new[p := old ! i] ! j) = Some k' \<and> e_val (new[p := old ! i] ! j) = v) \<longleftrightarrow>
              lookup (new[p := old ! i]) k' = Some v"
            using lookup_Some [OF put(1), of k' v] by simp
          also have "\<dots> \<longleftrightarrow> (k' = k \<and> e_val (old ! i) = v) \<or> (k' \<noteq> k \<and> lookup new k' = Some v)"
            by (auto simp: put(2))
          also have "lookup new k' = Some v \<longleftrightarrow> (\<exists>j<i. e_key (old ! j) = Some k' \<and> e_val (old ! j) = v)"
            unfolding lookup_Some [OF less.prems(1)] using less.prems(3) by simp
          finally show ?thesis
            using \<open>e_key (old ! i) = Some k\<close> fresh by (auto simp: less_Suc_eq)
        qed
        have "occupied (new[p := old ! i]) = occupied new + 1"
          using occupied_update [of p new "old ! i"] fc \<open>e_key (old ! i) = Some k\<close> by simp
        moreover have "occupied (take (i + 1) old) = occupied (take i old) + 1"
          using i \<open>e_key (old ! i) = Some k\<close> by (simp add: take_Suc_conv_app_nth occupied_def)
        ultimately have occ: "occupied (new[p := old ! i]) = occupied (take (i + 1) old)"
          using less.prems(4) by simp
        have "\<exists>r. rehash hash count b old (length old) (i + 1) (new[p := old ! i]) = Some r \<and>
          (case r of None \<Rightarrow> True | Some new' \<Rightarrow> table_ok hash count b new' \<and> lookup new' = lookup old \<and>
            length new' = length (new[p := old ! i]) \<and> occupied new' = occupied old)"
        proof (rule less.hyps [OF _ put(1) _ _ occ])
          show "\<forall>k v. (\<exists>j<length (new[p := old ! i]). e_key (new[p := old ! i] ! j) = Some k \<and> e_val (new[p := old ! i] ! j) = v) \<longleftrightarrow>
            (\<exists>j<i + 1. e_key (old ! j) = Some k \<and> e_val (old ! j) = v)"
            unfolding length_list_update using src by blast
        qed (use i in auto)
        with \<open>e_key (old ! i) = Some k\<close> Some i start cell t(2) show ?thesis
          by (subst rehash.simps) (simp cong: option.case_cong)
      qed
    qed
  qed
qed

lemma empty_table_ok:
  "0 < count \<Longrightarrow> 0 < b \<Longrightarrow> table_ok hash count b (replicate (count * b) empty_entry)"
  by (auto simp: table_ok_def empty_entry_def)

lemma rehash_all:
  fixes old :: "('k, 'v) rdict_entry list"
  assumes "table_ok hash c0 b old" "0 < count"
  shows "\<exists>r. rehash hash count b old (length old) 0 (replicate (count * b) empty_entry) = Some r \<and>
      (case r of None \<Rightarrow> True | Some new' \<Rightarrow> table_ok hash count b new' \<and> lookup new' = lookup old \<and>
        length new' = count * b \<and> occupied new' = occupied old)"
proof -
  let ?n = "replicate (count * b) (empty_entry :: ('k, 'v) rdict_entry)"
  have "table_ok hash count b ?n" using assms(2) table_okD(2) [OF assms(1)] by (rule empty_table_ok)
  moreover have "\<forall>k v. (\<exists>j<length ?n. e_key (?n ! j) = Some k \<and> e_val (?n ! j) = v) \<longleftrightarrow>
      (\<exists>j<0. e_key (old ! j) = Some k \<and> e_val (old ! j) = v)"
    by (auto simp: empty_entry_def)
  moreover have "occupied ?n = occupied (take 0 old)" by (simp add: occupied_def empty_entry_def)
  ultimately show ?thesis
    using rehash_spec [OF assms, of ?n 0] by (simp cong: option.case_cong)
qed

section \<open>The new capacity\<close>

text \<open>Rounding to \<open>float\<close> moves a number by less than one part in \<open>2 ^ 23\<close>.\<close>

lemma floorlog_unit:
  assumes "2 ^ 23 \<le> n"
  shows "2 ^ 23 * 2 ^ (floorlog 2 n - 24) \<le> (n :: nat)"
proof -
  let ?l = "floorlog 2 n"
  have n: "n > 0" using assms by (metis gr0I not_numeral_le_zero power_eq_0_iff le_zero_eq zero_neq_numeral)
  have "2 ^ (?l - 1) \<le> n" using floorlog_bounds [of n 2] n by simp
  moreover have "24 \<le> ?l"
    using floorlog_ge_SucI [of 2 23 n] assms by simp
  then have "2 ^ 23 * 2 ^ (?l - 24) = (2 ^ (?l - 1) :: nat)"
    by (simp only: power_add [symmetric]) (rule arg_cong [where f = "\<lambda>x. 2 ^ x"], simp)
  ultimately show ?thesis by simp
qed

lemma round_bounds:
  fixes n u q r :: nat
  assumes "n = q * (m * u) + r" "r < m * u"
  shows "m * ((if P then q else q + 1) * u) \<le> n + m * u" "n < m * ((if P then q else q + 1) * u) + m * u"
  using assms by (auto simp: algebra_simps)

lemma round_f32_bounds:
  "2 ^ 23 * round_f32 n \<le> (2 ^ 23 + 1) * n" "2 ^ 23 * n \<le> 2 ^ 23 * round_f32 n + n"
proof -
  let ?u = "2 ^ (floorlog 2 n - 24) :: nat"
  have b: "round_f32 n \<le> n + ?u \<and> n < round_f32 n + ?u" if "\<not> n < 2 ^ 24"
  proof -
    let ?P = "n mod ?u < 2 ^ (floorlog 2 n - 24 - 1) \<or>
      n mod ?u = 2 ^ (floorlog 2 n - 24 - 1) \<and> even (n div ?u)"
    have "round_f32 n = (if ?P then n div ?u else n div ?u + 1) * ?u"
      unfolding round_f32_def Let_def using that by (simp only: if_False)
    with round_bounds [of n "n div ?u" 1 ?u "n mod ?u" ?P] show ?thesis
      by (simp only: nat_mult_1 div_mult_mod_eq mod_less_divisor zero_less_power zero_less_numeral)
  qed
  have u: "2 ^ 23 * ?u \<le> n" if "\<not> n < 2 ^ 24" using that by (intro floorlog_unit) simp
  show "2 ^ 23 * round_f32 n \<le> (2 ^ 23 + 1) * n"
  proof (cases "n < 2 ^ 24")
    case True then show ?thesis by (simp add: round_f32_def)
  next
    case False
    from b [OF False] u [OF False] show ?thesis by (simp add: algebra_simps)
  qed
  show "2 ^ 23 * n \<le> 2 ^ 23 * round_f32 n + n"
  proof (cases "n < 2 ^ 24")
    case True then show ?thesis by (simp add: round_f32_def)
  next
    case False
    from b [OF False] u [OF False] show ?thesis by (simp add: algebra_simps)
  qed
qed

lemma scale_capacity_bounds:
  "c \<le> scale_capacity c" "scale_capacity c \<le> 2 * c"
proof -
  let ?p = "4 * round_f32 c"
  let ?u = "2 ^ (floorlog 2 (?p div 3) - 24) :: nat"
  have f: "2 ^ 23 * ?p \<le> (2 ^ 23 + 1) * (4 * c)" "2 ^ 23 * (4 * c) \<le> 2 ^ 23 * ?p + 4 * c"
    using round_f32_bounds [of c] by simp_all
  have big: "3 * scale_capacity c \<le> ?p + 3 * ?u \<and> ?p < 3 * scale_capacity c + 3 * ?u \<and> 2 ^ 23 * (3 * ?u) \<le> ?p"
    if "\<not> ?p < 3 * 2 ^ 23"
  proof -
    have "2 ^ 23 * ?u \<le> ?p div 3" using that by (intro floorlog_unit) simp
    then have "2 ^ 23 * (3 * ?u) \<le> ?p" by linarith
    moreover have "3 * scale_capacity c \<le> ?p + 3 * ?u \<and> ?p < 3 * scale_capacity c + 3 * ?u"
    proof -
      let ?P = "2 * (?p mod (3 * ?u)) < 3 * ?u \<or> 2 * (?p mod (3 * ?u)) = 3 * ?u \<and> even (?p div (3 * ?u))"
      have "scale_capacity c = (if ?P then ?p div (3 * ?u) else ?p div (3 * ?u) + 1) * ?u"
        unfolding scale_capacity_def Let_def using that by (simp only: if_False)
      moreover have "?p mod (3 * ?u) < 3 * ?u" by simp
      ultimately show ?thesis
        using round_bounds [of ?p "?p div (3 * ?u)" 3 ?u "?p mod (3 * ?u)" ?P]
        by (simp only: div_mult_mod_eq)
    qed
    ultimately show ?thesis by blast
  qed
  have small: "scale_capacity c = 4 * c div 3" if "?p < 3 * 2 ^ 23"
  proof -
    have "c < 2 ^ 24" using that f(2) by simp
    with that show ?thesis by (simp add: scale_capacity_def Let_def round_f32_def)
  qed
  show "c \<le> scale_capacity c"
  proof (cases "?p < 3 * 2 ^ 23")
    case True
    then show ?thesis using small by linarith
  next
    case False
    from big [OF False] f show ?thesis by (simp add: algebra_simps)
  qed
  show "scale_capacity c \<le> 2 * c"
  proof (cases "?p < 3 * 2 ^ 23")
    case True
    then show ?thesis using small by linarith
  next
    case False
    from big [OF False] f show ?thesis by (simp add: algebra_simps)
  qed
qed

lemma expand_capacity_bounds:
  "0 < c \<Longrightarrow> c \<le> 2 ^ 29 \<Longrightarrow> c < expand_capacity c \<and> expand_capacity c \<le> 2 ^ 30"
  by (simp add: expand_capacity_def)

section \<open>The dictionary as a map\<close>

text \<open>
  The abstraction: an optional value for every key, the null key included.  \<open>dict_ok\<close> is the
  invariant, for a table of at most \<open>B\<close> entries.
\<close>

definition dict_abs :: "('k, 'v) rdict \<Rightarrow> 'k option \<Rightarrow> 'v option option" where
  "dict_abs d key = (case key of
     None \<Rightarrow> map_option e_val (d_null d)
   | Some k \<Rightarrow> (case d_entry d of None \<Rightarrow> None | Some ents \<Rightarrow> lookup ents k))"

definition cells :: "('k, 'v) rdict \<Rightarrow> ('k, 'v) rdict_entry list" where
  "cells d = (case d_entry d of None \<Rightarrow> [] | Some ents \<Rightarrow> ents)"

definition dict_ok :: "nat \<Rightarrow> ('k, 'v) rdict \<Rightarrow> bool" where
  "dict_ok B d \<longleftrightarrow> B \<le> 2 ^ 28 \<and> d_entry d = Some (cells d) \<and> d_eq d = (=) \<and>
    table_ok (d_hash d) (d_buckets d) (d_bucket_capacity d) (cells d) \<and>
    d_capacity d = length (cells d) \<and> length (cells d) \<le> B \<and>
    (\<forall>k. copied_key d (Some k) = Some k) \<and>
    d_size d = occupied (cells d) + (if d_null d = None then 0 else 1)"

lemma dict_okD:
  assumes "dict_ok B d"
  shows "B \<le> 2 ^ 28" "d_entry d = Some (cells d)" "d_eq d = (=)"
    "table_ok (d_hash d) (d_buckets d) (d_bucket_capacity d) (cells d)"
    "d_capacity d = length (cells d)" "length (cells d) \<le> B" "copied_key d (Some k) = Some k"
    "d_size d = occupied (cells d) + (if d_null d = None then 0 else 1)"
    "dict_abs d (Some k) = lookup (cells d) k"
  using assms by (simp_all add: dict_ok_def dict_abs_def)

text \<open>The allocator refuses tables of more than \<open>B\<close> entries and always has room for one entry.\<close>

definition env_ok :: "nat \<Rightarrow> rdict_env \<Rightarrow> bool" where
  "env_ok B env \<longleftrightarrow> de_malloc_entry env \<and> (\<forall>n. de_calloc env n \<longrightarrow> n \<le> B)"

text \<open>What an operation leaves alone.\<close>

definition same_shape :: "('k, 'v) rdict \<Rightarrow> ('k, 'v) rdict \<Rightarrow> bool" where
  "same_shape d d' \<longleftrightarrow> d_hash d' = d_hash d \<and> d_bucket_capacity d' = d_bucket_capacity d \<and>
    d_copy_value d' = d_copy_value d \<and> d_buckets d \<le> d_buckets d'"

lemma same_shape_refl [intro!]: "same_shape d d"
  by (simp add: same_shape_def)

lemma same_shape_trans: "same_shape d d1 \<Longrightarrow> same_shape d1 d2 \<Longrightarrow> same_shape d d2"
  by (auto simp: same_shape_def)

lemma bucket_count_bounds:
  fixes c b :: nat
  assumes "0 < b"
  defines "n \<equiv> (if c mod b = 0 then c div b else c div b + 1)"
  shows "c \<le> n * b" "n * b < c + b"
proof -
  have e: "c div b * b + c mod b = c" and m: "c mod b < b" using assms by simp_all
  have n: "n * b = (if c mod b = 0 then c div b * b else c div b * b + b)"
    by (simp add: n_def add_mult_distrib)
  show "c \<le> n * b"
  proof (cases "c mod b = 0")
    case True
    then have "n * b = c div b * b" using n by simp
    with e True show ?thesis by linarith
  next
    case False
    then have "n * b = c div b * b + b" using n by simp
    with e m show ?thesis by linarith
  qed
  show "n * b < c + b"
  proof (cases "c mod b = 0")
    case True
    then show ?thesis using e assms n by simp
  next
    case False
    then have "n * b = c div b * b + b" "0 < c mod b" using n by simp_all
    with e show ?thesis by linarith
  qed
qed

lemma expand_buckets_spec:
  assumes "dict_ok B d" "env_ok B env"
  shows "0 < cap \<Longrightarrow> cap \<le> 2 ^ 30 \<Longrightarrow> \<exists>d' c. expand_buckets env d cap = Some (d', c) \<and>
    (c = rdict_code_error \<and> d' = d \<or>
     c = rdict_code_ok \<and> (length (cells d) \<le> cap \<longrightarrow> dict_ok B d' \<and> same_shape d d') \<and> dict_abs d' = dict_abs d \<and>
       cap \<le> length (cells d') \<and> d_null d' = d_null d \<and>
       d_freed_keys d' = d_freed_keys d \<and> d_freed_values d' = d_freed_values d)"
proof (induction "B + 1 - cap" arbitrary: cap rule: less_induct)
  case less
  note d = dict_okD [OF assms(1)] and t = table_okD [OF dict_okD(4) [OF assms(1)]]
  let ?b = "d_bucket_capacity d"
  let ?s = "scale_capacity cap"
  let ?n = "if ?s mod ?b = 0 then ?s div ?b else ?s div ?b + 1"
  have s: "cap \<le> ?s" "?s \<le> 2 * cap" by (rule scale_capacity_bounds)+
  then have s32: "?s < 2 ^ 32" "?s \<noteq> 0" using less.prems by auto
  note n = bucket_count_bounds [OF t(2), of ?s]
  have "0 < ?n" using n(1) s32(2) by (metis gr0I mult_0 le_zero_eq)
  have bB: "?b \<le> B" using t(1,3) d(6) by (metis Suc_leI le_trans mult_le_mono1 nat_mult_1 One_nat_def)
  have dest: "(?n * ?b) mod 2 ^ 32 = ?n * ?b" using n(2) s less.prems(2) bB d(1) by simp
  show ?case
  proof (cases "de_calloc env (?n * ?b)")
    case False
    with s32 dest t(2) show ?thesis
      by (subst expand_buckets.simps) (simp add: Let_def)
  next
    case True
    then have le: "?n * ?b \<le> B" using assms(2) by (simp add: env_ok_def)
    obtain r where r: "rehash (d_hash d) ?n ?b (cells d) (length (cells d)) 0
        (replicate (?n * ?b) empty_entry) = Some r"
      "case r of None \<Rightarrow> True | Some new' \<Rightarrow> table_ok (d_hash d) ?n ?b new' \<and> lookup new' = lookup (cells d) \<and>
        length new' = ?n * ?b \<and> occupied new' = occupied (cells d)"
      using rehash_all [OF d(4) \<open>0 < ?n\<close>] by blast
    have step: "expand_buckets env d cap =
        (case r of None \<Rightarrow> expand_buckets env d (expand_capacity ((?s * 2) mod 2 ^ 32))
         | Some new \<Rightarrow> Some (d\<lparr>d_entry := Some new, d_capacity := ?n * ?b, d_buckets := ?n\<rparr>, rdict_code_ok))"
      unfolding expand_buckets.simps [of env d cap] Let_def
      using s32 dest True t(2) d(2,5) r(1) by (simp split: option.splits)
    show ?thesis
    proof (cases r)
      case None
      have "?s \<le> 2 ^ 28" using n(1) le d(1) by simp
      then have m: "(?s * 2) mod 2 ^ 32 = ?s * 2" "?s * 2 \<le> 2 ^ 29" by simp_all
      have e: "?s * 2 < expand_capacity (?s * 2)" "expand_capacity (?s * 2) \<le> 2 ^ 30"
        using expand_capacity_bounds [OF _ m(2)] s32(2) by auto
      have "B + 1 - expand_capacity (?s * 2) < B + 1 - cap"
        using e(1) s(1) n(1) le less.prems(1) by simp
      from less.hyps [OF this _ e(2)] e(1) obtain d' c where
        *: "expand_buckets env d (expand_capacity (?s * 2)) = Some (d', c)"
        "c = rdict_code_error \<and> d' = d \<or>
         c = rdict_code_ok \<and> (length (cells d) \<le> expand_capacity (?s * 2) \<longrightarrow> dict_ok B d' \<and> same_shape d d') \<and> dict_abs d' = dict_abs d \<and>
         expand_capacity (?s * 2) \<le> length (cells d') \<and> d_null d' = d_null d \<and>
         d_freed_keys d' = d_freed_keys d \<and> d_freed_values d' = d_freed_values d" by auto
      then show ?thesis using e(1) s(1) unfolding step m(1) None by auto
    next
      case (Some new)
      let ?d = "d\<lparr>d_entry := Some new, d_capacity := ?n * ?b, d_buckets := ?n\<rparr>"
      have new: "table_ok (d_hash d) ?n ?b new" "lookup new = lookup (cells d)"
        "length new = ?n * ?b" "occupied new = occupied (cells d)" using r(2) Some by auto
      have cells: "cells ?d = new" by (simp add: cells_def)
      have "dict_ok B ?d"
        using new assms(1) le cells by (simp add: dict_ok_def copied_key_def)
      moreover have "d_buckets d \<le> ?n" if "length (cells d) \<le> cap"
      proof -
        have "d_buckets d * ?b \<le> ?n * ?b" using that s(1) n(1) t(3) by linarith
        then show ?thesis using t(2) by simp
      qed
      then have "length (cells d) \<le> cap \<Longrightarrow> same_shape d ?d" by (simp add: same_shape_def)
      moreover have "dict_abs ?d = dict_abs d"
        using new(2) d(2) by (auto simp: dict_abs_def split: option.splits)
      moreover have "cap \<le> length (cells ?d)" using cells new(3) n(1) s(1) by simp
      ultimately show ?thesis unfolding step Some
        by (intro exI [of _ ?d] exI [of _ rdict_code_ok]) simp
    qed
  qed
qed

text \<open>
  Whether a walk can leave the table: only when the last bucket is full.  \<open>spread\<close> says that the
  hash never sends as many keys of \<open>K\<close> to the last bucket as it has cells, whatever the number of
  buckets between the present one and the largest the allocator allows.
\<close>

definition spread :: "('k \<Rightarrow> 64 word) \<Rightarrow> 'k set \<Rightarrow> nat \<Rightarrow> nat \<Rightarrow> nat \<Rightarrow> bool" where
  "spread hash K b n0 B \<longleftrightarrow> finite K \<and>
    (\<forall>n. n0 \<le> n \<and> n * b \<le> B \<longrightarrow> card {k \<in> K. home hash n k = n - 1} < b)"

lemma scan_total:
  assumes "table_ok hash n b ents" "finite K" "card {k \<in> K. home hash n k = n - 1} < b"
    and "\<And>k. lookup ents k \<noteq> None \<Longrightarrow> k \<in> K"
  shows "scan (=) ents k (home hash n k * b) \<noteq> None"
proof
  assume none: "scan (=) ents k (home hash n k * b) = None"
  note t = table_okD [OF assms(1)]
  let ?J = "{(n - 1) * b ..< n * b}"
  have last: "(n - 1) * b + b = n * b" using t(1) by (cases n) simp_all
  have "home hash n k \<le> n - 1" using home_less [OF t(1), of hash k] by simp
  then have le: "home hash n k * b \<le> (n - 1) * b" by (rule mult_le_mono1)
  have occ: "\<exists>k'. e_key (ents ! j) = Some k'" if "j \<in> ?J" for j
    using scan_None [OF none, of j] that le_trans [OF le, of j] t(3) by auto
  have "inj_on (\<lambda>j. the (e_key (ents ! j))) ?J"
  proof (rule inj_onI)
    fix i j assume *: "i \<in> ?J" "j \<in> ?J" "the (e_key (ents ! i)) = the (e_key (ents ! j))"
    then obtain k' where "e_key (ents ! i) = Some k'" "e_key (ents ! j) = Some k'"
      using occ [of i] occ [of j] by auto
    with t(6) [of i j k'] t(3) * show "i = j" by simp
  qed
  then have "card ((\<lambda>j. the (e_key (ents ! j))) ` ?J) = b"
    using last by (simp add: card_image)
  moreover have "(\<lambda>j. the (e_key (ents ! j))) ` ?J \<subseteq> {k \<in> K. home hash n k = n - 1}"
  proof
    fix k' assume "k' \<in> (\<lambda>j. the (e_key (ents ! j))) ` ?J"
    then obtain j where j: "j \<in> ?J" "e_key (ents ! j) = Some k'" using occ by fastforce
    have "j < length ents" using j(1) t(3) by simp
    then have "lookup ents k' \<noteq> None" using j(2) by (auto simp: lookup_None)
    moreover have "j div b = n - 1" using j(1) last t(2) bucket_iff [of b j "n - 1"] by simp
    ultimately show "k' \<in> {k \<in> K. home hash n k = n - 1}"
      using assms(4) t(4) [OF \<open>j < length ents\<close> j(2)] by simp
  qed
  then have "card ((\<lambda>j. the (e_key (ents ! j))) ` ?J) \<le> card {k \<in> K. home hash n k = n - 1}"
    using assms(2) by (intro card_mono) auto
  ultimately show False using assms(3) by simp
qed

text \<open>The invariant with the keys the dictionary is used with.\<close>

definition dict_inv :: "nat \<Rightarrow> 'k set \<Rightarrow> ('k, 'v) rdict \<Rightarrow> bool" where
  "dict_inv B K d \<longleftrightarrow> dict_ok B d \<and> (\<forall>k. dict_abs d (Some k) \<noteq> None \<longrightarrow> k \<in> K) \<and>
    spread (d_hash d) K (d_bucket_capacity d) (d_buckets d) B"

lemma dict_inv_scan:
  assumes "dict_inv B K d"
  obtains p where "find_bucket d k = Some (home (d_hash d) (d_buckets d) k * d_bucket_capacity d)"
    "scan (=) (cells d) k (home (d_hash d) (d_buckets d) k * d_bucket_capacity d) = Some p"
proof -
  have ok: "dict_ok B d" using assms by (simp add: dict_inv_def)
  note d = dict_okD [OF ok] and t = table_okD [OF dict_okD(4) [OF ok]]
  have sp: "spread (d_hash d) K (d_bucket_capacity d) (d_buckets d) B" using assms by (simp add: dict_inv_def)
  have "d_buckets d * d_bucket_capacity d \<le> B" using d(6) t(3) by simp
  with sp have "card {k \<in> K. home (d_hash d) (d_buckets d) k = d_buckets d - 1} < d_bucket_capacity d" "finite K"
    unfolding spread_def by blast+
  then have "scan (=) (cells d) k (home (d_hash d) (d_buckets d) k * d_bucket_capacity d) \<noteq> None"
    using assms d(9) by (intro scan_total [OF d(4)]) (auto simp: dict_inv_def)
  then obtain p where "scan (=) (cells d) k (home (d_hash d) (d_buckets d) k * d_bucket_capacity d) = Some p"
    by blast
  moreover have "find_bucket d k = Some (home (d_hash d) (d_buckets d) k * d_bucket_capacity d)"
    using t(1) by (simp add: find_bucket_def find_bucket_raw_def home_def)
  ultimately show ?thesis by (rule that [rotated])
qed

lemma spread_mono: "spread hash K b n0 B \<Longrightarrow> n0 \<le> n1 \<Longrightarrow> spread hash K b n1 B"
  by (auto simp: spread_def)

lemma dict_inv_grow:
  assumes "dict_inv B K d" "dict_ok B d'" "same_shape d d'"
    and "\<And>k. dict_abs d' (Some k) \<noteq> None \<Longrightarrow> dict_abs d (Some k) \<noteq> None \<or> k \<in> K"
  shows "dict_inv B K d'"
proof -
  have "spread (d_hash d) K (d_bucket_capacity d) (d_buckets d) B" "d_buckets d \<le> d_buckets d'"
    "d_hash d' = d_hash d" "d_bucket_capacity d' = d_bucket_capacity d"
    using assms(1,3) by (simp_all add: dict_inv_def same_shape_def)
  then have "spread (d_hash d') K (d_bucket_capacity d') (d_buckets d') B"
    using spread_mono by metis
  with assms(1,2,4) show ?thesis unfolding dict_inv_def by blast
qed

lemma dict_abs_fun_upd:
  assumes "\<And>k'. dict_abs d' (Some k') = (if k' = k then v else dict_abs d (Some k'))"
    and "dict_abs d' None = dict_abs d None"
  shows "dict_abs d' = (dict_abs d)(Some k := v)"
proof (rule ext)
  fix x show "dict_abs d' x = ((dict_abs d)(Some k := v)) x"
    using assms by (cases x) auto
qed

text \<open>Storing in the cell the walk stopped at, inside the bucket.\<close>

lemma add_at_spec:
  fixes v :: "'v option" and d :: "('k, 'v) rdict"
  assumes "dict_ok B d" "scan (=) (cells d) k (home (d_hash d) (d_buckets d) k * d_bucket_capacity d) = Some p"
    and "p < home (d_hash d) (d_buckets d) k * d_bucket_capacity d + d_bucket_capacity d"
  defines "d' \<equiv> add_at d (cells d) p k v"
  shows "dict_ok B d'" "same_shape d d'"
    "dict_abs d' = (dict_abs d)(Some k \<mapsto> copied_value d v)"
    "d_freed_values d' = d_freed_values d @ (case dict_abs d (Some k) of None \<Rightarrow> [] | Some w \<Rightarrow> [w])"
    "d_freed_keys d' = d_freed_keys d"
proof -
  note d = dict_okD [OF assms(1)] and t = table_okD [OF dict_okD(4) [OF assms(1)]]
  note sp = scan_Some [OF assms(2)]
  let ?es = "cells d"
  let ?b = "d_bucket_capacity d"
  have bucket: "p div ?b = home (d_hash d) (d_buckets d) k"
    using sp assms(3) t(2) bucket_iff by blast
  have present: "e_key (?es ! p) = Some k" if "e_key (?es ! p) \<noteq> None" using sp that by auto
  have absent: "lookup ?es k = None" if "e_key (?es ! p) = None"
  proof (rule ccontr)
    assume "lookup ?es k \<noteq> None"
    then obtain i where i: "i < length ?es" "e_key (?es ! i) = Some k" by (auto simp: lookup_None)
    from table_scan_present [OF d(4) i] assms(2) i that show False by simp
  qed
  let ?es' = "?es[p := \<lparr>e_key = Some k, e_val = copied_value d v\<rparr>]"
  have put: "table_ok (d_hash d) (d_buckets d) ?b ?es'" "lookup ?es' = (lookup ?es)(k := Some (copied_value d v))"
    using sp bucket present absent by (intro table_put [OF d(4)]; force)+
  have occ: "occupied ?es' = occupied ?es + (if e_key (?es ! p) = None then 1 else 0)"
    using occupied_update [of p ?es "\<lparr>e_key = Some k, e_val = copied_value d v\<rparr>"] sp by auto
  have small: "d_size d + 1 < 2 ^ 32"
    using d(1,6,8) occupied_le [of ?es] by simp
  have e: "x\<lparr>e_key := a, e_val := c\<rparr> = \<lparr>e_key = a, e_val = c\<rparr>" for x :: "('k, 'v) rdict_entry" and a c
    by (cases x) simp
  have e': "x\<lparr>e_val := c\<rparr> = \<lparr>e_key = e_key x, e_val = c\<rparr>" for x :: "('k, 'v) rdict_entry" and c
    by (cases x) simp
  have cv: "copied_value (d\<lparr>d_size := n\<rparr>) v = copied_value d v"
    "copied_value (d\<lparr>d_freed_values := l\<rparr>) v = copied_value d v" for n l
    by (simp_all add: copied_value_def)
  have d': "d' = (if e_key (?es ! p) = None then d\<lparr>d_size := d_size d + 1, d_entry := Some ?es'\<rparr>
      else d\<lparr>d_freed_values := d_freed_values d @ [e_val (?es ! p)], d_entry := Some ?es'\<rparr>)"
  proof (cases "e_key (?es ! p) = None")
    case True
    with small d(7) show ?thesis
      by (simp add: d'_def add_at_def e cv)
  next
    case False
    with present show ?thesis
      by (simp add: d'_def add_at_def free_value_def e' cv)
  qed
  have cells: "cells d' = ?es'" by (simp add: d' cells_def)
  show "dict_ok B d'"
    unfolding dict_ok_def cells using d t put(1) occ
    by (simp add: d' copied_key_def)
  show "same_shape d d'" by (simp add: same_shape_def d')
  show "dict_abs d' = (dict_abs d)(Some k \<mapsto> copied_value d v)"
    by (rule dict_abs_fun_upd) (use d(2) put(2) in \<open>auto simp: d' dict_abs_def split: option.splits\<close>)
  have "lookup ?es k = Some (e_val (?es ! p))" if "e_key (?es ! p) \<noteq> None"
    using present [OF that] sp by (auto simp: lookup_Some [OF d(4)])
  then show "d_freed_values d' = d_freed_values d @ (case dict_abs d (Some k) of None \<Rightarrow> [] | Some w \<Rightarrow> [w])"
    using absent d(9) by (auto simp: d')
  show "d_freed_keys d' = d_freed_keys d" by (simp add: d')
qed

lemma add_key_spec:
  fixes v :: "'v option"
  assumes "env_ok B env" "k \<in> K"
  shows "dict_inv B K d \<Longrightarrow> \<exists>d' c. add_key env d k v = Some (d', c) \<and> dict_inv B K d' \<and> same_shape d d' \<and>
    (c = rdict_code_error \<and> dict_abs d' = dict_abs d \<and> d_freed_values d' = d_freed_values d \<or>
     c = rdict_code_ok \<and> dict_abs d' = (dict_abs d)(Some k \<mapsto> copied_value d v) \<and>
       d_freed_values d' = d_freed_values d @ (case dict_abs d (Some k) of None \<Rightarrow> [] | Some w \<Rightarrow> [w])) \<and>
    d_freed_keys d' = d_freed_keys d"
proof (induction "B - length (cells d)" arbitrary: d rule: less_induct)
  case less
  have ok: "dict_ok B d" using less.prems by (simp add: dict_inv_def)
  note d = dict_okD [OF ok] and t = table_okD [OF dict_okD(4) [OF ok]]
  let ?s = "home (d_hash d) (d_buckets d) k * d_bucket_capacity d"
  obtain p where p: "find_bucket d k = Some ?s" "scan (=) (cells d) k ?s = Some p"
    using dict_inv_scan [OF less.prems] .
  show ?case
  proof (cases "p + 1 \<ge> ?s + d_bucket_capacity d")
    case False
    then have in_bucket: "p < ?s + d_bucket_capacity d" by simp
    note a = add_at_spec [OF ok p(2) in_bucket, of v]
    have "dict_inv B K (add_at d (cells d) p k v)"
      using assms(2) a(3) by (intro dict_inv_grow [OF less.prems a(1,2)]) (auto split: if_splits)
    with a False p d(2,3) show ?thesis
      by (intro exI [of _ "add_at d (cells d) p k v"] exI [of _ rdict_code_ok])
        (subst add_key.simps, simp)
  next
    case True
    have "0 < d_capacity d" using d(5) t(1-3) by simp
    moreover have "d_capacity d \<le> 2 ^ 29" using d(1,5,6) by simp
    ultimately have cap: "d_capacity d < expand_capacity (d_capacity d)" "expand_capacity (d_capacity d) \<le> 2 ^ 30"
      using expand_capacity_bounds by blast+
    then obtain d1 c where e: "expand_buckets env d (expand_capacity (d_capacity d)) = Some (d1, c)"
      "c = rdict_code_error \<and> d1 = d \<or>
       c = rdict_code_ok \<and> dict_ok B d1 \<and> same_shape d d1 \<and> dict_abs d1 = dict_abs d \<and>
       expand_capacity (d_capacity d) \<le> length (cells d1) \<and> d_null d1 = d_null d \<and>
       d_freed_keys d1 = d_freed_keys d \<and> d_freed_values d1 = d_freed_values d"
      using expand_buckets_spec [OF ok assms(1), of "expand_capacity (d_capacity d)"] d(5) by auto
    have step: "add_key env d k v = (if c \<noteq> rdict_code_ok then Some (d1, c) else add_key env d1 k v)"
      using p d(2,3) True e(1) by (subst add_key.simps) simp
    show ?thesis
    proof (cases "c = rdict_code_ok")
      case False
      with e(2) step less.prems show ?thesis by auto
    next
      case okc: True
      then have d1: "dict_ok B d1" "same_shape d d1" "dict_abs d1 = dict_abs d"
        "expand_capacity (d_capacity d) \<le> length (cells d1)"
        "d_freed_keys d1 = d_freed_keys d" "d_freed_values d1 = d_freed_values d" using e(2) by auto
      have inv: "dict_inv B K d1" using d1(3) by (intro dict_inv_grow [OF less.prems d1(1,2)]) simp
      have "B - length (cells d1) < B - length (cells d)"
        using d1(4) cap(1) d(5) dict_okD(6) [OF d1(1)] by simp
      from less.hyps [OF this inv] obtain d' c' where
        "add_key env d1 k v = Some (d', c')" "dict_inv B K d'" "same_shape d1 d'"
        "c' = rdict_code_error \<and> dict_abs d' = dict_abs d1 \<and> d_freed_values d' = d_freed_values d1 \<or>
         c' = rdict_code_ok \<and> dict_abs d' = (dict_abs d1)(Some k \<mapsto> copied_value d1 v) \<and>
         d_freed_values d' = d_freed_values d1 @ (case dict_abs d1 (Some k) of None \<Rightarrow> [] | Some w \<Rightarrow> [w])"
        "d_freed_keys d' = d_freed_keys d1" by blast
      moreover have "copied_value d1 v = copied_value d v"
        using d1(2) by (simp add: copied_value_def same_shape_def)
      ultimately show ?thesis
        using step okc d1 same_shape_trans [OF d1(2)] by (intro exI [of _ d'] exI [of _ c']) auto
    qed
  qed
qed

lemma remove_key_spec:
  assumes "dict_inv B K d"
  shows "\<exists>d' c. rdict_remove (Some d) (Some k) = Some (Some d', c) \<and> dict_inv B K d' \<and> same_shape d d' \<and>
    dict_abs d' = (dict_abs d)(Some k := None) \<and>
    (case dict_abs d (Some k) of
       None \<Rightarrow> c = rdict_code_not_exist \<and> d' = d
     | Some w \<Rightarrow> c = rdict_code_ok \<and> d_freed_keys d' = d_freed_keys d @ [Some k] \<and>
         d_freed_values d' = d_freed_values d @ [w])"
proof -
  have ok: "dict_ok B d" using assms by (simp add: dict_inv_def)
  note d = dict_okD [OF ok] and t = table_okD [OF dict_okD(4) [OF ok]]
  let ?s = "home (d_hash d) (d_buckets d) k * d_bucket_capacity d"
  let ?fin = "?s + (d_bucket_capacity d - 1)"
  obtain p where p: "find_bucket d k = Some ?s" "scan (=) (cells d) k ?s = Some p"
    using dict_inv_scan [OF assms] .
  have sc: "scan_to (=) (cells d) k ?s ?fin = Some (if lookup (cells d) k = None then None else Some p)"
    using table_scan_to [OF d(4), of k] p(2) by simp
  show ?thesis
  proof (cases "lookup (cells d) k")
    case None
    with sc p(1) d(2,3,9) assms show ?thesis
      by (intro exI [of _ d] exI [of _ rdict_code_not_exist])
        (auto simp: rdict_remove_def Let_def fun_upd_idem)
  next
    case (Some w)
    obtain i where i: "i < length (cells d)" "e_key (cells d ! i) = Some k" "e_val (cells d ! i) = w"
      using Some lookup_Some [OF d(4)] by blast
    then have "p = i" using table_scan_present [OF d(4) i(1,2)] p(2) by simp
    define r where "r = remove_at d (cells d) p ?fin"
    note rm = table_remove [OF d(4), of p k] 
    define es where "es = (case last_behind ((cells d)[p := empty_entry]) p (?fin - p) of
        None \<Rightarrow> (cells d)[p := empty_entry]
      | Some j \<Rightarrow> (cells d)[p := empty_entry, p := (cells d)[p := empty_entry] ! j, j := empty_entry])"
    have occ: "occupied es + 1 = occupied (cells d)" and es: "table_ok (d_hash d) (d_buckets d) (d_bucket_capacity d) es"
      "lookup es = (lookup (cells d))(k := None)" "length es = length (cells d)"
      using rm i \<open>p = i\<close> by (simp_all add: es_def)
    have "d_size d \<le> 2 ^ 28 + 1" using d(1,6,8) occupied_le [of "cells d"] by (auto split: if_splits)
    moreover have "0 < d_size d" using occ d(8) by linarith
    then obtain m where m: "d_size d = Suc m" using gr0_conv_Suc by blast
    ultimately have size: "dec32 (d_size d) = m" by simp
    have d': "r = d\<lparr>d_freed_keys := d_freed_keys d @ [Some k], d_freed_values := d_freed_values d @ [w],
        d_size := m, d_entry := Some es\<rparr>"
      using i [folded \<open>p = i\<close>] size by (simp add: r_def remove_at_def free_key_def free_value_def es_def Let_def)
    have cells: "cells r = es" unfolding d' by (simp add: cells_def)
    have okd: "dict_ok B r"
      unfolding dict_ok_def cells using d t es occ m by (simp add: d' copied_key_def)
    moreover have sh: "same_shape d r" by (simp add: same_shape_def d')
    moreover have abs: "dict_abs r = (dict_abs d)(Some k := None)"
      by (rule dict_abs_fun_upd)
        (use d(2) es(2) in \<open>auto simp: d' dict_abs_def simp del: not_None_eq split: option.splits\<close>)
    moreover have "dict_inv B K r"
      using abs by (intro dict_inv_grow [OF assms okd sh]) (auto split: if_splits)
    moreover have "rdict_remove (Some d) (Some k) = Some (Some r, rdict_code_ok)"
      using sc p(1) d(2,3) Some by (simp add: r_def rdict_remove_def Let_def)
    ultimately show ?thesis using Some d(9)
      by (intro exI [of _ r] exI [of _ rdict_code_ok]) (simp add: d')
  qed
qed

lemma rdict_find_spec:
  assumes "dict_ok B d"
  shows "rdict_find (Some d) (Some k) =
    (case lookup (cells d) k of
       Some w \<Rightarrow> Some (Some \<lparr>e_key = Some k, e_val = w\<rparr>)
     | None \<Rightarrow> if \<forall>j. home (d_hash d) (d_buckets d) k * d_bucket_capacity d \<le> j \<and> j < length (cells d) \<longrightarrow>
           e_key (cells d ! j) \<noteq> None then None else Some None)"
proof -
  note d = dict_okD [OF assms] and t = table_okD [OF dict_okD(4) [OF assms]]
  let ?s = "home (d_hash d) (d_buckets d) k * d_bucket_capacity d"
  have b: "find_bucket d k = Some ?s"
    using t(1) by (simp add: find_bucket_def find_bucket_raw_def home_def)
  show ?thesis
  proof (cases "lookup (cells d) k")
    case (Some w)
    then obtain i where i: "i < length (cells d)" "e_key (cells d ! i) = Some k" "e_val (cells d ! i) = w"
      using lookup_Some [OF d(4)] by blast
    have "cells d ! i = \<lparr>e_key = Some k, e_val = w\<rparr>" using i by (cases "cells d ! i") simp
    with Some table_scan_present [OF d(4) i(1,2)] b d(2,3) show ?thesis by (simp add: rdict_find_def)
  next
    case None
    then have absent: "\<forall>i<length (cells d). e_key (cells d ! i) \<noteq> Some k" by (simp add: lookup_None)
    show ?thesis
    proof (cases "scan (=) (cells d) k ?s")
      case scN: None
      then have "e_key (cells d ! j) \<noteq> None" if "?s \<le> j" "j < length (cells d)" for j
        using scan_None [OF scN that] by auto
      with None scN b d(2,3) show ?thesis by (simp add: rdict_find_def del: not_None_eq)
    next
      case (Some p)
      note free = table_scan_absent [OF absent Some]
      then have "\<not> (\<forall>j. ?s \<le> j \<and> j < length (cells d) \<longrightarrow> e_key (cells d ! j) \<noteq> None)"
        using scan_Some [OF Some] by blast
      with None Some free b d(2,3) show ?thesis by (simp add: rdict_find_def del: not_None_eq)
    qed
  qed
qed

text \<open>Under the invariant with its keys no walk leaves the table.\<close>

lemma dict_inv_find:
  assumes "dict_inv B K d"
  shows "rdict_find (Some d) (Some k) =
    Some (map_option (\<lambda>w. \<lparr>e_key = Some k, e_val = w\<rparr>) (dict_abs d (Some k)))"
proof -
  have ok: "dict_ok B d" using assms by (simp add: dict_inv_def)
  obtain p where p: "find_bucket d k = Some (home (d_hash d) (d_buckets d) k * d_bucket_capacity d)"
      "scan (=) (cells d) k (home (d_hash d) (d_buckets d) k * d_bucket_capacity d) = Some p"
    using dict_inv_scan [OF assms] .
  then have "rdict_find (Some d) (Some k) \<noteq> None"
    using dict_okD(2,3) [OF ok] by (simp add: rdict_find_def)
  then show ?thesis
    using rdict_find_spec [OF ok, of k] dict_okD(9) [OF ok, of k] by (auto split: option.splits if_splits)
qed

section \<open>Iterating over the dictionary\<close>

text \<open>The entries of a table from a cell on.\<close>

definition entries_from :: "('k, 'v) rdict_entry list \<Rightarrow> nat \<Rightarrow> ('k, 'v) rdict_entry list" where
  "entries_from ents i = filter (\<lambda>e. e_key e \<noteq> None) (drop i ents)"

lemma entries_from_here:
  "i < length ents \<Longrightarrow> e_key (ents ! i) \<noteq> None \<Longrightarrow> entries_from ents i = ents ! i # entries_from ents (i + 1)"
  by (simp add: entries_from_def Cons_nth_drop_Suc [symmetric] del: not_None_eq)

lemma entries_from_skip:
  assumes "i \<le> j" "\<And>n. i \<le> n \<Longrightarrow> n < j \<Longrightarrow> n < length ents \<Longrightarrow> e_key (ents ! n) = None"
  shows "entries_from ents i = entries_from ents j"
proof -
  have "drop i ents = take (j - i) (drop i ents) @ drop j ents"
    using assms(1) by (metis append_take_drop_id drop_drop le_add_diff_inverse2)
  moreover have "e_key e = None" if mem: "e \<in> set (take (j - i) (drop i ents))" for e
  proof -
    obtain n where "n < j - i" "n < length ents - i" "e = ents ! (i + n)"
      using mem by (auto simp: in_set_conv_nth)
    then show ?thesis using assms(2) [of "i + n"] by simp
  qed
  then have "filter (\<lambda>e. e_key e \<noteq> None) (take (j - i) (drop i ents)) = []"
    by (simp add: filter_empty_conv del: not_None_eq)
  ultimately show ?thesis
    unfolding entries_from_def by (metis filter_append append_Nil)
qed

lemma bucket_rest_free:
  assumes "table_ok hash n b ents" "i < length ents" "e_key (ents ! i) = None"
  shows "entries_from ents i = entries_from ents ((i div b + 1) * b)"
proof (rule entries_from_skip)
  have b: "0 < b" using table_okD(2) [OF assms(1)] .
  show "i \<le> (i div b + 1) * b" using next_bucket_gt [OF b, of i] by simp
  fix j assume j: "i \<le> j" "j < (i div b + 1) * b" "j < length ents"
  have "i div b * b \<le> j" using j(1) div_times_less_eq_dividend [of i b] by linarith
  moreover have "j < i div b * b + b" using j(2) by (simp add: algebra_simps)
  ultimately have "j div b = i div b" using b bucket_iff [of b j "i div b"] by blast
  then show "e_key (ents ! j) = None" using table_okD(5) [OF assms(1) j(1,3)] assms(3) by simp
qed

lemma skip_buckets_spec:
  assumes "table_ok hash n b ents" "2 \<le> b"
  shows "i mod b = 0 \<Longrightarrow> (case entries_from ents i of
      [] \<Rightarrow> \<exists>j. skip_buckets ents (length ents) b i = Some (j, None)
    | e # es \<Rightarrow> \<exists>j. skip_buckets ents (length ents) b i = Some (j, Some e) \<and> entries_from ents j = es \<and> i < j)"
proof (induction "length ents - i" arbitrary: i rule: less_induct)
  case less
  note t = table_okD [OF assms(1)]
  have b: "b \<noteq> 0" using t(2) by simp
  show ?case
  proof (cases "i < length ents - 1")
    case True
    then have i: "i < length ents" by simp
    show ?thesis
    proof (cases "e_key (ents ! i) = None")
      case free: True
      let ?j = "(i div b + 1) * b"
      have gt: "i < ?j" using t(2) by (rule next_bucket_gt)
      have "skip_buckets ents (length ents) b i = skip_buckets ents (length ents) b ?j"
        using True i free b by (subst skip_buckets.simps) simp
      moreover have "entries_from ents i = entries_from ents ?j"
        by (rule bucket_rest_free [OF assms(1) i free])
      moreover have "case entries_from ents ?j of
          [] \<Rightarrow> \<exists>j. skip_buckets ents (length ents) b ?j = Some (j, None)
        | e # es \<Rightarrow> \<exists>j. skip_buckets ents (length ents) b ?j = Some (j, Some e) \<and> entries_from ents j = es \<and> ?j < j"
        using gt i by (intro less.hyps) (simp_all add: diff_less_mono2 del: distrib_right_numeral add_mult_distrib)
      ultimately show ?thesis using gt by (auto split: list.splits)
    next
      case False
      with True i b show ?thesis
        by (subst skip_buckets.simps) (simp add: entries_from_here)
    qed
  next
    case False
    have "length ents \<le> i"
    proof (rule ccontr)
      assume "\<not> length ents \<le> i"
      with False have "i + 1 = n * b" using t(3) by simp
      then have "(i + 1) mod b = 0" by simp
      moreover have "(i + 1) mod b = 1" using less.prems assms(2) by (simp add: mod_Suc)
      ultimately show False by simp
    qed
    with False b show ?thesis by (subst skip_buckets.simps) (simp add: entries_from_def)
  qed
qed

lemma iterate_entries:
  assumes "table_ok hash n (d_bucket_capacity d) (cells d)" "2 \<le> d_bucket_capacity d"
    "d_entry d = Some (cells d)" "d_capacity d = length (cells d)"
  shows "iterate d (Some i) = Some (entries_from (cells d) i)"
proof (induction "length (cells d) - i" arbitrary: i rule: less_induct)
  case less
  note t = table_okD [OF assms(1)]
  let ?b = "d_bucket_capacity d"
  show ?case
  proof (cases "i < length (cells d)")
    case False
    then show ?thesis
      using assms(4) by (subst iterate.simps) (simp add: rdict_next_def entries_from_def)
  next
    case i: True
    show ?thesis
    proof (cases "e_key (cells d ! i) = None")
      case False
      have "iterate d (Some (i + 1)) = Some (entries_from (cells d) (i + 1))"
        using i by (intro less.hyps) simp
      with False i assms(3,4) show ?thesis
        by (subst iterate.simps) (simp add: rdict_next_def entries_from_here del: not_None_eq)
    next
      case True
      let ?j = "(i div ?b + 1) * ?b"
      have gt: "i < ?j" using t(2) by (rule next_bucket_gt)
      have skip: "entries_from (cells d) i = entries_from (cells d) ?j"
        by (rule bucket_rest_free [OF assms(1) i True])
      have nx: "rdict_next d (Some i) = map_option (\<lambda>(j, e). (Some j, e)) (skip_buckets (cells d) (length (cells d)) ?b ?j)"
        using True i t(2) assms(3,4) by (simp add: rdict_next_def)
      have sb: "case entries_from (cells d) ?j of
          [] \<Rightarrow> \<exists>j. skip_buckets (cells d) (length (cells d)) ?b ?j = Some (j, None)
        | e # es \<Rightarrow> \<exists>j. skip_buckets (cells d) (length (cells d)) ?b ?j = Some (j, Some e) \<and> entries_from (cells d) j = es \<and> ?j < j"
        by (intro skip_buckets_spec [OF assms(1,2)]) (simp del: distrib_right_numeral add_mult_distrib)
      show ?thesis
      proof (cases "entries_from (cells d) ?j")
        case Nil
        then obtain j where "skip_buckets (cells d) (length (cells d)) ?b ?j = Some (j, None)" using sb by auto
        then show ?thesis using nx Nil skip by (subst iterate.simps) simp
      next
        case (Cons e es)
        then obtain j where j: "skip_buckets (cells d) (length (cells d)) ?b ?j = Some (j, Some e)"
          "entries_from (cells d) j = es" "?j < j" using sb by auto
        have "iterate d (Some j) = Some (entries_from (cells d) j)"
          using gt j(3) i by (intro less.hyps) simp
        then show ?thesis using nx Cons skip j(1,2) by (subst iterate.simps) simp
      qed
    qed
  qed
qed

text \<open>The iteration hands out the null entry, then every entry of the table, once each.\<close>

lemma iterate_all:
  assumes "dict_ok B d" "2 \<le> d_bucket_capacity d"
  shows "iterate d None = Some ((case d_null d of None \<Rightarrow> [] | Some e \<Rightarrow> [e]) @ filter (\<lambda>e. e_key e \<noteq> None) (cells d))"
proof -
  note d = dict_okD [OF assms(1)]
  have from0: "iterate d (Some 0) = Some (filter (\<lambda>e. e_key e \<noteq> None) (cells d))"
    using iterate_entries [OF d(4) assms(2) d(2,5), of 0] by (simp add: entries_from_def)
  show ?thesis
  proof (cases "d_null d")
    case None
    have "rdict_next d None = rdict_next d (Some 0)" by (simp add: rdict_next_def None)
    then have "iterate d None = iterate d (Some 0)"
      by (subst (1 2) iterate.simps) simp
    with None from0 show ?thesis by simp
  next
    case (Some e)
    then have "rdict_next d None = Some (Some 0, Some e)" by (simp add: rdict_next_def)
    with Some from0 show ?thesis by (subst iterate.simps) simp
  qed
qed

section \<open>The null key\<close>

lemma add_null_spec:
  fixes v :: "'v option"
  assumes "dict_inv B K d" "env_ok B env"
  shows "dict_inv B K (add_null env d v)" "same_shape d (add_null env d v)"
    "dict_abs (add_null env d v) = (dict_abs d)(None \<mapsto> copied_value d v)"
    "d_freed_values (add_null env d v) = d_freed_values d @ (case dict_abs d None of None \<Rightarrow> [] | Some w \<Rightarrow> [w])"
proof -
  let ?d = "add_null env d v"
  have ok: "dict_ok B d" using assms(1) by (simp add: dict_inv_def)
  note d = dict_okD [OF ok]
  have small: "occupied (cells d) + 1 < 2 ^ 32" using d(1,6) occupied_le [of "cells d"] by simp
  have cv: "copied_value (d\<lparr>d_freed_values := l\<rparr>) v = copied_value d v" for l
    by (simp add: copied_value_def)
  have cells: "cells ?d = cells d" "d_hash ?d = d_hash d" "d_buckets ?d = d_buckets d"
    "d_bucket_capacity ?d = d_bucket_capacity d" "d_copy_value ?d = d_copy_value d" "d_copy_key ?d = d_copy_key d"
    "d_entry ?d = d_entry d" "d_eq ?d = d_eq d" "d_capacity ?d = d_capacity d"
    by (simp_all add: add_null_def cells_def free_value_def split: option.splits)
  show sh: "same_shape d ?d" by (simp add: same_shape_def cells)
  have "d_size ?d = occupied (cells d) + (if d_null ?d = None then 0 else 1)"
    using d(8) small assms(2) by (auto simp: add_null_def free_value_def env_ok_def split: option.splits)
  then have okd: "dict_ok B ?d" using ok by (simp add: dict_ok_def cells copied_key_def)
  show abs: "dict_abs ?d = (dict_abs d)(None \<mapsto> copied_value d v)"
  proof (rule ext)
    fix k show "dict_abs ?d k = ((dict_abs d)(None \<mapsto> copied_value d v)) k"
      using assms(2) by (cases k) (simp_all add: dict_abs_def cells, simp add: add_null_def env_ok_def free_value_def cv split: option.splits)
  qed
  show "dict_inv B K ?d"
    using abs by (intro dict_inv_grow [OF assms(1) okd sh]) simp
  show "d_freed_values ?d = d_freed_values d @ (case dict_abs d None of None \<Rightarrow> [] | Some w \<Rightarrow> [w])"
    by (simp add: add_null_def free_value_def dict_abs_def split: option.splits)
qed

lemma remove_null_spec:
  assumes "dict_inv B K d"
  shows "dict_inv B K (remove_null d)" "same_shape d (remove_null d)"
    "dict_abs (remove_null d) = (dict_abs d)(None := None)"
    "d_freed_values (remove_null d) = d_freed_values d @ (case dict_abs d None of None \<Rightarrow> [] | Some w \<Rightarrow> [w])"
proof -
  let ?d = "remove_null d"
  have ok: "dict_ok B d" using assms(1) by (simp add: dict_inv_def)
  note d = dict_okD [OF ok]
  have small: "occupied (cells d) < 2 ^ 32" using d(1,6) occupied_le [of "cells d"] by simp
  have cells: "cells ?d = cells d" "d_hash ?d = d_hash d" "d_buckets ?d = d_buckets d"
    "d_bucket_capacity ?d = d_bucket_capacity d" "d_copy_value ?d = d_copy_value d" "d_copy_key ?d = d_copy_key d"
    "d_entry ?d = d_entry d" "d_eq ?d = d_eq d" "d_capacity ?d = d_capacity d"
    by (simp_all add: remove_null_def cells_def free_value_def free_key_def split: option.splits)
  show sh: "same_shape d ?d" by (simp add: same_shape_def cells)
  have "d_size ?d = occupied (cells d) + (if d_null ?d = None then 0 else 1)"
    using d(8) small by (auto simp: remove_null_def free_value_def free_key_def split: option.splits)
  then have okd: "dict_ok B ?d" using ok by (simp add: dict_ok_def cells copied_key_def)
  show abs: "dict_abs ?d = (dict_abs d)(None := None)"
  proof (rule ext)
    fix k show "dict_abs ?d k = ((dict_abs d)(None := None)) k"
      by (cases k) (simp_all add: dict_abs_def cells, simp add: remove_null_def free_value_def free_key_def split: option.splits)
  qed
  show "dict_inv B K ?d"
    using abs by (intro dict_inv_grow [OF assms(1) okd sh]) simp
  show "d_freed_values ?d = d_freed_values d @ (case dict_abs d None of None \<Rightarrow> [] | Some w \<Rightarrow> [w])"
    by (simp add: remove_null_def free_value_def free_key_def dict_abs_def split: option.splits)
qed

section \<open>The contract of a dictionary\<close>

datatype ('k, 'v) dict_op = Put 'k 'v | Del 'k

definition op_key :: "('k, 'v) dict_op \<Rightarrow> 'k" where
  "op_key op = (case op of Put k v \<Rightarrow> k | Del k \<Rightarrow> k)"

text \<open>A sequence of operations: the codes they return, and its meaning on maps, given the codes.\<close>

fun dict_run :: "('s \<Rightarrow> 'k \<Rightarrow> 'v \<Rightarrow> ('s \<times> int) option) \<Rightarrow> ('s \<Rightarrow> 'k \<Rightarrow> ('s \<times> int) option) \<Rightarrow>
    ('k, 'v) dict_op list \<Rightarrow> 's \<Rightarrow> ('s \<times> int list) option"
where
  "dict_run put del [] s = Some (s, [])"
| "dict_run put del (op # ops) s = do {
     (s1, c) \<leftarrow> (case op of Put k v \<Rightarrow> put s k v | Del k \<Rightarrow> del s k);
     (s2, cs) \<leftarrow> dict_run put del ops s1;
     Some (s2, c # cs)
   }"

fun map_run :: "('v \<Rightarrow> 'v) \<Rightarrow> ('k, 'v) dict_op list \<Rightarrow> int list \<Rightarrow> ('k \<Rightarrow> 'v option) \<Rightarrow> ('k \<Rightarrow> 'v option)" where
  "map_run st (Put k v # ops) (c # cs) m = map_run st ops cs (if c = 0 then m(k \<mapsto> st v) else m)"
| "map_run st (Del k # ops) (c # cs) m = map_run st ops cs (m(k := None))"
| "map_run st _ _ m = m"

locale dictionary =
  fixes inv :: "'s \<Rightarrow> bool"
    and keys :: "'k set"
    and abs :: "'s \<Rightarrow> 'k \<Rightarrow> 'v option"
    and stored :: "'v \<Rightarrow> 'v"
    and put :: "'s \<Rightarrow> 'k \<Rightarrow> 'v \<Rightarrow> ('s \<times> int) option"
    and del :: "'s \<Rightarrow> 'k \<Rightarrow> ('s \<times> int) option"
    and get :: "'s \<Rightarrow> 'k \<Rightarrow> 'v option option"
  assumes put_law: "inv s \<Longrightarrow> k \<in> keys \<Longrightarrow> \<exists>s' c. put s k v = Some (s', c) \<and> inv s' \<and>
      abs s' = (if c = 0 then (abs s)(k \<mapsto> stored v) else abs s)"
    and del_law: "inv s \<Longrightarrow> k \<in> keys \<Longrightarrow> \<exists>s' c. del s k = Some (s', c) \<and> inv s' \<and> abs s' = (abs s)(k := None)"
    and get_law: "inv s \<Longrightarrow> k \<in> keys \<Longrightarrow> get s k = Some (abs s k)"
begin

lemma run_refines:
  "inv s \<Longrightarrow> op_key ` set ops \<subseteq> keys \<Longrightarrow> \<exists>s' cs. dict_run put del ops s = Some (s', cs) \<and> inv s' \<and>
    length cs = length ops \<and> abs s' = map_run stored ops cs (abs s)"
proof (induction ops arbitrary: s)
  case (Cons op ops)
  have key: "op_key op \<in> keys" "op_key ` set ops \<subseteq> keys" using Cons.prems(2) by auto
  show ?case
  proof (cases op)
    case (Put k v)
    then obtain s1 c where s1: "put s k v = Some (s1, c)" "inv s1"
      "abs s1 = (if c = 0 then (abs s)(k \<mapsto> stored v) else abs s)"
      using put_law [OF Cons.prems(1), of k v] key(1) by (auto simp: op_key_def)
    from Cons.IH [OF s1(2) key(2)] obtain s' cs where
      "dict_run put del ops s1 = Some (s', cs)" "inv s'" "length cs = length ops"
      "abs s' = map_run stored ops cs (abs s1)" by blast
    with Put s1 show ?thesis by (intro exI [of _ s'] exI [of _ "c # cs"]) simp
  next
    case (Del k)
    then obtain s1 c where s1: "del s k = Some (s1, c)" "inv s1" "abs s1 = (abs s)(k := None)"
      using del_law [OF Cons.prems(1), of k] key(1) by (auto simp: op_key_def)
    from Cons.IH [OF s1(2) key(2)] obtain s' cs where
      "dict_run put del ops s1 = Some (s', cs)" "inv s'" "length cs = length ops"
      "abs s' = map_run stored ops cs (abs s1)" by blast
    with Del s1 show ?thesis by (intro exI [of _ s'] exI [of _ "c # cs"]) simp
  qed
qed simp

lemma run_then_get:
  assumes "inv s" "op_key ` set ops \<subseteq> keys"
  shows "\<exists>s' cs. dict_run put del ops s = Some (s', cs) \<and> inv s' \<and> length cs = length ops \<and>
    abs s' = map_run stored ops cs (abs s) \<and> (\<forall>k\<in>keys. get s' k = Some (map_run stored ops cs (abs s) k))"
proof -
  obtain s' cs where r: "dict_run put del ops s = Some (s', cs)" "inv s'" "length cs = length ops"
    "abs s' = map_run stored ops cs (abs s)" using run_refines [OF assms] by blast
  moreover have "get s' k = Some (map_run stored ops cs (abs s) k)" if "k \<in> keys" for k
    using get_law [OF r(2) that] r(4) by simp
  ultimately show ?thesis by blast
qed

end

text \<open>The operations of the code in that shape.\<close>

definition dict_put :: "rdict_env \<Rightarrow> ('k, 'v) rdict \<Rightarrow> 'k option \<Rightarrow> 'v option \<Rightarrow> (('k, 'v) rdict \<times> int) option" where
  "dict_put env d k v = do { (dp, c) \<leftarrow> rdict_add env (Some d) k v; d' \<leftarrow> dp; Some (d', c) }"

definition dict_del :: "('k, 'v) rdict \<Rightarrow> 'k option \<Rightarrow> (('k, 'v) rdict \<times> int) option" where
  "dict_del d k = do { (dp, c) \<leftarrow> rdict_remove (Some d) k; d' \<leftarrow> dp; Some (d', c) }"

definition dict_get :: "('k, 'v) rdict \<Rightarrow> 'k option \<Rightarrow> 'v option option option" where
  "dict_get d k = map_option (map_option e_val) (rdict_find (Some d) k)"

definition dict_keys :: "'k set \<Rightarrow> 'k option set" where
  "dict_keys K = insert None (Some ` K)"

definition dict_state :: "rdict_env \<Rightarrow> nat \<Rightarrow> 'k set \<Rightarrow> ('v option \<Rightarrow> 'v option) \<Rightarrow> ('k, 'v) rdict \<Rightarrow> bool" where
  "dict_state env B K st d \<longleftrightarrow> env_ok B env \<and> dict_inv B K d \<and> copied_value d = st"

lemma same_shape_copied: "same_shape d d' \<Longrightarrow> copied_value d' = copied_value d"
  by (rule ext) (simp add: same_shape_def copied_value_def)

interpretation rd: dictionary "dict_state env B K st" "dict_keys K" dict_abs st "dict_put env" dict_del dict_get
  for env :: rdict_env and B :: nat and K :: "'a set" and st :: "'b option \<Rightarrow> 'b option"
proof (unfold_locales, goal_cases)
  case (1 s k v)
  then have s: "env_ok B env" "dict_inv B K s" "copied_value s = st" by (simp_all add: dict_state_def)
  show ?case
  proof (cases k)
    case None
    note a = add_null_spec [OF s(2,1), of v]
    have "dict_put env s k v = Some (add_null env s v, 0)" by (simp add: dict_put_def rdict_add_def None)
    with a s None same_shape_copied [OF a(2)] show ?thesis
      by (auto simp: dict_state_def)
  next
    case (Some k')
    then have "k' \<in> K" using 1(2) by (auto simp: dict_keys_def)
    from add_key_spec [OF s(1) this s(2), of v] obtain d' c where a:
      "add_key env s k' v = Some (d', c)" "dict_inv B K d'" "same_shape s d'"
      "c = rdict_code_error \<and> dict_abs d' = dict_abs s \<or> c = rdict_code_ok \<and> dict_abs d' = (dict_abs s)(Some k' \<mapsto> copied_value s v)"
      by blast
    then have "dict_put env s k v = Some (d', c)" by (simp add: dict_put_def rdict_add_def Some)
    with a s Some same_shape_copied [OF a(3)] show ?thesis
      by (intro exI [of _ d'] exI [of _ c]) (auto simp: dict_state_def)
  qed
next
  case (2 s k)
  then have s: "env_ok B env" "dict_inv B K s" "copied_value s = st" by (simp_all add: dict_state_def)
  show ?case
  proof (cases k)
    case None
    note a = remove_null_spec [OF s(2)]
    have "dict_del s k = Some (remove_null s, 0)" by (simp add: dict_del_def rdict_remove_def None)
    with a s None same_shape_copied [OF a(2)] show ?thesis by (auto simp: dict_state_def)
  next
    case (Some k')
    from remove_key_spec [OF s(2), of k'] obtain d' c where a:
      "rdict_remove (Some s) (Some k') = Some (Some d', c)" "dict_inv B K d'" "same_shape s d'"
      "dict_abs d' = (dict_abs s)(Some k' := None)" by blast
    then have "dict_del s k = Some (d', c)" by (simp add: dict_del_def Some)
    with a s Some same_shape_copied [OF a(3)] show ?thesis
      by (intro exI [of _ d'] exI [of _ c]) (auto simp: dict_state_def)
  qed
next
  case (3 s k)
  then have s: "dict_inv B K s" by (simp add: dict_state_def)
  show ?case
  proof (cases k)
    case None
    then show ?thesis by (simp add: dict_get_def rdict_find_def dict_abs_def)
  next
    case (Some k')
    have "map_option e_val (map_option (\<lambda>w. \<lparr>e_key = Some k', e_val = w\<rparr>) x) = x" for x :: "'b option option"
      by (cases x) simp_all
    with dict_inv_find [OF s, of k'] Some show ?thesis by (simp add: dict_get_def)
  qed
qed

section \<open>The size, clearing, creating\<close>

lemma card_filter_set: "distinct xs \<Longrightarrow> card {x \<in> set xs. P x} = length (filter P xs)"
  using distinct_card [of "filter P xs"] by (simp add: set_filter Int_def)

lemma table_distinct:
  assumes "table_ok hash n b ents"
  shows "distinct (map e_key (filter (\<lambda>e. e_key e \<noteq> None) ents))"
proof -
  have "distinct (map e_key (filter (\<lambda>e. e_key e \<noteq> None) es))"
    if "\<And>i j k. i < length es \<Longrightarrow> j < length es \<Longrightarrow> e_key (es ! i) = Some k \<Longrightarrow> e_key (es ! j) = Some k \<Longrightarrow> i = j"
    for es :: "('a, 'b) rdict_entry list"
    using that
  proof (induction es)
    case (Cons e es)
    have "distinct (map e_key (filter (\<lambda>e. e_key e \<noteq> None) es))"
    proof (rule Cons.IH)
      fix i j k
      assume "i < length es" "j < length es" "e_key (es ! i) = Some k" "e_key (es ! j) = Some k"
      then show "i = j" using Cons.prems [of "Suc i" "Suc j" k] by simp
    qed
    moreover have "e_key x \<noteq> e_key e" if e: "e_key e \<noteq> None" and x: "x \<in> set es" for x
    proof
      assume same: "e_key x = e_key e"
      obtain k i where "e_key e = Some k" "i < length es" "es ! i = x" using e x by (auto simp: in_set_conv_nth)
      with Cons.prems [of 0 "Suc i" k] same show False by simp
    qed
    ultimately show ?case by (auto simp del: not_None_eq)
  qed simp
  then show ?thesis using table_okD(6) [OF assms] by blast
qed

lemma table_dom:
  assumes "table_ok hash n b ents"
  shows "{k. lookup ents k \<noteq> None} = the ` set (map e_key (filter (\<lambda>e. e_key e \<noteq> None) ents))" (is "?l = ?r")
    and "finite {k. lookup ents k \<noteq> None}" "card {k. lookup ents k \<noteq> None} = occupied ents"
proof -
  show eq: "?l = ?r"
    by (force simp: lookup_None in_set_conv_nth image_iff)
  then show "finite {k. lookup ents k \<noteq> None}" by simp
  have "inj_on the (set (map e_key (filter (\<lambda>e. e_key e \<noteq> None) ents)))"
    by (rule inj_onI) auto
  then have "card ?r = card (set (map e_key (filter (\<lambda>e. e_key e \<noteq> None) ents)))"
    by (rule card_image)
  also have "\<dots> = occupied ents"
    using distinct_card [OF table_distinct [OF assms]] by (simp add: occupied_def)
  finally show "card {k. lookup ents k \<noteq> None} = occupied ents" using eq by simp
qed

lemma dict_size_card:
  assumes "dict_ok B d"
  shows "d_size d = card (dom (dict_abs d))" "finite (dom (dict_abs d))"
proof -
  note d = dict_okD [OF assms]
  note td = table_dom [OF d(4)]
  have dom: "dom (dict_abs d) = Some ` {k. lookup (cells d) k \<noteq> None} \<union> (if d_null d = None then {} else {None})"
  proof (rule set_eqI)
    fix x
    show "x \<in> dom (dict_abs d) \<longleftrightarrow>
        x \<in> Some ` {k. lookup (cells d) k \<noteq> None} \<union> (if d_null d = None then {} else {None})"
      using d(9) by (cases x) (auto simp: dom_def dict_abs_def [of _ None])
  qed
  show "finite (dom (dict_abs d))" unfolding dom using td(2) by simp
  have "card (Some ` {k. lookup (cells d) k \<noteq> None}) = occupied (cells d)"
    using td(3) by (simp add: card_image)
  moreover have "finite (Some ` {k. lookup (cells d) k \<noteq> None})" using td(2) by simp
  ultimately show "d_size d = card (dom (dict_abs d))"
    unfolding dom d(8) by (subst card_Un_disjoint) auto
qed

lemma rdict_clear_spec:
  assumes "dict_ok B d" "2 \<le> d_bucket_capacity d"
  shows "\<exists>d'. rdict_clear (Some d) = Some (Some d') \<and> dict_ok B d' \<and> dict_abs d' = Map.empty \<and> d_size d' = 0 \<and>
    d_freed_keys d' = d_freed_keys d @ map e_key ((case d_null d of None \<Rightarrow> [] | Some e \<Rightarrow> [e]) @ entries_from (cells d) 0) \<and>
    d_freed_values d' = d_freed_values d @ map e_val ((case d_null d of None \<Rightarrow> [] | Some e \<Rightarrow> [e]) @ entries_from (cells d) 0)"
proof -
  note d = dict_okD [OF assms(1)] and t = table_okD [OF dict_okD(4) [OF assms(1)]]
  define d1 where "d1 = (case d_null d of
      None \<Rightarrow> d
    | Some e \<Rightarrow> let (d', e') = free_key d e; (d'', _) = free_value d' e' in d''\<lparr>d_null := None\<rparr>)"
  have d1: "cells d1 = cells d" "d_hash d1 = d_hash d" "d_buckets d1 = d_buckets d" "d_null d1 = None"
    "d_bucket_capacity d1 = d_bucket_capacity d" "d_copy_key d1 = d_copy_key d"
    "d_entry d1 = d_entry d" "d_eq d1 = d_eq d" "d_capacity d1 = d_capacity d"
    "d_freed_keys d1 = d_freed_keys d @ map e_key (case d_null d of None \<Rightarrow> [] | Some e \<Rightarrow> [e])"
    "d_freed_values d1 = d_freed_values d @ map e_val (case d_null d of None \<Rightarrow> [] | Some e \<Rightarrow> [e])"
    by (simp_all add: d1_def cells_def free_value_def free_key_def split: option.splits)
  have "rdict_next d1 None = rdict_next d1 (Some 0)" by (simp add: rdict_next_def d1(4))
  then have "iterate d1 None = iterate d1 (Some 0)" by (subst (1 2) iterate.simps) simp
  also have "\<dots> = Some (entries_from (cells d) 0)"
    using iterate_entries [of "d_hash d1" "d_buckets d1" d1 0] d assms(2) by (simp add: d1)
  finally have it: "iterate d1 None = Some (entries_from (cells d) 0)" .
  define d2 where "d2 = d1\<lparr>d_freed_keys := d_freed_keys d1 @ map e_key (entries_from (cells d) 0),
      d_freed_values := d_freed_values d1 @ map e_val (entries_from (cells d) 0), d_size := 0,
      d_entry := Some (map (\<lambda>_. empty_entry) (cells d))\<rparr>"
  have eq: "rdict_clear (Some d) = Some (Some d2)"
    using it d(2) d1(7) by (simp add: rdict_clear_def d1_def [symmetric] d2_def Let_def)
  have cells2: "cells d2 = replicate (d_buckets d * d_bucket_capacity d) empty_entry"
    using t(3) by (simp add: d2_def cells_def map_replicate_const)
  have occ: "occupied (cells d2) = 0" unfolding cells2 by (simp add: occupied_def empty_entry_def)
  have "dict_ok B d2"
    unfolding dict_ok_def using d t d1 occ cells2 empty_table_ok [OF t(1,2), of "d_hash d"]
    by (simp add: d2_def copied_key_def map_replicate_const)
  moreover have "dict_abs d2 = Map.empty"
  proof (rule ext)
    fix k show "dict_abs d2 k = None"
    proof (cases k)
      case None
      then show ?thesis using d1(4) by (simp add: dict_abs_def d2_def)
    next
      case (Some k')
      have "d_entry d2 = Some (cells d2)" by (simp add: d2_def cells_def)
      moreover have "lookup (cells d2) k' = None"
        unfolding lookup_None cells2 by (simp add: empty_entry_def)
      ultimately show ?thesis using Some by (simp add: dict_abs_def)
    qed
  qed
  ultimately show ?thesis using eq d1(10,11) by (intro exI [of _ d2]) (simp add: d2_def)
qed

lemma rdict_create_spec:
  assumes "0 < c" "c \<le> 2 ^ 29" "0 < b" "b \<le> B" "B \<le> 2 ^ 28" "env_ok B env"
    and "d_eq fns = (=)" "\<forall>k. copied_key fns (Some k) = Some k"
  shows "\<exists>d. rdict_create env fns c b = Some d \<and> dict_abs d = Map.empty \<and>
    d_hash d = d_hash fns \<and> d_bucket_capacity d = b \<and> copied_value d = copied_value fns \<and>
    (d_entry d = None \<or> dict_ok B d \<and> c \<le> length (cells d))"
proof -
  let ?d = "fns\<lparr>d_entry := None, d_null := None, d_size := 0, d_capacity := c, d_buckets := 0,
      d_bucket_capacity := b, d_freed_keys := [], d_freed_values := []\<rparr>"
  let ?s = "scale_capacity c"
  let ?n = "if ?s mod b = 0 then ?s div b else ?s div b + 1"
  have s: "c \<le> ?s" "?s \<le> 2 * c" by (rule scale_capacity_bounds)+
  then have s32: "?s < 2 ^ 32" "?s \<noteq> 0" using assms(1,2) by auto
  note n = bucket_count_bounds [OF assms(3), of ?s]
  have n0: "0 < ?n" using n(1) s32(2) by (metis gr0I mult_0 le_zero_eq)
  have dest: "(?n * b) mod 2 ^ 32 = ?n * b" using n(2) s assms by simp
  have cv: "copied_value (fns\<lparr>d_entry := a, d_null := e, d_size := z, d_capacity := x, d_buckets := y,
      d_bucket_capacity := w, d_freed_keys := u, d_freed_values := v\<rparr>) = copied_value fns" for a e z x y w u v
    by (rule ext) (simp add: copied_value_def)
  have create: "rdict_create env fns c b = map_option fst (expand_buckets env ?d c)"
    using assms(1,3) by (cases "expand_buckets env ?d c") (auto simp: rdict_create_def)
  show ?thesis
  proof (cases "de_calloc env (?n * b)")
    case False
    then have "expand_buckets env ?d c = Some (?d, rdict_code_error)"
      using s32 dest assms(3) by (subst expand_buckets.simps) (simp add: Let_def)
    then show ?thesis unfolding create
      by (intro exI [of _ ?d]) (simp add: dict_abs_def fun_eq_iff cv split: option.splits)
  next
    case True
    then have le: "?n * b \<le> B" using assms(6) by (simp add: env_ok_def)
    define d where "d = ?d\<lparr>d_capacity := ?n * b, d_size := 0, d_buckets := ?n,
      d_entry := Some (replicate (?n * b) empty_entry)\<rparr>"
    have ex: "expand_buckets env ?d c = Some (d, rdict_code_ok)"
      using s32 dest assms(3) True by (subst expand_buckets.simps) (simp add: Let_def d_def)
    have cells: "cells d = replicate (?n * b) empty_entry" unfolding d_def by (simp add: cells_def)
    have occ: "occupied (cells d) = 0" unfolding cells by (simp add: occupied_def empty_entry_def)
    have fields: "d_entry d = Some (cells d)" "d_eq d = d_eq fns" "d_hash d = d_hash fns" "d_buckets d = ?n"
      "d_bucket_capacity d = b" "d_capacity d = ?n * b" "d_size d = 0" "d_null d = None" "d_copy_key d = d_copy_key fns"
      unfolding cells unfolding d_def by simp_all
    have t: "table_ok (d_hash fns) ?n b (cells d)" unfolding cells using n0 assms(3) by (rule empty_table_ok)
    have len: "length (cells d) = ?n * b" unfolding cells by simp
    have "dict_ok B d"
      unfolding dict_ok_def fields len using assms(5,7,8) t occ le
      by (simp add: copied_key_def fields(1,9))
    moreover have "dict_abs d = Map.empty"
    proof (rule ext)
      fix k show "dict_abs d k = None"
      proof (cases k)
        case None
        then show ?thesis using fields(8) by (simp add: dict_abs_def)
      next
        case (Some k')
        have "lookup (cells d) k' = None" unfolding lookup_None cells by (simp add: empty_entry_def)
        then show ?thesis using Some fields(1) by (simp add: dict_abs_def)
      qed
    qed
    moreover have "copied_value d = copied_value fns" unfolding d_def by (rule ext) (simp add: copied_value_def)
    moreover have "c \<le> length (cells d)" using len n(1) s(1) by linarith
    ultimately show ?thesis using create ex fields by (intro exI [of _ d]) simp
  qed
qed

section \<open>Properties\<close>

text \<open>
  A dictionary of natural numbers under the identity hash, for the instances below: four empty
  buckets of two cells, and an allocator of at most 64 entries.
\<close>

definition id_dict :: "(nat, nat) rdict" where
  "id_dict = \<lparr>d_entry = Some (replicate (4 * 2) empty_entry), d_null = None, d_size = 0, d_capacity = 8,
    d_buckets = 4, d_bucket_capacity = 2, d_hash = of_nat, d_eq = (=), d_copy_key = None, d_copy_value = None,
    d_freed_keys = [], d_freed_values = []\<rparr>"

definition env64 :: rdict_env where
  "env64 = \<lparr>de_calloc = (\<lambda>n. n \<le> 64), de_malloc_entry = True\<rparr>"

lemma env64_ok: "env_ok 64 env64"
  by (simp add: env_ok_def env64_def)

lemma id_dict_inv: "dict_inv 64 {1, 2, 3, 4, 8} id_dict"
proof -
  have cells: "cells id_dict = replicate (4 * 2) empty_entry" by (simp add: cells_def id_dict_def)
  have "occupied (cells id_dict) = 0" unfolding cells by (simp add: occupied_def empty_entry_def)
  moreover have "table_ok (d_hash id_dict) (d_buckets id_dict) (d_bucket_capacity id_dict) (cells id_dict)"
    unfolding cells by (simp add: id_dict_def del: One_nat_def) (use empty_table_ok [of 4 2 of_nat] in simp)
  ultimately have ok: "dict_ok 64 id_dict"
    unfolding dict_ok_def cells by (simp add: id_dict_def copied_key_def)
  moreover have "dict_abs id_dict (Some k) = None" for k
    unfolding dict_okD(9) [OF ok] lookup_None cells by (simp add: empty_entry_def)
  moreover have "spread of_nat {1, 2, 3, 4, 8 :: nat} 2 4 64"
    unfolding spread_def
  proof (intro conjI allI impI)
    fix n :: nat assume "4 \<le> n \<and> n * 2 \<le> 64"
    then have "n \<in> set [4..<33]" unfolding set_upt by simp
    moreover have "\<forall>n\<in>set [4..<33]. length (filter (\<lambda>k. k mod n = n - 1) [1, 2, 3, 4, 8 :: nat]) < 2"
      by code_simp
    ultimately have "card {k \<in> set [1, 2, 3, 4, 8 :: nat]. k mod n = n - 1} < 2"
      by (subst card_filter_set) auto
    moreover have "{k \<in> {1, 2, 3, 4, 8 :: nat}. home of_nat n k = n - 1} = {k \<in> set [1, 2, 3, 4, 8 :: nat]. k mod n = n - 1}"
      by (auto simp: home_def)
    ultimately show "card {k \<in> {1, 2, 3, 4, 8 :: nat}. home of_nat n k = n - 1} < 2" by simp
  qed simp
  ultimately show ?thesis by (simp add: dict_inv_def id_dict_def)
qed





text \<open>
  Where \<open>rdict_find\<close> is defined.  A key that is present is found.  For an absent key the walk
  has a result unless every cell from the key's bucket to the end of the table is taken: then it
  reads behind the table.
\<close>

theorem rdict_find_exact:
  assumes "dict_ok B d"
  shows "rdict_find (Some d) (Some k) =
    (case dict_abs d (Some k) of
       Some w \<Rightarrow> Some (Some \<lparr>e_key = Some k, e_val = w\<rparr>)
     | None \<Rightarrow> if \<forall>j. home (d_hash d) (d_buckets d) k * d_bucket_capacity d \<le> j \<and> j < length (cells d) \<longrightarrow>
           e_key (cells d ! j) \<noteq> None then None else Some None)"
  unfolding dict_okD(9) [OF assms] by (rule rdict_find_spec [OF assms])

theorem rdict_find_exact_witness: "rdict_find (Some id_dict) (Some 7) = Some None"
proof -
  have ok: "dict_ok 64 id_dict" using id_dict_inv by (simp add: dict_inv_def)
  have cells: "cells id_dict = replicate (4 * 2) empty_entry" by (simp add: cells_def id_dict_def)
  have "dict_abs id_dict (Some 7) = None"
    unfolding dict_okD(9) [OF ok] lookup_None cells by (simp add: empty_entry_def)
  moreover have "home (d_hash id_dict) (d_buckets id_dict) 7 * d_bucket_capacity id_dict = 6"
    by (simp add: home_def id_dict_def)
  then have "\<exists>j. home (d_hash id_dict) (d_buckets id_dict) 7 * d_bucket_capacity id_dict \<le> j \<and>
      j < length (cells id_dict) \<and> e_key (cells id_dict ! j) = None"
    by (intro exI [of _ 7]) (simp add: cells empty_entry_def)
  ultimately show ?thesis using rdict_find_exact [OF ok, of 7] by auto
qed

text \<open>The iteration and the map.\<close>

lemma iterate_lookup:
  assumes "dict_ok B d" "2 \<le> d_bucket_capacity d"
  defines "es \<equiv> filter (\<lambda>e. e_key e \<noteq> None) (cells d)"
  shows "iterate d None = Some ((case d_null d of None \<Rightarrow> [] | Some e \<Rightarrow> [e]) @ es) \<and>
    distinct (map e_key es) \<and> (\<forall>k v. (\<exists>e\<in>set es. e_key e = Some k \<and> e_val e = v) \<longleftrightarrow> dict_abs d (Some k) = Some v)"
proof -
  note d = dict_okD [OF assms(1)]
  have "(\<exists>e\<in>set es. e_key e = Some k \<and> e_val e = v) \<longleftrightarrow> dict_abs d (Some k) = Some v" for k v
    unfolding d(9) lookup_Some [OF d(4)] es_def by (auto simp: in_set_conv_nth)
  with iterate_all [OF assms(1,2)] table_distinct [OF d(4)] show ?thesis unfolding es_def by blast
qed

text \<open>
  C30: Iterating from \<open>rdict_it_first\<close> hands out the null entry, if there is one, and then every
  entry of the table once; \<open>rdict_clear\<close> frees exactly these keys and values, in that order, and
  leaves an empty well-formed dictionary.  (With buckets of a single cell \<open>rdict_next\<close> would not
  look at the last cell.)
\<close>

theorem rdict_iterate_clear:
  assumes "dict_ok B d" "2 \<le> d_bucket_capacity d"
  shows "\<exists>es d'. iterate d None = Some ((case d_null d of None \<Rightarrow> [] | Some e \<Rightarrow> [e]) @ es) \<and>
    distinct (map e_key es) \<and>
    (\<forall>k v. (\<exists>e\<in>set es. e_key e = Some k \<and> e_val e = v) \<longleftrightarrow> dict_abs d (Some k) = Some v) \<and>
    rdict_clear (Some d) = Some (Some d') \<and> dict_ok B d' \<and> dict_abs d' = Map.empty \<and> d_size d' = 0 \<and>
    d_freed_keys d' = d_freed_keys d @ map e_key ((case d_null d of None \<Rightarrow> [] | Some e \<Rightarrow> [e]) @ es) \<and>
    d_freed_values d' = d_freed_values d @ map e_val ((case d_null d of None \<Rightarrow> [] | Some e \<Rightarrow> [e]) @ es)"
proof -
  let ?es = "filter (\<lambda>e. e_key e \<noteq> None) (cells d)"
  have from0: "entries_from (cells d) 0 = ?es" by (simp add: entries_from_def)
  obtain d' where d': "rdict_clear (Some d) = Some (Some d')" "dict_ok B d'" "dict_abs d' = Map.empty" "d_size d' = 0"
    "d_freed_keys d' = d_freed_keys d @ map e_key ((case d_null d of None \<Rightarrow> [] | Some e \<Rightarrow> [e]) @ ?es)"
    "d_freed_values d' = d_freed_values d @ map e_val ((case d_null d of None \<Rightarrow> [] | Some e \<Rightarrow> [e]) @ ?es)"
    using rdict_clear_spec [OF assms] unfolding from0 by blast
  with iterate_lookup [OF assms] show ?thesis by blast
qed

theorem rdict_iterate_clear_witness: "\<exists>d'. rdict_clear (Some id_dict) = Some (Some d') \<and> dict_abs d' = Map.empty"
proof -
  have "dict_ok 64 id_dict" "2 \<le> d_bucket_capacity id_dict"
    using id_dict_inv by (simp_all add: dict_inv_def id_dict_def)
  from rdict_iterate_clear [OF this] show ?thesis by blast
qed

text \<open>
  \<open>rdict_create\<close>: with memory for the table the new dictionary is well formed, empty and has
  at least the requested capacity; when the allocator refuses, the caller still gets a dictionary,
  but one without a table.
\<close>

theorem rdict_create_empty:
  assumes "0 < c" "c \<le> 2 ^ 29" "0 < b" "b \<le> B" "B \<le> 2 ^ 28" "env_ok B env"
    and "d_eq fns = (=)" "\<forall>k. copied_key fns (Some k) = Some k"
  shows "\<exists>d. rdict_create env fns c b = Some d \<and> dict_abs d = Map.empty \<and>
    d_hash d = d_hash fns \<and> d_bucket_capacity d = b \<and> copied_value d = copied_value fns \<and>
    (d_entry d = None \<or> dict_ok B d \<and> c \<le> length (cells d))"
  using rdict_create_spec [OF assms] .

theorem rdict_create_empty_witness:
  "\<exists>d. rdict_create env64 id_dict 5 2 = Some d \<and> dict_abs d = Map.empty \<and> d_bucket_capacity d = 2"
  using rdict_create_empty [of 5 2 64 env64 id_dict] env64_ok
  by (auto simp: id_dict_def copied_key_def)

text \<open>Three additions into a new dictionary with buckets of two cells.\<close>

definition small_env :: rdict_env where
  "small_env = \<lparr>de_calloc = (\<lambda>n. n \<le> 1000), de_malloc_entry = True\<rparr>"

definition overrun_dict :: "(nat, nat) rdict option" where
  "overrun_dict = do {
     d0 \<leftarrow> rdict_create small_env id_dict 2 2;
     (d1, _) \<leftarrow> dict_put small_env d0 (Some 7) (Some 0);
     (d2, _) \<leftarrow> dict_put small_env d1 (Some 15) (Some 0);
     (d3, _) \<leftarrow> dict_put small_env d2 (Some 1) (Some 0);
     Some d3
   }"

lemma sample_capacities:
  "scale_capacity 2 = 2" "scale_capacity 4 = 5" "scale_capacity 12 = 16"
  "expand_capacity (Suc (Suc 0)) = 4" "expand_capacity (Suc (Suc (Suc (Suc (Suc (Suc 0)))))) = 12"
  by (simp_all add: scale_capacity_def round_f32_def expand_capacity_def)

lemma sample_rehash:
  "rehash (of_nat :: nat \<Rightarrow> 64 word) 3 2 [\<lparr>e_key = Some 7, e_val = Some (0 :: nat)\<rparr>, empty_entry] 2 0 (replicate 6 empty_entry) =
     Some (Some [empty_entry, empty_entry, \<lparr>e_key = Some 7, e_val = Some 0\<rparr>, empty_entry, empty_entry, empty_entry])"
  "rehash (of_nat :: nat \<Rightarrow> 64 word) 8 2 [\<lparr>e_key = Some 15, e_val = Some (0 :: nat)\<rparr>, empty_entry,
       \<lparr>e_key = Some 7, e_val = Some 0\<rparr>, empty_entry, empty_entry, empty_entry] 6 0 (replicate 16 empty_entry) =
     Some (Some [empty_entry, empty_entry, empty_entry, empty_entry, empty_entry, empty_entry, empty_entry, empty_entry,
       empty_entry, empty_entry, empty_entry, empty_entry, empty_entry, empty_entry,
       \<lparr>e_key = Some 15, e_val = Some 0\<rparr>, \<lparr>e_key = Some 7, e_val = Some 0\<rparr>])"
  by code_simp+
definition sample_dict :: "nat \<Rightarrow> nat \<Rightarrow> (nat, nat) rdict_entry list \<Rightarrow> (nat, nat) rdict" where
  "sample_dict n buckets ents = id_dict\<lparr>d_entry := Some ents, d_size := n, d_capacity := length ents, d_buckets := buckets\<rparr>"

abbreviation (input) e_free :: "(nat, nat) rdict_entry" where "e_free \<equiv> empty_entry"
abbreviation (input) e_of :: "nat \<Rightarrow> (nat, nat) rdict_entry" where "e_of k \<equiv> \<lparr>e_key = Some k, e_val = Some 0\<rparr>"

lemma sample_fields:
  "find_bucket (sample_dict n m ents) k = find_bucket_raw of_nat k m 2" "d_entry (sample_dict n m ents) = Some ents"
  "d_eq (sample_dict n m ents) = (=)" "d_bucket_capacity (sample_dict n m ents) = 2"
  "d_capacity (sample_dict n m ents) = length ents" "d_hash (sample_dict n m ents) = of_nat"
  by (simp_all add: sample_dict_def find_bucket_def id_dict_def)

lemma sample_expand:
  "rehash (of_nat :: nat \<Rightarrow> 64 word) count 2 ents l 0 (replicate (count * 2) empty_entry) = Some (Some new) \<Longrightarrow>
    l = length ents \<Longrightarrow>
    length new = count * 2 \<Longrightarrow> 0 < count \<Longrightarrow> count < 100 \<Longrightarrow>
    scale_capacity cap \<le> count * 2 \<Longrightarrow> count * 2 < scale_capacity cap + 2 \<Longrightarrow>
    expand_buckets small_env (sample_dict n m ents) cap = Some (sample_dict n count new, 0)"
proof -
  assume a: "rehash (of_nat :: nat \<Rightarrow> 64 word) count 2 ents l 0 (replicate (count * 2) empty_entry) = Some (Some new)" "l = length ents"
    "length new = count * 2" "0 < count" "count < 100" "scale_capacity cap \<le> count * 2" "count * 2 < scale_capacity cap + 2"
  let ?s = "scale_capacity cap"
  have n: "(if ?s mod 2 = 0 then ?s div 2 else ?s div 2 + 1) = count"
    using a(6,7) by (cases "?s mod 2 = 0") presburger+
  show ?thesis
    using a n unfolding expand_buckets.simps [of small_env _ cap] Let_def sample_fields n
    by (simp add: small_env_def) (simp add: sample_dict_def)
qed

lemma sample_put:
  assumes "scan (=) ents k (k mod m * 2) = Some p" "0 < m" "k < 2 ^ 64"
  shows "add_key small_env (sample_dict n m ents) k v =
    (if p + 1 \<ge> k mod m * 2 + 2
     then do {
       (d1, code) \<leftarrow> expand_buckets small_env (sample_dict n m ents) (expand_capacity (length ents));
       if code \<noteq> rdict_code_ok then Some (d1, code) else add_key small_env d1 k v
     }
     else Some (add_at (sample_dict n m ents) ents p k v, rdict_code_ok))"
  using assms by (subst add_key.simps) (simp add: sample_fields find_bucket_raw_def unat_of_nat)

lemma sample_adds:
  "rdict_create small_env id_dict 2 2 = Some (sample_dict 0 1 [e_free, e_free])"
  "dict_put small_env (sample_dict 0 1 [e_free, e_free]) (Some 7) (Some 0) = Some (sample_dict 1 1 [e_of 7, e_free], 0)"
  "dict_put small_env (sample_dict 1 1 [e_of 7, e_free]) (Some 15) (Some 0) =
     Some (sample_dict 2 3 [e_of 15, e_free, e_of 7, e_free, e_free, e_free], 0)"
  "dict_put small_env (sample_dict 2 3 [e_of 15, e_free, e_of 7, e_free, e_free, e_free]) (Some 1) (Some 0) =
     Some (sample_dict 3 8 [e_free, e_free, e_of 1, e_free, e_free, e_free, e_free, e_free,
       e_free, e_free, e_free, e_free, e_free, e_free, e_of 15, e_of 7], 0)"
proof -
  note put = dict_put_def rdict_add_def
  note at = add_at_def copied_key_def copied_value_def sample_dict_def id_dict_def empty_entry_def Let_def
  have two: "replicate 2 x = [x, x]" for x :: "(nat, nat) rdict_entry" by (simp add: numeral_2_eq_2)
  show "rdict_create small_env id_dict 2 2 = Some (sample_dict 0 1 [e_free, e_free])"
    unfolding rdict_create_def Let_def
    by (subst expand_buckets.simps) (simp add: sample_dict_def id_dict_def small_env_def sample_capacities two)
  have "scan (=) [e_free, e_free] 7 (7 mod 1 * 2) = Some 0" by code_simp
  from sample_put [OF this, of 0 "Some 0"]
  show "dict_put small_env (sample_dict 0 1 [e_free, e_free]) (Some 7) (Some 0) = Some (sample_dict 1 1 [e_of 7, e_free], 0)"
    by (simp add: put) (simp add: at)
  have ex1: "expand_buckets small_env (sample_dict 1 1 [e_of 7, e_free]) 4 =
      Some (sample_dict 1 3 [e_free, e_free, e_of 7, e_free, e_free, e_free], 0)"
    by (rule sample_expand [where l = 2]) (simp_all add: sample_rehash sample_capacities)
  have "scan (=) [e_of 7, e_free] 15 (15 mod 1 * 2) = Some 1"
    "scan (=) [e_free, e_free, e_of 7, e_free, e_free, e_free] 15 (15 mod 3 * 2) = Some 0" by code_simp+
  from sample_put [OF this(1), of 1 "Some 0"] sample_put [OF this(2), of 1 "Some 0"] ex1
  show "dict_put small_env (sample_dict 1 1 [e_of 7, e_free]) (Some 15) (Some 0) =
     Some (sample_dict 2 3 [e_of 15, e_free, e_of 7, e_free, e_free, e_free], 0)"
    by (simp add: put sample_capacities) (simp add: at)
  have ex2: "expand_buckets small_env (sample_dict 2 3 [e_of 15, e_free, e_of 7, e_free, e_free, e_free]) 12 =
      Some (sample_dict 2 8 [e_free, e_free, e_free, e_free, e_free, e_free, e_free, e_free,
       e_free, e_free, e_free, e_free, e_free, e_free, e_of 15, e_of 7], 0)"
    by (rule sample_expand [where l = 6]) (simp_all add: sample_rehash sample_capacities)
  have "scan (=) [e_of 15, e_free, e_of 7, e_free, e_free, e_free] 1 (1 mod 3 * 2) = Some 3"
    "scan (=) [e_free, e_free, e_free, e_free, e_free, e_free, e_free, e_free,
       e_free, e_free, e_free, e_free, e_free, e_free, e_of 15, e_of 7] 1 (1 mod 8 * 2) = Some 2" by code_simp+
  from sample_put [OF this(1), of 2 "Some 0"] sample_put [OF this(2), of 2 "Some 0"] ex2
  show "dict_put small_env (sample_dict 2 3 [e_of 15, e_free, e_of 7, e_free, e_free, e_free]) (Some 1) (Some 0) =
     Some (sample_dict 3 8 [e_free, e_free, e_of 1, e_free, e_free, e_free, e_free, e_free,
       e_free, e_free, e_free, e_free, e_free, e_free, e_of 15, e_of 7], 0)"
    by (simp add: put sample_capacities) (simp add: at)
qed

text \<open>
  C22: The walk behind the table does happen.  In a dictionary with buckets of two cells and the
  identity hash, created for two entries, adding 7, 15 and 1 leaves eight buckets with the last
  one full: the keys present are found, but looking for the absent key 23, or adding it, reads
  behind the table.
\<close>

theorem rdict_find_overrun:
  "\<exists>d. overrun_dict = Some d \<and> d_size d = 3 \<and> d_buckets d = 8 \<and>
    rdict_find (Some d) (Some 1) = Some (Some (e_of 1)) \<and> rdict_find (Some d) (Some 7) = Some (Some (e_of 7)) \<and>
    rdict_find (Some d) (Some 15) = Some (Some (e_of 15)) \<and>
    rdict_find (Some d) (Some 23) = None \<and> rdict_add small_env (Some d) (Some 23) v = None"
proof -
  let ?es = "[e_free, e_free, e_of 1, e_free, e_free, e_free, e_free, e_free,
       e_free, e_free, e_free, e_free, e_free, e_free, e_of 15, e_of 7]"
  let ?d = "sample_dict 3 8 ?es"
  have d: "overrun_dict = Some ?d" by (simp add: overrun_dict_def sample_adds del: One_nat_def)
  have sc: "scan (=) ?es 1 (1 mod 8 * 2) = Some 2" "scan (=) ?es 7 (7 mod 8 * 2) = Some 15"
    "scan (=) ?es 15 (15 mod 8 * 2) = Some 14" "scan (=) ?es 23 (23 mod 8 * 2) = None" by code_simp+
  have find: "rdict_find (Some ?d) (Some k) = (case scan (=) ?es k (k mod 8 * 2) of
      None \<Rightarrow> None | Some p \<Rightarrow> Some (if e_key (?es ! p) = None then None else Some (?es ! p)))" if "k < 2 ^ 64" for k
    using that by (simp add: rdict_find_def sample_fields find_bucket_raw_def unat_of_nat split: option.splits)
  have "rdict_add small_env (Some ?d) (Some 23) v = None"
    using sc(4) unfolding rdict_add_def by (simp, subst add_key.simps) (simp add: sample_fields find_bucket_raw_def)
  moreover have "rdict_find (Some ?d) (Some 23) = None" using find [of 23] sc(4) by simp
  moreover have "rdict_find (Some ?d) (Some 1) = Some (Some (e_of 1))"
    "rdict_find (Some ?d) (Some 7) = Some (Some (e_of 7))" "rdict_find (Some ?d) (Some 15) = Some (Some (e_of 15))"
    using find [of 1] find [of 7] find [of 15] sc by (simp_all del: One_nat_def)
  moreover have "d_size ?d = 3 \<and> d_buckets ?d = 8" by (simp add: sample_dict_def)
  ultimately show ?thesis using d by blast
qed

end
