(* ===== verification/RString.thy ===== *)
theory RString
  imports Prelude
begin

text \<open>
  The string functions of \<open>common/src/rstring.c\<close> and \<open>common/src/rstring_ext.c\<close>.  A \<open>const char*\<close>
  that is only read is the list of its bytes before the terminating NUL (an option when the code
  tests for the null pointer); memory that is written is the list of the cells of the object, NUL
  included, and an access outside it is undefined.  \<open>rstr_empty\<close> is the empty string.  A new block
  holds arbitrary bytes, given by \<open>junk\<close>.
\<close>

type_synonym cstr = bytes

definition cstr_ok :: "cstr \<Rightarrow> bool" where
  "cstr_ok s \<longleftrightarrow> 0 \<notin> set s"

text \<open>One character of a string; the terminating NUL can be read too.\<close>

definition char_at :: "cstr \<Rightarrow> nat \<Rightarrow> byte option" where
  "char_at s i = (if i < length s then Some (s ! i) else if i = length s then Some 0 else None)"

definition fresh :: "(nat \<Rightarrow> byte) \<Rightarrow> nat \<Rightarrow> bytes" where
  "fresh junk n = map junk [0..<n]"

lemma length_fresh [simp]: "length (fresh junk n) = n"
  by (simp add: fresh_def)

text \<open>The string an object holds.\<close>

definition cstr_of :: "bytes \<Rightarrow> cstr" where
  "cstr_of m = takeWhile (\<lambda>c. c \<noteq> 0) m"

lemma cstr_of_append: "cstr_ok s \<Longrightarrow> cstr_of (s @ 0 # r) = s"
  by (induction s) (auto simp: cstr_of_def cstr_ok_def)

lemma cstr_ok_simps [simp]:
  "cstr_ok []" "cstr_ok (x # xs) \<longleftrightarrow> x \<noteq> 0 \<and> cstr_ok xs" "cstr_ok (xs @ ys) \<longleftrightarrow> cstr_ok xs \<and> cstr_ok ys"
  by (auto simp: cstr_ok_def)

lemma cstr_ok_take_drop: "cstr_ok s \<Longrightarrow> cstr_ok (take n s)" "cstr_ok s \<Longrightarrow> cstr_ok (drop n s)"
  by (auto simp: cstr_ok_def dest: in_set_takeD in_set_dropD)

section \<open>Searching with the C library\<close>

text \<open>\<open>strstr\<close> and \<open>strrchr\<close> as positions.\<close>

fun strstr :: "cstr \<Rightarrow> cstr \<Rightarrow> nat option" where
  "strstr s key = (if take (length key) s = key then Some 0
     else case s of [] \<Rightarrow> None | _ # r \<Rightarrow> map_option Suc (strstr r key))"

declare strstr.simps [simp del]

fun strrchr :: "cstr \<Rightarrow> byte \<Rightarrow> nat option" where
  "strrchr [] c = None"
| "strrchr (x # xs) c = (case strrchr xs c of Some i \<Rightarrow> Some (i + 1) | None \<Rightarrow> if x = c then Some 0 else None)"

text \<open>The key occurs at a position.\<close>

definition occurs :: "cstr \<Rightarrow> cstr \<Rightarrow> nat \<Rightarrow> bool" where
  "occurs s key i \<longleftrightarrow> i + length key \<le> length s \<and> take (length key) (drop i s) = key"

definition rstr_index :: "cstr \<Rightarrow> cstr \<Rightarrow> int" where
  "rstr_index src key = (case strstr src key of Some i \<Rightarrow> int i | None \<Rightarrow> -1)"

text \<open>
  The loop of \<open>rstr_last_index\<close>: \<open>cur\<close> is the match found before.  The next search starts one
  character further, which for the match of an empty key at the NUL is outside the object.
\<close>

function last_loop :: "cstr \<Rightarrow> cstr \<Rightarrow> nat \<Rightarrow> int option" where
  "last_loop src key cur =
    (if cur + 1 > length src then None
     else case strstr (drop (cur + 1) src) key of
       None \<Rightarrow> Some (int cur)
     | Some i \<Rightarrow> last_loop src key (cur + 1 + i))"
  by pat_completeness auto
termination by (relation "measure (\<lambda>(src, key, cur). length src - cur)") auto

declare last_loop.simps [simp del]

definition rstr_last_index :: "cstr \<Rightarrow> cstr \<Rightarrow> int option" where
  "rstr_last_index src key =
    (if length key = 1
     then Some (case strrchr src (key ! 0) of Some i \<Rightarrow> int i | None \<Rightarrow> -1)
     else case strstr src key of None \<Rightarrow> Some (-1) | Some i \<Rightarrow> last_loop src key i)"

definition rstr_sub_str :: "cstr option \<Rightarrow> cstr option \<Rightarrow> cstr" where
  "rstr_sub_str src key = (case (src, key) of
     (Some s, Some k) \<Rightarrow> (case strstr s k of None \<Rightarrow> [] | Some i \<Rightarrow> drop i s)
   | _ \<Rightarrow> [])"

section \<open>Copies\<close>

text \<open>\<open>strcmp\<close> is a parameter: the standard fixes only the sign of its result.\<close>

definition rstr_compare_func :: "(cstr \<Rightarrow> cstr \<Rightarrow> int) \<Rightarrow> cstr \<Rightarrow> cstr \<Rightarrow> int" where
  "rstr_compare_func strcmp a b =
    (let ret = strcmp a b in if ret = 0 then 0 else if ret = 1 then 1 else -1)"

definition rstr_cpy :: "(nat \<Rightarrow> bool) \<Rightarrow> cstr option \<Rightarrow> nat \<Rightarrow> cstr" where
  "rstr_cpy alloc data n = (case data of
     None \<Rightarrow> []
   | Some s \<Rightarrow>
       let len = length s mod 2 ^ 32;
           len' = (if n > 0 \<and> n < len then n else len)
       in if alloc (len' + 1) then take len' s else [])"

text \<open>
  The length check of \<open>rstr_sub\<close> adds two \<open>size_t\<close>; the characters then copied must be there.
  Without \<open>new\<close> the rest of the string is returned.
\<close>

definition rstr_sub :: "cstr option \<Rightarrow> nat \<Rightarrow> nat \<Rightarrow> bool \<Rightarrow> cstr option" where
  "rstr_sub src from dest_size new = (case src of
     None \<Rightarrow> None
   | Some s \<Rightarrow>
       if length s < (from + dest_size) mod 2 ^ 64 then None
       else if from > length s then None
       else if \<not> new then Some (drop from s)
       else if from + dest_size > length s then None
       else Some (take dest_size (drop from s)))"

definition rstr_cat :: "bytes \<Rightarrow> cstr \<Rightarrow> nat \<Rightarrow> (bytes \<times> nat) option" where
  "rstr_cat dest src dest_size = do {
     p \<leftarrow> c_strlen dest;
     let position = nat p;
     let room = nat ((int dest_size - int position) mod 2 ^ 64);
     let copy_len = (if dest_size = 0 then length src else min (length src) room);
     d1 \<leftarrow> mem_put dest (int position) (take copy_len src);
     d2 \<leftarrow> mem_put d1 (int (position + copy_len)) [0];
     Some (d2, copy_len)
   }"

definition rstr_fmt :: "bytes option \<Rightarrow> cstr option \<Rightarrow> nat \<Rightarrow> (bytes option \<times> cstr) option" where
  "rstr_fmt dest text max_len = (case (dest, text) of
     (Some d, Some t) \<Rightarrow>
       if max_len = 0 \<or> length t \<ge> max_len
       then do {
         d1 \<leftarrow> (if max_len = 0 then Some d else mem_put d 0 (take (max_len - 1) t @ [0]));
         d2 \<leftarrow> mem_put d1 0 [0];
         Some (Some d2, [])
       }
       else do { d1 \<leftarrow> mem_put d 0 (t @ [0]); Some (Some d1, t) }
   | _ \<Rightarrow> Some (dest, []))"

text \<open>
  \<open>rstr_concat_array\<close>: every string and the delimiter after it go into a new block of the summed
  length; the last delimiter is cut off by the NUL unless \<open>suffix\<close>.
\<close>

fun concat_loop :: "bytes \<Rightarrow> cstr list \<Rightarrow> cstr \<Rightarrow> nat \<Rightarrow> bytes option" where
  "concat_loop dest [] delim at = Some dest"
| "concat_loop dest (s # ss) delim at = do {
     d1 \<leftarrow> mem_put dest (int at) s;
     d2 \<leftarrow> mem_put d1 (int (at + length s)) delim;
     concat_loop d2 ss delim (at + length s + length delim)
   }"

definition rstr_concat_array ::
  "(nat \<Rightarrow> byte) \<Rightarrow> cstr list option \<Rightarrow> cstr option \<Rightarrow> bool \<Rightarrow> cstr option"
where
  "rstr_concat_array junk src delim suffix = (case (src, delim) of
     (Some ss, Some d) \<Rightarrow>
       let dest_len = sum_list (map (\<lambda>s. length s + length d) ss)
       in do {
         m \<leftarrow> concat_loop (fresh junk (dest_len + 1)) ss d 0;
         m' \<leftarrow> mem_put m (if suffix then int dest_len else (int dest_len - int (length d)) mod 2 ^ 64) [0];
         Some (cstr_of m')
       }
   | _ \<Rightarrow> Some [])"

text \<open>A null argument of \<open>rstr_make_array\<close> becomes an empty string.\<close>

definition rstr_make_array :: "(nat \<Rightarrow> bool) \<Rightarrow> cstr option list \<Rightarrow> cstr list" where
  "rstr_make_array alloc args = map (\<lambda>a. rstr_cpy alloc (case a of None \<Rightarrow> Some [] | Some s \<Rightarrow> Some s) 0) args"

section \<open>The growing buffer of \<open>rstr_repl\<close> and \<open>rstr_join\<close>\<close>

text \<open>\<open>do expand_count *= 2; while (max_len * expand_count < need)\<close>.\<close>

function grow_expand :: "nat \<Rightarrow> nat \<Rightarrow> nat" where
  "grow_expand e need =
    (let e' = e * 2 in if 256 * e' < need \<and> 0 < e then grow_expand e' need else e')"
  by pat_completeness auto
termination by (relation "measure (\<lambda>(e, need). need - e)") auto

declare grow_expand.simps [simp del]

text \<open>
  Appending a piece at \<open>pos\<close>: in place while it stays below the size, otherwise into a new block of
  \<open>256 * expand_count + 1\<close> bytes that receives the old contents first.
\<close>

definition ext_append :: "(nat \<Rightarrow> byte) \<Rightarrow> bytes \<times> nat \<Rightarrow> nat \<Rightarrow> cstr \<Rightarrow> (bytes \<times> nat) option" where
  "ext_append junk be pos piece =
    (let (buf, e) = be; need = pos + length piece
     in if need < 256 * e
        then do { b \<leftarrow> mem_put buf (int pos) piece; Some (b, e) }
        else do {
          let e' = grow_expand e need;
          _ \<leftarrow> int32 (256 * int e');
          old \<leftarrow> mem_get buf 0 (int pos);
          b1 \<leftarrow> mem_put (fresh junk (256 * e' + 1)) 0 old;
          b2 \<leftarrow> mem_put b1 (int pos) piece;
          Some (b2, e')
        })"

text \<open>The end of both: the NUL, and the copy of a result still in the buffer on the stack.\<close>

definition ext_finish :: "(nat \<Rightarrow> bool) \<Rightarrow> bytes \<times> nat \<Rightarrow> nat \<Rightarrow> cstr option" where
  "ext_finish alloc be pos =
    (let (buf, e) = be
     in do {
       b \<leftarrow> mem_put buf (int pos) [0];
       Some (if e = 1 then rstr_cpy alloc (Some (cstr_of b)) 0 else cstr_of b)
     })"

text \<open>The loop of \<open>rstr_repl\<close>; with an empty \<open>old_str\<close> it never comes to an end.\<close>

partial_function (option) repl_loop ::
  "(nat \<Rightarrow> byte) \<Rightarrow> cstr \<Rightarrow> cstr \<Rightarrow> cstr \<Rightarrow> bytes \<times> nat \<Rightarrow> nat \<Rightarrow> (cstr \<times> (bytes \<times> nat) \<times> nat) option"
where
  "repl_loop junk src old_str new_str be pos =
    (case strstr src old_str of
       None \<Rightarrow> Some (src, be, pos)
     | Some i \<Rightarrow> do {
         be' \<leftarrow> ext_append junk be pos (take i src @ new_str);
         repl_loop junk (drop (i + length old_str) src) old_str new_str be' (pos + i + length new_str)
       })"

definition rstr_repl ::
  "(nat \<Rightarrow> byte) \<Rightarrow> (nat \<Rightarrow> bool) \<Rightarrow> cstr option \<Rightarrow> cstr option \<Rightarrow> cstr option \<Rightarrow> cstr option"
where
  "rstr_repl junk alloc src old_str new_str = (case (src, old_str) of
     (Some s, Some old) \<Rightarrow> do {
       let new = (case new_str of None \<Rightarrow> [] | Some n \<Rightarrow> n);
       (rest, be, pos) \<leftarrow> repl_loop junk s old new (fresh junk 256, 1) 0;
       (be', pos') \<leftarrow> (if rest = [] then Some (be, pos)
         else do { b \<leftarrow> ext_append junk be pos rest; Some (b, pos + length rest) });
       ext_finish alloc be' pos'
     }
   | _ \<Rightarrow> Some [])"

fun join_loop :: "(nat \<Rightarrow> byte) \<Rightarrow> cstr list \<Rightarrow> bytes \<times> nat \<Rightarrow> nat \<Rightarrow> ((bytes \<times> nat) \<times> nat) option" where
  "join_loop junk [] be pos = Some (be, pos)"
| "join_loop junk (s # ss) be pos = do {
     be' \<leftarrow> ext_append junk be pos s;
     join_loop junk ss be' (pos + length s)
   }"

definition rstr_join :: "(nat \<Rightarrow> byte) \<Rightarrow> (nat \<Rightarrow> bool) \<Rightarrow> cstr list \<Rightarrow> cstr option" where
  "rstr_join junk alloc ss = do {
     (be, pos) \<leftarrow> join_loop junk ss (fresh junk 256, 1) 0;
     ext_finish alloc be pos
   }"

section \<open>Splitting\<close>

text \<open>
  The table of \<open>_kmp_next_array_init\<close>.  A mismatch after a partial match adds an entry and changes
  neither \<open>i\<close> nor \<open>length\<close>: the loop then repeats for ever.
\<close>

partial_function (option) kmp_next_loop :: "cstr \<Rightarrow> nat \<Rightarrow> nat \<Rightarrow> nat list \<Rightarrow> nat list option" where
  "kmp_next_loop pat i len tab =
    (if i < length pat
     then do {
       a \<leftarrow> char_at pat i;
       b \<leftarrow> char_at pat len;
       if a = b then kmp_next_loop pat (i + 1) (len + 1) (tab @ [len + 1])
       else if len \<noteq> 0 then kmp_next_loop pat i len (tab @ [len - 1])
       else kmp_next_loop pat (i + 1) len (tab @ [0])
     }
     else Some tab)"

definition kmp_next_array_init :: "cstr \<Rightarrow> nat list option" where
  "kmp_next_array_init pat = kmp_next_loop pat 1 0 [0]"

text \<open>\<open>rarray_at(array_key, j - 1)\<close>: outside the array, also for \<open>j = 0\<close>, it gives 0.\<close>

definition kmp_fall :: "nat list \<Rightarrow> nat \<Rightarrow> nat" where
  "kmp_fall tab j = (if 0 < j \<and> j - 1 < length tab then tab ! (j - 1) else 0)"

text \<open>
  The search; \<open>count > 0\<close> limits the number of matches.  A match and the test for a mismatch at the
  next position happen in one turn of the loop.
\<close>

partial_function (option) kmp_loop :: "cstr \<Rightarrow> cstr \<Rightarrow> nat list \<Rightarrow> int \<Rightarrow> nat \<Rightarrow> nat \<Rightarrow> nat list \<Rightarrow> nat list option" where
  "kmp_loop str pat tab count i j found =
    (if i < length str
     then do {
       a \<leftarrow> char_at pat j;
       s \<leftarrow> char_at str i;
       let i1 = (if a = s then i + 1 else i);
       let j1 = (if a = s then j + 1 else j);
       if j1 = length pat
       then (if count = 1 then Some (found @ [i1 - j1])
             else kmp_loop str pat tab (if count > 0 then count - 1 else count) i1 (kmp_fall tab j1) (found @ [i1 - j1]))
       else if i1 < length str
       then do {
         a' \<leftarrow> char_at pat j1;
         s' \<leftarrow> char_at str i1;
         if a' = s' then kmp_loop str pat tab count i1 j1 found
         else if j1 \<noteq> 0 then kmp_loop str pat tab count i1 (kmp_fall tab j1) found
         else kmp_loop str pat tab count (i1 + 1) j1 found
       }
       else kmp_loop str pat tab count i1 j1 found
     }
     else Some found)"

definition kmp_search :: "cstr \<Rightarrow> cstr \<Rightarrow> int \<Rightarrow> nat list option" where
  "kmp_search str pat count = do {
     tab \<leftarrow> kmp_next_array_init pat;
     kmp_loop str pat tab count 0 0 []
   }"

text \<open>The tokens between the positions found; \<open>None\<close> inside stands for the null result.\<close>

fun split_tokens :: "cstr \<Rightarrow> nat \<Rightarrow> nat \<Rightarrow> nat list \<Rightarrow> cstr list option" where
  "split_tokens src delim_len from [] = do {
     t \<leftarrow> rstr_sub (Some src) from (nat ((int (length src) - int from) mod 2 ^ 64)) True;
     Some [t]
   }"
| "split_tokens src delim_len from (p # ps) = do {
     t \<leftarrow> rstr_sub (Some src) from (nat ((int p - int from) mod 2 ^ 64)) True;
     ts \<leftarrow> split_tokens src delim_len (p + delim_len) ps;
     Some (t # ts)
   }"

definition rstr_split :: "cstr \<Rightarrow> cstr \<Rightarrow> cstr list option option" where
  "rstr_split src delim = do {
     ps \<leftarrow> kmp_search src delim 0;
     if ps = [] then Some None
     else do { ts \<leftarrow> split_tokens src (length delim) 0 ps; Some (Some ts) }
   }"

section \<open>Digits, blanks, hexadecimal\<close>

definition rstr_is_digit :: "cstr option \<Rightarrow> int \<Rightarrow> bool" where
  "rstr_is_digit src end_index = (case src of
     None \<Rightarrow> False
   | Some s \<Rightarrow>
       if s = [] then False
       else let n = (if end_index \<le> 0 \<or> end_index > int (length s) then length s else nat end_index)
            in list_all (\<lambda>c. 48 \<le> sint c \<and> sint c \<le> 57) (take n s))"

definition rstr_trim :: "bytes option \<Rightarrow> (bytes option \<times> int) option" where
  "rstr_trim m = Some (m, rcode_ok)"

text \<open>
  \<open>rstr_trim_begin\<close> tests the pointer \<open>q\<close> instead of the character: the loop only ends by leaving
  the object.
\<close>

function trim_begin_loop :: "bytes \<Rightarrow> nat \<Rightarrow> nat \<Rightarrow> bool \<Rightarrow> bytes option" where
  "trim_begin_loop m p q checking =
    (if q \<ge> length m then None
     else if checking \<and> (m ! q = 32 \<or> m ! q = 9) then trim_begin_loop m p (q + 1) checking
     else if q + 1 \<ge> length m \<or> p \<ge> length m then None
     else trim_begin_loop (m[p := m ! (q + 1)]) (p + 1) (q + 1) False)"
  by pat_completeness auto
termination by (relation "measure (\<lambda>(m, p, q, checking). length m - q)") auto

declare trim_begin_loop.simps [simp del]

definition rstr_trim_begin :: "bytes option \<Rightarrow> (bytes option \<times> int) option" where
  "rstr_trim_begin mp = (case mp of
     None \<Rightarrow> Some (None, rcode_ok)
   | Some m \<Rightarrow> do { m' \<leftarrow> trim_begin_loop m 0 0 True; Some (Some m', rcode_ok) })"

text \<open>\<open>rstr_trim_end\<close>: from the end downwards blanks and tabs become NUL.\<close>

fun trim_end_loop :: "bytes \<Rightarrow> nat \<Rightarrow> bytes" where
  "trim_end_loop m 0 = m"
| "trim_end_loop m (Suc p) = (if m ! p = 32 \<or> m ! p = 9 then trim_end_loop (m[p := 0]) p else m)"

definition rstr_trim_end :: "bytes option \<Rightarrow> (bytes option \<times> int) option" where
  "rstr_trim_end mp = (case mp of
     None \<Rightarrow> Some (None, rcode_ok)
   | Some m \<Rightarrow> do { n \<leftarrow> c_strlen m; Some (Some (trim_end_loop m (nat n)), rcode_ok) })"

definition hex_table :: bytes where
  "hex_table = map of_nat [48, 49, 50, 51, 52, 53, 54, 55, 56, 57, 65, 66, 67, 68, 69, 70, 0]"

text \<open>
  A \<open>char\<close> is signed: the shift of a byte from 128 on is negative and indexes before the table.
\<close>

definition hex_digit :: "int \<Rightarrow> byte option" where
  "hex_digit i = (if 0 \<le> i \<and> i < 17 then Some (hex_table ! nat i) else None)"

fun hex_loop :: "cstr \<Rightarrow> cstr option" where
  "hex_loop [] = Some []"
| "hex_loop (c # cs) = do {
     a \<leftarrow> hex_digit (sint c div 16);
     b \<leftarrow> hex_digit (sint c mod 16);
     r \<leftarrow> hex_loop cs;
     Some (a # b # r)
   }"

definition rstr_2hex :: "cstr \<Rightarrow> bytes \<Rightarrow> bytes option" where
  "rstr_2hex src dest = do { h \<leftarrow> hex_loop src; mem_put dest 0 (h @ [0]) }"

text \<open>
  \<open>rstr_4hex\<close> takes two characters in each of \<open>strlen(src)\<close> turns; \<open>m\<close> is the object of \<open>src\<close>.
\<close>

definition hex_value :: "byte \<Rightarrow> byte" where
  "hex_value c = (if sint c > 57 then c + 9 else c)"

fun unhex_loop :: "bytes \<Rightarrow> nat \<Rightarrow> nat \<Rightarrow> bytes option" where
  "unhex_loop m q 0 = Some []"
| "unhex_loop m q (Suc n) =
    (if q + 1 \<ge> length m then None
     else map_option ((#) (or (push_bit 4 (hex_value (m ! q))) (and (hex_value (m ! (q + 1))) 15)))
       (unhex_loop m (q + 2) n))"

definition rstr_4hex :: "bytes \<Rightarrow> bytes \<Rightarrow> bytes option" where
  "rstr_4hex src dest = do {
     n \<leftarrow> c_strlen src;
     d \<leftarrow> unhex_loop src 0 (nat n);
     mem_put dest 0 (d @ [0])
   }"

section \<open>Occurrences\<close>

lemma strstr_step:
  "strstr s key = (if take (length key) s = key then Some 0
     else if s = [] then None else map_option Suc (strstr (tl s) key))"
  by (subst strstr.simps) (auto split: list.splits)

lemma occurs_0: "occurs s key 0 \<longleftrightarrow> take (length key) s = key"
  by (auto simp: occurs_def dest: arg_cong [where f = length])

lemma occurs_Suc: "occurs (x # s) key (Suc i) \<longleftrightarrow> occurs s key i"
  by (auto simp: occurs_def)

lemma occurs_drop: "k \<le> length s \<Longrightarrow> occurs (drop k s) key i \<longleftrightarrow> occurs s key (k + i)"
  by (auto simp: occurs_def add.commute)

lemma occurs_le: "occurs s key i \<Longrightarrow> i + length key \<le> length s"
  by (simp add: occurs_def)

lemma strstr_None: "strstr s key = None \<longleftrightarrow> (\<forall>i. \<not> occurs s key i)"
proof (induction s)
  case Nil
  show ?case by (subst strstr_step) (auto simp: occurs_def)
next
  case (Cons x s)
  show ?case
  proof (cases "take (length key) (x # s) = key")
    case True
    then show ?thesis by (subst strstr_step) (auto simp: occurs_0 intro: exI [of _ 0])
  next
    case False
    then have "strstr (x # s) key = None \<longleftrightarrow> (\<forall>i. \<not> occurs s key i)"
      using Cons.IH by (subst strstr_step) simp
    moreover have "(\<forall>i. \<not> occurs (x # s) key i) \<longleftrightarrow> (\<forall>i. \<not> occurs s key i)"
      using False occurs_0 [of "x # s" key] occurs_Suc [of x s key] by (metis not0_implies_Suc)
    ultimately show ?thesis by simp
  qed
qed

lemma strstr_Some: "strstr s key = Some i \<longleftrightarrow> occurs s key i \<and> (\<forall>j<i. \<not> occurs s key j)"
proof (induction s arbitrary: i)
  case Nil
  show ?case by (subst strstr_step) (auto simp: occurs_def)
next
  case (Cons x s)
  show ?case
  proof (cases "take (length key) (x # s) = key")
    case True
    then have "occurs (x # s) key 0" by (simp add: occurs_0)
    with True show ?thesis by (subst strstr_step) auto
  next
    case False
    then have n0: "\<not> occurs (x # s) key 0" by (simp add: occurs_0)
    show ?thesis
    proof (cases i)
      case 0
      with False n0 show ?thesis by (subst strstr_step) auto
    next
      case (Suc n)
      have "strstr (x # s) key = Some (Suc n) \<longleftrightarrow> strstr s key = Some n"
        using False by (subst strstr_step) auto
      moreover have "(\<forall>j<Suc n. \<not> occurs (x # s) key j) \<longleftrightarrow> (\<forall>j<n. \<not> occurs s key j)"
        using n0 occurs_Suc [of x s key] by (metis Suc_less_eq less_Suc_eq_0_disj)
      ultimately show ?thesis using Suc Cons.IH [of n] occurs_Suc [of x s key n] by simp
    qed
  qed
qed

lemma strstr_drop:
  "k \<le> length s \<Longrightarrow> strstr (drop k s) key = Some i \<longleftrightarrow>
    occurs s key (k + i) \<and> (\<forall>j. k \<le> j \<and> j < k + i \<longrightarrow> \<not> occurs s key j)"
proof -
  assume k: "k \<le> length s"
  have "(\<forall>j<i. \<not> occurs s key (k + j)) \<longleftrightarrow> (\<forall>j. k \<le> j \<and> j < k + i \<longrightarrow> \<not> occurs s key j)"
    by (metis add_less_cancel_left le_Suc_ex le_add1)
  with k show ?thesis by (simp add: strstr_Some occurs_drop)
qed

lemma strstr_drop_None:
  "k \<le> length s \<Longrightarrow> strstr (drop k s) key = None \<longleftrightarrow> (\<forall>j\<ge>k. \<not> occurs s key j)"
  by (metis le_Suc_ex le_add1 occurs_drop strstr_None)

lemma strrchr_None: "strrchr s c = None \<longleftrightarrow> c \<notin> set s"
  by (induction s) (auto split: option.splits)

lemma strrchr_Some:
  "strrchr s c = Some i \<Longrightarrow> i < length s \<and> s ! i = c \<and> (\<forall>j. i < j \<and> j < length s \<longrightarrow> s ! j \<noteq> c)"
proof (induction s arbitrary: i)
  case (Cons x s)
  show ?case
  proof (cases "strrchr s c")
    case None
    then have "i = 0" "x = c" using Cons.prems by (auto split: if_splits)
    moreover have "c \<notin> set s" using None by (simp add: strrchr_None)
    moreover have "(x # s) ! j \<noteq> c" if "0 < j" "j < length (x # s)" for j
      using that \<open>c \<notin> set s\<close> by (cases j) (auto simp: in_set_conv_nth)
    ultimately show ?thesis by simp
  next
    case (Some n)
    with Cons.prems have i: "i = Suc n" by simp
    have "(x # s) ! j \<noteq> c" if "i < j" "j < length (x # s)" for j
      using that Cons.IH [OF Some] i by (cases j) auto
    with Cons.IH [OF Some] i show ?thesis by simp
  qed
qed simp

lemma occurs_single: "length key = 1 \<Longrightarrow> occurs s key i \<longleftrightarrow> i < length s \<and> s ! i = key ! 0"
  by (cases key) (auto simp: occurs_def take_Suc_conv_app_nth hd_drop_conv_nth take_Suc)

section \<open>The last occurrence\<close>

definition last_occurrence :: "cstr \<Rightarrow> cstr \<Rightarrow> int \<Rightarrow> bool" where
  "last_occurrence src key r \<longleftrightarrow>
    (if \<exists>i. occurs src key i then \<exists>i. r = int i \<and> occurs src key i \<and> (\<forall>j>i. \<not> occurs src key j) else r = -1)"

lemma last_loop_spec:
  "occurs src key cur \<Longrightarrow> key \<noteq> [] \<Longrightarrow>
    \<exists>i. last_loop src key cur = Some (int i) \<and> occurs src key i \<and> (\<forall>j>i. \<not> occurs src key j)"
proof (induction "length src - cur" arbitrary: cur rule: less_induct)
  case less
  have c: "cur + 1 \<le> length src" using occurs_le [OF less.prems(1)] less.prems(2) by (cases key) auto
  show ?case
  proof (cases "strstr (drop (cur + 1) src) key")
    case None
    then have "\<forall>j>cur. \<not> occurs src key j" using strstr_drop_None [OF c] by auto
    with None c less.prems show ?thesis by (subst last_loop.simps) auto
  next
    case (Some i)
    then have o: "occurs src key (cur + 1 + i)" using strstr_drop [OF c] by simp
    have "length src - (cur + 1 + i) < length src - cur" using c by simp
    from less.hyps [OF this o less.prems(2)] Some c show ?thesis by (subst last_loop.simps) simp
  qed
qed

text \<open>
  \<open>rstr_index\<close> is the first position at which the key occurs, or -1.  \<open>rstr_last_index\<close> is the
  last one, or -1, for every non-empty key, the one-character key included.
\<close>

theorem rstr_index_first_last:
  "(if \<exists>i. occurs src key i
    then \<exists>i. rstr_index src key = int i \<and> occurs src key i \<and> \<not> (\<exists>j<i. occurs src key j)
    else rstr_index src key = -1) \<and>
   (key = [] \<or> (\<exists>r. rstr_last_index src key = Some r \<and> last_occurrence src key r))"
proof (rule conjI)
  show "if \<exists>i. occurs src key i
    then \<exists>i. rstr_index src key = int i \<and> occurs src key i \<and> \<not> (\<exists>j<i. occurs src key j)
    else rstr_index src key = -1"
    using strstr_None [of src key] strstr_Some [of src key]
    by (cases "strstr src key") (auto simp: rstr_index_def)
  have "\<exists>r. rstr_last_index src key = Some r \<and> last_occurrence src key r" if "key \<noteq> []"
  proof (cases "length key = 1")
    case True
    show ?thesis
    proof (cases "strrchr src (key ! 0)")
      case None
      then have "\<not> occurs src key i" for i
        using occurs_single [OF True, of src i] by (metis nth_mem strrchr_None)
      with None True show ?thesis by (simp add: rstr_last_index_def last_occurrence_def)
    next
      case (Some i)
      with True strrchr_Some [OF Some] occurs_single [OF True, of src] show ?thesis
        by (auto simp: rstr_last_index_def last_occurrence_def)
    qed
  next
    case False
    show ?thesis
    proof (cases "strstr src key")
      case None
      with False strstr_None [of src key] show ?thesis by (simp add: rstr_last_index_def last_occurrence_def)
    next
      case (Some i)
      then have "occurs src key i" by (simp add: strstr_Some)
      from last_loop_spec [OF this that] False Some this show ?thesis
        by (auto simp: rstr_last_index_def last_occurrence_def)
    qed
  qed
  then show "key = [] \<or> (\<exists>r. rstr_last_index src key = Some r \<and> last_occurrence src key r)" by blast
qed

section \<open>The table of the search\<close>

text \<open>Where the first character of a pattern recurs (the length when it does not).\<close>

definition recurrence :: "cstr \<Rightarrow> nat" where
  "recurrence pat = 1 + length (takeWhile (\<lambda>c. c \<noteq> hd pat) (tl pat))"

lemma recurrence_props:
  assumes "pat \<noteq> []"
  shows "1 \<le> recurrence pat" "recurrence pat \<le> length pat"
    "\<And>i. 1 \<le> i \<Longrightarrow> i < recurrence pat \<Longrightarrow> pat ! i \<noteq> pat ! 0"
    "recurrence pat < length pat \<Longrightarrow> pat ! recurrence pat = pat ! 0"
proof -
  obtain c cs where pat: "pat = c # cs" using assms by (cases pat) auto
  let ?t = "takeWhile (\<lambda>x. x \<noteq> c) cs"
  show "1 \<le> recurrence pat" by (simp add: recurrence_def)
  show "recurrence pat \<le> length pat" using pat length_takeWhile_le [of "\<lambda>x. x \<noteq> c" cs] by (simp add: recurrence_def)
  show "pat ! i \<noteq> pat ! 0" if i: "1 \<le> i" "i < recurrence pat" for i
  proof -
    have l: "i - 1 < length ?t" using i pat by (simp add: recurrence_def)
    have "?t ! (i - 1) \<in> set ?t" using l by (rule nth_mem)
    then have "?t ! (i - 1) \<noteq> c" using set_takeWhileD by fast
    then have "cs ! (i - 1) \<noteq> c" using l by (simp add: takeWhile_nth)
    then show ?thesis using i pat by (cases i) auto
  qed
  assume "recurrence pat < length pat"
  then have "length ?t < length cs" using pat by (simp add: recurrence_def)
  then show "pat ! recurrence pat = pat ! 0"
    using nth_length_takeWhile [of "\<lambda>x. x \<noteq> c" cs] pat by (simp add: recurrence_def)
qed

lemma kmp_next_stuck:
  assumes "i < length pat" "len < length pat" "len \<noteq> 0" "pat ! i \<noteq> pat ! len"
  shows "kmp_next_loop pat i len tab = None"
proof -
  have "\<not> (i < length pat \<and> len < length pat \<and> len \<noteq> 0 \<and> pat ! i \<noteq> pat ! len)"
    if "kmp_next_loop pat i len tab = Some r" for r
  proof (induction rule: kmp_next_loop.raw_induct)
    case (1 f pat i len tab r)
    show ?case
    proof
      assume a: "i < length pat \<and> len < length pat \<and> len \<noteq> 0 \<and> pat ! i \<noteq> pat ! len"
      with 1(2) have f: "f pat i len (tab @ [len - 1]) = Some r" by (simp add: char_at_def)
      from 1(1) [OF f] a show False by blast
    qed
  qed (use that in simp)
  with assms show ?thesis by (cases "kmp_next_loop pat i len tab") auto
qed

lemma drop_eq_take_step:
  assumes "i < length pat" "len < i"
  shows "drop i pat = take (length pat - i) (drop len pat) \<longleftrightarrow>
    pat ! i = pat ! len \<and> drop (i + 1) pat = take (length pat - (i + 1)) (drop (len + 1) pat)"
proof -
  have "drop i pat = pat ! i # drop (i + 1) pat" using assms by (simp add: Cons_nth_drop_Suc)
  moreover have "drop len pat = pat ! len # drop (len + 1) pat" using assms by (simp add: Cons_nth_drop_Suc)
  moreover have "length pat - i = Suc (length pat - (i + 1))" using assms by simp
  ultimately show ?thesis by simp
qed

lemma kmp_next_matching:
  "0 < len \<Longrightarrow> len < i \<Longrightarrow> i \<le> length pat \<Longrightarrow> kmp_next_loop pat i len tab =
    (if drop i pat = take (length pat - i) (drop len pat)
     then Some (tab @ [len + 1..<len + 1 + (length pat - i)]) else None)"
proof (induction "length pat - i" arbitrary: i len tab rule: less_induct)
  case less
  show ?case
  proof (cases "i < length pat")
    case False
    then show ?thesis using less.prems by (subst kmp_next_loop.simps) simp
  next
    case True
    show ?thesis
    proof (cases "pat ! i = pat ! len")
      case False
      then show ?thesis
        using kmp_next_stuck [of i pat len tab] drop_eq_take_step [OF True less.prems(2)] True less.prems by simp
    next
      case eq: True
      have "kmp_next_loop pat i len tab = kmp_next_loop pat (i + 1) (len + 1) (tab @ [len + 1])"
        using True eq less.prems by (subst kmp_next_loop.simps) (simp add: char_at_def)
      also have "\<dots> = (if drop (i + 1) pat = take (length pat - (i + 1)) (drop (len + 1) pat)
          then Some ((tab @ [len + 1]) @ [len + 1 + 1..<len + 1 + 1 + (length pat - (i + 1))]) else None)"
        using True less.prems by (intro less.hyps) auto
      also have "[len + 1] @ [len + 1 + 1..<len + 1 + 1 + (length pat - (i + 1))] =
          [len + 1..<len + 1 + (length pat - i)]"
        using True by (subst (2) upt_rec) (simp add: Suc_diff_Suc)
      ultimately show ?thesis
        using eq drop_eq_take_step [OF True less.prems(2)] by (simp add: append.assoc)
    qed
  qed
qed

lemma kmp_next_skip:
  assumes "pat \<noteq> []"
  shows "1 \<le> i \<Longrightarrow> i \<le> recurrence pat \<Longrightarrow> kmp_next_loop pat i 0 tab =
    kmp_next_loop pat (recurrence pat) 0 (tab @ replicate (recurrence pat - i) 0)"
proof (induction "recurrence pat - i" arbitrary: i tab)
  case (Suc n)
  note r = recurrence_props [OF assms]
  have i: "i < recurrence pat" using Suc(2) by simp
  have "pat ! i \<noteq> pat ! 0" using r(3) Suc.prems(1) i by blast
  moreover have "i < length pat" using i r(2) by simp
  ultimately have "kmp_next_loop pat i 0 tab = kmp_next_loop pat (i + 1) 0 (tab @ [0])"
    using assms by (subst kmp_next_loop.simps) (simp add: char_at_def)
  also have "\<dots> = kmp_next_loop pat (recurrence pat) 0 ((tab @ [0]) @ replicate (recurrence pat - (i + 1)) 0)"
    using Suc(2) Suc.prems i by (intro Suc(1)) auto
  also have "[0] @ replicate (recurrence pat - (i + 1)) 0 = replicate (recurrence pat - i) (0 :: nat)"
    using i by (simp flip: replicate_Suc add: Suc_diff_Suc)
  ultimately show ?case by (simp add: append.assoc)
qed simp


section \<open>What splitting means\<close>

text \<open>The leftmost non-overlapping occurrences from a position on.\<close>

function matches :: "cstr \<Rightarrow> cstr \<Rightarrow> nat \<Rightarrow> nat list" where
  "matches s key k =
    (if key = [] \<or> k + length key > length s then []
     else if occurs s key k then k # matches s key (k + length key) else matches s key (k + 1))"
  by pat_completeness auto
termination
  by (relation "measure (\<lambda>(s, key, k). length s - k)") (auto simp: Suc_le_eq length_greater_0_conv [symmetric] simp del: length_greater_0_conv)

declare matches.simps [simp del]

function split_ref :: "cstr \<Rightarrow> cstr \<Rightarrow> cstr list" where
  "split_ref s key =
    (if key = [] then [s] else case strstr s key of
       None \<Rightarrow> [s] | Some i \<Rightarrow> take i s # split_ref (drop (i + length key) s) key)"
  by pat_completeness auto
termination
proof (relation "measure (\<lambda>(s, key). length s)", goal_cases)
  case (2 s key i)
  then have "i + length key \<le> length s" by (simp add: strstr_Some occurs_le)
  moreover have "0 < length key" using 2(1) by simp
  ultimately have "length (drop (i + length key) s) < length s" unfolding length_drop by linarith
  then show ?case by simp
qed simp

declare split_ref.simps [simp del]

lemma matches_skip:
  assumes "\<And>j. k \<le> j \<Longrightarrow> j < k + d \<Longrightarrow> \<not> occurs s key j"
  shows "matches s key k = matches s key (k + d)"
  using assms
proof (induction d)
  case (Suc d)
  have "matches s key k = matches s key (k + d)" using Suc by simp
  also have "\<dots> = matches s key (k + Suc d)"
  proof (cases "key = [] \<or> k + d + length key > length s")
    case True
    then show ?thesis by (subst (1 2) matches.simps) auto
  next
    case False
    with Suc.prems [of "k + d"] show ?thesis by (subst matches.simps) simp
  qed
  finally show ?case .
qed simp

lemma matches_strstr:
  assumes "k \<le> length s" "key \<noteq> []"
  shows "matches s key k = (case strstr (drop k s) key of
    None \<Rightarrow> [] | Some i \<Rightarrow> (k + i) # matches s key (k + i + length key))"
proof (cases "strstr (drop k s) key")
  case None
  then have "\<not> occurs s key j" if "k \<le> j" for j using strstr_drop_None [OF assms(1)] that by simp
  then have "matches s key k = matches s key (k + (length s + 1 - k))" by (intro matches_skip) auto
  also have "\<dots> = []" using assms(1) by (subst matches.simps) simp
  finally show ?thesis using None by simp
next
  case (Some i)
  then have o: "occurs s key (k + i)" "\<And>j. k \<le> j \<Longrightarrow> j < k + i \<Longrightarrow> \<not> occurs s key j"
    using strstr_drop [OF assms(1)] by auto
  have "matches s key k = matches s key (k + i)" by (intro matches_skip o(2))
  also have "\<dots> = (k + i) # matches s key (k + i + length key)"
    using o(1) assms(2) occurs_le [OF o(1)] by (subst matches.simps) simp
  finally show ?thesis using Some by simp
qed

lemma split_tokens_ref:
  assumes "key \<noteq> []" "length s < 2 ^ 63"
  shows "k \<le> length s \<Longrightarrow> split_tokens s (length key) k (matches s key k) = Some (split_ref (drop k s) key)"
proof (induction "length s - k" arbitrary: k rule: less_induct)
  case less
  have sub: "rstr_sub (Some s) a (nat ((int b - int a) mod 2 ^ 64)) True = Some (take (b - a) (drop a s))"
    if "a \<le> b" "b \<le> length s" for a b
  proof -
    have "(int b - int a) mod 2 ^ 64 = int (b - a)" using that assms(2) by (simp add: of_nat_diff)
    then have "nat ((int b - int a) mod 2 ^ 64) = b - a" by simp
    with that assms(2) show ?thesis by (simp only: rstr_sub_def) simp
  qed
  show ?case
  proof (cases "strstr (drop k s) key")
    case None
    then have "split_ref (drop k s) key = [drop k s]" by (subst split_ref.simps) simp
    moreover have "matches s key k = []" using None matches_strstr [OF less.prems assms(1)] by simp
    ultimately show ?thesis using sub [of k "length s"] less.prems by simp
  next
    case (Some i)
    then have "occurs s key (k + i)" using strstr_drop [OF less.prems] by simp
    then have le: "k + i + length key \<le> length s" by (rule occurs_le)
    have m: "matches s key k = (k + i) # matches s key (k + i + length key)"
      using Some matches_strstr [OF less.prems assms(1)] by simp
    have "length s - (k + i + length key) < length s - k" using le assms(1) by (cases key) auto
    from less.hyps [OF this le]
    have "split_tokens s (length key) (k + i + length key) (matches s key (k + i + length key)) =
        Some (split_ref (drop (k + i + length key) s) key)" .
    moreover have "split_ref (drop k s) key = take i (drop k s) # split_ref (drop (k + i + length key) s) key"
      using Some assms(1) by (subst split_ref.simps) (simp add: add.commute add.left_commute)
    ultimately show ?thesis using m sub [of k "k + i"] le by simp
  qed
qed

text \<open>The search with a table of zeros, for a pattern whose first character does not recur.\<close>

lemma kmp_loop_matches:
  assumes "pat \<noteq> []" "recurrence pat = length pat" "cstr_ok pat" "cstr_ok str"
  shows "j < length pat \<Longrightarrow> j \<le> i \<Longrightarrow> i \<le> length str \<Longrightarrow> take j pat = take j (drop (i - j) str) \<Longrightarrow>
    kmp_loop str pat (replicate (length pat) 0) 0 i j found = Some (found @ matches str pat (i - j))"
proof (induction "2 * (length str - i) + j" arbitrary: i j found rule: less_induct)
  case less
  let ?tab = "replicate (length pat) (0 :: nat)"
  have fall: "kmp_fall ?tab n = 0" for n by (simp add: kmp_fall_def)
  have IH: "kmp_loop str pat ?tab 0 i' j' f = Some (f @ matches str pat (i' - j'))"
    if "2 * (length str - i') + j' < 2 * (length str - i) + j" "j' < length pat" "j' \<le> i'" "i' \<le> length str"
      "take j' pat = take j' (drop (i' - j') str)" for i' j' f
    using less.hyps that by blast
  have skip: "matches str pat (i - n) = matches str pat i"
    if n: "n \<le> i" "i < length str" "n < length pat" "take n pat = take n (drop (i - n) str)" "pat ! n \<noteq> str ! i" for n i
  proof -
    have "matches str pat (i - n) = matches str pat (i - n + n)"
    proof (rule matches_skip)
      fix q assume q: "i - n \<le> q" "q < i - n + n"
      show "\<not> occurs str pat q"
      proof
        assume o: "occurs str pat q"
        show False
        proof (cases "q = i - n")
          case True
          have "pat ! n = take (length pat) (drop q str) ! n" using o by (simp add: occurs_def)
          also have "\<dots> = str ! i" using True n(1-3) by simp
          finally show False using n(5) by simp
        next
          case False
          define t where "t = q - (i - n)"
          have t: "0 < t" "t < n" "q = i - n + t" using False q by (auto simp: t_def)
          have "take n pat ! t = take n (drop (i - n) str) ! t" using n(4) by simp
          then have "pat ! t = str ! q" using t n(1-3) by simp
          moreover have "pat ! 0 = take (length pat) (drop q str) ! 0" using o by (simp add: occurs_def)
          then have "pat ! 0 = str ! q" using assms(1) occurs_le [OF o] by (cases pat) auto
          ultimately show False
            using recurrence_props(3) [OF assms(1), of t] t assms(2) n(3) by simp
        qed
      qed
    qed
    then show ?thesis using n(1) by simp
  qed
  show ?case
  proof (cases "i < length str")
    case False
    then have i: "i = length str" using less.prems by simp
    have "matches str pat (i - j) = []" using less.prems i by (subst matches.simps) auto
    then show ?thesis using False by (subst kmp_loop.simps) simp
  next
    case i: True
    show ?thesis
    proof (cases "pat ! j = str ! i")
      case ne: False
      have sk: "matches str pat (i - j) = matches str pat i" using skip [of j i] less.prems i ne by blast
      show ?thesis
      proof (cases "j = 0")
        case True
        have "kmp_loop str pat ?tab 0 i j found = kmp_loop str pat ?tab 0 (i + 1) 0 found"
          using ne i True assms(1) less.prems by (subst kmp_loop.simps) (simp add: char_at_def Let_def)
        also have "\<dots> = Some (found @ matches str pat (i + 1 - 0))" using i True assms(1) by (intro IH) auto
        also have "matches str pat (i + 1 - 0) = matches str pat i"
        proof -
          have "\<not> occurs str pat i"
          proof
            assume o: "occurs str pat i"
            then have "pat ! 0 = take (length pat) (drop i str) ! 0" by (simp add: occurs_def)
            then have "pat ! 0 = str ! i" using assms(1) i by (cases pat) auto
            then show False using ne True by simp
          qed
          then show ?thesis using matches_skip [of i 1 str pat] by (simp add: le_less_Suc_eq)
        qed
        finally show ?thesis using sk by simp
      next
        case False
        have "kmp_loop str pat ?tab 0 i j found = kmp_loop str pat ?tab 0 i 0 found"
          using ne i False less.prems by (subst kmp_loop.simps) (simp add: char_at_def Let_def fall)
        also have "\<dots> = Some (found @ matches str pat (i - 0))" using False assms(1) i by (intro IH) auto
        finally show ?thesis using sk by simp
      qed
    next
      case eq: True
      have ext: "take (j + 1) pat = take (j + 1) (drop (i - j) str)"
        using less.prems i eq by (simp add: take_Suc_conv_app_nth)
      show ?thesis
      proof (cases "j + 1 = length pat")
        case full: True
        have "occurs str pat (i - j)" using ext full less.prems i by (simp add: occurs_def)
        then have "matches str pat (i - j) = (i - j) # matches str pat (i - j + length pat)"
          using assms(1) occurs_le by (subst matches.simps) fastforce
        moreover have "i - j + length pat = i + 1" using full less.prems by simp
        moreover have "kmp_loop str pat ?tab 0 i j found = kmp_loop str pat ?tab 0 (i + 1) 0 (found @ [i - j])"
        proof -
          have "Suc i - length pat = i - j" using full by simp
          then show ?thesis
            using eq i full less.prems by (subst kmp_loop.simps) (simp add: char_at_def Let_def fall)
        qed
        moreover have "kmp_loop str pat ?tab 0 (i + 1) 0 (found @ [i - j]) =
            Some ((found @ [i - j]) @ matches str pat (i + 1 - 0))" using i assms(1) by (intro IH) auto
        ultimately show ?thesis by simp
      next
        case part: False
        then have j1: "j + 1 < length pat" using less.prems by simp
        have same: "i + 1 - (j + 1) = i - j" by simp
        show ?thesis
        proof (cases "i + 1 < length str")
          case False
          have "kmp_loop str pat ?tab 0 i j found = kmp_loop str pat ?tab 0 (i + 1) (j + 1) found"
            using eq i part False less.prems by (subst kmp_loop.simps) (simp add: char_at_def Let_def)
          also have "\<dots> = Some (found @ matches str pat (i + 1 - (j + 1)))"
            using i j1 less.prems ext by (intro IH) auto
          finally show ?thesis by simp
        next
          case in1: True
          show ?thesis
          proof (cases "pat ! (j + 1) = str ! (i + 1)")
            case True
            have "kmp_loop str pat ?tab 0 i j found = kmp_loop str pat ?tab 0 (i + 1) (j + 1) found"
              using eq i part in1 True less.prems j1 by (subst kmp_loop.simps) (simp add: char_at_def Let_def)
            also have "\<dots> = Some (found @ matches str pat (i + 1 - (j + 1)))"
              using i j1 less.prems ext by (intro IH) auto
            finally show ?thesis by simp
          next
            case False
            have "kmp_loop str pat ?tab 0 i j found = kmp_loop str pat ?tab 0 (i + 1) 0 found"
              using eq i part in1 False less.prems j1 by (subst kmp_loop.simps) (simp add: char_at_def Let_def fall)
            also have "\<dots> = Some (found @ matches str pat (i + 1 - 0))" using i assms(1) by (intro IH) auto
            finally show ?thesis using skip [of "j + 1" "i + 1"] less.prems in1 j1 ext False by simp
          qed
        qed
      qed
    qed
  qed
qed

lemma split_ref_Cons: "split_ref s key \<noteq> []"
  by (subst split_ref.simps) (auto split: option.splits)

text \<open>The pieces joined by the delimiter give the string back, and no piece contains the delimiter.\<close>

fun joined :: "cstr \<Rightarrow> cstr list \<Rightarrow> cstr" where
  "joined d [] = []"
| "joined d [t] = t"
| "joined d (t # ts) = t @ d @ joined d ts"

lemma joined_Cons: "ts \<noteq> [] \<Longrightarrow> joined d (t # ts) = t @ d @ joined d ts"
  by (cases ts) auto

lemma split_ref_spec:
  "joined key (split_ref s key) = s \<and> (key \<noteq> [] \<longrightarrow> (\<forall>t\<in>set (split_ref s key). strstr t key = None))"
proof (induction s key rule: split_ref.induct)
  case (1 s key)
  show ?case
  proof (cases "key = []")
    case True
    then show ?thesis by (subst (1 2) split_ref.simps) simp
  next
    case key: False
    show ?thesis
    proof (cases "strstr s key")
      case None
      with key show ?thesis by (subst (1 2) split_ref.simps) simp
    next
      case (Some i)
      let ?r = "drop (i + length key) s"
      have o: "occurs s key i" "\<And>j. j < i \<Longrightarrow> \<not> occurs s key j" using Some by (auto simp: strstr_Some)
      have le: "i + length key \<le> length s" using o(1) by (rule occurs_le)
      have step: "split_ref s key = take i s # split_ref ?r key" using Some key by (subst split_ref.simps) simp
      have "s = take i s @ key @ ?r"
        using o(1) by (metis append_take_drop_id drop_drop add.commute occurs_def)
      moreover have "joined key (split_ref ?r key) = ?r" and IH: "\<forall>t\<in>set (split_ref ?r key). strstr t key = None"
        using 1 [OF key Some] key by auto
      ultimately have "joined key (split_ref s key) = s"
        unfolding step using split_ref_Cons by (simp add: joined_Cons)
      moreover have "strstr (take i s) key = None"
        unfolding strstr_None
      proof (intro allI notI)
        fix j assume oj: "occurs (take i s) key j"
        then have j: "j + length key \<le> i" using le by (simp add: occurs_def)
        then have "occurs s key j" using oj le by (simp add: occurs_def take_drop min_absorb1)
        moreover have "j < i" using j key by (cases key) auto
        ultimately show False using o(2) by blast
      qed
      ultimately show ?thesis using step IH by simp
    qed
  qed
qed




section \<open>The growing buffer\<close>

text \<open>A buffer that holds \<open>content\<close> in its first cells, with room for the NUL behind it.\<close>

definition ext_ok :: "bytes \<times> nat \<Rightarrow> cstr \<Rightarrow> bool" where
  "ext_ok be content \<longleftrightarrow> (case be of (buf, e) \<Rightarrow> 0 < e \<and>
    length buf = (if e = 1 then 256 else 256 * e + 1) \<and> length content < length buf \<and>
    take (length content) buf = content)"

lemma grow_expand_bounds:
  "0 < e \<Longrightarrow> 256 * e \<le> need \<Longrightarrow>
    1 < grow_expand e need \<and> need \<le> 256 * grow_expand e need \<and> 256 * grow_expand e need \<le> 2 * need"
proof (induction e need rule: grow_expand.induct)
  case (1 e need)
  show ?case
  proof (cases "256 * (e * 2) < need")
    case True
    have "1 < grow_expand (e * 2) need \<and> need \<le> 256 * grow_expand (e * 2) need \<and> 256 * grow_expand (e * 2) need \<le> 2 * need"
      by (rule "1.IH") (use True "1.prems" in auto)
    moreover have "grow_expand e need = grow_expand (e * 2) need"
      using True "1.prems" by (subst grow_expand.simps) (simp add: Let_def)
    ultimately show ?thesis by simp
  next
    case False
    have "grow_expand e need = e * 2" using False by (subst grow_expand.simps) (simp add: Let_def)
    then show ?thesis using False "1.prems" by simp
  qed
qed

lemma ext_append_spec:
  assumes "ext_ok be content" "length content + length piece < 2 ^ 29"
  shows "\<exists>be'. ext_append junk be (length content) piece = Some be' \<and> ext_ok be' (content @ piece)"
proof -
  obtain buf e where be: "be = (buf, e)" by (cases be)
  have b: "0 < e" "length buf = (if e = 1 then 256 else 256 * e + 1)" "length content < length buf"
    "take (length content) buf = content" using assms(1) by (auto simp: ext_ok_def be)
  let ?need = "length content + length piece"
  show ?thesis
  proof (cases "?need < 256 * e")
    case True
    then have "?need < length buf" using b(2) by (auto split: if_splits)
    then have "mem_put buf (int (length content)) piece =
        Some (take (length content) buf @ piece @ drop ?need buf)"
      by (subst mem_put_in) (auto simp: nat_add_distrib)
    then show ?thesis using True b \<open>?need < length buf\<close> by (simp add: ext_append_def be ext_ok_def)
  next
    case False
    let ?e = "grow_expand e ?need"
    have g: "1 < ?e" "?need \<le> 256 * ?e" "256 * ?e \<le> 2 * ?need"
      using grow_expand_bounds [OF b(1), of ?need] False by auto
    have i32: "int32 (256 * int ?e) = Some (256 * int ?e)"
      using g(3) assms(2) by (intro int32_in_range) auto
    have get: "mem_get buf 0 (int (length content)) = Some content"
      using b(3,4) by (subst mem_get_in) auto
    let ?m = "fresh junk (256 * ?e + 1)"
    have p1: "mem_put ?m 0 content = Some (content @ drop (length content) ?m)"
      using g(2) by (subst mem_put_in) auto
    let ?m1 = "content @ drop (length content) ?m"
    have l1: "length ?m1 = 256 * ?e + 1" using g(2) by simp
    have p2: "mem_put ?m1 (int (length content)) piece = Some (content @ piece @ drop ?need ?m1)"
      using l1 g(2) by (subst mem_put_in) (auto simp: nat_add_distrib)
    have "ext_append junk be (length content) piece = Some (content @ piece @ drop ?need ?m1, ?e)"
      using False i32 get p1 p2 by (simp add: ext_append_def be Let_def)
    moreover have "ext_ok (content @ piece @ drop ?need ?m1, ?e) (content @ piece)"
      using l1 g by (simp add: ext_ok_def)
    ultimately show ?thesis by blast
  qed
qed

lemma ext_finish_spec:
  assumes "ext_ok be content" "cstr_ok content" "\<forall>n. alloc n"
  shows "ext_finish alloc be (length content) = Some content"
proof -
  obtain buf e where be: "be = (buf, e)" by (cases be)
  have b: "0 < e" "length buf = (if e = 1 then 256 else 256 * e + 1)" "length content < length buf"
    "take (length content) buf = content" using assms(1) by (auto simp: ext_ok_def be)
  have "mem_put buf (int (length content)) [0] = Some (content @ 0 # drop (Suc (length content)) buf)"
    using b(3,4) by (subst mem_put_in) (auto simp: nat_add_distrib)
  then show ?thesis
    using assms(2,3) b by (auto simp: ext_finish_def be cstr_of_append rstr_cpy_def)
qed

lemma ext_start: "ext_ok (fresh junk 256, 1) []"
  by (simp add: ext_ok_def del: length_greater_0_conv)

section \<open>Replacing and joining\<close>

function repl_ref :: "cstr \<Rightarrow> cstr \<Rightarrow> cstr \<Rightarrow> cstr" where
  "repl_ref s old_str new_str =
    (if old_str = [] then s else case strstr s old_str of
       None \<Rightarrow> s | Some i \<Rightarrow> take i s @ new_str @ repl_ref (drop (i + length old_str) s) old_str new_str)"
  by pat_completeness auto
termination
proof (relation "measure (\<lambda>(s, old_str, new_str). length s)", goal_cases)
  case (2 s old_str new_str i)
  then have "i + length old_str \<le> length s" by (simp add: strstr_Some occurs_le)
  moreover have "0 < length old_str" using 2(1) by simp
  ultimately have "length (drop (i + length old_str) s) < length s" unfolding length_drop by linarith
  then show ?case by simp
qed simp

declare repl_ref.simps [simp del]

lemma repl_loop_spec:
  "old_str \<noteq> [] \<Longrightarrow> ext_ok be content \<Longrightarrow> length content + length (repl_ref src old_str new_str) < 2 ^ 29 \<Longrightarrow>
    \<exists>rest be' done. repl_loop junk src old_str new_str be (length content) = Some (rest, be', length (content @ done)) \<and>
      ext_ok be' (content @ done) \<and> repl_ref src old_str new_str = done @ rest"
proof (induction src old_str new_str arbitrary: be content rule: repl_ref.induct)
  case (1 src old_str new_str)
  show ?case
  proof (cases "strstr src old_str")
    case None
    then show ?thesis using "1.prems"
      by (intro exI [of _ src] exI [of _ be] exI [of _ "[]"])
        (subst repl_loop.simps, subst repl_ref.simps, simp)
  next
    case (Some i)
    let ?src = "drop (i + length old_str) src"
    note old = "1.prems"(1)
    have ref: "repl_ref src old_str new_str = take i src @ new_str @ repl_ref ?src old_str new_str"
      using Some old by (subst repl_ref.simps) simp
    have "i \<le> length src" using Some occurs_le by (fastforce simp: strstr_Some)
    then have ti: "length (take i src @ new_str) = i + length new_str" by simp
    obtain be1 where be1: "ext_append junk be (length content) (take i src @ new_str) = Some be1"
      "ext_ok be1 (content @ take i src @ new_str)"
      using ext_append_spec [OF "1.prems"(2), of "take i src @ new_str" junk] "1.prems"(3) ref by auto
    have "length (content @ take i src @ new_str) + length (repl_ref ?src old_str new_str) < 2 ^ 29"
      using "1.prems"(3) ref by simp
    from "1.IH" [OF old Some old be1(2) this] obtain rest be' dn where
      *: "repl_loop junk ?src old_str new_str be1 (length (content @ take i src @ new_str)) =
        Some (rest, be', length ((content @ take i src @ new_str) @ dn))"
      "ext_ok be' ((content @ take i src @ new_str) @ dn)" "repl_ref ?src old_str new_str = dn @ rest" by blast
    show ?thesis
    proof (intro exI conjI)
      show "repl_loop junk src old_str new_str be (length content) =
          Some (rest, be', length (content @ (take i src @ new_str @ dn)))"
        using Some be1(1) *(1) ti by (subst repl_loop.simps) (simp add: add.assoc)
      show "ext_ok be' (content @ (take i src @ new_str @ dn))" using *(2) by simp
      show "repl_ref src old_str new_str = (take i src @ new_str @ dn) @ rest" using ref *(3) by simp
    qed
  qed
qed

lemma cstr_ok_repl_ref:
  "cstr_ok s \<Longrightarrow> cstr_ok new_str \<Longrightarrow> cstr_ok (repl_ref s old_str new_str)"
proof (induction s old_str new_str rule: repl_ref.induct)
  case (1 s old_str new_str)
  show ?case
  proof (cases "old_str = [] \<or> strstr s old_str = None")
    case True
    then show ?thesis using "1.prems" by (subst repl_ref.simps) auto
  next
    case False
    then obtain i where i: "strstr s old_str = Some i" "old_str \<noteq> []" by auto
    have "cstr_ok (repl_ref (drop (i + length old_str) s) old_str new_str)"
      using "1.IH" [OF i(2,1)] "1.prems" cstr_ok_take_drop(2) by blast
    with i "1.prems" cstr_ok_take_drop(1) show ?thesis by (subst repl_ref.simps) simp
  qed
qed

lemma rstr_repl_spec:
  assumes "old_str \<noteq> []" "cstr_ok src" "cstr_ok (case new_str of None \<Rightarrow> [] | Some n \<Rightarrow> n)" "\<forall>n. alloc n"
    and "length (repl_ref src old_str (case new_str of None \<Rightarrow> [] | Some n \<Rightarrow> n)) < 2 ^ 29"
  shows "rstr_repl junk alloc (Some src) (Some old_str) new_str =
    Some (repl_ref src old_str (case new_str of None \<Rightarrow> [] | Some n \<Rightarrow> n))"
proof -
  define new where "new = (case new_str of None \<Rightarrow> [] | Some n \<Rightarrow> n)"
  note a = assms(2-) [folded new_def]
  obtain rest be dn where l: "repl_loop junk src old_str new (fresh junk 256, 1) 0 = Some (rest, be, length dn)"
    "ext_ok be dn" "repl_ref src old_str new = dn @ rest"
    using repl_loop_spec [OF assms(1) ext_start [of junk], of src new junk] a(4) by auto
  have ok: "cstr_ok (dn @ rest)" using cstr_ok_repl_ref [OF a(1,2), of old_str] l(3) by simp
  show ?thesis
  proof (cases "rest = []")
    case True
    with l ok ext_finish_spec [OF l(2) _ a(3)] show ?thesis
      by (simp add: rstr_repl_def flip: new_def)
  next
    case False
    obtain be' where be': "ext_append junk be (length dn) rest = Some be'" "ext_ok be' (dn @ rest)"
      using ext_append_spec [OF l(2), of rest junk] a(4) l(3) by auto
    with False l ok ext_finish_spec [OF be'(2) _ a(3)] show ?thesis
      by (simp add: rstr_repl_def flip: new_def)
  qed
qed



lemma join_loop_spec:
  "ext_ok be content \<Longrightarrow> length content + length (concat ss) < 2 ^ 29 \<Longrightarrow>
    \<exists>be'. join_loop junk ss be (length content) = Some (be', length (content @ concat ss)) \<and>
      ext_ok be' (content @ concat ss)"
proof (induction ss arbitrary: be content)
  case (Cons s ss)
  obtain be1 where be1: "ext_append junk be (length content) s = Some be1" "ext_ok be1 (content @ s)"
    using ext_append_spec [OF Cons.prems(1), of s junk] Cons.prems(2) by auto
  from Cons.IH [OF be1(2)] Cons.prems(2) be1(1) show ?case by auto
qed simp

lemma concat_loop_spec:
  "length pre = at \<Longrightarrow> length rest = sum_list (map (\<lambda>s. length s + length d) ss) + 1 \<Longrightarrow>
    \<exists>last. concat_loop (pre @ rest) ss d at = Some (pre @ concat (map (\<lambda>s. s @ d) ss) @ [last])"
proof (induction ss arbitrary: pre at rest)
  case Nil
  then obtain x where "rest = [x]" by (cases rest) auto
  then show ?case by simp
next
  case (Cons s ss)
  let ?n = "sum_list (map (\<lambda>s. length s + length d) ss) + 1"
  have len: "length rest = length s + (length d + ?n)" using Cons.prems(2) by simp
  define tl where "tl = drop (length s + length d) rest"
  have l: "length tl = ?n" using len by (simp add: tl_def)
  have p1: "mem_put (pre @ rest) (int at) s = Some (pre @ s @ drop (length s) rest)"
    using Cons.prems(1) len by (subst mem_put_in) (auto simp: nat_add_distrib)
  have p2: "mem_put (pre @ s @ drop (length s) rest) (int (at + length s)) d = Some (pre @ s @ d @ tl)"
    using Cons.prems(1) len by (subst mem_put_in) (auto simp: nat_add_distrib tl_def add.commute)
  have "\<exists>last. concat_loop ((pre @ s @ d) @ tl) ss d (at + length s + length d) =
      Some ((pre @ s @ d) @ concat (map (\<lambda>s. s @ d) ss) @ [last])"
    by (rule Cons.IH) (use Cons.prems(1) l in auto)
  with p1 p2 show ?case by simp
qed

lemma join_concat_spec:
  assumes "\<forall>s\<in>set ss. cstr_ok s" "cstr_ok d" "\<forall>n. alloc n" "length (concat ss) < 2 ^ 29"
    and "length (concat (map (\<lambda>s. s @ d) ss)) < 2 ^ 63" "length d < 2 ^ 63"
  shows "rstr_join junk alloc ss = Some (concat ss) \<and>
    rstr_concat_array junk (Some ss) (Some d) True = Some (concat (map (\<lambda>s. s @ d) ss)) \<and>
    rstr_concat_array junk (Some ss) (Some d) False =
      (if ss = [] \<and> d \<noteq> [] then None else Some (joined d ss))"
proof (intro conjI)
  have ok: "cstr_ok (concat ss)" using assms(1) by (induction ss) auto
  obtain be where "join_loop junk ss (fresh junk 256, 1) 0 = Some (be, length (concat ss))" "ext_ok be (concat ss)"
    using join_loop_spec [OF ext_start [of junk], of ss junk] assms(4) by auto
  then show "rstr_join junk alloc ss = Some (concat ss)"
    using ext_finish_spec [OF _ ok assms(3)] by (simp add: rstr_join_def)
  let ?all = "concat (map (\<lambda>s. s @ d) ss)"
  have okall: "cstr_ok ?all" using assms(1,2) by (induction ss) auto
  have n: "sum_list (map (\<lambda>s. length s + length d) ss) = length ?all" by (simp add: length_concat comp_def)
  obtain c where c: "concat_loop (fresh junk (length ?all + 1)) ss d 0 = Some (?all @ [c])"
    using concat_loop_spec [of "[]" 0 "fresh junk (length ?all + 1)" d ss] n by auto
  have "mem_put (?all @ [c]) (int (length ?all)) [0] = Some (?all @ [0])"
    by (subst mem_put_in) auto
  then show "rstr_concat_array junk (Some ss) (Some d) True = Some ?all"
    using c cstr_of_append [OF okall, of "[]"] by (simp add: rstr_concat_array_def n)
  show "rstr_concat_array junk (Some ss) (Some d) False =
      (if ss = [] \<and> d \<noteq> [] then None else Some (joined d ss))"
  proof (cases "ss = []")
    case True
    have "0 < - int (length d) mod 2 ^ 64" if "d \<noteq> []"
    proof -
      have "int (length d) mod 2 ^ 64 = int (length d)" using assms(6) by simp
      with that assms(6) show ?thesis by (simp add: zmod_zminus1_eq_if)
    qed
    then have "d \<noteq> [] \<Longrightarrow> \<not> - int (length d) mod 2 ^ 64 \<le> 0" by simp
    then show ?thesis using c True by (auto simp: rstr_concat_array_def mem_put_def cstr_of_def)
  next
    case False
    then have j: "?all = joined d ss @ d"
      by (induction ss rule: list_nonempty_induct) (auto simp: joined_Cons)
    have at: "(int (length ?all) - int (length d)) mod 2 ^ 64 = int (length (joined d ss))"
      using assms(5) unfolding j by simp
    have "mem_put (?all @ [c]) (int (length (joined d ss))) [0] =
        Some (joined d ss @ 0 # drop 1 (d @ [c]))"
      unfolding j by (subst mem_put_in) (auto simp: nat_add_distrib)
    moreover have "cstr_ok (joined d ss)" using okall unfolding j by simp
    ultimately show ?thesis
      using c False at by (simp add: rstr_concat_array_def n cstr_of_append)
  qed
qed

text \<open>
  C32: \<open>rstr_join\<close> is the concatenation of its arguments up to the closing null pointer, whatever
  their number and length; \<open>rstr_concat_array\<close> puts the delimiter behind every string, or between
  the strings when no suffix is wanted, and writes outside its block exactly when there is no string
  at all, no suffix and a delimiter.
\<close>

theorem rstr_join_concat:
  assumes "\<forall>s\<in>set ss. cstr_ok s" "cstr_ok d" "\<forall>n. alloc n" "length (concat ss) < 2 ^ 29"
    and "length (concat (map (\<lambda>s. s @ d) ss)) < 2 ^ 63" "length d < 2 ^ 63"
  shows "rstr_join junk alloc ss = Some (concat ss) \<and>
    rstr_concat_array junk (Some ss) (Some d) True = Some (concat (map (\<lambda>s. s @ d) ss)) \<and>
    rstr_concat_array junk (Some ss) (Some d) False =
      (if ss = [] \<and> d \<noteq> [] then None else Some (joined d ss))"
  using assms by (rule join_concat_spec)

theorem rstr_join_concat_witness:
  "rstr_join (\<lambda>_. 0) (\<lambda>_. True) [[97], [98]] = Some [97, 98] \<and>
   rstr_concat_array (\<lambda>_. 0) (Some [[97], [98]]) (Some [44]) False = Some [97, 44, 98]"
  using rstr_join_concat [of "[[97], [98]]" "[44]" "\<lambda>_. True" "\<lambda>_. 0"] by simp



lemma trim_end_loop_spec:
  "cstr_ok s \<Longrightarrow> \<exists>r'. trim_end_loop (s @ 0 # r) (length s) =
    rev (dropWhile (\<lambda>c. c = 32 \<or> c = 9) (rev s)) @ 0 # r'"
proof (induction s arbitrary: r rule: rev_induct)
  case (snoc c s)
  show ?case
  proof (cases "c = 32 \<or> c = 9")
    case True
    have "trim_end_loop ((s @ [c]) @ 0 # r) (length (s @ [c])) = trim_end_loop (s @ 0 # 0 # r) (length s)"
      using True by (simp add: nth_append list_update_append)
    with snoc.IH [of "0 # r"] snoc.prems True show ?thesis by auto
  next
    case False
    then show ?thesis by (auto simp: nth_append)
  qed
qed simp

lemma trim_begin_loop_None: "trim_begin_loop m p q b = None"
proof (induction m p q b rule: trim_begin_loop.induct)
  case (1 m p q b)
  then show ?case by (subst trim_begin_loop.simps) auto
qed

text \<open>
  \<open>rstr_trim_end\<close> removes exactly the blanks and tabs at the end of the string;
  \<open>rstr_trim_begin\<close> leaves every object it is applied to.
\<close>

theorem rstr_trims:
  assumes "cstr_ok s"
  shows "(\<exists>r'. rstr_trim_end (Some (s @ 0 # r)) =
      Some (Some (rev (dropWhile (\<lambda>c. c = 32 \<or> c = 9) (rev s)) @ 0 # r'), rcode_ok)) \<and>
    rstr_trim_begin (Some m) = None"
proof (rule conjI)
  have "c_strlen (s @ 0 # r) = Some (int (length s))"
    using assms by (simp add: c_strlen_append cstr_ok_def)
  with trim_end_loop_spec [OF assms, of r] show "\<exists>r'. rstr_trim_end (Some (s @ 0 # r)) =
      Some (Some (rev (dropWhile (\<lambda>c. c = 32 \<or> c = 9) (rev s)) @ 0 # r'), rcode_ok)"
    by (auto simp: rstr_trim_end_def)
qed (simp add: rstr_trim_begin_def trim_begin_loop_None)

theorem rstr_trims_witness:
  "(\<exists>r'. rstr_trim_end (Some ([97, 32, 9] @ 0 # [])) = Some (Some ([97] @ 0 # r'), rcode_ok)) \<and>
   rstr_trim_begin (Some [32, 97, 0]) = None"
  using rstr_trims [of "[97, 32, 9]" "[]" "[32, 97, 0]"] by simp

lemma hex_digit_nibble: "0 \<le> i \<Longrightarrow> i < 16 \<Longrightarrow> \<exists>d. hex_digit i = Some d"
  by (simp add: hex_digit_def)

lemma sint_byte_range: "- 128 \<le> sint (c :: byte) \<and> sint c < 128"
  using sint_range_size [of c] by (simp add: word_size)

lemma sint_byte_nonneg: "0 \<le> sint (c :: byte) \<longleftrightarrow> unat c < 128"
proof -
  have s: "sint c = signed_take_bit 7 (uint c)" by (simp add: sint_uint)
  have u: "uint c < 256" "0 \<le> uint c" using unsigned_less [of c] by simp_all
  have un: "uint c = int (unat c)" by simp
  show ?thesis
  proof (cases "uint c < 128")
    case True
    moreover have "- 128 \<le> uint c" using u by linarith
    ultimately have "sint c = uint c" unfolding s by (intro signed_take_bit_int_eq_self) simp_all
    then have "0 \<le> sint c" "unat c < 128" using True u un by linarith+
    then show ?thesis by blast
  next
    case False
    then have "uint c div 128 = 1" using u by (simp add: int_div_pos_eq [of _ _ _ "uint c - 128"])
    then have "bit (uint c) 7" by (simp add: bit_iff_odd)
    then have "sint c = uint c - 256"
      unfolding s signed_take_bit_eq_take_bit_minus using u by (simp add: take_bit_int_eq_self)
    then have "\<not> 0 \<le> sint c" "\<not> unat c < 128" using False u un by linarith+
    then show ?thesis by blast
  qed
qed

lemma hex_loop_defined: "hex_loop s \<noteq> None \<longleftrightarrow> (\<forall>c\<in>set s. 0 \<le> sint c)"
proof (induction s)
  case (Cons c s)
  have low: "\<exists>d. hex_digit (sint c mod 16) = Some d" by (intro hex_digit_nibble) simp_all
  have high: "(\<exists>d. hex_digit (sint c div 16) = Some d) \<longleftrightarrow> 0 \<le> sint c"
    using sint_byte_range [of c] by (auto simp: hex_digit_def split: if_splits)
  show ?case
  proof (cases "0 \<le> sint c")
    case True
    then obtain d where "hex_digit (sint c div 16) = Some d" using high by blast
    with Cons.IH low True show ?thesis by (cases "hex_loop s") auto
  next
    case False
    then have "hex_digit (sint c div 16) = None" using high by (cases "hex_digit (sint c div 16)") auto
    with False show ?thesis by simp
  qed
qed simp

lemma hex_loop_length: "hex_loop s = Some h \<Longrightarrow> length h = 2 * length s"
proof (induction s arbitrary: h)
  case (Cons c s)
  from Cons.prems obtain a b h' where "hex_loop s = Some h'" "h = a # b # h'"
    by (auto split: Option.bind_splits)
  with Cons.IH show ?case by simp
qed simp

lemma unhex_loop_short: "q \<le> length m \<Longrightarrow> length m < q + 2 * n \<Longrightarrow> unhex_loop m q n = None"
proof (induction n arbitrary: q)
  case (Suc n)
  then show ?case by (cases "q + 1 \<ge> length m") auto
qed simp

text \<open>
  \<open>rstr_2hex\<close> has a result exactly for strings of bytes below 128 (with room for twice the length
  and the NUL): a \<open>char\<close> is signed and the high half of any other byte indexes before the table.
  \<open>rstr_4hex\<close> reads two characters for each character of its argument, so it leaves the object of
  every string of two or more characters.
\<close>

theorem rstr_hex_limits:
  assumes "2 * length s + 1 \<le> length dest"
  shows "(rstr_2hex s dest \<noteq> None \<longleftrightarrow> (\<forall>c\<in>set s. unat c < 128)) \<and>
    (cstr_ok s \<and> 2 \<le> length s \<longrightarrow> rstr_4hex (s @ [0]) dest = None)"
proof (intro conjI impI)
  have pos: "0 \<le> sint c \<longleftrightarrow> unat c < 128" for c :: byte
    by (rule sint_byte_nonneg)
  show "rstr_2hex s dest \<noteq> None \<longleftrightarrow> (\<forall>c\<in>set s. unat c < 128)"
  proof (cases "hex_loop s")
    case None
    then show ?thesis using hex_loop_defined [of s] pos by (simp add: rstr_2hex_def)
  next
    case (Some h)
    then have "mem_put dest 0 (h @ [0]) \<noteq> None"
      using assms hex_loop_length [OF Some] by (simp add: mem_put_def)
    with Some show ?thesis using hex_loop_defined [of s] pos by (simp add: rstr_2hex_def)
  qed
  assume s: "cstr_ok s \<and> 2 \<le> length s"
  then have "c_strlen (s @ [0]) = Some (int (length s))"
    using c_strlen_append [of s "[]"] by (simp add: cstr_ok_def)
  moreover have "unhex_loop (s @ [0]) 0 (length s) = None" using s by (intro unhex_loop_short) auto
  ultimately show "rstr_4hex (s @ [0]) dest = None" by (simp add: rstr_4hex_def)
qed

theorem rstr_hex_limits_witness:
  "rstr_2hex [200] (replicate 3 0) = None \<and> rstr_4hex ([52, 49] @ [0]) (replicate 5 0) = None"
  using rstr_hex_limits [of "[200]" "replicate 3 0"] rstr_hex_limits [of "[52, 49]" "replicate 5 0"]
  by simp

end
