(* ===== verification/RTime.thy ===== *)
theory RTime
  imports Prelude "HOL-Library.Signed_Division"
begin

text \<open>
  Dates and timeouts of \<open>common/src/rtime.c\<close> and \<open>common/include/rtime.h\<close>: the splitting of a Unix time into
  date and time of day, checked against the closed formula of the Gregorian calendar, the
  remaining time of a \<open>rtimeout_t\<close> and the three counters.  The clock is a parameter: the value
  \<open>rtime_microsec\<close> returns is an argument \<open>now\<close>.  \<open>sdiv\<close> and \<open>smod\<close> are the truncating division
  of C.
\<close>

lemma sdiv_nonneg: "0 \<le> a \<Longrightarrow> 0 < b \<Longrightarrow> a sdiv b = a div (b :: int)"
  by (cases "a = 0") (simp_all add: signed_divide_int_def sgn_if)

lemma smod_nonneg: "0 \<le> a \<Longrightarrow> 0 < b \<Longrightarrow> a smod b = a mod (b :: int)"
  by (cases "a = 0") (simp_all add: signed_modulo_int_def sgn_if)

section \<open>Date and time of day\<close>

definition g_day_per_mon :: "int list" where
  "g_day_per_mon = [31, 28, 31, 30, 31, 30, 31, 31, 30, 31, 30, 31]"

definition rlib_is_leap_year :: "int \<Rightarrow> int" where
  "rlib_is_leap_year y =
    (let year = y mod 2 ^ 16
     in if year mod 400 = 0 then 1 else if year mod 100 = 0 then 0 else if year mod 4 = 0 then 1 else 0)"

definition rlib_last_day_of_mon :: "int \<Rightarrow> int \<Rightarrow> int" where
  "rlib_last_day_of_mon m year =
    (let month = m mod 2 ^ 8
     in if month = 0 \<or> month > 12 then g_day_per_mon ! 1 + rlib_is_leap_year year
        else if month \<noteq> 2 then g_day_per_mon ! nat (month - 1)
        else g_day_per_mon ! 1 + rlib_is_leap_year year)"

lemma leap_year_01: "0 \<le> rlib_is_leap_year y \<and> rlib_is_leap_year y \<le> 1"
  by (simp add: rlib_is_leap_year_def Let_def)

text \<open>The loop over the years: the days left and the year.\<close>

function year_loop :: "int \<Rightarrow> int \<Rightarrow> int \<times> int" where
  "year_loop days year =
    (if days > 0
     then let day_temp = 365 + rlib_is_leap_year year
          in if days \<ge> day_temp then year_loop (days - day_temp) (year + 1) else (days, year)
     else (days, year))"
  by pat_completeness auto
termination
proof (relation "measure (\<lambda>(days, year). nat days)", goal_cases)
  case (2 days year day_temp)
  then show ?case using leap_year_01 [of year] by simp
qed simp

declare year_loop.simps [simp del]

text \<open>The loop over the months; the last month is not tested.\<close>

function month_loop :: "int \<Rightarrow> int \<Rightarrow> int \<Rightarrow> int \<times> int" where
  "month_loop days month year =
    (if month < 12
     then let day_temp = rlib_last_day_of_mon month year
          in if days \<ge> day_temp then month_loop (days - day_temp) (month + 1) year else (days, month)
     else (days, month))"
  by pat_completeness auto
termination by (relation "measure (\<lambda>(days, month, year). nat (12 - month))") auto

declare month_loop.simps [simp del]

record rtime_datas =
  t_year :: int
  t_month :: int
  t_day :: int
  t_hour :: int
  t_minute :: int
  t_second :: int
  t_mills :: int

text \<open>The conversion of the day number to \<open>int\<close> keeps its low 32 bits; \<open>zone\<close> is \<open>rtime_zone_int\<close>.\<close>

definition rtime_from_time_millis_security :: "int \<Rightarrow> int \<Rightarrow> rtime_datas" where
  "rtime_from_time_millis_security zone time_millis =
    (let mills = time_millis smod 1000;
         time = time_millis sdiv 1000;
         days = signed_take_bit 31 (time sdiv 86400);
         (days1, year) = year_loop days 1970;
         (days2, month) = month_loop days1 1 year;
         secs = time smod 86400;
         hour = (secs sdiv 3600 + zone) smod 24;
         secs1 = secs smod 3600
     in \<lparr>t_year = year, t_month = month, t_day = days2 + 1, t_hour = hour,
         t_minute = secs1 sdiv 60, t_second = secs1 smod 60, t_mills = mills\<rparr>)"

section \<open>Counters\<close>

record rtime_counters =
  inc_millisec :: "64 word"
  inc_microsec :: "64 word"
  inc_nanosec :: "64 word"

definition rtime_set_inc :: "rtime_counters \<Rightarrow> 64 word \<Rightarrow> 64 word \<Rightarrow> 64 word \<Rightarrow> rtime_counters" where
  "rtime_set_inc s millisec microsec nanosec =
    \<lparr>inc_millisec = (if sint millisec > 0 then millisec else inc_millisec s),
     inc_microsec = (if sint microsec > 0 then microsec else inc_microsec s),
     inc_nanosec = (if sint nanosec > 0 then nanosec else inc_nanosec s)\<rparr>"

text \<open>The first and the last of the three read each other's counter.\<close>

definition rtime_nanosec_inc :: "rtime_counters \<Rightarrow> rtime_counters \<times> 64 word" where
  "rtime_nanosec_inc s = (s\<lparr>inc_millisec := inc_millisec s + 1\<rparr>, inc_millisec s)"

definition rtime_microsec_inc :: "rtime_counters \<Rightarrow> rtime_counters \<times> 64 word" where
  "rtime_microsec_inc s = (s\<lparr>inc_microsec := inc_microsec s + 1\<rparr>, inc_microsec s)"

definition rtime_millisec_inc :: "rtime_counters \<Rightarrow> rtime_counters \<times> 64 word" where
  "rtime_millisec_inc s = (s\<lparr>inc_nanosec := inc_nanosec s + 1\<rparr>, inc_nanosec s)"

section \<open>Timeouts\<close>

record rtimeout =
  tm_block :: int
  tm_total :: int
  tm_start :: int

definition rtimeout_init_microsec :: "rtimeout \<Rightarrow> int \<Rightarrow> int \<Rightarrow> rtimeout" where
  "rtimeout_init_microsec tm block_val total_val = tm\<lparr>tm_block := block_val, tm_total := total_val\<rparr>"

definition rtimeout_init_millisec :: "rtimeout \<Rightarrow> int \<Rightarrow> int \<Rightarrow> rtimeout" where
  "rtimeout_init_millisec tm block_val total_val = rtimeout_init_microsec tm (block_val * 1000) (total_val * 1000)"

definition rtimeout_init_sec :: "rtimeout \<Rightarrow> int \<Rightarrow> int \<Rightarrow> rtimeout" where
  "rtimeout_init_sec tm block_val total_val = rtimeout_init_microsec tm (block_val * 1000000) (total_val * 1000000)"

definition rtimeout_begin :: "rtimeout \<Rightarrow> int \<Rightarrow> rtimeout" where
  "rtimeout_begin tm now = tm\<lparr>tm_start := now\<rparr>"

definition rtimeout_set_done :: "rtimeout \<Rightarrow> rtimeout" where
  "rtimeout_set_done tm = tm\<lparr>tm_block := 0\<rparr>"

definition rtimeout_get_block :: "rtimeout \<Rightarrow> int \<Rightarrow> int" where
  "rtimeout_get_block tm now =
    (if tm_block tm < 0 \<and> tm_total tm < 0 then -1
     else if tm_block tm < 0 then max (tm_total tm + tm_start tm - now) 0
     else if tm_total tm < 0 then tm_block tm
     else min (tm_block tm) (max (tm_total tm + tm_start tm - now) 0))"

definition rtimeout_get_total :: "rtimeout \<Rightarrow> int \<Rightarrow> int" where
  "rtimeout_get_total tm now =
    (if tm_block tm < 0 \<and> tm_total tm < 0 then -1
     else if tm_block tm < 0 then max (tm_total tm + tm_start tm - now) 0
     else if tm_total tm < 0 then max (tm_block tm + tm_start tm - now) 0
     else min (tm_block tm) (max (tm_total tm + tm_start tm - now) 0))"

definition rtimeout_done :: "rtimeout \<Rightarrow> int \<Rightarrow> bool" where
  "rtimeout_done tm now \<longleftrightarrow> rtimeout_get_total tm now = 0"

text \<open>The seconds and microseconds of a \<open>timeval\<close>.\<close>

definition rtimeout_2timeval :: "int \<Rightarrow> int \<times> int" where
  "rtimeout_2timeval time_left = (let usec = time_left smod 1000000 in (time_left - usec, usec))"

section \<open>The calendar\<close>

text \<open>
  The day number of a date of the Gregorian calendar, 0 for 1 January 1970: the closed formula
  for the leap years and the days of the months before.
\<close>

definition leaps_before :: "int \<Rightarrow> int" where
  "leaps_before y = (y - 1) div 4 - (y - 1) div 100 + (y - 1) div 400"

definition is_leap :: "int \<Rightarrow> bool" where
  "is_leap y \<longleftrightarrow> 4 dvd y \<and> (\<not> 100 dvd y \<or> 400 dvd y)"

definition month_days :: "int \<Rightarrow> int \<Rightarrow> int" where
  "month_days y m = (if m \<in> {4, 6, 9, 11} then 30 else if m = 2 then (if is_leap y then 29 else 28) else 31)"

definition year_start :: "int \<Rightarrow> int" where
  "year_start y = 365 * (y - 1970) + leaps_before y - leaps_before 1970"

definition date_number :: "int \<Rightarrow> int \<Rightarrow> int \<Rightarrow> int" where
  "date_number y m d = year_start y + (\<Sum>i\<in>{1..<m}. month_days y i) + (d - 1)"

lemma dvd_chain:
  fixes y :: int
  shows "400 dvd y \<Longrightarrow> 100 dvd y" "100 dvd y \<Longrightarrow> 4 dvd y"
proof -
  have "(100 :: int) dvd 400" "(4 :: int) dvd 100" by simp_all
  then show "400 dvd y \<Longrightarrow> 100 dvd y" "100 dvd y \<Longrightarrow> 4 dvd y" using dvd_trans by blast+
qed

lemma leap_year_is_leap:
  assumes "0 \<le> y" "y < 65536"
  shows "rlib_is_leap_year y = (if is_leap y then 1 else 0)"
proof -
  have "y mod 2 ^ 16 = y" using assms by simp
  show ?thesis
    unfolding rlib_is_leap_year_def is_leap_def Let_def \<open>y mod 2 ^ 16 = y\<close> dvd_eq_mod_eq_0 [symmetric]
    using dvd_chain [of y] by (cases "4 dvd y"; cases "100 dvd y"; cases "400 dvd y") simp_all
qed

lemma div_step:
  fixes y n :: int
  assumes "0 < n"
  shows "y div n = (y - 1) div n + (if n dvd y then 1 else 0)"
proof -
  define q r where "q = (y - 1) div n" and "r = (y - 1) mod n"
  have y: "y = n * q + (r + 1)" and r: "0 \<le> r" "r < n"
    using assms div_mult_mod_eq [of "y - 1" n] by (simp_all add: q_def r_def algebra_simps)
  show ?thesis
  proof (cases "r + 1 = n")
    case True
    then have "y = n * (q + 1)" using y by (simp add: algebra_simps)
    then have "y div n = q + 1" "n dvd y" using assms by simp_all
    then show ?thesis unfolding q_def [symmetric] by simp
  next
    case False
    then have "y div n = q" "y mod n = r + 1"
      using r y by (auto intro: int_div_pos_eq int_mod_pos_eq)
    then show ?thesis using r by (simp add: dvd_eq_mod_eq_0 flip: q_def)
  qed
qed

lemma year_start_Suc: "year_start (y + 1) = year_start y + 365 + (if is_leap y then 1 else 0)"
proof -
  have count: "a' - b' + c' = (a - b + c) + (if p \<and> (\<not> q \<or> r) then 1 else 0)"
    if "a' = a + (if p then 1 else 0)" "b' = b + (if q then 1 else 0)" "c' = c + (if r then 1 else 0)"
      "r \<longrightarrow> q" "q \<longrightarrow> p" for a a' b b' c c' :: int and p q r
    using that by (cases p; cases q; cases r) simp_all
  have "y div 4 - y div 100 + y div 400 = leaps_before y + (if is_leap y then 1 else 0)"
    unfolding leaps_before_def is_leap_def
    by (rule count [OF div_step div_step div_step]) (use dvd_chain in auto)
  then have "leaps_before (y + 1) = leaps_before y + (if is_leap y then 1 else 0)"
    by (simp add: leaps_before_def [of "y + 1"])
  then show ?thesis by (simp add: year_start_def)
qed

lemma last_day_of_mon_days:
  assumes "1 \<le> m" "m \<le> 12" "0 \<le> y" "y < 65536"
  shows "rlib_last_day_of_mon m y = month_days y m"
proof -
  have "m = 1 \<or> m = 2 \<or> m = 3 \<or> m = 4 \<or> m = 5 \<or> m = 6 \<or> m = 7 \<or> m = 8 \<or> m = 9 \<or> m = 10 \<or> m = 11 \<or> m = 12"
    using assms(1,2) by presburger
  then show ?thesis
    using leap_year_is_leap [OF assms(3,4)]
    by (elim disjE) (simp_all add: rlib_last_day_of_mon_def month_days_def g_day_per_mon_def Let_def)
qed

text \<open>A year has the days of its months.\<close>

definition months_before :: "int \<Rightarrow> int \<Rightarrow> int" where
  "months_before y m = (\<Sum>i\<in>{1..<m}. month_days y i)"

lemma months_before_Suc: "1 \<le> m \<Longrightarrow> months_before y (m + 1) = months_before y m + month_days y m"
proof -
  assume "1 \<le> m"
  then have "{1..<m + 1} = insert m {1..<m}" by auto
  then show ?thesis by (simp add: months_before_def)
qed

lemma months_before_1: "months_before y 1 = 0"
  by (simp add: months_before_def)

lemma months_before_year: "months_before y 13 = 365 + (if is_leap y then 1 else 0)"
  using months_before_Suc [of 1 y] months_before_Suc [of 2 y] months_before_Suc [of 3 y]
    months_before_Suc [of 4 y] months_before_Suc [of 5 y] months_before_Suc [of 6 y]
    months_before_Suc [of 7 y] months_before_Suc [of 8 y] months_before_Suc [of 9 y]
    months_before_Suc [of 10 y] months_before_Suc [of 11 y] months_before_Suc [of 12 y]
  by (simp add: months_before_1 month_days_def)

lemma year_start_mono: "x \<le> y \<Longrightarrow> year_start x \<le> year_start y"
proof (induction "nat (y - x)" arbitrary: y)
  case (Suc n)
  then have "year_start x \<le> year_start (y - 1)" by simp
  also have "\<dots> \<le> year_start y" using year_start_Suc [of "y - 1"] by simp
  finally show ?case .
qed simp

lemma year_loop_spec:
  "0 \<le> days \<Longrightarrow> 1970 \<le> year \<Longrightarrow> year_start year + days < year_start 65536 \<Longrightarrow>
    \<exists>d y. year_loop days year = (d, y) \<and> year \<le> y \<and> y < 65536 \<and> 0 \<le> d \<and>
      d < 365 + (if is_leap y then 1 else 0) \<and> year_start y + d = year_start year + days"
proof (induction days year rule: year_loop.induct)
  case (1 days year)
  have small: "year < 65536"
  proof (rule ccontr)
    assume "\<not> year < 65536"
    then have "year_start 65536 \<le> year_start year" by (intro year_start_mono) simp
    with "1.prems" show False by simp
  qed
  have leap: "rlib_is_leap_year year = (if is_leap year then 1 else 0)"
    using leap_year_is_leap [of year] "1.prems"(2) small by simp
  show ?case
  proof (cases "days > 0 \<and> days \<ge> 365 + rlib_is_leap_year year")
    case True
    have "year_start (year + 1) + (days - (365 + rlib_is_leap_year year)) = year_start year + days"
      unfolding year_start_Suc leap by simp
    with "1.IH" [OF _ refl] True "1.prems" obtain d y where
      "year_loop (days - (365 + rlib_is_leap_year year)) (year + 1) = (d, y)" "year + 1 \<le> y" "y < 65536" "0 \<le> d"
      "d < 365 + (if is_leap y then 1 else 0)" "year_start y + d = year_start year + days" by auto
    with True show ?thesis by (intro exI [of _ d] exI [of _ y]) (subst year_loop.simps, simp)
  next
    case False
    then have "year_loop days year = (days, year)" by (subst year_loop.simps) (auto simp: Let_def)
    with False leap small "1.prems" show ?thesis by auto
  qed
qed

lemma month_loop_spec:
  assumes "0 \<le> y" "y < 65536"
  shows "0 \<le> days \<Longrightarrow> 1 \<le> m \<Longrightarrow> m \<le> 12 \<Longrightarrow> months_before y m + days < months_before y 13 \<Longrightarrow>
    \<exists>d m'. month_loop days m y = (d, m') \<and> m \<le> m' \<and> m' \<le> 12 \<and> 0 \<le> d \<and> d < month_days y m' \<and>
      months_before y m' + d = months_before y m + days"
proof (induction "nat (12 - m)" arbitrary: days m)
  case 0
  then have "m = 12" by simp
  moreover have "month_loop days 12 y = (days, 12)" by (subst month_loop.simps) simp
  ultimately show ?case using 0 months_before_Suc [of 12 y] by simp
next
  case (Suc n)
  then have m: "m < 12" by simp
  have last: "rlib_last_day_of_mon m y = month_days y m"
    using Suc.prems m assms by (intro last_day_of_mon_days) auto
  show ?case
  proof (cases "days \<ge> month_days y m")
    case True
    have "months_before y (m + 1) = months_before y m + month_days y m"
      using months_before_Suc [of m y] Suc.prems by simp
    moreover have "n = nat (12 - (m + 1))" using Suc.hyps(2) by linarith
    ultimately obtain d m' where
      "month_loop (days - month_days y m) (m + 1) y = (d, m')" "m + 1 \<le> m'" "m' \<le> 12" "0 \<le> d" "d < month_days y m'"
      "months_before y m' + d = months_before y m + days"
      using Suc.hyps(1) [of "m + 1" "days - month_days y m"] Suc.prems True m by auto
    with True m last show ?thesis by (intro exI [of _ d] exI [of _ m']) (subst month_loop.simps, simp)
  next
    case False
    then have "month_loop days m y = (days, m)" using m last by (subst month_loop.simps) (simp add: Let_def)
    with False m Suc.prems show ?thesis by auto
  qed
qed


section \<open>Properties\<close>

text \<open>
  C12: The date and the time of day of a Unix time in milliseconds (of a year before 65536): the
  loops find the date of the Gregorian calendar with that day number, month and day are in range,
  and minute, second and millisecond are those of the time.  The hour is that of the time zone, but
  the date is not: it is always the date in UTC.
\<close>

theorem rtime_date_correct:
  assumes "0 \<le> t" "t div 86400000 < year_start 65536" "0 \<le> zone" "zone \<le> 23"
  defines "r \<equiv> rtime_from_time_millis_security zone t"
  shows "date_number (t_year r) (t_month r) (t_day r) = t div 86400000 \<and>
    1970 \<le> t_year r \<and> t_month r \<in> {1..12} \<and> t_day r \<in> {1..month_days (t_year r) (t_month r)} \<and>
    t_hour r = (t div 3600000 + zone) mod 24 \<and> t_minute r = t div 60000 mod 60 \<and>
    t_second r = t div 1000 mod 60 \<and> t_mills r = t mod 1000"
proof -
  let ?s = "t div 1000"
  let ?days = "?s div 86400"
  have start: "year_start 1970 = 0" "year_start 65536 = 23217004" by (simp_all add: year_start_def leaps_before_def)
  have days: "?days = t div 86400000" using zdiv_zmult2_eq [of 86400 t 1000] by simp
  then have d0: "0 \<le> ?days" "?days < 23217004"
    using assms(1,2) start(2) pos_imp_zdiv_nonneg_iff [of 86400000 t] by (simp_all only: zero_less_numeral)
  then have i32: "signed_take_bit 31 ?days = ?days" by (intro signed_take_bit_int_eq_self) auto
  obtain d1 y where y: "year_loop ?days 1970 = (d1, y)" "1970 \<le> y" "y < 65536" "0 \<le> d1"
    "d1 < 365 + (if is_leap y then 1 else 0)" "year_start y + d1 = ?days"
    using year_loop_spec [of ?days 1970] d0 start by auto
  obtain d2 m where m: "month_loop d1 1 y = (d2, m)" "1 \<le> m" "m \<le> 12" "0 \<le> d2" "d2 < month_days y m"
    "months_before y m + d2 = d1"
    using month_loop_spec [of y d1 1] y months_before_year [of y] months_before_1 [of y] by auto
  have nn: "0 \<le> ?s" "0 \<le> ?s mod 86400" "0 \<le> ?s mod 86400 mod 3600"
    using pos_imp_zdiv_nonneg_iff [of 1000 t] assms(1) by (simp_all only: zero_less_numeral pos_mod_sign)
  have hz: "0 \<le> ?s mod 86400 div 3600 + zone" using assms(3) nn(2) by (simp add: pos_imp_zdiv_nonneg_iff)
  have sd: "t sdiv 1000 = ?s" "t smod 1000 = t mod 1000" "?s sdiv 86400 = ?days" "?s smod 86400 = ?s mod 86400"
    "(?s mod 86400) sdiv 3600 = ?s mod 86400 div 3600" "(?s mod 86400) smod 3600 = ?s mod 86400 mod 3600"
    "(?s mod 86400 mod 3600) sdiv 60 = ?s mod 86400 mod 3600 div 60"
    "(?s mod 86400 mod 3600) smod 60 = ?s mod 86400 mod 3600 mod 60"
    "(?s mod 86400 div 3600 + zone) smod 24 = (?s mod 86400 div 3600 + zone) mod 24"
    by (rule sdiv_nonneg smod_nonneg; use assms(1) nn hz in \<open>simp only: zero_less_numeral\<close>)+
  have r: "r = \<lparr>t_year = y, t_month = m, t_day = d2 + 1, t_hour = (?s mod 86400 div 3600 + zone) mod 24,
      t_minute = ?s mod 86400 mod 3600 div 60, t_second = ?s mod 86400 mod 3600 mod 60, t_mills = t mod 1000\<rparr>"
    unfolding r_def rtime_from_time_millis_security_def Let_def sd i32 y(1) m(1) prod.case ..
  have date: "date_number y m (d2 + 1) = t div 86400000"
    using y(6) m(6) days by (simp add: date_number_def flip: months_before_def)
  have hour: "?s mod 86400 div 3600 = t div 3600000 mod 24"
  proof -
    have "?s mod 86400 = 3600 * (?s div 3600 mod 24) + ?s mod 3600"
      using zmod_zmult2_eq [of 24 ?s 3600] by simp
    then have "?s mod 86400 div 3600 = ?s div 3600 mod 24" by (rule int_div_pos_eq) simp_all
    also have "?s div 3600 = t div 3600000" using zdiv_zmult2_eq [of 3600 t 1000] by simp
    finally show ?thesis .
  qed
  have zone: "(t div 3600000 mod 24 + zone) mod 24 = (t div 3600000 + zone) mod 24"
    by (rule mod_add_left_eq)
  have mins: "?s mod 86400 mod 3600 div 60 = t div 60000 mod 60" "?s mod 86400 mod 3600 mod 60 = ?s mod 60"
  proof -
    have m: "?s mod 86400 mod 3600 = ?s mod 3600" by (rule mod_mod_cancel) simp
    have e: "?s mod 3600 = 60 * (?s div 60 mod 60) + ?s mod 60"
      using zmod_zmult2_eq [of 60 ?s 60] by simp
    have "?s mod 3600 div 60 = ?s div 60 mod 60" using e by (rule int_div_pos_eq) simp_all
    also have "?s div 60 = t div 60000" using zdiv_zmult2_eq [of 60 t 1000] by simp
    finally show "?s mod 86400 mod 3600 div 60 = t div 60000 mod 60" unfolding m .
    show "?s mod 86400 mod 3600 mod 60 = ?s mod 60" unfolding m by (rule mod_mod_cancel) simp
  qed
  have range: "1970 \<le> y" "m \<in> {1..12}" "d2 + 1 \<in> {1..month_days y m}" using y m by simp_all
  show ?thesis
    unfolding r rtime_datas.select_convs hour zone mins using date range by (intro conjI) (assumption | rule refl)+
qed

theorem rtime_date_correct_witness:
  "date_number (t_year (rtime_from_time_millis_security 8 72000000)) (t_month (rtime_from_time_millis_security 8 72000000))
      (t_day (rtime_from_time_millis_security 8 72000000)) = 0 \<and>
   t_hour (rtime_from_time_millis_security 8 72000000) = 4"
proof -
  have "72000000 div 86400000 < year_start 65536" by (simp add: year_start_def leaps_before_def)
  from rtime_date_correct [of 72000000 8, OF _ this] show ?thesis by simp
qed


end
