(* ===== verification/RTools.thy ===== *)
theory RTools
  imports RCodec RList RDict
begin

text \<open>
  \<open>common/src/rtools.c\<close>: the bit functions, the string hash and the generic iterator.  The compiler
  builtins for counting zeros are computed bit by bit.  The hash reads its string as bytes; a word
  of eight bytes is read in the byte order of the machine, which is little endian as in \<open>RCodec\<close>.
\<close>

section \<open>Bits\<close>

definition bit_positions :: "64 word \<Rightarrow> nat list" where
  "bit_positions v = filter (bit v) [0..<64]"

definition rtools_endindex1 :: "64 word \<Rightarrow> int" where
  "rtools_endindex1 v = (if v = 0 then -1 else int (hd (bit_positions v)))"

definition rtools_startindex1 :: "64 word \<Rightarrow> int" where
  "rtools_startindex1 v =
    (if v = 0 then -1
     else let clz = length (takeWhile (\<lambda>i. \<not> bit v i) (rev [0..<64])) in 63 - int clz)"

definition rtools_popcount1 :: "64 word \<Rightarrow> int" where
  "rtools_popcount1 v = int (length (bit_positions v))"

text \<open>\<open>rand() % (end - start + 1) + start\<close>, for the value \<open>r\<close> of \<open>rand\<close>.\<close>

definition rtools_rand_int :: "int \<Rightarrow> int \<Rightarrow> int \<Rightarrow> int option" where
  "rtools_rand_int r start fin = do {
     n \<leftarrow> int32 (fin - start);
     m \<leftarrow> int32 (n + 1);
     if m = 0 then None else int32 (sgn r * (\<bar>r\<bar> mod \<bar>m\<bar>) + start)
   }"

section \<open>The hash\<close>

definition murmur_m :: "64 word" where
  "murmur_m = 0xc6a4a7935bd1e995"

definition murmur_block :: "64 word \<Rightarrow> bytes \<Rightarrow> 64 word" where
  "murmur_block h b =
    (let k = le_word b * murmur_m; k1 = xor k (drop_bit 47 k); k2 = k1 * murmur_m
     in xor h k2 * murmur_m)"

fun murmur_loop :: "64 word \<Rightarrow> bytes \<Rightarrow> nat \<Rightarrow> 64 word" where
  "murmur_loop h p 0 = h"
| "murmur_loop h p (Suc n) = murmur_loop (murmur_block h (take 8 p)) (drop 8 p) n"

text \<open>The switch over the last \<open>n\<close> bytes falls through from \<open>n\<close> down to 1.\<close>

fun murmur_tail :: "64 word \<Rightarrow> bytes \<Rightarrow> nat \<Rightarrow> 64 word" where
  "murmur_tail h p 0 = h"
| "murmur_tail h p (Suc n) =
    (let h1 = xor h (push_bit (8 * n) (ucast (p ! n))) in if n = 0 then h1 * murmur_m else murmur_tail h1 p n)"

definition rhash_func_murmur :: "bytes \<Rightarrow> 64 word" where
  "rhash_func_murmur key =
    (let len = length key;
         h = of_nat len * murmur_m;
         h1 = murmur_loop h key (len div 8);
         h2 = murmur_tail h1 (drop (len div 8 * 8) key) (len mod 8);
         h3 = xor h2 (drop_bit 47 h2) * murmur_m
     in xor h3 (drop_bit 47 h3))"

section \<open>The generic iterator\<close>

text \<open>
  The collection an iterator runs over, by its type id, with the state of the iterator; the result
  of \<open>riterator_next\<close> is a list node, a value or a dictionary entry, or null.
\<close>

datatype ('v, 'a, 'k, 'w) riterator =
    It_rlist "'v rlist" "rlist_iterator option"
  | It_rarray "'a rarray" nat
  | It_rdict "('k, 'w) rdict" rdict_iterator
  | It_other

datatype ('a, 'k, 'w) riter_item =
    Item_null
  | Item_node addr
  | Item_value 'a
  | Item_entry "('k, 'w) rdict_entry"

definition riterator_reset :: "('v, 'a, 'k, 'w) riterator \<Rightarrow> ('v, 'a, 'k, 'w) riterator \<times> int" where
  "riterator_reset it = (case it of
     It_rlist l i \<Rightarrow>
       (It_rlist l (map_option (\<lambda>x. x\<lparr>it_next := (if it_direction x = rlist_dir_tail then rl_head l else rl_tail l)\<rparr>) i), rcode_ok)
   | It_rarray ar _ \<Rightarrow> (It_rarray ar 0, rcode_ok)
   | It_rdict d _ \<Rightarrow> (It_rdict d None, rcode_ok)
   | It_other \<Rightarrow> (It_other, rcode_ok))"

text \<open>For a list the node found is not returned.\<close>

definition riterator_next ::
  "'v lheap \<Rightarrow> ('v, 'a::zero, 'k, 'w) riterator \<Rightarrow> (('v, 'a, 'k, 'w) riterator \<times> ('a, 'k, 'w) riter_item) option"
where
  "riterator_next h it = (case it of
     It_rlist l i \<Rightarrow> do { (i', _) \<leftarrow> rlist_next h i; Some (It_rlist l i', Item_null) }
   | It_rarray ar i \<Rightarrow> do { v \<leftarrow> rarray_at (Some ar) i; Some (It_rarray ar (inc32 i), Item_value v) }
   | It_rdict d i \<Rightarrow> do {
       (i', e) \<leftarrow> rdict_next d i;
       Some (It_rdict d i', case e of None \<Rightarrow> Item_null | Some x \<Rightarrow> Item_entry x)
     }
   | It_other \<Rightarrow> Some (It_other, Item_null))"

definition riterator_has_next :: "('v, 'a, 'k, 'w) riterator \<Rightarrow> bool" where
  "riterator_has_next it = (case it of It_rarray ar i \<Rightarrow> i \<le> ra_size ar | _ \<Rightarrow> False)"

section \<open>Properties\<close>

lemma bit_positions_set: "set (bit_positions v) = {i. bit v i}"
proof -
  have "i < 64" if "bit v i" for i using that bit_imp_le_length [of v i] by simp
  then show ?thesis by (auto simp: bit_positions_def)
qed

lemma hd_filter_upt:
  "i < n \<Longrightarrow> P i \<Longrightarrow> P (hd (filter P [0..<n])) \<and> (\<forall>j<hd (filter P [0..<n]). \<not> P j)"
proof -
  assume i: "i < n" "P i"
  have split: "[0..<n] = [0..<m] @ m # [Suc m..<n]" if "m < n" for m
    using that by (metis add_diff_inverse_nat less_imp_le_nat not_less upt_add_eq_append upt_conv_Cons zero_le)
  define m where "m = (LEAST j. P j)"
  have m: "P m" "\<And>j. j < m \<Longrightarrow> \<not> P j" "m < n"
    using i LeastI [of P i] not_less_Least [of _ P] Least_le [of P i] unfolding m_def by fastforce+
  then have "filter P [0..<m] = []" by (simp add: filter_empty_conv)
  then have "hd (filter P [0..<n]) = m" using split [OF m(3)] m(1) by simp
  with m show ?thesis by simp
qed

text \<open>
  \<open>rtools_endindex1\<close> is the lowest and \<open>rtools_startindex1\<close> the highest set bit (-1 for zero),
  \<open>rtools_popcount1\<close> the number of set bits.
\<close>

theorem rtools_bits:
  "rtools_popcount1 v = int (card {i. bit v i}) \<and>
   (if v = 0 then rtools_endindex1 v = -1 \<and> rtools_startindex1 v = -1
    else (\<exists>lo hi. rtools_endindex1 v = int lo \<and> rtools_startindex1 v = int hi \<and> lo \<le> hi \<and> hi < 64 \<and>
      bit v lo \<and> bit v hi \<and> (\<nexists>i. (i < lo \<or> hi < i) \<and> bit v i)))"
proof (rule conjI)
  have "distinct (bit_positions v)" by (simp only: bit_positions_def distinct_filter distinct_upt)
  then show "rtools_popcount1 v = int (card {i. bit v i})"
    using distinct_card [of "bit_positions v"] by (simp add: rtools_popcount1_def bit_positions_set)
  show "if v = 0 then rtools_endindex1 v = -1 \<and> rtools_startindex1 v = -1
    else (\<exists>lo hi. rtools_endindex1 v = int lo \<and> rtools_startindex1 v = int hi \<and> lo \<le> hi \<and> hi < 64 \<and>
      bit v lo \<and> bit v hi \<and> (\<nexists>i. (i < lo \<or> hi < i) \<and> bit v i))"
  proof (cases "v = 0")
    case True
    then show ?thesis by (simp add: rtools_endindex1_def rtools_startindex1_def)
  next
    case False
    then obtain b where b: "bit v b" by (auto simp: bit_eq_iff)
    then have "b < 64" using bit_imp_le_length [of v b] by simp
    define lo where "lo = hd (bit_positions v)"
    have lo: "bit v lo" "\<And>j. j < lo \<Longrightarrow> \<not> bit v j"
      using hd_filter_upt [of b 64 "bit v"] b \<open>b < 64\<close> unfolding lo_def bit_positions_def by blast+
    define L where "L = rev [0..<(64 :: nat)]"
    have len: "length L = 64" unfolding L_def by (simp only: length_rev length_upt)
    have nth: "L ! k = 63 - k" if "k < 64" for k
      using that unfolding L_def by (simp add: rev_nth del: upt_rec_numeral)
    let ?clz = "length (takeWhile (\<lambda>i. \<not> bit v i) L)"
    have "?clz \<le> 63 - b"
    proof (rule ccontr)
      assume "\<not> ?clz \<le> 63 - b"
      then have "63 - b < ?clz" by simp
      then have "\<not> bit v (takeWhile (\<lambda>i. \<not> bit v i) L ! (63 - b))"
        using set_takeWhileD nth_mem by metis
      moreover have "takeWhile (\<lambda>i. \<not> bit v i) L ! (63 - b) = L ! (63 - b)"
        using \<open>63 - b < ?clz\<close> by (rule takeWhile_nth)
      ultimately show False using b nth [of "63 - b"] \<open>b < 64\<close> by simp
    qed
    then have c: "?clz < 64" by simp
    define hi where "hi = 63 - ?clz"
    have "bit v (L ! ?clz)"
      using nth_length_takeWhile [of "\<lambda>i. \<not> bit v i" L] c len by simp
    then have hi: "bit v hi" using nth [OF c] by (simp add: hi_def)
    have above: "\<not> bit v j" if "hi < j" for j
    proof
      assume j: "bit v j"
      then have "j < 64" using bit_imp_le_length [of v j] by simp
      then have "63 - j < ?clz" using that by (simp add: hi_def)
      then have "\<not> bit v (takeWhile (\<lambda>i. \<not> bit v i) L ! (63 - j))"
        using set_takeWhileD nth_mem by metis
      moreover have "takeWhile (\<lambda>i. \<not> bit v i) L ! (63 - j) = L ! (63 - j)"
        using \<open>63 - j < ?clz\<close> by (rule takeWhile_nth)
      ultimately show False using j nth [of "63 - j"] \<open>j < 64\<close> by simp
    qed
    have "rtools_startindex1 v = int hi"
      using False c by (simp add: rtools_startindex1_def hi_def Let_def of_nat_diff del: upt_rec_numeral flip: L_def)
    moreover have "rtools_endindex1 v = int lo" using False by (simp add: rtools_endindex1_def lo_def)
    moreover have "lo \<le> hi" using lo(1) above by (meson not_le)
    moreover have "hi < 64" by (simp add: hi_def)
    ultimately show ?thesis using False lo hi above by auto
  qed
qed

text \<open>Over a list the generic iterator never hands out a node: its loop ends before it begins.\<close>

lemma riterator_list_null: "riterator_next h (It_rlist l i) = Some (it', item) \<Longrightarrow> item = Item_null"
  by (auto simp: riterator_next_def split: Option.bind_splits)

end
