(* ===== verification/RPool.thy ===== *)
theory RPool
  imports Prelude
begin

unbundle bit_operations_syntax

text \<open>
  The typed memory pool that \<open>rpool_declare\<close> and \<open>rpool_init\<close> of \<open>common/include/rpool.h\<close> generate
  for a type: blocks of equal cells, a free list threaded through the free cells of each block,
  two counters, and the global chain in which every pool is registered.

  A pointer is an address (\<open>0\<close> is NULL), \<open>sz\<close> the size of a cell (\<open>sizeof(rpool_TYPE_item_t)\<close>) and
  \<open>cells\<close> the \<open>next\<close> field of the union stored at an address.  The blocks are held in the order of
  their \<open>next_block\<close> links, the first being \<open>free_head_block\<close>; \<open>prev_block\<close> is the predecessor in
  that order.  What \<open>raymalloc\<close> and \<open>raycmalloc_type\<close> return is an argument: whether the block
  header is obtained, and the address of its cells.
\<close>

section \<open>Data\<close>

record rpool_block =
  b_total :: int
  b_free :: int
  b_item_first :: int
  b_item_last :: int
  b_head :: int
  b_items :: int

record rpool =
  p_capacity :: int
  p_total_free :: int
  p_blocks :: "rpool_block list"

type_synonym cells = "int \<Rightarrow> int"

text \<open>The test of \<open>rpool_TYPE_free\<close>: the address lies in the cells of the block.\<close>

definition in_block :: "int \<Rightarrow> int \<Rightarrow> rpool_block \<Rightarrow> bool" where
  "in_block sz a b = (b_items b \<le> a \<and> a < b_items b + b_total b * sz)"

text \<open>Memory of a cell may be touched while its block is allocated.\<close>

definition cell_ok :: "int \<Rightarrow> rpool_block list \<Rightarrow> int \<Rightarrow> bool" where
  "cell_ok sz bs a = (\<exists>b \<in> set bs. in_block sz a b)"

section \<open>Operations\<close>

text \<open>The links of a new block: cell \<open>i\<close> points to cell \<open>i + 1\<close>, the last one to NULL.\<close>

fun link_cells :: "int \<Rightarrow> cells \<Rightarrow> int \<Rightarrow> nat \<Rightarrow> cells" where
  "link_cells sz c a 0 = c"
| "link_cells sz c a (Suc 0) = c(a := 0)"
| "link_cells sz c a (Suc (Suc n)) = link_cells sz (c(a := a + sz)) (a + sz) (Suc n)"

text \<open>
  The loop bound \<open>num - 1\<close> becomes a \<open>size_t\<close>, so that with \<open>num \<le> 0\<close> the loop leaves the array.
\<close>

definition rpool_expand ::
  "int \<Rightarrow> bool \<times> int \<Rightarrow> rpool option \<times> cells \<Rightarrow> int \<Rightarrow> ((rpool option \<times> cells) \<times> rpool_block option) option" where
  "rpool_expand sz mem = (\<lambda>(pool, c) num.
    case pool of
      None \<Rightarrow> Some ((None, c), None)
    | Some p \<Rightarrow>
        if \<not> fst mem then Some ((pool, c), None)
        else if snd mem = 0 then Some ((pool, c), None)
        else if num \<le> 0 then None
        else
          let items = snd mem;
              blk = \<lparr>b_total = num, b_free = num, b_item_first = items,
                     b_item_last = items + (num - 1) * sz, b_head = items, b_items = items\<rparr>
          in Some ((Some (p\<lparr>p_capacity := p_capacity p + num, p_total_free := p_total_free p + num\<rparr>),
                    link_cells sz c items (nat num)), Some blk))"

text \<open>The walk along the blocks to the first one with a free cell, as its position.\<close>

fun find_free :: "rpool_block list \<Rightarrow> nat option" where
  "find_free [] = None"
| "find_free (b # bs) = (if b_head b \<noteq> 0 then Some 0 else map_option Suc (find_free bs))"

text \<open>Taking the head of the free list of the block at position \<open>i\<close>.\<close>

definition take_cell :: "int \<Rightarrow> rpool \<times> cells \<Rightarrow> nat \<Rightarrow> ((rpool \<times> cells) \<times> int) option" where
  "take_cell sz = (\<lambda>(p, c) i.
    let b = p_blocks p ! i; item = b_head b
    in if \<not> cell_ok sz (p_blocks p) item then None
       else Some ((p\<lparr>p_blocks := (p_blocks p)[i := b\<lparr>b_head := c item, b_free := b_free b - 1\<rparr>],
                     p_total_free := p_total_free p - 1\<rparr>, c), item))"

text \<open>\<open>gset\<close> says whether the global pool of the type is set.\<close>

definition rpool_get ::
  "int \<Rightarrow> int \<Rightarrow> bool \<Rightarrow> bool \<times> int \<Rightarrow> rpool \<times> cells \<Rightarrow> ((rpool \<times> cells) \<times> int) option" where
  "rpool_get sz size_adjust gset mem = (\<lambda>(p, c).
    if \<not> gset then Some ((p, c), 0)
    else case p_blocks p of
      [] \<Rightarrow> None
    | b0 # bs \<Rightarrow>
        (case find_free (b0 # bs) of
           Some i \<Rightarrow> take_cell sz (p, c) i
         | None \<Rightarrow> do {
             ((p1, c1), blk) \<leftarrow> rpool_expand sz mem (Some p, c) size_adjust;
             case (p1, blk) of
               (Some p1, Some nb) \<Rightarrow> take_cell sz (p1\<lparr>p_blocks := b0 # nb # bs\<rparr>, c1) 1
             | _ \<Rightarrow> Some ((p, c), 0)
           }))"

fun find_block :: "int \<Rightarrow> int \<Rightarrow> rpool_block list \<Rightarrow> nat option" where
  "find_block sz a [] = None"
| "find_block sz a (b # bs) = (if in_block sz a b then Some 0 else map_option Suc (find_block sz a bs))"

definition rpool_free ::
  "int \<Rightarrow> bool \<Rightarrow> rpool \<times> cells \<Rightarrow> int \<Rightarrow> ((rpool \<times> cells) \<times> int) option" where
  "rpool_free sz gset = (\<lambda>(p, c) a.
    if \<not> gset then Some ((p, c), -1)
    else if p_blocks p = [] then None
    else case find_block sz a (p_blocks p) of
      None \<Rightarrow> Some ((p, c), -1)
    | Some i \<Rightarrow>
        let b = p_blocks p ! i;
            c1 = c(a := b_head b);
            b1 = b\<lparr>b_head := a, b_free := b_free b + 1\<rparr>;
            p1 = p\<lparr>p_blocks := (p_blocks p)[i := b1], p_total_free := p_total_free p + 1\<rparr>
        in if i = 0 then Some ((p1, c1), rcode_ok)
           else do {
             twice \<leftarrow> int32 (2 * b_free b1);
             if p_total_free p1 > twice \<and> b_total b1 = b_free b1
             then Some ((p1\<lparr>p_capacity := p_capacity p1 - b_total b1,
                            p_total_free := p_total_free p1 - b_total b1,
                            p_blocks := take i (p_blocks p1) @ drop (Suc i) (p_blocks p1)\<rparr>, c1), rcode_ok)
             else Some ((p1, c1), rcode_ok)
           })"

section \<open>The global chain\<close>

text \<open>
  The nodes behind the root node \<open>rpool_chain\<close> in the order of their \<open>next\<close> links, each with its
  \<open>pool_self\<close> and the pool of the node its \<open>prev\<close> points to (\<open>0\<close>: the root node).
\<close>

type_synonym rpool_chain = "(int \<times> int) list"

definition rpool_create ::
  "int \<Rightarrow> int \<Rightarrow> int \<Rightarrow> bool \<times> int \<Rightarrow> bool \<Rightarrow> rpool_chain \<Rightarrow> cells \<Rightarrow>
   ((int \<times> rpool option) \<times> rpool_chain \<times> cells) option" where
  "rpool_create sz size_init addr mem node_ok chain c =
    (if addr = 0 then Some ((0, None), chain, c)
     else let p = \<lparr>p_capacity = 0, p_total_free = 0, p_blocks = []\<rparr>
          in do {
            ((p1, c1), blk) \<leftarrow> rpool_expand sz mem (Some p, c) size_init;
            case (p1, blk) of
              (Some p1, Some nb) \<Rightarrow>
                if \<not> node_ok then Some ((0, None), chain, c1)
                else Some ((addr, Some (p1\<lparr>p_blocks := [nb]\<rparr>)), (addr, 0) # chain, c1)
            | _ \<Rightarrow> Some ((0, None), chain, c1)
          })"

fun node_index :: "int \<Rightarrow> rpool_chain \<Rightarrow> nat option" where
  "node_index q [] = None"
| "node_index q (n # ns) = (if fst n = q then Some 0 else map_option Suc (node_index q ns))"

text \<open>
  Taking a node out: \<open>prev->next = next\<close> makes what follows \<open>prev\<close> the successors of the node, then
  \<open>next->prev = prev\<close>.  A \<open>prev\<close> that is no node of the chain would be a dangling pointer.
\<close>

definition chain_unlink :: "rpool_chain \<Rightarrow> int \<Rightarrow> rpool_chain option" where
  "chain_unlink chain q =
    (case node_index q chain of
       None \<Rightarrow> Some chain
     | Some i \<Rightarrow>
         let pv = snd (chain ! i);
             rest = drop (Suc i) chain;
             rest1 = (case rest of [] \<Rightarrow> [] | n # ns \<Rightarrow> (fst n, pv) # ns)
         in if pv = 0 then Some rest1
            else map_option (\<lambda>j. take (Suc j) chain @ rest1) (node_index pv chain))"

text \<open>
  \<open>rpool_TYPE_destroy\<close>: the blocks it frees (by the address of their cells), the chain and the global
  pool pointer afterwards.
\<close>

definition rpool_destroy ::
  "int \<times> rpool option \<Rightarrow> int \<times> rpool option \<Rightarrow> rpool_chain \<Rightarrow>
   (int list \<times> rpool_chain \<times> (int \<times> rpool option)) option" where
  "rpool_destroy gpool pool chain =
    (let (addr, po) = (if fst pool = 0 then gpool else pool)
     in if addr = 0 \<or> fst gpool = 0 then Some ([], chain, gpool)
        else case po of
          None \<Rightarrow> None
        | Some p \<Rightarrow> do {
            chain1 \<leftarrow> chain_unlink chain addr;
            Some (map b_items (p_blocks p), chain1, (0, None))
          })"

text \<open>
  \<open>rpool_uninit_global\<close>: the first node is unlinked and its pool destroyed until no node is left;
  the result is the list of the pools whose destroy function was called.  The destroy function
  finds its pool no more in the chain unless it is registered twice, which stops the model.
\<close>

fun rpool_uninit_global :: "rpool_chain \<Rightarrow> int list option" where
  "rpool_uninit_global [] = Some []"
| "rpool_uninit_global (n # ns) =
    (if node_index (fst n) ns \<noteq> None then None
     else map_option (Cons (fst n)) (rpool_uninit_global ns))"

section \<open>Bit blocks\<close>

definition pool_block_item_count :: int where
  "pool_block_item_count = 64"

definition dada_used_flag_block :: "64 word \<Rightarrow> nat \<Rightarrow> 64 word" where
  "dada_used_flag_block used i = (used OR push_bit i 1)"

definition dada_free_flag_block :: "64 word \<Rightarrow> nat \<Rightarrow> 64 word" where
  "dada_free_flag_block used i = (used AND NOT (push_bit i 1))"

definition dada_full_block :: "64 word \<Rightarrow> bool" where
  "dada_full_block used = (NOT used = 0)"

definition dada_empty_block :: "64 word \<Rightarrow> bool" where
  "dada_empty_block used = (used = 0)"

definition dada_check_block :: "int \<Rightarrow> int \<Rightarrow> int \<Rightarrow> bool" where
  "dada_check_block data_buffer data_total_size ptr = (ptr \<noteq> 0 \<and> ptr - data_buffer < data_total_size)"


section \<open>The invariant of a pool\<close>

definition block_cells :: "int \<Rightarrow> rpool_block \<Rightarrow> int list" where
  "block_cells sz b = map (\<lambda>k. b_items b + int k * sz) [0..<nat (b_total b)]"

fun walk :: "cells \<Rightarrow> nat \<Rightarrow> int \<Rightarrow> int list" where
  "walk c 0 a = []"
| "walk c (Suc n) a = a # walk c n (c a)"

fun walk_end :: "cells \<Rightarrow> nat \<Rightarrow> int \<Rightarrow> int" where
  "walk_end c 0 a = a"
| "walk_end c (Suc n) a = walk_end c n (c a)"

definition free_cells :: "cells \<Rightarrow> rpool_block \<Rightarrow> int list" where
  "free_cells c b = walk c (nat (b_free b)) (b_head b)"

text \<open>
  A block of at least one cell and fewer than \<open>2 ^ 30\<close> ones, whose free list runs through distinct
  cells of it, has \<open>b_free\<close> entries and ends at NULL.
\<close>

definition block_ok :: "int \<Rightarrow> cells \<Rightarrow> rpool_block \<Rightarrow> bool" where
  "block_ok sz c b =
    (0 < b_items b \<and> 0 < b_total b \<and> b_total b < 2 ^ 30 \<and> 0 \<le> b_free b \<and>
     b_item_first b = b_items b \<and> b_item_last b = b_items b + (b_total b - 1) * sz \<and>
     distinct (free_cells c b) \<and> set (free_cells c b) \<subseteq> set (block_cells sz b) \<and>
     walk_end c (nat (b_free b)) (b_head b) = 0)"

definition apart :: "int \<Rightarrow> rpool_block \<Rightarrow> rpool_block \<Rightarrow> bool" where
  "apart sz b b' =
    (b_items b + b_total b * sz \<le> b_items b' \<or> b_items b' + b_total b' * sz \<le> b_items b)"

fun pool_inv :: "int \<Rightarrow> rpool \<times> cells \<Rightarrow> bool" where
  "pool_inv sz (p, c) =
    (p_blocks p \<noteq> [] \<and> list_all (block_ok sz c) (p_blocks p) \<and> sorted_wrt (apart sz) (p_blocks p) \<and>
     p_capacity p = sum_list (map b_total (p_blocks p)) \<and>
     p_total_free p = sum_list (map b_free (p_blocks p)))"

text \<open>The cells handed out and not yet returned.\<close>

definition block_used :: "int \<Rightarrow> cells \<Rightarrow> rpool_block \<Rightarrow> int set" where
  "block_used sz c b = set (block_cells sz b) - set (free_cells c b)"

fun pool_used :: "int \<Rightarrow> rpool \<times> cells \<Rightarrow> int set" where
  "pool_used sz (p, c) = (\<Union>b \<in> set (p_blocks p). block_used sz c b)"

section \<open>One block\<close>

lemma walk_length [simp]: "length (walk c n a) = n"
  by (induction n arbitrary: a) auto

lemma walk_frame:
  assumes "\<And>x. x \<in> set (walk c n a) \<Longrightarrow> c' x = c x"
  shows "walk c' n a = walk c n a" "walk_end c' n a = walk_end c n a"
  using assms by (induction n arbitrary: a) auto

lemma block_cells_in: "0 < sz \<Longrightarrow> x \<in> set (block_cells sz b) \<Longrightarrow> in_block sz x b"
proof -
  assume sz: "0 < sz" and "x \<in> set (block_cells sz b)"
  then obtain k where k: "x = b_items b + int k * sz" "int k < b_total b"
    by (auto simp: block_cells_def)
  have "int k * sz < b_total b * sz" using k(2) sz by (rule mult_strict_right_mono)
  moreover have "0 \<le> int k * sz" using sz by simp
  ultimately show ?thesis using k(1) by (simp add: in_block_def)
qed

lemma block_cells_distinct: "0 < sz \<Longrightarrow> distinct (block_cells sz b)"
  by (auto simp: block_cells_def distinct_map inj_on_def)

lemma block_cells_spaced:
  assumes "0 < sz" "x \<in> set (block_cells sz b)" "y \<in> set (block_cells sz b)" "x < y"
  shows "x + sz \<le> y"
proof -
  obtain j k where jk: "x = b_items b + int j * sz" "y = b_items b + int k * sz"
    using assms(2,3) by (auto simp: block_cells_def)
  then have "int j * sz < int k * sz" using assms(4) by simp
  then have "int j < int k" using assms(1) by (simp add: mult_less_cancel_right)
  then have "(int j + 1) * sz \<le> int k * sz" using assms(1) by (intro mult_right_mono) auto
  then show ?thesis using jk by (simp add: algebra_simps)
qed

lemma block_frame:
  assumes "block_ok sz c b" "\<And>x. x \<in> set (block_cells sz b) \<Longrightarrow> c' x = c x"
  shows "block_ok sz c' b" "free_cells c' b = free_cells c b"
proof -
  have "c' x = c x" if "x \<in> set (walk c (nat (b_free b)) (b_head b))" for x
    using that assms by (auto simp: block_ok_def free_cells_def)
  from walk_frame [OF this] show *: "free_cells c' b = free_cells c b"
    by (simp add: free_cells_def)
  show "block_ok sz c' b"
    using assms(1) walk_frame(2) [of c _ _ c'] *
      \<open>\<And>x. x \<in> set (walk c (nat (b_free b)) (b_head b)) \<Longrightarrow> c' x = c x\<close>
    by (simp add: block_ok_def)
qed

text \<open>Writing into a cell that is in use is not seen by the pool.\<close>

lemma block_write_used:
  assumes "block_ok sz c b" "x \<notin> set (free_cells c b)"
  shows "block_ok sz (c(x := v)) b" "free_cells (c(x := v)) b = free_cells c b"
proof -
  have eq: "walk (c(x := v)) (nat (b_free b)) (b_head b) = walk c (nat (b_free b)) (b_head b)"
      "walk_end (c(x := v)) (nat (b_free b)) (b_head b) = walk_end c (nat (b_free b)) (b_head b)"
    by (rule walk_frame; use assms(2) in \<open>auto simp: free_cells_def\<close>)+
  show "free_cells (c(x := v)) b = free_cells c b" using eq by (simp add: free_cells_def)
  then show "block_ok sz (c(x := v)) b" using assms(1) eq by (simp add: block_ok_def)
qed

lemma block_cells_pos: "0 < sz \<Longrightarrow> 0 < b_items b \<Longrightarrow> x \<in> set (block_cells sz b) \<Longrightarrow> 0 < x"
  using block_cells_in [of sz x b] by (simp add: in_block_def)

lemma block_ok_head:
  assumes "0 < sz" "block_ok sz c b"
  shows "b_head b = 0 \<longleftrightarrow> b_free b = 0"
proof (cases "nat (b_free b)")
  case 0
  then show ?thesis using assms by (simp add: block_ok_def)
next
  case (Suc n)
  then have "b_head b \<in> set (block_cells sz b)" using assms by (auto simp: block_ok_def free_cells_def)
  with block_cells_pos [OF assms(1), of b] assms(2) have "0 < b_head b" by (auto simp: block_ok_def)
  then show ?thesis using Suc by simp
qed

lemma block_take:
  assumes sz: "0 < sz" and ok: "block_ok sz c b" and h: "b_head b \<noteq> 0"
  defines "b' \<equiv> b\<lparr>b_head := c (b_head b), b_free := b_free b - 1\<rparr>"
  shows "block_ok sz c b'" "free_cells c b = b_head b # free_cells c b'"
    "b_head b \<in> set (block_cells sz b)" "block_cells sz b' = block_cells sz b"
proof -
  from block_ok_head [OF sz ok] h ok obtain n where n: "nat (b_free b) = Suc n"
    by (cases "nat (b_free b)") (auto simp: block_ok_def)
  then have n1: "nat (b_free b - 1) = n" by simp
  with n show fc: "free_cells c b = b_head b # free_cells c b'" by (simp add: free_cells_def b'_def)
  then show "b_head b \<in> set (block_cells sz b)" using ok by (auto simp: block_ok_def)
  show "block_cells sz b' = block_cells sz b" by (simp add: block_cells_def b'_def)
  then show "block_ok sz c b'" using ok fc n n1 by (auto simp: block_ok_def b'_def)
qed

lemma block_give:
  assumes ok: "block_ok sz c b" and a: "a \<in> block_used sz c b"
  defines "b' \<equiv> b\<lparr>b_head := a, b_free := b_free b + 1\<rparr>"
  defines "c' \<equiv> c(a := b_head b)"
  shows "block_ok sz c' b'" "free_cells c' b' = a # free_cells c b" "block_cells sz b' = block_cells sz b"
proof -
  have a': "a \<in> set (block_cells sz b)" "a \<notin> set (free_cells c b)" using a by (auto simp: block_used_def)
  have n: "nat (b_free b + 1) = Suc (nat (b_free b))" using ok by (simp add: block_ok_def nat_add_distrib)
  note w = block_write_used [OF ok a'(2), of "b_head b", folded c'_def]
  show fc: "free_cells c' b' = a # free_cells c b"
    using w(2) n by (simp add: free_cells_def b'_def c'_def)
  show bc: "block_cells sz b' = block_cells sz b" by (simp add: block_cells_def b'_def)
  have "walk_end c' (nat (b_free b')) (b_head b') = 0"
    using w(1) n by (simp add: block_ok_def b'_def c'_def)
  then show "block_ok sz c' b'" using ok fc bc a' by (auto simp: block_ok_def b'_def)
qed

lemma link_cells_outside: "0 < sz \<Longrightarrow> x < a \<or> a + int n * sz \<le> x \<Longrightarrow> link_cells sz c a n x = c x"
proof (induction n arbitrary: c a rule: induct_nat_012)
  case (ge2 n)
  have "0 \<le> int n * sz" using ge2.prems(1) by simp
  moreover have eq: "a + int (Suc (Suc n)) * sz = a + sz + sz + int n * sz"
      "a + sz + int (Suc n) * sz = a + sz + sz + int n * sz"
    by (simp_all add: algebra_simps)
  ultimately have out: "x < a + sz \<or> a + sz + int (Suc n) * sz \<le> x" and ne: "x \<noteq> a"
    using ge2.prems unfolding eq by linarith+
  show ?case unfolding link_cells.simps ge2.IH(2) [OF ge2.prems(1) out] using ne by (rule fun_upd_other)
qed auto

lemma link_cells_walk:
  assumes "0 < sz"
  shows "walk (link_cells sz c a (Suc n)) (Suc n) a = map (\<lambda>k. a + int k * sz) [0..<Suc n] \<and>
    walk_end (link_cells sz c a (Suc n)) (Suc n) a = 0"
proof (induction n arbitrary: c a)
  case (Suc n)
  let ?c = "c(a := a + sz)"
  have c: "link_cells sz c a (Suc (Suc n)) = link_cells sz ?c (a + sz) (Suc n)" by simp
  have at: "link_cells sz ?c (a + sz) (Suc n) a = a + sz"
    using link_cells_outside [OF assms, of a "a + sz" "Suc n" ?c] assms by simp
  have m: "map (\<lambda>k. a + int k * sz) [0..<Suc (Suc n)] = a # map (\<lambda>k. a + sz + int k * sz) [0..<Suc n]"
    by (rule nth_equalityI) (auto simp: nth_Cons' algebra_simps simp del: upt_Suc)
  show ?case unfolding c m walk.simps(2) [of _ "Suc n"] walk_end.simps(2) [of _ "Suc n"] at
    using Suc.IH [of ?c "a + sz"] by (simp only: list.inject)
qed simp


lemma block_new:
  fixes c :: cells
  assumes "0 < sz" "0 < items" "0 < num" "num < 2 ^ 30"
  defines "nb \<equiv> \<lparr>b_total = num, b_free = num, b_item_first = items,
    b_item_last = items + (num - 1) * sz, b_head = items, b_items = items\<rparr>"
  defines "c' \<equiv> link_cells sz c items (nat num)"
  shows "block_ok sz c' nb" "free_cells c' nb = block_cells sz nb"
    "\<And>x. \<not> in_block sz x nb \<Longrightarrow> c' x = c x"
proof -
  obtain n where n: "nat num = Suc n" using assms(3) by (cases "nat num") auto
  from link_cells_walk [OF assms(1), of c items n]
  have w: "walk c' (Suc n) items = map (\<lambda>k. items + int k * sz) [0..<Suc n]"
      "walk_end c' (Suc n) items = 0"
    unfolding c'_def n by blast+
  from w show fc: "free_cells c' nb = block_cells sz nb"
    by (simp only: free_cells_def block_cells_def nb_def n rpool_block.simps)
  then show "block_ok sz c' nb"
    using assms(1-4) w(2) n block_cells_distinct [OF assms(1), of nb] by (simp add: block_ok_def nb_def)
  show "c' x = c x" if "\<not> in_block sz x nb" for x
    unfolding c'_def using that assms(3)
    by (intro link_cells_outside [OF assms(1)]) (auto simp: in_block_def nb_def)
qed

section \<open>All blocks\<close>

lemma apart_cells:
  "0 < sz \<Longrightarrow> apart sz b b' \<Longrightarrow> x \<in> set (block_cells sz b) \<Longrightarrow> in_block sz x b' \<Longrightarrow> False"
  using block_cells_in [of sz x b] by (auto simp: apart_def in_block_def)

lemma apart_sym: "apart sz b b' \<Longrightarrow> apart sz b' b"
  by (auto simp: apart_def)

lemma apart_upd:
  "apart sz (b\<lparr>b_head := h, b_free := f\<rparr>) b' = apart sz b b'"
  "apart sz b' (b\<lparr>b_head := h, b_free := f\<rparr>) = apart sz b' b"
  by (simp_all add: apart_def)

lemma find_free_Some:
  assumes "find_free bs = Some i"
  obtains xs b ys where "bs = xs @ b # ys" "length xs = i" "b_head b \<noteq> 0" "\<forall>x \<in> set xs. b_head x = 0"
proof -
  have "\<exists>xs b ys. bs = xs @ b # ys \<and> length xs = i \<and> b_head b \<noteq> 0 \<and> (\<forall>x \<in> set xs. b_head x = 0)"
    using assms
  proof (induction bs arbitrary: i)
    case (Cons a bs)
    show ?case
    proof (cases "b_head a = 0")
      case True
      with Cons.prems obtain j where j: "find_free bs = Some j" "i = Suc j" by auto
      from Cons.IH [OF j(1)] obtain xs b ys where
        "bs = xs @ b # ys" "length xs = j" "b_head b \<noteq> 0" "\<forall>x \<in> set xs. b_head x = 0" by blast
      with True j(2) show ?thesis by (intro exI [of _ "a # xs"] exI [of _ b] exI [of _ ys]) simp
    next
      case False
      with Cons.prems show ?thesis by (intro exI [of _ "[]"] exI [of _ a] exI [of _ bs]) simp
    qed
  qed simp
  with that show thesis by blast
qed

lemma find_free_None: "find_free bs = None \<longleftrightarrow> (\<forall>b \<in> set bs. b_head b = 0)"
  by (induction bs) auto

lemma find_block_Some:
  assumes "find_block sz a bs = Some i"
  obtains xs b ys where "bs = xs @ b # ys" "length xs = i" "in_block sz a b"
proof -
  have "\<exists>xs b ys. bs = xs @ b # ys \<and> length xs = i \<and> in_block sz a b"
    using assms
  proof (induction bs arbitrary: i)
    case (Cons x bs)
    show ?case
    proof (cases "in_block sz a x")
      case False
      with Cons.prems obtain j where j: "find_block sz a bs = Some j" "i = Suc j" by auto
      from Cons.IH [OF j(1)] obtain xs b ys where
        "bs = xs @ b # ys" "length xs = j" "in_block sz a b" by blast
      with j(2) show ?thesis by (intro exI [of _ "x # xs"] exI [of _ b] exI [of _ ys]) simp
    next
      case True
      with Cons.prems show ?thesis by (intro exI [of _ "[]"] exI [of _ x] exI [of _ bs]) simp
    qed
  qed simp
  with that show thesis by blast
qed

lemma find_block_None: "find_block sz a bs = None \<longleftrightarrow> \<not> cell_ok sz bs a"
  by (induction bs) (auto simp: cell_ok_def)

lemma pool_inv_D:
  assumes "pool_inv sz (p, c)" "p_blocks p = xs @ b # ys"
  shows "block_ok sz c b" "\<And>x. x \<in> set xs \<union> set ys \<Longrightarrow> apart sz b x \<and> apart sz x b \<and> block_ok sz c x"
    "sorted_wrt (apart sz) (xs @ ys)"
  using assms by (auto simp: sorted_wrt_append list_all_iff intro: apart_sym)

text \<open>Exchanging one block of a pool for another over the same cells.\<close>

lemma pool_exchange:
  assumes sz: "0 < sz" and inv: "pool_inv sz (p, c)" and bl: "p_blocks p = xs @ b # ys"
    and ok: "block_ok sz c' b'" "b' = b\<lparr>b_head := h, b_free := f\<rparr>"
    and fr: "\<And>x. x \<notin> set (block_cells sz b) \<Longrightarrow> c' x = c x"
  shows "pool_inv sz (p\<lparr>p_blocks := xs @ b' # ys, p_total_free := p_total_free p + (f - b_free b)\<rparr>, c')"
    (is ?inv)
    and "pool_used sz (p\<lparr>p_blocks := xs @ b' # ys, p_total_free := t\<rparr>, c') =
      (pool_used sz (p, c) - set (block_cells sz b)) \<union> block_used sz c' b'" (is ?used)
proof -
  note D = pool_inv_D [OF inv bl]
  have eq: "c' y = c y" if "x \<in> set xs \<union> set ys" "y \<in> set (block_cells sz x)" for x y
  proof (rule fr)
    show "y \<notin> set (block_cells sz b)"
      using D(2) [OF that(1)] apart_cells [OF sz, of x b y] that(2) block_cells_in [OF sz] by blast
  qed
  have others: "block_ok sz c' x" "free_cells c' x = free_cells c x" if "x \<in> set xs \<union> set ys" for x
    using block_frame [of sz c x c'] D(2) [OF that] eq [OF that] by auto
  show ?inv
    using inv D others ok unfolding bl
    by (auto simp: bl list_all_iff sorted_wrt_append apart_upd)
  have "block_used sz c' x = block_used sz c x - set (block_cells sz b)" if "x \<in> set xs \<union> set ys" for x
    using that others [OF that] D(2) [OF that] apart_cells [OF sz, of x b] block_cells_in [OF sz]
    by (auto simp: block_used_def)
  moreover have "block_used sz c b \<subseteq> set (block_cells sz b)" by (auto simp: block_used_def)
  ultimately show ?used using bl by auto
qed


section \<open>The operations keep the invariant\<close>

text \<open>What the allocator of the process promises: new cells lie in no block of the pool.\<close>

definition mem_fresh :: "int \<Rightarrow> int \<Rightarrow> bool \<times> int \<Rightarrow> rpool_block list \<Rightarrow> bool" where
  "mem_fresh sz num mem bs =
    (fst mem \<and> snd mem \<noteq> 0 \<longrightarrow> 0 < snd mem \<and>
      (\<forall>b \<in> set bs. snd mem + num * sz \<le> b_items b \<or> b_items b + b_total b * sz \<le> snd mem))"

definition pool_cells :: "int \<Rightarrow> rpool \<Rightarrow> int set" where
  "pool_cells sz p = (\<Union>b \<in> set (p_blocks p). set (block_cells sz b))"

lemma pool_used_cells: "pool_used sz (p, c) \<subseteq> pool_cells sz p"
  by (auto simp: pool_cells_def block_used_def)

lemma list_split_update: "bs = xs @ b # ys \<Longrightarrow> length xs = i \<Longrightarrow> bs ! i = b \<and> bs[i := v] = xs @ v # ys"
  by auto

lemma take_cell_spec:
  assumes sz: "0 < sz" and inv: "pool_inv sz (p, c)"
    and bl: "p_blocks p = xs @ b # ys" "length xs = i" and h: "b_head b \<noteq> 0"
  shows "\<exists>p' a. take_cell sz (p, c) i = Some ((p', c), a) \<and> pool_inv sz (p', c) \<and>
    a \<in> pool_cells sz p \<and> a \<notin> pool_used sz (p, c) \<and> pool_used sz (p', c) = insert a (pool_used sz (p, c)) \<and>
    pool_cells sz p' = pool_cells sz p"
proof -
  note D = pool_inv_D [OF inv bl(1)]
  note B = block_take [OF sz D(1) h]
  let ?b = "b\<lparr>b_head := c (b_head b), b_free := b_free b - 1\<rparr>"
  let ?p = "p\<lparr>p_blocks := (p_blocks p)[i := ?b], p_total_free := p_total_free p - 1\<rparr>"
  note at = list_split_update [OF bl, of ?b]
  have run: "take_cell sz (p, c) i = Some ((?p, c), b_head b)"
    using at bl block_cells_in [OF sz B(3)] by (auto simp: take_cell_def Let_def cell_ok_def)
  note E = pool_exchange [OF sz inv bl(1) B(1) refl]
  have "pool_inv sz (?p, c)" using E(1) at by simp
  moreover have used: "pool_used sz (?p, c) = (pool_used sz (p, c) - set (block_cells sz b)) \<union> block_used sz c ?b"
    using E(2) at by simp
  have dist: "distinct (free_cells c b)" "set (free_cells c b) \<subseteq> set (block_cells sz b)"
    using D(1) by (auto simp: block_ok_def)
  have nu: "b_head b \<notin> block_used sz c x" if x: "x \<in> set (p_blocks p)" for x
  proof (cases "x \<in> set xs \<union> set ys")
    case True
    then show ?thesis using D(2) [OF True] apart_cells [OF sz, of b x] B(3) block_cells_in [OF sz]
      by (auto simp: block_used_def)
  next
    case False
    with x bl have "x = b" by auto
    then show ?thesis using B(2) by (simp add: block_used_def)
  qed
  then have "b_head b \<notin> pool_used sz (p, c)" by auto
  moreover have "block_used sz c ?b = insert (b_head b) (block_used sz c b)"
    using B(2-4) dist by (auto simp: block_used_def)
  moreover have "pool_used sz (p, c) \<inter> set (block_cells sz b) = block_used sz c b"
    using bl D(2) apart_cells [OF sz] block_cells_in [OF sz] by (fastforce simp: block_used_def)
  ultimately have "pool_used sz (?p, c) = insert (b_head b) (pool_used sz (p, c))" using used by blast
  moreover have "pool_cells sz ?p = pool_cells sz p" "b_head b \<in> pool_cells sz p"
    using at bl B(3,4) by (auto simp: pool_cells_def)
  ultimately show ?thesis using run \<open>pool_inv sz (?p, c)\<close> \<open>b_head b \<notin> pool_used sz (p, c)\<close> by blast
qed

lemma expand_insert:
  assumes sz: "0 < sz" and inv: "pool_inv sz (p, c)" and bl: "p_blocks p = b0 # bs"
    and num: "0 < num" "num < 2 ^ 30" and mem: "mem_fresh sz num (True, items) (p_blocks p)" "items \<noteq> 0"
  shows "\<exists>p1 c1 nb. rpool_expand sz (True, items) (Some p, c) num = Some ((Some p1, c1), Some nb) \<and>
    b_head nb = items \<and> p_blocks p1 = p_blocks p \<and> pool_inv sz (p1\<lparr>p_blocks := b0 # nb # bs\<rparr>, c1) \<and>
    pool_used sz (p1\<lparr>p_blocks := b0 # nb # bs\<rparr>, c1) = pool_used sz (p, c) \<and>
    (\<forall>x \<in> pool_cells sz p. c1 x = c x)"
proof -
  let ?nb = "\<lparr>b_total = num, b_free = num, b_item_first = items,
    b_item_last = items + (num - 1) * sz, b_head = items, b_items = items\<rparr>"
  let ?c1 = "link_cells sz c items (nat num)"
  let ?p1 = "p\<lparr>p_capacity := p_capacity p + num, p_total_free := p_total_free p + num\<rparr>"
  have pos: "0 < items" using mem by (simp add: mem_fresh_def)
  note N = block_new [OF sz pos num, where c = c]
  have ap: "apart sz b ?nb" if "b \<in> set (p_blocks p)" for b
    using mem that by (auto simp: mem_fresh_def apart_def)
  have eq: "?c1 x = c x" if "b \<in> set (p_blocks p)" "x \<in> set (block_cells sz b)" for b x
    using N(3) [of x] apart_cells [OF sz ap [OF that(1)] that(2)] by blast
  have old: "block_ok sz ?c1 b" "free_cells ?c1 b = free_cells c b" if "b \<in> set (p_blocks p)" for b
    using block_frame [of sz c b ?c1] eq [OF that] inv that by (auto simp: list_all_iff)
  have run: "rpool_expand sz (True, items) (Some p, c) num = Some ((Some ?p1, ?c1), Some ?nb)"
    using mem num by (simp add: rpool_expand_def Let_def)
  have "pool_inv sz (?p1\<lparr>p_blocks := b0 # ?nb # bs\<rparr>, ?c1)"
    using inv old N(1) ap bl by (auto simp: list_all_iff intro: apart_sym)
  moreover have nu: "block_used sz ?c1 ?nb = {}" using N(2) by (simp add: block_used_def)
  have ou: "block_used sz ?c1 b = block_used sz c b" if "b \<in> set (p_blocks p)" for b
    using old(2) [OF that] by (simp add: block_used_def)
  have "pool_used sz (?p1\<lparr>p_blocks := b0 # ?nb # bs\<rparr>, ?c1) = pool_used sz (p, c)"
    using ou nu bl by simp
  moreover have "\<forall>x \<in> pool_cells sz p. ?c1 x = c x" using eq by (auto simp: pool_cells_def)
  ultimately show ?thesis using run by (intro exI [of _ ?p1] exI [of _ ?c1] exI [of _ ?nb]) simp
qed


lemma block_used_card:
  assumes "0 < sz" "block_ok sz c b"
  shows "finite (block_used sz c b)" "int (card (block_used sz c b)) = b_total b - b_free b"
proof -
  show fin: "finite (block_used sz c b)" by (simp add: block_used_def)
  have sub: "set (free_cells c b) \<subseteq> set (block_cells sz b)" and d: "distinct (free_cells c b)"
    using assms(2) by (auto simp: block_ok_def)
  have n: "card (set (block_cells sz b)) = nat (b_total b)"
    using distinct_card [OF block_cells_distinct [OF assms(1)]] by (simp add: block_cells_def)
  have m: "card (set (free_cells c b)) = nat (b_free b)"
    using distinct_card [OF d] by (simp add: free_cells_def)
  have "card (set (free_cells c b)) \<le> card (set (block_cells sz b))" using sub by (intro card_mono) auto
  then show "int (card (block_used sz c b)) = b_total b - b_free b"
    using card_Diff_subset [OF _ sub] n m assms(2) by (simp add: block_used_def block_ok_def)
qed

lemma rpool_get_spec:
  assumes sz: "0 < sz" and inv: "pool_inv sz (p, c)"
    and adj: "0 < adj" "adj < 2 ^ 30" and mem: "mem_fresh sz adj mem (p_blocks p)"
  shows "\<exists>p' c' a. rpool_get sz adj True mem (p, c) = Some ((p', c'), a) \<and> pool_inv sz (p', c') \<and>
    (\<forall>x \<in> pool_used sz (p, c). c' x = c x) \<and>
    (if a = 0 then p' = p \<and> c' = c \<and> p_total_free p = 0 \<and> \<not> (fst mem \<and> snd mem \<noteq> 0)
     else a \<in> pool_cells sz p' \<and> a \<notin> pool_used sz (p, c) \<and>
       pool_used sz (p', c') = insert a (pool_used sz (p, c)))"
proof -
  obtain b0 bs where bl: "p_blocks p = b0 # bs" using inv by (cases "p_blocks p") auto
  have pos: "0 < x" if "pool_inv sz (q, d)" "x \<in> pool_cells sz q" for x q d
    using that block_cells_pos [OF sz] by (auto simp: pool_cells_def list_all_iff block_ok_def)
  show ?thesis
  proof (cases "find_free (p_blocks p)")
    case (Some i)
    then obtain xs b ys where b: "p_blocks p = xs @ b # ys" "length xs = i" "b_head b \<noteq> 0"
      by (rule find_free_Some)
    from take_cell_spec [OF sz inv b] obtain p' a where t: "take_cell sz (p, c) i = Some ((p', c), a)"
      "pool_inv sz (p', c)" "a \<in> pool_cells sz p" "a \<notin> pool_used sz (p, c)"
      "pool_used sz (p', c) = insert a (pool_used sz (p, c))" "pool_cells sz p' = pool_cells sz p"
      by blast
    have "rpool_get sz adj True mem (p, c) = Some ((p', c), a)"
      unfolding rpool_get_def using Some t(1) by (simp add: bl)
    then show ?thesis using t pos [OF inv t(3)] by auto
  next
    case None
    then have h0: "\<forall>b \<in> set (p_blocks p). b_head b = 0" by (simp add: find_free_None)
    then have "b_free b = 0" if "b \<in> set (p_blocks p)" for b
      using block_ok_head [OF sz, of c b] inv that by (auto simp: list_all_iff)
    then have tf: "p_total_free p = 0" using inv by (simp add: sum_list_0 cong: map_cong)
    show ?thesis
    proof (cases "fst mem \<and> snd mem \<noteq> 0")
      case False
      have "rpool_expand sz mem (Some p, c) adj = Some ((Some p, c), None)"
        using False by (auto simp: rpool_expand_def)
      then have "rpool_get sz adj True mem (p, c) = Some ((p, c), 0)"
        using None by (simp add: rpool_get_def bl)
      then show ?thesis using False inv tf by auto
    next
      case True
      then have m: "mem = (True, snd mem)" by (cases mem) auto
      from expand_insert [OF sz inv bl adj, of "snd mem"] mem True m
      obtain p1 c1 nb where e: "rpool_expand sz mem (Some p, c) adj = Some ((Some p1, c1), Some nb)"
        "b_head nb = snd mem" "pool_inv sz (p1\<lparr>p_blocks := b0 # nb # bs\<rparr>, c1)"
        "pool_used sz (p1\<lparr>p_blocks := b0 # nb # bs\<rparr>, c1) = pool_used sz (p, c)"
        "\<forall>x \<in> pool_cells sz p. c1 x = c x" by metis
      let ?p1 = "p1\<lparr>p_blocks := b0 # nb # bs\<rparr>"
      have b: "p_blocks ?p1 = [b0] @ nb # bs" "length [b0] = 1" "b_head nb \<noteq> 0" using e(2) True by auto
      from take_cell_spec [OF sz e(3) b] obtain p' a where t: "take_cell sz (?p1, c1) 1 = Some ((p', c1), a)"
        "pool_inv sz (p', c1)" "a \<in> pool_cells sz ?p1" "a \<notin> pool_used sz (?p1, c1)"
        "pool_used sz (p', c1) = insert a (pool_used sz (?p1, c1))" "pool_cells sz p' = pool_cells sz ?p1"
        by blast
      have "rpool_get sz adj True mem (p, c) = Some ((p', c1), a)"
        using None e(1) t(1) by (simp add: rpool_get_def bl)
      then show ?thesis using t e(4,5) pos [OF e(3) t(3)] pool_used_cells [of sz p c] by auto
    qed
  qed
qed

lemma rpool_free_foreign:
  assumes "p_blocks p \<noteq> []" "\<not> cell_ok sz (p_blocks p) a"
  shows "rpool_free sz True (p, c) a = Some ((p, c), -1)"
  using assms find_block_None [of sz a "p_blocks p"] by (simp add: rpool_free_def)


lemma used_in_one_block:
  assumes sz: "0 < sz" and inv: "pool_inv sz (p, c)" and bl: "p_blocks p = xs @ b # ys"
    and a: "a \<in> pool_used sz (p, c)" "in_block sz a b"
  shows "a \<in> block_used sz c b"
proof -
  have "a \<notin> block_used sz c x" if "x \<in> set xs \<union> set ys" for x
    using pool_inv_D(2) [OF inv bl that] apart_cells [OF sz, of x b a] a(2) by (auto simp: block_used_def)
  with a(1) bl show ?thesis by auto
qed

text \<open>A returned cell is no longer in use, whether its block stays or is released.\<close>

lemma rpool_free_spec:
  assumes sz: "0 < sz" and inv: "pool_inv sz (p, c)" and a: "a \<in> pool_used sz (p, c)"
  shows "\<exists>p' c'. rpool_free sz True (p, c) a = Some ((p', c'), rcode_ok) \<and> pool_inv sz (p', c') \<and>
    pool_used sz (p', c') = pool_used sz (p, c) - {a} \<and>
    (\<forall>x \<in> pool_used sz (p, c) - {a}. c' x = c x) \<and> hd (map b_items (p_blocks p')) = hd (map b_items (p_blocks p))"
proof -
  have "cell_ok sz (p_blocks p) a"
    using a block_cells_in [OF sz] by (auto simp: cell_ok_def block_used_def)
  then obtain i where i: "find_block sz a (p_blocks p) = Some i"
    using find_block_None [of sz a "p_blocks p"] by auto
  then obtain xs b ys where b: "p_blocks p = xs @ b # ys" "length xs = i" "in_block sz a b"
    by (rule find_block_Some)
  note ab = used_in_one_block [OF sz inv b(1) a b(3)]
  note ok = pool_inv_D(1) [OF inv b(1)]
  note G = block_give [OF ok ab]
  let ?c = "c(a := b_head b)"
  let ?b = "b\<lparr>b_head := a, b_free := b_free b + 1\<rparr>"
  let ?p = "p\<lparr>p_blocks := (p_blocks p)[i := ?b], p_total_free := p_total_free p + 1\<rparr>"
  note at = list_split_update [OF b(1,2), of ?b]
  have fr: "?c x = c x" if "x \<notin> set (block_cells sz b)" for x
    using that ab by (auto simp: block_used_def)
  note E = pool_exchange [OF sz inv b(1) G(1) refl, OF fr]
  have invp: "pool_inv sz (?p, ?c)" using E(1) at by simp
  have bu: "block_used sz ?c ?b = block_used sz c b - {a}" using G(2,3) by (auto simp: block_used_def)
  have meet: "pool_used sz (p, c) \<inter> set (block_cells sz b) = block_used sz c b"
    using used_in_one_block [OF sz inv b(1)] block_cells_in [OF sz] b(1) by (auto simp: block_used_def)
  have used: "pool_used sz (?p, ?c) = pool_used sz (p, c) - {a}"
  proof -
    have "pool_used sz (?p, ?c) = (pool_used sz (p, c) - set (block_cells sz b)) \<union> block_used sz ?c ?b"
      using E(2) at by simp
    then show ?thesis using bu meet ab by blast
  qed
  have ne: "p_blocks p \<noteq> []" using b(1) by simp
  define drop_it where "drop_it = (i \<noteq> 0 \<and> p_total_free p + 1 > 2 * (b_free b + 1) \<and> b_total b = b_free b + 1)"
  let ?q = "?p\<lparr>p_capacity := p_capacity p - b_total b, p_total_free := p_total_free p + 1 - b_total b,
    p_blocks := xs @ ys\<rparr>"
  have "0 < card (block_used sz c b)" using ab block_used_card(1) [OF sz ok] by (auto simp: card_gt_0_iff)
  then have range: "0 \<le> b_free b" "b_free b + 1 < 2 ^ 30"
    using ok block_used_card(2) [OF sz ok] by (auto simp: block_ok_def)
  have i32: "int32 (2 * b_free b + 2) = Some (2 * b_free b + 2)" using range by (intro int32_in_range) auto
  have tk: "take i (xs @ ?b # ys) = xs" "drop (Suc i) (xs @ ?b # ys) = ys" using b(2) by auto
  have run: "rpool_free sz True (p, c) a = Some ((if drop_it then ?q else ?p, ?c), rcode_ok)"
    using i ne at tk range by (simp add: rpool_free_def Let_def drop_it_def i32)
  have frx: "\<forall>x \<in> pool_used sz (p, c) - {a}. ?c x = c x" by simp
  show ?thesis
  proof (cases drop_it)
    case False
    have "hd (map b_items (p_blocks ?p)) = hd (map b_items (p_blocks p))"
      using at b(1) by (cases xs) auto
    moreover have "rpool_free sz True (p, c) a = Some ((?p, ?c), rcode_ok)"
      using run False by (simp only: if_False)
    ultimately show ?thesis using invp used frx by blast
  next
    case True
    have "xs \<noteq> []" using True b(2) by (auto simp: drop_it_def)
    then have "hd (map b_items (p_blocks ?q)) = hd (map b_items (p_blocks p))"
      using b(1) by (cases xs) auto
    moreover have "block_used sz ?c ?b = {}"
      using block_used_card [OF sz G(1)] True by (simp add: drop_it_def)
    then have "pool_used sz (?q, ?c) = pool_used sz (?p, ?c)" using at by auto
    with used have "pool_used sz (?q, ?c) = pool_used sz (p, c) - {a}" by (rule trans [rotated])
    moreover have "pool_inv sz (?q, ?c)"
      using invp True at \<open>xs \<noteq> []\<close> by (auto simp: drop_it_def sorted_wrt_append)
    moreover have "rpool_free sz True (p, c) a = Some ((?q, ?c), rcode_ok)"
      using run True by (simp only: if_True)
    ultimately show ?thesis using frx by blast
  qed
qed

lemma pool_write_used:
  assumes sz: "0 < sz" and inv: "pool_inv sz (p, c)" and a: "a \<in> pool_used sz (p, c)"
  shows "pool_inv sz (p, c(a := v)) \<and> pool_used sz (p, c(a := v)) = pool_used sz (p, c)"
proof -
  have nf: "a \<notin> set (free_cells c b)" if bp: "b \<in> set (p_blocks p)" for b
  proof
    assume af: "a \<in> set (free_cells c b)"
    from bp obtain xs ys where bl: "p_blocks p = xs @ b # ys" by (meson split_list)
    have "a \<in> set (block_cells sz b)" using af pool_inv_D(1) [OF inv bl] by (auto simp: block_ok_def)
    from used_in_one_block [OF sz inv bl a block_cells_in [OF sz this]] af
    show False by (simp add: block_used_def)
  qed
  have W: "block_ok sz (c(a := v)) b \<and> free_cells (c(a := v)) b = free_cells c b" if "b \<in> set (p_blocks p)" for b
    using block_write_used [of sz c b a v] nf [OF that] inv that by (auto simp: list_all_iff)
  have "block_used sz (c(a := v)) b = block_used sz c b" if "b \<in> set (p_blocks p)" for b
    using W [OF that] by (simp add: block_used_def)
  then show ?thesis using inv W by (auto simp: list_all_iff)
qed


section \<open>Sessions of a client\<close>

text \<open>
  A client of one pool, with the set \<open>H\<close> of the cells it holds: it gets cells, writes into cells it
  holds (the union puts its data where the link was), and gives cells it holds back.
\<close>

inductive pool_step :: "int \<Rightarrow> int \<Rightarrow> (rpool \<times> cells) \<times> int set \<Rightarrow> (rpool \<times> cells) \<times> int set \<Rightarrow> bool"
  for sz adj :: int where
  got: "mem_fresh sz adj mem (p_blocks p) \<Longrightarrow> rpool_get sz adj True mem (p, c) = Some (st, a) \<Longrightarrow> a \<noteq> 0 \<Longrightarrow>
    pool_step sz adj ((p, c), H) (st, insert a H)"
| none: "mem_fresh sz adj mem (p_blocks p) \<Longrightarrow> rpool_get sz adj True mem (p, c) = Some (st, 0) \<Longrightarrow>
    pool_step sz adj ((p, c), H) (st, H)"
| wrote: "a \<in> H \<Longrightarrow> pool_step sz adj ((p, c), H) ((p, c(a := v)), H)"
| gave: "a \<in> H \<Longrightarrow> rpool_free sz True (p, c) a = Some (st, ret) \<Longrightarrow>
    pool_step sz adj ((p, c), H) (st, H - {a})"

inductive pool_reach :: "int \<Rightarrow> int \<Rightarrow> int \<Rightarrow> (rpool \<times> cells) \<times> int set \<Rightarrow> bool"
  for sz size_init adj :: int where
  start: "0 < items \<Longrightarrow>
    rpool_create sz size_init addr (True, items) True chain c = Some ((addr, Some p), chain', c') \<Longrightarrow>
    pool_reach sz size_init adj ((p, c'), {})"
| step: "pool_reach sz size_init adj s \<Longrightarrow> pool_step sz adj s s' \<Longrightarrow> pool_reach sz size_init adj s'"

lemma rpool_create_spec:
  assumes sz: "0 < sz" and num: "0 < size_init" "size_init < 2 ^ 30" and it: "0 < items"
    and run: "rpool_create sz size_init addr (True, items) True chain c = Some ((addr, Some p), chain', c')"
  shows "pool_inv sz (p, c') \<and> pool_used sz (p, c') = {} \<and> chain' = (addr, 0) # chain"
proof -
  have *: "addr \<noteq> 0" using run by (cases "addr = 0") (simp_all add: rpool_create_def)
  note N = block_new [OF sz it num, where c = c]
  show ?thesis
    using run * N(1,2) num it
    by (auto simp: rpool_create_def rpool_expand_def Let_def block_used_def)
qed

lemma pool_step_inv:
  assumes sz: "0 < sz" and adj: "0 < adj" "adj < 2 ^ 30"
    and st: "pool_step sz adj (st, H) (st', H')" and inv: "pool_inv sz st" "pool_used sz st = H"
  shows "pool_inv sz st' \<and> pool_used sz st' = H'"
  using st
proof (cases rule: pool_step.cases)
  case (got mem p c a)
  have i: "pool_inv sz (p, c)" "pool_used sz (p, c) = H" using got inv by simp_all
  from rpool_get_spec [OF sz i(1) adj got(3)] got(2,4,5) i(2) show ?thesis
    by (auto simp del: pool_inv.simps pool_used.simps)
next
  case (none mem p c)
  have i: "pool_inv sz (p, c)" "pool_used sz (p, c) = H" using none inv by simp_all
  from rpool_get_spec [OF sz i(1) adj none(3)] none(2,4) i show ?thesis
    by (auto simp del: pool_inv.simps pool_used.simps)
next
  case (wrote a p c v)
  then show ?thesis using pool_write_used [OF sz, of p c a v] inv
    by (simp del: pool_inv.simps pool_used.simps)
next
  case (gave a p c ret)
  have i: "pool_inv sz (p, c)" "a \<in> pool_used sz (p, c)" "pool_used sz (p, c) = H" using gave inv by simp_all
  from rpool_free_spec [OF sz i(1,2)] gave(2,4) i(3) show ?thesis
    by (auto simp del: pool_inv.simps pool_used.simps)
qed

lemma pool_reach_inv:
  assumes "0 < sz" "0 < size_init" "size_init < 2 ^ 30" "0 < adj" "adj < 2 ^ 30"
    and "pool_reach sz size_init adj s"
  shows "pool_inv sz (fst s) \<and> pool_used sz (fst s) = snd s"
  using assms(6)
proof (induction rule: pool_reach.induct)
  case (start items addr chain c p chain' c')
  with rpool_create_spec [OF assms(1-3), of items] show ?case by simp
next
  case (step s s')
  then show ?case
    using pool_step_inv [OF assms(1,4,5), of "fst s" "snd s" "fst s'" "snd s'"] by simp
qed

lemma pool_used_spaced:
  assumes sz: "0 < sz" and inv: "pool_inv sz (p, c)"
    and xy: "x \<in> pool_used sz (p, c)" "y \<in> pool_used sz (p, c)" "x < y"
  shows "x + sz \<le> y"
proof -
  obtain b b' where b: "b \<in> set (p_blocks p)" "x \<in> set (block_cells sz b)"
      "b' \<in> set (p_blocks p)" "y \<in> set (block_cells sz b')"
    using xy by (auto simp: block_used_def)
  show ?thesis
  proof (cases "b = b'")
    case True
    then show ?thesis using block_cells_spaced [OF sz b(2)] b(4) xy(3) by simp
  next
    case False
    obtain i j where ij: "i < length (p_blocks p)" "j < length (p_blocks p)" "p_blocks p ! i = b" "p_blocks p ! j = b'"
      using b by (auto simp: in_set_conv_nth)
    with False have "i \<noteq> j" by auto
    then have "i < j \<or> j < i" by linarith
    then have ap: "apart sz b b'"
      using inv ij by (auto simp: sorted_wrt_iff_nth_less intro: apart_sym)
    have end_of: "v + sz \<le> b_items w + b_total w * sz" if v: "v \<in> set (block_cells sz w)" for v w
    proof -
      obtain k where k: "v = b_items w + int k * sz" "int k < b_total w" using v by (fastforce simp: block_cells_def)
      then have "(int k + 1) * sz \<le> b_total w * sz" using sz by (intro mult_right_mono) auto
      then show ?thesis using k by (simp add: algebra_simps)
    qed
    have "b_items b \<le> x" "b_items b' \<le> y" using block_cells_in [OF sz] b by (auto simp: in_block_def)
    with end_of [OF b(2)] end_of [OF b(4)] ap xy(3) sz show ?thesis by (auto simp: apart_def)
  qed
qed

lemma pool_counters:
  assumes sz: "0 < sz" and inv: "pool_inv sz (p, c)"
  shows "finite (pool_used sz (p, c)) \<and> int (card (pool_used sz (p, c))) = p_capacity p - p_total_free p"
proof -
  have "finite (\<Union>b \<in> set bs. block_used sz c b) \<and>
      int (card (\<Union>b \<in> set bs. block_used sz c b)) = sum_list (map b_total bs) - sum_list (map b_free bs)"
    if "list_all (block_ok sz c) bs" "sorted_wrt (apart sz) bs" for bs
    using that
  proof (induction bs)
    case (Cons b bs)
    let ?U = "\<Union>b \<in> set bs. block_used sz c b"
    have IH: "finite ?U" "int (card ?U) = sum_list (map b_total bs) - sum_list (map b_free bs)"
      using Cons by auto
    have "block_used sz c b \<inter> ?U = {}"
      using Cons.prems(2) apart_cells [OF sz] block_cells_in [OF sz] by (fastforce simp: block_used_def)
    with IH block_used_card [OF sz, of c b] Cons.prems(1) show ?case by (simp add: card_Un_disjoint)
  qed simp
  from this [of "p_blocks p"] inv show ?thesis by simp
qed


section \<open>Properties\<close>

text \<open>C13: in every session of a client with a pool of the macro (\<open>pool_reach\<close>: create, then any
sequence of get, writes into held cells and free of held cells, the allocator handing out fresh
memory) the pool's own account agrees with the client's.  The cells in use are those the client
holds, their number is capacity minus free count, and any two of them are at least a cell apart.
The next get returns, with a cell not held by anyone unless the allocator failed, and every held
cell can be given back; an address in no block is refused with -1 and changes nothing.\<close>

theorem rpool_session:
  assumes "0 < sz" "0 < size_init" "size_init < 2 ^ 30" "0 < adj" "adj < 2 ^ 30"
    and "pool_reach sz size_init adj ((p, c), H)"
  shows "pool_used sz (p, c) = H \<and> int (card H) = p_capacity p - p_total_free p \<and>
    (\<forall>x \<in> H. \<forall>y \<in> H. x < y \<longrightarrow> x + sz \<le> y) \<and>
    (\<forall>mem. mem_fresh sz adj mem (p_blocks p) \<longrightarrow>
      (\<exists>st a. rpool_get sz adj True mem (p, c) = Some (st, a) \<and>
        (if a = 0 then st = (p, c) \<and> \<not> (fst mem \<and> snd mem \<noteq> 0) else a \<notin> H \<and> pool_used sz st = insert a H))) \<and>
    (\<forall>a \<in> H. \<exists>st. rpool_free sz True (p, c) a = Some (st, rcode_ok) \<and> pool_used sz st = H - {a}) \<and>
    (\<forall>a. \<not> cell_ok sz (p_blocks p) a \<longrightarrow> rpool_free sz True (p, c) a = Some ((p, c), -1))"
proof -
  from pool_reach_inv [OF assms] have inv: "pool_inv sz (p, c)" and H: "pool_used sz (p, c) = H"
    by (simp_all del: pool_inv.simps pool_used.simps)
  have get: "\<exists>st a. rpool_get sz adj True mem (p, c) = Some (st, a) \<and>
      (if a = 0 then st = (p, c) \<and> \<not> (fst mem \<and> snd mem \<noteq> 0) else a \<notin> H \<and> pool_used sz st = insert a H)"
    if "mem_fresh sz adj mem (p_blocks p)" for mem
  proof -
    from rpool_get_spec [OF assms(1) inv assms(4,5) that, unfolded H] obtain p' c' a where
      "rpool_get sz adj True mem (p, c) = Some ((p', c'), a)"
      "if a = 0 then p' = p \<and> c' = c \<and> p_total_free p = 0 \<and> \<not> (fst mem \<and> snd mem \<noteq> 0)
       else a \<in> pool_cells sz p' \<and> a \<notin> H \<and> pool_used sz (p', c') = insert a H" by blast
    then show ?thesis
      by (intro exI [of _ "(p', c')"] exI [of _ a]) (auto split: if_splits simp del: pool_used.simps)
  qed
  have give: "\<exists>st. rpool_free sz True (p, c) a = Some (st, rcode_ok) \<and> pool_used sz st = H - {a}" if "a \<in> H" for a
    using rpool_free_spec [OF assms(1) inv, of a] that unfolding H by blast
  have "p_blocks p \<noteq> []" using inv by simp
  then have "\<forall>a. \<not> cell_ok sz (p_blocks p) a \<longrightarrow> rpool_free sz True (p, c) a = Some ((p, c), -1)"
    using rpool_free_foreign by blast
  moreover have "int (card H) = p_capacity p - p_total_free p"
    using pool_counters [OF assms(1) inv] unfolding H by (rule conjunct2)
  moreover have "\<forall>x \<in> H. \<forall>y \<in> H. x < y \<longrightarrow> x + sz \<le> y"
    using pool_used_spaced [OF assms(1) inv] unfolding H by blast
  ultimately show ?thesis using H get give by (intro conjI allI ballI impI) simp_all
qed

theorem rpool_session_witness:
  "\<exists>p c. pool_reach 8 1 1 ((p, c), {100, 200}) \<and> p_capacity p - p_total_free p = 2 \<and>
    (\<exists>st. rpool_free 8 True (p, c) 200 = Some (st, rcode_ok) \<and> pool_used 8 st = {100})"
proof -
  let ?blk = "\<lambda>a h f. \<lparr>b_total = 1, b_free = f, b_item_first = a, b_item_last = a, b_head = h, b_items = a\<rparr>"
  let ?c = "\<lambda>_. 0 :: int"
  let ?p1 = "\<lparr>p_capacity = 1, p_total_free = 1, p_blocks = [?blk 100 100 1]\<rparr>"
  let ?p2 = "\<lparr>p_capacity = 1, p_total_free = 0, p_blocks = [?blk 100 0 0]\<rparr>"
  let ?p3 = "\<lparr>p_capacity = 2, p_total_free = 0, p_blocks = [?blk 100 0 0, ?blk 200 0 0]\<rparr>"
  have c: "?c(100 := 0) = ?c" "?c(200 := 0) = ?c" by auto
  have "pool_reach 8 1 1 ((?p1, ?c), {})"
    by (rule pool_reach.start [where items = 100 and addr = 50 and chain = "[]" and chain' = "[(50, 0)]" and c = ?c])
       (simp_all add: rpool_create_def rpool_expand_def c)
  moreover have "pool_step 8 1 ((?p1, ?c), {}) ((?p2, ?c), {100})"
    by (rule pool_step.got [where mem = "(False, 0)"])
       (simp_all add: mem_fresh_def rpool_get_def take_cell_def cell_ok_def in_block_def)
  moreover have "pool_step 8 1 ((?p2, ?c), {100}) ((?p3, ?c), insert 200 {100})"
    by (rule pool_step.got [where mem = "(True, 200)"])
       (simp_all add: mem_fresh_def rpool_get_def rpool_expand_def take_cell_def cell_ok_def in_block_def c)
  ultimately have R: "pool_reach 8 1 1 ((?p3, ?c), {100, 200})"
    by (auto dest: pool_reach.step simp: insert_commute)
  from rpool_session [OF _ _ _ _ _ R] have "int (card {100, 200 :: int}) = p_capacity ?p3 - p_total_free ?p3"
    "\<exists>st. rpool_free 8 True (?p3, ?c) 200 = Some (st, rcode_ok) \<and> pool_used 8 st = {100, 200} - {200}"
    by auto
  then show ?thesis using R
    by (intro exI [of _ ?p3] exI [of _ ?c]) (auto simp del: pool_used.simps)
qed

lemma node_index_split: "q \<notin> set xs \<Longrightarrow> node_index q (map (\<lambda>q. (q, 0)) (xs @ q # ys)) = Some (length xs)"
  by (induction xs) auto

lemma node_index_absent: "q \<notin> set xs \<Longrightarrow> node_index q (map (\<lambda>q. (q, 0)) xs) = None"
  by (induction xs) auto

lemma unlink_root_prev:
  "q \<notin> set xs \<Longrightarrow> chain_unlink (map (\<lambda>q. (q, 0)) (xs @ q # ys)) q = Some (map (\<lambda>q. (q, 0)) ys)"
  unfolding chain_unlink_def node_index_split by (auto simp: nth_append split: list.splits)

lemma uninit_root_prev: "distinct qs \<Longrightarrow> rpool_uninit_global (map (\<lambda>q. (q, 0)) qs) = Some qs"
  by (induction qs) (auto simp: node_index_absent)

text \<open>C37: creating a pool puts its node in front of the chain without setting the \<open>prev\<close> of the node
behind it, so every node points back to the root.  Destroying a pool unhooks its node through that
pointer: the nodes of all pools created after it leave the chain with it, and
\<open>rpool_uninit_global\<close> destroys only the pools created before it.  Without such a destroy it reaches
every registered pool once.\<close>

theorem rpool_chain_destroy:
  assumes "distinct (newer @ q # older)" "0 \<notin> set (newer @ q # older)"
  shows "(\<forall>new p chain c'. rpool_create sz n new (True, items) True (map (\<lambda>q. (q, 0)) older) c =
      Some ((new, Some p), chain, c') \<longrightarrow> chain = map (\<lambda>q. (q, 0)) (new # older)) \<and>
    rpool_destroy (q, Some p) (q, Some p) (map (\<lambda>q. (q, 0)) (newer @ q # older)) =
      Some (map b_items (p_blocks p), map (\<lambda>q. (q, 0)) older, (0, None)) \<and>
    rpool_uninit_global (map (\<lambda>q. (q, 0)) older) = Some older \<and>
    rpool_uninit_global (map (\<lambda>q. (q, 0)) (newer @ q # older)) = Some (newer @ q # older)"
proof (intro conjI allI impI)
  fix new p chain c'
  assume "rpool_create sz n new (True, items) True (map (\<lambda>q. (q, 0)) older) c = Some ((new, Some p), chain, c')"
  then show "chain = map (\<lambda>q. (q, 0)) (new # older)"
    by (auto simp: rpool_create_def rpool_expand_def Let_def split: if_splits)
next
  show "rpool_destroy (q, Some p) (q, Some p) (map (\<lambda>q. (q, 0)) (newer @ q # older)) =
      Some (map b_items (p_blocks p), map (\<lambda>q. (q, 0)) older, (0, None))"
    using assms unlink_root_prev [of q newer older] by (simp add: rpool_destroy_def)
  show "rpool_uninit_global (map (\<lambda>q. (q, 0)) older) = Some older"
    using assms by (intro uninit_root_prev) simp
  show "rpool_uninit_global (map (\<lambda>q. (q, 0)) (newer @ q # older)) = Some (newer @ q # older)"
    using assms by (intro uninit_root_prev)
qed

theorem rpool_chain_destroy_witness:
  "\<exists>p. rpool_destroy (20, Some p) (20, Some p) [(30, 0), (20, 0), (10, 0)] = Some ([100], [(10, 0)], (0, None)) \<and>
    rpool_uninit_global [(10, 0)] = Some [10]"
  using rpool_chain_destroy [of "[30]" 20 "[10]" _ _ _ _ "\<lparr>p_capacity = 1, p_total_free = 1,
    p_blocks = [\<lparr>b_total = 1, b_free = 1, b_item_first = 100, b_item_last = 100, b_head = 100, b_items = 100\<rparr>]\<rparr>"]
  by (intro exI) auto

section \<open>Bit flags\<close>

lemma dada_flags:
  "i < 64 \<Longrightarrow> bit (dada_used_flag_block u i) i"
  "i < 64 \<Longrightarrow> \<not> bit (dada_free_flag_block u i) i"
  "j \<noteq> i \<Longrightarrow> bit (dada_used_flag_block u i) j = bit u j"
  "j \<noteq> i \<Longrightarrow> bit (dada_free_flag_block u i) j = bit u j"
  by (auto simp: dada_used_flag_block_def dada_free_flag_block_def bit_simps dest: bit_imp_le_length)

lemma dada_full_block_iff: "dada_full_block u \<longleftrightarrow> u = - 1"
  unfolding dada_full_block_def by (metis bit.double_compl bit.compl_zero bit.compl_one)

end
