(* ===== verification/Recs.thy ===== *)
theory Recs
  imports RDict
begin

text \<open>
  The entity component system of \<open>ecs/src\<close> (\<open>recs.c\<close>, \<open>rentity.c\<close>, \<open>rcomponent.c\<close>, \<open>rsystem.c\<close>) on
  top of the dictionary and the array: the context with its two maps and its list of systems, the
  identifiers it hands out, entities, components and systems, and the three passes of \<open>recs_run\<close>.

  A pointer is an address (\<open>0\<close> is NULL); \<open>w_entities\<close> and \<open>w_cmps\<close> are the structs that are
  allocated.  The hooks of the context, the functions of the systems and the allocator are an
  environment: a hook is a function on the whole state that may change it, \<open>None\<close> a null pointer.
\<close>

section \<open>Data\<close>

datatype recs_execute_state =
    recs_execute_state_unknown | recs_execute_state_init | recs_execute_state_running
  | recs_execute_state_paused | recs_execute_state_stopped | recs_execute_state_uninit

abbreviation (input) recs_etype_shared :: int where "recs_etype_shared \<equiv> 1"

record recs_entity =
  en_id :: "64 word"
  en_type_id :: int
  en_name :: "string option"
  en_components :: "int rarray option"

record recs_cmp =
  cm_id :: "64 word"
  cm_type_id :: int

text \<open>A pointer to an object: null, to a released one, or to a live one.\<close>

datatype 'a ref = null | released | live (obj: 'a)

fun deref :: "'a ref \<Rightarrow> 'a option option" where
  "deref null = Some None"
| "deref released = None"
| "deref (live x) = Some (Some x)"

fun as_ref :: "'a option \<Rightarrow> 'a ref" where
  "as_ref None = null"
| "as_ref (Some x) = live x"

type_synonym recs_map = "(64 word, int) rdict"

record recs_context =
  sid_min :: "64 word"
  sid_max :: "64 word"
  sid_cur :: "64 word"
  admin_entity :: int
  exec_state :: recs_execute_state
  map_entities :: "recs_map ref"
  map_components :: "recs_map ref"
  systems :: "int rarray ref"
  w_entities :: "int \<Rightarrow> recs_entity option"
  w_cmps :: "int \<Rightarrow> recs_cmp option"

datatype recs_phase = sys_init | sys_uninit | sys_before_update | sys_update | sys_late_update

type_synonym recs_hook = "recs_context \<Rightarrow> (recs_context \<times> int) option"
type_synonym recs_item_hook = "recs_context \<Rightarrow> int \<Rightarrow> (recs_context \<times> int) option"

text \<open>
  \<open>rs_fns\<close> carries the functions \<open>rdict_init\<close> installs for 64-bit keys, \<open>rs_new_entity\<close> the address
  \<open>rdata_new\<close> returns.
\<close>

record recs_env =
  rs_dict :: rdict_env
  rs_array :: rarray_env
  rs_fns :: recs_map
  rs_new_entity :: "recs_context \<Rightarrow> int"
  on_init :: "recs_hook option"
  on_uninit :: "recs_hook option"
  on_new_entity :: "recs_item_hook option"
  on_delete_entity :: "recs_item_hook option"
  on_new_cmp :: "recs_item_hook option"
  on_delete_cmp :: "recs_item_hook option"
  create_cmp :: "recs_item_hook option"
  sys_type :: "int \<Rightarrow> int"
  sys_call :: "recs_phase \<Rightarrow> int \<Rightarrow> recs_context \<Rightarrow> recs_context option"

section \<open>Identifiers\<close>

text \<open>A 64-bit key travels as a pointer, so the id 0 is the null key of the dictionary.\<close>

definition id_key :: "64 word \<Rightarrow> 64 word option" where
  "id_key i = (if i = 0 then None else Some i)"

definition recs_get_next_id :: "recs_context \<Rightarrow> recs_context \<times> 64 word" where
  "recs_get_next_id w =
    (let w1 = (if sid_cur w > sid_max w then w\<lparr>sid_cur := sid_min w\<rparr> else w);
         w2 = w1\<lparr>sid_cur := sid_cur w1 + 1\<rparr>
     in (w2, sid_cur w2))"

text \<open>The loop that draws ids until one is not in the map; it may run forever.\<close>

partial_function (option) fresh_id ::
  "recs_map option \<Rightarrow> recs_context \<Rightarrow> (recs_context \<times> 64 word) option" where
  "fresh_id m w = (case recs_get_next_id w of (w1, i) \<Rightarrow> do {
     e \<leftarrow> rdict_find m (id_key i);
     if e = None then Some (w1, i) else fresh_id m w1
   })"

text \<open>
  \<open>recs_get_entity\<close> and \<open>recs_get_cmp\<close> write the result only when the key is found: \<open>None\<close> leaves the
  caller's variable alone, a null value is the address 0.
\<close>

definition map_value :: "recs_map ref \<Rightarrow> 64 word \<Rightarrow> int option option" where
  "map_value mr i = do {
     m \<leftarrow> deref mr;
     e \<leftarrow> rdict_find m (id_key i);
     Some (map_option (\<lambda>e. case e_val e of None \<Rightarrow> 0 | Some a \<Rightarrow> a) e)
   }"

definition recs_get_entity :: "recs_context \<Rightarrow> 64 word \<Rightarrow> (int option \<times> int) option" where
  "recs_get_entity w i = do { r \<leftarrow> map_value (map_entities w) i; Some (r, rcode_ok) }"

definition recs_get_cmp :: "recs_context \<Rightarrow> 64 word \<Rightarrow> (int option \<times> int) option" where
  "recs_get_cmp w i = do { r \<leftarrow> map_value (map_components w) i; Some (r, rcode_ok) }"

section \<open>Entities\<close>

definition call_hook :: "recs_item_hook option \<Rightarrow> recs_item_hook" where
  "call_hook h w a = (case h of None \<Rightarrow> Some (w, rcode_ok) | Some f \<Rightarrow> f w a)"

definition recs_cmp_remove_all :: "recs_context \<Rightarrow> int \<Rightarrow> (recs_context \<times> int) option" where
  "recs_cmp_remove_all w a =
    (if a = 0 then Some (w, rcode_ok)
     else do {
       e \<leftarrow> w_entities w a;
       (case en_components e of
          None \<Rightarrow> Some (w, rcode_ok)
        | Some ar \<Rightarrow> do {
            arp \<leftarrow> rarray_clear (Some ar);
            Some (w\<lparr>w_entities := (w_entities w)(a \<mapsto> e\<lparr>en_components := arp\<rparr>)\<rparr>, rcode_ok)
          })
     })"

definition drop_entity :: "recs_context \<Rightarrow> 64 word \<Rightarrow> recs_context option" where
  "drop_entity w i = do {
     m \<leftarrow> deref (map_entities w);
     (m1, code) \<leftarrow> rdict_remove m (id_key i);
     Some (w\<lparr>map_entities := as_ref m1\<rparr>)
   }"

definition recs_entity_delete :: "recs_env \<Rightarrow> recs_context \<Rightarrow> int \<Rightarrow> bool \<Rightarrow> (recs_context \<times> int) option" where
  "recs_entity_delete env w a destroy =
    (if a = 0 then Some (w, rcode_ok)
     else do {
       e \<leftarrow> w_entities w a;
       (w1, _) \<leftarrow> recs_cmp_remove_all w a;
       w2 \<leftarrow> drop_entity w1 (en_id e);
       (w3, ret) \<leftarrow> call_hook (on_delete_entity env) w2 a;
       if ret \<noteq> rcode_ok then Some (w3, ret)
       else Some (if destroy then w3\<lparr>w_entities := (w_entities w3)(a := None)\<rparr> else w3, ret)
     })"

text \<open>The result of \<open>rdict_add\<close> is not looked at; \<open>rdata_init\<close> clears the struct before the test for NULL.\<close>

definition recs_entity_new :: "recs_env \<Rightarrow> recs_context \<Rightarrow> int \<Rightarrow> (recs_context \<times> int) option" where
  "recs_entity_new env w data_type =
    (let a = rs_new_entity env w
     in if a = 0 then None
        else do {
          let e = \<lparr>en_id = 0, en_type_id = data_type,
            en_name = (if data_type = recs_etype_shared then Some ''Shared'' else None), en_components = None\<rparr>;
          m \<leftarrow> deref (map_entities w);
          (w1, i) \<leftarrow> fresh_id m (w\<lparr>w_entities := (w_entities w)(a \<mapsto> e)\<rparr>);
          let w2 = w1\<lparr>w_entities := (w_entities w1)(a \<mapsto> e\<lparr>en_id := i\<rparr>)\<rparr>;
          (m1, code) \<leftarrow> rdict_add (rs_dict env) m (id_key i) (Some a);
          let w3 = w2\<lparr>map_entities := as_ref m1\<rparr>;
          (w4, ret) \<leftarrow> call_hook (on_new_entity env) w3 a;
          if ret \<noteq> rcode_ok
          then do {
            e4 \<leftarrow> w_entities w4 a;
            w5 \<leftarrow> drop_entity w4 (en_id e4);
            (w6, _) \<leftarrow> recs_entity_delete env w5 a True;
            Some (w6, 0)
          }
          else Some (w4, a)
        })"

section \<open>Components\<close>

definition drop_cmp :: "recs_context \<Rightarrow> 64 word \<Rightarrow> recs_context option" where
  "drop_cmp w i = do {
     m \<leftarrow> deref (map_components w);
     (m1, code) \<leftarrow> rdict_remove m (id_key i);
     Some (w\<lparr>map_components := as_ref m1\<rparr>)
   }"

definition recs_cmp_delete :: "recs_env \<Rightarrow> recs_context \<Rightarrow> int \<Rightarrow> bool \<Rightarrow> (recs_context \<times> int) option" where
  "recs_cmp_delete env w a destroy =
    (if a = 0 then Some (w, rcode_ok)
     else do {
       c \<leftarrow> w_cmps w a;
       w1 \<leftarrow> drop_cmp w (cm_id c);
       (w2, ret) \<leftarrow> call_hook (on_delete_cmp env) w1 a;
       if ret \<noteq> rcode_ok then Some (w2, ret)
       else Some (if destroy then w2\<lparr>w_cmps := (w_cmps w2)(a := None)\<rparr> else w2, ret)
     })"

text \<open>The hook \<open>create_cmp\<close> gets the type and returns the address of a struct.\<close>

definition recs_cmp_new :: "recs_env \<Rightarrow> recs_context \<Rightarrow> int \<Rightarrow> (recs_context \<times> int) option" where
  "recs_cmp_new env w data_type = do {
     (w0, a) \<leftarrow> (case create_cmp env of None \<Rightarrow> Some (w, 0) | Some f \<Rightarrow> f w data_type);
     if a = 0 then Some (w0, 0)
     else do {
       c \<leftarrow> w_cmps w0 a;
       m \<leftarrow> deref (map_components w0);
       (w1, i) \<leftarrow> fresh_id m (w0\<lparr>w_cmps := (w_cmps w0)(a \<mapsto> c\<lparr>cm_type_id := data_type\<rparr>)\<rparr>);
       let w2 = w1\<lparr>w_cmps := (w_cmps w1)(a \<mapsto> c\<lparr>cm_type_id := data_type, cm_id := i\<rparr>)\<rparr>;
       (m1, code) \<leftarrow> rdict_add (rs_dict env) m (id_key i) (Some a);
       let w3 = w2\<lparr>map_components := as_ref m1\<rparr>;
       (w4, ret) \<leftarrow> call_hook (on_new_cmp env) w3 a;
       if ret \<noteq> rcode_ok
       then do {
         c4 \<leftarrow> w_cmps w4 a;
         w5 \<leftarrow> drop_cmp w4 (cm_id c4);
         (w6, _) \<leftarrow> recs_cmp_delete env w5 a True;
         Some (w6, 0)
       }
       else Some (w4, a)
     }
   }"

text \<open>An entity without a component array: \<open>rarray_add\<close> on NULL returns ok.\<close>

definition recs_cmp_add :: "recs_env \<Rightarrow> recs_context \<Rightarrow> int \<Rightarrow> int \<Rightarrow> (recs_context \<times> int) option" where
  "recs_cmp_add env w a cmp = do {
     e \<leftarrow> w_entities w a;
     (arp, ret) \<leftarrow> rarray_add (rs_array env) (en_components e) cmp;
     Some (w\<lparr>w_entities := (w_entities w)(a \<mapsto> e\<lparr>en_components := arp\<rparr>)\<rparr>, ret)
   }"

text \<open>The result: what is written to \<open>*ret_cmp\<close> (\<open>None\<close>: nothing) and the code.\<close>

definition recs_cmp_get :: "recs_context \<Rightarrow> int \<Rightarrow> 64 word \<Rightarrow> (int option \<times> int) option" where
  "recs_cmp_get w a cmp_id = do {
     (r, _) \<leftarrow> recs_get_cmp w cmp_id;
     let cmp = (case r of None \<Rightarrow> 0 | Some p \<Rightarrow> p);
     if cmp \<noteq> 0
     then do {
       e \<leftarrow> w_entities w a;
       there \<leftarrow> rarray_exist (en_components e) cmp;
       Some (if there then Some cmp else None, rcode_ok)
     }
     else Some (None, rcode_invalid)
   }"

definition recs_cmp_remove ::
  "recs_env \<Rightarrow> recs_context \<Rightarrow> int \<Rightarrow> 64 word \<Rightarrow> (recs_context \<times> int option \<times> int) option" where
  "recs_cmp_remove env w a cmp_id = do {
     (r, _) \<leftarrow> recs_get_cmp w cmp_id;
     let cmp = (case r of None \<Rightarrow> 0 | Some p \<Rightarrow> p);
     if cmp \<noteq> 0
     then do {
       e \<leftarrow> w_entities w a;
       (arp, ret) \<leftarrow> rarray_remove (rs_array env) (en_components e) cmp;
       Some (w\<lparr>w_entities := (w_entities w)(a \<mapsto> e\<lparr>en_components := arp\<rparr>)\<rparr>,
             if ret \<noteq> rcode_ok then Some cmp else None, ret)
     }
     else Some (w, None, rcode_invalid)
   }"

section \<open>Systems\<close>

definition recs_sys_add :: "recs_env \<Rightarrow> recs_context \<Rightarrow> int \<Rightarrow> (recs_context \<times> int) option" where
  "recs_sys_add env w s =
    (if s = 0 then Some (w, rcode_invalid)
     else do {
       arp \<leftarrow> deref (systems w);
       there \<leftarrow> rarray_exist arp s;
       if there then Some (w, rcode_invalid)
       else do {
         w1 \<leftarrow> sys_call env sys_init s w;
         arp1 \<leftarrow> deref (systems w1);
         (arp2, _) \<leftarrow> rarray_add (rs_array env) arp1 s;
         Some (w1\<lparr>systems := as_ref arp2\<rparr>, rcode_ok)
       }
     })"

definition recs_sys_remove :: "recs_env \<Rightarrow> recs_context \<Rightarrow> int \<Rightarrow> (recs_context \<times> int) option" where
  "recs_sys_remove env w s =
    (if s = 0 then Some (w, rcode_ok)
     else do {
       arp \<leftarrow> deref (systems w);
       there \<leftarrow> rarray_exist arp s;
       if \<not> there then Some (w, rcode_invalid)
       else do {
         (arp1, _) \<leftarrow> rarray_remove (rs_array env) arp s;
         w1 \<leftarrow> sys_call env sys_uninit s (w\<lparr>systems := as_ref arp1\<rparr>);
         Some (w1, rcode_ok)
       }
     })"

text \<open>
  \<open>recs_sys_find\<close>: after the last system the variable holds what \<open>rarray_next\<close> read for the round that
  ends the loop, and that is returned.
\<close>

function find_system :: "recs_env \<Rightarrow> int rarray \<Rightarrow> int \<Rightarrow> nat \<Rightarrow> int option" where
  "find_system env ar ty i = do {
     s \<leftarrow> rarray_at (Some ar) i;
     if i + 1 \<le> ra_size ar
     then if s = 0 then None else if sys_type env s = ty then Some s else find_system env ar ty (i + 1)
     else Some s
   }"
  by pat_completeness auto
termination by (relation "measure (\<lambda>(env, ar, ty, i). ra_size ar - i)") auto

declare find_system.simps [simp del]

definition recs_sys_find :: "recs_env \<Rightarrow> recs_context \<Rightarrow> int \<Rightarrow> int option" where
  "recs_sys_find env w ty = do { arp \<leftarrow> deref (systems w); ar \<leftarrow> arp; find_system env ar ty 0 }"

section \<open>Running\<close>

definition recs_start :: "recs_context \<Rightarrow> recs_context \<times> int" where
  "recs_start w = (w\<lparr>exec_state := recs_execute_state_running\<rparr>, rcode_ok)"

definition recs_pause :: "recs_context \<Rightarrow> recs_context \<times> int" where
  "recs_pause w = (w\<lparr>exec_state := recs_execute_state_paused\<rparr>, rcode_ok)"

definition recs_resume :: "recs_context \<Rightarrow> recs_context \<times> int" where
  "recs_resume w = (w\<lparr>exec_state := recs_execute_state_running\<rparr>, rcode_ok)"

definition recs_stop :: "recs_context \<Rightarrow> recs_context \<times> int" where
  "recs_stop w = (w\<lparr>exec_state := recs_execute_state_stopped\<rparr>, rcode_ok)"

text \<open>One of the three loops: the array is read anew in every round, a system may change it.\<close>

partial_function (option) sys_pass :: "recs_env \<Rightarrow> recs_phase \<Rightarrow> nat \<Rightarrow> recs_context \<Rightarrow> recs_context option" where
  "sys_pass env ph i w = do {
     arp \<leftarrow> deref (systems w);
     ar \<leftarrow> arp;
     s \<leftarrow> rarray_at (Some ar) i;
     if i + 1 \<le> ra_size ar
     then if s = 0 then None else do { w1 \<leftarrow> sys_call env ph s w; sys_pass env ph (i + 1) w1 }
     else Some w
   }"

definition recs_run :: "recs_env \<Rightarrow> recs_context \<Rightarrow> (recs_context \<times> int) option" where
  "recs_run env w =
    (if exec_state w \<noteq> recs_execute_state_running then Some (w, rcode_ok)
     else do {
       w1 \<leftarrow> sys_pass env sys_before_update 0 w;
       w2 \<leftarrow> sys_pass env sys_update 0 w1;
       w3 \<leftarrow> sys_pass env sys_late_update 0 w2;
       Some (w3, rcode_ok)
     })"

section \<open>Setting up and tearing down\<close>

text \<open>The loop over a map that calls a hook on every value; the map is read anew in every round.\<close>

partial_function (option) delete_pass ::
  "(recs_context \<Rightarrow> recs_map ref) \<Rightarrow> recs_item_hook option \<Rightarrow> rdict_iterator \<Rightarrow> recs_context \<Rightarrow> recs_context option" where
  "delete_pass the_map h it w = do {
     mp \<leftarrow> deref (the_map w);
     m \<leftarrow> mp;
     (it1, e) \<leftarrow> rdict_next m it;
     (case e of
        None \<Rightarrow> Some w
      | Some de \<Rightarrow> do {
          w1 \<leftarrow> (case e_val de of
              None \<Rightarrow> Some w
            | Some a \<Rightarrow> map_option fst (call_hook h w a));
          delete_pass the_map h it1 w1
        })
   }"

text \<open>
  Only a map with entries is cleared and its pointer reset; \<open>rdict_clear\<close> empties the table and
  frees neither it nor the dictionary.
\<close>

definition clear_entities :: "recs_env \<Rightarrow> recs_context \<Rightarrow> recs_context option" where
  "clear_entities env w = do {
     mp \<leftarrow> deref (map_entities w);
     (case mp of
        None \<Rightarrow> Some w
      | Some m \<Rightarrow>
          if d_size m > 0
          then do {
            w1 \<leftarrow> delete_pass map_entities (on_delete_entity env) None w;
            mp1 \<leftarrow> deref (map_entities w1);
            _ \<leftarrow> rdict_clear mp1;
            Some (w1\<lparr>map_entities := null\<rparr>)
          }
          else Some w)
   }"

definition clear_components :: "recs_env \<Rightarrow> recs_context \<Rightarrow> recs_context option" where
  "clear_components env w = do {
     mp \<leftarrow> deref (map_components w);
     (case mp of
        None \<Rightarrow> Some w
      | Some m \<Rightarrow>
          if d_size m > 0
          then do {
            w1 \<leftarrow> delete_pass map_components (on_delete_cmp env) None w;
            mp1 \<leftarrow> deref (map_components w1);
            _ \<leftarrow> rdict_clear mp1;
            Some (w1\<lparr>map_components := null\<rparr>)
          }
          else Some w)
   }"

definition recs_uninit :: "recs_env \<Rightarrow> recs_context option \<Rightarrow> (recs_context option \<times> int) option" where
  "recs_uninit env ctx = (case ctx of
     None \<Rightarrow> Some (None, rcode_invalid)
   | Some w \<Rightarrow> do {
       w1 \<leftarrow> (if admin_entity w \<noteq> 0 then map_option fst (recs_entity_delete env w (admin_entity w) True) else Some w);
       (w2, ret) \<leftarrow> (if on_init env \<noteq> None then (case on_uninit env of None \<Rightarrow> None | Some f \<Rightarrow> f w1)
                     else Some (w1, rcode_ok));
       arp \<leftarrow> deref (systems w2);
       _ \<leftarrow> rarray_clear arp;
       let w3 = w2\<lparr>systems := (case arp of None \<Rightarrow> null | Some _ \<Rightarrow> released)\<rparr>;
       w4 \<leftarrow> clear_entities env w3;
       w5 \<leftarrow> clear_components env w4;
       if ret \<noteq> rcode_ok then Some (Some w5, ret)
       else Some (Some (w5\<lparr>exec_state := recs_execute_state_uninit\<rparr>), ret)
     })"

definition recs_init :: "recs_env \<Rightarrow> recs_context option \<Rightarrow> (recs_context option \<times> int) option" where
  "recs_init env ctx = (case ctx of
     None \<Rightarrow> do { _ \<leftarrow> recs_uninit env None; Some (None, rcode_invalid) }
   | Some w \<Rightarrow> do {
       me \<leftarrow> rdict_create (rs_dict env) (rs_fns env) 2000 0;
       mc \<leftarrow> rdict_create (rs_dict env) (rs_fns env) 2000 0;
       ar \<leftarrow> rarray_init (rs_array env) kind_ptr 8 30;
       let w1 = w\<lparr>exec_state := recs_execute_state_uninit, map_entities := live me, map_components := live mc,
         systems := live (ar\<lparr>ra_copy := Some (\<lambda>s. s), ra_free := Some (\<lambda>_. [])\<rparr>)\<rparr>;
       (w2, ret) \<leftarrow> (case on_init env of None \<Rightarrow> Some (w1, rcode_ok) | Some f \<Rightarrow> f w1);
       if ret \<noteq> rcode_ok
       then do { (ctx1, _) \<leftarrow> recs_uninit env (Some w2); Some (ctx1, ret) }
       else do {
         (w3, a) \<leftarrow> recs_entity_new env w2 recs_etype_shared;
         Some (Some (w3\<lparr>admin_entity := a, exec_state := recs_execute_state_init\<rparr>), rcode_ok)
       }
     })"


section \<open>Drawing identifiers\<close>

text \<open>
  The ids a context hands out: above \<open>sid_min\<close>, up to and including \<open>sid_max + 1\<close>.
\<close>

definition id_range :: "recs_context \<Rightarrow> 64 word set" where
  "id_range w = {i. sid_min w < i \<and> i \<le> sid_max w + 1}"

definition sid_ok :: "recs_context \<Rightarrow> bool" where
  "sid_ok w \<longleftrightarrow> sid_min w \<le> sid_max w \<and> sid_max w < - 1 \<and> sid_min w \<le> sid_cur w"

lemma word_succ_le: "(m :: 64 word) < - 1 \<Longrightarrow> unat (m + 1) = unat m + 1"
proof -
  assume "m < - 1"
  then have "1 + m \<noteq> 0" by (metis add_eq_0_iff2 less_irrefl add.commute)
  from unatSuc [OF this] show ?thesis by (simp add: add.commute)
qed

lemma next_id_cur: "recs_get_next_id w = (w\<lparr>sid_cur := i\<rparr>, i) \<longleftrightarrow>
    i = (if sid_cur w > sid_max w then sid_min w + 1 else sid_cur w + 1)"
  by (auto simp: recs_get_next_id_def Let_def)

definition next_id :: "recs_context \<Rightarrow> 64 word" where
  "next_id w = (if sid_cur w > sid_max w then sid_min w + 1 else sid_cur w + 1)"

lemma recs_get_next_id_eq: "recs_get_next_id w = (w\<lparr>sid_cur := next_id w\<rparr>, next_id w)"
  by (simp add: next_id_cur next_id_def)

lemma next_id_unat:
  assumes "sid_ok w"
  shows "unat (next_id w) =
    (if unat (sid_cur w) > unat (sid_max w) then unat (sid_min w) + 1 else unat (sid_cur w) + 1)"
proof -
  have "sid_min w < - 1" "sid_cur w \<le> sid_max w \<Longrightarrow> sid_cur w < - 1"
    using assms by (auto simp: sid_ok_def)
  with word_succ_le show ?thesis by (auto simp: next_id_def word_less_nat_alt word_le_nat_alt)
qed

lemma id_range_unat:
  "sid_ok w \<Longrightarrow> i \<in> id_range w \<longleftrightarrow> unat (sid_min w) < unat i \<and> unat i \<le> unat (sid_max w) + 1"
  using word_succ_le [of "sid_max w"] by (simp add: id_range_def sid_ok_def word_less_nat_alt word_le_nat_alt)

lemma next_id_range:
  assumes "sid_ok w"
  shows "next_id w \<in> id_range w" "sid_ok (w\<lparr>sid_cur := next_id w\<rparr>)"
    "id_range (w\<lparr>sid_cur := i\<rparr>) = id_range w"
  using assms next_id_unat [OF assms] id_range_unat [OF assms]
  by (auto simp: sid_ok_def word_less_nat_alt word_le_nat_alt id_range_def)

text \<open>How many ids are drawn before \<open>f\<close>, at most.\<close>

definition id_dist :: "recs_context \<Rightarrow> 64 word \<Rightarrow> nat" where
  "id_dist w f = (if unat (sid_cur w) < unat f then unat f - unat (sid_cur w)
     else unat (sid_max w) + 1 - unat (sid_cur w) + (unat f - unat (sid_min w)))"

lemma id_dist_step:
  assumes "sid_ok w" "f \<in> id_range w" "next_id w \<noteq> f"
  shows "id_dist (w\<lparr>sid_cur := next_id w\<rparr>) f < id_dist w f"
proof -
  have "unat (next_id w) \<noteq> unat f" using assms(3) by (simp add: word_unat_eq_iff)
  moreover have "unat (sid_min w) < unat f \<and> unat f \<le> unat (sid_max w) + 1"
    using assms(2) id_range_unat [OF assms(1)] by simp
  moreover have "unat (sid_min w) \<le> unat (sid_max w)" "unat (sid_min w) \<le> unat (sid_cur w)"
    using assms(1) by (simp_all add: sid_ok_def word_le_nat_alt)
  ultimately show ?thesis using next_id_unat [OF assms(1)]
    by (cases "unat (sid_cur w) > unat (sid_max w)") (auto simp: id_dist_def)
qed

lemma fresh_id_returns:
  assumes find: "\<And>i. i \<in> id_range w \<Longrightarrow> rdict_find m (id_key i) = Some (g i)"
    and "sid_ok w" "f \<in> id_range w" "g f = None"
  shows "\<exists>i. fresh_id m w = Some (w\<lparr>sid_cur := i\<rparr>, i) \<and> i \<in> id_range w \<and> g i = None"
  using assms
proof (induction "id_dist w f" arbitrary: w rule: less_induct)
  case less
  note r = next_id_range [OF less.prems(2)]
  let ?w = "w\<lparr>sid_cur := next_id w\<rparr>"
  have run: "fresh_id m w = (if g (next_id w) = None then Some (?w, next_id w) else fresh_id m ?w)"
    by (subst fresh_id.simps) (simp add: recs_get_next_id_eq less.prems(1) [OF r(1)])
  show ?case
  proof (cases "g (next_id w) = None")
    case True
    then show ?thesis using run r(1) by auto
  next
    case False
    then have "next_id w \<noteq> f" using less.prems(4) by auto
    from id_dist_step [OF less.prems(2,3) this]
    have "\<exists>i. fresh_id m ?w = Some (?w\<lparr>sid_cur := i\<rparr>, i) \<and> i \<in> id_range ?w \<and> g i = None"
      using less.prems r by (intro less.hyps) auto
    then show ?thesis using run False r(3) by auto
  qed
qed


section \<open>The map of a context\<close>

text \<open>A map in good order, used with the ids of \<open>K\<close> only.\<close>

abbreviation id_map :: "recs_env \<Rightarrow> nat \<Rightarrow> 64 word set \<Rightarrow> recs_map \<Rightarrow> bool" where
  "id_map env B K d \<equiv> dict_state (rs_dict env) B K (\<lambda>v. v) d"

lemma id_map_find:
  "id_map env B K d \<Longrightarrow> i \<noteq> 0 \<Longrightarrow> rdict_find (Some d) (id_key i) =
    Some (map_option (\<lambda>v. \<lparr>e_key = Some i, e_val = v\<rparr>) (dict_abs d (Some i)))"
  by (simp add: id_key_def dict_state_def dict_inv_find [of B K])

lemma id_map_value:
  assumes "id_map env B K d" "i \<noteq> 0"
  shows "map_value (live d) i = Some (map_option (\<lambda>v. case v of None \<Rightarrow> 0 | Some a \<Rightarrow> a) (dict_abs d (Some i)))"
  by (simp add: map_value_def id_map_find [OF assms] option.map_comp comp_def)

lemma id_map_add:
  assumes "id_map env B K d" "i \<noteq> 0" "i \<in> K"
  obtains d' c where "rdict_add (rs_dict env) (Some d) (id_key i) v = Some (Some d', c)" "id_map env B K d'"
    "dict_abs d' = (if c = rdict_code_ok then (dict_abs d)(Some i \<mapsto> v) else dict_abs d)"
proof -
  have "Some i \<in> dict_keys K" using assms(3) by (simp add: dict_keys_def)
  from rd.put_law [OF assms(1) this, of v] obtain d' c where
    p: "dict_put (rs_dict env) d (Some i) v = Some (d', c)" "id_map env B K d'"
      "dict_abs d' = (if c = 0 then (dict_abs d)(Some i \<mapsto> v) else dict_abs d)" by blast
  then have "rdict_add (rs_dict env) (Some d) (id_key i) v = Some (Some d', c)"
    using assms(2) by (auto simp: dict_put_def id_key_def bind_eq_Some_conv)
  with p that show thesis by blast
qed

lemma id_map_remove:
  assumes "id_map env B K d" "i \<noteq> 0" "i \<in> K"
  obtains d' c where "rdict_remove (Some d) (id_key i) = Some (Some d', c)" "id_map env B K d'"
    "dict_abs d' = (dict_abs d)(Some i := None)"
proof -
  have "Some i \<in> dict_keys K" using assms(3) by (simp add: dict_keys_def)
  from rd.del_law [OF assms(1) this] obtain d' c where
    p: "dict_del d (Some i) = Some (d', c)" "id_map env B K d'" "dict_abs d' = (dict_abs d)(Some i := None)"
    by blast
  then have "rdict_remove (Some d) (id_key i) = Some (Some d', c)"
    using assms(2) by (auto simp: dict_del_def id_key_def bind_eq_Some_conv)
  with p that show thesis by blast
qed

lemma drop_entity_spec:
  assumes "map_entities w = live d" "id_map env B K d" "i \<noteq> 0" "i \<in> K"
  obtains d' where "drop_entity w i = Some (w\<lparr>map_entities := live d'\<rparr>)" "id_map env B K d'"
    "dict_abs d' = (dict_abs d)(Some i := None)"
proof -
  from id_map_remove [OF assms(2-4)] obtain d' c where
    "rdict_remove (Some d) (id_key i) = Some (Some d', c)" "id_map env B K d'"
    "dict_abs d' = (dict_abs d)(Some i := None)" .
  with that assms(1) show thesis by (simp add: drop_entity_def)
qed

lemma recs_entity_delete_spec:
  assumes m: "map_entities w = live d" "id_map env B K d" and a: "a \<noteq> 0" "w_entities w a = Some e"
    and e: "en_components e = None" "en_id e \<noteq> 0" "en_id e \<in> K"
    and h: "call_hook (on_delete_entity env) = (\<lambda>w a. Some (w, code))"
  obtains d' where "recs_entity_delete env w a destroy =
      Some (w\<lparr>map_entities := live d',
        w_entities := (if code = rcode_ok \<and> destroy then (w_entities w)(a := None) else w_entities w)\<rparr>, code)"
    "id_map env B K d'" "dict_abs d' = (dict_abs d)(Some (en_id e) := None)"
proof -
  have rm: "recs_cmp_remove_all w a = Some (w, rcode_ok)"
    using a e(1) by (simp add: recs_cmp_remove_all_def)
  from drop_entity_spec [OF m e(2,3)] obtain d' where
    d': "drop_entity w (en_id e) = Some (w\<lparr>map_entities := live d'\<rparr>)" "id_map env B K d'"
      "dict_abs d' = (dict_abs d)(Some (en_id e) := None)" .
  show thesis
    by (rule that [OF _ d'(2,3)]) (simp add: recs_entity_delete_def a rm d'(1) h)
qed

section \<open>Properties\<close>



text \<open>An environment without hooks, and a context with an empty map of 32 cells.\<close>

definition demo_map :: recs_map where
  "demo_map = \<lparr>d_entry = Some (replicate (4 * 8) empty_entry), d_null = None, d_size = 0, d_capacity = 32,
    d_buckets = 4, d_bucket_capacity = 8, d_hash = (\<lambda>k. k), d_eq = (=), d_copy_key = None, d_copy_value = None,
    d_freed_keys = [], d_freed_values = []\<rparr>"

definition demo_env :: recs_env where
  "demo_env = \<lparr>rs_dict = env64, rs_array = plain_env, rs_fns = demo_map, rs_new_entity = (\<lambda>_. 7),
    on_init = None, on_uninit = None, on_new_entity = None, on_delete_entity = None, on_new_cmp = None,
    on_delete_cmp = None, create_cmp = None, sys_type = (\<lambda>_. 0), sys_call = (\<lambda>_ _. Some)\<rparr>"

definition demo_ctx :: recs_context where
  "demo_ctx = \<lparr>sid_min = 0, sid_max = 2, sid_cur = 2, admin_entity = 0, exec_state = recs_execute_state_init,
    map_entities = live demo_map, map_components = null, systems = null, w_entities = (\<lambda>_. None), w_cmps = (\<lambda>_. None)\<rparr>"

lemma demo_map_ok: "id_map demo_env 64 {1, 2, 3} demo_map" "dict_abs demo_map (Some i) = None"
proof -
  have cells: "cells demo_map = replicate (4 * 8) empty_entry" by (simp add: cells_def demo_map_def)
  have "occupied (cells demo_map) = 0" unfolding cells by (simp add: occupied_def empty_entry_def)
  moreover have "table_ok (d_hash demo_map) (d_buckets demo_map) (d_bucket_capacity demo_map) (cells demo_map)"
    unfolding cells by (simp add: demo_map_def del: One_nat_def) (use empty_table_ok [of 4 8 "\<lambda>k. k"] in simp)
  ultimately have ok: "dict_ok 64 demo_map"
    unfolding dict_ok_def cells by (simp add: demo_map_def copied_key_def)
  show none: "dict_abs demo_map (Some i) = None" for i
    unfolding dict_okD(9) [OF ok] lookup_None cells by (simp add: empty_entry_def)
  have "card {k \<in> {1, 2, 3 :: 64 word}. P k} < 8" for P
    by (rule le_less_trans [OF card_mono [of "{1, 2, 3}"]]) auto
  then have "spread (\<lambda>k. k) {1, 2, 3 :: 64 word} 8 4 64" by (simp add: spread_def)
  then show "id_map demo_env 64 {1, 2, 3} demo_map"
    using ok none env64_ok
    by (auto simp: dict_state_def dict_inv_def demo_env_def copied_value_def demo_map_def)
qed


text \<open>The passes over systems that leave the list of systems alone.\<close>

lemma sys_pass_all:
  assumes "rarray_inv ar" "0 \<notin> set (rarray_abs ar)" "systems w = live ar"
    and keep: "\<And>s w. s \<in> set (rarray_abs ar) \<Longrightarrow> systems w = live ar \<Longrightarrow>
      \<exists>w'. sys_call env ph s w = Some w' \<and> systems w' = live ar"
  shows "i \<le> ra_size ar \<Longrightarrow> \<exists>w'. sys_pass env ph i w = Some w' \<and> systems w' = live ar \<and>
    w' = foldl (\<lambda>w s. the (sys_call env ph s w)) w (drop i (rarray_abs ar))"
  using assms(3)
proof (induction "ra_size ar - i" arbitrary: i w)
  case 0
  then have "sys_pass env ph i w = Some w"
    using rarray_at_spec [OF assms(1), of i] by (subst sys_pass.simps) simp
  with 0 show ?case using rarray_abs_length [OF assms(1)] by simp
next
  case (Suc n)
  then have i: "i < ra_size ar" by simp
  let ?s = "rarray_abs ar ! i"
  have s: "?s \<in> set (rarray_abs ar)" using i rarray_abs_length [OF assms(1)] by simp
  then have nz: "?s \<noteq> 0" using assms(2) by metis
  obtain w1 where w1: "sys_call env ph ?s w = Some w1" "systems w1 = live ar"
    using keep [OF s Suc.prems(2)] by blast
  have "sys_pass env ph i w = sys_pass env ph (i + 1) w1"
    using i Suc.prems(2) rarray_at_spec [OF assms(1), of i] nz w1(1) by (subst sys_pass.simps) simp
  moreover have "drop i (rarray_abs ar) = ?s # drop (i + 1) (rarray_abs ar)"
    using i rarray_abs_length [OF assms(1)] by (simp add: Cons_nth_drop_Suc)
  moreover have "\<exists>w'. sys_pass env ph (i + 1) w1 = Some w' \<and> systems w' = live ar \<and>
      w' = foldl (\<lambda>w s. the (sys_call env ph s w)) w1 (drop (i + 1) (rarray_abs ar))"
    using Suc.hyps(2) i w1(2) by (intro Suc.hyps(1)) auto
  ultimately show ?case using w1(1) by auto
qed





definition demo_cmp_ctx :: "recs_map \<Rightarrow> int rarray \<Rightarrow> recs_context" where
  "demo_cmp_ctx d ar = demo_ctx\<lparr>map_components := live d,
    w_entities := [5 \<mapsto> \<lparr>en_id = 1, en_type_id = 2, en_name = None, en_components = Some ar\<rparr>,
      6 \<mapsto> \<lparr>en_id = 2, en_type_id = 2, en_name = None, en_components = None\<rparr>]\<rparr>"

lemma demo_map_add:
  "\<exists>d. rdict_add (rs_dict demo_env) (Some demo_map) (id_key 1) (Some 9) = Some (Some d, rdict_code_ok)"
proof -
  have "find_bucket demo_map 1 = Some 8" by (simp add: find_bucket_def find_bucket_raw_def demo_map_def)
  moreover have "scan (=) (replicate 32 (empty_entry :: (64 word, int) rdict_entry)) 1 8 = Some 8"
    by (subst scan.simps) (simp add: empty_entry_def)
  ultimately show ?thesis
    by (simp add: id_key_def rdict_add_def) (subst add_key.simps, simp add: demo_map_def)
qed



section \<open>Looking for a system\<close>

text \<open>The first system of the type, and NULL when there is none.\<close>

lemma find_system_spec:
  assumes "rarray_inv ar" "0 \<notin> set (rarray_abs ar)"
  shows "i \<le> ra_size ar \<Longrightarrow> find_system env ar ty i =
    Some (case List.find (\<lambda>s. sys_type env s = ty) (drop i (rarray_abs ar)) of None \<Rightarrow> 0 | Some s \<Rightarrow> s)"
proof (induction "ra_size ar - i" arbitrary: i)
  case 0
  then show ?case using rarray_at_spec [OF assms(1), of i] rarray_abs_length [OF assms(1)]
    by (subst find_system.simps) simp
next
  case (Suc n)
  then have i: "i < ra_size ar" by simp
  have nz: "rarray_abs ar ! i \<noteq> 0" using i assms(2) rarray_abs_length [OF assms(1)] by (metis nth_mem)
  have "drop i (rarray_abs ar) = rarray_abs ar ! i # drop (i + 1) (rarray_abs ar)"
    using i rarray_abs_length [OF assms(1)] by (simp add: Cons_nth_drop_Suc)
  moreover have "find_system env ar ty (i + 1) =
      Some (case List.find (\<lambda>s. sys_type env s = ty) (drop (i + 1) (rarray_abs ar)) of None \<Rightarrow> 0 | Some s \<Rightarrow> s)"
    using Suc.hyps(2) i by (intro Suc.hyps(1)) auto
  ultimately show ?case using rarray_at_spec [OF assms(1), of i] i nz by (subst find_system.simps) simp
qed

lemma recs_sys_find_spec:
  "systems w = live ar \<Longrightarrow> rarray_inv ar \<Longrightarrow> 0 \<notin> set (rarray_abs ar) \<Longrightarrow>
    recs_sys_find env w ty = Some (case List.find (\<lambda>s. sys_type env s = ty) (rarray_abs ar) of None \<Rightarrow> 0 | Some s \<Rightarrow> s)"
  using find_system_spec [of ar 0 env ty] by (simp add: recs_sys_find_def)

end
