(* ===== verification/RUtf.thy ===== *)
theory RUtf
  imports Prelude
begin

unbundle bit_operations_syntax

text \<open>
  The character set conversions of \<open>common/src/rfile.c\<close> (the part compiled on Windows): UTF-8 to
  UTF-16 words and back, and the two path conversions on top of them.  They are checked against the
  encodings written as functions of the code point.  A C \<open>int\<close> or \<open>int64_t\<close> is an \<open>int\<close> here: the
  values stay far inside its range.
\<close>

section \<open>UTF-8 to words\<close>

text \<open>
  What a conversion returns: the code, \<open>*inbytes\<close>, \<open>*outwords\<close> afterwards and the units written.
\<close>

type_synonym 'a conv = "int \<times> nat \<times> nat \<times> 'a list"

definition emit :: "'a list \<Rightarrow> 'a conv \<Rightarrow> 'a conv" where
  "emit us r = (case r of (code, i, o', out) \<Rightarrow> (code, i, o', us @ out))"

text \<open>The lead byte: the mask of its length bits and the number of continuation bytes.\<close>

function lead_loop :: "int \<Rightarrow> int \<Rightarrow> nat \<Rightarrow> (int \<times> nat) option" where
  "lead_loop ch msk expect =
    (if ch AND msk = msk
     then if expect + 1 > 3 then None else lead_loop ch (msk OR drop_bit 1 msk) (expect + 1)
     else Some (msk, expect))"
  by pat_completeness auto
termination by (relation "measure (\<lambda>(ch, msk, expect). 4 - expect)") auto

declare lead_loop.simps [simp del]

text \<open>The tests for overlong forms, surrogates and values above \<open>0x10FFFF\<close>; \<open>nxt\<close> is the next byte.\<close>

definition utf8_rejected :: "nat \<Rightarrow> int \<Rightarrow> int \<Rightarrow> int \<Rightarrow> bool" where
  "utf8_rejected expect msk newch nxt =
    (if expect = 1 then newch AND 0x1E = 0
     else newch = 0 \<and> nxt AND 0x3F AND push_bit 1 msk = 0 \<or>
       (if expect = 2 then newch = 0xD \<and> nxt AND 0x20 \<noteq> 0
        else expect = 3 \<and> (newch > 4 \<or> newch = 4 \<and> nxt AND 0x30 \<noteq> 0)))"

fun cont_loop :: "int \<Rightarrow> byte list \<Rightarrow> int option" where
  "cont_loop newch [] = Some newch"
| "cont_loop newch (b # bs) =
    (if uint b AND 0xC0 \<noteq> 0x80 then None
     else cont_loop (push_bit 6 newch OR (uint b AND 0x3F)) bs)"

definition fold_ucs2 :: "int \<Rightarrow> 16 word list" where
  "fold_ucs2 newch =
    (if newch < 0x10000 then [word_of_int newch]
     else let n = newch - 0x10000
          in [word_of_int (0xD800 OR drop_bit 10 n), word_of_int (0xDC00 OR (n AND 0x3FF))])"

function convert_utf8_to_ucs2 :: "byte list \<Rightarrow> nat \<Rightarrow> 16 word conv" where
  "convert_utf8_to_ucs2 [] room = (rcode_ok, 0, room, [])"
| "convert_utf8_to_ucs2 (b # rest) room =
    (let ch = uint b; stop = (\<lambda>code. (code, Suc (length rest), room, []))
     in if room = 0 then stop rcode_ok
        else if ch AND 0x80 = 0 then emit [word_of_int ch] (convert_utf8_to_ucs2 rest (room - 1))
        else if ch AND 0xC0 \<noteq> 0xC0 then stop (-1)
        else case lead_loop ch 0xE0 1 of
          None \<Rightarrow> stop (-1)
        | Some (msk, expect) \<Rightarrow>
            let newch = ch AND NOT msk
            in if Suc (length rest) \<le> expect then stop (-2)
               else if utf8_rejected expect msk newch (uint (hd rest)) then stop (-1)
               else if room < (if expect > 2 then 2 else 1) then stop rcode_ok
               else case cont_loop newch (take expect rest) of
                 None \<Rightarrow> stop (-1)
               | Some c \<Rightarrow> emit (fold_ucs2 c)
                   (convert_utf8_to_ucs2 (drop expect rest) (room - length (fold_ucs2 c))))"
  by pat_completeness auto
termination by (relation "measure (\<lambda>(ins, room). length ins)") auto

declare convert_utf8_to_ucs2.simps [simp del]

section \<open>Words to UTF-8\<close>

text \<open>\<open>require\<close> is never negative.\<close>

function need_loop :: "int \<Rightarrow> nat \<Rightarrow> nat" where
  "need_loop require need = (if require > 0 then need_loop (drop_bit 5 require) (need + 1) else need)"
  by pat_completeness auto
termination
  by (relation "measure (\<lambda>(require, need). nat require)") (auto simp: drop_bit_eq_div)

declare need_loop.simps [simp del]

text \<open>The continuation bytes, last to first, and the length bits of the lead byte.\<close>

fun back_loop :: "nat \<Rightarrow> int \<Rightarrow> int \<Rightarrow> byte list \<Rightarrow> byte list" where
  "back_loop 0 ch newch out = word_of_int (ch OR newch) # out"
| "back_loop (Suc need) ch newch out =
    back_loop need (ch OR drop_bit 1 ch) (drop_bit 6 newch) (word_of_int (0x80 OR (newch AND 0x3F)) # out)"

function convert_ucs2_to_utf8 :: "16 word list \<Rightarrow> nat \<Rightarrow> byte conv" where
  "convert_ucs2_to_utf8 [] room = (rcode_ok, 0, room, [])"
| "convert_ucs2_to_utf8 (w # rest) room =
    (let ch = uint w; stop = (\<lambda>code. (code, Suc (length rest), room, []))
     in if room = 0 then stop rcode_ok
        else if ch < 0x80 then emit [word_of_int ch] (convert_ucs2_to_utf8 rest (room - 1))
        else if ch AND 0xFC00 = 0xDC00 then stop (-1)
        else if ch AND 0xFC00 = 0xD800 \<and> rest = [] then stop (-2)
        else if ch AND 0xFC00 = 0xD800 \<and> uint (hd rest) AND 0xFC00 \<noteq> 0xDC00 then stop (-1)
        else
          let newch = (if ch AND 0xFC00 = 0xD800
                then (push_bit 10 (ch AND 0x3FF) OR (uint (hd rest) AND 0x3FF)) + 0x10000 else ch);
              need = need_loop (drop_bit 11 newch) 1
          in if need \<ge> room then stop rcode_ok
             else emit (back_loop need 0x80 newch [])
               (convert_ucs2_to_utf8 (if need > 2 then tl rest else rest) (room - (need + 1))))"
  by pat_completeness auto
termination by (relation "measure (\<lambda>(ins, room). length ins)") auto

declare convert_ucs2_to_utf8.simps [simp del]

section \<open>Paths\<close>

text \<open>
  \<open>path_utf8_to_unicode\<close>: a path of 248 or more bytes gets the prefix \<open>\\?\\<close> or \<open>\\?\UNC\\<close>; the NUL is
  converted with the path.  The result is the code and the words of the object that were written.
  \<open>retlen\<close> is a \<open>size_t\<close>: too small an object for the prefix wraps it, which is undefined here.
\<close>

definition slash_or_back :: "byte \<Rightarrow> bool" where
  "slash_or_back c = (c = 47 \<or> c = 92)"

definition unc_prefix :: "16 word list" where
  "unc_prefix = [92, 92, 63, 92, 85, 78, 67, 92]"

definition path_utf8_to_unicode :: "nat \<Rightarrow> byte list \<Rightarrow> (int \<times> 16 word list) option" where
  "path_utf8_to_unicode retlen src = do {
     let (pre, s) = (if length src + 1 > 248
       then if src ! 1 = 58 \<and> slash_or_back (src ! 2) then (take 4 unc_prefix, src)
            else if slash_or_back (src ! 0) \<and> slash_or_back (src ! 1) \<and> src ! 2 \<noteq> 63
            then (unc_prefix, drop 2 src) else ([], src)
       else ([], src));
     _ \<leftarrow> (if retlen < length pre + (if pre = [] then 0 else 1) then None else Some ());
     (case convert_utf8_to_ucs2 (s @ [0]) (retlen - length pre) of (rv, inleft, outleft, out) \<Rightarrow>
        if rv \<noteq> 0 then Some (if rv = -2 then -1 else rv, pre @ out)
        else if inleft \<noteq> 0 then Some (1, pre @ out)
        else Some (rcode_ok, pre @ map (\<lambda>w. if w = 47 then 92 else w) out))
   }"

text \<open>\<open>path_unicode_to_utf8\<close>: the prefix is dropped, or replaced by two backslashes.\<close>

definition path_unicode_to_utf8 :: "nat \<Rightarrow> 16 word list \<Rightarrow> (int \<times> byte list) option" where
  "path_unicode_to_utf8 retlen src = do {
     let (pre, s) = (if take 4 src = take 4 unc_prefix
       then if take 8 src = unc_prefix then ([92, 92], drop 8 src) else ([], drop 4 src)
       else ([], src));
     _ \<leftarrow> (if retlen < length pre then None else Some ());
     (case convert_ucs2_to_utf8 (s @ [0]) (retlen - length pre) of (rv, inleft, outleft, out) \<Rightarrow>
        Some (if rv \<noteq> 0 then rv else if inleft \<noteq> 0 then -3 else rcode_ok, pre @ out))
   }"

section \<open>The encodings of a code point\<close>

definition scalar :: "int \<Rightarrow> bool" where
  "scalar c \<longleftrightarrow> 0 \<le> c \<and> c < 0x110000 \<and> \<not> (0xD800 \<le> c \<and> c < 0xE000)"

definition utf8_of :: "int \<Rightarrow> byte list" where
  "utf8_of c = map word_of_int
    (if c < 0x80 then [c]
     else if c < 0x800 then [0xC0 + c div 64, 0x80 + c mod 64]
     else if c < 0x10000 then [0xE0 + c div 4096, 0x80 + c div 64 mod 64, 0x80 + c mod 64]
     else [0xF0 + c div 262144, 0x80 + c div 4096 mod 64, 0x80 + c div 64 mod 64, 0x80 + c mod 64])"

definition utf16_of :: "int \<Rightarrow> 16 word list" where
  "utf16_of c = map word_of_int
    (if c < 0x10000 then [c]
     else [0xD800 + (c - 0x10000) div 1024, 0xDC00 + (c - 0x10000) mod 1024])"


section \<open>Bits and digits\<close>

lemma or_low: "0 \<le> m \<Longrightarrow> m < 2 ^ k \<Longrightarrow> push_bit k n OR m = n * 2 ^ k + (m :: int)"
  using concat_bit_eq [of k m n] by (simp add: concat_bit_def or.commute take_bit_int_eq_self push_bit_eq_mult)

lemma and_low: "x AND 0x3FF = x mod 1024" "x AND 0x3F = x mod 64" for x :: int
proof -
  have "mask 10 = (0x3FF :: int)" "mask 6 = (0x3F :: int)" by (simp_all add: mask_eq_exp_minus_1)
  then show "x AND 0x3FF = x mod 1024" "x AND 0x3F = x mod 64"
    using take_bit_eq_mask [of 10 x] take_bit_eq_mask [of 6 x] by (simp_all add: take_bit_eq_mod)
qed

text \<open>The bit tests of the decoder on the bytes of an encoding, over all their values.\<close>

lemma lead2: "list_all (\<lambda>k. (192 + k) AND 128 \<noteq> 0 \<and> (192 + k) AND 192 = (192::int) \<and>
    lead_loop (192 + k) 224 1 = Some (224, 1) \<and> (192 + k) AND NOT 224 = k \<and> (2 \<le> k \<longrightarrow> k AND 30 \<noteq> 0)) [0..31]"
  by code_simp

lemma lead3: "list_all (\<lambda>k. (224 + k) AND 128 \<noteq> 0 \<and> (224 + k) AND 192 = (192::int) \<and>
    lead_loop (224 + k) 224 1 = Some (240, 2) \<and> (224 + k) AND NOT 240 = k) [0..15]"
  by code_simp

lemma lead4: "list_all (\<lambda>k. (240 + k) AND 128 \<noteq> 0 \<and> (240 + k) AND 192 = (192::int) \<and>
    lead_loop (240 + k) 224 1 = Some (248, 3) \<and> (240 + k) AND NOT 248 = k) [0..7]"
  by code_simp

lemma cont_bits: "list_all (\<lambda>m. (128 + m) AND 192 = (128::int) \<and> (128 + m) AND 63 = m \<and>
    (32 \<le> m \<longrightarrow> (128 + m) AND 63 AND 480 \<noteq> 0) \<and> (m < 32 \<longrightarrow> (128 + m) AND 32 = 0) \<and>
    (16 \<le> m \<longrightarrow> (128 + m) AND 63 AND 496 \<noteq> 0) \<and> (m < 16 \<longrightarrow> (128 + m) AND 48 = 0)) [0..63]"
  by code_simp

lemma ascii_bits: "list_all (\<lambda>k. k AND 128 = (0::int)) [0..127]"
  by code_simp

lemma upto_all: "list_all P [a..b] \<Longrightarrow> a \<le> k \<Longrightarrow> k \<le> b \<Longrightarrow> P k"
  by (simp add: list_all_iff)

lemma byte_of: "0 \<le> x \<Longrightarrow> x < 256 \<Longrightarrow> uint (word_of_int x :: 8 word) = x"
  by (simp add: uint_word_of_int)

lemma word_of: "0 \<le> x \<Longrightarrow> x < 65536 \<Longrightarrow> uint (word_of_int x :: 16 word) = x"
  by (simp add: uint_word_of_int)

lemma cont_step:
  assumes "0 \<le> m" "m < 64"
  shows "cont_loop n (word_of_int (128 + m) # bs) = cont_loop (n * 64 + m) bs"
proof -
  have "uint (word_of_int (128 + m) :: 8 word) = 128 + m" using assms by (intro byte_of) auto
  moreover have "(128 + m) AND 192 = 128" "(128 + m) AND 63 = m"
    using upto_all [OF cont_bits, of m] assms by auto
  moreover have "push_bit 6 n OR m = n * 64 + m" using or_low [of m 6 n] assms by simp
  ultimately show ?thesis by simp
qed

lemma digits:
  "(c div 64) * 64 + c mod 64 = c" "(c div 4096 * 64 + c div 64 mod 64) * 64 + c mod 64 = c"
  "((c div 262144 * 64 + c div 4096 mod 64) * 64 + c div 64 mod 64) * 64 + c mod 64 = (c :: int)"
proof -
  have d: "c div 4096 = c div 64 div 64" "c div 262144 = c div 64 div 64 div 64"
    by (simp_all add: div_mult2_eq' flip: zdiv_zmult2_eq)
  show "(c div 64) * 64 + c mod 64 = c" by simp
  show "(c div 4096 * 64 + c div 64 mod 64) * 64 + c mod 64 = c" unfolding d by simp
  show "((c div 262144 * 64 + c div 4096 mod 64) * 64 + c div 64 mod 64) * 64 + c mod 64 = c" unfolding d by simp
qed

lemma fold_ucs2_utf16: "0 \<le> c \<Longrightarrow> c < 0x110000 \<Longrightarrow> fold_ucs2 c = utf16_of c"
proof -
  assume c: "0 \<le> c" "c < 0x110000"
  show ?thesis
  proof (cases "c < 0x10000")
    case False
    let ?n = "c - 0x10000"
    have "?n div 1024 < 1024" "0 \<le> ?n div 1024" using c False by auto
    then have "0xD800 OR drop_bit 10 ?n = 0xD800 + ?n div 1024" "0xDC00 OR (?n AND 0x3FF) = 0xDC00 + ?n mod 1024"
      using or_low [of "?n div 1024" 10 54] or_low [of "?n mod 1024" 10 55] by (simp_all add: drop_bit_eq_div and_low)
    then show ?thesis using False by (simp add: fold_ucs2_def utf16_of_def Let_def)
  qed (simp add: fold_ucs2_def utf16_of_def)
qed


section \<open>One code point\<close>

lemma cont_step_mod: "cont_loop n (word_of_int (128 + x mod 64) # bs) = cont_loop (n * 64 + x mod 64) bs"
  by (rule cont_step) auto

lemma surrogate_digit:
  fixes c :: int
  assumes "c div 64 div 64 = 13" "c < 0xD800 \<or> 0xE000 \<le> c"
  shows "c div 64 mod 64 < 32"
proof -
  have "c = 64 * (c div 64) + c mod 64" "c div 64 = 64 * (c div 64 div 64) + c div 64 mod 64" by simp_all
  moreover have "0 \<le> c mod 64" "c mod 64 < 64" "c div 64 mod 64 < 64" "0 \<le> c div 64 mod 64" by simp_all
  ultimately show ?thesis using assms by linarith
qed

lemma plane_digit:
  fixes c :: int
  assumes "c div 4096 div 64 = 4" "c < 0x110000"
  shows "c div 4096 mod 64 < 16"
proof -
  have "c = 4096 * (c div 4096) + c mod 4096" "c div 4096 = 64 * (c div 4096 div 64) + c div 4096 mod 64" by simp_all
  moreover have "0 \<le> c mod 4096" by simp
  ultimately show ?thesis using assms by linarith
qed

lemma low_digit:
  fixes c :: int
  assumes "c div 64 div 64 = 0" "0x800 \<le> c"
  shows "32 \<le> c div 64 mod 64"
proof -
  have "c = 64 * (c div 64) + c mod 64" "c div 64 = 64 * (c div 64 div 64) + c div 64 mod 64" by simp_all
  moreover have "c mod 64 < 64" by simp
  ultimately show ?thesis using assms by linarith
qed

lemma low_plane_digit:
  fixes c :: int
  assumes "c div 4096 div 64 = 0" "0x10000 \<le> c"
  shows "16 \<le> c div 4096 mod 64"
proof -
  have "c = 4096 * (c div 4096) + c mod 4096" "c div 4096 = 64 * (c div 4096 div 64) + c div 4096 mod 64" by simp_all
  moreover have "c mod 4096 < 4096" by simp
  ultimately show ?thesis using assms by linarith
qed

lemma lead2_at:
  assumes "0 \<le> k" "k \<le> 31"
  shows "(192 + k) AND 128 \<noteq> 0" "(192 + k) AND 192 = (192 :: int)"
    "lead_loop (192 + k) 224 1 = Some (224, 1)" "(192 + k) AND NOT 224 = k" "2 \<le> k \<Longrightarrow> k AND 30 \<noteq> 0"
proof -
  have "(192 + k) AND 128 \<noteq> 0 \<and> (192 + k) AND 192 = (192::int) \<and>
    lead_loop (192 + k) 224 1 = Some (224, 1) \<and> (192 + k) AND NOT 224 = k \<and> (2 \<le> k \<longrightarrow> k AND 30 \<noteq> 0)"
    by (rule upto_all [OF lead2 assms])
  then show "(192 + k) AND 128 \<noteq> 0" "(192 + k) AND 192 = (192 :: int)"
    "lead_loop (192 + k) 224 1 = Some (224, 1)" "(192 + k) AND NOT 224 = k" "2 \<le> k \<Longrightarrow> k AND 30 \<noteq> 0" by blast+
qed

lemma lead3_at:
  assumes "0 \<le> k" "k \<le> 15"
  shows "(224 + k) AND 128 \<noteq> 0" "(224 + k) AND 192 = (192 :: int)"
    "lead_loop (224 + k) 224 1 = Some (240, 2)" "(224 + k) AND NOT 240 = k"
proof -
  have "(224 + k) AND 128 \<noteq> 0 \<and> (224 + k) AND 192 = (192::int) \<and>
    lead_loop (224 + k) 224 1 = Some (240, 2) \<and> (224 + k) AND NOT 240 = k"
    by (rule upto_all [OF lead3 assms])
  then show "(224 + k) AND 128 \<noteq> 0" "(224 + k) AND 192 = (192 :: int)"
    "lead_loop (224 + k) 224 1 = Some (240, 2)" "(224 + k) AND NOT 240 = k" by blast+
qed

lemma lead4_at:
  assumes "0 \<le> k" "k \<le> 7"
  shows "(240 + k) AND 128 \<noteq> 0" "(240 + k) AND 192 = (192 :: int)"
    "lead_loop (240 + k) 224 1 = Some (248, 3)" "(240 + k) AND NOT 248 = k"
proof -
  have "(240 + k) AND 128 \<noteq> 0 \<and> (240 + k) AND 192 = (192::int) \<and>
    lead_loop (240 + k) 224 1 = Some (248, 3) \<and> (240 + k) AND NOT 248 = k"
    by (rule upto_all [OF lead4 assms])
  then show "(240 + k) AND 128 \<noteq> 0" "(240 + k) AND 192 = (192 :: int)"
    "lead_loop (240 + k) 224 1 = Some (248, 3)" "(240 + k) AND NOT 248 = k" by blast+
qed

lemma cont_at:
  assumes "0 \<le> m" "m \<le> 63"
  shows "32 \<le> m \<Longrightarrow> (128 + m) AND 63 AND 480 \<noteq> (0 :: int)" "m < 32 \<Longrightarrow> (128 + m) AND 32 = (0 :: int)"
    "16 \<le> m \<Longrightarrow> (128 + m) AND 63 AND 496 \<noteq> (0 :: int)" "m < 16 \<Longrightarrow> (128 + m) AND 48 = (0 :: int)"
proof -
  have "(128 + m) AND 192 = (128::int) \<and> (128 + m) AND 63 = m \<and>
    (32 \<le> m \<longrightarrow> (128 + m) AND 63 AND 480 \<noteq> 0) \<and> (m < 32 \<longrightarrow> (128 + m) AND 32 = 0) \<and>
    (16 \<le> m \<longrightarrow> (128 + m) AND 63 AND 496 \<noteq> 0) \<and> (m < 16 \<longrightarrow> (128 + m) AND 48 = 0)"
    by (rule upto_all [OF cont_bits assms])
  then show "32 \<le> m \<Longrightarrow> (128 + m) AND 63 AND 480 \<noteq> (0 :: int)" "m < 32 \<Longrightarrow> (128 + m) AND 32 = (0 :: int)"
    "16 \<le> m \<Longrightarrow> (128 + m) AND 63 AND 496 \<noteq> (0 :: int)" "m < 16 \<Longrightarrow> (128 + m) AND 48 = (0 :: int)" by blast+
qed

text \<open>The tests reject no encoding of a scalar value.\<close>

lemma not_rejected:
  "m AND 30 \<noteq> 0 \<Longrightarrow> \<not> utf8_rejected 1 224 m x"
  "(k = 0 \<Longrightarrow> x AND 63 AND 480 \<noteq> 0) \<Longrightarrow> (k = 13 \<Longrightarrow> x AND 32 = 0) \<Longrightarrow> \<not> utf8_rejected 2 240 k x"
  "(k = 0 \<Longrightarrow> x AND 63 AND 496 \<noteq> 0) \<Longrightarrow> k \<le> 4 \<Longrightarrow> (k = 4 \<Longrightarrow> x AND 48 = 0) \<Longrightarrow> \<not> utf8_rejected 3 248 k x"
  by (auto simp: utf8_rejected_def)

lemma utf8_multi:
  assumes "uint b = ch" "ch AND 128 \<noteq> 0" "ch AND 192 = 192" "lead_loop ch 224 1 = Some (msk, expect)"
    and "ch AND NOT msk = k" "cs = d # ds" "uint d = x" "length cs = expect" "\<not> utf8_rejected expect msk k x"
    and "cont_loop k cs = Some c" "fold_ucs2 c = us" "(if expect > 2 then 2 else 1) \<le> room"
  shows "convert_utf8_to_ucs2 (b # cs @ rest) room = emit us (convert_utf8_to_ucs2 rest (room - length us))"
proof -
  have "room \<noteq> 0" "hd (cs @ rest) = d" "take expect (cs @ rest) = cs" "drop expect (cs @ rest) = rest"
      "\<not> Suc (length (cs @ rest)) \<le> expect" "\<not> room < (if expect > 2 then 2 else 1)"
    using assms(6,8,12) by (auto split: if_splits)
  then show ?thesis
    unfolding convert_utf8_to_ucs2.simps(2) Let_def assms(1) using assms by simp
qed

lemma utf8_step:
  assumes c: "scalar c" and room: "length (utf16_of c) \<le> room"
  shows "convert_utf8_to_ucs2 (utf8_of c @ rest) room =
    emit (utf16_of c) (convert_utf8_to_ucs2 rest (room - length (utf16_of c)))"
proof -
  have r: "0 \<le> c" "c < 0x110000" "c < 0xD800 \<or> 0xE000 \<le> c" using c by (auto simp: scalar_def)
  have room0: "room \<noteq> 0" using room by (auto simp: utf16_of_def split: if_splits)
  have l16: "length (utf16_of c) = (if c < 0x10000 then 1 else 2)" by (simp add: utf16_of_def)
  consider "c < 0x80" | "0x80 \<le> c" "c < 0x800" | "0x800 \<le> c" "c < 0x10000" | "0x10000 \<le> c" by linarith
  then show ?thesis
  proof cases
    case 1
    have "uint (word_of_int c :: 8 word) = c" using 1 r(1) by (intro byte_of) auto
    moreover have "c AND 128 = 0" using upto_all [OF ascii_bits, of c] 1 r(1) by simp
    ultimately show ?thesis using 1 room0 by (simp add: utf8_of_def utf16_of_def convert_utf8_to_ucs2.simps)
  next
    case 2
    let ?k = "c div 64"
    have k: "0 \<le> ?k" "?k \<le> 31" "2 \<le> ?k" using 2 by auto
    note t = lead2_at [OF k(1,2)]
    have u: "uint (word_of_int (192 + ?k) :: 8 word) = 192 + ?k"
        "uint (word_of_int (128 + c mod 64) :: 8 word) = 128 + c mod 64"
      using k by (intro byte_of; simp)+
    have bs: "utf8_of c @ rest = word_of_int (192 + ?k) # [word_of_int (128 + c mod 64)] @ rest"
      using 2 by (simp add: utf8_of_def)
    have cl: "cont_loop ?k [word_of_int (128 + c mod 64)] = Some c"
      by (simp only: cont_step_mod cont_loop.simps(1) digits)
    note rej = not_rejected(1) [OF t(5) [OF k(3)], of "128 + c mod 64"]
    show ?thesis unfolding bs
      by (rule utf8_multi [OF u(1) t(1-4) refl u(2) _ rej cl fold_ucs2_utf16 [OF r(1,2)]]) (use room0 in simp_all)
  next
    case 3
    let ?k = "c div 4096" let ?m = "c div 64 mod 64"
    have k: "0 \<le> ?k" "?k \<le> 15" using 3 by auto
    have m: "0 \<le> ?m" "?m \<le> 63" by auto
    note t = lead3_at [OF k] and tm = cont_at [OF m]
    have u: "uint (word_of_int (224 + ?k) :: 8 word) = 224 + ?k" "uint (word_of_int (128 + ?m) :: 8 word) = 128 + ?m"
      using k m by (intro byte_of; linarith)+
    have bs: "utf8_of c @ rest = word_of_int (224 + ?k) # [word_of_int (128 + ?m), word_of_int (128 + c mod 64)] @ rest"
      using 3 by (simp add: utf8_of_def)
    have cl: "cont_loop ?k [word_of_int (128 + ?m), word_of_int (128 + c mod 64)] = Some c"
      by (simp only: cont_step_mod cont_loop.simps(1) digits)
    have k4: "?k = c div 64 div 64" by (simp flip: zdiv_zmult2_eq)
    note rej = not_rejected(2) [of ?k "128 + ?m", OF tm(1) [OF low_digit] tm(2) [OF surrogate_digit [OF _ r(3)]],
        folded k4, OF _ 3(1)]
    show ?thesis unfolding bs
      by (rule utf8_multi [OF u(1) t refl u(2) _ rej cl fold_ucs2_utf16 [OF r(1,2)]]) (use room0 in simp_all)
  next
    case 4
    let ?k = "c div 262144" let ?m = "c div 4096 mod 64"
    have k: "0 \<le> ?k" "?k \<le> 4" using r 4 by auto
    then have k7: "?k \<le> 7" by simp
    have m: "0 \<le> ?m" "?m \<le> 63" by auto
    note t = lead4_at [OF k(1) k7] and tm = cont_at [OF m]
    have u: "uint (word_of_int (240 + ?k) :: 8 word) = 240 + ?k" "uint (word_of_int (128 + ?m) :: 8 word) = 128 + ?m"
      using k m by (intro byte_of; linarith)+
    have bs: "utf8_of c @ rest = word_of_int (240 + ?k) #
        [word_of_int (128 + ?m), word_of_int (128 + c div 64 mod 64), word_of_int (128 + c mod 64)] @ rest"
      using 4 by (simp add: utf8_of_def)
    have cl: "cont_loop ?k [word_of_int (128 + ?m), word_of_int (128 + c div 64 mod 64), word_of_int (128 + c mod 64)] = Some c"
      by (simp only: cont_step_mod cont_loop.simps(1) digits)
    have k4: "?k = c div 4096 div 64" by (simp flip: zdiv_zmult2_eq)
    note rej = not_rejected(3) [of ?k "128 + ?m", OF tm(3) [OF low_plane_digit] k(2) tm(4) [OF plane_digit [OF _ r(2)]],
        folded k4, OF _ 4(1)]
    have room2: "(2 :: nat) \<le> room" using room l16 4 by simp
    show ?thesis unfolding bs
      by (rule utf8_multi [OF u(1) t refl u(2) _ rej cl fold_ucs2_utf16 [OF r(1,2)]]) (use room2 in simp_all)
  qed
qed


section \<open>From words back\<close>

lemma and_push_bit: "x AND push_bit n m = push_bit n (drop_bit n x AND m)" for x m :: int
  by (rule bit_eqI) (auto simp: bit_simps)

lemma high6: "0 \<le> x \<Longrightarrow> x < 65536 \<Longrightarrow> x AND 0xFC00 = x div 1024 * (1024 :: int)"
proof -
  assume x: "0 \<le> x" "x < 65536"
  have "x AND 0xFC00 = push_bit 10 (drop_bit 10 x AND 63)"
    using and_push_bit [of x 10 63] by simp
  also have "drop_bit 10 x AND 63 = x div 1024"
    using x by (simp add: drop_bit_eq_div and_low)
  finally show ?thesis by (simp add: push_bit_eq_mult)
qed

lemma need_loop_values:
  "0 \<le> c \<Longrightarrow> c < 0x800 \<Longrightarrow> need_loop (drop_bit 11 c) 1 = 1"
  "0x800 \<le> c \<Longrightarrow> c < 0x10000 \<Longrightarrow> need_loop (drop_bit 11 c) 1 = 2"
  "0x10000 \<le> c \<Longrightarrow> c < 0x110000 \<Longrightarrow> need_loop (drop_bit 11 c) 1 = 3"
proof -
  have d: "drop_bit 11 c = c div 2048" "drop_bit 5 x = x div 32" for x by (simp_all add: drop_bit_eq_div)
  show "need_loop (drop_bit 11 c) 1 = 1" if "0 \<le> c" "c < 0x800"
    using that by (subst need_loop.simps) (simp add: d)
  show "need_loop (drop_bit 11 c) 1 = 2" if "0x800 \<le> c" "c < 0x10000"
  proof -
    have "0 < c div 2048" "c div 2048 < 32" using that by auto
    then show ?thesis by (subst need_loop.simps, subst need_loop.simps) (simp add: d)
  qed
  show "need_loop (drop_bit 11 c) 1 = 3" if "0x10000 \<le> c" "c < 0x110000"
  proof -
    have "32 \<le> c div 2048" "c div 2048 < 1024" using that by auto
    then have "0 < c div 2048" "0 < c div 2048 div 32" "c div 2048 div 32 < 32" by auto
    then show ?thesis
      by (subst need_loop.simps, subst need_loop.simps, subst need_loop.simps) (simp add: d)
  qed
qed

lemma back_steps:
  "0x80 OR drop_bit 1 0x80 = (0xC0 :: int)" "0xC0 OR drop_bit 1 0xC0 = (0xE0 :: int)"
  "0xE0 OR drop_bit 1 0xE0 = (0xF0 :: int)"
  by (simp_all add: drop_bit_eq_div)

lemma back_low: "0x80 OR (x AND 0x3F) = 128 + x mod (64 :: int)"
  using or_low [of "x mod 64" 6 2] by (simp add: and_low)

lemma back_loop_values:
  "0 \<le> c \<Longrightarrow> 0x80 \<le> c \<Longrightarrow> c < 0x800 \<Longrightarrow> back_loop 1 0x80 c [] = utf8_of c"
  "0x800 \<le> c \<Longrightarrow> c < 0x10000 \<Longrightarrow> back_loop 2 0x80 c [] = utf8_of c"
  "0x10000 \<le> c \<Longrightarrow> c < 0x110000 \<Longrightarrow> back_loop 3 0x80 c [] = utf8_of c"
proof -
  have d: "drop_bit 6 x = x div 64" for x :: int by (simp add: drop_bit_eq_div)
  have k: "c div 64 div 64 = c div 4096" "c div 4096 div 64 = c div 262144" for c :: int
    by (simp_all flip: zdiv_zmult2_eq)
  show "back_loop 1 0x80 c [] = utf8_of c" if "0 \<le> c" "0x80 \<le> c" "c < 0x800"
  proof -
    have "0xC0 OR c div 64 = 0xC0 + c div 64" using or_low [of "c div 64" 5 6] that by simp
    then show ?thesis using that by (simp add: utf8_of_def d back_low back_steps One_nat_def)
  qed
  show "back_loop 2 0x80 c [] = utf8_of c" if "0x800 \<le> c" "c < 0x10000"
  proof -
    have "0xE0 OR c div 4096 = 0xE0 + c div 4096" using or_low [of "c div 4096" 4 14] that by simp
    then show ?thesis using that by (simp add: utf8_of_def d k back_low back_steps numeral_2_eq_2)
  qed
  show "back_loop 3 0x80 c [] = utf8_of c" if "0x10000 \<le> c" "c < 0x110000"
  proof -
    have "0xF0 OR c div 262144 = 0xF0 + c div 262144" using or_low [of "c div 262144" 3 30] that by simp
    then show ?thesis using that by (simp add: utf8_of_def d k back_low back_steps numeral_3_eq_3)
  qed
qed


lemma ucs2_single:
  assumes "uint w = c" "\<not> c < 0x80" "c AND 0xFC00 \<noteq> 0xDC00" "c AND 0xFC00 \<noteq> 0xD800"
    and "need_loop (drop_bit 11 c) 1 = n" "n \<le> 2" "n < room" "back_loop n 0x80 c [] = bs"
  shows "convert_ucs2_to_utf8 (w # rest) room = emit bs (convert_ucs2_to_utf8 rest (room - (n + 1)))"
proof -
  have "room \<noteq> 0" "\<not> room \<le> n" "\<not> 2 < n" using assms(6,7) by auto
  then show ?thesis using assms(1-5,8) by (simp add: convert_ucs2_to_utf8.simps(2) Let_def)
qed

lemma ucs2_pair:
  assumes "uint w = a" "uint v = b" "\<not> a < 0x80" "a AND 0xFC00 = 0xD800" "b AND 0xFC00 = 0xDC00"
    and "(push_bit 10 (a AND 0x3FF) OR (b AND 0x3FF)) + 0x10000 = c"
    and "need_loop (drop_bit 11 c) 1 = 3" "3 < room" "back_loop 3 0x80 c [] = bs"
  shows "convert_ucs2_to_utf8 (w # v # rest) room = emit bs (convert_ucs2_to_utf8 rest (room - 4))"
proof -
  have "room \<noteq> 0" "\<not> room \<le> 3" using assms(8) by auto
  then show ?thesis using assms(1-7,9) by (simp add: convert_ucs2_to_utf8.simps(2) Let_def)
qed

lemma shift1024: "0 \<le> x \<Longrightarrow> x < 1024 \<Longrightarrow> (k * 1024 + x) mod 1024 = (x :: int)"
  by simp

lemma pair_bits:
  assumes "0 \<le> p" "p < 1024" "0 \<le> q" "q < 1024"
  shows "uint (word_of_int (0xD800 + p) :: 16 word) = 0xD800 + p" "uint (word_of_int (0xDC00 + q) :: 16 word) = 0xDC00 + q"
    "(0xD800 + p) AND 0xFC00 = 0xD800" "(0xDC00 + q) AND 0xFC00 = 0xDC00"
    "push_bit 10 ((0xD800 + p) AND 0x3FF) OR ((0xDC00 + q) AND 0x3FF) = p * 1024 + q"
proof -
  show "uint (word_of_int (0xD800 + p) :: 16 word) = 0xD800 + p" "uint (word_of_int (0xDC00 + q) :: 16 word) = 0xDC00 + q"
    using assms by (intro word_of; linarith)+
  have "(54 * 1024 + p) div 1024 = 54" "(55 * 1024 + q) div 1024 = 55" using assms by simp_all
  then show "(0xD800 + p) AND 0xFC00 = 0xD800" "(0xDC00 + q) AND 0xFC00 = 0xDC00"
    using high6 [of "0xD800 + p"] high6 [of "0xDC00 + q"] assms by simp_all
  have "(0xD800 + p) AND 0x3FF = p" "(0xDC00 + q) AND 0x3FF = q"
    unfolding and_low using shift1024 [of p 54] shift1024 [of q 55] assms by simp_all
  then show "push_bit 10 ((0xD800 + p) AND 0x3FF) OR ((0xDC00 + q) AND 0x3FF) = p * 1024 + q"
    using or_low [of q 10 p] assms by simp
qed

lemma ucs2_step:
  assumes c: "scalar c" and room: "length (utf8_of c) \<le> room"
  shows "convert_ucs2_to_utf8 (utf16_of c @ rest) room =
    emit (utf8_of c) (convert_ucs2_to_utf8 rest (room - length (utf8_of c)))"
proof -
  have r: "0 \<le> c" "c < 0x110000" "c < 0xD800 \<or> 0xE000 \<le> c" using c by (auto simp: scalar_def)
  have l8: "length (utf8_of c) = (if c < 0x80 then 1 else if c < 0x800 then 2 else if c < 0x10000 then 3 else 4)"
    by (simp add: utf8_of_def)
  have s: "utf16_of c = [word_of_int c]" "uint (word_of_int c :: 16 word) = c"
      "c AND 0xFC00 \<noteq> 0xDC00" "c AND 0xFC00 \<noteq> 0xD800" if "c < 0x10000"
  proof -
    show "utf16_of c = [word_of_int c]" using that by (simp add: utf16_of_def)
    show "uint (word_of_int c :: 16 word) = c" using that r(1) by (intro word_of) auto
    have "c div 1024 \<noteq> 55" "c div 1024 \<noteq> 54" using r(3) by auto
    then show "c AND 0xFC00 \<noteq> 0xDC00" "c AND 0xFC00 \<noteq> 0xD800" using high6 [of c] r(1) that by auto
  qed
  consider "c < 0x80" | "0x80 \<le> c" "c < 0x800" | "0x800 \<le> c" "c < 0x10000" | "0x10000 \<le> c" by linarith
  then show ?thesis
  proof cases
    case 1
    then have "c < 0x10000" "room \<noteq> 0" using room l8 by auto
    then show ?thesis unfolding s(1) [OF \<open>c < 0x10000\<close>] using s(2) 1
      by (simp add: utf8_of_def convert_ucs2_to_utf8.simps(2) Let_def)
  next
    case 2
    then have lt: "c < 0x10000" by simp
    have "1 < room" using room 2 l8 by simp
    from ucs2_single [OF s(2) [OF lt] _ s(3) [OF lt] s(4) [OF lt] need_loop_values(1) [OF r(1) 2(2)] _ this
        back_loop_values(1) [OF r(1) 2]] 2(1)
    show ?thesis using s(1) [OF lt] 2 l8 by (simp add: numeral_2_eq_2)
  next
    case 3
    have "2 < room" using room 3 l8 by simp
    from ucs2_single [OF s(2) [OF 3(2)] _ s(3) [OF 3(2)] s(4) [OF 3(2)] need_loop_values(2) [OF 3] _ this
        back_loop_values(2) [OF 3]] 3(1)
    show ?thesis using s(1) [OF 3(2)] 3 l8 by (simp add: numeral_3_eq_3 numeral_2_eq_2)
  next
    case 4
    define p q where "p = (c - 0x10000) div 1024" and "q = (c - 0x10000) mod 1024"
    have pq: "0 \<le> p" "p < 1024" "0 \<le> q" "q < 1024" "0x10000 + p * 1024 + q = c"
      using r(2) 4 by (simp_all add: p_def q_def)
    have ws: "utf16_of c @ rest = word_of_int (0xD800 + p) # word_of_int (0xDC00 + q) # rest"
      using 4 by (simp add: utf16_of_def p_def q_def)
    note P = pair_bits [OF pq(1-4)]
    have join: "(push_bit 10 ((0xD800 + p) AND 0x3FF) OR ((0xDC00 + q) AND 0x3FF)) + 0x10000 = c"
      unfolding P(5) using pq(5) by simp
    have na: "\<not> 0xD800 + p < 0x80" using pq(1) by simp
    have room4: "3 < room" using room 4 l8 by simp
    have "length (utf8_of c) = 4" using 4 l8 by simp
    then show ?thesis unfolding ws
      using ucs2_pair [OF P(1,2) na P(3,4) join need_loop_values(3) [OF 4 r(2)] room4 back_loop_values(3) [OF 4 r(2)]]
      by simp
  qed
qed


section \<open>Properties\<close>

abbreviation utf8 :: "int list \<Rightarrow> byte list" where
  "utf8 cs \<equiv> concat (map utf8_of cs)"

abbreviation utf16 :: "int list \<Rightarrow> 16 word list" where
  "utf16 cs \<equiv> concat (map utf16_of cs)"

lemma utf16_shorter: "length (utf16 cs) \<le> length (utf8 cs)"
  by (induction cs) (auto simp: utf8_of_def utf16_of_def)

lemma utf8_decodes:
  "list_all scalar cs \<Longrightarrow> length (utf16 cs) \<le> room \<Longrightarrow>
    convert_utf8_to_ucs2 (utf8 cs) room = (rcode_ok, 0, room - length (utf16 cs), utf16 cs)"
proof (induction cs arbitrary: room)
  case (Cons c cs)
  then have "convert_utf8_to_ucs2 (utf8 cs) (room - length (utf16_of c)) =
      (rcode_ok, 0, room - length (utf16_of c) - length (utf16 cs), utf16 cs)" by simp
  with utf8_step [of c room "utf8 cs"] Cons.prems show ?case by (simp add: emit_def)
qed (simp add: convert_utf8_to_ucs2.simps)

lemma utf16_decodes:
  "list_all scalar cs \<Longrightarrow> length (utf8 cs) \<le> room \<Longrightarrow>
    convert_ucs2_to_utf8 (utf16 cs) room = (rcode_ok, 0, room - length (utf8 cs), utf8 cs)"
proof (induction cs arbitrary: room)
  case (Cons c cs)
  then have "convert_ucs2_to_utf8 (utf16 cs) (room - length (utf8_of c)) =
      (rcode_ok, 0, room - length (utf8_of c) - length (utf8 cs), utf8 cs)" by simp
  with ucs2_step [of c room "utf16 cs"] Cons.prems show ?case by (simp add: emit_def)
qed (simp add: convert_ucs2_to_utf8.simps)

lemma nul_units: "utf8_of 0 = [0]" "utf16_of 0 = [0]" "scalar 0"
  by (simp_all add: utf8_of_def utf16_of_def scalar_def)

text \<open>C9: the two conversions are inverse to each other on encodings.  For every list of Unicode
scalar values, the UTF-8 decoder turns their UTF-8 into exactly their UTF-16 and the word decoder
turns it back, consuming everything and counting the room used, as soon as the output fits.  The
path conversions: a path of fewer than 248 bytes becomes its words with slashes turned into
backslashes, and words that do not begin with the long-path prefix become their UTF-8 with the
backslashes left as they are.\<close>

theorem utf_roundtrip:
  assumes "list_all scalar cs"
  shows "(length (utf16 cs) \<le> room \<longrightarrow>
      convert_utf8_to_ucs2 (utf8 cs) room = (rcode_ok, 0, room - length (utf16 cs), utf16 cs)) \<and>
    (length (utf8 cs) \<le> room \<longrightarrow>
      convert_ucs2_to_utf8 (utf16 cs) room = (rcode_ok, 0, room - length (utf8 cs), utf8 cs)) \<and>
    (length (utf8 cs) + 1 \<le> 248 \<longrightarrow> length (utf8 cs) < room \<longrightarrow>
      path_utf8_to_unicode room (utf8 cs) =
        Some (rcode_ok, map (\<lambda>w. if w = 47 then 92 else w) (utf16 cs @ [0]))) \<and>
    (take 4 (utf16 cs) \<noteq> take 4 unc_prefix \<longrightarrow> length (utf8 cs) < room \<longrightarrow>
      path_unicode_to_utf8 room (utf16 cs) = Some (rcode_ok, utf8 cs @ [0]))"
proof -
  have z: "list_all scalar (cs @ [0])" "utf8 (cs @ [0]) = utf8 cs @ [0]" "utf16 (cs @ [0]) = utf16 cs @ [0]"
    using assms nul_units by simp_all
  have "convert_utf8_to_ucs2 (utf8 cs @ [0]) room = (rcode_ok, 0, room - (length (utf16 cs) + 1), utf16 cs @ [0])"
    if "length (utf8 cs) < room"
    using utf8_decodes [OF z(1), of room] that utf16_shorter [of cs] unfolding z by simp
  moreover have "convert_ucs2_to_utf8 (utf16 cs @ [0]) room = (rcode_ok, 0, room - (length (utf8 cs) + 1), utf8 cs @ [0])"
    if "length (utf8 cs) < room"
    using utf16_decodes [OF z(1), of room] that unfolding z by simp
  ultimately show ?thesis
    using utf8_decodes [OF assms, of room] utf16_decodes [OF assms, of room]
    by (auto simp: path_utf8_to_unicode_def path_unicode_to_utf8_def)
qed

theorem utf_roundtrip_witness:
  "convert_utf8_to_ucs2 (utf8 [0x41, 0xE9, 0x20AC, 0x1F600]) 10 =
      (rcode_ok, 0, 5, [0x41, 0xE9, 0x20AC, 0xD83D, 0xDE00]) \<and>
    path_utf8_to_unicode 10 (utf8 [0x61, 0x2F, 0x62]) = Some (rcode_ok, [0x61, 0x5C, 0x62, 0])"
  using utf_roundtrip [of "[0x41, 0xE9, 0x20AC, 0x1F600]" 10] utf_roundtrip [of "[0x61, 0x2F, 0x62]" 10]
  by (simp add: scalar_def utf8_of_def utf16_of_def)

end
