(* ===== verification/RFile.thy ===== *)
theory RFile
  imports RString
begin

text \<open>
  Files and directories: \<open>common/src/rfile.c\<close> in its Linux build, on the string functions of
  \<open>RString\<close>.  The file system is part of the state; what it answers beyond its contents (a refused
  \<open>fopen\<close>, the error of \<open>mkdir\<close>, the entries of a directory) is an environment.  A \<open>FILE*\<close> is an
  address (\<open>0\<close> is NULL) of an open stream; using a closed one is undefined.
\<close>

section \<open>The file system and the streams\<close>

record stream =
  fl_path :: cstr
  fl_pos :: nat
  fl_read :: bool
  fl_write :: bool
  fl_append :: bool

text \<open>The regular files, the directories, the open streams, and the address of the next stream.\<close>

record fworld =
  fw_files :: "cstr \<Rightarrow> bytes option"
  fw_dirs :: "cstr set"
  fw_streams :: "int \<Rightarrow> stream option"
  fw_next :: int

text \<open>
  \<open>fe_open\<close>: whether the system lets the path be opened; \<open>fe_mkdir\<close>, \<open>fe_rmdir\<close>, \<open>fe_unlink\<close>,
  \<open>fe_rename\<close>: the error number, 0 for success; \<open>fe_entries\<close>: the entries of a directory and whether
  each is one; \<open>fe_alloc\<close> and \<open>fe_junk\<close>: the allocator and the contents of new memory.
\<close>

record fenv =
  fe_open :: "fworld \<Rightarrow> cstr \<Rightarrow> string \<Rightarrow> bool"
  fe_mkdir :: "fworld \<Rightarrow> cstr \<Rightarrow> int"
  fe_rmdir :: "fworld \<Rightarrow> cstr \<Rightarrow> int"
  fe_unlink :: "fworld \<Rightarrow> cstr \<Rightarrow> int"
  fe_rename :: "fworld \<Rightarrow> cstr \<Rightarrow> cstr \<Rightarrow> int"
  fe_entries :: "cstr \<Rightarrow> (cstr \<times> bool) list option"
  fe_alloc :: "nat \<Rightarrow> bool"
  fe_junk :: "nat \<Rightarrow> byte"

text \<open>\<open>fopen\<close>: \<open>w\<close> empties the file, \<open>a\<close> writes at its end, \<open>+\<close> allows both directions.\<close>

definition fopen :: "fenv \<Rightarrow> fworld \<Rightarrow> cstr \<Rightarrow> string \<Rightarrow> fworld \<times> int" where
  "fopen env w path mode =
    (if \<not> fe_open env w path mode \<or> hd mode = CHR ''r'' \<and> fw_files w path = None then (w, 0)
     else
       let files = (if hd mode = CHR ''w'' \<or> hd mode = CHR ''a'' \<and> fw_files w path = None
             then (fw_files w)(path \<mapsto> []) else fw_files w);
           st = \<lparr>fl_path = path, fl_pos = 0, fl_read = (hd mode = CHR ''r'' \<or> CHR ''+'' \<in> set mode),
             fl_write = (hd mode \<noteq> CHR ''r'' \<or> CHR ''+'' \<in> set mode), fl_append = (hd mode = CHR ''a'')\<rparr>
       in (w\<lparr>fw_files := files, fw_streams := (fw_streams w)(fw_next w \<mapsto> st), fw_next := fw_next w + 1\<rparr>, fw_next w))"

definition fclose :: "fworld \<Rightarrow> int \<Rightarrow> (fworld \<times> int) option" where
  "fclose w f = (if fw_streams w f = None then None else Some (w\<lparr>fw_streams := (fw_streams w)(f := None)\<rparr>, 0))"

text \<open>
  \<open>fread(data, size, 1, f)\<close> and \<open>fwrite(data, size, 1, f)\<close>: the result is the number of items of
  \<open>size\<close> bytes, so 1 or 0; the bytes of an incomplete item are transferred too.
\<close>

definition fread1 :: "fworld \<Rightarrow> bytes \<Rightarrow> nat \<Rightarrow> int \<Rightarrow> (fworld \<times> bytes \<times> int) option" where
  "fread1 w data n f = do {
     st \<leftarrow> fw_streams w f;
     let content = (case fw_files w (fl_path st) of None \<Rightarrow> [] | Some c \<Rightarrow> c);
     let got = take n (drop (fl_pos st) content);
     if \<not> fl_read st \<or> n = 0 then Some (w, data, 0)
     else do {
       data1 \<leftarrow> mem_put data 0 got;
       Some (w\<lparr>fw_streams := (fw_streams w)(f \<mapsto> st\<lparr>fl_pos := fl_pos st + length got\<rparr>)\<rparr>, data1,
             if length got = n then 1 else 0)
     }
   }"

definition fwrite1 :: "fworld \<Rightarrow> bytes \<Rightarrow> nat \<Rightarrow> int \<Rightarrow> (fworld \<times> int) option" where
  "fwrite1 w data n f = do {
     st \<leftarrow> fw_streams w f;
     let content = (case fw_files w (fl_path st) of None \<Rightarrow> [] | Some c \<Rightarrow> c);
     let pos = (if fl_append st then length content else fl_pos st);
     if \<not> fl_write st \<or> n = 0 then Some (w, 0)
     else do {
       xs \<leftarrow> mem_get data 0 (int n);
       let content1 = take pos content @ replicate (pos - length content) 0 @ xs @ drop (pos + n) content;
       Some (w\<lparr>fw_files := (fw_files w)(fl_path st \<mapsto> content1),
         fw_streams := (fw_streams w)(f \<mapsto> st\<lparr>fl_pos := pos + n\<rparr>)\<rparr>, 1)
     }
   }"

section \<open>Paths\<close>

text \<open>
  The first loop of \<open>rfile_format_path\<close> from a position on: a backslash becomes a slash, and a second
  backslash right behind it is taken out by moving the rest of the string down.
\<close>

function slash_loop :: "cstr \<Rightarrow> cstr" where
  "slash_loop s =
    (let index = rstr_index s [92]
     in if index < 0 \<or> nat index \<ge> length s then s
        else let i = nat index; tail = drop (i + 1) s;
                 tail1 = (if tail \<noteq> [] \<and> hd tail = 92 then tl tail else tail)
             in take i s @ 47 # slash_loop tail1)"
  by pat_completeness auto
termination by (relation "measure length") (auto simp: Let_def)

declare slash_loop.simps [simp del]

text \<open>The second loop: trailing slashes go; an empty string makes it read the byte before the object.\<close>

function strip_loop :: "cstr \<Rightarrow> cstr option" where
  "strip_loop s = (if s = [] then None else if last s = 47 then strip_loop (butlast s) else Some s)"
  by pat_completeness auto
termination by (relation "measure length") auto

declare strip_loop.simps [simp del]

definition rfile_format_path :: "cstr \<Rightarrow> (cstr \<times> int) option" where
  "rfile_format_path s = do { s1 \<leftarrow> strip_loop (slash_loop s); Some (s1, rcode_ok) }"

definition rfile_get_filepath :: "fenv \<Rightarrow> cstr option \<Rightarrow> cstr \<Rightarrow> cstr option" where
  "rfile_get_filepath env path filename = do {
     (format_path, _) \<leftarrow> rfile_format_path (rstr_cpy (fe_alloc env) path 0);
     rstr_concat_array (fe_junk env) (Some [format_path, filename]) (Some [47]) False
   }"

definition rdir_get_path_dir :: "fenv \<Rightarrow> cstr option \<Rightarrow> cstr option" where
  "rdir_get_path_dir env dir =
    (if dir = None \<or> dir = Some [] then Some []
     else do {
       (format_path, _) \<leftarrow> rfile_format_path (rstr_cpy (fe_alloc env) dir 0);
       index \<leftarrow> rstr_last_index format_path [47];
       if index < 0 then Some [] else Some (take (nat index) format_path)
     })"

definition rdir_get_path_filename :: "fenv \<Rightarrow> cstr option \<Rightarrow> cstr option" where
  "rdir_get_path_filename env dir =
    (if dir = None then Some []
     else do {
       (format_path, _) \<leftarrow> rfile_format_path (rstr_cpy (fe_alloc env) dir 0);
       index \<leftarrow> rstr_last_index format_path [47];
       if index < 0 then Some format_path
       else Some (rstr_cpy (fe_alloc env) (Some (drop (nat index + 1) format_path)) 0)
     })"

section \<open>Files by path\<close>

text \<open>Opening for reading, then for writing when that fails; a second failure closes NULL.\<close>

definition rfile_create :: "fenv \<Rightarrow> fworld \<Rightarrow> cstr \<Rightarrow> (fworld \<times> int) option" where
  "rfile_create env w path = do {
     let (w1, f1) = fopen env w path ''r'';
     let (w2, f2) = (if f1 = 0 then fopen env w1 path ''w'' else (w1, f1));
     (w3, _) \<leftarrow> fclose w2 f2;
     Some (w3, rcode_ok)
   }"

definition rfile_create_in :: "fenv \<Rightarrow> fworld \<Rightarrow> cstr option \<Rightarrow> cstr \<Rightarrow> (fworld \<times> int) option" where
  "rfile_create_in env w path filename = do {
     file_path \<leftarrow> rfile_get_filepath env path filename;
     let (w1, f1) = fopen env w file_path ''r'';
     let (w2, f2) = (if f1 = 0 then fopen env w1 file_path ''w'' else (w1, f1));
     (w3, _) \<leftarrow> fclose w2 f2;
     Some (w3, rcode_ok)
   }"

definition path_there :: "fworld \<Rightarrow> cstr \<Rightarrow> bool" where
  "path_there w p = (fw_files w p \<noteq> None \<or> p \<in> fw_dirs w)"

definition rfile_exists :: "fworld \<Rightarrow> cstr option \<Rightarrow> int" where
  "rfile_exists w path = (case path of
     None \<Rightarrow> -1
   | Some p \<Rightarrow> if p = [] then -1 else if path_there w p then 1 else 0)"

text \<open>
  \<open>rfile_copy_file\<close>: the two assertions on the opened files are the wrong way round.
\<close>

definition rfile_copy_file :: "fenv \<Rightarrow> fworld \<Rightarrow> cstr option \<Rightarrow> cstr option \<Rightarrow> (fworld \<times> int) option" where
  "rfile_copy_file env w src dst = (case (src, dst) of
     (Some s, Some d) \<Rightarrow>
       (let (w1, sfp) = fopen env w s ''rb''
        in if sfp \<noteq> 0 then do { (w2, _) \<leftarrow> fclose w1 sfp; Some (w2, 1) }
           else
             let (w2, dfp) = fopen env w1 d ''wb+''
             in if dfp \<noteq> 0 then do { (w3, _) \<leftarrow> fclose w2 dfp; Some (w3, 1) }
                else None)
   | _ \<Rightarrow> Some (w, 1))"

definition rfile_remove :: "fenv \<Rightarrow> fworld \<Rightarrow> cstr option \<Rightarrow> fworld \<times> int" where
  "rfile_remove env w file = (case file of
     None \<Rightarrow> (w, -1)
   | Some p \<Rightarrow>
       if fe_unlink env w p \<noteq> 0 then (w, -1) else (w\<lparr>fw_files := (fw_files w)(p := None)\<rparr>, rcode_ok))"

definition rfile_move_file :: "fenv \<Rightarrow> fworld \<Rightarrow> cstr option \<Rightarrow> cstr option \<Rightarrow> (fworld \<times> int) option" where
  "rfile_move_file env w src dst =
    (if src = None \<or> dst = None then Some (w, -1)
     else do {
       (w1, ret) \<leftarrow> rfile_copy_file env w src dst;
       if ret \<noteq> 0 then Some (w1, -1)
       else case rfile_remove env w1 src of (w2, ret2) \<Rightarrow> Some (w2, if ret2 \<noteq> 0 then -1 else rcode_ok)
     })"

definition rfile_rename :: "fenv \<Rightarrow> fworld \<Rightarrow> cstr \<Rightarrow> cstr \<Rightarrow> fworld \<times> int" where
  "rfile_rename env w src dst =
    (if fe_rename env w src dst \<noteq> 0 then (w, -1)
     else (w\<lparr>fw_files := (fw_files w)(src := None, dst := fw_files w src)\<rparr>, 0))"

definition rfile_get_size :: "fenv \<Rightarrow> fworld \<Rightarrow> cstr \<Rightarrow> (fworld \<times> int) option" where
  "rfile_get_size env w path =
    (case fopen env w path ''rb'' of (w1, fp) \<Rightarrow>
      if fp = 0 then Some (w1, -1)
      else do {
        st \<leftarrow> fw_streams w1 fp;
        let n = (case fw_files w1 (fl_path st) of None \<Rightarrow> 0 | Some c \<Rightarrow> int (length c));
        (w2, _) \<leftarrow> fclose w1 fp;
        Some (w2, n)
      })"

section \<open>File items\<close>

datatype rfile_state = rfile_state_init | rfile_state_create | rfile_state_delete | rfile_state_open
  | rfile_state_close | rfile_state_uninit

datatype rfile_open_mode = rfile_open_mode_read | rfile_open_mode_write | rfile_open_mode_read_write
  | rfile_open_mode_append | rfile_open_mode_overwrite | rfile_open_mode_append_rw | rfile_open_mode_other

record rfile_item =
  fi_state :: rfile_state
  fi_filename :: "cstr option"
  fi_file :: int

definition rfile_init_item :: "fenv \<Rightarrow> fworld \<Rightarrow> rfile_item option \<Rightarrow> cstr option \<Rightarrow> rfile_item option \<times> int" where
  "rfile_init_item env w item filepath =
    (if item \<noteq> None then (item, rcode_invalid)
     else if rfile_exists w filepath \<noteq> 0 then (item, rcode_invalid)
     else (Some \<lparr>fi_state = rfile_state_init, fi_filename = Some (rstr_cpy (fe_alloc env) filepath 0), fi_file = 0\<rparr>,
           rcode_ok))"

definition open_op :: "rfile_open_mode \<Rightarrow> bool \<Rightarrow> string" where
  "open_op md binary = (case md of
     rfile_open_mode_read \<Rightarrow> if binary then ''rb'' else ''r''
   | rfile_open_mode_write \<Rightarrow> if binary then ''wb'' else ''w''
   | rfile_open_mode_read_write \<Rightarrow> if binary then ''ab'' else ''a''
   | rfile_open_mode_append \<Rightarrow> if binary then ''wb+'' else ''w+''
   | rfile_open_mode_overwrite \<Rightarrow> if binary then ''wb+'' else ''w+''
   | rfile_open_mode_append_rw \<Rightarrow> if binary then ''ab+'' else ''a+''
   | rfile_open_mode_other \<Rightarrow> if binary then ''rb'' else ''r'')"

text \<open>A failed \<open>fopen\<close> leaves its NULL in the item.\<close>

definition rfile_open ::
  "fenv \<Rightarrow> fworld \<Rightarrow> rfile_item option \<Rightarrow> rfile_open_mode \<Rightarrow> bool \<Rightarrow> fworld \<times> rfile_item option \<times> int" where
  "rfile_open env w item md binary = (case item of
     None \<Rightarrow> (w, None, rcode_invalid)
   | Some it \<Rightarrow> (case fi_filename it of
       None \<Rightarrow> (w, item, rcode_invalid)
     | Some name \<Rightarrow>
         if fi_state it = rfile_state_open then (w, item, rcode_invalid)
         else (case fopen env w name (open_op md binary) of (w1, f) \<Rightarrow>
           if f = 0 then (w1, Some (it\<lparr>fi_file := 0\<rparr>), rcode_invalid)
           else (w1, Some (it\<lparr>fi_file := f, fi_state := rfile_state_open\<rparr>), rcode_ok))))"

definition usable :: "rfile_item option \<Rightarrow> bool" where
  "usable item = (case item of None \<Rightarrow> False | Some it \<Rightarrow> fi_file it \<noteq> 0 \<and> fi_state it = rfile_state_open)"

definition rfile_flush :: "fworld \<Rightarrow> rfile_item option \<Rightarrow> int option" where
  "rfile_flush w item =
    (if \<not> usable item then Some rcode_invalid
     else if fw_streams w (fi_file (the item)) = None then None else Some rcode_ok)"

definition rfile_close :: "fworld \<Rightarrow> rfile_item option \<Rightarrow> (fworld \<times> rfile_item option \<times> int) option" where
  "rfile_close w item =
    (if \<not> usable item then Some (w, item, rcode_invalid)
     else do {
       (w1, _) \<leftarrow> fclose w (fi_file (the item));
       Some (w1, Some ((the item)\<lparr>fi_file := 0, fi_state := rfile_state_close\<rparr>), rcode_ok)
     })"

text \<open>The state is overwritten before it is tested, so the stream of the item is not closed.\<close>

definition rfile_uninit_item :: "fworld \<Rightarrow> rfile_item option \<Rightarrow> (fworld \<times> int) option" where
  "rfile_uninit_item w item = (case item of
     None \<Rightarrow> Some (w, rcode_invalid)
   | Some it \<Rightarrow>
       if fi_filename it = None then Some (w, rcode_invalid)
       else let it1 = it\<lparr>fi_state := rfile_state_uninit\<rparr>
            in if fi_state it1 = rfile_state_open
               then do { (w1, _, _) \<leftarrow> rfile_close w (Some it1); Some (w1, rcode_ok) }
               else Some (w, rcode_ok))"

text \<open>
  Reading and writing; \<open>*real_size\<close> is the number of items.  A negative \<open>cache_size\<close> becomes a huge
  \<open>size_t\<close>; \<open>buffer_size \<le> 0\<close> stands for the length of the string.
\<close>

definition rfile_read ::
  "fworld \<Rightarrow> rfile_item option \<Rightarrow> bytes \<Rightarrow> int \<Rightarrow> (fworld \<times> bytes \<times> int option \<times> int) option" where
  "rfile_read w item data cache_size =
    (if \<not> usable item then Some (w, data, None, rcode_invalid)
     else do {
       (w1, data1, n) \<leftarrow> fread1 w data (nat (cache_size mod 2 ^ 64)) (fi_file (the item));
       Some (w1, data1, Some n, rcode_ok)
     })"

definition rfile_write ::
  "fworld \<Rightarrow> rfile_item option \<Rightarrow> bytes \<Rightarrow> int \<Rightarrow> (fworld \<times> int option \<times> int) option" where
  "rfile_write w item data buffer_size =
    (if \<not> usable item then Some (w, None, rcode_invalid)
     else do {
       n \<leftarrow> (if buffer_size \<le> 0 then c_strlen data else Some buffer_size);
       (w1, k) \<leftarrow> fwrite1 w data (nat n) (fi_file (the item));
       Some (w1, Some k, rcode_ok)
     })"

section \<open>Directories\<close>

definition rdir_make_self :: "fenv \<Rightarrow> fworld \<Rightarrow> cstr \<Rightarrow> fworld \<times> int" where
  "rdir_make_self env w path =
    (if path_there w path then (w, rcode_ok)
     else if fe_mkdir env w path \<noteq> 0 then (w, fe_mkdir env w path)
     else (w\<lparr>fw_dirs := insert path (fw_dirs w)\<rparr>, rcode_ok))"

text \<open>The loop over the pieces of a path: empty pieces are skipped, an error ends it.\<close>

fun make_loop :: "fenv \<Rightarrow> nat \<Rightarrow> cstr list \<Rightarrow> bytes \<Rightarrow> fworld \<Rightarrow> int \<Rightarrow> (fworld \<times> int) option" where
  "make_loop env path_len [] format_path w rv = Some (w, rv)"
| "make_loop env path_len (dir # dirs) format_path w rv =
    (if dir = [] then make_loop env path_len dirs format_path w rv
     else do {
       (m1, _) \<leftarrow> rstr_cat format_path dir path_len;
       (m2, _) \<leftarrow> rstr_cat m1 [47] path_len;
       (case rdir_make_self env w (cstr_of m2) of (w1, rv1) \<Rightarrow>
          if rv1 \<noteq> 0 then Some (w1, rv1) else make_loop env path_len dirs m2 w1 rv1)
     })"

text \<open>
  \<open>rdir_make\<close>: when a separator was replaced the replaced string is freed before it is used again for
  a path without slash, which is undefined.
\<close>

definition rdir_make :: "fenv \<Rightarrow> fworld \<Rightarrow> cstr option \<Rightarrow> bool \<Rightarrow> (fworld \<times> int) option" where
  "rdir_make env w path recursive = (case path of
     None \<Rightarrow> Some (w, rcode_ok)
   | Some p \<Rightarrow>
       if p = [] then Some (w, rcode_ok)
       else if \<not> recursive then Some (rdir_make_self env w p)
       else do {
         temp1 \<leftarrow> (if rstr_index p [92, 92] > -1
           then map_option Some (rstr_repl (fe_junk env) (fe_alloc env) (Some p) (Some [92, 92]) (Some [47]))
           else Some None);
         let p1 = (case temp1 of None \<Rightarrow> p | Some t \<Rightarrow> t);
         temp2 \<leftarrow> (if rstr_index p1 [92] > -1
           then map_option Some (rstr_repl (fe_junk env) (fe_alloc env) (Some p1) (Some [92]) (Some [47]))
           else Some None);
         let dest_path = (case temp2 of None \<Rightarrow> p1 | Some t \<Rightarrow> t);
         dirs \<leftarrow> rstr_split dest_path [47];
         (case dirs of
            Some ds \<Rightarrow> make_loop env (length dest_path) ds (0 # fresh (fe_junk env) (length dest_path)) w rcode_ok
          | None \<Rightarrow> if temp1 = None \<and> temp2 = None then Some (rdir_make_self env w dest_path) else None)
       })"

definition rdir_remove :: "fenv \<Rightarrow> fworld \<Rightarrow> cstr \<Rightarrow> fworld \<times> int" where
  "rdir_remove env w path =
    (if fe_rmdir env w path \<noteq> 0 then (w, fe_rmdir env w path)
     else (w\<lparr>fw_dirs := fw_dirs w - {path}\<rparr>, rcode_ok))"

text \<open>
  \<open>_rdir_list\<close>: the names it pushes.  A directory that cannot be opened is closed all the same, which
  is undefined for NULL; a subdirectory is scanned under its bare name.
\<close>

partial_function (option) rdir_list_loop ::
  "fenv \<Rightarrow> bool \<Rightarrow> bool \<Rightarrow> (cstr \<times> bool) list \<Rightarrow> cstr list list \<Rightarrow> cstr list option" where
  "rdir_list_loop env only_file sub_dir entries acc = (case entries of
     [] \<Rightarrow> Some (concat (rev acc))
   | (name, is_dir) # rest \<Rightarrow>
       if name = [46] \<or> name = [46, 46] then rdir_list_loop env only_file sub_dir rest acc
       else if is_dir then do {
         inner \<leftarrow> (if sub_dir
           then do {
             (p, _) \<leftarrow> rfile_format_path name;
             es \<leftarrow> fe_entries env (p @ [47]);
             rdir_list_loop env only_file sub_dir es []
           }
           else Some []);
         rdir_list_loop env only_file sub_dir rest (((if only_file then [] else [name]) @ inner) # acc)
       }
       else rdir_list_loop env only_file sub_dir rest ([name] # acc))"

definition rdir_list :: "fenv \<Rightarrow> cstr option \<Rightarrow> bool \<Rightarrow> bool \<Rightarrow> cstr list option" where
  "rdir_list env path only_file sub_dir = do {
     let p = (case path of None \<Rightarrow> [46] | Some q \<Rightarrow> if q = [] then [46] else q);
     (p1, _) \<leftarrow> rfile_format_path p;
     es \<leftarrow> fe_entries env (p1 @ [47]);
     rdir_list_loop env only_file sub_dir es []
   }"


section \<open>What formatting a path does\<close>

text \<open>Every backslash becomes a slash, two in a row become one.\<close>

fun norm_slashes :: "cstr \<Rightarrow> cstr" where
  "norm_slashes [] = []"
| "norm_slashes [c] = [if c = 92 then 47 else c]"
| "norm_slashes (c # d # s) =
    (if c = 92 then 47 # norm_slashes (if d = 92 then s else d # s) else c # norm_slashes (d # s))"

definition strip_slashes :: "cstr \<Rightarrow> cstr" where
  "strip_slashes s = rev (dropWhile (\<lambda>c. c = 47) (rev s))"

lemma strstr_char: "strstr s [c] = (if c \<in> set s then Some (length (takeWhile (\<lambda>x. x \<noteq> c) s)) else None)"
proof (induction s)
  case Nil
  show ?case by (subst strstr_step) simp
next
  case (Cons x s)
  then show ?case by (subst strstr_step) simp
qed

lemma norm_prefix:
  "92 \<notin> set xs \<Longrightarrow> norm_slashes (xs @ 92 # ys) = xs @ 47 # norm_slashes (if ys \<noteq> [] \<and> hd ys = 92 then tl ys else ys)"
proof (induction xs)
  case Nil
  then show ?case by (cases ys) auto
next
  case (Cons x xs)
  then show ?case by (cases xs) auto
qed

lemma norm_none: "92 \<notin> set s \<Longrightarrow> norm_slashes s = s"
  by (induction s rule: norm_slashes.induct) auto

lemma slash_loop_norm: "slash_loop s = norm_slashes s"
proof (induction s rule: slash_loop.induct)
  case (1 s)
  show ?case
  proof (cases "92 \<in> set s")
    case False
    then have "rstr_index s [92] = -1" by (simp add: rstr_index_def strstr_char)
    then show ?thesis using False by (subst slash_loop.simps) (simp add: norm_none)
  next
    case True
    define xs where "xs = takeWhile (\<lambda>x. x \<noteq> 92) s"
    define ys where "ys = tl (dropWhile (\<lambda>x. x \<noteq> 92) s)"
    have ne: "dropWhile (\<lambda>x. x \<noteq> 92) s \<noteq> []" using True by (simp add: dropWhile_eq_Nil_conv)
    then have "hd (dropWhile (\<lambda>x. x \<noteq> 92) s) = 92" using hd_dropWhile by blast
    then have s: "s = xs @ 92 # ys" using ne by (metis xs_def ys_def takeWhile_dropWhile_id list.collapse)
    have xs: "92 \<notin> set xs" by (auto simp: xs_def dest: set_takeWhileD)
    have i: "rstr_index s [92] = int (length xs)" using True by (simp add: rstr_index_def strstr_char xs_def)
    let ?t = "if ys \<noteq> [] \<and> hd ys = 92 then tl ys else ys"
    have lt: "length xs < length s" "take (length xs) s = xs" "drop (Suc (length xs)) s = ys" by (simp_all add: s)
    have IH: "slash_loop ?t = norm_slashes ?t"
      using lt i by (intro "1.IH" [of "int (length xs)" "length xs" ys]) simp_all
    have "slash_loop s = xs @ 47 # slash_loop ?t"
      using lt(1,2) i unfolding lt(3) [symmetric] by (subst slash_loop.simps) (simp add: Let_def)
    then show ?thesis using IH norm_prefix [OF xs, of ys] s by simp
  qed
qed

lemma strip_loop_spec: "strip_loop s = (if set s \<subseteq> {47} then None else Some (strip_slashes s))"
proof (induction s rule: strip_loop.induct)
  case (1 s)
  show ?case
  proof (cases s rule: rev_cases)
    case Nil
    then show ?thesis by (subst strip_loop.simps) simp
  next
    case (snoc t c)
    then show ?thesis using 1 by (subst strip_loop.simps) (auto simp: strip_slashes_def)
  qed
qed

lemma norm_only_slashes: "set (norm_slashes s) \<subseteq> {47} \<longleftrightarrow> set s \<subseteq> {47, 92}"
  by (induction s rule: norm_slashes.induct) auto

lemma rfile_format_path_spec:
  "rfile_format_path s = (if set s \<subseteq> {47, 92} then None else Some (strip_slashes (norm_slashes s), rcode_ok))"
  by (simp add: rfile_format_path_def slash_loop_norm strip_loop_spec norm_only_slashes)

lemma norm_no_backslash: "92 \<notin> set (norm_slashes s)"
  by (induction s rule: norm_slashes.induct) auto

lemma strip_set: "set (strip_slashes s) \<subseteq> set s"
  by (auto simp: strip_slashes_def dest: set_dropWhileD)

lemma strip_last: "strip_slashes s \<noteq> [] \<Longrightarrow> last (strip_slashes s) \<noteq> 47"
  using hd_dropWhile [of "\<lambda>c. c = 47" "rev s"] by (simp add: strip_slashes_def last_rev)


section \<open>Properties\<close>

lemma last_slash:
  "rstr_last_index f [47] = Some (case strrchr f 47 of None \<Rightarrow> -1 | Some i \<Rightarrow> int i)"
  by (simp add: rstr_last_index_def)

lemma split_last_slash:
  assumes "strrchr f 47 = Some i"
  shows "take i f @ 47 # drop (i + 1) f = f" "47 \<notin> set (drop (i + 1) f)" "i < length f"
proof -
  note s = strrchr_Some [OF assms]
  then show "take i f @ 47 # drop (i + 1) f = f" "i < length f"
    using id_take_nth_drop [of i f] by auto
  have "drop (i + 1) f ! k \<noteq> 47" if "k < length (drop (i + 1) f)" for k
    using s that by simp
  then show "47 \<notin> set (drop (i + 1) f)" by (metis in_set_conv_nth)
qed

lemma strip_norm_facts:
  assumes "cstr_ok s" "\<not> set s \<subseteq> {47, 92}"
  defines "f \<equiv> strip_slashes (norm_slashes s)"
  shows "f \<noteq> []" "92 \<notin> set f" "last f \<noteq> 47" "cstr_ok f" "length f \<le> length s"
proof -
  have n: "\<not> set (norm_slashes s) \<subseteq> {47}" using assms(2) by (simp add: norm_only_slashes)
  then show ne: "f \<noteq> []" by (auto simp: f_def strip_slashes_def dropWhile_eq_Nil_conv)
  show "92 \<notin> set f" using norm_no_backslash [of s] strip_set [of "norm_slashes s"] by (auto simp: f_def)
  show "last f \<noteq> 47" using strip_last ne unfolding f_def .
  have "length (norm_slashes t) \<le> length t" for t by (induction t rule: norm_slashes.induct) auto
  then show "length f \<le> length s"
    using length_dropWhile_le [of _ "rev (norm_slashes s)"] by (auto simp: f_def strip_slashes_def intro: le_trans)
  have "cstr_ok t \<Longrightarrow> cstr_ok (norm_slashes t)" for t by (induction t rule: norm_slashes.induct) (auto split: if_splits)
  then show "cstr_ok f" using assms(1) strip_set [of "norm_slashes s"] by (auto simp: f_def cstr_ok_def)
qed

text \<open>C23: formatting a path.  \<open>rfile_format_path\<close> turns backslashes into slashes (a pair counts
once) and takes trailing slashes off; on a path of nothing but separators, the root directory
included, it reads in front of the string.  The directory part and the file part it is split into
give the formatted path back, and joining a directory and a file name puts one slash between the
formatted directory and the name.\<close>

theorem rfile_paths:
  assumes "cstr_ok s" "length s < 2 ^ 28" "\<forall>n. fe_alloc env n" "cstr_ok name" "length name < 2 ^ 28"
  defines "f \<equiv> strip_slashes (norm_slashes s)"
  shows "(if set s \<subseteq> {47, 92} then rfile_format_path s = None
    else rfile_format_path s = Some (f, rcode_ok) \<and> 92 \<notin> set f \<and> last f \<noteq> 47 \<and>
      (if 47 \<in> set f
       then \<exists>d n. rdir_get_path_dir env (Some s) = Some d \<and> rdir_get_path_filename env (Some s) = Some n \<and>
         d @ 47 # n = f \<and> 47 \<notin> set n
       else rdir_get_path_dir env (Some s) = Some [] \<and> rdir_get_path_filename env (Some s) = Some f) \<and>
      rfile_get_filepath env (Some s) name = Some (f @ 47 # name))"
proof (cases "set s \<subseteq> {47, 92}")
  case True
  then show ?thesis by (simp add: rfile_format_path_spec)
next
  case False
  note F = strip_norm_facts [OF assms(1) False, folded f_def]
  have fmt: "rfile_format_path s = Some (f, rcode_ok)" using False by (simp add: rfile_format_path_spec f_def)
  have cpy: "rstr_cpy (fe_alloc env) (Some t) 0 = t" if "length t < 2 ^ 28" for t
    using that assms(3) by (simp add: rstr_cpy_def)
  have "s \<noteq> []" using False by auto
  have "rstr_concat_array (fe_junk env) (Some [f, name]) (Some [47]) False = Some (f @ 47 # name)"
    using join_concat_spec [of "[f, name]" "[47]" "fe_alloc env" "fe_junk env"] F(4,5) assms(2-5) by simp
  then have full: "rfile_get_filepath env (Some s) name = Some (f @ 47 # name)"
    using fmt cpy [OF assms(2)] by (simp add: rfile_get_filepath_def)
  show ?thesis
  proof (cases "strrchr f 47")
    case None
    then have "47 \<notin> set f" by (simp add: strrchr_None)
    moreover have "rdir_get_path_dir env (Some s) = Some []" "rdir_get_path_filename env (Some s) = Some f"
      using None fmt cpy [OF assms(2)] \<open>s \<noteq> []\<close>
      by (simp_all add: rdir_get_path_dir_def rdir_get_path_filename_def last_slash)
    ultimately show ?thesis using False F(2,3) fmt full by simp
  next
    case (Some i)
    note S = split_last_slash [OF Some]
    have "47 \<in> set f" using Some strrchr_None [of f 47] by auto
    moreover have "length (drop (Suc i) f) < 2 ^ 28" using F(5) assms(2) by simp
    then have "rdir_get_path_dir env (Some s) = Some (take i f)"
        "rdir_get_path_filename env (Some s) = Some (drop (i + 1) f)"
      using Some fmt cpy [OF assms(2)] cpy \<open>s \<noteq> []\<close>
      by (simp_all add: rdir_get_path_dir_def rdir_get_path_filename_def last_slash nat_add_distrib)
    ultimately show ?thesis using False F(2,3) fmt full S(1,2) by auto
  qed
qed

definition demo_fenv :: fenv where
  "demo_fenv = \<lparr>fe_open = (\<lambda>_ _ _. True), fe_mkdir = (\<lambda>_ _. 0), fe_rmdir = (\<lambda>_ _. 0), fe_unlink = (\<lambda>_ _. 0),
    fe_rename = (\<lambda>_ _ _. 0), fe_entries = (\<lambda>_. None), fe_alloc = (\<lambda>_. True), fe_junk = (\<lambda>_. 0)\<rparr>"

theorem rfile_paths_witness:
  "rfile_format_path [97, 92, 92, 98, 47] = Some ([97, 47, 98], rcode_ok) \<and>
    rfile_get_filepath demo_fenv (Some [97, 92, 92, 98, 47]) [99] = Some [97, 47, 98, 47, 99]"
  using rfile_paths [of "[97, 92, 92, 98, 47]" demo_fenv "[99]"]
  by (simp add: demo_fenv_def strip_slashes_def)

text \<open>C34: \<open>rfile_copy_file\<close> never copies.  When the source can be opened the function gives up with
1 and leaves every file as it was; when it cannot, the destination is opened for writing, and so
emptied, before it gives up; when the destination cannot be opened either, it reads from NULL.
\<open>rfile_move_file\<close> therefore never succeeds and never removes the source.\<close>

theorem rfile_copy_never:
  assumes "fw_next w \<noteq> 0" "\<forall>p m. fe_open env w p m"
  shows "(if fw_files w s \<noteq> None
    then (\<exists>w'. rfile_copy_file env w (Some s) (Some d) = Some (w', 1) \<and> fw_files w' = fw_files w \<and>
      rfile_move_file env w (Some s) (Some d) = Some (w', -1))
    else (\<exists>w'. rfile_copy_file env w (Some s) (Some d) = Some (w', 1) \<and>
      fw_files w' = (fw_files w)(d \<mapsto> []) \<and> rfile_move_file env w (Some s) (Some d) = Some (w', -1))) \<and>
    rfile_copy_file env w None d' = Some (w, 1) \<and> rfile_copy_file env w s' None = Some (w, 1)"
proof -
  have c: "rfile_copy_file env w None d' = Some (w, 1)" "rfile_copy_file env w s' None = Some (w, 1)"
    by (simp_all add: rfile_copy_file_def split: option.splits)
  show ?thesis
  proof (cases "fw_files w s")
    case None
    then show ?thesis using assms c
      by (simp add: rfile_copy_file_def rfile_move_file_def fopen_def fclose_def Let_def)
  next
    case (Some x)
    then show ?thesis using assms c
      by (simp add: rfile_copy_file_def rfile_move_file_def fopen_def fclose_def Let_def)
  qed
qed

definition demo_fworld :: fworld where
  "demo_fworld = \<lparr>fw_files = [[97] \<mapsto> [1, 2], [98] \<mapsto> [3]], fw_dirs = {}, fw_streams = Map.empty, fw_next = 5\<rparr>"

theorem rfile_copy_never_witness:
  "\<exists>w'. rfile_copy_file demo_fenv demo_fworld (Some [99]) (Some [98]) = Some (w', 1) \<and> fw_files w' [98] = Some []"
proof -
  have "fw_next demo_fworld \<noteq> 0" "\<forall>p m. fe_open demo_fenv demo_fworld p m" "fw_files demo_fworld [99] = None"
    by (simp_all add: demo_fworld_def demo_fenv_def)
  with conjunct1 [OF rfile_copy_never [of demo_fworld demo_fenv "[99]" "[98]" None None]]
  obtain w' where "rfile_copy_file demo_fenv demo_fworld (Some [99]) (Some [98]) = Some (w', 1)"
      "fw_files w' = (fw_files demo_fworld)([98] \<mapsto> [])" by auto
  then show ?thesis by simp
qed


section \<open>The life of a file item\<close>

text \<open>What a user does with an item after \<open>rfile_init_item\<close>, in any order.\<close>

inductive item_step :: "fenv \<Rightarrow> fworld \<times> rfile_item \<Rightarrow> fworld \<times> rfile_item \<Rightarrow> bool" for env :: fenv where
  opens: "rfile_open env w (Some it) md binary = (w', Some it', ret) \<Longrightarrow> item_step env (w, it) (w', it')"
| closes: "rfile_close w (Some it) = Some (w', Some it', ret) \<Longrightarrow> item_step env (w, it) (w', it')"
| reading: "rfile_read w (Some it) data n = Some (w', data', k, ret) \<Longrightarrow> item_step env (w, it) (w', it)"
| writing: "rfile_write w (Some it) data n = Some (w', k, ret) \<Longrightarrow> item_step env (w, it) (w', it)"

inductive item_reach :: "fenv \<Rightarrow> fworld \<Rightarrow> fworld \<times> rfile_item \<Rightarrow> bool" for env :: fenv and w0 :: fworld where
  start: "rfile_init_item env w0 None path = (Some it, rcode_ok) \<Longrightarrow> item_reach env w0 (w0, it)"
| step: "item_reach env w0 s \<Longrightarrow> item_step env s s' \<Longrightarrow> item_reach env w0 s'"

text \<open>The item owns one stream while it is open and none otherwise; the others are not touched.\<close>

definition item_inv :: "fworld \<Rightarrow> fworld \<Rightarrow> rfile_item \<Rightarrow> bool" where
  "item_inv w0 w it \<longleftrightarrow> fi_filename it \<noteq> None \<and> 0 < fw_next w \<and> fw_next w0 \<le> fw_next w \<and>
    dom (fw_streams w) = dom (fw_streams w0) \<union> (if fi_state it = rfile_state_open then {fi_file it} else {}) \<and>
    (fi_state it = rfile_state_open \<longrightarrow> fi_file it \<noteq> 0 \<and> fw_next w0 \<le> fi_file it \<and> fi_file it < fw_next w) \<and>
    (fi_state it \<noteq> rfile_state_open \<longrightarrow> fi_file it = 0)"

lemma fread1_streams: "fread1 w data n f = Some (w', data', k) \<Longrightarrow>
    dom (fw_streams w') = dom (fw_streams w) \<and> fw_next w' = fw_next w"
  by (auto simp: fread1_def Let_def bind_eq_Some_conv split: if_splits)

lemma fwrite1_streams: "fwrite1 w data n f = Some (w', k) \<Longrightarrow>
    dom (fw_streams w') = dom (fw_streams w) \<and> fw_next w' = fw_next w"
  by (auto simp: fwrite1_def Let_def bind_eq_Some_conv split: if_splits)

lemma item_inv_usable: "item_inv w0 w it \<Longrightarrow> usable (Some it) \<longleftrightarrow> fi_state it = rfile_state_open"
  by (auto simp: item_inv_def usable_def)

lemma fopen_cases:
  assumes "fopen env w p m = (w', f)" "0 < fw_next w"
  shows "f = 0 \<and> w' = w \<or> f = fw_next w \<and> dom (fw_streams w') = insert f (dom (fw_streams w)) \<and> fw_next w' = fw_next w + 1"
  using assms unfolding fopen_def by (auto simp: Let_def split: if_splits)

lemma item_inv_open:
  assumes inv: "item_inv w0 w it" and run: "rfile_open env w (Some it) md binary = (w', Some it', ret)"
  shows "item_inv w0 w' it'"
proof -
  obtain p where p: "fi_filename it = Some p" using inv by (auto simp: item_inv_def)
  show ?thesis
  proof (cases "fi_state it = rfile_state_open")
    case True
    then show ?thesis using inv run p by (simp add: rfile_open_def)
  next
    case False
    obtain w1 f where f: "fopen env w p (open_op md binary) = (w1, f)" by fastforce
    have w: "0 < fw_next w" "fi_file it = 0" "dom (fw_streams w) = dom (fw_streams w0)" "fw_next w0 \<le> fw_next w"
      using inv False by (simp_all add: item_inv_def)
    from fopen_cases [OF f w(1)] show ?thesis
    proof
      assume "f = 0 \<and> w1 = w"
      then have "w' = w" "it' = it\<lparr>fi_file := 0\<rparr>" using run p f False by (auto simp: rfile_open_def)
      then show ?thesis using inv False by (simp add: item_inv_def)
    next
      assume a: "f = fw_next w \<and> dom (fw_streams w1) = insert f (dom (fw_streams w)) \<and> fw_next w1 = fw_next w + 1"
      then have "w' = w1" "it' = it\<lparr>fi_file := f, fi_state := rfile_state_open\<rparr>"
        using run p f False w(1) by (auto simp: rfile_open_def)
      then show ?thesis using a w p by (auto simp: item_inv_def)
    qed
  qed
qed

lemma item_inv_close:
  assumes "item_inv w0 w it" "\<forall>f. fw_streams w0 f \<noteq> None \<longrightarrow> f < fw_next w0"
    and "rfile_close w (Some it) = Some (w', Some it', ret)"
  shows "item_inv w0 w' it'"
proof (cases "fi_state it = rfile_state_open")
  case True
  then have u: "usable (Some it)" using item_inv_usable [OF assms(1)] by simp
  have "fi_file it \<in> dom (fw_streams w)" using assms(1) True by (auto simp: item_inv_def)
  then have "w' = w\<lparr>fw_streams := (fw_streams w)(fi_file it := None)\<rparr>"
      "it' = it\<lparr>fi_file := 0, fi_state := rfile_state_close\<rparr>"
    using assms(3) u by (auto simp: rfile_close_def fclose_def)
  moreover have "fi_file it \<notin> dom (fw_streams w0)"
    using assms(1,2) True by (fastforce simp: item_inv_def)
  ultimately show ?thesis using assms(1) True by (auto simp: item_inv_def)
next
  case False
  then have "\<not> usable (Some it)" using item_inv_usable [OF assms(1)] by simp
  then show ?thesis using assms(1,3) by (simp add: rfile_close_def)
qed

lemma item_inv_reach:
  assumes "0 < fw_next w0" "\<forall>f. fw_streams w0 f \<noteq> None \<longrightarrow> f < fw_next w0"
  shows "item_reach env w0 s \<Longrightarrow> item_inv w0 (fst s) (snd s)"
proof (induction rule: item_reach.induct)
  case (start path it)
  then show ?case using assms(1) by (auto simp: rfile_init_item_def item_inv_def split: if_splits)
next
  case (step s s')
  obtain w it w' it' where s: "s = (w, it)" "s' = (w', it')" by (cases s, cases s') auto
  with step have inv: "item_inv w0 w it" and st: "item_step env (w, it) (w', it')" by auto
  from st show ?case unfolding s fst_conv snd_conv
  proof (cases rule: item_step.cases)
    case (opens md binary ret)
    then show "item_inv w0 w' it'" using item_inv_open [OF inv] by blast
  next
    case (closes ret)
    then show "item_inv w0 w' it'" using item_inv_close [OF inv assms(2)] by blast
  next
    case (reading data n data' k ret)
    then show "item_inv w0 w' it'"
      using inv fread1_streams [of w data _ "fi_file it" w' data']
      by (auto simp: rfile_read_def item_inv_def bind_eq_Some_conv split: if_splits)
  next
    case (writing data n k ret)
    then show "item_inv w0 w' it'"
      using inv fwrite1_streams [of w data _ "fi_file it" w']
      by (auto simp: rfile_write_def item_inv_def bind_eq_Some_conv split: if_splits)
  qed
qed

text \<open>C15: the life of a file item, from \<open>rfile_init_item\<close> (which wants a path that does not exist)
through any sequence of open, close, read and write.  The item can be used exactly in the state
open, and then it owns one stream, besides those that were there before.  Opening an open item is
refused and changes nothing; closing always returns, gives the stream back and leaves no other
change.  \<open>rfile_uninit_item\<close> never closes: an item that is open when it is released leaves its
stream open for good.\<close>

theorem rfile_item_session:
  assumes "0 < fw_next w0" "\<forall>f. fw_streams w0 f \<noteq> None \<longrightarrow> f < fw_next w0" "item_reach env w0 (w, it)"
  shows "(usable (Some it) \<longleftrightarrow> fi_state it = rfile_state_open) \<and>
    dom (fw_streams w) = dom (fw_streams w0) \<union> (if usable (Some it) then {fi_file it} else {}) \<and>
    (if usable (Some it)
     then rfile_open env w (Some it) md binary = (w, Some it, rcode_invalid) \<and>
       (\<exists>w' it'. rfile_close w (Some it) = Some (w', Some it', rcode_ok) \<and>
         dom (fw_streams w') = dom (fw_streams w0) \<and> fw_files w' = fw_files w \<and> \<not> usable (Some it'))
     else rfile_close w (Some it) = Some (w, Some it, rcode_invalid) \<and>
       rfile_read w (Some it) data n = Some (w, data, None, rcode_invalid) \<and>
       rfile_write w (Some it) data n = Some (w, None, rcode_invalid)) \<and>
    rfile_uninit_item w (Some it) = Some (w, rcode_ok)"
proof -
  have inv: "item_inv w0 w it" using item_inv_reach [OF assms(1,2,3)] by simp
  note u = item_inv_usable [OF inv]
  have name: "fi_filename it \<noteq> None" using inv by (simp add: item_inv_def)
  have D: "dom (fw_streams w) = dom (fw_streams w0) \<union> (if usable (Some it) then {fi_file it} else {})"
    using inv u by (simp add: item_inv_def)
  have un: "rfile_uninit_item w (Some it) = Some (w, rcode_ok)"
    using name by (simp add: rfile_uninit_item_def Let_def)
  show ?thesis
  proof (cases "usable (Some it)")
    case True
    have "rfile_open env w (Some it) md binary = (w, Some it, rcode_invalid)"
      using True u name by (auto simp: rfile_open_def)
    moreover have "fi_file it \<in> dom (fw_streams w)" using D True by simp
    then obtain w' it' where c: "rfile_close w (Some it) = Some (w', Some it', rcode_ok)" "fw_files w' = fw_files w"
        "fi_state it' = rfile_state_close"
      using True by (auto simp: rfile_close_def fclose_def)
    moreover have "item_inv w0 w' it'" using item_inv_close [OF inv assms(2) c(1)] .
    then have "dom (fw_streams w') = dom (fw_streams w0)" "\<not> usable (Some it')"
      using c(3) item_inv_usable [of w0 w' it'] by (simp_all add: item_inv_def)
    ultimately show ?thesis using True u D un by auto
  next
    case False
    then show ?thesis using u D un by (simp add: rfile_close_def rfile_read_def rfile_write_def)
  qed
qed

theorem rfile_item_session_witness:
  "\<exists>w it. item_reach demo_fenv demo_fworld (w, it) \<and> usable (Some it) \<and>
    rfile_uninit_item w (Some it) = Some (w, rcode_ok) \<and> dom (fw_streams w) = {5}"
proof -
  let ?it = "\<lparr>fi_state = rfile_state_init, fi_filename = Some [99], fi_file = 0\<rparr>"
  have "rfile_init_item demo_fenv demo_fworld None (Some [99]) = (Some ?it, rcode_ok)"
    by (simp add: rfile_init_item_def rfile_exists_def path_there_def demo_fworld_def demo_fenv_def rstr_cpy_def)
  then have r: "item_reach demo_fenv demo_fworld (demo_fworld, ?it)" by (rule item_reach.start)
  obtain w it where o: "rfile_open demo_fenv demo_fworld (Some ?it) rfile_open_mode_write True = (w, Some it, rcode_ok)"
      "usable (Some it)" "fi_file it = 5"
    by (simp add: rfile_open_def fopen_def open_op_def demo_fenv_def demo_fworld_def usable_def)
  have reach: "item_reach demo_fenv demo_fworld (w, it)"
    using item_reach.step [OF r item_step.opens [OF o(1)]] .
  have "0 < fw_next demo_fworld" "\<forall>f. fw_streams demo_fworld f \<noteq> None \<longrightarrow> f < fw_next demo_fworld"
      "dom (fw_streams demo_fworld) = {}"
    by (simp_all add: demo_fworld_def)
  from rfile_item_session [OF this(1,2) reach] this(3) show ?thesis
    using reach o(2,3) by (intro exI [of _ w] exI [of _ it]) simp
qed

text \<open>What opening does to the file, and what the stream can do: \<open>append\<close> empties the file, \<open>read_write\<close> cannot read.\<close>

lemma rfile_open_modes:
  assumes "fi_filename it = Some p" "fi_state it \<noteq> rfile_state_open" "fw_files w p = Some c" "fw_next w \<noteq> 0"
    and "\<forall>m. fe_open env w p m"
  shows "\<exists>w' it' st. rfile_open env w (Some it) md binary = (w', Some it', rcode_ok) \<and>
    fw_streams w' (fi_file it') = Some st \<and>
    fw_files w' p = Some (if md \<in> {rfile_open_mode_write, rfile_open_mode_append, rfile_open_mode_overwrite} then [] else c) \<and>
    fl_read st = (md \<notin> {rfile_open_mode_write, rfile_open_mode_read_write}) \<and>
    fl_write st = (md \<notin> {rfile_open_mode_read, rfile_open_mode_other})"
  using assms by (cases md; cases binary) (simp_all add: rfile_open_def open_op_def fopen_def Let_def)

end
