(* ===== verification/RNet.thy ===== *)
theory RNet
  imports RTime RIpc
begin

text \<open>
  The operating system as the network code of \<open>ipc/src\<close> sees it (its Linux build).  The descriptors,
  the interest list of the one epoll object of a program, what was handed to every socket and the
  options that were set are a state; what the system answers to a call is an environment, indexed by
  the number of calls made so far.  The effects of a call are the documented ones.
\<close>

section \<open>Error numbers\<close>

abbreviation (input) ENOENT :: int where "ENOENT \<equiv> 2"
abbreviation (input) EINTR :: int where "EINTR \<equiv> 4"
abbreviation (input) EBADF :: int where "EBADF \<equiv> 9"
abbreviation (input) EAGAIN :: int where "EAGAIN \<equiv> 11"
abbreviation (input) EEXIST :: int where "EEXIST \<equiv> 17"
abbreviation (input) EINVAL :: int where "EINVAL \<equiv> 22"
abbreviation (input) EPIPE :: int where "EPIPE \<equiv> 32"
abbreviation (input) EPROTOTYPE :: int where "EPROTOTYPE \<equiv> 91"
abbreviation (input) EINPROGRESS :: int where "EINPROGRESS \<equiv> 115"

section \<open>State and environment\<close>

text \<open>
  \<open>epoll_data.ptr\<close>: the address of an item on the heap, or of an element of the array \<open>dest_items\<close> of
  the container.
\<close>

datatype item_ptr = Item int | Dest nat

datatype sockopt = SO_KEEPALIVE | SO_DEBUG | SO_BROADCAST | SO_REUSEADDR | SO_SNDBUF | SO_RCVBUF
  | SO_LINGER | TCP_DEFER_ACCEPT | TCP_NODELAY | IP_FREEBIND

datatype 'a answer = Ret 'a | Err int

text \<open>
  \<open>nw_tick\<close> counts the calls, \<open>nw_reg\<close> is the interest list (events and \<open>data.ptr\<close>), \<open>nw_out\<close> the
  bytes every socket accepted, \<open>nw_opts\<close> the successful \<open>setsockopt\<close> calls, the latest first.
\<close>

record nworld =
  nw_tick :: nat
  nw_open :: "int set"
  nw_nonblock :: "int set"
  nw_reg :: "int \<Rightarrow> (32 word \<times> item_ptr) option"
  nw_out :: "int \<Rightarrow> bytes"
  nw_opts :: "(int \<times> sockopt \<times> int list) list"

text \<open>
  The answers: \<open>ne_clock\<close> is \<open>rtime_microsec\<close> after so many calls; the functions with an \<open>int\<close> give
  the error number, 0 for success.  \<open>ne_behind\<close> is what lies in the three bytes behind a local
  \<open>bool\<close>, \<open>ne_junk\<close> what \<open>malloc\<close> leaves in a 32-bit field.
\<close>

record net_env =
  ne_clock :: "nat \<Rightarrow> int"
  ne_epoll :: "nat \<Rightarrow> int answer"
  ne_fcntl :: "nat \<Rightarrow> int"
  ne_ctl :: "nat \<Rightarrow> int"
  ne_wait :: "nat \<Rightarrow> (int \<times> 32 word) list answer"
  ne_socket :: "nat \<Rightarrow> int answer"
  ne_accept :: "nat \<Rightarrow> int answer"
  ne_bind :: "nat \<Rightarrow> int"
  ne_listen :: "nat \<Rightarrow> int"
  ne_connect :: "nat \<Rightarrow> int"
  ne_sockopt :: "nat \<Rightarrow> int"
  ne_send :: "nat \<Rightarrow> nat answer"
  ne_recv :: "nat \<Rightarrow> bytes answer"
  ne_behind :: nat
  ne_junk :: "32 word"

definition tick :: "'a nworld_scheme \<Rightarrow> 'a nworld_scheme" where
  "tick w = w\<lparr>nw_tick := Suc (nw_tick w)\<rparr>"

definition now :: "net_env \<Rightarrow> 'a nworld_scheme \<Rightarrow> int" where
  "now env w = ne_clock env (nw_tick w)"

section \<open>System calls\<close>

text \<open>A new descriptor, of \<open>socket\<close>, \<open>accept\<close> or \<open>epoll_create\<close>; -1 and the error number otherwise.\<close>

definition sys_open :: "int answer \<Rightarrow> 'a nworld_scheme \<Rightarrow> 'a nworld_scheme \<times> int \<times> int" where
  "sys_open ans w = (case ans of
     Err e \<Rightarrow> (tick w, -1, e)
   | Ret fd \<Rightarrow> ((tick w)\<lparr>nw_open := insert fd (nw_open w), nw_out := (nw_out w)(fd := [])\<rparr>, fd, 0))"

text \<open>Closing a descriptor takes it off the interest list.\<close>

definition sys_close :: "'a nworld_scheme \<Rightarrow> int \<Rightarrow> 'a nworld_scheme" where
  "sys_close w fd = (tick w)\<lparr>nw_open := nw_open w - {fd}, nw_nonblock := nw_nonblock w - {fd},
    nw_reg := (nw_reg w)(fd := None)\<rparr>"

datatype ctl_op = EPOLL_CTL_ADD | EPOLL_CTL_MOD | EPOLL_CTL_DEL

definition sys_epoll_ctl ::
  "net_env \<Rightarrow> 'a nworld_scheme \<Rightarrow> int \<Rightarrow> ctl_op \<Rightarrow> int \<Rightarrow> 32 word \<Rightarrow> item_ptr \<Rightarrow> 'a nworld_scheme \<times> int" where
  "sys_epoll_ctl env w epfd ctl fd ev p =
    (let w1 = tick w; e = ne_ctl env (nw_tick w)
     in if e \<noteq> 0 then (w1, e)
        else if epfd \<notin> nw_open w \<or> fd \<notin> nw_open w then (w1, EBADF)
        else case ctl of
          EPOLL_CTL_ADD \<Rightarrow>
            if nw_reg w fd \<noteq> None then (w1, EEXIST) else (w1\<lparr>nw_reg := (nw_reg w)(fd \<mapsto> (ev, p))\<rparr>, 0)
        | EPOLL_CTL_MOD \<Rightarrow>
            if nw_reg w fd = None then (w1, ENOENT) else (w1\<lparr>nw_reg := (nw_reg w)(fd \<mapsto> (ev, p))\<rparr>, 0)
        | EPOLL_CTL_DEL \<Rightarrow>
            if nw_reg w fd = None then (w1, ENOENT) else (w1\<lparr>nw_reg := (nw_reg w)(fd := None)\<rparr>, 0))"

text \<open>
  \<open>epoll_wait\<close>: at most \<open>maxevents\<close> entries of the interest list; errors and hang-ups are reported
  beside the events that were asked for.
\<close>

definition ready_events ::
  "'a nworld_scheme \<Rightarrow> (int \<times> 32 word) list \<Rightarrow> (32 word \<times> item_ptr) list" where
  "ready_events w evs =
    concat (map (\<lambda>(fd, ev). case nw_reg w fd of
      None \<Rightarrow> []
    | Some (req, p) \<Rightarrow> (let hit = Bit_Operations.and ev (Bit_Operations.or req 0x18) in if hit = 0 then [] else [(hit, p)])) evs)"

definition sys_epoll_wait ::
  "net_env \<Rightarrow> 'a nworld_scheme \<Rightarrow> int \<Rightarrow> int \<Rightarrow> 'a nworld_scheme \<times> (32 word \<times> item_ptr) list answer" where
  "sys_epoll_wait env w epfd maxevents =
    (tick w, if epfd \<notin> nw_open w then Err EBADF else if maxevents \<le> 0 then Err EINVAL
       else case ne_wait env (nw_tick w) of
         Err e \<Rightarrow> Err e
       | Ret evs \<Rightarrow> Ret (take (nat maxevents) (ready_events w evs)))"

definition sys_setsockopt ::
  "net_env \<Rightarrow> 'a nworld_scheme \<Rightarrow> int \<Rightarrow> sockopt \<Rightarrow> int list \<Rightarrow> 'a nworld_scheme \<times> int" where
  "sys_setsockopt env w fd name v =
    (let w1 = tick w; e = ne_sockopt env (nw_tick w)
     in if fd \<notin> nw_open w then (w1, EBADF)
        else if e \<noteq> 0 then (w1, e) else (w1\<lparr>nw_opts := (fd, name, v) # nw_opts w\<rparr>, 0))"

text \<open>\<open>send\<close> takes at most what it is given; \<open>recv\<close> gives at most what there is room for.\<close>

definition sys_send :: "net_env \<Rightarrow> 'a nworld_scheme \<Rightarrow> int \<Rightarrow> bytes \<Rightarrow> 'a nworld_scheme \<times> nat answer" where
  "sys_send env w fd data = (case ne_send env (nw_tick w) of
     Err e \<Rightarrow> (tick w, Err e)
   | Ret n \<Rightarrow> ((tick w)\<lparr>nw_out := (nw_out w)(fd := nw_out w fd @ take n data)\<rparr>, Ret (min n (length data))))"

definition sys_recv :: "net_env \<Rightarrow> 'a nworld_scheme \<Rightarrow> nat \<Rightarrow> 'a nworld_scheme \<times> bytes answer" where
  "sys_recv env w count = (tick w, case ne_recv env (nw_tick w) of Err e \<Rightarrow> Err e | Ret xs \<Rightarrow> Ret (take count xs))"

section \<open>Calls that are asked again\<close>

text \<open>
  A loop around a system call: \<open>verdict\<close> is what one round decides (\<open>None\<close> to ask again), \<open>next\<close> the
  state after a round that asks again.  The loop returns exactly when some round decides.
\<close>

locale retry_call =
  fixes loop :: "'w \<Rightarrow> 'r option" and verdict :: "'w \<Rightarrow> 'r option" and again :: "'w \<Rightarrow> 'w"
  assumes unfold: "loop w = (case verdict w of Some r \<Rightarrow> Some r | None \<Rightarrow> loop (again w))"
    and returned: "loop w = Some r \<Longrightarrow> \<exists>k. verdict ((again ^^ k) w) \<noteq> None"
begin

lemma loop_skip: "\<forall>j<k. verdict ((again ^^ j) w) = None \<Longrightarrow> loop w = loop ((again ^^ k) w)"
proof (induction k)
  case (Suc k)
  then have "loop w = loop ((again ^^ k) w)" "verdict ((again ^^ k) w) = None" by auto
  then show ?case using unfold [of "(again ^^ k) w"] by simp
qed simp

lemma loop_first:
  assumes "\<exists>k. verdict ((again ^^ k) w) \<noteq> None"
  shows "loop w = verdict ((again ^^ (LEAST k. verdict ((again ^^ k) w) \<noteq> None)) w)"
proof -
  let ?k = "LEAST k. verdict ((again ^^ k) w) \<noteq> None"
  have k: "verdict ((again ^^ ?k) w) \<noteq> None" using LeastI_ex [OF assms] .
  have "\<forall>j<?k. verdict ((again ^^ j) w) = None" using not_less_Least by blast
  from loop_skip [OF this] have "loop w = loop ((again ^^ ?k) w)" .
  also have "\<dots> = verdict ((again ^^ ?k) w)" using k unfold [of "(again ^^ ?k) w"] by auto
  finally show ?thesis .
qed

lemma loop_returns: "loop w \<noteq> None \<longleftrightarrow> (\<exists>k. verdict ((again ^^ k) w) \<noteq> None)"
  using returned loop_first LeastI_ex by (metis (mono_tags, lifting) not_None_eq)

lemma loop_stuck: "loop w = None \<longleftrightarrow> (\<forall>k. verdict ((again ^^ k) w) = None)"
  using loop_returns [of w] by (metis (no_types))

lemma loop_result:
  "loop w = Some r \<longleftrightarrow> (\<exists>k. verdict ((again ^^ k) w) = Some r \<and> (\<forall>j<k. verdict ((again ^^ j) w) = None))"
proof
  assume r: "loop w = Some r"
  then have ex: "\<exists>k. verdict ((again ^^ k) w) \<noteq> None" by (rule returned)
  let ?k = "LEAST k. verdict ((again ^^ k) w) \<noteq> None"
  have "verdict ((again ^^ ?k) w) = Some r" using loop_first [OF ex] r by metis
  moreover have "\<forall>j<?k. verdict ((again ^^ j) w) = None" using not_less_Least by blast
  ultimately show "\<exists>k. verdict ((again ^^ k) w) = Some r \<and> (\<forall>j<k. verdict ((again ^^ j) w) = None)" by blast
next
  assume "\<exists>k. verdict ((again ^^ k) w) = Some r \<and> (\<forall>j<k. verdict ((again ^^ j) w) = None)"
  then obtain k where k: "verdict ((again ^^ k) w) = Some r" "\<forall>j<k. verdict ((again ^^ j) w) = None" by blast
  from loop_skip [OF k(2)] show "loop w = Some r" using k(1) unfold [of "(again ^^ k) w"] by simp
qed

end

lemma tick_fields [simp]:
  "nw_reg (tick w) = nw_reg w" "nw_open (tick w) = nw_open w" "nw_out (tick w) = nw_out w"
  "nw_nonblock (tick w) = nw_nonblock w" "nw_tick (tick w) = Suc (nw_tick w)" "nw_opts (tick w) = nw_opts w"
  by (simp_all add: tick_def)

lemma nw_tick_power [simp]: "nw_tick ((tick ^^ k) w) = nw_tick w + k"
  by (induction k) auto

lemma tick_power: "(tick ^^ k) w = w\<lparr>nw_tick := nw_tick w + k\<rparr>"
  by (induction k) (auto simp: tick_def)

end
