(* ===== verification/REpoll.thy ===== *)
theory REpoll
  imports RNet
begin

unbundle bit_operations_syntax

text \<open>
  The wrapper around epoll: \<open>ipc/src/repoll.c\<close> and \<open>ipc/include/repoll.h\<close>.  The kernel keeps the
  addresses of the items that were added, so the items are kept by address; \<open>None\<close> is memory that
  is not allocated, and the array \<open>dest_items\<close> starts with cells that were never written.
\<close>

section \<open>Event masks\<close>

abbreviation (input) EPOLLIN :: "'a::len word" where "EPOLLIN \<equiv> 1"
abbreviation (input) EPOLLPRI :: "'a::len word" where "EPOLLPRI \<equiv> 2"
abbreviation (input) EPOLLOUT :: "'a::len word" where "EPOLLOUT \<equiv> 4"
abbreviation (input) EPOLLERR :: "'a::len word" where "EPOLLERR \<equiv> 8"
abbreviation (input) EPOLLHUP :: "'a::len word" where "EPOLLHUP \<equiv> 0x10"
abbreviation (input) RIO_POLLIN :: "'a::len word" where "RIO_POLLIN \<equiv> 1"
abbreviation (input) RIO_POLLPRI :: "'a::len word" where "RIO_POLLPRI \<equiv> 2"
abbreviation (input) RIO_POLLOUT :: "'a::len word" where "RIO_POLLOUT \<equiv> 4"
abbreviation (input) RIO_POLLERR :: "'a::len word" where "RIO_POLLERR \<equiv> 0x10"
abbreviation (input) RIO_POLLHUP :: "'a::len word" where "RIO_POLLHUP \<equiv> 0x20"
abbreviation (input) RIO_POLLNVAL :: "'a::len word" where "RIO_POLLNVAL \<equiv> 0x40"

definition repoll_get_event_req :: "16 word \<Rightarrow> 16 word" where
  "repoll_get_event_req event =
    (if event AND RIO_POLLIN \<noteq> 0 then EPOLLIN else 0) OR
    (if event AND RIO_POLLPRI \<noteq> 0 then EPOLLPRI else 0) OR
    (if event AND RIO_POLLOUT \<noteq> 0 then EPOLLOUT else 0)"

definition repoll_get_event_rsp :: "16 word \<Rightarrow> 16 word" where
  "repoll_get_event_rsp event =
    (if event AND EPOLLIN \<noteq> 0 then RIO_POLLIN else 0) OR
    (if event AND EPOLLPRI \<noteq> 0 then RIO_POLLPRI else 0) OR
    (if event AND EPOLLOUT \<noteq> 0 then RIO_POLLOUT else 0) OR
    (if event AND EPOLLERR \<noteq> 0 then RIO_POLLERR else 0) OR
    (if event AND EPOLLHUP \<noteq> 0 then RIO_POLLHUP else 0)"

text \<open>The macros mix the two sets of constants.\<close>

definition repoll_set_event_in :: "16 word \<Rightarrow> 16 word" where
  "repoll_set_event_in val = val OR (RIO_POLLIN OR EPOLLHUP OR RIO_POLLERR)"

definition repoll_set_event_out :: "16 word \<Rightarrow> 16 word" where
  "repoll_set_event_out val = val OR (RIO_POLLOUT OR EPOLLHUP OR RIO_POLLERR)"

definition repoll_set_event_all :: "16 word \<Rightarrow> 16 word" where
  "repoll_set_event_all val = val OR (RIO_POLLIN OR RIO_POLLOUT OR RIO_POLLPRI OR EPOLLHUP OR RIO_POLLERR)"

definition repoll_unset_event_in :: "16 word \<Rightarrow> 16 word" where
  "repoll_unset_event_in val = val AND NOT RIO_POLLIN"

definition repoll_unset_event_out :: "16 word \<Rightarrow> 16 word" where
  "repoll_unset_event_out val = val AND NOT RIO_POLLOUT"

definition repoll_check_event_in :: "16 word \<Rightarrow> bool" where
  "repoll_check_event_in val \<longleftrightarrow> val AND (RIO_POLLIN OR RIO_POLLPRI) \<noteq> 0"

definition repoll_check_event_out :: "16 word \<Rightarrow> bool" where
  "repoll_check_event_out val \<longleftrightarrow> val AND RIO_POLLOUT \<noteq> 0"

definition repoll_check_event_err :: "16 word \<Rightarrow> bool" where
  "repoll_check_event_err val \<longleftrightarrow> val AND (RIO_POLLERR OR RIO_POLLNVAL OR EPOLLHUP) \<noteq> 0"

section \<open>Items and container\<close>

text \<open>\<open>ri_ds\<close> is the address of the data source; the field \<open>type\<close> is never used.\<close>

record repoll_item =
  ri_fd :: int
  ri_req :: "16 word"
  ri_rsp :: "16 word"
  ri_ds :: int

text \<open>
  The container, the heap of items and the system.  \<open>ep_dest_count\<close> is not set by \<open>repoll_create\<close>.
  The array \<open>event_list\<close> is written and read by \<open>repoll_poll\<close> only and is a local list there.
\<close>

record epworld = nworld +
  ep_items :: "int \<Rightarrow> repoll_item option"
  ep_next :: int
  ep_fd :: int
  ep_amount :: int
  ep_dest_count :: "int option"
  ep_dest :: "repoll_item option list"

definition item_at :: "'a epworld_scheme \<Rightarrow> item_ptr \<Rightarrow> repoll_item option" where
  "item_at w p = (case p of
     Item a \<Rightarrow> ep_items w a
   | Dest i \<Rightarrow> if i < length (ep_dest w) then ep_dest w ! i else None)"

text \<open>\<open>size\<close> is a \<open>uint32_t\<close>: it is converted to the \<open>int\<close> of \<open>epoll_create\<close> and of \<open>fd_amount\<close>.\<close>

definition repoll_create :: "net_env \<Rightarrow> 'a epworld_scheme \<Rightarrow> 32 word \<Rightarrow> 'a epworld_scheme \<times> int" where
  "repoll_create env w sz =
    (if sint sz \<le> 0 then (tick w, EINVAL)
     else case sys_open (ne_epoll env (nw_tick w)) w of (w1, fd, e) \<Rightarrow>
       if fd < 0 then (w1, e)
       else let e1 = ne_fcntl env (nw_tick w1); w2 = tick w1; e2 = ne_fcntl env (nw_tick w2); w3 = tick w2
            in if e1 \<noteq> 0 then (sys_close w2 fd, e1)
               else if e2 \<noteq> 0 then (sys_close w3 fd, e2)
               else (w3\<lparr>ep_fd := fd, ep_amount := sint sz, ep_dest := replicate (unat sz) None\<rparr>, rcode_ok))"

definition repoll_destroy :: "'a epworld_scheme \<Rightarrow> 'a epworld_scheme \<times> int" where
  "repoll_destroy w = ((sys_close (w\<lparr>ep_dest := []\<rparr>) (ep_fd w))\<lparr>nw_reg := Map.empty\<rparr>, rcode_ok)"

definition repoll_ctl ::
  "net_env \<Rightarrow> 'a epworld_scheme \<Rightarrow> ctl_op \<Rightarrow> item_ptr \<Rightarrow> ('a epworld_scheme \<times> int) option" where
  "repoll_ctl env w ctl p = do {
     it \<leftarrow> item_at w p;
     Some (sys_epoll_ctl env w (ep_fd w) ctl (ri_fd it) (ucast (repoll_get_event_req (ri_req it))) p)
   }"

definition repoll_add :: "net_env \<Rightarrow> 'a epworld_scheme \<Rightarrow> item_ptr \<Rightarrow> ('a epworld_scheme \<times> int) option" where
  "repoll_add env w p = repoll_ctl env w EPOLL_CTL_ADD p"

definition repoll_modify :: "net_env \<Rightarrow> 'a epworld_scheme \<Rightarrow> item_ptr \<Rightarrow> ('a epworld_scheme \<times> int) option" where
  "repoll_modify env w p = repoll_ctl env w EPOLL_CTL_MOD p"

text \<open>The index of the first result with a descriptor among the first \<open>n\<close>.\<close>

fun find_dest :: "int \<Rightarrow> nat \<Rightarrow> repoll_item option list \<Rightarrow> nat option option" where
  "find_dest fd 0 ds = Some None"
| "find_dest fd (Suc n) [] = None"
| "find_dest fd (Suc n) (d # ds) = (case d of
     None \<Rightarrow> None
   | Some it \<Rightarrow> if ri_fd it = fd then Some (Some 0) else map_option (map_option Suc) (find_dest fd n ds))"

definition repoll_check :: "'a epworld_scheme \<Rightarrow> item_ptr \<Rightarrow> int option" where
  "repoll_check w p = do {
     it \<leftarrow> item_at w p;
     n \<leftarrow> ep_dest_count w;
     r \<leftarrow> find_dest (ri_fd it) (nat n) (ep_dest w);
     Some (if r \<noteq> None then rcode_ok else rcode_invalid)
   }"

text \<open>A failed removal returns the -1 of \<open>epoll_ctl\<close>.\<close>

definition repoll_remove :: "net_env \<Rightarrow> 'a epworld_scheme \<Rightarrow> item_ptr \<Rightarrow> ('a epworld_scheme \<times> int) option" where
  "repoll_remove env w p = do {
     it \<leftarrow> item_at w p;
     let (w1, e) = sys_epoll_ctl env w (ep_fd w) EPOLL_CTL_DEL (ri_fd it) 0 p;
     if e \<noteq> 0 then Some (w1, -1)
     else do {
       n \<leftarrow> ep_dest_count w1;
       r \<leftarrow> find_dest (ri_fd it) (nat n) (ep_dest w1);
       Some (case r of
           None \<Rightarrow> w1
         | Some i \<Rightarrow> w1\<lparr>ep_dest := (ep_dest w1)[i := map_option (\<lambda>d. d\<lparr>ri_fd := 0\<rparr>) (ep_dest w1 ! i)]\<rparr>, rcode_ok)
     }
   }"

text \<open>The loop over the reported events: the item behind \<open>data.ptr\<close> is copied, then gets its events.\<close>

fun poll_copy :: "nat \<Rightarrow> (32 word \<times> item_ptr) list \<Rightarrow> 'a epworld_scheme \<Rightarrow> 'a epworld_scheme option" where
  "poll_copy i [] w = Some w"
| "poll_copy i ((ev, p) # evs) w = do {
     it \<leftarrow> item_at w p;
     poll_copy (Suc i) evs (w\<lparr>ep_dest := (ep_dest w)[i := Some (it\<lparr>ri_rsp := repoll_get_event_rsp (ucast ev)\<rparr>)]\<rparr>)
   }"

definition repoll_poll :: "net_env \<Rightarrow> 'a epworld_scheme \<Rightarrow> ('a epworld_scheme \<times> int) option" where
  "repoll_poll env w = (case sys_epoll_wait env w (ep_fd w) (ep_amount w) of
     (w1, Err e) \<Rightarrow> Some (w1\<lparr>ep_dest_count := Some 0\<rparr>, if e = EINTR then rcode_ok else e)
   | (w1, Ret evs) \<Rightarrow>
       if evs = [] then Some (w1\<lparr>ep_dest_count := Some 0\<rparr>, rcode_ok)
       else do {
         w2 \<leftarrow> poll_copy 0 evs w1;
         Some (w2\<lparr>ep_dest_count := Some (int (length evs))\<rparr>, rcode_ok)
       })"

text \<open>\<open>data.fd\<close> shares its memory with \<open>data.ptr\<close>: the descriptor becomes an address.\<close>

definition repoll_reset_oneshot :: "net_env \<Rightarrow> 'a epworld_scheme \<Rightarrow> int \<Rightarrow> 'a epworld_scheme \<times> int" where
  "repoll_reset_oneshot env w fd = sys_epoll_ctl env w (ep_fd w) EPOLL_CTL_MOD fd 0xC0000001 (Item fd)"


section \<open>What the kernel points to\<close>

text \<open>
  Every entry of the interest list carries the address of an allocated item of its descriptor, and
  the results counted by \<open>ep_dest_count\<close> have been written.
\<close>

definition reg_ok :: "'a epworld_scheme \<Rightarrow> bool" where
  "reg_ok w \<longleftrightarrow> (\<forall>fd ev p. nw_reg w fd = Some (ev, p) \<longrightarrow>
    (\<exists>a it. p = Item a \<and> ep_items w a = Some it \<and> ri_fd it = fd))"

definition dest_ok :: "'a epworld_scheme \<Rightarrow> bool" where
  "dest_ok w \<longleftrightarrow> ep_amount w = int (length (ep_dest w)) \<and>
    (case ep_dest_count w of None \<Rightarrow> True
     | Some n \<Rightarrow> 0 \<le> n \<and> n \<le> ep_amount w \<and> (\<forall>i < nat n. ep_dest w ! i \<noteq> None))"

text \<open>What a program does with a container: \<open>removed\<close> is the removal of an item, its release and the
  \<open>close\<close> of its descriptor, as the callers do it, whatever the removal returned.\<close>

inductive ep_step :: "net_env \<Rightarrow> epworld \<Rightarrow> epworld \<Rightarrow> bool" for env :: net_env where
  opened: "sys_open ans w = (w', fd, e) \<Longrightarrow> ep_step env w w'"
| created: "ep_items w a = None \<Longrightarrow> ep_step env w (w\<lparr>ep_items := (ep_items w)(a \<mapsto> it)\<rparr>)"
| masked: "ep_items w a = Some it \<Longrightarrow> ep_step env w (w\<lparr>ep_items := (ep_items w)(a \<mapsto> it\<lparr>ri_req := req\<rparr>)\<rparr>)"
| added: "repoll_add env w (Item a) = Some (w', ret) \<Longrightarrow> ep_step env w w'"
| modified: "repoll_modify env w (Item a) = Some (w', ret) \<Longrightarrow> ep_step env w w'"
| removed: "ep_items w a = Some it \<Longrightarrow> repoll_remove env w (Item a) = Some (w', ret) \<Longrightarrow>
    ep_step env w (sys_close (w'\<lparr>ep_items := (ep_items w')(a := None)\<rparr>) (ri_fd it))"
| polled: "repoll_poll env w = Some (w', ret) \<Longrightarrow> ep_step env w w'"

inductive ep_reach :: "net_env \<Rightarrow> epworld \<Rightarrow> epworld \<Rightarrow> bool" for env :: net_env and w0 :: epworld where
  start: "repoll_create env w0 sz = (w, rcode_ok) \<Longrightarrow> ep_reach env w0 w"
| step: "ep_reach env w0 w \<Longrightarrow> ep_step env w w' \<Longrightarrow> ep_reach env w0 w'"

lemma reg_okD: "reg_ok w \<Longrightarrow> nw_reg w fd = Some (ev, p) \<Longrightarrow>
    \<exists>a it. p = Item a \<and> ep_items w a = Some it \<and> ri_fd it = fd"
  by (simp add: reg_ok_def)

lemma tick_ep [simp]:
  "ep_items (tick w) = ep_items w" "ep_dest (tick w) = ep_dest w" "ep_dest_count (tick w) = ep_dest_count w"
  "ep_amount (tick w) = ep_amount w" "ep_fd (tick w) = ep_fd w" "ep_next (tick w) = ep_next w"
  for w :: "'a epworld_scheme" by (simp_all add: tick_def)

text \<open>The call changes one entry of the interest list, or none.\<close>

lemma epoll_ctl_reg:
  fixes w :: "'a epworld_scheme"
  assumes "sys_epoll_ctl env w epfd ctl fd ev p = (w', e)"
  shows "(nw_reg w' = nw_reg w \<or> nw_reg w' = (nw_reg w)(fd \<mapsto> (ev, p)) \<and> ctl \<noteq> EPOLL_CTL_DEL \<or>
      nw_reg w' = (nw_reg w)(fd := None)) \<and> (ctl = EPOLL_CTL_DEL \<and> e = 0 \<longrightarrow> nw_reg w' = (nw_reg w)(fd := None)) \<and>
    ep_items w' = ep_items w \<and> ep_dest w' = ep_dest w \<and>
    ep_dest_count w' = ep_dest_count w \<and> ep_amount w' = ep_amount w \<and> ep_fd w' = ep_fd w"
  using assms unfolding sys_epoll_ctl_def Let_def
  by (cases ctl) (simp_all split: if_splits, auto)

lemma reg_ok_ctl:
  assumes "sys_epoll_ctl env w epfd ctl (ri_fd it) ev (Item a) = (w', e)" "ep_items w a = Some it" "reg_ok w"
  shows "reg_ok w'"
  unfolding reg_ok_def
proof (intro allI impI)
  note C = epoll_ctl_reg [OF assms(1)]
  fix fd ev' p assume r: "nw_reg w' fd = Some (ev', p)"
  have items: "ep_items w' = ep_items w" using C by blast
  have "nw_reg w fd = Some (ev', p) \<or> fd = ri_fd it \<and> p = Item a"
    using C r by (auto split: if_splits)
  then show "\<exists>a it. p = Item a \<and> ep_items w' a = Some it \<and> ri_fd it = fd"
    using reg_okD [OF assms(3)] assms(2) items by auto
qed

lemma dest_ok_cong: "ep_dest w' = ep_dest w \<Longrightarrow> ep_dest_count w' = ep_dest_count w \<Longrightarrow>
    ep_amount w' = ep_amount w \<Longrightarrow> dest_ok w \<Longrightarrow> dest_ok w'"
  by (auto simp: dest_ok_def split: option.splits)

lemma repoll_ctl_inv:
  assumes "repoll_ctl env w ctl (Item a) = Some (w', ret)" "reg_ok w" "dest_ok w"
  shows "reg_ok w' \<and> dest_ok w'"
proof -
  obtain it where it: "ep_items w a = Some it"
      "sys_epoll_ctl env w (ep_fd w) ctl (ri_fd it) (ucast (repoll_get_event_req (ri_req it))) (Item a) = (w', ret)"
    using assms(1) by (auto simp: repoll_ctl_def item_at_def bind_eq_Some_conv)
  show ?thesis
    using reg_ok_ctl [OF it(2,1) assms(2)] epoll_ctl_reg [OF it(2)] dest_ok_cong assms(3) by blast
qed


lemma find_dest_cases:
  assumes "n \<le> length ds" "\<forall>i<n. ds ! i \<noteq> None"
  shows "find_dest fd n ds = Some None \<and> (\<forall>i<n. ri_fd (the (ds ! i)) \<noteq> fd) \<or>
    (\<exists>i<n. find_dest fd n ds = Some (Some i) \<and> ri_fd (the (ds ! i)) = fd)"
  using assms
proof (induction fd n ds rule: find_dest.induct)
  case (3 fd n d ds)
  from "3.prems"(2) [rule_format, of 0] obtain it where d: "d = Some it" by auto
  show ?case
  proof (cases "ri_fd it = fd")
    case False
    have "find_dest fd n ds = Some None \<and> (\<forall>i<n. ri_fd (the (ds ! i)) \<noteq> fd) \<or>
        (\<exists>i<n. find_dest fd n ds = Some (Some i) \<and> ri_fd (the (ds ! i)) = fd)"
      using "3.IH" [OF d False] "3.prems" by fastforce
    then show ?thesis using d False by (force simp: less_Suc_eq_0_disj)
  qed (use d in auto)
qed auto

text \<open>A removal returns once the container has been polled, and takes a pending result out.\<close>

lemma repoll_remove_cases:
  fixes w :: "'a epworld_scheme"
  assumes it: "ep_items w a = Some it" and ok: "dest_ok w" and n: "ep_dest_count w = Some n"
  shows "\<exists>w' e. sys_epoll_ctl env w (ep_fd w) EPOLL_CTL_DEL (ri_fd it) 0 (Item a) = (w', e) \<and>
    (if e \<noteq> 0 then repoll_remove env w (Item a) = Some (w', -1)
     else repoll_remove env w (Item a) = Some (w', rcode_ok) \<and> (\<forall>i < nat n. ri_fd (the (ep_dest w ! i)) \<noteq> ri_fd it) \<or>
       (\<exists>i < nat n. ri_fd (the (ep_dest w ! i)) = ri_fd it \<and> repoll_remove env w (Item a) =
         Some (w'\<lparr>ep_dest := (ep_dest w)[i := Some ((the (ep_dest w ! i))\<lparr>ri_fd := 0\<rparr>)]\<rparr>, rcode_ok)))"
proof -
  obtain w' e where c: "sys_epoll_ctl env w (ep_fd w) EPOLL_CTL_DEL (ri_fd it) 0 (Item a) = (w', e)" by fastforce
  have eq: "ep_dest w' = ep_dest w" "ep_dest_count w' = Some n" using epoll_ctl_reg [OF c] n by auto
  have D: "nat n \<le> length (ep_dest w)" "\<forall>i < nat n. ep_dest w ! i \<noteq> None" using ok n by (auto simp: dest_ok_def)
  show ?thesis
  proof (cases "e = 0")
    case False
    then show ?thesis using c it by (simp add: repoll_remove_def item_at_def)
  next
    case True
    from find_dest_cases [OF D, of "ri_fd it"] show ?thesis
    proof
      assume a: "find_dest (ri_fd it) (nat n) (ep_dest w) = Some None \<and> (\<forall>i < nat n. ri_fd (the (ep_dest w ! i)) \<noteq> ri_fd it)"
      then have "repoll_remove env w (Item a) = Some (w', rcode_ok)"
        using c it True eq by (simp add: repoll_remove_def item_at_def)
      then show ?thesis using a c True by simp
    next
      assume "\<exists>i < nat n. find_dest (ri_fd it) (nat n) (ep_dest w) = Some (Some i) \<and> ri_fd (the (ep_dest w ! i)) = ri_fd it"
      then obtain i where i: "i < nat n" "find_dest (ri_fd it) (nat n) (ep_dest w) = Some (Some i)"
          "ri_fd (the (ep_dest w ! i)) = ri_fd it" by blast
      obtain d where d: "ep_dest w ! i = Some d" using D(2) i(1) by blast
      have "repoll_remove env w (Item a) = Some (w'\<lparr>ep_dest := (ep_dest w)[i := Some (d\<lparr>ri_fd := 0\<rparr>)]\<rparr>, rcode_ok)"
        using c it True eq i(2) d by (simp add: repoll_remove_def item_at_def)
      then show ?thesis using i(1,3) c True d by auto
    qed
  qed
qed

lemma repoll_remove_shape:
  fixes w :: "'a epworld_scheme"
  assumes "repoll_remove env w (Item a) = Some (w', ret)" "ep_items w a = Some it"
  obtains w1 e where "sys_epoll_ctl env w (ep_fd w) EPOLL_CTL_DEL (ri_fd it) 0 (Item a) = (w1, e)"
    "w' = w1 \<or> (\<exists>i. w' = w1\<lparr>ep_dest := (ep_dest w1)[i := map_option (\<lambda>d. d\<lparr>ri_fd := 0\<rparr>) (ep_dest w1 ! i)]\<rparr>)"
proof -
  obtain w1 e where c: "sys_epoll_ctl env w (ep_fd w) EPOLL_CTL_DEL (ri_fd it) 0 (Item a) = (w1, e)" by fastforce
  show ?thesis
  proof (cases "e = 0")
    case False
    then have "w' = w1" using assms c by (simp add: repoll_remove_def item_at_def)
    then show ?thesis using that [OF c] by blast
  next
    case True
    then obtain r where "w' = (case r of None \<Rightarrow> w1
        | Some i \<Rightarrow> w1\<lparr>ep_dest := (ep_dest w1)[i := map_option (\<lambda>d. d\<lparr>ri_fd := 0\<rparr>) (ep_dest w1 ! i)]\<rparr>)"
      using assms c by (auto simp: repoll_remove_def item_at_def bind_eq_Some_conv)
    then show ?thesis using that [OF c] by (cases r) auto
  qed
qed

lemma dest_ok_clear: "dest_ok w \<Longrightarrow> dest_ok (w\<lparr>ep_dest := (ep_dest w)[i := map_option f (ep_dest w ! i)]\<rparr>)"
  by (cases "i < length (ep_dest w)")
    (auto simp: dest_ok_def nth_list_update split: option.splits)

lemma close_reg_ok:
  assumes "\<forall>fd ev p. nw_reg w fd = Some (ev, p) \<and> fd \<noteq> x \<longrightarrow>
    (\<exists>a it. p = Item a \<and> ep_items w a = Some it \<and> ri_fd it = fd)"
  shows "reg_ok (sys_close w x)"
  using assms by (auto simp: reg_ok_def sys_close_def tick_def)

lemma removed_inv:
  assumes it: "ep_items w a = Some it" and rm: "repoll_remove env w (Item a) = Some (w', ret)"
    and ok: "reg_ok w" "dest_ok w"
  shows "reg_ok (sys_close (w'\<lparr>ep_items := (ep_items w')(a := None)\<rparr>) (ri_fd it)) \<and>
    dest_ok (sys_close (w'\<lparr>ep_items := (ep_items w')(a := None)\<rparr>) (ri_fd it))"
proof -
  from rm it obtain w1 e where c: "sys_epoll_ctl env w (ep_fd w) EPOLL_CTL_DEL (ri_fd it) 0 (Item a) = (w1, e)"
    and s: "w' = w1 \<or> (\<exists>i. w' = w1\<lparr>ep_dest := (ep_dest w1)[i := map_option (\<lambda>d. d\<lparr>ri_fd := 0\<rparr>) (ep_dest w1 ! i)]\<rparr>)"
    by (rule repoll_remove_shape)
  have w': "nw_reg w' = nw_reg w1" "ep_items w' = ep_items w1" using s by auto
  note C = epoll_ctl_reg [OF c]
  have "dest_ok w1" using C dest_ok_cong ok(2) by blast
  then have "dest_ok w'" using s dest_ok_clear by blast
  then have 1: "dest_ok (sys_close (w'\<lparr>ep_items := (ep_items w')(a := None)\<rparr>) (ri_fd it))"
    by (rule dest_ok_cong [rotated 3]) (simp_all add: sys_close_def)
  have "reg_ok w1" using reg_ok_ctl [OF c it ok(1)] .
  then have "\<forall>fd ev p. nw_reg w' fd = Some (ev, p) \<and> fd \<noteq> ri_fd it \<longrightarrow>
      (\<exists>b jt. p = Item b \<and> b \<noteq> a \<and> ep_items w' b = Some jt \<and> ri_fd jt = fd)"
    using C it w'(1,2) unfolding reg_ok_def by (metis option.inject)
  then have "reg_ok (sys_close (w'\<lparr>ep_items := (ep_items w')(a := None)\<rparr>) (ri_fd it))"
    by (intro close_reg_ok) fastforce
  with 1 show ?thesis by blast
qed


section \<open>Polling\<close>

definition polled_item :: "'a epworld_scheme \<Rightarrow> 32 word \<times> item_ptr \<Rightarrow> repoll_item option" where
  "polled_item w x = (case x of (ev, p) \<Rightarrow>
    map_option (\<lambda>it. it\<lparr>ri_rsp := repoll_get_event_rsp (ucast ev)\<rparr>) (item_at w p))"

lemma poll_copy_items:
  assumes "\<forall>x \<in> set evs. \<exists>a. snd x = Item a \<and> ep_items w a \<noteq> None" "i + length evs \<le> length (ep_dest w)"
  shows "poll_copy i evs w =
    Some (w\<lparr>ep_dest := take i (ep_dest w) @ map (polled_item w) evs @ drop (i + length evs) (ep_dest w)\<rparr>)"
  using assms
proof (induction i evs w rule: poll_copy.induct)
  case (2 i ev p evs w)
  obtain a it where p: "p = Item a" "ep_items w a = Some it" using "2.prems"(1) by auto
  define w1 where "w1 = w\<lparr>ep_dest := (ep_dest w)[i := Some (it\<lparr>ri_rsp := repoll_get_event_rsp (ucast ev)\<rparr>)]\<rparr>"
  have it: "item_at w p = Some it" using p by (simp add: item_at_def)
  have i: "i < length (ep_dest w)" using "2.prems"(2) by simp
  have "poll_copy (Suc i) evs w1 =
      Some (w1\<lparr>ep_dest := take (Suc i) (ep_dest w1) @ map (polled_item w1) evs @ drop (Suc i + length evs) (ep_dest w1)\<rparr>)"
    unfolding w1_def using "2.prems" by (intro "2.IH" [OF it]) auto
  moreover have "map (polled_item w1) evs = map (polled_item w) evs"
    using "2.prems"(1) by (auto simp: polled_item_def item_at_def w1_def split: prod.splits)
  moreover have "take (Suc i) (ep_dest w1) = take i (ep_dest w) @ [polled_item w (ev, p)]"
    using i it by (simp add: w1_def take_Suc_conv_app_nth polled_item_def)
  moreover have "drop (Suc i + length evs) (ep_dest w1) = drop (Suc i + length evs) (ep_dest w)"
    by (simp add: w1_def)
  moreover have "poll_copy i ((ev, p) # evs) w = poll_copy (Suc i) evs w1" using it by (simp add: w1_def)
  ultimately show ?case by (simp add: w1_def)
qed simp

lemma ready_events_reg:
  assumes "(hit, p) \<in> set (ready_events w evs)"
  shows "\<exists>fd req. nw_reg w fd = Some (req, p) \<and> hit AND (req OR 0x18) = hit \<and> hit \<noteq> 0"
proof -
  obtain fd ev where x: "(fd, ev) \<in> set evs" "(hit, p) \<in> set (case nw_reg w fd of None \<Rightarrow> []
      | Some (req, p) \<Rightarrow> (let hit = ev AND (req OR 0x18) in if hit = 0 then [] else [(hit, p)]))"
    using assms unfolding ready_events_def by auto
  then obtain y where "nw_reg w fd = Some y" by (cases "nw_reg w fd") auto
  with x(2) obtain req where "nw_reg w fd = Some (req, p)" "hit = ev AND (req OR 0x18)" "hit \<noteq> 0"
    by (cases y) (auto simp: Let_def split: if_splits)
  then show ?thesis by (intro exI [of _ fd] exI [of _ req]) (simp add: and.assoc)
qed

lemma repoll_poll_cases:
  assumes reg: "reg_ok w" and dest: "dest_ok w"
  shows "\<exists>w' ret. repoll_poll env w = Some (w', ret) \<and> dest_ok w' \<and>
    nw_reg w' = nw_reg w \<and> ep_items w' = ep_items w \<and>
    (case snd (sys_epoll_wait env w (ep_fd w) (ep_amount w)) of
       Err e \<Rightarrow> ep_dest_count w' = Some 0 \<and> ret = (if e = EINTR then rcode_ok else e)
     | Ret evs \<Rightarrow> ret = rcode_ok \<and> ep_dest_count w' = Some (int (length evs)) \<and>
         take (length evs) (ep_dest w') = map (polled_item w) evs \<and>
         (\<forall>(ev, p) \<in> set evs. \<exists>a it req. p = Item a \<and> ep_items w a = Some it \<and> nw_reg w (ri_fd it) = Some (req, p) \<and>
           ev AND (req OR 0x18) = ev \<and> ev \<noteq> 0))"
proof -
  obtain w1 ans where wt: "sys_epoll_wait env w (ep_fd w) (ep_amount w) = (w1, ans)" by fastforce
  have w1: "w1 = tick w" using wt by (simp add: sys_epoll_wait_def)
  show ?thesis
  proof (cases ans)
    case (Err e)
    have "dest_ok (w1\<lparr>ep_dest_count := Some 0\<rparr>)" using dest by (auto simp: dest_ok_def w1 split: option.splits)
    then show ?thesis using wt Err w1 by (simp add: repoll_poll_def)
  next
    case (Ret evs)
    obtain l where l0: "0 < ep_amount w" "evs = take (nat (ep_amount w)) (ready_events w l)"
      using wt Ret unfolding sys_epoll_wait_def by (auto split: if_splits answer.splits)
    then have len: "int (length evs) \<le> ep_amount w" "\<forall>x \<in> set evs. \<exists>l. x \<in> set (ready_events w l)"
      by (auto dest: in_set_takeD)
    have evs: "\<forall>(ev, p) \<in> set evs. \<exists>a it req. p = Item a \<and> ep_items w a = Some it \<and>
        nw_reg w (ri_fd it) = Some (req, p) \<and> ev AND (req OR 0x18) = ev \<and> ev \<noteq> 0"
    proof (intro ballI, clarify)
      fix ev p assume "(ev, p) \<in> set evs"
      then obtain l where "(ev, p) \<in> set (ready_events w l)" using len(2) by blast
      from ready_events_reg [OF this] obtain fd req where
        r: "nw_reg w fd = Some (req, p)" "ev AND (req OR 0x18) = ev" "ev \<noteq> 0" by blast
      from reg_okD [OF reg r(1)] r show "\<exists>a it req. p = Item a \<and> ep_items w a = Some it \<and>
        nw_reg w (ri_fd it) = Some (req, p) \<and> ev AND (req OR 0x18) = ev \<and> ev \<noteq> 0" by blast
    qed
    show ?thesis
    proof (cases "evs = []")
      case True
      have "dest_ok (w1\<lparr>ep_dest_count := Some 0\<rparr>)" using dest by (auto simp: dest_ok_def w1 split: option.splits)
      then show ?thesis using wt Ret w1 True by (simp add: repoll_poll_def)
    next
      case False
      define D where "D = map (polled_item w) evs @ drop (length evs) (ep_dest w)"
      have l: "length evs \<le> length (ep_dest w)" using len(1) dest by (simp add: dest_ok_def)
      have P: "polled_item w1 = polled_item w"
        by (rule ext) (simp add: polled_item_def item_at_def w1 split: prod.splits item_ptr.splits)
      have live: "\<forall>x \<in> set evs. \<exists>a. snd x = Item a \<and> ep_items w a \<noteq> None" using evs by force
      have "poll_copy 0 evs w1 = Some (w1\<lparr>ep_dest := D\<rparr>)"
        using poll_copy_items [of evs w1 0] live l P by (simp add: w1 D_def)
      then have p: "repoll_poll env w = Some (w1\<lparr>ep_dest := D, ep_dest_count := Some (int (length evs))\<rparr>, rcode_ok)"
        using wt Ret False by (simp add: repoll_poll_def)
      have "\<forall>i < length evs. D ! i \<noteq> None"
      proof (intro allI impI)
        fix i assume i: "i < length evs"
        from live nth_mem [OF i] obtain a it where "snd (evs ! i) = Item a" "ep_items w a = Some it" by blast
        then show "D ! i \<noteq> None" using i 
          by (cases "evs ! i") (simp add: D_def nth_append polled_item_def item_at_def)
      qed
      then have "dest_ok (w1\<lparr>ep_dest := D, ep_dest_count := Some (int (length evs))\<rparr>)"
        using dest len(1) l by (simp add: dest_ok_def w1 D_def)
      then show ?thesis using p wt Ret evs by (simp add: w1 D_def)
    qed
  qed
qed


section \<open>Properties\<close>

lemma rsp_events:
  "repoll_check_event_in (repoll_get_event_rsp e) \<longleftrightarrow> e AND EPOLLIN \<noteq> 0 \<or> e AND EPOLLPRI \<noteq> 0"
  "repoll_check_event_out (repoll_get_event_rsp e) \<longleftrightarrow> e AND EPOLLOUT \<noteq> 0"
  "repoll_check_event_err (repoll_get_event_rsp e) \<longleftrightarrow> e AND EPOLLERR \<noteq> 0"
  unfolding repoll_get_event_rsp_def repoll_check_event_in_def repoll_check_event_out_def repoll_check_event_err_def
  by (cases "e AND EPOLLIN = 0"; cases "e AND EPOLLPRI = 0"; cases "e AND EPOLLOUT = 0"; cases "e AND EPOLLERR = 0";
      cases "e AND EPOLLHUP = 0"; simp)+

text \<open>The documented answers of \<open>epoll_create\<close>.\<close>

definition epoll_answers :: "net_env \<Rightarrow> bool" where
  "epoll_answers env \<longleftrightarrow> (\<forall>t. case ne_epoll env t of Ret fd \<Rightarrow> 0 \<le> fd | Err e \<Rightarrow> e \<noteq> 0)"

lemma unat_sint: "0 < sint sz \<Longrightarrow> int (unat sz) = sint sz" for sz :: "32 word"
  using sint_lt [of sz] by (simp add: uint_sint take_bit_int_eq_self)

lemma repoll_create_ok:
  assumes "repoll_create env w0 sz = (w, rcode_ok)" "epoll_answers env"
  shows "nw_reg w = nw_reg w0 \<and> ep_dest_count w = ep_dest_count w0 \<and> ep_amount w = int (length (ep_dest w))"
proof (cases "ne_epoll env (nw_tick w0)")
  case (Ret fd)
  then have "0 \<le> fd" using assms(2) by (metis epoll_answers_def answer.simps(5))
  then show ?thesis using assms(1) Ret unat_sint [of sz]
    by (auto simp: repoll_create_def sys_open_def sys_close_def Let_def split: if_splits)
next
  case (Err e)
  then have "e \<noteq> 0" using assms(2) by (metis epoll_answers_def answer.simps(6))
  then show ?thesis using assms(1) Err by (auto simp: repoll_create_def sys_open_def split: if_splits)
qed

lemma ep_reach_inv:
  assumes "epoll_answers env" "nw_reg w0 = Map.empty" "ep_dest_count w0 = None"
  shows "ep_reach env w0 w \<Longrightarrow> reg_ok w \<and> dest_ok w"
proof (induction rule: ep_reach.induct)
  case (start sz w)
  then have "nw_reg w = Map.empty \<and> ep_dest_count w = None \<and> ep_amount w = int (length (ep_dest w))"
    using repoll_create_ok [OF start assms(1)] assms(2,3) by simp
  then show ?case by (simp add: reg_ok_def dest_ok_def)
next
  case (step w w')
  from step.IH have ok: "reg_ok w" "dest_ok w" by auto
  from step.hyps(2) show ?case
  proof (cases rule: ep_step.cases)
    case (opened ans fd e)
    then have "nw_reg w' = nw_reg w \<and> ep_items w' = ep_items w \<and> ep_dest w' = ep_dest w \<and>
        ep_dest_count w' = ep_dest_count w \<and> ep_amount w' = ep_amount w"
      by (auto simp: sys_open_def tick_def split: answer.splits)
    then show ?thesis using ok dest_ok_cong [of w' w] by (simp add: reg_ok_def)
  next
    case (created a it)
    have "dest_ok w'" using created by (intro dest_ok_cong [OF _ _ _ ok(2)]) auto
    then show ?thesis using ok(1) created by (force simp: reg_ok_def)
  next
    case (masked a it req)
    have "dest_ok w'" using masked by (intro dest_ok_cong [OF _ _ _ ok(2)]) auto
    then show ?thesis using ok(1) masked by (force simp: reg_ok_def)
  next
    case (added a ret)
    then show ?thesis using repoll_ctl_inv [OF _ ok] by (simp add: repoll_add_def)
  next
    case (modified a ret)
    then show ?thesis using repoll_ctl_inv [OF _ ok] by (simp add: repoll_modify_def)
  next
    case (removed a it w1 ret)
    then show ?thesis using removed_inv ok by blast
  next
    case (polled ret)
    obtain u r where u: "repoll_poll env w = Some (u, r)" "dest_ok u" "nw_reg u = nw_reg w" "ep_items u = ep_items w"
      using repoll_poll_cases [OF ok] by metis
    have "reg_ok u" using ok(1) u(3,4) by (simp add: reg_ok_def)
    then show ?thesis using u polled by simp
  qed
qed


text \<open>What \<open>repoll_create\<close> leaves to a program that has no container yet.\<close>

lemma create_container:
  fixes w :: "'a epworld_scheme"
  assumes w: "nw_reg w = Map.empty" "-1 \<notin> nw_open w" "ep_dest_count w = None"
    and c: "repoll_create env w sz = (w', rcode_ok)" "epoll_answers env"
  shows "nw_reg w' = Map.empty" "-1 \<notin> nw_open w'" "dest_ok w'" "ep_dest_count w' = None" "ep_items w' = ep_items w"
    "epworld.more w' = epworld.more w"
proof -
  obtain w1 fd e where o: "sys_open (ne_epoll env (nw_tick w)) w = (w1, fd, e)" by (cases "sys_open (ne_epoll env (nw_tick w)) w")
  have sz: "0 < sint sz" using c(1) by (auto simp: repoll_create_def split: if_splits)
  have 1: "nw_reg w1 = Map.empty" "fd \<noteq> -1 \<longrightarrow> -1 \<notin> nw_open w1" "ep_items w1 = ep_items w" "epworld.more w1 = epworld.more w"
    using o w by (auto simp: sys_open_def tick_def split: answer.splits)
  have "fd = -1 \<longrightarrow> e \<noteq> 0"
    using o spec [OF c(2) [unfolded epoll_answers_def], of "nw_tick w"]
    by (cases "ne_epoll env (nw_tick w)") (auto simp: sys_open_def)
  with c(1) o sz repoll_create_ok [OF c] w 1 show "nw_reg w' = Map.empty" "-1 \<notin> nw_open w'" "dest_ok w'" "ep_dest_count w' = None"
    "ep_items w' = ep_items w" "epworld.more w' = epworld.more w"
    by (auto simp: repoll_create_def Let_def tick_def dest_ok_def split: if_splits)
qed

lemma poll_copy_amount: "poll_copy i evs w = Some w' \<Longrightarrow> ep_amount w' = ep_amount w"
  by (induction i evs w rule: poll_copy.induct) (auto simp: bind_eq_Some_conv)

lemma repoll_poll_amount: "repoll_poll env w = Some (w', ret) \<Longrightarrow> ep_amount w' = ep_amount w"
  by (auto simp: repoll_poll_def sys_epoll_wait_def bind_eq_Some_conv dest: poll_copy_amount
      split: answer.splits if_splits)

lemma ucast_bit: "ucast ev AND (2 ^ k :: 16 word) \<noteq> 0 \<longleftrightarrow> ev AND 2 ^ k \<noteq> (0 :: 32 word)" if "k < 16"
  using that by (simp add: and_exp_eq_0_iff_not_bit bit_ucast_iff)

lemma rsp_events32:
  fixes ev :: "32 word"
  shows "repoll_check_event_in (repoll_get_event_rsp (ucast ev)) \<longleftrightarrow> ev AND EPOLLIN \<noteq> 0 \<or> ev AND EPOLLPRI \<noteq> 0"
    "repoll_check_event_out (repoll_get_event_rsp (ucast ev)) \<longleftrightarrow> ev AND EPOLLOUT \<noteq> 0"
    "repoll_check_event_err (repoll_get_event_rsp (ucast ev)) \<longleftrightarrow> ev AND EPOLLERR \<noteq> 0"
  using ucast_bit [of 0 ev] ucast_bit [of 1 ev] ucast_bit [of 2 ev] ucast_bit [of 3 ev] by (simp_all add: rsp_events)

lemma item_ops_return:
  assumes "ep_items w a = Some it" "dest_ok w"
  shows "repoll_add env w (Item a) \<noteq> None \<and> repoll_modify env w (Item a) \<noteq> None \<and>
    (if ep_dest_count w = None
     then repoll_check w (Item a) = None \<and>
       (repoll_remove env w (Item a) = None \<longleftrightarrow>
         snd (sys_epoll_ctl env w (ep_fd w) EPOLL_CTL_DEL (ri_fd it) 0 (Item a)) = 0)
     else repoll_check w (Item a) \<noteq> None \<and> repoll_remove env w (Item a) \<noteq> None)"
proof -
  have 1: "repoll_add env w (Item a) \<noteq> None" "repoll_modify env w (Item a) \<noteq> None"
    using assms(1) by (simp_all add: repoll_add_def repoll_modify_def repoll_ctl_def item_at_def)
  show ?thesis
  proof (cases "ep_dest_count w")
    case None
    obtain w1 e where c: "sys_epoll_ctl env w (ep_fd w) EPOLL_CTL_DEL (ri_fd it) 0 (Item a) = (w1, e)" by fastforce
    have "ep_dest_count w1 = None" using epoll_ctl_reg [OF c] None by simp
    then show ?thesis using 1 None c assms(1) by (simp add: repoll_check_def repoll_remove_def item_at_def)
  next
    case (Some n)
    have D: "nat n \<le> length (ep_dest w)" "\<forall>i < nat n. ep_dest w ! i \<noteq> None"
      using assms(2) Some by (auto simp: dest_ok_def)
    have "repoll_check w (Item a) \<noteq> None"
      using find_dest_cases [OF D, of "ri_fd it"] Some assms(1) by (auto simp: repoll_check_def item_at_def)
    moreover have "repoll_remove env w (Item a) \<noteq> None"
      using repoll_remove_cases [OF assms Some, of env] by (metis option.distinct(1))
    ultimately show ?thesis using 1 Some by simp
  qed
qed

lemma poll_results:
  assumes ok: "reg_ok w" "dest_ok w"
  shows "\<exists>w' ret n. repoll_poll env w = Some (w', ret) \<and> ep_dest_count w' = Some n \<and> 0 \<le> n \<and> n \<le> ep_amount w \<and>
      (if n = 0 then True else ret = rcode_ok) \<and> ret \<noteq> EINTR \<and>
      (\<forall>i < nat n. \<exists>a it ev req. ep_items w a = Some it \<and> nw_reg w (ri_fd it) = Some (req, Item a) \<and>
        ep_dest w' ! i = Some (it\<lparr>ri_rsp := repoll_get_event_rsp (ucast ev)\<rparr>) \<and> ev \<noteq> 0 \<and> ev AND (req OR 0x18) = ev)"
proof -
  obtain w' ret where p: "repoll_poll env w = Some (w', ret)" "dest_ok w'"
    and c: "case snd (sys_epoll_wait env w (ep_fd w) (ep_amount w)) of
       Err e \<Rightarrow> ep_dest_count w' = Some 0 \<and> ret = (if e = EINTR then rcode_ok else e)
     | Ret evs \<Rightarrow> ret = rcode_ok \<and> ep_dest_count w' = Some (int (length evs)) \<and>
         take (length evs) (ep_dest w') = map (polled_item w) evs \<and>
         (\<forall>(ev, p) \<in> set evs. \<exists>a it req. p = Item a \<and> ep_items w a = Some it \<and> nw_reg w (ri_fd it) = Some (req, p) \<and>
           ev AND (req OR 0x18) = ev \<and> ev \<noteq> 0)"
    using repoll_poll_cases [OF ok, of env] by (elim exE conjE) (rule that; assumption)
  have am: "ep_amount w' = ep_amount w" "0 \<le> ep_amount w" using repoll_poll_amount [OF p(1)] ok(2) by (auto simp: dest_ok_def)
  show ?thesis
  proof (cases "snd (sys_epoll_wait env w (ep_fd w) (ep_amount w))")
    case (Err e)
    then show ?thesis using p c am by (intro exI [of _ w'] exI [of _ ret] exI [of _ 0]) auto
  next
    case (Ret evs)
    note c = c [unfolded Ret answer.case]
    have len: "length evs \<le> length (ep_dest w')" "int (length evs) \<le> ep_amount w"
      using p(2) conjunct1 [OF conjunct2 [OF c]] am by (simp_all add: dest_ok_def)
    have "\<exists>a it ev req. ep_items w a = Some it \<and> nw_reg w (ri_fd it) = Some (req, Item a) \<and>
        ep_dest w' ! i = Some (it\<lparr>ri_rsp := repoll_get_event_rsp (ucast ev)\<rparr>) \<and> ev \<noteq> 0 \<and> ev AND (req OR 0x18) = ev"
      if i: "i < length evs" for i
    proof -
      obtain ev q where x: "evs ! i = (ev, q)" by fastforce
      have m: "(ev, q) \<in> set evs" using nth_mem [OF i] x by simp
      obtain a it req where it: "q = Item a" "ep_items w a = Some it" "nw_reg w (ri_fd it) = Some (req, q)"
          "ev AND (req OR 0x18) = ev" "ev \<noteq> 0"
        using bspec [OF conjunct2 [OF conjunct2 [OF conjunct2 [OF c]]] m, unfolded prod.case]
        by (elim exE conjE) (rule that; assumption)
      have "ep_dest w' ! i = take (length evs) (ep_dest w') ! i" using i by simp
      also have "\<dots> = polled_item w (ev, q)" using c i x by simp
      also have "\<dots> = Some (it\<lparr>ri_rsp := repoll_get_event_rsp (ucast ev)\<rparr>)" using it by (simp add: polled_item_def item_at_def)
      finally show ?thesis using it by blast
    qed
    moreover note conjunct1 [OF c] conjunct1 [OF conjunct2 [OF c]]
    ultimately show ?thesis
      using p(1) len(2) by (intro exI [of _ w'] exI [of _ ret] exI [of _ "int (length evs)"]) simp
  qed
qed

text \<open>C18: the container in use.  Start from a container whose creation succeeded and open
descriptors, allocate, change, add, modify, poll and remove items in any order, where an item that is
removed is released and its descriptor closed whatever the removal returned.  Then the kernel points to
allocated items only: polling always returns, its results are copies of the items of ready
descriptors, each with its events translated: readable for \<open>EPOLLIN\<close> or \<open>EPOLLPRI\<close>, writable for
\<open>EPOLLOUT\<close>, failed for \<open>EPOLLERR\<close> only, so that a bare \<open>EPOLLHUP\<close> passes every check unseen.
Interrupted polls count as empty ones.  Adding, modifying and checking an allocated item always returns,
the latter two and removing once the container has been polled; before that a removal that the kernel
accepts reads the count that nobody set.\<close>

theorem repoll_session:
  assumes "epoll_answers env" "nw_reg w0 = Map.empty" "ep_dest_count w0 = None" "ep_reach env w0 w"
  shows "(\<exists>w' ret n. repoll_poll env w = Some (w', ret) \<and> ep_dest_count w' = Some n \<and> 0 \<le> n \<and> n \<le> ep_amount w \<and>
      (if n = 0 then True else ret = rcode_ok) \<and> ret \<noteq> EINTR \<and>
      (\<forall>i < nat n. \<exists>a it ev req. ep_items w a = Some it \<and> nw_reg w (ri_fd it) = Some (req, Item a) \<and>
        ep_dest w' ! i = Some (it\<lparr>ri_rsp := repoll_get_event_rsp (ucast ev)\<rparr>) \<and> ev \<noteq> 0 \<and> ev AND (req OR 0x18) = ev \<and>
        (repoll_check_event_in (repoll_get_event_rsp (ucast ev)) \<longleftrightarrow> ev AND EPOLLIN \<noteq> 0 \<or> ev AND EPOLLPRI \<noteq> 0) \<and>
        (repoll_check_event_out (repoll_get_event_rsp (ucast ev)) \<longleftrightarrow> ev AND EPOLLOUT \<noteq> 0) \<and>
        (repoll_check_event_err (repoll_get_event_rsp (ucast ev)) \<longleftrightarrow> ev AND EPOLLERR \<noteq> 0))) \<and>
    (\<forall>a. if ep_items w a = None then repoll_add env w (Item a) = None
      else repoll_add env w (Item a) \<noteq> None \<and> repoll_modify env w (Item a) \<noteq> None \<and>
        (if ep_dest_count w = None
         then repoll_check w (Item a) = None \<and>
           (repoll_remove env w (Item a) = None \<longleftrightarrow>
             snd (sys_epoll_ctl env w (ep_fd w) EPOLL_CTL_DEL (ri_fd (the (ep_items w a))) 0 (Item a)) = 0)
         else repoll_check w (Item a) \<noteq> None \<and> repoll_remove env w (Item a) \<noteq> None))"
proof -
  have ok: "reg_ok w" "dest_ok w" using ep_reach_inv [OF assms] by auto
  have ops: "if ep_items w a = None then repoll_add env w (Item a) = None
      else repoll_add env w (Item a) \<noteq> None \<and> repoll_modify env w (Item a) \<noteq> None \<and>
        (if ep_dest_count w = None
         then repoll_check w (Item a) = None \<and>
           (repoll_remove env w (Item a) = None \<longleftrightarrow>
             snd (sys_epoll_ctl env w (ep_fd w) EPOLL_CTL_DEL (ri_fd (the (ep_items w a))) 0 (Item a)) = 0)
         else repoll_check w (Item a) \<noteq> None \<and> repoll_remove env w (Item a) \<noteq> None)" for a
    using item_ops_return [OF _ ok(2), of a] by (cases "ep_items w a") (auto simp: repoll_add_def repoll_ctl_def item_at_def)
  show ?thesis
    using poll_results [OF ok, of env] by (intro conjI allI ops) (simp only: rsp_events32 simp_thms)
qed


text \<open>A container that watches one descriptor, on a system that reports a hang-up of it.\<close>

definition demo_ep_env :: net_env where
  "demo_ep_env = \<lparr>ne_clock = int, ne_epoll = (\<lambda>_. Ret 3), ne_fcntl = (\<lambda>_. 0), ne_ctl = (\<lambda>_. 0),
    ne_wait = (\<lambda>_. Ret [(4, 0x10)]), ne_socket = (\<lambda>_. Ret 4), ne_accept = (\<lambda>_. Err EAGAIN), ne_bind = (\<lambda>_. 0),
    ne_listen = (\<lambda>_. 0), ne_connect = (\<lambda>_. 0), ne_sockopt = (\<lambda>_. 0), ne_send = (\<lambda>_. Ret 2),
    ne_recv = (\<lambda>_. Err EAGAIN), ne_behind = 0, ne_junk = 0\<rparr>"

definition demo_epworld :: epworld where
  "demo_epworld = \<lparr>nw_tick = 0, nw_open = {}, nw_nonblock = {}, nw_reg = Map.empty, nw_out = (\<lambda>_. []), nw_opts = [],
    ep_items = Map.empty, ep_next = 1, ep_fd = 0, ep_amount = 0, ep_dest_count = None, ep_dest = []\<rparr>"

definition demo_item :: repoll_item where
  "demo_item = \<lparr>ri_fd = 4, ri_req = repoll_set_event_in 0, ri_rsp = 0, ri_ds = 9\<rparr>"

theorem repoll_session_witness:
  "\<exists>w w' a. ep_reach demo_ep_env demo_epworld w \<and> ep_items w a = Some demo_item \<and>
    nw_reg w 4 = Some (1, Item a) \<and> repoll_poll demo_ep_env w = Some (w', rcode_ok) \<and>
    ep_dest_count w' = Some 1 \<and>
    (\<exists>r. ep_dest w' ! 0 = Some r \<and> ri_rsp r = 0x20 \<and> \<not> repoll_check_event_err (ri_rsp r))"
proof -
  let ?e = demo_ep_env
  have two: "replicate 2 x = [x, x]" for x :: "repoll_item option" by (simp add: numeral_2_eq_2)
  obtain w1 where w1: "repoll_create ?e demo_epworld 2 = (w1, rcode_ok)"
      "w1 = demo_epworld\<lparr>nw_tick := 3, nw_open := {3}, ep_fd := 3, ep_amount := 2, ep_dest := [None, None]\<rparr>"
    by (simp add: repoll_create_def sys_open_def demo_ep_env_def demo_epworld_def tick_def Let_def fun_eq_iff two)
  define w2 where "w2 = w1\<lparr>nw_tick := 4, nw_open := {3, 4}\<rparr>"
  have s2: "ep_step ?e w1 w2"
    by (rule ep_step.opened [of "Ret 4" _ _ 4 0])
      (auto simp: w1(2) w2_def sys_open_def tick_def demo_epworld_def fun_eq_iff)
  define w3 where "w3 = w2\<lparr>ep_items := [1 \<mapsto> demo_item]\<rparr>"
  have s3: "ep_step ?e w2 w3"
    using ep_step.created [of w2 1 ?e demo_item] by (simp add: w3_def w2_def w1(2) demo_epworld_def)
  obtain w4 where w4: "repoll_add ?e w3 (Item 1) = Some (w4, 0)"
      "w4 = w3\<lparr>nw_tick := 5, nw_reg := [4 \<mapsto> (1, Item 1)]\<rparr>"
    by (simp add: repoll_add_def repoll_ctl_def item_at_def w3_def w2_def w1(2) demo_epworld_def demo_item_def
      sys_epoll_ctl_def demo_ep_env_def tick_def repoll_get_event_req_def repoll_set_event_in_def Let_def)
  have reach: "ep_reach ?e demo_epworld w4"
    using ep_reach.start [OF w1(1)] s2 s3 ep_step.added [OF w4(1)] ep_reach.step by metis
  have st: "epoll_answers ?e" "nw_reg demo_epworld = Map.empty" "ep_dest_count demo_epworld = None"
    by (simp_all add: epoll_answers_def demo_ep_env_def demo_epworld_def)
  obtain w' ret n where p: "repoll_poll ?e w4 = Some (w', ret)" "ep_dest_count w' = Some n"
    and r: "\<forall>i < nat n. \<exists>a it ev req. ep_items w4 a = Some it \<and> nw_reg w4 (ri_fd it) = Some (req, Item a) \<and>
        ep_dest w' ! i = Some (it\<lparr>ri_rsp := repoll_get_event_rsp (ucast ev)\<rparr>) \<and> ev \<noteq> 0 \<and> ev AND (req OR 0x18) = ev \<and>
        (repoll_check_event_in (repoll_get_event_rsp (ucast ev)) \<longleftrightarrow> ev AND EPOLLIN \<noteq> 0 \<or> ev AND EPOLLPRI \<noteq> 0) \<and>
        (repoll_check_event_out (repoll_get_event_rsp (ucast ev)) \<longleftrightarrow> ev AND EPOLLOUT \<noteq> 0) \<and>
        (repoll_check_event_err (repoll_get_event_rsp (ucast ev)) \<longleftrightarrow> ev AND EPOLLERR \<noteq> 0)"
    using conjunct1 [OF repoll_session [OF st reach]] by (elim exE conjE) (rule that; assumption)
  have items: "ep_items w4 1 = Some demo_item" "nw_reg w4 4 = Some (1, Item 1)"
    by (simp_all add: w4(2) w3_def)
  have q: "repoll_poll ?e w4 = Some (w4\<lparr>nw_tick := 6, ep_dest := [Some (demo_item\<lparr>ri_rsp := 0x20\<rparr>), None], ep_dest_count := Some 1\<rparr>, 0)"
    by (simp add: repoll_poll_def sys_epoll_wait_def ready_events_def item_at_def w4(2) w3_def w2_def w1(2)
      demo_epworld_def demo_ep_env_def tick_def repoll_get_event_rsp_def Let_def)
  then have w': "ret = 0" "n = 1" "ep_dest w' ! 0 = Some (demo_item\<lparr>ri_rsp := 0x20\<rparr>)" using p by auto
  then show ?thesis using reach items p
    by (intro exI [of _ w4] exI [of _ w'] exI [of _ 1]) (simp add: repoll_check_event_err_def)
qed

end
