(* ===== verification/RSocket.thy ===== *)
theory RSocket
  imports RNet
begin

unbundle bit_operations_syntax

text \<open>
  Sockets: the Linux part of \<open>ipc/src/rsocket.c\<close>.  A socket is its descriptor, its cached options and
  the item that \<open>userdata\<close> points to.  The loops that repeat an interrupted system call are partial
  functions: \<open>None\<close> is a loop that never ends.  They are instances of the locale \<open>retry_call\<close>.
\<close>

section \<open>The socket and its options\<close>

abbreviation (input) SOCKET_INVALID :: int where "SOCKET_INVALID \<equiv> -1"
abbreviation (input) rcode_io_unknown :: int where "rcode_io_unknown \<equiv> -3"
abbreviation (input) rcode_io_closed :: int where "rcode_io_closed \<equiv> -2"
abbreviation (input) rcode_io_timeout :: int where "rcode_io_timeout \<equiv> -1"
abbreviation (input) rcode_io_done :: int where "rcode_io_done \<equiv> 0"

abbreviation (input) RSO_LINGER :: "32 word" where "RSO_LINGER \<equiv> 1"
abbreviation (input) RSO_KEEPALIVE :: "32 word" where "RSO_KEEPALIVE \<equiv> 2"
abbreviation (input) RSO_DEBUG :: "32 word" where "RSO_DEBUG \<equiv> 4"
abbreviation (input) RSO_NONBLOCK :: "32 word" where "RSO_NONBLOCK \<equiv> 8"
abbreviation (input) RSO_REUSEADDR :: "32 word" where "RSO_REUSEADDR \<equiv> 0x10"
abbreviation (input) RSO_SNDBUF :: "32 word" where "RSO_SNDBUF \<equiv> 0x20"
abbreviation (input) RSO_RCVBUF :: "32 word" where "RSO_RCVBUF \<equiv> 0x40"
abbreviation (input) RTCP_NODELAY :: "32 word" where "RTCP_NODELAY \<equiv> 0x100"
abbreviation (input) RTCP_DEFER_ACCEPT :: "32 word" where "RTCP_DEFER_ACCEPT \<equiv> 0x800"
abbreviation (input) RSO_BROADCAST :: "32 word" where "RSO_BROADCAST \<equiv> 0x1000"
abbreviation (input) RSO_FREEBIND :: "32 word" where "RSO_FREEBIND \<equiv> 0x2000"

text \<open>\<open>rsocket_t\<close>; the fields that the code never reads are left out.\<close>

record rsocket =
  sk_fd :: int
  sk_options :: "32 word"
  sk_item :: int

text \<open>\<open>rdata_new(rsocket_t)\<close> followed by \<open>fd = SOCKET_INVALID\<close>: the options are not initialised.\<close>

definition new_socket :: "net_env \<Rightarrow> rsocket" where
  "new_socket env = \<lparr>sk_fd = SOCKET_INVALID, sk_options = ne_junk env, sk_item = 0\<rparr>"

definition rsocket_check_option :: "rsocket \<Rightarrow> 32 word \<Rightarrow> bool" where
  "rsocket_check_option s option \<longleftrightarrow> sk_options s AND option = option"

definition rsocket_set_option :: "rsocket \<Rightarrow> 32 word \<Rightarrow> bool \<Rightarrow> rsocket" where
  "rsocket_set_option s option on =
    s\<lparr>sk_options := if on then sk_options s OR option else sk_options s AND NOT option\<rparr>"

definition rsocket_setblocking :: "'a nworld_scheme \<Rightarrow> rsocket \<Rightarrow> 'a nworld_scheme \<times> int" where
  "rsocket_setblocking w s = (w\<lparr>nw_nonblock := nw_nonblock w - {sk_fd s}\<rparr>, rcode_ok)"

definition rsocket_setnonblocking :: "'a nworld_scheme \<Rightarrow> rsocket \<Rightarrow> 'a nworld_scheme \<times> int" where
  "rsocket_setnonblocking w s =
    (w\<lparr>nw_nonblock := nw_nonblock w \<union> (if sk_fd s \<in> nw_open w then {sk_fd s} else {})\<rparr>, rcode_ok)"

text \<open>
  The \<open>switch\<close> of \<open>rsocket_setopt\<close>.  Four options hand the address of the \<open>bool\<close> parameter to the system as
  an \<open>int\<close>, which takes in the three bytes behind it (\<open>ne_behind\<close>).
\<close>

definition flag_at_on :: "net_env \<Rightarrow> bool \<Rightarrow> int" where
  "flag_at_on env on = (if on then 1 else 0) + 256 * int (ne_behind env mod 2 ^ 24)"

definition setopt_switch ::
  "net_env \<Rightarrow> 'a nworld_scheme \<Rightarrow> rsocket \<Rightarrow> 32 word \<Rightarrow> bool \<Rightarrow> 'a nworld_scheme \<times> int" where
  "setopt_switch env w s option on =
    (let flag = (if on then 1 else 0 :: int);
         call = sys_setsockopt env w (sk_fd s);
         changed = (on \<noteq> rsocket_check_option s option);
         same = (w, rcode_io_done)
     in if option = RSO_KEEPALIVE then (if changed then call SO_KEEPALIVE [flag] else same)
        else if option = RSO_DEBUG then (if changed then call SO_DEBUG [flag] else same)
        else if option = RSO_BROADCAST then (if changed then call SO_BROADCAST [flag] else same)
        else if option = RSO_REUSEADDR then (if changed then call SO_REUSEADDR [flag] else same)
        else if option = RSO_SNDBUF then call SO_SNDBUF [flag_at_on env on]
        else if option = RSO_RCVBUF then call SO_RCVBUF [flag_at_on env on]
        else if option = RSO_NONBLOCK then
          (if changed then if on then rsocket_setnonblocking w s else rsocket_setblocking w s else same)
        else if option = RSO_LINGER then (if changed then call SO_LINGER [flag, 30] else same)
        else if option = RTCP_DEFER_ACCEPT then (if changed then call TCP_DEFER_ACCEPT [flag_at_on env on] else same)
        else if option = RTCP_NODELAY then (if changed then call TCP_NODELAY [flag_at_on env on] else same)
        else if option = RSO_FREEBIND then call IP_FREEBIND [flag]
        else (w, rcode_invalid))"

definition rsocket_setopt ::
  "net_env \<Rightarrow> 'a nworld_scheme \<Rightarrow> rsocket \<Rightarrow> 32 word \<Rightarrow> bool \<Rightarrow> 'a nworld_scheme \<times> rsocket \<times> int" where
  "rsocket_setopt env w s option on =
    (case setopt_switch env w s option on of (w1, ret_code) \<Rightarrow>
      if ret_code \<noteq> rcode_ok then (w1, s, ret_code) else (w1, rsocket_set_option s option on, rcode_io_done))"

section \<open>Creating and closing\<close>

definition rsocket_create :: "net_env \<Rightarrow> 'a nworld_scheme \<Rightarrow> rsocket \<Rightarrow> 'a nworld_scheme \<times> rsocket \<times> int" where
  "rsocket_create env w s =
    (case sys_open (ne_socket env (nw_tick w)) w of (w1, fd, e) \<Rightarrow>
      let s1 = s\<lparr>sk_fd := fd\<rparr>
      in if fd \<noteq> SOCKET_INVALID
         then (case rsocket_setopt env w1 s1 RSO_REUSEADDR True of (w2, s2, rv) \<Rightarrow>
           if rv \<noteq> rcode_ok then (w2, s2, rv) else (w2, s2, rcode_io_done))
         else (w1, s1, e))"

definition rsocket_close :: "'a nworld_scheme \<Rightarrow> rsocket \<Rightarrow> 'a nworld_scheme \<times> rsocket \<times> int" where
  "rsocket_close w s =
    (if sk_fd s \<noteq> SOCKET_INVALID then (sys_close w (sk_fd s), s\<lparr>sk_fd := SOCKET_INVALID\<rparr>, rcode_ok)
     else (w, s, rcode_ok))"

text \<open>\<open>rsocket_shutdown\<close> forgets the descriptor without closing it; \<open>e\<close> is what \<open>shutdown\<close> answers.\<close>

definition rsocket_shutdown :: "'a nworld_scheme \<Rightarrow> rsocket option \<Rightarrow> int \<Rightarrow> 'a nworld_scheme \<times> rsocket option \<times> int" where
  "rsocket_shutdown w sp e = (case sp of
     None \<Rightarrow> (w, None, 0)
   | Some s \<Rightarrow> if sk_fd s = SOCKET_INVALID then (w, sp, 0)
       else (tick w, Some (s\<lparr>sk_fd := SOCKET_INVALID\<rparr>), if e = 0 then 0 else -1))"

definition rsocket_bind :: "net_env \<Rightarrow> 'a nworld_scheme \<Rightarrow> rsocket \<Rightarrow> 'a nworld_scheme \<times> int" where
  "rsocket_bind env w s = (tick w, if sk_fd s \<notin> nw_open w then EBADF else ne_bind env (nw_tick w))"

definition rsocket_listen :: "net_env \<Rightarrow> 'a nworld_scheme \<Rightarrow> rsocket \<Rightarrow> 'a nworld_scheme \<times> int" where
  "rsocket_listen env w s = (tick w, if sk_fd s \<notin> nw_open w then EBADF else ne_listen env (nw_tick w))"

section \<open>Connecting and accepting\<close>

text \<open>An interrupted \<open>connect\<close> is asked again, however long it takes.\<close>

partial_function (option) connect_loop :: "net_env \<Rightarrow> 'a nworld_scheme \<Rightarrow> ('a nworld_scheme \<times> int) option" where
  "connect_loop env w =
    (let e = ne_connect env (nw_tick w)
     in if e = 0 then Some (tick w, 0)
        else if e = EINTR then connect_loop env (tick w)
        else Some (tick w, e))"

definition rsocket_connect ::
  "net_env \<Rightarrow> 'a nworld_scheme \<Rightarrow> rsocket \<Rightarrow> rtimeout \<Rightarrow> ('a nworld_scheme \<times> int) option" where
  "rsocket_connect env w s tm =
    (if sk_fd s = SOCKET_INVALID then Some (w, rcode_io_closed)
     else do {
       (w1, e) \<leftarrow> connect_loop env w;
       Some (w1, if e = 0 then rcode_io_done
                 else if rtimeout_done tm (now env w1) then rcode_io_timeout
                 else if e \<noteq> EINPROGRESS \<and> e \<noteq> EAGAIN then e
                 else rcode_io_done)
     })"

text \<open>\<open>rsocket_accept\<close>: the descriptor of the connection (-1 for none) and the code.\<close>

partial_function (option) accept_loop ::
  "net_env \<Rightarrow> rtimeout \<Rightarrow> 'a nworld_scheme \<Rightarrow> ('a nworld_scheme \<times> int \<times> int) option" where
  "accept_loop env tm w =
    (case sys_open (ne_accept env (nw_tick w)) w of (w1, fd, e) \<Rightarrow>
      if fd \<noteq> SOCKET_INVALID then Some (w1, fd, rcode_io_done)
      else if rtimeout_done tm (now env w1) then Some (w1, fd, rcode_io_timeout)
      else if e = EINTR then accept_loop env tm w1
      else if e = EAGAIN then Some (w1, fd, rcode_io_done)
      else Some (w1, fd, e))"

definition rsocket_accept ::
  "net_env \<Rightarrow> 'a nworld_scheme \<Rightarrow> rsocket \<Rightarrow> rsocket \<Rightarrow> rtimeout \<Rightarrow> ('a nworld_scheme \<times> rsocket \<times> int) option" where
  "rsocket_accept env w sock_listen s tm =
    (if sk_fd sock_listen = SOCKET_INVALID then Some (w, s, rcode_io_closed)
     else do { (w1, fd, code) \<leftarrow> accept_loop env tm w; Some (w1, s\<lparr>sk_fd := fd\<rparr>, code) })"

section \<open>Sending and receiving\<close>

text \<open>\<open>*sent\<close> and the code.  A socket that would block counts as done with nothing sent.\<close>

partial_function (option) send_loop ::
  "net_env \<Rightarrow> int \<Rightarrow> bytes \<Rightarrow> rtimeout \<Rightarrow> 'a nworld_scheme \<Rightarrow> ('a nworld_scheme \<times> nat \<times> int) option" where
  "send_loop env fd data tm w =
    (case sys_send env w fd data of
       (w1, Ret n) \<Rightarrow> Some (w1, n, rcode_io_done)
     | (w1, Err e) \<Rightarrow>
         if rtimeout_done tm (now env w1) then Some (w1, 0, rcode_io_timeout)
         else if e = EPIPE then Some (w1, 0, rcode_io_closed)
         else if e = EPROTOTYPE \<or> e = EINTR then send_loop env fd data tm w1
         else if e \<noteq> EAGAIN \<and> e \<noteq> EINPROGRESS then Some (w1, 0, e)
         else Some (w1, 0, rcode_io_done))"

definition rsocket_send ::
  "net_env \<Rightarrow> 'a nworld_scheme \<Rightarrow> rsocket \<Rightarrow> bytes \<Rightarrow> rtimeout \<Rightarrow> ('a nworld_scheme \<times> nat \<times> int) option" where
  "rsocket_send env w s data tm =
    (if sk_fd s = SOCKET_INVALID then Some (w, 0, rcode_io_closed) else send_loop env (sk_fd s) data tm w)"

text \<open>\<open>rsocket_sendto\<close> takes a timeout and never looks at it.\<close>

partial_function (option) sendto_loop ::
  "net_env \<Rightarrow> int \<Rightarrow> bytes \<Rightarrow> 'a nworld_scheme \<Rightarrow> ('a nworld_scheme \<times> nat \<times> int) option" where
  "sendto_loop env fd data w =
    (case sys_send env w fd data of
       (w1, Ret n) \<Rightarrow> Some (w1, n, rcode_io_done)
     | (w1, Err e) \<Rightarrow>
         if e = EPIPE then Some (w1, 0, rcode_io_closed)
         else if e = EPROTOTYPE \<or> e = EINTR then sendto_loop env fd data w1
         else if e \<noteq> EAGAIN \<and> e \<noteq> EINPROGRESS then Some (w1, 0, e)
         else Some (w1, 0, rcode_io_done))"

definition rsocket_sendto ::
  "net_env \<Rightarrow> 'a nworld_scheme \<Rightarrow> rsocket \<Rightarrow> bytes \<Rightarrow> rtimeout \<Rightarrow> ('a nworld_scheme \<times> nat \<times> int) option" where
  "rsocket_sendto env w s data tm =
    (if sk_fd s = SOCKET_INVALID then Some (w, 0, rcode_io_closed) else sendto_loop env (sk_fd s) data w)"

text \<open>The bytes received, \<open>*got\<close> of them, and the code.\<close>

partial_function (option) recv_loop ::
  "net_env \<Rightarrow> nat \<Rightarrow> rtimeout \<Rightarrow> 'a nworld_scheme \<Rightarrow> ('a nworld_scheme \<times> bytes \<times> int) option" where
  "recv_loop env count tm w =
    (case sys_recv env w count of
       (w1, Ret xs) \<Rightarrow> Some (w1, xs, if xs \<noteq> [] then rcode_io_done else rcode_io_closed)
     | (w1, Err e) \<Rightarrow>
         if rtimeout_done tm (now env w1) then Some (w1, [], rcode_io_timeout)
         else if e = EINTR then recv_loop env count tm w1
         else if e \<noteq> EAGAIN \<and> e \<noteq> EINPROGRESS then Some (w1, [], e)
         else Some (w1, [], rcode_io_done))"

definition rsocket_recv ::
  "net_env \<Rightarrow> 'a nworld_scheme \<Rightarrow> rsocket \<Rightarrow> nat \<Rightarrow> rtimeout \<Rightarrow> ('a nworld_scheme \<times> bytes \<times> int) option" where
  "rsocket_recv env w s count tm =
    (if sk_fd s = SOCKET_INVALID then Some (w, [], rcode_io_closed) else recv_loop env count tm w)"

partial_function (option) recvfrom_loop ::
  "net_env \<Rightarrow> nat \<Rightarrow> 'a nworld_scheme \<Rightarrow> ('a nworld_scheme \<times> bytes \<times> int) option" where
  "recvfrom_loop env count w =
    (case sys_recv env w count of
       (w1, Ret xs) \<Rightarrow> Some (w1, xs, if xs \<noteq> [] then rcode_io_done else rcode_io_closed)
     | (w1, Err e) \<Rightarrow>
         if e = EINTR then recvfrom_loop env count w1
         else if e \<noteq> EAGAIN \<and> e \<noteq> EINPROGRESS then Some (w1, [], e)
         else Some (w1, [], rcode_io_done))"

definition rsocket_recvfrom ::
  "net_env \<Rightarrow> 'a nworld_scheme \<Rightarrow> rsocket \<Rightarrow> nat \<Rightarrow> rtimeout \<Rightarrow> ('a nworld_scheme \<times> bytes \<times> int) option" where
  "rsocket_recvfrom env w s count tm =
    (if sk_fd s = SOCKET_INVALID then Some (w, [], rcode_io_closed) else recvfrom_loop env count w)"


section \<open>The loops as repeated calls\<close>

text \<open>What one round of each loop decides.\<close>

definition connect_verdict :: "net_env \<Rightarrow> 'a nworld_scheme \<Rightarrow> ('a nworld_scheme \<times> int) option" where
  "connect_verdict env w =
    (let e = ne_connect env (nw_tick w) in if e = EINTR then None else Some (tick w, e))"

definition accept_verdict ::
  "net_env \<Rightarrow> rtimeout \<Rightarrow> 'a nworld_scheme \<Rightarrow> ('a nworld_scheme \<times> int \<times> int) option" where
  "accept_verdict env tm w =
    (case sys_open (ne_accept env (nw_tick w)) w of (w1, fd, e) \<Rightarrow>
      if fd \<noteq> SOCKET_INVALID then Some (w1, fd, rcode_io_done)
      else if rtimeout_done tm (now env w1) then Some (w1, fd, rcode_io_timeout)
      else if e = EINTR then None
      else if e = EAGAIN then Some (w1, fd, rcode_io_done)
      else Some (w1, fd, e))"

text \<open>Sending: \<open>late\<close> says whether the time is over after the round.\<close>

definition send_verdict ::
  "net_env \<Rightarrow> ('a nworld_scheme \<Rightarrow> bool) \<Rightarrow> int \<Rightarrow> bytes \<Rightarrow> 'a nworld_scheme \<Rightarrow> ('a nworld_scheme \<times> nat \<times> int) option" where
  "send_verdict env late fd data w =
    (case sys_send env w fd data of
       (w1, Ret n) \<Rightarrow> Some (w1, n, rcode_io_done)
     | (w1, Err e) \<Rightarrow>
         if late w1 then Some (w1, 0, rcode_io_timeout)
         else if e = EPIPE then Some (w1, 0, rcode_io_closed)
         else if e = EPROTOTYPE \<or> e = EINTR then None
         else Some (w1, 0, if e \<noteq> EAGAIN \<and> e \<noteq> EINPROGRESS then e else rcode_io_done))"

definition recv_verdict ::
  "net_env \<Rightarrow> ('a nworld_scheme \<Rightarrow> bool) \<Rightarrow> nat \<Rightarrow> 'a nworld_scheme \<Rightarrow> ('a nworld_scheme \<times> bytes \<times> int) option" where
  "recv_verdict env late count w =
    (case sys_recv env w count of
       (w1, Ret xs) \<Rightarrow> Some (w1, xs, if xs \<noteq> [] then rcode_io_done else rcode_io_closed)
     | (w1, Err e) \<Rightarrow>
         if late w1 then Some (w1, [], rcode_io_timeout)
         else if e = EINTR then None
         else Some (w1, [], if e \<noteq> EAGAIN \<and> e \<noteq> EINPROGRESS then e else rcode_io_done))"

lemmas verdict_defs = connect_verdict_def accept_verdict_def send_verdict_def recv_verdict_def

text \<open>From an interrupted round the loop goes on one call later.\<close>

lemma sys_call_err:
  "sys_send env w fd data = (w1, Err e) \<Longrightarrow> w1 = tick w" "sys_recv env w count = (w1, a) \<Longrightarrow> w1 = tick w"
  "sys_open ans w = (w1, -1, EINTR) \<Longrightarrow> w1 = tick w"
  by (auto simp: sys_send_def sys_recv_def sys_open_def split: answer.splits)

lemma funpow_first: "P w \<Longrightarrow> \<exists>k. P ((f ^^ k) w)"
  by (rule exI [of _ 0]) simp

lemma funpow_later: "\<exists>k. P ((f ^^ k) (f w)) \<Longrightarrow> \<exists>k. P ((f ^^ k) w)"
  by (metis funpow_Suc_right o_apply)

interpretation connect_io: retry_call "connect_loop env" "connect_verdict env" tick for env
proof (unfold_locales, goal_cases)
  case (1 w)
  show ?case by (subst connect_loop.simps) (simp add: connect_verdict_def Let_def)
next
  case (2 w r)
  show ?case
  proof (rule connect_loop.raw_induct [where P = "\<lambda>env w r. \<exists>k. connect_verdict env ((tick ^^ k) w) \<noteq> None", OF _ 2], goal_cases)
    case (1 f env w r)
    show ?case
    proof (cases "connect_verdict env w")
      case None
      then have "f env (tick w) = Some r" using 1(2) by (auto simp: connect_verdict_def Let_def dest: sys_call_err split: if_splits answer.splits prod.splits)
      from funpow_later [OF 1(1) [OF this]] show ?thesis .
    qed (rule funpow_first, simp)
  qed
qed

interpretation accept_io: retry_call "accept_loop env tm" "accept_verdict env tm" tick for env tm
proof (unfold_locales, goal_cases)
  case (1 w)
  show ?case
    by (subst accept_loop.simps) (auto simp: accept_verdict_def dest: sys_call_err split: answer.splits prod.splits if_splits)
next
  case (2 w r)
  show ?case
  proof (rule accept_loop.raw_induct [where P = "\<lambda>env tm w r. \<exists>k. accept_verdict env tm ((tick ^^ k) w) \<noteq> None", OF _ 2], goal_cases)
    case (1 f env tm w r)
    show ?case
    proof (cases "accept_verdict env tm w")
      case None
      then have "f env tm (tick w) = Some r" using 1(2) by (auto simp: accept_verdict_def dest: sys_call_err split: if_splits answer.splits prod.splits)
      from funpow_later [OF 1(1) [OF this]] show ?thesis .
    qed (rule funpow_first, simp)
  qed
qed

interpretation send_io: retry_call "send_loop env fd data tm" "send_verdict env (\<lambda>w. rtimeout_done tm (now env w)) fd data" tick for env fd data tm
proof (unfold_locales, goal_cases)
  case (1 w)
  show ?case
    by (subst send_loop.simps) (auto simp: send_verdict_def dest: sys_call_err split: answer.splits prod.splits if_splits)
next
  case (2 w r)
  show ?case
  proof (rule send_loop.raw_induct [where P = "\<lambda>env fd data tm w r. \<exists>k. send_verdict env (\<lambda>w. rtimeout_done tm (now env w)) fd data ((tick ^^ k) w) \<noteq> None", OF _ 2], goal_cases)
    case (1 f env fd data tm w r)
    show ?case
    proof (cases "send_verdict env (\<lambda>w. rtimeout_done tm (now env w)) fd data w")
      case None
      then have "f env fd data tm (tick w) = Some r" using 1(2) by (auto simp: send_verdict_def dest: sys_call_err split: if_splits answer.splits prod.splits)
      from funpow_later [OF 1(1) [OF this]] show ?thesis .
    qed (rule funpow_first, simp)
  qed
qed

interpretation sendto_io: retry_call "sendto_loop env fd data" "send_verdict env (\<lambda>w. False) fd data" tick for env fd data
proof (unfold_locales, goal_cases)
  case (1 w)
  show ?case
    by (subst sendto_loop.simps) (auto simp: send_verdict_def dest: sys_call_err split: answer.splits prod.splits if_splits)
next
  case (2 w r)
  show ?case
  proof (rule sendto_loop.raw_induct [where P = "\<lambda>env fd data w r. \<exists>k. send_verdict env (\<lambda>w. False) fd data ((tick ^^ k) w) \<noteq> None", OF _ 2], goal_cases)
    case (1 f env fd data w r)
    show ?case
    proof (cases "send_verdict env (\<lambda>w. False) fd data w")
      case None
      then have "f env fd data (tick w) = Some r" using 1(2) by (auto simp: send_verdict_def dest: sys_call_err split: if_splits answer.splits prod.splits)
      from funpow_later [OF 1(1) [OF this]] show ?thesis .
    qed (rule funpow_first, simp)
  qed
qed

interpretation recv_io: retry_call "recv_loop env count tm" "recv_verdict env (\<lambda>w. rtimeout_done tm (now env w)) count" tick for env count tm
proof (unfold_locales, goal_cases)
  case (1 w)
  show ?case
    by (subst recv_loop.simps) (auto simp: recv_verdict_def dest: sys_call_err split: answer.splits prod.splits if_splits)
next
  case (2 w r)
  show ?case
  proof (rule recv_loop.raw_induct [where P = "\<lambda>env count tm w r. \<exists>k. recv_verdict env (\<lambda>w. rtimeout_done tm (now env w)) count ((tick ^^ k) w) \<noteq> None", OF _ 2], goal_cases)
    case (1 f env count tm w r)
    show ?case
    proof (cases "recv_verdict env (\<lambda>w. rtimeout_done tm (now env w)) count w")
      case None
      then have "f env count tm (tick w) = Some r" using 1(2) by (auto simp: recv_verdict_def dest: sys_call_err split: if_splits answer.splits prod.splits)
      from funpow_later [OF 1(1) [OF this]] show ?thesis .
    qed (rule funpow_first, simp)
  qed
qed

interpretation recvfrom_io: retry_call "recvfrom_loop env count" "recv_verdict env (\<lambda>w. False) count" tick for env count
proof (unfold_locales, goal_cases)
  case (1 w)
  show ?case
    by (subst recvfrom_loop.simps) (auto simp: recv_verdict_def dest: sys_call_err split: answer.splits prod.splits if_splits)
next
  case (2 w r)
  show ?case
  proof (rule recvfrom_loop.raw_induct [where P = "\<lambda>env count w r. \<exists>k. recv_verdict env (\<lambda>w. False) count ((tick ^^ k) w) \<noteq> None", OF _ 2], goal_cases)
    case (1 f env count w r)
    show ?case
    proof (cases "recv_verdict env (\<lambda>w. False) count w")
      case None
      then have "f env count (tick w) = Some r" using 1(2) by (auto simp: recv_verdict_def dest: sys_call_err split: if_splits answer.splits prod.splits)
      from funpow_later [OF 1(1) [OF this]] show ?thesis .
    qed (rule funpow_first, simp)
  qed
qed


lemma verdict_none:
  "connect_verdict env w = None \<longleftrightarrow> ne_connect env (nw_tick w) = EINTR"
  "accept_verdict env tm w = None \<longleftrightarrow>
    ne_accept env (nw_tick w) = Err EINTR \<and> \<not> rtimeout_done tm (ne_clock env (Suc (nw_tick w)))"
  "send_verdict env late fd data w = None \<longleftrightarrow>
    (ne_send env (nw_tick w) = Err EINTR \<or> ne_send env (nw_tick w) = Err EPROTOTYPE) \<and> \<not> late (tick w)"
  "recv_verdict env late count w = None \<longleftrightarrow> ne_recv env (nw_tick w) = Err EINTR \<and> \<not> late (tick w)"
  by (auto simp: verdict_defs sys_open_def sys_send_def sys_recv_def now_def tick_def Let_def split: answer.splits if_splits)

text \<open>A time limit: neither bound negative, the clock behind the end of the operation.\<close>

definition over :: "rtimeout \<Rightarrow> int \<Rightarrow> bool" where
  "over tm t \<longleftrightarrow> 0 \<le> tm_block tm \<and> 0 \<le> tm_total tm \<and> tm_start tm + tm_total tm \<le> t"

lemma over_done: "over tm t \<Longrightarrow> rtimeout_done tm t"
  by (simp add: over_def rtimeout_done_def rtimeout_get_total_def)

text \<open>C25: when the socket calls return.  On an open socket \<open>rsocket_send\<close>, \<open>rsocket_recv\<close> and
\<open>rsocket_accept\<close> run on exactly as long as every attempt is interrupted and the timeout is not
done, so a clock that once passes the end of the time makes them return whatever the system answers.
\<open>rsocket_connect\<close>, \<open>rsocket_sendto\<close> and \<open>rsocket_recvfrom\<close> take the same timeout, but it does not
end them: they run on exactly as long as every attempt is interrupted.\<close>

theorem rsocket_io_returns:
  assumes "sk_fd s \<noteq> SOCKET_INVALID"
  shows "(rsocket_send env w s data tm = None \<longleftrightarrow> (\<forall>k. (ne_send env (nw_tick w + k) = Err EINTR \<or>
        ne_send env (nw_tick w + k) = Err EPROTOTYPE) \<and> \<not> rtimeout_done tm (ne_clock env (nw_tick w + Suc k)))) \<and>
    (rsocket_recv env w s count tm = None \<longleftrightarrow> (\<forall>k. ne_recv env (nw_tick w + k) = Err EINTR \<and>
        \<not> rtimeout_done tm (ne_clock env (nw_tick w + Suc k)))) \<and>
    (rsocket_accept env w s s' tm = None \<longleftrightarrow> (\<forall>k. ne_accept env (nw_tick w + k) = Err EINTR \<and>
        \<not> rtimeout_done tm (ne_clock env (nw_tick w + Suc k)))) \<and>
    (if \<exists>k. over tm (ne_clock env (nw_tick w + Suc k))
     then rsocket_send env w s data tm \<noteq> None \<and> rsocket_recv env w s count tm \<noteq> None \<and> rsocket_accept env w s s' tm \<noteq> None
     else True) \<and>
    (rsocket_connect env w s tm = None \<longleftrightarrow> (\<forall>k. ne_connect env (nw_tick w + k) = EINTR)) \<and>
    (rsocket_sendto env w s data tm = None \<longleftrightarrow> (\<forall>k. ne_send env (nw_tick w + k) = Err EINTR \<or>
        ne_send env (nw_tick w + k) = Err EPROTOTYPE)) \<and>
    (rsocket_recvfrom env w s count tm = None \<longleftrightarrow> (\<forall>k. ne_recv env (nw_tick w + k) = Err EINTR))"
proof -
  have send: "rsocket_send env w s data tm = None \<longleftrightarrow> (\<forall>k. (ne_send env (nw_tick w + k) = Err EINTR \<or>
        ne_send env (nw_tick w + k) = Err EPROTOTYPE) \<and> \<not> rtimeout_done tm (ne_clock env (nw_tick w + Suc k)))"
    using send_io.loop_stuck [of env "sk_fd s" data tm w] assms by (simp add: rsocket_send_def verdict_none now_def)
  have recv: "rsocket_recv env w s count tm = None \<longleftrightarrow> (\<forall>k. ne_recv env (nw_tick w + k) = Err EINTR \<and>
        \<not> rtimeout_done tm (ne_clock env (nw_tick w + Suc k)))"
    using recv_io.loop_stuck [of env count tm w] assms by (simp add: rsocket_recv_def verdict_none now_def)
  have acc: "rsocket_accept env w s s' tm = None \<longleftrightarrow> (\<forall>k. ne_accept env (nw_tick w + k) = Err EINTR \<and>
        \<not> rtimeout_done tm (ne_clock env (nw_tick w + Suc k)))"
    using accept_io.loop_stuck [of env tm w] assms
    by (simp add: rsocket_accept_def verdict_none now_def Option.bind_eq_None_conv split_beta)
  have conn: "rsocket_connect env w s tm = None \<longleftrightarrow> (\<forall>k. ne_connect env (nw_tick w + k) = EINTR)"
    using connect_io.loop_stuck [of env w] assms
    by (simp add: rsocket_connect_def verdict_none Option.bind_eq_None_conv split_beta)
  have to: "rsocket_sendto env w s data tm = None \<longleftrightarrow> (\<forall>k. ne_send env (nw_tick w + k) = Err EINTR \<or>
        ne_send env (nw_tick w + k) = Err EPROTOTYPE)"
    using sendto_io.loop_stuck [of env "sk_fd s" data w] assms by (simp add: rsocket_sendto_def verdict_none)
  have frm: "rsocket_recvfrom env w s count tm = None \<longleftrightarrow> (\<forall>k. ne_recv env (nw_tick w + k) = Err EINTR)"
    using recvfrom_io.loop_stuck [of env count w] assms by (simp add: rsocket_recvfrom_def verdict_none)
  have "rsocket_send env w s data tm \<noteq> None \<and> rsocket_recv env w s count tm \<noteq> None \<and> rsocket_accept env w s s' tm \<noteq> None"
    if "\<exists>k. over tm (ne_clock env (nw_tick w + Suc k))"
    using that over_done unfolding send recv acc by blast
  then have "if \<exists>k. over tm (ne_clock env (nw_tick w + Suc k))
     then rsocket_send env w s data tm \<noteq> None \<and> rsocket_recv env w s count tm \<noteq> None \<and> rsocket_accept env w s s' tm \<noteq> None
     else True" by simp
  then show ?thesis by (intro conjI send recv acc conn to frm)
qed

text \<open>A system that interrupts the first two calls.\<close>

definition demo_net_env :: net_env where
  "demo_net_env = \<lparr>ne_clock = (\<lambda>t. 10 * int t), ne_epoll = (\<lambda>_. Ret 3), ne_fcntl = (\<lambda>_. 0), ne_ctl = (\<lambda>_. 0),
    ne_wait = (\<lambda>_. Ret []), ne_socket = (\<lambda>_. Ret 4), ne_accept = (\<lambda>_. Err EINTR), ne_bind = (\<lambda>_. 0),
    ne_listen = (\<lambda>_. 0), ne_connect = (\<lambda>t. if t < 2 then EINTR else 0), ne_sockopt = (\<lambda>_. 0),
    ne_send = (\<lambda>_. Err EINTR), ne_recv = (\<lambda>_. Err EAGAIN), ne_behind = 0, ne_junk = 0\<rparr>"

definition demo_nworld :: nworld where
  "demo_nworld = \<lparr>nw_tick = 0, nw_open = {4}, nw_nonblock = {}, nw_reg = Map.empty, nw_out = (\<lambda>_. []), nw_opts = []\<rparr>"

theorem rsocket_io_returns_witness:
  "let s = \<lparr>sk_fd = 4, sk_options = 0, sk_item = 0\<rparr>; tm = \<lparr>tm_block = 30, tm_total = 30, tm_start = 0\<rparr>
   in rsocket_send demo_net_env demo_nworld s [1, 2] tm \<noteq> None \<and> rsocket_connect demo_net_env demo_nworld s tm \<noteq> None \<and>
     rsocket_sendto demo_net_env demo_nworld s [1, 2] tm = None"
proof -
  have o: "over \<lparr>tm_block = 30, tm_total = 30, tm_start = 0\<rparr> (ne_clock demo_net_env (nw_tick demo_nworld + Suc 2))"
    by (simp add: over_def demo_net_env_def demo_nworld_def)
  have c: "ne_connect demo_net_env (nw_tick demo_nworld + 2) \<noteq> EINTR" by (simp add: demo_net_env_def demo_nworld_def)
  have t: "\<forall>k. ne_send demo_net_env (nw_tick demo_nworld + k) = Err EINTR" by (simp add: demo_net_env_def)
  have fd: "sk_fd \<lparr>sk_fd = 4, sk_options = 0, sk_item = 0\<rparr> \<noteq> SOCKET_INVALID" by simp
  from rsocket_io_returns [OF fd, of demo_net_env demo_nworld "[1, 2]" "\<lparr>tm_block = 30, tm_total = 30, tm_start = 0\<rparr>"
      0 undefined] o c t show ?thesis
    unfolding Let_def by (metis (no_types, lifting))
qed

section \<open>What sending and receiving do\<close>

lemma tick_power_out [simp]: "nw_out ((tick ^^ k) w) = nw_out w"
  by (simp add: tick_power)

lemma rsocket_send_result:
  assumes "rsocket_send env w s data tm = Some (w', n, code)"
  obtains t where "w' = w\<lparr>nw_tick := t, nw_out := (nw_out w)(sk_fd s := nw_out w (sk_fd s) @ take n data)\<rparr>"
    "n \<le> length data" "code \<noteq> rcode_io_done \<longrightarrow> n = 0"
proof (cases "sk_fd s = SOCKET_INVALID")
  case True
  then have "w' = w\<lparr>nw_tick := nw_tick w, nw_out := (nw_out w)(sk_fd s := nw_out w (sk_fd s) @ take n data)\<rparr>" "n = 0"
    using assms by (auto simp: rsocket_send_def)
  then show ?thesis using that [of "nw_tick w"] by simp
next
  case False
  then obtain k where k: "send_verdict env (\<lambda>w. rtimeout_done tm (now env w)) (sk_fd s) data ((tick ^^ k) w) = Some (w', n, code)"
    using assms send_io.loop_result [of env "sk_fd s" data tm w "(w', n, code)"] by (auto simp: rsocket_send_def)
  define u where "u = (tick ^^ k) w"
  have u: "u = w\<lparr>nw_tick := nw_tick w + k\<rparr>" by (simp add: u_def tick_power)
  show ?thesis
  proof (cases "ne_send env (nw_tick u)")
    case (Ret m)
    then have "w' = w\<lparr>nw_tick := Suc (nw_tick u), nw_out := (nw_out w)(sk_fd s := nw_out w (sk_fd s) @ take n data)\<rparr>"
        "n \<le> length data" "code = rcode_io_done"
      using k [folded u_def] by (auto simp: send_verdict_def sys_send_def tick_def u min_def)
    then show ?thesis using that by blast
  next
    case (Err e)
    then have "w' = tick u" "n = 0"
      using k [folded u_def] by (auto simp: send_verdict_def sys_send_def split: if_splits)
    then have "w' = w\<lparr>nw_tick := Suc (nw_tick u), nw_out := (nw_out w)(sk_fd s := nw_out w (sk_fd s) @ take n data)\<rparr>" "n = 0"
      by (simp_all add: tick_def u)
    then show ?thesis using that by simp
  qed
qed

lemma rsocket_recv_result:
  assumes "rsocket_recv env w s count tm = Some (w', xs, code)"
  obtains t where "w' = w\<lparr>nw_tick := t\<rparr>" "length xs \<le> count" "code \<noteq> rcode_io_done \<longrightarrow> xs = []"
proof (cases "sk_fd s = SOCKET_INVALID")
  case True
  then have "w' = w\<lparr>nw_tick := nw_tick w\<rparr>" "xs = []" using assms by (auto simp: rsocket_recv_def)
  then show ?thesis using that [of "nw_tick w"] by simp
next
  case False
  then obtain k where k: "recv_verdict env (\<lambda>w. rtimeout_done tm (now env w)) count ((tick ^^ k) w) = Some (w', xs, code)"
    using assms recv_io.loop_result [of env count tm w "(w', xs, code)"] by (auto simp: rsocket_recv_def)
  define u where "u = (tick ^^ k) w"
  have u: "u = w\<lparr>nw_tick := nw_tick w + k\<rparr>" by (simp add: u_def tick_power)
  have "w' = tick u" "length xs \<le> count" "code \<noteq> rcode_io_done \<longrightarrow> xs = []"
    using k [folded u_def]
    by (auto simp: recv_verdict_def sys_recv_def split: answer.splits if_splits)
  then show ?thesis using that [of "Suc (nw_tick u)"] by (simp add: tick_def u)
qed

text \<open>A clock that passes every time.\<close>

definition clock_runs :: "net_env \<Rightarrow> bool" where
  "clock_runs env \<longleftrightarrow> (\<forall>c t. \<exists>k>t. c \<le> ne_clock env k)"

lemma clock_runs_over:
  assumes "clock_runs env" "0 \<le> tm_block tm" "0 \<le> tm_total tm"
  shows "\<exists>k. over tm (ne_clock env (t + Suc k))"
proof -
  obtain k where "t < k" "tm_start tm + tm_total tm \<le> ne_clock env k" using assms(1) unfolding clock_runs_def by blast
  then show ?thesis using assms(2,3) by (intro exI [of _ "k - Suc t"]) (simp add: over_def)
qed

lemma send_recv_return:
  assumes "clock_runs env" "0 \<le> tm_block tm" "0 \<le> tm_total tm"
  shows "rsocket_send env w s data tm \<noteq> None" "rsocket_recv env w s count tm \<noteq> None"
proof -
  obtain k where k: "over tm (ne_clock env (Suc (nw_tick w + k)))"
    using clock_runs_over [OF assms, of "nw_tick w"] by auto
  then have "send_verdict env (\<lambda>w. rtimeout_done tm (now env w)) (sk_fd s) data ((tick ^^ k) w) \<noteq> None"
      "recv_verdict env (\<lambda>w. rtimeout_done tm (now env w)) count ((tick ^^ k) w) \<noteq> None"
    using over_done by (auto simp: verdict_none now_def)
  then show "rsocket_send env w s data tm \<noteq> None" "rsocket_recv env w s count tm \<noteq> None"
    using send_io.loop_stuck [of env "sk_fd s" data tm w] recv_io.loop_stuck [of env count tm w]
    by (auto simp: rsocket_send_def rsocket_recv_def simp del: not_None_eq)
qed

end
