(* ===== verification/RClient.thy ===== *)
theory RClient
  imports RCodec REpoll RSocket
begin

text \<open>
  The epoll client of \<open>ipc/src/rsocket_epoll.c\<close> (the functions with the suffix \<open>_c\<close>) on top of the
  socket, the epoll wrapper, the byte buffer and the codec.  A state is the world of \<open>REpoll\<close>, extended
  by the data source, its socket and what the handlers keep.

  Two deviations from the bare text of the code are needed to say anything about it.
  \<open>rsocket_send\<close> and \<open>rsocket_recv\<close> are given the address of an \<open>int\<close> as a \<open>size_t*\<close>; the store is
  modelled as hitting that \<open>int\<close> only.  Log lines are dropped, except where their arguments are
  evaluated through a pointer that may be NULL.
\<close>

section \<open>State and surroundings\<close>

text \<open>
  \<open>cl_live\<close> says whether the buffers the data source points to are allocated: after a release the
  pointers stay as they are.
\<close>

record 'w client = epworld +
  cl_ds :: ripc_data_source
  cl_live :: bool
  cl_stream :: "rsocket option"
  cl_app :: 'w

text \<open>
  \<open>ce_addrs\<close> is \<open>getaddrinfo\<close>: the address families it found, or its error; on an error the pointer to
  the result is not set, \<open>ce_res_null\<close> says whether it happens to be NULL.  \<open>ce_block\<close> is the memory
  \<open>malloc\<close> gives for a buffer.  The handlers are the functions of \<open>out_handler\<close> and \<open>in_handler\<close>.
\<close>

record 'w client_env =
  ce_net :: net_env
  ce_addrs :: "nat \<Rightarrow> int list answer"
  ce_res_null :: bool
  ce_block :: bytes
  ce_out :: "ipc_handler option"
  ce_in :: "(ripc_data_source \<Rightarrow> 32 word \<Rightarrow> 'w \<Rightarrow> (ripc_data_source \<times> 'w \<times> int) option) option"
  ce_on_code :: "int \<Rightarrow> int"

abbreviation (input) AF_INET :: int where "AF_INET \<equiv> 2"
abbreviation (input) buffer_bytes :: int where "buffer_bytes \<equiv> 65536"

definition timer_sec :: "net_env \<Rightarrow> 'a nworld_scheme \<Rightarrow> int \<Rightarrow> rtimeout" where
  "timer_sec env w n = rtimeout_begin (rtimeout_init_sec \<lparr>tm_block = 0, tm_total = 0, tm_start = 0\<rparr> n n) (now env w)"

definition timer_millisec :: "net_env \<Rightarrow> 'a nworld_scheme \<Rightarrow> int \<Rightarrow> rtimeout" where
  "timer_millisec env w n =
    rtimeout_begin (rtimeout_init_millisec \<lparr>tm_block = 0, tm_total = 0, tm_start = 0\<rparr> n n) (now env w)"

section \<open>Opening and closing\<close>

definition ripc_init_c :: "'w client \<Rightarrow> 'w client \<times> int" where
  "ripc_init_c w = (w\<lparr>cl_stream := None\<rparr>, rcode_ok)"

text \<open>
  The loop over the addresses: the socket is made anew when the family changes; the first connection
  that does not fail ends it.  An empty list leaves the 0 of \<open>getaddrinfo\<close>.
\<close>

fun open_addrs ::
  "net_env \<Rightarrow> rtimeout \<Rightarrow> int list \<Rightarrow> int \<Rightarrow> int \<Rightarrow> 'a nworld_scheme \<Rightarrow> rsocket \<Rightarrow> ('a nworld_scheme \<times> rsocket \<times> int) option"
where
  "open_addrs env tm [] current_family ret_code w s = Some (w, s, ret_code)"
| "open_addrs env tm (family # rest) current_family ret_code w s =
    (if current_family \<noteq> family \<or> sk_fd s = SOCKET_INVALID
     then case rsocket_close w s of (w1, s1, _) \<Rightarrow>
       (case rsocket_create env w1 s1 of (w2, s2, ret) \<Rightarrow>
         if ret \<noteq> rcode_ok then open_addrs env tm rest current_family ret w2 s2
         else do {
           (w4, ret1) \<leftarrow> rsocket_connect env (fst (rsocket_setnonblocking w2 s2)) s2 tm;
           if ret1 = rcode_io_done then Some (w4, s2, ret1) else open_addrs env tm rest family ret1 w4 s2
         })
     else do {
       (w4, ret1) \<leftarrow> rsocket_connect env w s tm;
       if ret1 = rcode_io_done then Some (w4, s, ret1) else open_addrs env tm rest current_family ret1 w4 s
     })"

text \<open>
  \<open>exit1\<close> returns \<open>ret_code\<close> as it is: when the last step, setting \<open>TCP_NODELAY\<close>, fails, that is 0.
\<close>

definition ripc_open_c :: "'w client_env \<Rightarrow> 'w client \<Rightarrow> ('w client \<times> int) option" where
  "ripc_open_c env w = (let net = ce_net env; tm = timer_sec net w 5; w0 = tick w in
     case ce_addrs env (nw_tick w) of
       Err e \<Rightarrow> if ce_res_null env then Some (w0, e) else None
     | Ret families \<Rightarrow> do {
         (w1, s1, ret_code) \<leftarrow> open_addrs net tm families AF_INET rcode_ok w0 (new_socket net);
         if ret_code \<noteq> rcode_ok then Some (fst (rsocket_close w1 s1), ret_code)
         else case rsocket_setopt net w1 s1 RTCP_NODELAY True of (w2, s2, r) \<Rightarrow>
           if r \<noteq> rcode_ok then Some (fst (rsocket_close w2 s2), ret_code)
           else do {
             let a = ep_next w2;
             let w3 = w2\<lparr>ep_next := a + 1, ep_items := (ep_items w2)(a \<mapsto>
               \<lparr>ri_fd = sk_fd s2, ri_req = repoll_set_event_all 0, ri_rsp = 0, ri_ds = 0\<rparr>)\<rparr>;
             (w4, ret1) \<leftarrow> repoll_add net w3 (Item a);
             if ret1 \<noteq> rcode_ok
             then Some ((fst (rsocket_close w4 s2))\<lparr>ep_items := (ep_items w4)(a := None)\<rparr>, ret1)
             else Some (w4\<lparr>cl_stream := Some (s2\<lparr>sk_item := a\<rparr>),
               cl_ds := (cl_ds w4)\<lparr>ds_state := ripc_state_ready_pending\<rparr>\<rparr>, rcode_ok)
           }
       })"

text \<open>Releasing the two buffers: NULL is skipped, a pointer to released memory is undefined.\<close>

definition release_buffers :: "'w client \<Rightarrow> 'w client option" where
  "release_buffers w =
    (if (ds_read_cache (cl_ds w) \<noteq> None \<or> ds_write_buff (cl_ds w) \<noteq> None) \<and> \<not> cl_live w then None
     else Some (w\<lparr>cl_live := False\<rparr>))"

definition ripc_close_c :: "'w client_env \<Rightarrow> 'w client \<Rightarrow> ('w client \<times> int) option" where
  "ripc_close_c env w =
    (if ds_state (cl_ds w) = ripc_state_closed then Some (w, rcode_ok)
     else do {
       w1 \<leftarrow> release_buffers w;
       w2 \<leftarrow> (case cl_stream w1 of
           None \<Rightarrow> Some w1
         | Some s \<Rightarrow> do {
             (w2, _) \<leftarrow> repoll_remove (ce_net env) w1 (Item (sk_item s));
             let w3 = w2\<lparr>ep_items := (ep_items w2)(sk_item s := None)\<rparr>;
             Some ((fst (rsocket_close w3 s))\<lparr>cl_stream := None\<rparr>)
           });
       Some (w2\<lparr>cl_ds := (cl_ds w2)\<lparr>ds_state := ripc_state_closed\<rparr>\<rparr>, rcode_ok)
     })"

definition ripc_uninit_c :: "'w client_env \<Rightarrow> 'w client \<Rightarrow> ('w client \<times> int) option" where
  "ripc_uninit_c env w =
    (if ds_state (cl_ds w) = ripc_state_uninit then Some (w, rcode_ok)
     else do {
       (w1, ret_code) \<leftarrow> (if ds_state (cl_ds w) \<noteq> ripc_state_closed then ripc_close_c env w else Some (w, rcode_ok));
       if ret_code \<noteq> rcode_ok then Some (w1, ret_code)
       else Some (w1\<lparr>cl_ds := (cl_ds w1)\<lparr>ds_state := ripc_state_uninit\<rparr>\<rparr>, ret_code)
     })"

definition ripc_stop_c :: "'w client \<Rightarrow> 'w client \<times> int" where
  "ripc_stop_c w = (w\<lparr>cl_ds := (cl_ds w)\<lparr>ds_state := ripc_state_stop\<rparr>\<rparr>, rcode_ok)"

text \<open>The connection is closed whatever the handler says to the code 1; its answer is returned.\<close>

definition ripc_on_error_c :: "'w client_env \<Rightarrow> 'w client \<Rightarrow> ('w client \<times> int) option" where
  "ripc_on_error_c env w = do {
     let ret_code = (if ce_in env \<noteq> None then ce_on_code env 1 else rcode_ok);
     (w1, _) \<leftarrow> ripc_close_c env w;
     Some (w1, ret_code)
   }"

section \<open>Waiting for the connection\<close>

text \<open>
  The results of one poll: \<open>Inl\<close> returns from \<open>ripc_start_c\<close>, \<open>Inr\<close> goes on.  The mask is changed in the
  copy in \<open>dest_items\<close>, and it is the address of this copy that the kernel gets.
\<close>

fun start_items ::
  "'w client_env \<Rightarrow> nat list \<Rightarrow> 'w client \<Rightarrow> (('w client \<times> int) + 'w client) option"
where
  "start_items env [] w = Some (Inr w)"
| "start_items env (i # is) w = do {
     it \<leftarrow> item_at w (Dest i);
     s \<leftarrow> cl_stream w;
     if ri_fd it \<noteq> sk_fd s then start_items env is w
     else if repoll_check_event_err (ri_rsp it)
     then do { (w1, _) \<leftarrow> ripc_on_error_c env w; start_items env is w1 }
     else if repoll_check_event_out (ri_rsp it) \<and> ds_state (cl_ds w) = ripc_state_ready_pending
     then do {
       let w1 = w\<lparr>ep_dest := (ep_dest w)[i := Some (it\<lparr>ri_req := repoll_unset_event_out (ri_req it)\<rparr>)]\<rparr>;
       (w2, ret_code) \<leftarrow> repoll_modify (ce_net env) w1 (Dest i);
       if ret_code \<noteq> rcode_ok then Some (Inl (w2, ret_code))
       else do {
         rb \<leftarrow> rbuffer_create (ce_block env) buffer_bytes;
         wb \<leftarrow> rbuffer_create (ce_block env) buffer_bytes;
         Some (Inl (w2\<lparr>cl_live := True, cl_ds := (cl_ds w2)\<lparr>ds_read_cache := Some rb, ds_write_buff := Some wb,
           ds_state := ripc_state_start\<rparr>\<rparr>, rcode_ok))
       }
     }
     else start_items env is w
   }"

text \<open>When the time is over the descriptor of the stream is logged.\<close>

partial_function (option) start_loop ::
  "'w client_env \<Rightarrow> rtimeout \<Rightarrow> 'w client \<Rightarrow> ('w client \<times> int) option" where
  "start_loop env tm w = do {
     (w1, ret_code) \<leftarrow> repoll_poll (ce_net env) w;
     if ret_code \<noteq> rcode_ok then Some (w1, ret_code)
     else do {
       n \<leftarrow> ep_dest_count w1;
       r \<leftarrow> start_items env [0..<nat n] w1;
       (case r of
          Inl res \<Rightarrow> Some res
        | Inr w2 \<Rightarrow>
            if rtimeout_done tm (now (ce_net env) w2)
            then (if cl_stream w2 = None then None else Some (w2, rcode_io_timeout))
            else start_loop env tm w2)
     }
   }"

definition ripc_start_c :: "'w client_env \<Rightarrow> 'w client \<Rightarrow> ('w client \<times> int) option" where
  "ripc_start_c env w =
    (if cl_stream w = None then Some (w, rcode_invalid)
     else start_loop env (timer_sec (ce_net env) w 3) w)"

section \<open>Sending and receiving\<close>

text \<open>A buffer of the data source, when it is there to be used.\<close>

definition live_buffer :: "'w client \<Rightarrow> rbuffer option \<Rightarrow> rbuffer option" where
  "live_buffer w b = (if cl_live w then b else None)"

text \<open>Setting the mask of the item of the socket and handing it to the kernel.\<close>

definition remask ::
  "'w client_env \<Rightarrow> 'w client \<Rightarrow> (16 word \<Rightarrow> 16 word) \<Rightarrow> ('w client \<times> int) option" where
  "remask env w f = do {
     s \<leftarrow> cl_stream w;
     it \<leftarrow> ep_items w (sk_item s);
     repoll_modify (ce_net env) (w\<lparr>ep_items := (ep_items w)(sk_item s \<mapsto> it\<lparr>ri_req := f (ri_req it)\<rparr>)\<rparr>) (Item (sk_item s))
   }"

text \<open>\<open>ripc_send_data_2buffer_c\<close>, the \<open>send\<close> of the client; the message is changed by the encoder.\<close>

definition ripc_send_data_2buffer_c ::
  "'w client_env \<Rightarrow> 'w client \<Rightarrow> ripc_data_default \<Rightarrow> ('w client \<times> ripc_data_default \<times> int) option" where
  "ripc_send_data_2buffer_c env w data =
    (if cl_stream w = None \<or> ds_state (cl_ds w) \<noteq> ripc_state_start
     then Some (w, data, ipc_code rcode_err_ipc_disconnect)
     else do {
       (w1, data1, ret) \<leftarrow> (case ce_out env of
           None \<Rightarrow> Some (w, data, rcode_err_ok)
         | Some process \<Rightarrow> do {
             b \<leftarrow> live_buffer w (ds_write_buff (cl_ds w));
             (ds1, data1, ret) \<leftarrow> process (cl_ds w) data;
             Some (w\<lparr>cl_ds := ds1\<rparr>, data1, ret)
           });
       if ret \<noteq> rcode_err_ok then Some (w1, data1, ret)
       else do {
         wb \<leftarrow> live_buffer w1 (ds_write_buff (cl_ds w1));
         if rbuffer_size wb > 0 then do {
           (w2, ret_code) \<leftarrow> remask env w1 repoll_set_event_out;
           Some (w2, data1, if ret_code \<noteq> rcode_ok then ret_code else rcode_ok)
         } else Some (w1, data1, rcode_ok)
       }
     })"

text \<open>\<open>ripc_send_data_c\<close>: what the buffer holds goes to the socket.\<close>

definition ripc_send_data_c :: "'w client_env \<Rightarrow> 'w client \<Rightarrow> ('w client \<times> int) option" where
  "ripc_send_data_c env w = do {
     s \<leftarrow> cl_stream w;
     wb \<leftarrow> live_buffer w (ds_write_buff (cl_ds w));
     data_buff \<leftarrow> mem_get (rb_data wb) (rb_offset wb) (rbuffer_size wb);
     (w1, sent_len, ret_code) \<leftarrow> rsocket_send (ce_net env) w s data_buff (timer_millisec (ce_net env) w 3);
     if ret_code \<noteq> rcode_io_done then do { (w2, _) \<leftarrow> ripc_on_error_c env w1; Some (w2, rcode_io_closed) }
     else do {
       (bp, _) \<leftarrow> rbuffer_skip (Some wb) (int sent_len);
       wb1 \<leftarrow> bp;
       let w2 = w1\<lparr>cl_ds := (cl_ds w1)\<lparr>ds_write_buff := Some wb1\<rparr>\<rparr>;
       if rbuffer_size wb1 = 0 then do {
         (w3, ret) \<leftarrow> remask env w2 repoll_unset_event_out;
         Some (w3, if ret \<noteq> rcode_ok then ret else rcode_ok)
       } else Some (w2, rcode_ok)
     }
   }"

text \<open>
  \<open>ripc_receive_data_c\<close>: the bytes are stored behind the write position of the read cache, and the
  handler moves it.
\<close>

definition ripc_receive_data_c :: "'w client_env \<Rightarrow> 'w client \<Rightarrow> ('w client \<times> int) option" where
  "ripc_receive_data_c env w =
    (if ds_state (cl_ds w) \<noteq> ripc_state_start then Some (w, ipc_code rcode_err_ipc_disconnect)
     else do {
       s \<leftarrow> cl_stream w;
       rc \<leftarrow> live_buffer w (ds_read_cache (cl_ds w));
       (w1, got, ret_code) \<leftarrow> rsocket_recv (ce_net env) w s (nat (rbuffer_left rc mod 2 ^ 64))
         (timer_millisec (ce_net env) w 1);
       data1 \<leftarrow> mem_put (rb_data rc) (rb_pos rc) got;
       let w2 = w1\<lparr>cl_ds := (cl_ds w1)\<lparr>ds_read_cache := Some (rc\<lparr>rb_data := data1\<rparr>)\<rparr>\<rparr>;
       if ret_code \<noteq> rcode_io_done \<and> ret_code \<noteq> rcode_io_timeout
       then do { (w3, _) \<leftarrow> ripc_on_error_c env w2; Some (w3, rcode_io_closed) }
       else (case ce_in env of
           None \<Rightarrow> Some (w2, rcode_ok)
         | Some process \<Rightarrow>
             if got = [] then Some (w2, rcode_ok)
             else do {
               (ds1, app1, ret) \<leftarrow> process (cl_ds w2) (word_of_nat (length got)) (cl_app w2);
               Some (w2\<lparr>cl_ds := ds1, cl_app := app1\<rparr>,
                     if ret \<noteq> rcode_err_ok then ipc_code rcode_err_ipc_decode else rcode_ok)
             })
     })"

text \<open>\<open>ripc_check_data_c\<close>: one poll, then every result that was not taken out meanwhile.\<close>

fun check_items :: "'w client_env \<Rightarrow> nat list \<Rightarrow> 'w client \<Rightarrow> ('w client \<times> int) option" where
  "check_items env [] w = Some (w, rcode_ok)"
| "check_items env (i # is) w = do {
     it \<leftarrow> item_at w (Dest i);
     if ri_fd it = 0 then check_items env is w
     else if repoll_check_event_err (ri_rsp it) then do {
       (w1, ret_code) \<leftarrow> ripc_on_error_c env w;
       if ret_code \<noteq> rcode_ok then Some (w1, ret_code) else check_items env is w1
     }
     else do {
       (w1, _) \<leftarrow> (if repoll_check_event_out (ri_rsp it) \<and> ds_state (cl_ds w) = ripc_state_start
                 then ripc_send_data_c env w else Some (w, 0));
       (w2, _) \<leftarrow> (if repoll_check_event_in (ri_rsp it) \<and> ds_state (cl_ds w1) = ripc_state_start
                 then ripc_receive_data_c env w1 else Some (w1, 0));
       check_items env is w2
     }
   }"

definition ripc_check_data_c :: "'w client_env \<Rightarrow> 'w client \<Rightarrow> ('w client \<times> int) option" where
  "ripc_check_data_c env w = do {
     (w1, ret_code) \<leftarrow> repoll_poll (ce_net env) w;
     if ret_code \<noteq> rcode_ok then Some (w1, ret_code)
     else do {
       n \<leftarrow> ep_dest_count w1;
       check_items env [0..<nat n] w1
     }
   }"


section \<open>What a call leaves as it was\<close>

lemma ctl_shape:
  assumes "sys_epoll_ctl env w epfd ctl fd ev p = (w', e)"
  obtains reg where "w' = w\<lparr>nw_tick := Suc (nw_tick w), nw_reg := reg\<rparr>"
    "reg = nw_reg w \<or> reg = (nw_reg w)(fd \<mapsto> (ev, p)) \<and> ctl \<noteq> EPOLL_CTL_DEL \<or> reg = (nw_reg w)(fd := None)"
proof -
  have "w' = w\<lparr>nw_tick := Suc (nw_tick w), nw_reg := nw_reg w'\<rparr>"
    using assms unfolding sys_epoll_ctl_def Let_def tick_def by (cases ctl) (auto split: if_splits)
  moreover have "nw_reg w' = nw_reg w \<or> nw_reg w' = (nw_reg w)(fd \<mapsto> (ev, p)) \<and> ctl \<noteq> EPOLL_CTL_DEL \<or>
      nw_reg w' = (nw_reg w)(fd := None)"
    using assms unfolding sys_epoll_ctl_def Let_def tick_def by (cases ctl) (auto split: if_splits)
  ultimately show ?thesis using that by blast
qed

text \<open>
  A container that watches the one socket: the kernel knows its descriptor only, under the address of
  its item or of a copy of it among the results.
\<close>

definition watches :: "'a epworld_scheme \<Rightarrow> int \<Rightarrow> int \<Rightarrow> bool" where
  "watches w fd a \<longleftrightarrow> 0 < fd \<and> dest_ok w \<and> (\<exists>it. ep_items w a = Some it \<and> ri_fd it = fd) \<and>
    (\<forall>fd' ev p. nw_reg w fd' = Some (ev, p) \<longrightarrow> fd' = fd \<and> (p = Item a \<or> (\<exists>i. p = Dest i)) \<and>
      (\<exists>it. item_at w p = Some it \<and> ri_fd it = fd))"

lemma watchesD:
  assumes "watches w fd a"
  shows "0 < fd" "dest_ok w" "\<exists>it. ep_items w a = Some it \<and> ri_fd it = fd"
    "nw_reg w fd' = Some (ev, p) \<Longrightarrow> fd' = fd \<and> (p = Item a \<or> (\<exists>i. p = Dest i)) \<and> (\<exists>it. item_at w p = Some it \<and> ri_fd it = fd)"
  using assms by (auto simp: watches_def)

text \<open>Only these fields matter.\<close>

lemma watches_cong:
  assumes "watches w fd a" "ep_items w' = ep_items w" "ep_dest w' = ep_dest w" "ep_dest_count w' = ep_dest_count w"
    "ep_amount w' = ep_amount w"
    "nw_reg w' = nw_reg w \<or> (\<exists>it ev p. nw_reg w' = (nw_reg w)(fd \<mapsto> (ev, p)) \<and> (p = Item a \<or> (\<exists>i. p = Dest i)) \<and>
      item_at w p = Some it \<and> ri_fd it = fd) \<or> nw_reg w' = (nw_reg w)(fd := None)"
  shows "watches w' fd a"
proof -
  have i: "item_at w' p = item_at w p" for p using assms(2,3) by (simp add: item_at_def split: item_ptr.splits)
  have d: "dest_ok w'" using dest_ok_cong [OF assms(3,4,5)] watchesD(2) [OF assms(1)] by blast
  have "fd' = fd \<and> (p = Item a \<or> (\<exists>i. p = Dest i)) \<and> (\<exists>it. item_at w p = Some it \<and> ri_fd it = fd)"
    if "nw_reg w' fd' = Some (ev, p)" for fd' ev p
    using assms(6) that watchesD(4) [OF assms(1)] by (elim disjE exE conjE) (auto split: if_splits)
  then show ?thesis using d watchesD(1,3) [OF assms(1)] assms(2) unfolding watches_def i by (simp only:) blast
qed

lemma modify_watches:
  assumes w: "watches w fd a" and p: "p = Item a \<or> (\<exists>i. p = Dest i)" "item_at w p = Some it" "ri_fd it = fd"
  obtains reg r where "repoll_modify env w p = Some (w\<lparr>nw_tick := Suc (nw_tick w), nw_reg := reg\<rparr>, r)"
    "watches (w\<lparr>nw_tick := Suc (nw_tick w), nw_reg := reg\<rparr>) fd a"
proof -
  obtain w' r where c: "sys_epoll_ctl env w (ep_fd w) EPOLL_CTL_MOD fd (ucast (repoll_get_event_req (ri_req it))) p = (w', r)"
    by fastforce
  from ctl_shape [OF c] obtain reg where s: "w' = w\<lparr>nw_tick := Suc (nw_tick w), nw_reg := reg\<rparr>"
      "reg = nw_reg w \<or> reg = (nw_reg w)(fd \<mapsto> (ucast (repoll_get_event_req (ri_req it)), p)) \<or> reg = (nw_reg w)(fd := None)"
    by blast
  have "watches w' fd a"
    by (rule watches_cong [OF w]) (use s p in auto)
  moreover have "repoll_modify env w p = Some (w', r)"
    using c p by (simp add: repoll_modify_def repoll_ctl_def)
  ultimately show ?thesis using that s(1) by blast
qed

section \<open>Polling the one socket\<close>

lemma poll_copy_watches:
  assumes "\<forall>x \<in> set evs. \<exists>it. item_at w (snd x) = Some it \<and> ri_fd it = fd" "i + length evs \<le> length (ep_dest w)"
  shows "\<exists>D. poll_copy i evs w = Some (w\<lparr>ep_dest := D\<rparr>) \<and> length D = length (ep_dest w) \<and>
    (\<forall>j. D ! j = ep_dest w ! j \<or> (\<exists>d. D ! j = Some d \<and> ri_fd d = fd)) \<and>
    (\<forall>j. i \<le> j \<and> j < i + length evs \<longrightarrow> (\<exists>d. D ! j = Some d \<and> ri_fd d = fd)) \<and>
    (\<forall>j < i. D ! j = ep_dest w ! j)"
  using assms
proof (induction i evs w rule: poll_copy.induct)
  case (1 i w)
  then show ?case by (intro exI [of _ "ep_dest w"]) auto
next
  case (2 i ev p evs w)
  obtain it where it: "item_at w p = Some it" "ri_fd it = fd" using "2.prems"(1) by auto
  define d where "d = it\<lparr>ri_rsp := repoll_get_event_rsp (ucast ev)\<rparr>"
  define w1 where "w1 = w\<lparr>ep_dest := (ep_dest w)[i := Some d]\<rparr>"
  have i: "i < length (ep_dest w)" using "2.prems"(2) by simp
  have at: "\<exists>jt. item_at w1 q = Some jt \<and> ri_fd jt = fd" if "\<exists>jt. item_at w q = Some jt \<and> ri_fd jt = fd" for q
    using that it(2) by (cases q; cases "\<exists>j. q = Dest j \<and> j = i")
      (auto simp: item_at_def w1_def d_def nth_list_update split: if_splits)
  have prem: "\<forall>x \<in> set evs. \<exists>jt. item_at w1 (snd x) = Some jt \<and> ri_fd jt = fd" using "2.prems"(1) at by auto
  have "Suc i + length evs \<le> length (ep_dest w1)" using "2.prems"(2) by (simp add: w1_def)
  from "2.IH" [OF it(1) prem [unfolded w1_def d_def] this [unfolded w1_def d_def]]
  obtain D where D: "poll_copy (Suc i) evs w1 = Some (w1\<lparr>ep_dest := D\<rparr>)" "length D = length (ep_dest w1)"
      "\<forall>j. D ! j = ep_dest w1 ! j \<or> (\<exists>d. D ! j = Some d \<and> ri_fd d = fd)"
      "\<forall>j. Suc i \<le> j \<and> j < Suc i + length evs \<longrightarrow> (\<exists>d. D ! j = Some d \<and> ri_fd d = fd)"
      "\<forall>j < Suc i. D ! j = ep_dest w1 ! j"
    unfolding w1_def d_def by blast
  have di: "D ! i = Some d" "ri_fd d = fd" using D(5) i it(2) by (simp_all add: w1_def d_def)
  have "poll_copy i ((ev, p) # evs) w = Some (w\<lparr>ep_dest := D\<rparr>)" using it(1) D(1) by (simp add: w1_def d_def)
  moreover have "\<forall>j. D ! j = ep_dest w ! j \<or> (\<exists>d. D ! j = Some d \<and> ri_fd d = fd)"
  proof
    fix j show "D ! j = ep_dest w ! j \<or> (\<exists>d. D ! j = Some d \<and> ri_fd d = fd)"
      using D(3) [rule_format, of j] di by (cases "j = i") (auto simp: w1_def)
  qed
  moreover have "\<forall>j. i \<le> j \<and> j < i + length ((ev, p) # evs) \<longrightarrow> (\<exists>d. D ! j = Some d \<and> ri_fd d = fd)"
  proof (intro allI impI)
    fix j assume "i \<le> j \<and> j < i + length ((ev, p) # evs)"
    then show "\<exists>d. D ! j = Some d \<and> ri_fd d = fd" using D(4) di by (cases "j = i") auto
  qed
  ultimately show ?case using D(2,5) by (intro exI [of _ D]) (auto simp: w1_def)
qed


lemma watches_dest:
  assumes "watches w fd a" "ep_items w' = ep_items w" "nw_reg w' = nw_reg w" "dest_ok w'"
    and at: "\<And>p it. item_at w p = Some it \<Longrightarrow> ri_fd it = fd \<Longrightarrow> \<exists>jt. item_at w' p = Some jt \<and> ri_fd jt = fd"
  shows "watches w' fd a"
proof -
  have "fd' = fd \<and> (p = Item a \<or> (\<exists>i. p = Dest i)) \<and> (\<exists>it. item_at w' p = Some it \<and> ri_fd it = fd)"
    if "nw_reg w' fd' = Some (ev, p)" for fd' ev p
    using watchesD(4) [OF assms(1)] that at unfolding assms(3) by blast
  then show ?thesis using watchesD(1,3) [OF assms(1)] assms(2,4) unfolding watches_def by (simp only:) blast
qed

lemma poll_watches:
  assumes w: "watches w fd a"
  obtains D n r where
    "repoll_poll env w = Some (w\<lparr>nw_tick := Suc (nw_tick w), ep_dest := D, ep_dest_count := Some n\<rparr>, r)"
    "watches (w\<lparr>nw_tick := Suc (nw_tick w), ep_dest := D, ep_dest_count := Some n\<rparr>) fd a" "0 \<le> n"
    "\<forall>i < nat n. \<exists>d. D ! i = Some d \<and> ri_fd d = fd"
proof -
  note outcome = that
  obtain w1 ans where wt: "sys_epoll_wait env w (ep_fd w) (ep_amount w) = (w1, ans)" by fastforce
  have w1: "w1 = w\<lparr>nw_tick := Suc (nw_tick w)\<rparr>" using wt by (simp add: sys_epoll_wait_def tick_def)
  note W = watchesD [OF w]
  have zero: thesis if "repoll_poll env w = Some (w1\<lparr>ep_dest_count := Some 0\<rparr>, r)" for r
  proof -
    let ?w' = "w\<lparr>nw_tick := Suc (nw_tick w), ep_dest := ep_dest w, ep_dest_count := Some 0\<rparr>"
    have "dest_ok ?w'" using W(2) by (auto simp: dest_ok_def split: option.splits)
    then have "watches ?w' fd a"
      by (intro watches_dest [OF w]) (auto simp: item_at_def split: item_ptr.splits)
    moreover have "repoll_poll env w = Some (?w', r)" using that by (simp add: w1)
    ultimately show thesis by (intro outcome [where D = "ep_dest w" and n = 0 and r = r]) simp_all
  qed
  show thesis
  proof (cases ans)
    case (Err e)
    then show thesis using zero wt by (simp add: repoll_poll_def)
  next
    case (Ret evs)
    show thesis
    proof (cases "evs = []")
      case True
      then show thesis using zero wt Ret by (simp add: repoll_poll_def)
    next
      case False
      obtain l where l: "0 < ep_amount w" "evs = take (nat (ep_amount w)) (ready_events w l)"
        using wt Ret unfolding sys_epoll_wait_def by (auto split: if_splits answer.splits)
      have at: "item_at w1 p = item_at w p" for p by (simp add: item_at_def w1 split: item_ptr.splits)
      have "\<forall>x \<in> set evs. \<exists>it. item_at w1 (snd x) = Some it \<and> ri_fd it = fd"
      proof
        fix x assume "x \<in> set evs"
        then have "x \<in> set (ready_events w l)" unfolding l(2) by (rule in_set_takeD)
        then have "(fst x, snd x) \<in> set (ready_events w l)" by simp
        from ready_events_reg [OF this] obtain fd' req where "nw_reg w fd' = Some (req, snd x)" by blast
        from W(4) [OF this] show "\<exists>it. item_at w1 (snd x) = Some it \<and> ri_fd it = fd" by (simp add: at)
      qed
      moreover have len: "length evs \<le> length (ep_dest w)" using l W(2) by (simp add: dest_ok_def)
      ultimately obtain D where D: "poll_copy 0 evs w1 = Some (w1\<lparr>ep_dest := D\<rparr>)" "length D = length (ep_dest w)"
          "\<forall>j. D ! j = ep_dest w ! j \<or> (\<exists>d. D ! j = Some d \<and> ri_fd d = fd)"
          "\<forall>j < length evs. \<exists>d. D ! j = Some d \<and> ri_fd d = fd"
        using poll_copy_watches [of evs w1 fd 0] by (auto simp: w1)
      let ?n = "int (length evs)"
      let ?w' = "w\<lparr>nw_tick := Suc (nw_tick w), ep_dest := D, ep_dest_count := Some ?n\<rparr>"
      have p: "repoll_poll env w = Some (?w', rcode_ok)" using wt Ret False D(1) by (simp add: repoll_poll_def w1)
      have "dest_ok ?w'" using D(2,4) len W(2) by (auto simp: dest_ok_def)
      moreover have "\<exists>jt. item_at ?w' p = Some jt \<and> ri_fd jt = fd" if "item_at w p = Some it" "ri_fd it = fd" for p it
      proof (cases p)
        case (Dest i)
        then show ?thesis using that D(2) D(3) [rule_format, of i] by (auto simp: item_at_def split: if_splits)
      qed (use that in \<open>simp add: item_at_def\<close>)
      ultimately have "watches ?w' fd a" by (intro watches_dest [OF w]) simp_all
      then show thesis using p D(4) by (intro outcome [OF p]) simp_all
    qed
  qed
qed

text \<open>Taking the item of the socket out again.\<close>

lemma remove_watches:
  assumes w: "watches w fd a" and n: "ep_dest_count w = Some n"
  obtains reg D r where
    "repoll_remove env w (Item a) = Some (w\<lparr>nw_tick := Suc (nw_tick w), nw_reg := reg, ep_dest := D\<rparr>, r)"
    "reg = nw_reg w \<or> reg = (nw_reg w)(fd := None)" "\<forall>i < nat n. D ! i \<noteq> None" "length D = length (ep_dest w)"
proof -
  note W = watchesD [OF w]
  obtain it where it: "ep_items w a = Some it" "ri_fd it = fd" using W(3) by blast
  from repoll_remove_cases [OF it(1) W(2) n, of env] obtain w1 e where
    c: "sys_epoll_ctl env w (ep_fd w) EPOLL_CTL_DEL (ri_fd it) 0 (Item a) = (w1, e)" and
    r: "if e \<noteq> 0 then repoll_remove env w (Item a) = Some (w1, -1)
     else repoll_remove env w (Item a) = Some (w1, rcode_ok) \<and> (\<forall>i < nat n. ri_fd (the (ep_dest w ! i)) \<noteq> ri_fd it) \<or>
       (\<exists>i < nat n. ri_fd (the (ep_dest w ! i)) = ri_fd it \<and> repoll_remove env w (Item a) =
         Some (w1\<lparr>ep_dest := (ep_dest w)[i := Some ((the (ep_dest w ! i))\<lparr>ri_fd := 0\<rparr>)]\<rparr>, rcode_ok))" by blast
  from ctl_shape [OF c] obtain reg where s: "w1 = w\<lparr>nw_tick := Suc (nw_tick w), nw_reg := reg\<rparr>"
      "reg = nw_reg w \<or> reg = (nw_reg w)(fd := None)" using it(2) by blast
  have dest: "\<forall>i < nat n. ep_dest w ! i \<noteq> None" using W(2) n by (simp add: dest_ok_def)
  show thesis
  proof (cases "e = 0")
    case False
    then show thesis using r s dest by (intro that [where reg = reg and D = "ep_dest w" and r = "-1"]) simp_all
  next
    case True
    with r consider "repoll_remove env w (Item a) = Some (w1, rcode_ok)"
      | i where "repoll_remove env w (Item a) =
         Some (w1\<lparr>ep_dest := (ep_dest w)[i := Some ((the (ep_dest w ! i))\<lparr>ri_fd := 0\<rparr>)]\<rparr>, rcode_ok)" by auto
    then show thesis
    proof cases
      case 1
      then show thesis using s dest by (intro that [where reg = reg and D = "ep_dest w" and r = 0]) simp_all
    next
      case (2 i)
      let ?D = "(ep_dest w)[i := Some ((the (ep_dest w ! i))\<lparr>ri_fd := 0\<rparr>)]"
      have "\<forall>j < nat n. ?D ! j \<noteq> None"
        using dest by (metis list_update_beyond linorder_not_less nth_list_update option.distinct(1))
      then show thesis using 2 s by (intro that [where reg = reg and D = ?D and r = 0]) simp_all
    qed
  qed
qed

section \<open>Closing the one socket\<close>

lemma close_watched:
  assumes s: "cl_stream w = Some s" and w: "watches w (sk_fd s) (sk_item s)" and n: "ep_dest_count w = Some n"
    and l: "cl_live w" "ds_state (cl_ds w) \<noteq> ripc_state_closed"
  obtains w' where "ripc_close_c env w = Some (w', rcode_ok)" "cl_stream w' = None" "\<not> cl_live w'"
    "cl_ds w' = (cl_ds w)\<lparr>ds_state := ripc_state_closed\<rparr>" "nw_out w' = nw_out w" "nw_reg w' = Map.empty"
    "nw_open w' = nw_open w - {sk_fd s}" "ep_items w' = (ep_items w)(sk_item s := None)" "cl_app w' = cl_app w"
    "ep_dest_count w' = Some n" "dest_ok w'"
proof -
  define u where "u = w\<lparr>cl_live := False\<rparr>"
  have u: "watches u (sk_fd s) (sk_item s)" "ep_dest_count u = Some n"
    using n by (simp_all add: u_def, intro watches_cong [OF w]) simp_all
  obtain reg D r where
    rm: "repoll_remove (ce_net env) u (Item (sk_item s)) = Some (u\<lparr>nw_tick := Suc (nw_tick u), nw_reg := reg, ep_dest := D\<rparr>, r)"
    and reg: "reg = nw_reg u \<or> reg = (nw_reg u)(sk_fd s := None)" and D: "\<forall>i < nat n. D ! i \<noteq> None" "length D = length (ep_dest u)"
    by (rule remove_watches [OF u])
  have fd: "sk_fd s \<noteq> SOCKET_INVALID" using watchesD(1) [OF w] by simp
  have "reg(sk_fd s := None) = Map.empty"
  proof
    fix x show "(reg(sk_fd s := None)) x = None"
    proof (cases "nw_reg w x")
      case None
      then show ?thesis using reg by (auto simp: u_def)
    next
      case (Some y)
      then have "x = sk_fd s" using watchesD(4) [OF w, of x "fst y" "snd y"] by simp
      then show ?thesis by simp
    qed
  qed
  define v where "v = u\<lparr>nw_tick := Suc (nw_tick u), nw_reg := reg, ep_dest := D, ep_items := (ep_items w)(sk_item s := None)\<rparr>"
  define w' where "w' = (sys_close v (sk_fd s))\<lparr>cl_stream := None, cl_ds := (cl_ds w)\<lparr>ds_state := ripc_state_closed\<rparr>\<rparr>"
  have rel: "release_buffers w = Some u" using l(1) by (simp add: release_buffers_def u_def)
  have v: "u\<lparr>nw_tick := Suc (nw_tick u), nw_reg := reg, ep_dest := D,
      ep_items := (ep_items u)(sk_item s := None)\<rparr> = v"
    by (simp add: v_def u_def)
  have "cl_stream u = Some s" "cl_ds (sys_close v (sk_fd s)) = cl_ds w"
    using s by (simp_all add: u_def v_def sys_close_def tick_def)
  then have "ripc_close_c env w = Some (w', rcode_ok)"
    using l(2) fd by (simp add: ripc_close_c_def rel rm Let_def v rsocket_close_def w'_def)
  moreover have "dest_ok w'" using D watchesD(2) [OF w] n
    by (simp add: dest_ok_def w'_def v_def u_def sys_close_def tick_def)
  ultimately show thesis using \<open>reg(sk_fd s := None) = Map.empty\<close> n
    by (intro that [where w' = w']) (simp_all add: w'_def v_def u_def sys_close_def tick_def)
qed


section \<open>A started client\<close>

definition up :: "'w client \<Rightarrow> int \<Rightarrow> bool" where
  "up w fd \<longleftrightarrow> ds_state (cl_ds w) = ripc_state_start \<and> cl_live w \<and> ep_dest_count w \<noteq> None \<and>
    (\<exists>s. cl_stream w = Some s \<and> sk_fd s = fd \<and> watches w fd (sk_item s)) \<and>
    (\<exists>rc. ds_read_cache (cl_ds w) = Some rc \<and> rbuffer_inv rc) \<and>
    (\<exists>wb. ds_write_buff (cl_ds w) = Some wb \<and> rbuffer_inv wb)"

text \<open>After the connection was closed by an error.\<close>

definition down :: "'w client \<Rightarrow> bool" where
  "down w \<longleftrightarrow> ds_state (cl_ds w) = ripc_state_closed \<and> \<not> cl_live w \<and> cl_stream w = None \<and>
    ds_read_cache (cl_ds w) \<noteq> None \<and> ep_dest_count w \<noteq> None \<and> dest_ok w \<and> nw_reg w = Map.empty"

definition unsent :: "'w client \<Rightarrow> bytes" where
  "unsent w = (case ds_write_buff (cl_ds w) of None \<Rightarrow> [] | Some b \<Rightarrow> rbuffer_content b)"

text \<open>
  The bytes \<open>xs\<close> are on their way on the descriptor: all of them while the client is up, a beginning of
  them when the connection was lost.
\<close>

definition carries :: "'w client \<Rightarrow> int \<Rightarrow> bytes \<Rightarrow> bool" where
  "carries w fd xs \<longleftrightarrow> (up w fd \<and> nw_out w fd @ unsent w = xs) \<or> (down w \<and> (\<exists>ys. nw_out w fd @ ys = xs))"

lemma upE:
  assumes "up w fd"
  obtains s it wb rc n where "cl_stream w = Some s" "sk_fd s = fd" "watches w fd (sk_item s)" "ep_items w (sk_item s) = Some it"
    "ri_fd it = fd" "ds_state (cl_ds w) = ripc_state_start" "cl_live w" "ep_dest_count w = Some n"
    "ds_read_cache (cl_ds w) = Some rc" "rbuffer_inv rc" "ds_write_buff (cl_ds w) = Some wb" "rbuffer_inv wb"
  using assms watchesD(3) unfolding up_def by blast

lemma remask_watches:
  assumes "cl_stream w = Some s" "watches w (sk_fd s) (sk_item s)"
  obtains items reg r where
    "remask env w f = Some (w\<lparr>ep_items := items, nw_tick := Suc (nw_tick w), nw_reg := reg\<rparr>, r)"
    "watches (w\<lparr>ep_items := items, nw_tick := Suc (nw_tick w), nw_reg := reg\<rparr>) (sk_fd s) (sk_item s)"
proof -
  obtain it where it: "ep_items w (sk_item s) = Some it" "ri_fd it = sk_fd s" using watchesD(3) [OF assms(2)] by blast
  define it' where "it' = it\<lparr>ri_req := f (ri_req it)\<rparr>"
  define w1 where "w1 = w\<lparr>ep_items := (ep_items w)(sk_item s \<mapsto> it')\<rparr>"
  have it': "item_at w1 (Item (sk_item s)) = Some it'" "ri_fd it' = sk_fd s"
    using it by (simp_all add: item_at_def w1_def it'_def)
  have d: "dest_ok w1" using dest_ok_cong [of w1 w] watchesD(2) [OF assms(2)] by (simp add: w1_def)
  have "fd' = sk_fd s \<and> (p = Item (sk_item s) \<or> (\<exists>i. p = Dest i)) \<and> (\<exists>jt. item_at w1 p = Some jt \<and> ri_fd jt = sk_fd s)"
    if "nw_reg w1 fd' = Some (ev, p)" for fd' ev p
  proof -
    have "nw_reg w fd' = Some (ev, p)" using that by (simp add: w1_def)
    from watchesD(4) [OF assms(2) this] show ?thesis using it' by (auto simp: item_at_def w1_def split: if_splits)
  qed
  moreover have "\<exists>jt. ep_items w1 (sk_item s) = Some jt \<and> ri_fd jt = sk_fd s" using it'(2) by (simp add: w1_def)
  ultimately have W1: "watches w1 (sk_fd s) (sk_item s)"
    using d watchesD(1) [OF assms(2)] unfolding watches_def by blast
  obtain reg r where "repoll_modify (ce_net env) w1 (Item (sk_item s)) = Some (w1\<lparr>nw_tick := Suc (nw_tick w1), nw_reg := reg\<rparr>, r)"
      "watches (w1\<lparr>nw_tick := Suc (nw_tick w1), nw_reg := reg\<rparr>) (sk_fd s) (sk_item s)"
    by (rule modify_watches [OF W1 _ it']) blast
  moreover have "remask env w f = repoll_modify (ce_net env) w1 (Item (sk_item s))"
    using assms(1) it(1) by (simp add: remask_def w1_def it'_def)
  ultimately show ?thesis using that [where items = "(ep_items w)(sk_item s \<mapsto> it')" and reg = reg and r = r] by (simp add: w1_def)
qed

text \<open>An error on a client that is up takes it down; what the socket got is left.\<close>

lemma on_error_up:
  assumes "up w fd"
  obtains w' r where "ripc_on_error_c env w = Some (w', r)" "down w'" "nw_out w' = nw_out w"
    "ds_id (cl_ds w') = ds_id (cl_ds w)" "ep_dest_count w' = ep_dest_count w"
proof -
  obtain s n where s: "cl_stream w = Some s" "watches w (sk_fd s) (sk_item s)" "ep_dest_count w = Some n" "cl_live w"
      "ds_state (cl_ds w) \<noteq> ripc_state_closed" and cache: "ds_read_cache (cl_ds w) \<noteq> None" using assms by (auto elim!: upE)
  obtain w' where c: "ripc_close_c env w = Some (w', rcode_ok)" "cl_stream w' = None" "\<not> cl_live w'"
    "cl_ds w' = (cl_ds w)\<lparr>ds_state := ripc_state_closed\<rparr>" "nw_out w' = nw_out w" "ep_dest_count w' = Some n"
    "dest_ok w'" "nw_reg w' = Map.empty"
    by (rule close_watched [OF s, of env])
  show thesis
    using c s(3) cache by (intro that [of w']) (auto simp: ripc_on_error_c_def Let_def down_def)
qed

lemma on_error_down: "down w \<Longrightarrow> ripc_on_error_c env w = Some (w, if ce_in env \<noteq> None then ce_on_code env 1 else 0)"
  by (simp add: ripc_on_error_c_def ripc_close_c_def down_def Let_def)


text \<open>What \<open>up\<close> looks at.\<close>

lemma up_cong:
  assumes "up w fd" "ep_items w' = ep_items w" "ep_dest w' = ep_dest w" "ep_dest_count w' = ep_dest_count w"
    "ep_amount w' = ep_amount w" "nw_reg w' = nw_reg w" "cl_stream w' = cl_stream w" "cl_live w' = cl_live w"
    "ds_state (cl_ds w') = ds_state (cl_ds w)" "ds_read_cache (cl_ds w') = Some rc" "rbuffer_inv rc"
    "ds_write_buff (cl_ds w') = Some wb" "rbuffer_inv wb"
  shows "up w' fd"
proof -
  obtain s where s: "cl_stream w = Some s" "sk_fd s = fd" "watches w fd (sk_item s)" "ds_state (cl_ds w) = ripc_state_start"
      "cl_live w" "ep_dest_count w \<noteq> None" using assms(1) by (auto simp: up_def)
  have "watches w' fd (sk_item s)" using watches_cong [OF s(3) assms(2-5)] assms(6) by blast
  then show ?thesis using s assms by (auto simp: up_def)
qed

text \<open>A changed mask leaves a client up.\<close>

lemma remask_up:
  assumes "up w fd"
  obtains w' r where "remask env w f = Some (w', r)" "up w' fd" "nw_out w' = nw_out w" "cl_ds w' = cl_ds w"
    "ep_dest_count w' = ep_dest_count w"
proof -
  from assms obtain s it wb rc n where U: "cl_stream w = Some s" "sk_fd s = fd" "watches w fd (sk_item s)"
    "ep_items w (sk_item s) = Some it" "ri_fd it = fd" "ds_state (cl_ds w) = ripc_state_start" "cl_live w"
    "ep_dest_count w = Some n" "ds_read_cache (cl_ds w) = Some rc" "rbuffer_inv rc"
    "ds_write_buff (cl_ds w) = Some wb" "rbuffer_inv wb" by (rule upE)
  obtain items reg r where
    m: "remask env w f = Some (w\<lparr>ep_items := items, nw_tick := Suc (nw_tick w), nw_reg := reg\<rparr>, r)"
    "watches (w\<lparr>ep_items := items, nw_tick := Suc (nw_tick w), nw_reg := reg\<rparr>) (sk_fd s) (sk_item s)"
    by (rule remask_watches [OF U(1) U(3) [folded U(2)]])
  show thesis using U m by (intro that [OF m(1)]) (auto simp: up_def)
qed

lemma content_get: "rbuffer_inv b \<Longrightarrow> mem_get (rb_data b) (rb_offset b) (rbuffer_size b) = Some (rbuffer_content b)"
  by (auto simp: rbuffer_inv_def rbuffer_size_def rbuffer_content_def mem_get_in)

lemma skip_content:
  assumes "rbuffer_inv b" "k \<le> length (rbuffer_content b)"
  shows "\<exists>b'. rbuffer_skip (Some b) (int k) = Some (Some b', rcode_ok) \<and> rbuffer_inv b' \<and>
    rbuffer_content b' = drop k (rbuffer_content b)"
proof -
  have k: "int k \<le> rb_pos b - rb_offset b" using assms rbuffer_content_length [OF assms(1)] by (simp add: rbuffer_size_def)
  have b: "0 \<le> rb_offset b" "rb_pos b \<le> INT_MAX" "rb_pos b \<le> int (length (rb_data b))"
    using assms(1) by (auto simp: rbuffer_inv_def)
  obtain b' where b': "rbuffer_skip (Some b) (int k) = Some (Some b', rcode_ok)" "rbuffer_inv b'"
      "rb_offset b' = rb_offset b + int k" "rb_pos b' = rb_pos b" "rb_data b' = rb_data b"
    using rbuffer_skip_spec [OF assms(1), of "int k"] k b by fastforce
  have "rbuffer_content b' = drop k (rbuffer_content b)"
    using k b(1) by (simp add: rbuffer_content_def rbuffer_size_def b'(3-5) drop_take nat_diff_distrib nat_add_distrib
      algebra_simps)
  with b'(1,2) show ?thesis by blast
qed

lemma timer_bounds: "0 \<le> tm_block (timer_millisec env w 3) \<and> 0 \<le> tm_total (timer_millisec env w 3) \<and>
    0 \<le> tm_block (timer_millisec env w 1) \<and> 0 \<le> tm_total (timer_millisec env w 1)"
  by (simp add: timer_millisec_def rtimeout_begin_def rtimeout_init_millisec_def rtimeout_init_microsec_def)

text \<open>Sending moves bytes from the buffer to the socket.\<close>

lemma send_data_up:
  assumes up: "up w fd" and clock: "clock_runs (ce_net env)"
  obtains w' r where "ripc_send_data_c env w = Some (w', r)" "carries w' fd (nw_out w fd @ unsent w)"
    "ds_id (cl_ds w') = ds_id (cl_ds w)" "ep_dest_count w' = ep_dest_count w"
proof -
  from up obtain s it wb rc n where U: "cl_stream w = Some s" "sk_fd s = fd" "watches w fd (sk_item s)"
    "ep_items w (sk_item s) = Some it" "ri_fd it = fd" "ds_state (cl_ds w) = ripc_state_start" "cl_live w"
    "ep_dest_count w = Some n" "ds_read_cache (cl_ds w) = Some rc" "rbuffer_inv rc"
    "ds_write_buff (cl_ds w) = Some wb" "rbuffer_inv wb" by (rule upE)
  let ?tm = "timer_millisec (ce_net env) w 3"
  obtain w1 k code where snd: "rsocket_send (ce_net env) w s (rbuffer_content wb) ?tm = Some (w1, k, code)"
    using send_recv_return(1) [OF clock, of ?tm w s] timer_bounds by fastforce
  from snd obtain t where w1: "w1 = w\<lparr>nw_tick := t, nw_out := (nw_out w)(fd := nw_out w fd @ take k (rbuffer_content wb))\<rparr>"
    and k: "k \<le> length (rbuffer_content wb)" "code \<noteq> rcode_io_done \<longrightarrow> k = 0"
    unfolding U(2) [symmetric] by (rule rsocket_send_result)
  have up1: "up w1 fd" by (rule up_cong [OF up, where rc = rc and wb = wb]) (use U w1 in simp_all)
  have live: "live_buffer w (ds_write_buff (cl_ds w)) = Some wb" using U by (simp add: live_buffer_def)
  have un: "unsent w = rbuffer_content wb" using U by (simp add: unsent_def)
  show thesis
  proof (cases "code = rcode_io_done")
    case False
    obtain w2 r where e: "ripc_on_error_c env w1 = Some (w2, r)" "down w2" "nw_out w2 = nw_out w1"
        "ds_id (cl_ds w2) = ds_id (cl_ds w1)" "ep_dest_count w2 = ep_dest_count w1" by (rule on_error_up [OF up1])
    have "ripc_send_data_c env w = Some (w2, rcode_io_closed)"
      using U(1) live content_get [OF U(12)] snd False e(1) by (simp add: ripc_send_data_c_def)
    moreover have "carries w2 fd (nw_out w fd @ unsent w)" using e(2,3) k(2) False by (auto simp: carries_def w1)
    ultimately show thesis using that e(4,5) w1 by simp
  next
    case True
    obtain wb1 where wb1: "rbuffer_skip (Some wb) (int k) = Some (Some wb1, rcode_ok)" "rbuffer_inv wb1"
        "rbuffer_content wb1 = drop k (rbuffer_content wb)"
      using skip_content [OF U(12) k(1)] by blast
    define w2 where "w2 = w1\<lparr>cl_ds := (cl_ds w1)\<lparr>ds_write_buff := Some wb1\<rparr>\<rparr>"
    have up2: "up w2 fd" by (rule up_cong [OF up1, where rc = rc and wb = wb1]) (use U w1 wb1 in \<open>simp_all add: w2_def\<close>)
    have "nw_out w2 fd @ unsent w2 = nw_out w fd @ unsent w" using wb1(3) un by (simp add: w2_def w1 unsent_def)
    then have c2: "carries w2 fd (nw_out w fd @ unsent w)" using up2 by (simp add: carries_def)
    have run: "ripc_send_data_c env w = (if rbuffer_size wb1 = 0
        then do { (w3, ret) \<leftarrow> remask env w2 repoll_unset_event_out; Some (w3, if ret \<noteq> rcode_ok then ret else rcode_ok) }
        else Some (w2, rcode_ok))"
      using U(1) live content_get [OF U(12)] snd True wb1(1) by (simp add: ripc_send_data_c_def w2_def)
    obtain w3 r where m: "remask env w2 repoll_unset_event_out = Some (w3, r)" "up w3 fd" "nw_out w3 = nw_out w2"
        "cl_ds w3 = cl_ds w2" "ep_dest_count w3 = ep_dest_count w2" by (rule remask_up [OF up2])
    have c3: "carries w3 fd (nw_out w fd @ unsent w)" using c2 up2 m by (auto simp: carries_def unsent_def down_def up_def)
    show thesis
      using run m(1) c2 c3 m(4,5) w1 by (cases "rbuffer_size wb1 = 0") (auto intro!: that simp: w2_def)
  qed
qed


text \<open>A receiving handler that returns and works on the read cache only.\<close>

definition reads_only :: "(ripc_data_source \<Rightarrow> 32 word \<Rightarrow> 'w \<Rightarrow> (ripc_data_source \<times> 'w \<times> int) option) \<Rightarrow> bool" where
  "reads_only inp \<longleftrightarrow> (\<forall>ds n app b. ds_read_cache ds = Some b \<and> rbuffer_inv b \<and> rb_pos b + uint n \<le> rb_capacity b \<longrightarrow>
    (\<exists>c app' r. inp ds n app = Some (ds\<lparr>ds_read_cache := Some c\<rparr>, app', r) \<and> rbuffer_inv c))"

lemma receive_data_up:
  assumes up: "up w fd" and clock: "clock_runs (ce_net env)" and inp: "\<And>p. ce_in env = Some p \<Longrightarrow> reads_only p"
  obtains w' r where "ripc_receive_data_c env w = Some (w', r)" "carries w' fd (nw_out w fd @ unsent w)"
    "ds_id (cl_ds w') = ds_id (cl_ds w)" "ep_dest_count w' = ep_dest_count w"
proof -
  from up obtain s it wb rc n where U: "cl_stream w = Some s" "sk_fd s = fd" "watches w fd (sk_item s)"
    "ep_items w (sk_item s) = Some it" "ri_fd it = fd" "ds_state (cl_ds w) = ripc_state_start" "cl_live w"
    "ep_dest_count w = Some n" "ds_read_cache (cl_ds w) = Some rc" "rbuffer_inv rc"
    "ds_write_buff (cl_ds w) = Some wb" "rbuffer_inv wb" by (rule upE)
  let ?tm = "timer_millisec (ce_net env) w 1"
  have left: "0 \<le> rbuffer_left rc" "rbuffer_left rc \<le> INT_MAX" "0 \<le> rb_pos rc" "rb_capacity rc = int (length (rb_data rc))"
    using U(10) by (auto simp: rbuffer_inv_def rbuffer_left_def)
  have cnt: "nat (rbuffer_left rc mod 18446744073709551616) = nat (rbuffer_left rc)" using left by (simp add: mod_pos_pos_trivial)
  obtain w1 got code where rcv: "rsocket_recv (ce_net env) w s (nat (rbuffer_left rc)) ?tm = Some (w1, got, code)"
    using send_recv_return(2) [OF clock, of ?tm w s] timer_bounds by fastforce
  from rcv obtain t where w1: "w1 = w\<lparr>nw_tick := t\<rparr>" and got: "length got \<le> nat (rbuffer_left rc)"
    by (rule rsocket_recv_result)
  have fit: "rb_pos rc + int (length got) \<le> rb_capacity rc" using got left by (simp add: rbuffer_left_def)
  define rc1 where "rc1 = rc\<lparr>rb_data := take (nat (rb_pos rc)) (rb_data rc) @ got @ drop (nat (rb_pos rc) + length got) (rb_data rc)\<rparr>"
  have rc1: "rbuffer_inv rc1" "rb_pos rc1 = rb_pos rc" "rb_capacity rc1 = rb_capacity rc"
    using U(10) fit by (auto simp: rc1_def rbuffer_inv_def)
  have put: "mem_put (rb_data rc) (rb_pos rc) got = Some (rb_data rc1)"
    using fit left by (simp add: mem_put_in rc1_def)
  have rceq: "rc\<lparr>rb_data := rb_data rc1\<rparr> = rc1" by (simp add: rc1_def)
  define w2 where "w2 = w1\<lparr>cl_ds := (cl_ds w1)\<lparr>ds_read_cache := Some rc1\<rparr>\<rparr>"
  have up2: "up w2 fd" by (rule up_cong [OF up, where rc = rc1 and wb = wb]) (use U w1 rc1 in \<open>simp_all add: w2_def\<close>)
  have same2: "nw_out w2 = nw_out w" "unsent w2 = unsent w" "ds_id (cl_ds w2) = ds_id (cl_ds w)" "ep_dest_count w2 = ep_dest_count w"
    by (simp_all add: w2_def w1 unsent_def)
  have live: "live_buffer w (ds_read_cache (cl_ds w)) = Some rc" using U by (simp add: live_buffer_def)
  have run: "ripc_receive_data_c env w =
     (if code \<noteq> rcode_io_done \<and> code \<noteq> rcode_io_timeout
       then do { (w3, _) \<leftarrow> ripc_on_error_c env w2; Some (w3, rcode_io_closed) }
       else (case ce_in env of
           None \<Rightarrow> Some (w2, rcode_ok)
         | Some process \<Rightarrow>
             if got = [] then Some (w2, rcode_ok)
             else do {
               (ds1, app1, ret) \<leftarrow> process (cl_ds w2) (word_of_nat (length got)) (cl_app w2);
               Some (w2\<lparr>cl_ds := ds1, cl_app := app1\<rparr>,
                     if ret \<noteq> rcode_err_ok then ipc_code rcode_err_ipc_decode else rcode_ok)
             }))"
    using U(1,6) live rcv put by (simp add: ripc_receive_data_c_def cnt rceq Let_def w2_def cong: if_cong option.case_cong)
  have c2: "carries w2 fd (nw_out w fd @ unsent w)" using up2 same2 by (simp add: carries_def)
  show thesis
  proof (cases "code \<noteq> rcode_io_done \<and> code \<noteq> rcode_io_timeout")
    case True
    obtain w3 r where e: "ripc_on_error_c env w2 = Some (w3, r)" "down w3" "nw_out w3 = nw_out w2"
        "ds_id (cl_ds w3) = ds_id (cl_ds w2)" "ep_dest_count w3 = ep_dest_count w2" by (rule on_error_up [OF up2])
    have "carries w3 fd (nw_out w fd @ unsent w)" using e(2,3) same2 by (auto simp: carries_def)
    moreover have "ripc_receive_data_c env w = Some (w3, rcode_io_closed)" unfolding run using True e(1) by simp
    ultimately show thesis using that e(4,5) same2 by simp
  next
    case False
    show thesis
    proof (cases "ce_in env = None \<or> got = []")
      case True
      then have "ripc_receive_data_c env w = Some (w2, rcode_ok)" unfolding run using False by (auto split: option.splits)
      then show thesis using that c2 same2 by simp
    next
      case handled: False
      then obtain process where p: "ce_in env = Some process" "got \<noteq> []" by auto
      have "uint (word_of_nat (length got) :: 32 word) = int (length got)"
        using got left by (simp add: unsigned_of_nat take_bit_nat_eq_self)
      then have "ds_read_cache (cl_ds w2) = Some rc1 \<and> rbuffer_inv rc1 \<and>
          rb_pos rc1 + uint (word_of_nat (length got) :: 32 word) \<le> rb_capacity rc1"
        using rc1 fit by (simp add: w2_def)
      with inp [OF p(1), unfolded reads_only_def] obtain c app' r where h:
          "process (cl_ds w2) (word_of_nat (length got)) (cl_app w2) = Some ((cl_ds w2)\<lparr>ds_read_cache := Some c\<rparr>, app', r)"
          "rbuffer_inv c" by blast
      define w3 where "w3 = w2\<lparr>cl_ds := (cl_ds w2)\<lparr>ds_read_cache := Some c\<rparr>, cl_app := app'\<rparr>"
      have "ripc_receive_data_c env w = Some (w3, if r \<noteq> rcode_err_ok then ipc_code rcode_err_ipc_decode else rcode_ok)"
        unfolding run using False p h(1) by (auto simp add: w3_def)
      moreover have "up w3 fd"
        by (rule up_cong [OF up2, where rc = c and wb = wb]) (use U(11,12) h(2) w1 in \<open>simp_all add: w3_def w2_def\<close>)
      then have "carries w3 fd (nw_out w fd @ unsent w)" using same2 by (simp add: carries_def w3_def unsent_def)
      ultimately show thesis using that same2 by (simp add: w3_def)
    qed
  qed
qed

section \<open>The client and its encoder\<close>

text \<open>Whether the encoder takes a message into the buffer.\<close>

definition queued :: "'w client_env \<Rightarrow> 'w client \<Rightarrow> ripc_data_default \<Rightarrow> bool" where
  "queued env w m \<longleftrightarrow> cl_stream w \<noteq> None \<and> ds_state (cl_ds w) = ripc_state_start \<and>
    (case ce_out env of None \<Rightarrow> False
     | Some process \<Rightarrow> (case process (cl_ds w) m of None \<Rightarrow> False | Some (_, _, ret) \<Rightarrow> ret = rcode_err_ok))"

text \<open>
  What the client needs of its outgoing handler: a message it takes is appended to the buffer as one
  frame, one it refuses changes nothing in it.
\<close>

locale frame_sender =
  fixes out :: ipc_handler and frame :: "64 word \<Rightarrow> ripc_data_default \<Rightarrow> bytes" and good :: "ripc_data_default \<Rightarrow> bool"
  assumes framed: "ds_write_buff ds = Some b \<Longrightarrow> rbuffer_inv b \<Longrightarrow> good m \<Longrightarrow>
    \<exists>b' m' r. out ds m = Some (ds\<lparr>ds_write_buff := Some b'\<rparr>, m', r) \<and> rbuffer_inv b' \<and>
      rbuffer_content b' = rbuffer_content b @ (if r = rcode_err_ok then frame (ds_id ds) m else [])"
begin

lemma send_2buffer_up:
  assumes up: "up w fd" and out: "ce_out env = Some out" and good: "good m"
  shows "\<exists>w' m' r. ripc_send_data_2buffer_c env w m = Some (w', m', r) \<and> up w' fd \<and>
    nw_out w' fd @ unsent w' = nw_out w fd @ unsent w @ (if queued env w m then frame (ds_id (cl_ds w)) m else []) \<and>
    ds_id (cl_ds w') = ds_id (cl_ds w)"
proof -
  from up obtain s it wb rc n where U: "cl_stream w = Some s" "sk_fd s = fd" "watches w fd (sk_item s)"
    "ep_items w (sk_item s) = Some it" "ri_fd it = fd" "ds_state (cl_ds w) = ripc_state_start" "cl_live w"
    "ep_dest_count w = Some n" "ds_read_cache (cl_ds w) = Some rc" "rbuffer_inv rc"
    "ds_write_buff (cl_ds w) = Some wb" "rbuffer_inv wb" by (rule upE)
  from framed [OF U(11,12) good] obtain b' m' r where
    o: "out (cl_ds w) m = Some ((cl_ds w)\<lparr>ds_write_buff := Some b'\<rparr>, m', r)" "rbuffer_inv b'"
      "rbuffer_content b' = rbuffer_content wb @ (if r = rcode_err_ok then frame (ds_id (cl_ds w)) m else [])" by blast
  have q: "queued env w m \<longleftrightarrow> r = rcode_err_ok" using U(1,6) out o(1) by (simp add: queued_def)
  define w1 where "w1 = w\<lparr>cl_ds := (cl_ds w)\<lparr>ds_write_buff := Some b'\<rparr>\<rparr>"
  have up1: "up w1 fd" by (rule up_cong [OF up, where rc = rc and wb = b']) (use U o in \<open>simp_all add: w1_def\<close>)
  have c1: "nw_out w1 fd @ unsent w1 = nw_out w fd @ unsent w @ (if queued env w m then frame (ds_id (cl_ds w)) m else [])"
    using o(3) q U(11) by (simp add: w1_def unsent_def)
  have run: "ripc_send_data_2buffer_c env w m =
     (if r \<noteq> rcode_err_ok then Some (w1, m', r)
      else if rbuffer_size b' > 0 then do {
           (w2, ret_code) \<leftarrow> remask env w1 repoll_set_event_out;
           Some (w2, m', if ret_code \<noteq> rcode_ok then ret_code else rcode_ok)
         } else Some (w1, m', rcode_ok))"
    using U(1,6,7,11) out o(1) by (simp add: ripc_send_data_2buffer_c_def live_buffer_def w1_def)
  obtain w2 c where m: "remask env w1 repoll_set_event_out = Some (w2, c)" "up w2 fd" "nw_out w2 = nw_out w1"
      "cl_ds w2 = cl_ds w1" by (rule remask_up [OF up1])
  have c2: "nw_out w2 fd @ unsent w2 = nw_out w1 fd @ unsent w1" using m by (simp add: unsent_def)
  have i1: "ds_id (cl_ds w1) = ds_id (cl_ds w)" by (simp add: w1_def)
  show ?thesis
  proof (cases "r = rcode_err_ok \<and> rbuffer_size b' > 0")
    case True
    then have "ripc_send_data_2buffer_c env w m = Some (w2, m', c)" unfolding run using m(1) by simp
    then show ?thesis using m c1 c2 i1 by (intro exI [of _ w2] exI [of _ m'] exI [of _ c]) simp
  next
    case False
    then have "ripc_send_data_2buffer_c env w m = Some (w1, m', r)" unfolding run by auto
    then show ?thesis using up1 c1 i1 by (intro exI [of _ w1] exI [of _ m'] exI [of _ r]) simp
  qed
qed

end

text \<open>The encoder of \<open>rcodec_default.c\<close>, on messages it cannot mistake the length of.\<close>

definition sendable :: "ripc_data_default \<Rightarrow> bool" where
  "sendable m \<longleftrightarrow> msg_ok m \<and> length (msg_payload m) < 2 ^ 31"

interpretation codec_out: frame_sender "encode_process None" "\<lambda>sid m. frame_of (sent_msg sid m)" sendable
proof
  fix ds :: ripc_data_source and b m
  assume b: "ds_write_buff ds = Some b" "rbuffer_inv b" and "sendable m"
  then obtain p where p: "id_data m = Some p" "p \<noteq> []" "id_len m = word_of_nat (length p)" "length p < 2 ^ 31"
    by (auto simp: sendable_def msg_ok_def msg_payload_def split: option.splits)
  let ?left = "if rbuffer_size b = 0 then rb_capacity b else rbuffer_left b"
  have len: "uint (id_len m + 32) = 32 + int (length p)"
    using p(3,4) by (simp add: uint_word_ariths unsigned_of_nat take_bit_nat_eq_self mod_pos_pos_trivial)
  have ok: "ipc_code rcode_err_ipc_cache_full \<noteq> rcode_err_ok" by simp
  show "\<exists>b' m' r. encode_process None ds m = Some (ds\<lparr>ds_write_buff := Some b'\<rparr>, m', r) \<and> rbuffer_inv b' \<and>
      rbuffer_content b' = rbuffer_content b @ (if r = rcode_err_ok then frame_of (sent_msg (ds_id ds) m) else [])"
  proof (cases "32 + int (length p) \<le> ?left")
    case True
    from encode_process_frame [OF b p(1,3) _ order_refl True] p(2)
    obtain b' m' where "encode_process None ds m = Some (ds\<lparr>ds_write_buff := Some b'\<rparr>, m', rcode_err_ok)"
      "rbuffer_inv b'" "rbuffer_content b' = rbuffer_content b @ wire_frame (ds_id ds) m p" by auto
    then show ?thesis using p(1) by (intro exI [of _ b'] exI [of _ m'] exI [of _ 0]) (simp add: sent_msg_def msg_payload_def)
  next
    case False
    then have "uint (id_len m + 32) > ?left" using len by linarith
    from encode_process_full [OF b this, of None] obtain b' where
      "encode_process None ds m = Some (ds\<lparr>ds_write_buff := Some b'\<rparr>, m, ipc_code rcode_err_ipc_cache_full)"
      "rbuffer_inv b'" "rbuffer_content b' = rbuffer_content b" by blast
    then show ?thesis using ok
      by (intro exI [of _ b'] exI [of _ m] exI [of _ "ipc_code rcode_err_ipc_cache_full"]) simp
  qed
qed

section \<open>A round of the client\<close>

lemma carries_item:
  assumes "carries w fd xs" "ep_dest_count w = Some n" "i < nat n"
  shows "\<exists>it. item_at w (Dest i) = Some it"
proof (cases "up w fd")
  case True
  then obtain s :: rsocket where "watches w fd (sk_item s)" unfolding up_def by blast
  then have "dest_ok w" by (rule watchesD(2))
  then show ?thesis using assms(2,3) by (auto simp: dest_ok_def item_at_def)
next
  case False
  then have "dest_ok w" using assms(1) by (simp add: carries_def down_def)
  then show ?thesis using assms(2,3) by (auto simp: dest_ok_def item_at_def)
qed

lemma carries_state:
  "carries w fd xs \<Longrightarrow> ds_state (cl_ds w) = ripc_state_start \<longleftrightarrow> up w fd"
  by (auto simp: carries_def up_def down_def)

text \<open>An error, a sending and a receiving keep the stream.\<close>

lemma on_error_carries:
  assumes "carries w fd xs"
  shows "\<exists>w' r. ripc_on_error_c env w = Some (w', r) \<and> carries w' fd xs \<and> ds_id (cl_ds w') = ds_id (cl_ds w) \<and>
    ep_dest_count w' = ep_dest_count w"
proof (cases "up w fd")
  case True
  obtain w' r where e: "ripc_on_error_c env w = Some (w', r)" "down w'" "nw_out w' = nw_out w"
    "ds_id (cl_ds w') = ds_id (cl_ds w)" "ep_dest_count w' = ep_dest_count w" by (rule on_error_up [OF True])
  moreover have "carries w' fd xs" using assms True e(2,3) by (auto simp: carries_def up_def down_def)
  ultimately show ?thesis by blast
next
  case False
  then have "down w" using assms by (simp add: carries_def)
  then show ?thesis using assms on_error_down by blast
qed

definition event_send :: "'w client_env \<Rightarrow> 16 word \<Rightarrow> 'w client \<Rightarrow> ('w client \<times> int) option" where
  "event_send env ev w = (if repoll_check_event_out ev \<and> ds_state (cl_ds w) = ripc_state_start
     then ripc_send_data_c env w else Some (w, 0))"

definition event_receive :: "'w client_env \<Rightarrow> 16 word \<Rightarrow> 'w client \<Rightarrow> ('w client \<times> int) option" where
  "event_receive env ev w = (if repoll_check_event_in ev \<and> ds_state (cl_ds w) = ripc_state_start
     then ripc_receive_data_c env w else Some (w, 0))"

lemma event_send_carries:
  assumes "carries w fd xs" "clock_runs (ce_net env)"
  shows "\<exists>w' r. event_send env ev w = Some (w', r) \<and> carries w' fd xs \<and> ds_id (cl_ds w') = ds_id (cl_ds w) \<and>
    ep_dest_count w' = ep_dest_count w"
proof (cases "repoll_check_event_out ev \<and> ds_state (cl_ds w) = ripc_state_start")
  case True
  then have up: "up w fd" using carries_state [OF assms(1)] by blast
  then have xs: "nw_out w fd @ unsent w = xs" using assms(1) by (auto simp: carries_def up_def down_def)
  obtain w' r where "ripc_send_data_c env w = Some (w', r)" "carries w' fd (nw_out w fd @ unsent w)"
    "ds_id (cl_ds w') = ds_id (cl_ds w)" "ep_dest_count w' = ep_dest_count w" by (rule send_data_up [OF up assms(2)])
  then show ?thesis using True xs by (simp add: event_send_def)
qed (use assms(1) in \<open>auto simp: event_send_def\<close>)

lemma event_receive_carries:
  assumes "carries w fd xs" "clock_runs (ce_net env)" "\<And>p. ce_in env = Some p \<Longrightarrow> reads_only p"
  shows "\<exists>w' r. event_receive env ev w = Some (w', r) \<and> carries w' fd xs \<and> ds_id (cl_ds w') = ds_id (cl_ds w) \<and>
    ep_dest_count w' = ep_dest_count w"
proof (cases "repoll_check_event_in ev \<and> ds_state (cl_ds w) = ripc_state_start")
  case True
  then have up: "up w fd" using carries_state [OF assms(1)] by blast
  then have xs: "nw_out w fd @ unsent w = xs" using assms(1) by (auto simp: carries_def up_def down_def)
  obtain w' r where "ripc_receive_data_c env w = Some (w', r)" "carries w' fd (nw_out w fd @ unsent w)"
    "ds_id (cl_ds w') = ds_id (cl_ds w)" "ep_dest_count w' = ep_dest_count w"
    by (rule receive_data_up [OF up assms(2,3)])
  then show ?thesis using True xs by (simp add: event_receive_def)
qed (use assms(1) in \<open>auto simp: event_receive_def\<close>)

lemma check_items_carries:
  assumes "clock_runs (ce_net env)" "\<And>p. ce_in env = Some p \<Longrightarrow> reads_only p"
  shows "carries w fd xs \<Longrightarrow> ep_dest_count w = Some n \<Longrightarrow> \<forall>i \<in> set is. i < nat n \<Longrightarrow>
    \<exists>w' r. check_items env is w = Some (w', r) \<and> carries w' fd xs \<and> ds_id (cl_ds w') = ds_id (cl_ds w)"
proof (induction "is" arbitrary: w)
  case Nil
  then show ?case by simp
next
  case (Cons i "is")
  have i: "i < nat n" and rest: "\<forall>i \<in> set is. i < nat n" using Cons.prems(3) by auto
  obtain it where it: "item_at w (Dest i) = Some it" using carries_item [OF Cons.prems(1,2) i] by blast
  have next_round: "\<exists>w' r. check_items env is v = Some (w', r) \<and> carries w' fd xs \<and> ds_id (cl_ds w') = ds_id (cl_ds w)"
    if v: "carries v fd xs" "ds_id (cl_ds v) = ds_id (cl_ds w)" "ep_dest_count v = ep_dest_count w" for v
    using Cons.IH [OF v(1) _ rest] v(2,3) Cons.prems(2) by simp
  consider "ri_fd it = 0" | "ri_fd it \<noteq> 0" "repoll_check_event_err (ri_rsp it)"
    | "ri_fd it \<noteq> 0" "\<not> repoll_check_event_err (ri_rsp it)" by blast
  then show ?case
  proof cases
    case 1
    then show ?thesis using it next_round [OF Cons.prems(1)] by simp
  next
    case 2
    obtain w1 r where e: "ripc_on_error_c env w = Some (w1, r)" "carries w1 fd xs" "ds_id (cl_ds w1) = ds_id (cl_ds w)"
      "ep_dest_count w1 = ep_dest_count w" using on_error_carries [OF Cons.prems(1)] by blast
    show ?thesis using it 2 e next_round [OF e(2-4)] by (cases "r = rcode_ok") simp_all
  next
    case 3
    obtain w1 r where s: "event_send env (ri_rsp it) w = Some (w1, r)" "carries w1 fd xs" "ds_id (cl_ds w1) = ds_id (cl_ds w)"
      "ep_dest_count w1 = ep_dest_count w" using event_send_carries [OF Cons.prems(1) assms(1)] by blast
    obtain w2 r' where v: "event_receive env (ri_rsp it) w1 = Some (w2, r')" "carries w2 fd xs"
      "ds_id (cl_ds w2) = ds_id (cl_ds w)" "ep_dest_count w2 = ep_dest_count w"
      using event_receive_carries [OF s(2) assms] s(3,4) by metis
    have "check_items env (i # is) w = check_items env is w2"
      using it 3 s(1) v(1) unfolding event_send_def event_receive_def by simp
    then show ?thesis using next_round [OF v(2-4)] by simp
  qed
qed

text \<open>A container that watches nothing reports nothing.\<close>

lemma poll_nothing:
  assumes "nw_reg w = Map.empty" "dest_ok w"
  shows "\<exists>r. repoll_poll env w = Some (w\<lparr>nw_tick := Suc (nw_tick w), ep_dest_count := Some 0\<rparr>, r) \<and>
    dest_ok (w\<lparr>nw_tick := Suc (nw_tick w), ep_dest_count := Some 0\<rparr>)"
proof -
  have "ready_events w evs = []" for evs
    using ready_events_reg [of _ _ w evs] assms(1) by (cases "ready_events w evs") fastforce+
  then have "\<exists>r. repoll_poll env w = Some (w\<lparr>nw_tick := Suc (nw_tick w), ep_dest_count := Some 0\<rparr>, r)"
    by (auto simp: repoll_poll_def sys_epoll_wait_def tick_def split: answer.splits)
  moreover have "dest_ok (w\<lparr>nw_tick := Suc (nw_tick w), ep_dest_count := Some 0\<rparr>)"
    using assms(2) by (auto simp: dest_ok_def split: option.splits)
  ultimately show ?thesis by blast
qed

lemma poll_carries:
  assumes "carries w fd xs"
  shows "\<exists>w' n r. repoll_poll env w = Some (w', r) \<and> carries w' fd xs \<and> cl_ds w' = cl_ds w \<and> ep_dest_count w' = Some n"
proof (cases "up w fd")
  case True
  from True obtain s it wb rc n where U: "cl_stream w = Some s" "sk_fd s = fd" "watches w fd (sk_item s)"
    "ep_items w (sk_item s) = Some it" "ri_fd it = fd" "ds_state (cl_ds w) = ripc_state_start" "cl_live w"
    "ep_dest_count w = Some n" "ds_read_cache (cl_ds w) = Some rc" "rbuffer_inv rc"
    "ds_write_buff (cl_ds w) = Some wb" "rbuffer_inv wb" by (rule upE)
  obtain D n r where p: "repoll_poll env w = Some (w\<lparr>nw_tick := Suc (nw_tick w), ep_dest := D, ep_dest_count := Some n\<rparr>, r)"
    "watches (w\<lparr>nw_tick := Suc (nw_tick w), ep_dest := D, ep_dest_count := Some n\<rparr>) fd (sk_item s)"
    by (rule poll_watches [OF U(3), of env])
  let ?w' = "w\<lparr>nw_tick := Suc (nw_tick w), ep_dest := D, ep_dest_count := Some n\<rparr>"
  have "up ?w' fd" using U p(2) by (auto simp: up_def)
  then have "carries ?w' fd xs" using assms True by (auto simp: carries_def up_def down_def unsent_def)
  then show ?thesis using p(1) by (intro exI [of _ ?w'] exI [of _ n] exI [of _ r]) simp
next
  case False
  then have d: "down w" using assms by (simp add: carries_def)
  obtain r where p: "repoll_poll env w = Some (w\<lparr>nw_tick := Suc (nw_tick w), ep_dest_count := Some 0\<rparr>, r)"
    "dest_ok (w\<lparr>nw_tick := Suc (nw_tick w), ep_dest_count := Some 0\<rparr>)"
    using poll_nothing [of w env] d by (auto simp: down_def)
  let ?w' = "w\<lparr>nw_tick := Suc (nw_tick w), ep_dest_count := Some 0\<rparr>"
  have "carries ?w' fd xs" using assms d p(2) by (auto simp: carries_def up_def down_def)
  then show ?thesis using p(1) by (intro exI [of _ ?w'] exI [of _ 0] exI [of _ r]) simp
qed

lemma check_data_carries:
  assumes "clock_runs (ce_net env)" "\<And>p. ce_in env = Some p \<Longrightarrow> reads_only p" "carries w fd xs"
  shows "\<exists>w' r. ripc_check_data_c env w = Some (w', r) \<and> carries w' fd xs \<and> ds_id (cl_ds w') = ds_id (cl_ds w)"
proof -
  obtain w1 n r where p: "repoll_poll (ce_net env) w = Some (w1, r)" "carries w1 fd xs" "cl_ds w1 = cl_ds w" "ep_dest_count w1 = Some n"
    using poll_carries [OF assms(3)] by blast
  have "\<forall>i \<in> set [0..<nat n]. i < nat n" by simp
  from check_items_carries [OF assms(1,2) p(2,4) this] obtain w2 r2 where
    c: "check_items env [0..<nat n] w1 = Some (w2, r2)" "carries w2 fd xs" "ds_id (cl_ds w2) = ds_id (cl_ds w1)" by blast
  show ?thesis
  proof (cases "r = rcode_ok")
    case True
    then have "ripc_check_data_c env w = Some (w2, r2)" using p(1,4) c(1) by (simp add: ripc_check_data_c_def)
    then show ?thesis using c(2,3) p(3) by simp
  next
    case False
    then have "ripc_check_data_c env w = Some (w1, r)" using p(1) by (simp add: ripc_check_data_c_def)
    then show ?thesis using p(2,3) by simp
  qed
qed

section \<open>Starting\<close>

text \<open>Opened, waiting for the connection.\<close>

definition pending :: "'w client \<Rightarrow> int \<Rightarrow> bool" where
  "pending w fd \<longleftrightarrow> ds_state (cl_ds w) = ripc_state_ready_pending \<and>
    (\<exists>s. cl_stream w = Some s \<and> sk_fd s = fd \<and> watches w fd (sk_item s))"

definition started_from :: "'w client \<Rightarrow> int \<Rightarrow> 'w client \<Rightarrow> bool" where
  "started_from w fd w' \<longleftrightarrow> up w' fd \<and> nw_out w' = nw_out w \<and> unsent w' = [] \<and> ds_id (cl_ds w') = ds_id (cl_ds w) \<and>
    cl_stream w' = cl_stream w"

lemma poll_copy_stream: "poll_copy i evs w = Some w' \<Longrightarrow> cl_stream w' = cl_stream w"
  by (induction i evs w rule: poll_copy.induct) (auto simp: bind_eq_Some_conv)

lemma poll_stream: "repoll_poll env w = Some (w', r) \<Longrightarrow> cl_stream w' = cl_stream w"
  by (auto simp: repoll_poll_def sys_epoll_wait_def tick_def bind_eq_Some_conv dest!: poll_copy_stream
      split: prod.splits answer.splits if_splits)

lemma close_no_stream:
  "ripc_close_c env w = Some (w', r) \<Longrightarrow> ds_state (cl_ds w) \<noteq> ripc_state_closed \<Longrightarrow> cl_stream w' = None"
  by (cases "cl_stream w") (auto simp: ripc_close_c_def release_buffers_def Let_def bind_eq_Some_conv split: if_splits)

lemma start_items_no_stream: "cl_stream w = None \<Longrightarrow> start_items env is w = Some r \<Longrightarrow> r = Inr w"
  by (cases "is") (auto simp: bind_eq_Some_conv)

lemma start_items_pending:
  assumes "pending w fd" "ep_dest_count w \<noteq> None" "start_items env is w = Some r"
  shows "case r of Inl (w', c) \<Rightarrow> c = rcode_ok \<longrightarrow> started_from w fd w' | Inr w' \<Rightarrow> w' = w \<or> cl_stream w' = None"
  using assms
proof (induction env "is" w rule: start_items.induct)
  case (1 env w)
  then have "r = Inr w" by simp
  then show ?case by simp
next
  case (2 env i "is" w)
  obtain it s where it: "item_at w (Dest i) = Some it" and s: "cl_stream w = Some s"
    using "2.prems"(3) by (auto simp: bind_eq_Some_conv)
  have fd: "sk_fd s = fd" and W: "watches w fd (sk_item s)" and st: "ds_state (cl_ds w) = ripc_state_ready_pending"
    using "2.prems"(1) s by (auto simp: pending_def)
  show ?case
  proof (cases "ri_fd it = fd")
    case False
    then show ?thesis using "2.IH"(1) [OF it s] "2.prems" it s fd by auto
  next
    case same: True
    show ?thesis
    proof (cases "repoll_check_event_err (ri_rsp it)")
      case True
      then obtain w1 c where e: "ripc_on_error_c env w = Some (w1, c)" "start_items env is w1 = Some r"
        using "2.prems"(3) it s fd same by (auto simp: bind_eq_Some_conv)
      have "cl_stream w1 = None"
        using e(1) close_no_stream [of env w] st by (auto simp: ripc_on_error_c_def Let_def bind_eq_Some_conv)
      then show ?thesis using start_items_no_stream [OF _ e(2)] by simp
    next
      case noerr: False
      show ?thesis
      proof (cases "repoll_check_event_out (ri_rsp it)")
        case False
        then show ?thesis using "2.IH"(3) [OF it s] "2.prems" it s fd same noerr by auto
      next
        case True
        define it' where "it' = it\<lparr>ri_req := repoll_unset_event_out (ri_req it)\<rparr>"
        define w1 where "w1 = w\<lparr>ep_dest := (ep_dest w)[i := Some it']\<rparr>"
        have i: "i < length (ep_dest w)" using it by (auto simp: item_at_def split: if_splits)
        have at1: "item_at w1 (Dest i) = Some it'" "ri_fd it' = fd" using i same by (simp_all add: item_at_def w1_def it'_def)
        have "(ep_dest w)[i := Some it'] ! j = (if j = i then Some it' else ep_dest w ! j)" for j
          using i by (simp add: nth_list_update)
        then have "dest_ok w1" using watchesD(2) [OF W] by (auto simp: dest_ok_def w1_def split: option.splits)
        moreover have "\<exists>jt. item_at w1 p = Some jt \<and> ri_fd jt = fd" if "item_at w p = Some kt" "ri_fd kt = fd" for p kt
          using that at1(2) by (cases p; cases "p = Dest i") (auto simp: item_at_def w1_def nth_list_update split: if_splits)
        ultimately have W1: "watches w1 fd (sk_item s)" by (intro watches_dest [OF W]) (simp_all add: w1_def)
        obtain reg c where m: "repoll_modify (ce_net env) w1 (Dest i) = Some (w1\<lparr>nw_tick := Suc (nw_tick w1), nw_reg := reg\<rparr>, c)"
          "watches (w1\<lparr>nw_tick := Suc (nw_tick w1), nw_reg := reg\<rparr>) fd (sk_item s)"
          by (rule modify_watches [OF W1 _ at1]) blast
        define w2 where "w2 = w1\<lparr>nw_tick := Suc (nw_tick w1), nw_reg := reg\<rparr>"
        have run: "start_items env (i # is) w = (if c \<noteq> rcode_ok then Some (Inl (w2, c)) else do {
           rb \<leftarrow> rbuffer_create (ce_block env) buffer_bytes;
           wb \<leftarrow> rbuffer_create (ce_block env) buffer_bytes;
           Some (Inl (w2\<lparr>cl_live := True, cl_ds := (cl_ds w2)\<lparr>ds_read_cache := Some rb, ds_write_buff := Some wb,
             ds_state := ripc_state_start\<rparr>\<rparr>, rcode_ok)) })"
          using it s fd same noerr True st m(1) by (simp add: w2_def w1_def it'_def)
        show ?thesis
        proof (cases "c = rcode_ok")
          case False
          then show ?thesis using run "2.prems"(3) by auto
        next
          case True
          then obtain b where b: "rbuffer_create (ce_block env) buffer_bytes = Some b"
              "r = Inl (w2\<lparr>cl_live := True, cl_ds := (cl_ds w2)\<lparr>ds_read_cache := Some b, ds_write_buff := Some b,
                ds_state := ripc_state_start\<rparr>\<rparr>, rcode_ok)"
            using run "2.prems"(3) by (auto simp: bind_eq_Some_conv)
          have bi: "rbuffer_inv b" "rbuffer_content b = []" using b(1)
            by (auto simp: rbuffer_create_def rbuffer_inv_def rbuffer_content_def rbuffer_size_def bind_eq_Some_conv split: if_splits)
          let ?w3 = "w2\<lparr>cl_live := True, cl_ds := (cl_ds w2)\<lparr>ds_read_cache := Some b, ds_write_buff := Some b,
                ds_state := ripc_state_start\<rparr>\<rparr>"
          have "watches ?w3 fd (sk_item s)" by (rule watches_cong [OF m(2)]) (simp_all add: w2_def)
          then have "up ?w3 fd" using s fd bi "2.prems"(2) by (simp add: up_def w2_def w1_def)
          then show ?thesis using b(2) bi by (simp add: started_from_def unsent_def w2_def w1_def)
        qed
      qed
    qed
  qed
qed

lemma start_loop_started:
  assumes "start_loop env tm w = Some (w', c)"
  shows "(pending w fd \<longrightarrow> c = rcode_ok \<longrightarrow> started_from w fd w') \<and> (cl_stream w = None \<longrightarrow> c \<noteq> rcode_ok)"
proof -
  let ?P = "\<lambda>env tm w (r :: 'a client \<times> int). (pending w fd \<longrightarrow> snd r = rcode_ok \<longrightarrow> started_from w fd (fst r)) \<and>
    (cl_stream w = None \<longrightarrow> snd r \<noteq> rcode_ok)"
  have "?P env tm w (w', c)"
  proof (rule start_loop.raw_induct [where P = ?P, OF _ assms], goal_cases)
    case (1 loop env tm w r)
    then obtain w1 rc where p: "repoll_poll (ce_net env) w = Some (w1, rc)" by (auto simp: bind_eq_Some_conv)
    have s1: "cl_stream w1 = cl_stream w" using poll_stream [OF p] .
    show ?case
    proof (cases "rc = rcode_ok")
      case False
      then have "r = (w1, rc)" using 1(2) p by simp
      then show ?thesis using False by simp
    next
      case ok: True
      then obtain n res where n: "ep_dest_count w1 = Some n" "start_items env [0..<nat n] w1 = Some res"
        and rest: "(case res of Inl x \<Rightarrow> Some x | Inr w2 \<Rightarrow>
            if rtimeout_done tm (now (ce_net env) w2)
            then (if cl_stream w2 = None then None else Some (w2, rcode_io_timeout))
            else loop env tm w2) = Some r"
        using 1(2) p by (auto simp: bind_eq_Some_conv)
      have over: "?P env tm w r" if "res = Inr w2" "rtimeout_done tm (now (ce_net env) w2)" for w2
        using that rest by (auto split: if_splits)
      show ?thesis
      proof (cases "pending w fd")
        case True
        then obtain s where s: "cl_stream w = Some s" "sk_fd s = fd" "watches w fd (sk_item s)"
            "ds_state (cl_ds w) = ripc_state_ready_pending" by (auto simp: pending_def)
        obtain D m x where q: "repoll_poll (ce_net env) w = Some (w\<lparr>nw_tick := Suc (nw_tick w), ep_dest := D, ep_dest_count := Some m\<rparr>, x)"
          "watches (w\<lparr>nw_tick := Suc (nw_tick w), ep_dest := D, ep_dest_count := Some m\<rparr>) fd (sk_item s)"
          by (rule poll_watches [OF s(3)])
        have w1: "w1 = w\<lparr>nw_tick := Suc (nw_tick w), ep_dest := D, ep_dest_count := Some m\<rparr>" using p q(1) by simp
        have pe: "pending w1 fd" using s q(2) by (auto simp: pending_def w1)
        have same: "started_from w fd v \<longleftrightarrow> started_from w1 fd v" for v by (simp add: started_from_def w1)
        note N = s(1)
        from start_items_pending [OF pe _ n(2)] n(1)
        have R: "case res of Inl (w', c) \<Rightarrow> c = rcode_ok \<longrightarrow> started_from w1 fd w' | Inr w' \<Rightarrow> w' = w1 \<or> cl_stream w' = None"
          by simp
        show ?thesis
        proof (cases res)
          case (Inl x)
          obtain v d where x: "x = (v, d)" by (cases x)
          have "r = (v, d)" using rest Inl x by simp
          moreover have "d = rcode_ok \<longrightarrow> started_from w1 fd v" using R Inl x by simp
          ultimately show ?thesis using N unfolding same by simp
        next
          case (Inr w2)
          show ?thesis
          proof (cases "rtimeout_done tm (now (ce_net env) w2)")
            case True
            then show ?thesis using over Inr by blast
          next
            case False
            then have "loop env tm w2 = Some r" using rest Inr by simp
            from 1(1) [OF this] have IH: "(pending w2 fd \<longrightarrow> snd r = rcode_ok \<longrightarrow> started_from w2 fd (fst r)) \<and>
              (cl_stream w2 = None \<longrightarrow> snd r \<noteq> rcode_ok)" .
            have "w2 = w1 \<or> cl_stream w2 = None" using R Inr by simp
            then have "snd r = rcode_ok \<longrightarrow> started_from w1 fd (fst r)" using IH pe by blast
            then show ?thesis using N unfolding same by simp
          qed
        qed
      next
        case np: False
        show ?thesis
        proof (cases "cl_stream w = None")
          case True
          then have "res = Inr w1" using start_items_no_stream n(2) s1 by metis
          show ?thesis
          proof (cases "rtimeout_done tm (now (ce_net env) w1)")
            case False
            then have "loop env tm w1 = Some r" using rest \<open>res = Inr w1\<close> by simp
            from 1(1) [OF this] show ?thesis using True s1 np by simp
          qed (use over \<open>res = Inr w1\<close> in blast)
        qed (use np in auto)
      qed
    qed
  qed
  then show ?thesis by simp
qed

lemma start_started:
  "pending w fd \<Longrightarrow> ripc_start_c env w = Some (w', rcode_ok) \<Longrightarrow> started_from w fd w'"
  using start_loop_started [of env _ w w' rcode_ok fd] by (auto simp: ripc_start_c_def split: if_splits)

section \<open>Opening\<close>

text \<open>The socket calls leave everything but the system as it is, and the interest list too.\<close>

definition net_same :: "'a nworld_scheme \<Rightarrow> 'a nworld_scheme \<Rightarrow> bool" where
  "net_same w w' \<longleftrightarrow> nworld.more w' = nworld.more w \<and> nw_reg w' = nw_reg w"

lemma net_same_trans: "net_same u v \<Longrightarrow> net_same v w \<Longrightarrow> net_same u w"
  by (simp add: net_same_def)

lemma more_client:
  fixes w w' :: "'w client"
  assumes "nworld.more w' = nworld.more w"
  shows "ep_items w' = ep_items w" "ep_next w' = ep_next w" "ep_fd w' = ep_fd w" "ep_amount w' = ep_amount w"
    "ep_dest_count w' = ep_dest_count w" "ep_dest w' = ep_dest w" "cl_ds w' = cl_ds w" "cl_live w' = cl_live w"
    "cl_stream w' = cl_stream w" "cl_app w' = cl_app w"
  using assms by (cases w; cases w'; simp)+

lemma tick_more [simp]: "nworld.more (tick w) = nworld.more w"
  by (simp add: tick_def)

lemma setopt_same:
  assumes "rsocket_setopt env w s option on = (w', s', r)"
  shows "net_same w w' \<and> nw_open w' = nw_open w \<and> nw_out w' = nw_out w \<and> sk_fd s' = sk_fd s"
proof -
  obtain w1 r1 where sw: "setopt_switch env w s option on = (w1, r1)" by fastforce
  have so: "net_same w v \<and> nw_open v = nw_open w \<and> nw_out v = nw_out w"
    if "sys_setsockopt env w (sk_fd s) name x = (v, e)" for name x v e
    using that by (auto simp: sys_setsockopt_def Let_def net_same_def tick_def split: if_splits)
  have "net_same w w1 \<and> nw_open w1 = nw_open w \<and> nw_out w1 = nw_out w"
    using sw so unfolding setopt_switch_def Let_def
    by (auto simp: net_same_def rsocket_setnonblocking_def rsocket_setblocking_def split: if_splits)
  then show ?thesis using assms sw by (auto simp: rsocket_setopt_def rsocket_set_option_def split: if_splits)
qed

text \<open>The documented range of descriptors; 0 is the standard input, which stays open.\<close>

definition sockets_positive :: "net_env \<Rightarrow> bool" where
  "sockets_positive env \<longleftrightarrow> (\<forall>t fd. ne_socket env t = Ret fd \<longrightarrow> 0 < fd)"

definition socket_ok :: "'a nworld_scheme \<Rightarrow> rsocket \<Rightarrow> bool" where
  "socket_ok w s \<longleftrightarrow> nw_reg w = Map.empty \<and> -1 \<notin> nw_open w \<and> (sk_fd s = -1 \<or> 0 < sk_fd s \<and> nw_out w (sk_fd s) = [])"

lemma close_ok: "socket_ok w s \<Longrightarrow> rsocket_close w s = (w', s', r) \<Longrightarrow> net_same w w' \<and> socket_ok w' s'"
  by (auto simp: rsocket_close_def sys_close_def net_same_def socket_ok_def split: if_splits)

lemma create_ok:
  assumes "socket_ok w s" "sockets_positive env" "rsocket_create env w s = (w', s', r)"
  shows "net_same w w' \<and> socket_ok w' s'"
proof -
  obtain w1 fd e where o: "sys_open (ne_socket env (nw_tick w)) w = (w1, fd, e)" by (cases "sys_open (ne_socket env (nw_tick w)) w")
  have 1: "net_same w w1 \<and> socket_ok w1 (s\<lparr>sk_fd := fd\<rparr>)"
  proof (cases "ne_socket env (nw_tick w)")
    case (Ret x)
    then have "0 < x" using assms(2) unfolding sockets_positive_def by blast
    then show ?thesis using o assms(1) Ret by (auto simp: sys_open_def net_same_def socket_ok_def tick_def)
  qed (use o assms(1) in \<open>auto simp: sys_open_def net_same_def socket_ok_def tick_def\<close>)
  obtain w2 s2 rv where so: "rsocket_setopt env w1 (s\<lparr>sk_fd := fd\<rparr>) RSO_REUSEADDR True = (w2, s2, rv)"
    by (cases "rsocket_setopt env w1 (s\<lparr>sk_fd := fd\<rparr>) RSO_REUSEADDR True")
  show ?thesis
  proof (cases "fd = -1")
    case True
    then show ?thesis using assms(3) o 1 by (auto simp: rsocket_create_def Let_def)
  next
    case False
    then have "w' = w2" "s' = s2" using assms(3) o so by (auto simp: rsocket_create_def Let_def split: if_splits)
    then show ?thesis using 1 setopt_same [OF so] by (auto simp: net_same_def socket_ok_def)
  qed
qed

lemma connect_ok:
  assumes "socket_ok w s" "rsocket_connect env w s tm = Some (w', r)"
  shows "net_same w w' \<and> socket_ok w' s"
proof (cases "sk_fd s = -1")
  case True
  then show ?thesis using assms by (auto simp: rsocket_connect_def net_same_def)
next
  case False
  then obtain w1 e where c: "connect_loop env w = Some (w1, e)" "w' = w1"
    using assms(2) by (auto simp: rsocket_connect_def bind_eq_Some_conv)
  then obtain k where "connect_verdict env ((tick ^^ k) w) = Some (w1, e)"
    using connect_io.loop_result [of env w "(w1, e)"] by auto
  then have "w' = w\<lparr>nw_tick := Suc (nw_tick w + k)\<rparr>"
    using c(2) by (auto simp: connect_verdict_def Let_def tick_power tick_def split: if_splits)
  then show ?thesis using assms(1) by (simp add: net_same_def socket_ok_def)
qed

lemma nonblock_ok: "socket_ok w s \<Longrightarrow> net_same w (fst (rsocket_setnonblocking w s)) \<and> socket_ok (fst (rsocket_setnonblocking w s)) s"
  by (simp add: rsocket_setnonblocking_def net_same_def socket_ok_def)

lemma open_addrs_ok:
  assumes "sockets_positive env"
  shows "open_addrs env tm fams cf rc w s = Some (w', s', r) \<Longrightarrow> socket_ok w s \<Longrightarrow> net_same w w' \<and> socket_ok w' s'"
proof (induction fams arbitrary: cf rc w s)
  case Nil
  then show ?case by (simp add: net_same_def)
next
  case (Cons family rest)
  have after: "net_same v w' \<and> socket_ok w' s'"
    if v: "socket_ok v u" "rsocket_connect env v u tm = Some (v4, c)"
      "(if c = rcode_io_done then Some (v4, u, c) else open_addrs env tm rest f c v4 u) = Some (w', s', r)" for v u v4 c f
    using connect_ok [OF v(1,2)] v(3) Cons.IH [of f c v4 u] net_same_trans by (auto split: if_splits)
  show ?case
  proof (cases "cf \<noteq> family \<or> sk_fd s = SOCKET_INVALID")
    case True
    obtain w1 s1 r1 where cl: "rsocket_close w s = (w1, s1, r1)" by (cases "rsocket_close w s")
    obtain w2 s2 r2 where cr: "rsocket_create env w1 s1 = (w2, s2, r2)" by (cases "rsocket_create env w1 s1")
    note 1 = close_ok [OF Cons.prems(2) cl]
    then have 2: "net_same w w2 \<and> socket_ok w2 s2" using create_ok [OF _ assms cr] net_same_trans by blast
    show ?thesis
    proof (cases "r2 = rcode_ok")
      case False
      then have "open_addrs env tm rest cf r2 w2 s2 = Some (w', s', r)" using Cons.prems(1) True cl cr by simp
      then show ?thesis using Cons.IH 2 net_same_trans by blast
    next
      case ok: True
      let ?w3 = "fst (rsocket_setnonblocking w2 s2)"
      obtain w4 c where c: "rsocket_connect env ?w3 s2 tm = Some (w4, c)"
        "(if c = rcode_io_done then Some (w4, s2, c) else open_addrs env tm rest family c w4 s2) = Some (w', s', r)"
        using Cons.prems(1) True cl cr ok by (auto simp: bind_eq_Some_conv)
      have "net_same ?w3 w' \<and> socket_ok w' s'" using after [OF _ c] nonblock_ok 2 by blast
      then show ?thesis using 2 nonblock_ok net_same_trans by blast
    qed
  next
    case False
    then obtain w4 c where c: "rsocket_connect env w s tm = Some (w4, c)"
      "(if c = rcode_io_done then Some (w4, s, c) else open_addrs env tm rest cf c w4 s) = Some (w', s', r)"
      using Cons.prems(1) by (auto simp: bind_eq_Some_conv)
    show ?thesis using after [OF Cons.prems(2) c] .
  qed
qed

text \<open>A program before it has a client.\<close>

definition fresh :: "'w client \<Rightarrow> bool" where
  "fresh w \<longleftrightarrow> nw_reg w = Map.empty \<and> -1 \<notin> nw_open w \<and> ep_dest_count w = None"

text \<open>What \<open>repoll_create\<close> leaves for the client to open.\<close>

lemma create_openable:
  fixes w :: "'w client"
  assumes "fresh w" "repoll_create env w sz = (w', rcode_ok)" "epoll_answers env"
  shows "nw_reg w' = Map.empty \<and> -1 \<notin> nw_open w' \<and> dest_ok w' \<and> cl_ds w' = cl_ds w"
proof -
  have "nw_reg w = Map.empty" "-1 \<notin> nw_open w" "ep_dest_count w = None" using assms(1) by (simp_all add: fresh_def)
  note c = create_container [OF this assms(2,3)]
  have "cl_ds w' = cl_ds w" using c(6) by (cases w; cases w') simp
  then show ?thesis using c by simp
qed

lemma open_pending:
  assumes w: "nw_reg w = Map.empty" "-1 \<notin> nw_open w" "dest_ok w" and pos: "sockets_positive (ce_net env)"
    and run: "ripc_open_c env w = Some (w', rcode_ok)" "cl_stream w = None" "cl_stream w' = Some s"
  shows "pending w' (sk_fd s) \<and> nw_out w' (sk_fd s) = [] \<and> ds_id (cl_ds w') = ds_id (cl_ds w)"
proof -
  let ?net = "ce_net env"
  obtain fams where fams: "ce_addrs env (nw_tick w) = Ret fams"
    using run more_client(9) [OF tick_more, of w] by (cases "ce_addrs env (nw_tick w)") (auto simp: ripc_open_c_def Let_def split: if_splits)
  obtain w1 s1 rc where a: "open_addrs ?net (timer_sec ?net w 5) fams AF_INET rcode_ok (tick w) (new_socket ?net) = Some (w1, s1, rc)"
    using run(1) fams by (auto simp: ripc_open_c_def Let_def bind_eq_Some_conv)
  have "socket_ok (tick w) (new_socket ?net)" using w by (simp add: socket_ok_def new_socket_def)
  from open_addrs_ok [OF pos a this] have 1: "net_same (tick w) w1" "socket_ok w1 s1" by auto
  obtain w2 s2 r where o: "rsocket_setopt ?net w1 s1 RTCP_NODELAY True = (w2, s2, r)"
    by (cases "rsocket_setopt ?net w1 s1 RTCP_NODELAY True")
  have 2: "net_same (tick w) w2" "socket_ok w2 s2"
    using setopt_same [OF o] 1 by (auto simp: net_same_def socket_ok_def)
  have "nworld.more w2 = nworld.more w" using 2(1) by (simp add: net_same_def)
  note more = more_client [OF this]
  have ok: "rc = rcode_ok" using run(1) fams a by (auto simp: ripc_open_c_def Let_def split: if_splits prod.splits)
  have "cl_stream (fst (rsocket_close w2 s2)) = cl_stream w2" by (simp add: rsocket_close_def sys_close_def tick_def)
  then have r: "r = rcode_ok"
    using run fams a o ok more by (auto simp: ripc_open_c_def Let_def split: if_splits)
  define a where "a = ep_next w2"
  define it where "it = \<lparr>ri_fd = sk_fd s2, ri_req = repoll_set_event_all 0, ri_rsp = 0, ri_ds = 0\<rparr>"
  define w3 where "w3 = w2\<lparr>ep_next := a + 1, ep_items := (ep_items w2)(a \<mapsto> it)\<rparr>"
  obtain w4 r4 where c: "sys_epoll_ctl ?net w3 (ep_fd w3) EPOLL_CTL_ADD (sk_fd s2) (ucast (repoll_get_event_req (ri_req it))) (Item a) = (w4, r4)"
    by fastforce
  have add: "repoll_add ?net w3 (Item a) = Some (w4, r4)"
    using c by (simp add: repoll_add_def repoll_ctl_def item_at_def w3_def it_def)
  have tail: "ripc_open_c env w = (if r4 \<noteq> rcode_ok
             then Some ((fst (rsocket_close w4 s2))\<lparr>ep_items := (ep_items w4)(a := None)\<rparr>, r4)
             else Some (w4\<lparr>cl_stream := Some (s2\<lparr>sk_item := a\<rparr>),
               cl_ds := (cl_ds w4)\<lparr>ds_state := ripc_state_ready_pending\<rparr>\<rparr>, rcode_ok))"
    using fams \<open>open_addrs _ _ _ _ _ _ _ = _\<close> o ok r add
    by (simp add: ripc_open_c_def Let_def a_def [symmetric] w3_def it_def)
  then have r4: "r4 = rcode_ok" and w': "w' = w4\<lparr>cl_stream := Some (s2\<lparr>sk_item := a\<rparr>), cl_ds := (cl_ds w4)\<lparr>ds_state := ripc_state_ready_pending\<rparr>\<rparr>"
    using run(1) by (auto split: if_splits)
  from ctl_shape [OF c] obtain reg where w4: "w4 = w3\<lparr>nw_tick := Suc (nw_tick w3), nw_reg := reg\<rparr>"
    "reg = nw_reg w3 \<or> reg = (nw_reg w3)(sk_fd s2 \<mapsto> (ucast (repoll_get_event_req (ri_req it)), Item a)) \<or> reg = (nw_reg w3)(sk_fd s2 := None)"
    by blast
  have "sk_fd s2 \<in> nw_open w3" using c r4 by (auto simp: sys_epoll_ctl_def Let_def split: if_splits)
  then have fd: "0 < sk_fd s2" "nw_out w2 (sk_fd s2) = []" using 2(2) by (auto simp: socket_ok_def w3_def)
  have reg: "fd' = sk_fd s2 \<and> p = Item a" if "nw_reg w' fd' = Some (ev, p)" for fd' ev p
    using that w4 2(2) by (auto simp: w' w3_def socket_ok_def split: if_splits)
  have "dest_ok w'" using more by (intro dest_ok_cong [OF _ _ _ w(3)]) (simp_all add: w' w4 w3_def)
  moreover have i: "item_at w' (Item a) = Some it" "ri_fd it = sk_fd s2"
    by (simp_all add: w' w4 w3_def it_def item_at_def)
  moreover have "ep_items w' a = Some it" using i(1) by (simp add: item_at_def)
  moreover have "\<forall>fd' ev p. nw_reg w' fd' = Some (ev, p) \<longrightarrow> fd' = sk_fd s2 \<and> (p = Item a \<or> (\<exists>i. p = Dest i)) \<and>
      (\<exists>it. item_at w' p = Some it \<and> ri_fd it = sk_fd s2)" using reg i by blast
  ultimately have "watches w' (sk_fd s2) a"
    using fd(1) unfolding watches_def by blast
  then show ?thesis using run(3) fd(2) more(7) by (auto simp: pending_def w' w4 w3_def)
qed

section \<open>The life of a client\<close>

text \<open>
  From the creation of the container to a started client, then any messages and rounds.  The list is
  what the encoder took.
\<close>

inductive client_run ::
  "'w client_env \<Rightarrow> (ripc_data_default \<Rightarrow> bool) \<Rightarrow> 'w client \<Rightarrow> int \<Rightarrow> 'w client \<Rightarrow> ripc_data_default list \<Rightarrow> bool"
  for env :: "'w client_env" and good :: "ripc_data_default \<Rightarrow> bool" and v :: "'w client"
where
  opened: "fresh v \<Longrightarrow> repoll_create (ce_net env) v sz = (w0, rcode_ok) \<Longrightarrow> ripc_init_c w0 = (w1, rcode_ok) \<Longrightarrow>
    ripc_open_c env w1 = Some (w2, rcode_ok) \<Longrightarrow> cl_stream w2 = Some s \<Longrightarrow> ripc_start_c env w2 = Some (w, rcode_ok) \<Longrightarrow>
    client_run env good v (sk_fd s) w []"
| sent: "client_run env good v fd w ms \<Longrightarrow> good m \<Longrightarrow> ripc_send_data_2buffer_c env w m = Some (w', m', r) \<Longrightarrow>
    client_run env good v fd w' (ms @ (if queued env w m then [m] else []))"
| checked: "client_run env good v fd w ms \<Longrightarrow> ripc_check_data_c env w = Some (w', r) \<Longrightarrow> client_run env good v fd w' ms"

text \<open>What the surroundings are documented to do.\<close>

definition client_env_ok :: "'w client_env \<Rightarrow> bool" where
  "client_env_ok env \<longleftrightarrow> epoll_answers (ce_net env) \<and> sockets_positive (ce_net env) \<and> clock_runs (ce_net env) \<and>
    (\<forall>p. ce_in env = Some p \<longrightarrow> reads_only p)"

lemma opened_started:
  assumes "client_env_ok env" "fresh v" "repoll_create (ce_net env) v sz = (w0, rcode_ok)" "ripc_init_c w0 = (w1, rcode_ok)"
    "ripc_open_c env w1 = Some (w2, rcode_ok)" "cl_stream w2 = Some s" "ripc_start_c env w2 = Some (w, rcode_ok)"
  shows "carries w (sk_fd s) [] \<and> ds_id (cl_ds w) = ds_id (cl_ds v)"
proof -
  have env: "epoll_answers (ce_net env)" "sockets_positive (ce_net env)" using assms(1) by (simp_all add: client_env_ok_def)
  note c = create_openable [OF assms(2,3) env(1)]
  have w1: "w1 = w0\<lparr>cl_stream := None\<rparr>" using assms(4) by (simp add: ripc_init_c_def)
  have d: "dest_ok w1" using c by (intro dest_ok_cong [of w1 w0]) (simp_all add: w1)
  have "nw_reg w1 = Map.empty" "-1 \<notin> nw_open w1" "cl_stream w1 = None" using c by (simp_all add: w1)
  from open_pending [OF this(1,2) d env(2) assms(5) this(3) assms(6)]
  have p: "pending w2 (sk_fd s)" "nw_out w2 (sk_fd s) = []" "ds_id (cl_ds w2) = ds_id (cl_ds v)" using c by (simp_all add: w1)
  from start_started [OF p(1) assms(7)] p show ?thesis by (simp add: started_from_def carries_def)
qed

context frame_sender
begin

lemma send_carries:
  assumes "carries w fd xs" "ce_out env = Some out" "good m"
  shows "\<exists>w' m' r. ripc_send_data_2buffer_c env w m = Some (w', m', r) \<and>
    carries w' fd (xs @ (if queued env w m then frame (ds_id (cl_ds w)) m else [])) \<and> ds_id (cl_ds w') = ds_id (cl_ds w)"
proof (cases "up w fd")
  case True
  then have "nw_out w fd @ unsent w = xs" using assms(1) by (auto simp: carries_def up_def down_def)
  with send_2buffer_up [OF True assms(2,3)] show ?thesis unfolding carries_def by fastforce
next
  case False
  then have "down w" using assms(1) by (simp add: carries_def)
  then show ?thesis using assms(1) by (simp add: ripc_send_data_2buffer_c_def queued_def down_def)
qed

lemma run_carries:
  assumes "client_env_ok env" "ce_out env = Some out"
  shows "client_run env good v fd w ms \<Longrightarrow>
    carries w fd (concat (map (frame (ds_id (cl_ds v))) ms)) \<and> ds_id (cl_ds w) = ds_id (cl_ds v)"
proof (induction rule: client_run.induct)
  case (opened sz w0 w1 w2 s w)
  then show ?case using opened_started [OF assms(1) opened] by simp
next
  case (sent fd w ms m w' m' r)
  then show ?case using send_carries [OF conjunct1 [OF sent.IH] assms(2) sent.hyps(2)] by auto
next
  case (checked fd w ms w' r)
  have env: "clock_runs (ce_net env)" "\<And>p. ce_in env = Some p \<Longrightarrow> reads_only p" using assms(1) by (auto simp: client_env_ok_def)
  from check_data_carries [OF env conjunct1 [OF checked.IH]] checked.hyps(2) checked.IH show ?case by auto
qed

end


text \<open>C26: the ways out.  Stopping a running client and then closing or uninitialising it returns and gives
everything back: the descriptor, the item in the container, both buffers.  After a lost connection
closing and uninitialising are harmless, but stopping first makes them release the buffers a second
time, since only the state says that they are gone.\<close>

theorem client_shutdown:
  assumes "client_run env sendable v fd w ms" "client_env_ok env" "ce_out env = Some (encode_process None)"
  shows "if ds_state (cl_ds w) = ripc_state_start
    then \<exists>w'. ripc_close_c env (fst (ripc_stop_c w)) = Some (w', rcode_ok) \<and>
      ripc_uninit_c env (fst (ripc_stop_c w)) =
        Some (w'\<lparr>cl_ds := (cl_ds w')\<lparr>ds_state := ripc_state_uninit\<rparr>\<rparr>, rcode_ok) \<and>
      ds_state (cl_ds w') = ripc_state_closed \<and> cl_stream w' = None \<and> \<not> cl_live w' \<and> nw_reg w' = Map.empty \<and>
      nw_open w' = nw_open w - {fd} \<and> nw_out w' = nw_out w \<and>
      (\<exists>s. cl_stream w = Some s \<and> ep_items w' = (ep_items w)(sk_item s := None))
    else ripc_close_c env w = Some (w, rcode_ok) \<and>
      ripc_uninit_c env w = Some (w\<lparr>cl_ds := (cl_ds w)\<lparr>ds_state := ripc_state_uninit\<rparr>\<rparr>, rcode_ok) \<and>
      ripc_close_c env (fst (ripc_stop_c w)) = None \<and> ripc_uninit_c env (fst (ripc_stop_c w)) = None"
proof -
  from codec_out.run_carries [OF assms(2,3,1)]
  have c: "carries w fd (concat (map (\<lambda>m. frame_of (sent_msg (ds_id (cl_ds v)) m)) ms))" by simp
  define u where "u = fst (ripc_stop_c w)"
  have u: "u = w\<lparr>cl_ds := (cl_ds w)\<lparr>ds_state := ripc_state_stop\<rparr>\<rparr>" by (simp add: u_def ripc_stop_c_def)
  show ?thesis
  proof (cases "up w fd")
    case True
    from True obtain s it wb rc n where U: "cl_stream w = Some s" "sk_fd s = fd" "watches w fd (sk_item s)"
      "ep_items w (sk_item s) = Some it" "ri_fd it = fd" "ds_state (cl_ds w) = ripc_state_start" "cl_live w"
      "ep_dest_count w = Some n" "ds_read_cache (cl_ds w) = Some rc" "rbuffer_inv rc"
      "ds_write_buff (cl_ds w) = Some wb" "rbuffer_inv wb" by (rule upE)
    have W: "watches u (sk_fd s) (sk_item s)" unfolding U(2) by (rule watches_cong [OF U(3)]) (simp_all add: u)
    have "cl_stream u = Some s" "ep_dest_count u = Some n" "cl_live u" "ds_state (cl_ds u) \<noteq> ripc_state_closed"
      using U by (simp_all add: u)
    from close_watched [OF this(1) W this(2-4), of env] obtain w' where
      cl: "ripc_close_c env u = Some (w', rcode_ok)" "cl_stream w' = None" "\<not> cl_live w'"
        "cl_ds w' = (cl_ds u)\<lparr>ds_state := ripc_state_closed\<rparr>" "nw_out w' = nw_out u" "nw_reg w' = Map.empty"
        "nw_open w' = nw_open u - {sk_fd s}" "ep_items w' = (ep_items u)(sk_item s := None)" by metis
    have "ripc_uninit_c env u = Some (w'\<lparr>cl_ds := (cl_ds w')\<lparr>ds_state := ripc_state_uninit\<rparr>\<rparr>, rcode_ok)"
      using cl(1) by (simp add: ripc_uninit_c_def u)
    then show ?thesis unfolding u_def [symmetric] using U cl by (auto simp: u)
  next
    case False
    then have d: "down w" using c by (simp add: carries_def)
    then have "ripc_close_c env w = Some (w, rcode_ok)" "ds_state (cl_ds w) \<noteq> ripc_state_start"
      by (simp_all add: ripc_close_c_def down_def)
    moreover have "ripc_uninit_c env w = Some (w\<lparr>cl_ds := (cl_ds w)\<lparr>ds_state := ripc_state_uninit\<rparr>\<rparr>, rcode_ok)"
      using d by (simp add: ripc_uninit_c_def down_def)
    moreover have "ripc_close_c env u = None" "ripc_uninit_c env u = None"
      using d by (auto simp: ripc_uninit_c_def ripc_close_c_def release_buffers_def down_def u)
    ultimately show ?thesis unfolding u_def [symmetric] by simp
  qed
qed

section \<open>A concrete client\<close>

definition demo_client_net :: net_env where
  "demo_client_net = \<lparr>ne_clock = (\<lambda>t. 1000 * int t), ne_epoll = (\<lambda>_. Ret 3), ne_fcntl = (\<lambda>_. 0), ne_ctl = (\<lambda>_. 0),
    ne_wait = (\<lambda>_. Ret [(4, 4)]), ne_socket = (\<lambda>_. Ret 4), ne_accept = (\<lambda>_. Err EAGAIN), ne_bind = (\<lambda>_. 0),
    ne_listen = (\<lambda>_. 0), ne_connect = (\<lambda>_. 0), ne_sockopt = (\<lambda>_. 0),
    ne_send = (\<lambda>_. Ret 20), ne_recv = (\<lambda>_. Err EAGAIN), ne_behind = 0, ne_junk = 0\<rparr>"

definition demo_client_env :: "int client_env" where
  "demo_client_env = \<lparr>ce_net = demo_client_net, ce_addrs = (\<lambda>_. Ret [AF_INET]), ce_res_null = True,
    ce_block = replicate 65536 0, ce_out = Some (encode_process None),
    ce_in = Some (\<lambda>ds n app. Some (ds, app + uint n, rcode_err_ok)), ce_on_code = (\<lambda>c. c)\<rparr>"

definition demo_client :: "int client" where
  "demo_client = \<lparr>nw_tick = 0, nw_open = {0}, nw_nonblock = {}, nw_reg = Map.empty, nw_out = (\<lambda>_. []), nw_opts = [],
    ep_items = Map.empty, ep_next = 1, ep_fd = 0, ep_amount = 0, ep_dest_count = None, ep_dest = [],
    cl_ds = \<lparr>ds_id = 7, ds_type = ripc_data_source_type_client, ds_state = ripc_state_init,
      ds_read_cache = None, ds_write_buff = None\<rparr>,
    cl_live = False, cl_stream = None, cl_app = 0\<rparr>"

lemma demo_client_env_ok: "client_env_ok demo_client_env"
proof -
  have "\<exists>k>t. c \<le> 1000 * int k" for c t
    by (rule exI [of _ "nat (max 0 c) + Suc t"]) auto
  then have "clock_runs demo_client_net" by (simp add: clock_runs_def demo_client_net_def)
  moreover have "reads_only (\<lambda>ds n app. Some (ds, app + uint n, rcode_err_ok))"
    unfolding reads_only_def
  proof (intro allI impI)
    fix ds :: ripc_data_source and n :: "32 word" and app b
    assume "ds_read_cache ds = Some b \<and> rbuffer_inv b \<and> rb_pos b + uint n \<le> rb_capacity b"
    then show "\<exists>c app' r. Some (ds, app + uint n, rcode_err_ok) = Some (ds\<lparr>ds_read_cache := Some c\<rparr>, app', r) \<and> rbuffer_inv c"
      by (intro exI [of _ b] exI [of _ "app + uint n"] exI [of _ 0]) (cases ds, simp)
  qed
  ultimately show ?thesis
    by (simp add: client_env_ok_def demo_client_env_def epoll_answers_def sockets_positive_def demo_client_net_def)
qed

text \<open>After \<open>open\<close>, and after \<open>start\<close>.\<close>

definition demo_pending :: "int client" where
  "demo_pending = demo_client\<lparr>nw_tick := 9, nw_open := {0, 3, 4}, nw_nonblock := {4}, nw_reg := [4 \<mapsto> (7, Item 1)],
    nw_opts := [(4, TCP_NODELAY, [1]), (4, SO_REUSEADDR, [1])],
    ep_items := [1 \<mapsto> \<lparr>ri_fd = 4, ri_req = 0x17, ri_rsp = 0, ri_ds = 0\<rparr>], ep_next := 2, ep_fd := 3, ep_amount := 1,
    ep_dest := [None], cl_stream := Some \<lparr>sk_fd = 4, sk_options = 0x110, sk_item = 1\<rparr>,
    cl_ds := (cl_ds demo_client)\<lparr>ds_state := ripc_state_ready_pending\<rparr>\<rparr>"

definition demo_up :: "int client" where
  "demo_up = (let b = \<lparr>rb_data = replicate 65536 0, rb_offset = 0, rb_pos = 0, rb_capacity = 65536\<rparr> in
    demo_pending\<lparr>nw_tick := 11, nw_reg := [4 \<mapsto> (3, Dest 0)], ep_dest_count := Some 1,
      ep_dest := [Some \<lparr>ri_fd = 4, ri_req = 0x13, ri_rsp = 4, ri_ds = 0\<rparr>], cl_live := True,
      cl_ds := (cl_ds demo_pending)\<lparr>ds_read_cache := Some b, ds_write_buff := Some b, ds_state := ripc_state_start\<rparr>\<rparr>)"

lemma demo_client_opens:
  "\<exists>w0. repoll_create (ce_net demo_client_env) demo_client 1 = (w0, rcode_ok) \<and> ripc_init_c w0 = (w0, rcode_ok) \<and>
    ripc_open_c demo_client_env w0 = Some (demo_pending, rcode_ok)"
proof -
  let ?e = demo_client_env
  define it where "it = \<lparr>ri_fd = 4, ri_req = 0x17 :: 16 word, ri_rsp = 0, ri_ds = 0\<rparr>"
  define w0 where "w0 = demo_client\<lparr>nw_tick := 3, nw_open := {0, 3}, ep_fd := 3, ep_amount := 1, ep_dest := [None]\<rparr>"
  have create: "repoll_create (ce_net ?e) demo_client 1 = (w0, rcode_ok)"
    by (simp add: repoll_create_def sys_open_def demo_client_env_def demo_client_net_def demo_client_def tick_def Let_def
      fun_eq_iff w0_def insert_commute)
  have init: "ripc_init_c w0 = (w0, rcode_ok)" by (simp add: ripc_init_c_def w0_def demo_client_def)
  define s where "s = \<lparr>sk_fd = 4, sk_options = RSO_REUSEADDR, sk_item = 0\<rparr>"
  define w1 where "w1 = w0\<lparr>nw_tick := 6, nw_open := {0, 3, 4}, nw_opts := [(4, SO_REUSEADDR, [1])]\<rparr>"
  have sock: "rsocket_create demo_client_net (tick w0) \<lparr>sk_fd = -1, sk_options = 0, sk_item = 0\<rparr> = (w1, s, rcode_ok)"
    by (simp add: rsocket_create_def sys_open_def rsocket_setopt_def setopt_switch_def sys_setsockopt_def Let_def
      rsocket_check_option_def rsocket_set_option_def demo_client_net_def tick_def w1_def w0_def s_def demo_client_def insert_commute fun_eq_iff)
  define w2 where "w2 = w1\<lparr>nw_tick := 7, nw_nonblock := {4}\<rparr>"
  have conn: "rsocket_connect demo_client_net (fst (rsocket_setnonblocking w1 s)) s tm = Some (w2, rcode_ok)" for tm
    by (subst rsocket_connect_def, subst connect_loop.simps)
      (simp add: rsocket_setnonblocking_def s_def demo_client_net_def w2_def w1_def w0_def demo_client_def tick_def)
  have addrs: "open_addrs demo_client_net tm [AF_INET] AF_INET rcode_ok (tick w0) (new_socket demo_client_net) = Some (w2, s, rcode_ok)" for tm
    using sock conn [of tm] by (simp add: new_socket_def rsocket_close_def demo_client_net_def)
  define w3 where "w3 = w2\<lparr>nw_tick := 8, nw_opts := [(4, TCP_NODELAY, [1]), (4, SO_REUSEADDR, [1])]\<rparr>"
  define s3 where "s3 = s\<lparr>sk_options := 0x110\<rparr>"
  have opt: "rsocket_setopt demo_client_net w2 s RTCP_NODELAY True = (w3, s3, rcode_ok)"
    by (simp add: rsocket_setopt_def setopt_switch_def sys_setsockopt_def Let_def rsocket_check_option_def rsocket_set_option_def
      demo_client_net_def tick_def w3_def w2_def w1_def s3_def s_def flag_at_on_def)
  define w4 where "w4 = w3\<lparr>nw_tick := 9, ep_next := 2, ep_items := [1 \<mapsto> it], nw_reg := [4 \<mapsto> (7, Item 1)]\<rparr>"
  have add: "repoll_add demo_client_net (w3\<lparr>ep_next := 2, ep_items := [1 \<mapsto> it]\<rparr>) (Item 1) = Some (w4, rcode_ok)"
    by (simp add: repoll_add_def repoll_ctl_def item_at_def sys_epoll_ctl_def Let_def demo_client_net_def tick_def w4_def it_def
      repoll_get_event_req_def w3_def w2_def w1_def w0_def demo_client_def fun_eq_iff)
  have pend: "w4\<lparr>cl_stream := Some (s3\<lparr>sk_item := 1\<rparr>), cl_ds := (cl_ds w4)\<lparr>ds_state := ripc_state_ready_pending\<rparr>\<rparr> = demo_pending"
    by (simp add: demo_pending_def w4_def w3_def w2_def w1_def w0_def demo_client_def s3_def s_def it_def)
  have w3f: "ep_next w3 = 1" "ep_items w3 = Map.empty" "sk_fd s3 = 4" "nw_tick w0 = 3"
    by (simp_all add: w3_def w2_def w1_def w0_def demo_client_def s3_def s_def)
  have itm: "\<lparr>ri_fd = 4, ri_req = repoll_set_event_all 0, ri_rsp = 0, ri_ds = 0\<rparr> = it"
    by (simp add: it_def repoll_set_event_all_def)
  have ev: "ce_net ?e = demo_client_net" "ce_addrs ?e 3 = Ret [AF_INET]" by (simp_all add: demo_client_env_def)
  have "ripc_open_c ?e w0 = Some (demo_pending, rcode_ok)"
    using addrs opt add by (simp add: ripc_open_c_def Let_def ev w3f itm pend)
  with create init show ?thesis by blast
qed

lemma demo_client_starts: "ripc_start_c demo_client_env demo_pending = Some (demo_up, rcode_ok)"
proof -
  let ?e = demo_client_env
  have ev: "ce_net ?e = demo_client_net" by (simp add: demo_client_env_def)
  define it where "it = \<lparr>ri_fd = 4, ri_req = 0x17 :: 16 word, ri_rsp = 0, ri_ds = 0\<rparr>"
  define w6 where "w6 = demo_pending\<lparr>nw_tick := 10, ep_dest := [Some (it\<lparr>ri_rsp := 4\<rparr>)], ep_dest_count := Some 1\<rparr>"
  have poll: "repoll_poll demo_client_net demo_pending = Some (w6, rcode_ok)"
    by (simp add: repoll_poll_def sys_epoll_wait_def ready_events_def Let_def demo_client_net_def tick_def item_at_def
      repoll_get_event_rsp_def w6_def demo_pending_def demo_client_def it_def)
  define it2 where "it2 = \<lparr>ri_fd = 4, ri_req = 0x13 :: 16 word, ri_rsp = 4, ri_ds = 0\<rparr>"
  define w7 where "w7 = w6\<lparr>nw_tick := 11, ep_dest := [Some it2], nw_reg := [4 \<mapsto> (3, Dest 0)]\<rparr>"
  have modify: "repoll_modify demo_client_net (w6\<lparr>ep_dest := [Some it2]\<rparr>) (Dest 0) = Some (w7, rcode_ok)"
    by (simp add: repoll_modify_def repoll_ctl_def item_at_def sys_epoll_ctl_def Let_def demo_client_net_def tick_def w7_def it2_def
      repoll_get_event_req_def w6_def demo_pending_def demo_client_def it_def fun_eq_iff)
  let ?b = "\<lparr>rb_data = replicate 65536 0, rb_offset = 0, rb_pos = 0, rb_capacity = 65536\<rparr>"
  have up: "w7\<lparr>cl_live := True, cl_ds := (cl_ds w7)\<lparr>ds_read_cache := Some ?b, ds_write_buff := Some ?b,
    ds_state := ripc_state_start\<rparr>\<rparr> = demo_up"
    by (simp add: demo_up_def Let_def w7_def w6_def it2_def)
  have w6f: "item_at w6 (Dest 0) = Some (it\<lparr>ri_rsp := 4\<rparr>)" "cl_stream w6 = Some \<lparr>sk_fd = 4, sk_options = 0x110, sk_item = 1\<rparr>"
    "ds_state (cl_ds w6) = ripc_state_ready_pending" "ep_dest_count w6 = Some 1" "ep_dest w6 = [Some (it\<lparr>ri_rsp := 4\<rparr>)]"
    by (simp_all add: w6_def demo_pending_def item_at_def)
  have unset: "it\<lparr>ri_rsp := 4, ri_req := repoll_unset_event_out (ri_req it)\<rparr> = it2"
    by (simp add: it_def it2_def repoll_unset_event_out_def)
  have block: "rbuffer_create (ce_block ?e) buffer_bytes = Some ?b"
    by (simp add: rbuffer_create_def demo_client_env_def)
  have "start_items ?e [0] w6 = Some (Inl (demo_up, rcode_ok))"
    using w6f modify block unset up
    by (simp add: it_def repoll_check_event_err_def repoll_check_event_out_def Let_def ev)
  moreover have "[0..<nat 1] = [0]" by simp
  ultimately have "start_loop ?e tm demo_pending = Some (demo_up, rcode_ok)" for tm
    using poll w6f(4) by (subst start_loop.simps) (simp add: ev)
  then show ?thesis by (simp add: ripc_start_c_def demo_pending_def)
qed

lemma demo_client_started: "client_run demo_client_env good demo_client 4 demo_up []"
proof -
  obtain w0 where o: "repoll_create (ce_net demo_client_env) demo_client 1 = (w0, rcode_ok)" "ripc_init_c w0 = (w0, rcode_ok)"
    "ripc_open_c demo_client_env w0 = Some (demo_pending, rcode_ok)" using demo_client_opens by blast
  have f: "fresh demo_client" by (simp add: fresh_def demo_client_def)
  have s: "cl_stream demo_pending = Some \<lparr>sk_fd = 4, sk_options = 0x110, sk_item = 1\<rparr>" by (simp add: demo_pending_def)
  from client_run.opened [OF f o s demo_client_starts] show ?thesis by simp
qed


theorem client_shutdown_witness:
  "client_run demo_client_env sendable demo_client 4 demo_up [] \<and>
    (\<exists>w'. ripc_close_c demo_client_env (fst (ripc_stop_c demo_up)) = Some (w', rcode_ok) \<and>
      nw_open w' = {0, 3} \<and> nw_reg w' = Map.empty \<and> ep_items w' = Map.empty)"
proof -
  have out: "ce_out demo_client_env = Some (encode_process None)" by (simp add: demo_client_env_def)
  have st: "ds_state (cl_ds demo_up) = ripc_state_start" "nw_open demo_up = {0, 3, 4}"
    "cl_stream demo_up = Some \<lparr>sk_fd = 4, sk_options = 0x110, sk_item = 1\<rparr>"
    "ep_items demo_up = [1 \<mapsto> \<lparr>ri_fd = 4, ri_req = 0x17, ri_rsp = 0, ri_ds = 0\<rparr>]"
    by (simp_all add: demo_up_def demo_pending_def Let_def)
  have "{0, 3, 4} - {4} = {0, 3 :: int}" by auto
  with client_shutdown [OF demo_client_started demo_client_env_ok out] demo_client_started st
  show ?thesis by auto
qed

end
