(* ===== verification/RMemory.thy ===== *)
theory RMemory
  imports RDict
begin

text \<open>
  The allocation tracer of \<open>common/src/rmemory.c\<close>: a dictionary from the address of every traced block
  to what is known about it.  The blocks that were handed out and not given back are part of the
  state.  The records about blocks come from \<open>malloc\<close> too; that they can be had is asserted by the
  code.  What \<open>free\<close> does to a block nobody owns is undefined.
\<close>

section \<open>State\<close>

text \<open>An address; 0 is NULL.\<close>

type_synonym ptr = "64 word"

record rmem_site =
  ms_thread :: int
  ms_filename :: string
  ms_func :: string
  ms_line :: int

record rmem_info = rmem_site +
  mi_ptr :: ptr
  mi_elem_size :: nat
  mi_count :: nat

record rmem =
  rm_map :: "(ptr, rmem_info) rdict option"
  rm_heap :: "ptr set"
  rm_calls :: nat

text \<open>
  The surroundings: the allocator of the dictionary, the answer of \<open>malloc\<close> and \<open>calloc\<close> to the traced
  calls in turn, whether there is room for a record, and whether the report file can be opened.
  \<open>me_tracer\<close> is the build option \<open>rmemory_enable_tracer\<close>.
\<close>

record rmem_env =
  me_dict :: rdict_env
  me_malloc :: "nat \<Rightarrow> ptr"
  me_info :: "nat \<Rightarrow> bool"
  me_fopen :: bool
  me_tracer :: bool

definition ptr_key :: "ptr \<Rightarrow> ptr option" where
  "ptr_key p = (if p = 0 then None else Some p)"

text \<open>The functions \<open>rdict_init_full\<close> installs for 64-bit keys and pointers.\<close>

definition trace_fns :: "(ptr, rmem_info) rdict" where
  "trace_fns = \<lparr>d_entry = None, d_null = None, d_size = 0, d_capacity = 0, d_buckets = 0, d_bucket_capacity = 0,
    d_hash = (\<lambda>k. k), d_eq = (=), d_copy_key = Some (\<lambda>k. k), d_copy_value = Some (\<lambda>v. v),
    d_freed_keys = [], d_freed_values = []\<rparr>"

section \<open>Byte order\<close>

datatype rmem_byte_order_code = rmem_byte_order_code_unknown | rmem_byte_order_code_big | rmem_byte_order_code_little

text \<open>\<open>store\<close> is how the machine lays out a 16-bit number.\<close>

definition rmem_check_host_order :: "(16 word \<Rightarrow> 8 word \<times> 8 word) \<Rightarrow> rmem_byte_order_code" where
  "rmem_check_host_order store = (case store 0x0102 of (b0, b1) \<Rightarrow>
     if b0 = 1 \<and> b1 = 2 then rmem_byte_order_code_big
     else if b0 = 2 \<and> b1 = 1 then rmem_byte_order_code_little
     else rmem_byte_order_code_unknown)"

definition rmem_check_net_order :: rmem_byte_order_code where
  "rmem_check_net_order = rmem_byte_order_code_little"

section \<open>The tracer\<close>

definition rmem_init :: "rmem_env \<Rightarrow> rmem \<Rightarrow> (rmem \<times> int) option" where
  "rmem_init env w =
    (if me_tracer env \<and> rm_map w = None then do {
       d \<leftarrow> rdict_create (me_dict env) trace_fns 200000 16;
       Some (w\<lparr>rm_map := Some d\<rparr>, rcode_ok)
     } else Some (w, rcode_ok))"

text \<open>Both allocating functions: \<open>elem_size\<close> and \<open>count\<close> are noted, the code of \<open>rdict_add\<close> is not looked at.\<close>

definition trace_block :: "rmem_env \<Rightarrow> rmem \<Rightarrow> nat \<Rightarrow> nat \<Rightarrow> rmem_site \<Rightarrow> (rmem \<times> ptr) option" where
  "trace_block env w elem_size count site = do {
     let ret = me_malloc env (rm_calls w);
     _ \<leftarrow> rassert (me_info env (rm_calls w));
     let info = rmem_site.extend site \<lparr>mi_ptr = ret, mi_elem_size = elem_size, mi_count = count\<rparr>;
     (mp, _) \<leftarrow> rdict_add (me_dict env) (rm_map w) (ptr_key ret) (Some info);
     Some (w\<lparr>rm_map := mp, rm_calls := Suc (rm_calls w),
       rm_heap := (if ret = 0 then rm_heap w else insert ret (rm_heap w))\<rparr>, ret)
   }"

definition rmem_malloc_trace :: "rmem_env \<Rightarrow> rmem \<Rightarrow> nat \<Rightarrow> rmem_site \<Rightarrow> (rmem \<times> ptr) option" where
  "rmem_malloc_trace env w elem_size site = trace_block env w elem_size 0 site"

definition rmem_cmalloc_trace :: "rmem_env \<Rightarrow> rmem \<Rightarrow> nat \<Rightarrow> nat \<Rightarrow> rmem_site \<Rightarrow> (rmem \<times> ptr) option" where
  "rmem_cmalloc_trace env w elem_size count site = trace_block env w elem_size count site"

text \<open>\<open>free\<close>: nothing for NULL, undefined for a block that is not handed out.\<close>

definition free_block :: "rmem \<Rightarrow> ptr \<Rightarrow> rmem option" where
  "free_block w p =
    (if p = 0 then Some w else if p \<in> rm_heap w then Some (w\<lparr>rm_heap := rm_heap w - {p}\<rparr>) else None)"

definition rmem_free :: "rmem_env \<Rightarrow> rmem \<Rightarrow> ptr \<Rightarrow> (rmem \<times> int) option" where
  "rmem_free env w p = do {
     de \<leftarrow> rdict_find (rm_map w) (ptr_key p);
     known \<leftarrow> (case de of None \<Rightarrow> Some False
       | Some e \<Rightarrow> do { info \<leftarrow> e_val e; Some (mi_ptr info = p) });
     if \<not> known then Some (w, 1)
     else do {
       (mp, _) \<leftarrow> rdict_remove (rm_map w) (ptr_key p);
       w1 \<leftarrow> free_block (w\<lparr>rm_map := mp\<rparr>) p;
       Some (w1, rcode_ok)
     }
   }"

text \<open>What \<open>rmem_statistics\<close> writes: the line of praise, or a line per entry.\<close>

datatype rmem_report = No_leak | Leaks "rmem_info list"

fun infos_of :: "(ptr, rmem_info) rdict_entry list \<Rightarrow> rmem_info list option" where
  "infos_of [] = Some []"
| "infos_of (e # es) = do { i \<leftarrow> e_val e; is \<leftarrow> infos_of es; Some (i # is) }"

definition rmem_statistics :: "rmem_env \<Rightarrow> rmem \<Rightarrow> (int \<times> rmem_report option) option" where
  "rmem_statistics env w =
    (if \<not> me_tracer env then Some (rcode_ok, None)
     else if \<not> me_fopen env then Some (1, None)
     else do {
       d \<leftarrow> rm_map w;
       if d_size d = 0 then Some (rcode_ok, Some No_leak)
       else do { es \<leftarrow> iterate d None; is \<leftarrow> infos_of es; Some (rcode_ok, Some (Leaks is)) }
     })"

text \<open>\<open>rdict_free\<close> frees the records through the installed function; the traced blocks stay.\<close>

definition rmem_uninit :: "rmem_env \<Rightarrow> rmem \<Rightarrow> (rmem \<times> int \<times> rmem_report option) option" where
  "rmem_uninit env w =
    (if me_tracer env \<and> rm_map w = None then Some (w, 1, None)
     else do {
       (_, report) \<leftarrow> rmem_statistics env w;
       _ \<leftarrow> (case rm_map w of None \<Rightarrow> Some None | Some d \<Rightarrow> rdict_clear (Some d));
       Some (w\<lparr>rm_map := None\<rparr>, rcode_ok, report)
     })"

section \<open>What the tracer knows\<close>

text \<open>
  A program from \<open>rmem_init\<close> on.  The map is the specification: a block enters when the dictionary
  accepts it and leaves when it is freed.  \<open>malloc\<close> hands out no block that is still in use.
\<close>

definition traced_info :: "ptr \<Rightarrow> nat \<Rightarrow> nat \<Rightarrow> rmem_site \<Rightarrow> rmem_info" where
  "traced_info p n c site = rmem_site.extend site \<lparr>mi_ptr = p, mi_elem_size = n, mi_count = c\<rparr>"

inductive mem_run :: "rmem_env \<Rightarrow> rmem \<Rightarrow> rmem \<Rightarrow> (ptr \<Rightarrow> rmem_info option) \<Rightarrow> bool" for env :: rmem_env and v :: rmem where
  init: "rm_map v = None \<Longrightarrow> rm_heap v = {} \<Longrightarrow> rmem_init env v = Some (w, rcode_ok) \<Longrightarrow> rm_map w = Some d \<Longrightarrow> d_entry d \<noteq> None \<Longrightarrow>
    mem_run env v w Map.empty"
| alloc: "mem_run env v w M \<Longrightarrow> me_malloc env (rm_calls w) \<notin> rm_heap w \<Longrightarrow>
    rmem_malloc_trace env w n site = Some (w', p) \<and> c = 0 \<or> rmem_cmalloc_trace env w n c site = Some (w', p) \<Longrightarrow>
    rdict_add (me_dict env) (rm_map w) (ptr_key p) (Some (traced_info p n c site)) = Some (mp, code) \<Longrightarrow>
    mem_run env v w' (if code = rdict_code_ok then M(p \<mapsto> traced_info p n c site) else M)"
| freed: "mem_run env v w M \<Longrightarrow> rmem_free env w p = Some (w', r) \<Longrightarrow> mem_run env v w' (M(p := None))"

text \<open>
  The blocks come from the addresses \<open>K\<close>; these do not fill the last bucket of any table the
  allocator can give.
\<close>

definition mem_env_ok :: "nat \<Rightarrow> ptr set \<Rightarrow> rmem_env \<Rightarrow> bool" where
  "mem_env_ok B K env \<longleftrightarrow> me_tracer env \<and> env_ok B (me_dict env) \<and> 16 \<le> B \<and> B \<le> 2 ^ 28 \<and> 0 \<notin> K \<and>
    (\<forall>n. me_info env n \<and> me_malloc env n \<in> insert 0 K) \<and> spread (\<lambda>k. k) K 16 12500 B"

definition tracks :: "nat \<Rightarrow> ptr set \<Rightarrow> rmem \<Rightarrow> (ptr \<Rightarrow> rmem_info option) \<Rightarrow> bool" where
  "tracks B K w M \<longleftrightarrow> 0 \<notin> rm_heap w \<and> (\<exists>d. rm_map w = Some d \<and> dict_inv B K d \<and> copied_value d = (\<lambda>x. x) \<and> d_bucket_capacity d = 16 \<and>
    dict_abs d (Some 0) = None \<and> (\<forall>p. dict_abs d (ptr_key p) = map_option Some (M p)) \<and>
    (\<forall>p i. M p = Some i \<longrightarrow> mi_ptr i = p \<and> (p = 0 \<or> p \<in> rm_heap w)))"

lemma tracksE:
  assumes "tracks B K w M"
  obtains d where "0 \<notin> rm_heap w" "rm_map w = Some d" "dict_inv B K d" "dict_ok B d" "copied_value d = (\<lambda>x. x)" "d_bucket_capacity d = 16"
    "dict_abs d (Some 0) = None" "\<And>p. dict_abs d (ptr_key p) = map_option Some (M p)"
    "\<And>p i. M p = Some i \<Longrightarrow> mi_ptr i = p \<and> (p = 0 \<or> p \<in> rm_heap w)"
  using assms unfolding tracks_def dict_inv_def by blast

lemma ptr_key_eq [simp]: "ptr_key p = ptr_key q \<longleftrightarrow> p = q" "Some 0 \<noteq> ptr_key p" "ptr_key p = None \<longleftrightarrow> p = 0"
  by (auto simp: ptr_key_def)

lemma init_tracks:
  assumes "mem_env_ok B K env" "rm_map v = None" "rmem_init env v = Some (w, rcode_ok)" "rm_map w = Some d" "d_entry d \<noteq> None"
    and "rm_heap v = {}"
  shows "tracks B K w Map.empty"
proof -
  have env: "me_tracer env" "env_ok B (me_dict env)" "16 \<le> B" "B \<le> 2 ^ 28" "spread (\<lambda>k. k) K 16 12500 B"
    using assms(1) by (simp_all add: mem_env_ok_def)
  have fns: "d_eq trace_fns = (=)" "\<forall>k. copied_key trace_fns (Some k) = Some k" "copied_value trace_fns = (\<lambda>x. x)"
    "d_hash trace_fns = (\<lambda>k. k)"
    by (simp_all add: trace_fns_def copied_key_def copied_value_def fun_eq_iff)
  have c: "rdict_create (me_dict env) trace_fns 200000 16 = Some d"
    using assms(2-4) env(1) by (auto simp: rmem_init_def bind_eq_Some_conv)
  obtain d' where d': "rdict_create (me_dict env) trace_fns 200000 16 = Some d'" "dict_abs d' = Map.empty"
    "d_hash d' = d_hash trace_fns" "d_bucket_capacity d' = 16" "copied_value d' = copied_value trace_fns"
    "d_entry d' = None \<or> dict_ok B d' \<and> 200000 \<le> length (cells d')"
    using rdict_create_spec [of 200000 16 B "me_dict env" trace_fns] env fns(1,2) by auto
  have dd: "d' = d" using c d'(1) by simp
  note d = d'(2-6) [unfolded dd]
  have ok: "dict_ok B d" "200000 \<le> length (cells d)" using d(5) assms(5) by auto
  have "length (cells d) = d_buckets d * 16" using table_okD(3) [OF dict_okD(4) [OF ok(1)]] d(3) by simp
  then have n: "12500 \<le> d_buckets d" using ok(2) by simp
  have "spread (d_hash d) K (d_bucket_capacity d) (d_buckets d) B"
    using env(5) n unfolding d(2,3) fns(4) spread_def by (meson le_trans)
  then have "dict_inv B K d" using ok(1) d(1) by (simp add: dict_inv_def)
  moreover have "rm_heap w = {}" using assms(3,6) by (auto simp: rmem_init_def bind_eq_Some_conv split: if_splits)
  ultimately show ?thesis using assms(4) d fns(3) by (auto simp: tracks_def)
qed

lemma add_tracks:
  assumes env: "mem_env_ok B K env" and t: "tracks B K w M" and p: "p \<in> insert 0 K"
  shows "\<exists>d' c. rdict_add (me_dict env) (rm_map w) (ptr_key p) (Some i) = Some (Some d', c) \<and>
    (mi_ptr i = p \<longrightarrow> tracks B K (w\<lparr>rm_map := Some d', rm_calls := n, rm_heap := (if p = 0 then rm_heap w else insert p (rm_heap w))\<rparr>)
      (if c = rdict_code_ok then M(p \<mapsto> i) else M))"
proof -
  have e: "env_ok B (me_dict env)" "0 \<notin> K" using env by (simp_all add: mem_env_ok_def)
  from t obtain d where h0: "0 \<notin> rm_heap w" and d: "rm_map w = Some d" "dict_inv B K d" "dict_ok B d" "copied_value d = (\<lambda>x. x)" "d_bucket_capacity d = 16"
    "dict_abs d (Some 0) = None" "\<And>p. dict_abs d (ptr_key p) = map_option Some (M p)"
    "\<And>p i. M p = Some i \<Longrightarrow> mi_ptr i = p \<and> (p = 0 \<or> p \<in> rm_heap w)" by (rule tracksE) blast
  obtain d' c where a: "rdict_add (me_dict env) (Some d) (ptr_key p) (Some i) = Some (Some d', c)" "dict_inv B K d'" "same_shape d d'"
    "dict_abs d' = (if c = rdict_code_ok then (dict_abs d)(ptr_key p \<mapsto> Some i) else dict_abs d)"
  proof (cases "p = 0")
    case True
    with add_null_spec [OF d(2) e(1), of "Some i"] d(4) show ?thesis
      by (intro that [of "add_null (me_dict env) d (Some i)" 0]) (simp_all add: rdict_add_def ptr_key_def)
  next
    case False
    then have "p \<in> K" using p by simp
    from add_key_spec [OF e(1) this d(2), of "Some i"] obtain d' c where
      "add_key (me_dict env) d p (Some i) = Some (d', c)" "dict_inv B K d'" "same_shape d d'"
      "c = rdict_code_error \<and> dict_abs d' = dict_abs d \<or> c = rdict_code_ok \<and> dict_abs d' = (dict_abs d)(Some p \<mapsto> copied_value d (Some i))"
      by blast
    with d(4) False show ?thesis by (intro that [of d' c]) (auto simp: rdict_add_def ptr_key_def)
  qed
  have abs: "dict_abs d' (ptr_key q) = map_option Some ((if c = rdict_code_ok then M(p \<mapsto> i) else M) q)" "dict_abs d' (Some 0) = None" for q
    using a(4) d(6,7) by simp_all
  have sh: "copied_value d' = (\<lambda>x. x)" "d_bucket_capacity d' = 16"
    using a(3) d(4,5) same_shape_copied [OF a(3)] by (simp_all add: same_shape_def)
  show ?thesis
  proof (intro exI [of _ d'] exI [of _ c] conjI impI)
    show "rdict_add (me_dict env) (rm_map w) (ptr_key p) (Some i) = Some (Some d', c)" using a(1) d(1) by simp
    assume m: "mi_ptr i = p"
    show "tracks B K (w\<lparr>rm_map := Some d', rm_calls := n, rm_heap := (if p = 0 then rm_heap w else insert p (rm_heap w))\<rparr>)
      (if c = rdict_code_ok then M(p \<mapsto> i) else M)"
      unfolding tracks_def using a(2) sh abs m d(8) h0 by (intro conjI exI [of _ d']) (auto split: if_splits)
  qed
qed

lemma find_tracks:
  assumes t: "tracks B K w M"
  shows "\<exists>d de. rm_map w = Some d \<and> rdict_find (Some d) (ptr_key p) = Some de \<and>
    (case de of None \<Rightarrow> M p = None | Some e \<Rightarrow> M p \<noteq> None \<and> e_val e = M p)"
proof -
  from t obtain d where d: "rm_map w = Some d" "dict_inv B K d" "\<And>p. dict_abs d (ptr_key p) = map_option Some (M p)"
    by (rule tracksE) blast
  show ?thesis
  proof (cases "p = 0")
    case True
    have "map_option e_val (d_null d) = map_option Some (M 0)" using d(3) [of 0] by (simp add: ptr_key_def dict_abs_def)
    then show ?thesis using True d(1)
      by (cases "d_null d"; cases "M 0") (auto simp: rdict_find_def ptr_key_def)
  next
    case False
    then have k: "ptr_key p = Some p" by (simp add: ptr_key_def)
    have "dict_abs d (Some p) = map_option Some (M p)" using d(3) [of p] k by simp
    then show ?thesis using d(1) dict_inv_find [OF d(2), of p] by (cases "M p") (auto simp: k)
  qed
qed

lemma free_tracks:
  assumes t: "tracks B K w M"
  shows "if M p = None then rmem_free env w p = Some (w, 1)
    else \<exists>w'. rmem_free env w p = Some (w', rcode_ok) \<and> tracks B K w' (M(p := None)) \<and> rm_heap w' = rm_heap w - {p} \<and>
      rm_calls w' = rm_calls w"
proof -
  from t obtain d where h0: "0 \<notin> rm_heap w" and d: "rm_map w = Some d" "dict_inv B K d" "dict_ok B d" "copied_value d = (\<lambda>x. x)" "d_bucket_capacity d = 16"
    "dict_abs d (Some 0) = None" "\<And>p. dict_abs d (ptr_key p) = map_option Some (M p)"
    "\<And>p i. M p = Some i \<Longrightarrow> mi_ptr i = p \<and> (p = 0 \<or> p \<in> rm_heap w)" by (rule tracksE) blast
  from find_tracks [OF t, of p] d(1) obtain de where f: "rdict_find (Some d) (ptr_key p) = Some de"
    "case de of None \<Rightarrow> M p = None | Some e \<Rightarrow> M p \<noteq> None \<and> e_val e = M p" by auto
  show ?thesis
  proof (cases "M p")
    case None
    then show ?thesis using f d(1) by (cases de) (auto simp: rmem_free_def)
  next
    case (Some i)
    note i = d(8) [OF Some]
    obtain d' c where r: "rdict_remove (Some d) (ptr_key p) = Some (Some d', c)" "dict_inv B K d'" "same_shape d d'"
      "dict_abs d' = (dict_abs d)(ptr_key p := None)"
    proof (cases "p = 0")
      case True
      with remove_null_spec [OF d(2)] show ?thesis
        by (intro that [of "remove_null d" 0]) (simp_all add: rdict_remove_def ptr_key_def)
    next
      case False
      with remove_key_spec [OF d(2), of p] show ?thesis by (auto simp: ptr_key_def intro: that)
    qed
    define w' where "w' = w\<lparr>rm_map := Some d', rm_heap := (if p = 0 then rm_heap w else rm_heap w - {p})\<rparr>"
    have fb: "free_block (w\<lparr>rm_map := Some d'\<rparr>) p = Some w'" using i by (auto simp: free_block_def w'_def)
    have "rmem_free env w p = Some (w', rcode_ok)"
      using f Some i r(1) fb d(1) by (cases de) (auto simp: rmem_free_def)
    moreover have "tracks B K w' (M(p := None))"
      unfolding tracks_def w'_def using r(2-4) d(4-8) h0 same_shape_copied [OF r(3)]
      by (intro conjI exI [of _ d']) (auto simp: same_shape_def)
    moreover have "rm_heap w' = rm_heap w - {p}" using h0 by (auto simp: w'_def)
    ultimately show ?thesis using Some by (auto simp: w'_def)
  qed
qed

section \<open>The report\<close>

lemma infos_of_map: "\<forall>e \<in> set es. e_val e = Some (f e) \<Longrightarrow> infos_of es = Some (map f es)"
  by (induction es) auto

lemma tracked_entry:
  assumes t: "tracks B K w M" and d: "rm_map w = Some d" and e: "dict_abs d (Some k) = Some v"
  shows "k \<noteq> 0 \<and> (\<exists>i. M k = Some i \<and> v = Some i \<and> mi_ptr i = k)"
proof -
  from t obtain d' where d': "rm_map w = Some d'" "dict_abs d' (Some 0) = None" "\<And>p. dict_abs d' (ptr_key p) = map_option Some (M p)"
    "\<And>p i. M p = Some i \<Longrightarrow> mi_ptr i = p \<and> (p = 0 \<or> p \<in> rm_heap w)" by (rule tracksE) blast
  have k: "k \<noteq> 0" using d'(1,2) d e by auto
  then have "dict_abs d (Some k) = map_option Some (M k)" using d'(1) d'(3) [of k] d by (simp add: ptr_key_def)
  then obtain i where "M k = Some i" "v = Some i" using e by (cases "M k") auto
  then show ?thesis using k d'(4) by blast
qed

lemma report_tracks:
  assumes t: "tracks B K w M" and "me_tracer env" "me_fopen env"
  shows "\<exists>is. distinct is \<and> set is = ran M \<and>
    rmem_statistics env w = Some (rcode_ok, Some (if M = Map.empty then No_leak else Leaks is))"
proof -
  from t obtain d where d: "rm_map w = Some d" "dict_ok B d" "d_bucket_capacity d = 16"
    "\<And>p. dict_abs d (ptr_key p) = map_option Some (M p)"
    "\<And>p i. M p = Some i \<Longrightarrow> mi_ptr i = p \<and> (p = 0 \<or> p \<in> rm_heap w)" by (rule tracksE) blast
  note entry = tracked_entry [OF t d(1)]
  let ?null = "case d_null d of None \<Rightarrow> [] | Some e \<Rightarrow> [e]"
  let ?es = "filter (\<lambda>e. e_key e \<noteq> None) (cells d)"
  have cap: "2 \<le> d_bucket_capacity d" using d(3) by simp
  note it = iterate_lookup [OF d(2) cap]
  define f :: "(ptr, rmem_info) rdict_entry \<Rightarrow> rmem_info" where "f e = the (e_val e)" for e
  have null: "map_option e_val (d_null d) = map_option Some (M 0)" using d(4) [of 0] by (simp add: ptr_key_def dict_abs_def)
  have es: "e_val e = Some (f e) \<and> e_key e = Some (mi_ptr (f e)) \<and> mi_ptr (f e) \<noteq> 0 \<and> M (mi_ptr (f e)) = Some (f e)" if "e \<in> set ?es" for e
  proof -
    from that obtain k where "e_key e = Some k" by auto
    with it that have "dict_abs d (Some k) = Some (e_val e)" by blast
    from entry [OF this] \<open>e_key e = Some k\<close> show ?thesis by (auto simp: f_def)
  qed
  have nu: "e_val e = Some (f e) \<and> mi_ptr (f e) = 0 \<and> M 0 = Some (f e)" if "e \<in> set ?null" for e
    using that null d(5) [of 0] by (cases "d_null d"; cases "M 0") (auto simp: f_def)
  let ?is = "map f (?null @ ?es)"
  have "infos_of (?null @ ?es) = Some ?is" by (rule infos_of_map) (use es nu in auto)
  moreover have "distinct (map mi_ptr ?is)"
  proof -
    define es where "es = ?es"
    have keys: "\<forall>e \<in> set es. e_key e = Some (mi_ptr (f e)) \<and> mi_ptr (f e) \<noteq> 0"
      using es unfolding es_def by blast
    then have "map e_key es = map Some (map (\<lambda>e. mi_ptr (f e)) es)" by simp
    moreover have "distinct (map e_key es)" using it unfolding es_def by blast
    ultimately have "distinct (map (\<lambda>e. mi_ptr (f e)) es)" by (metis distinct_map)
    moreover have "mi_ptr (f e) = 0" if "d_null d = Some e" for e using nu [of e] that by simp
    ultimately show ?thesis unfolding es_def [symmetric] using keys by (cases "d_null d") (auto simp: comp_def)
  qed
  then have "distinct ?is" by (simp only: distinct_map)
  moreover have "set ?is = ran M"
  proof (intro set_eqI iffI)
    fix i assume "i \<in> set ?is"
    then obtain e where e: "e \<in> set ?null \<or> e \<in> set ?es" "i = f e" unfolding set_map set_append by blast
    from e(1) have "\<exists>p. M p = Some (f e)" using es nu by blast
    then show "i \<in> ran M" using e(2) by (auto simp: ran_def)
  next
    fix i assume "i \<in> ran M"
    then obtain p where p: "M p = Some i" by (auto simp: ran_def)
    show "i \<in> set ?is"
    proof (cases "p = 0")
      case True
      then show ?thesis using null p by (cases "d_null d") (auto simp: f_def)
    next
      case False
      then have "dict_abs d (Some p) = Some (Some i)" using d(4) [of p] p by (simp add: ptr_key_def)
      with it obtain e where e: "e \<in> set ?es" "e_val e = Some i" by blast
      from e(1) have "f e \<in> f ` set ?es" by (rule imageI)
      moreover have "f e = i" using e(2) by (simp add: f_def)
      ultimately show ?thesis unfolding set_map set_append image_Un by blast
    qed
  qed
  moreover have "d_size d = 0 \<longleftrightarrow> M = Map.empty"
  proof
    assume "d_size d = 0"
    then have "dom (dict_abs d) = {}" using dict_size_card [OF d(2)] by simp
    then show "M = Map.empty" using d(4) by (metis (no_types) dom_empty dom_eq_empty_conv option.map_disc_iff ext)
  next
    assume "M = Map.empty"
    then have "dict_abs d k = None" for k
      using entry [of "the k"] d(4) [of 0] by (cases k; cases "dict_abs d k") (auto simp: ptr_key_def)
    then have "dom (dict_abs d) = {}" by (simp add: dom_def)
    then show "d_size d = 0" using dict_size_card [OF d(2)] by simp
  qed
  ultimately show ?thesis
    using it d(1) assms(2,3) by (intro exI [of _ ?is]) (auto simp: rmem_statistics_def)
qed

lemma alloc_returns:
  assumes env: "mem_env_ok B K env" and t: "tracks B K w M"
  shows "\<exists>w' d' code. trace_block env w n c site = Some (w', me_malloc env (rm_calls w)) \<and>
    rdict_add (me_dict env) (rm_map w) (ptr_key (me_malloc env (rm_calls w)))
      (Some (traced_info (me_malloc env (rm_calls w)) n c site)) = Some (Some d', code) \<and>
    tracks B K w' (if code = rdict_code_ok then M(me_malloc env (rm_calls w) \<mapsto> traced_info (me_malloc env (rm_calls w)) n c site) else M)"
proof -
  let ?p = "me_malloc env (rm_calls w)"
  have e: "me_info env (rm_calls w)" "?p \<in> insert 0 K" using env by (simp_all add: mem_env_ok_def)
  have "mi_ptr (traced_info ?p n c site) = ?p" by (simp add: traced_info_def rmem_site.extend_def)
  with add_tracks [OF env t e(2), of "traced_info ?p n c site" "Suc (rm_calls w)"] obtain d' code where
    a: "rdict_add (me_dict env) (rm_map w) (ptr_key ?p) (Some (traced_info ?p n c site)) = Some (Some d', code)"
      "tracks B K (w\<lparr>rm_map := Some d', rm_calls := Suc (rm_calls w), rm_heap := (if ?p = 0 then rm_heap w else insert ?p (rm_heap w))\<rparr>)
        (if code = rdict_code_ok then M(?p \<mapsto> traced_info ?p n c site) else M)" by blast
  then show ?thesis
    using e(1) by (auto simp: trace_block_def traced_info_def rassert_def Let_def)
qed

lemma run_tracks:
  assumes "mem_env_ok B K env"
  shows "mem_run env v w M \<Longrightarrow> tracks B K w M"
proof (induction rule: mem_run.induct)
  case (init w d)
  then show ?case using init_tracks [OF assms init(1,3-5,2)] by simp
next
  case (alloc w M n site w' p c mp code)
  have tb: "trace_block env w n c site = Some (w', p)"
    using alloc.hyps(3) by (auto simp: rmem_malloc_trace_def rmem_cmalloc_trace_def)
  show ?case using alloc_returns [OF assms alloc.IH, of n c site] tb alloc.hyps(4) by auto
next
  case (freed w M p w' r)
  show ?case
  proof (cases "M p = None")
    case True
    then have "w' = w" "M(p := None) = M" using free_tracks [OF freed.IH, of p] freed.hyps(2) by auto
    then show ?thesis using freed.IH by simp
  next
    case False
    then obtain w1 where "rmem_free env w p = Some (w1, rcode_ok)" "tracks B K w1 (M(p := None))"
      using free_tracks [OF freed.IH, of p env] by auto
    moreover have "w' = w1" using freed.hyps(2) calculation(1) by simp
    ultimately show ?thesis by (simp add: fun_upd_def)
  qed
qed


definition demo_mem_env :: rmem_env where
  "demo_mem_env = \<lparr>me_dict = \<lparr>de_calloc = (\<lambda>n. n \<le> 2 ^ 28), de_malloc_entry = True\<rparr>,
    me_malloc = (\<lambda>n. if n = 0 then 16 else 0), me_info = (\<lambda>_. True), me_fopen = True, me_tracer = True\<rparr>"

definition demo_mem :: rmem where
  "demo_mem = \<lparr>rm_map = None, rm_heap = {}, rm_calls = 0\<rparr>"

definition demo_site :: rmem_site where
  "demo_site = \<lparr>ms_thread = 1, ms_filename = ''a.c'', ms_func = ''f'', ms_line = 7\<rparr>"

lemma demo_mem_env_ok: "mem_env_ok (2 ^ 28) {16} demo_mem_env"
proof -
  have "card {k \<in> {16 :: ptr}. home (\<lambda>k. k) n k = n - 1} < 16" for n
  proof -
    have "card {k \<in> {16 :: ptr}. home (\<lambda>k. k) n k = n - 1} \<le> card {16 :: ptr}" by (intro card_mono) auto
    then show ?thesis by simp
  qed
  then have "spread (\<lambda>k. k) {16 :: ptr} 16 12500 (2 ^ 28)" unfolding spread_def by blast
  then show ?thesis by (simp add: mem_env_ok_def env_ok_def demo_mem_env_def)
qed

definition demo_table :: "(ptr, rmem_info) rdict" where
  "demo_table = trace_fns\<lparr>d_entry := Some (replicate 266672 empty_entry), d_capacity := 266672, d_buckets := 16667,
    d_bucket_capacity := 16\<rparr>"

lemma demo_scale: "scale_capacity 200000 = 266666"
  by (simp add: scale_capacity_def round_f32_def)

lemma demo_init: "rmem_init demo_mem_env demo_mem = Some (demo_mem\<lparr>rm_map := Some demo_table\<rparr>, rcode_ok)"
proof -
  have "rdict_create (me_dict demo_mem_env) trace_fns 200000 16 = Some demo_table"
    unfolding rdict_create_def
    by (subst expand_buckets.simps)
      (simp add: demo_scale demo_mem_env_def demo_table_def trace_fns_def Let_def)
  then show ?thesis by (simp add: rmem_init_def demo_mem_env_def demo_mem_def)
qed


end
