(* ===== verification/RServer.thy ===== *)
theory RServer
  imports RClient RDict
begin

text \<open>
  The epoll server of \<open>ipc/src/rsocket_epoll.c\<close> (the functions with the suffix \<open>_server\<close> and
  \<open>close_session\<close>): a listening socket, a dictionary from session ids to sessions, and a data source
  with two buffers and a socket per session.  Sessions live at addresses; \<open>None\<close> is memory that was
  freed.
\<close>

section \<open>State and surroundings\<close>

text \<open>A data source of a session with its socket; both buffers live as long as it does.\<close>

record session =
  ss_ds :: ripc_data_source
  ss_stream :: "rsocket option"

text \<open>
  \<open>sv_stream_live\<close> says whether the socket \<open>sv_stream\<close> points to, and its item, are allocated: closing
  frees them and leaves the pointer.
\<close>

record 'w server = epworld +
  sv_ds :: ripc_data_source
  sv_stream :: "rsocket option"
  sv_stream_live :: bool
  sv_map :: "(64 word, int) rdict option"
  sv_sess :: "int \<Rightarrow> session option"
  sv_next :: int
  sv_sid :: "64 word"
  sv_app :: 'w

text \<open>
  \<open>ve_family\<close> is the address family \<open>accept\<close> reports.  The handler for received data is given the
  state, since it may call the functions of the server.
\<close>

record 'w server_env =
  ve_net :: net_env
  ve_addrs :: "nat \<Rightarrow> int list answer"
  ve_res_null :: bool
  ve_block :: bytes
  ve_dict :: rdict_env
  ve_family :: "nat \<Rightarrow> int"
  ve_out :: "ipc_handler option"
  ve_in :: "('w server \<Rightarrow> int \<Rightarrow> 32 word \<Rightarrow> ('w server \<times> int) option) option"

abbreviation (input) AF_INET6 :: int where "AF_INET6 \<equiv> 10"

text \<open>The address of the data source of the server itself; sessions have others.\<close>

abbreviation (input) server_addr :: int where "server_addr \<equiv> 0"

definition id_key :: "64 word \<Rightarrow> 64 word option" where
  "id_key sid = (if sid = 0 then None else Some sid)"

text \<open>The functions \<open>rdict_init\<close> installs for 64-bit keys and pointers.\<close>

definition session_fns :: "(64 word, int) rdict" where
  "session_fns = \<lparr>d_entry = None, d_null = None, d_size = 0, d_capacity = 0, d_buckets = 0, d_bucket_capacity = 0,
    d_hash = (\<lambda>k. k), d_eq = (=), d_copy_key = Some (\<lambda>k. k), d_copy_value = Some (\<lambda>v. v),
    d_freed_keys = [], d_freed_values = []\<rparr>"

definition server_state :: "ripc_state \<Rightarrow> 'w server \<Rightarrow> 'w server" where
  "server_state st w = w\<lparr>sv_ds := (sv_ds w)\<lparr>ds_state := st\<rparr>\<rparr>"

section \<open>Opening\<close>

definition ripc_init_server :: "'w server_env \<Rightarrow> 'w server \<Rightarrow> ('w server \<times> int) option" where
  "ripc_init_server env w = do {
     d \<leftarrow> rdict_create (ve_dict env) session_fns 2000 16;
     Some (w\<lparr>sv_map := Some d, sv_stream := None\<rparr>, rcode_ok)
   }"

definition ripc_uninit_server :: "'w server \<Rightarrow> ('w server \<times> int) option" where
  "ripc_uninit_server w = do {
     _ \<leftarrow> (case sv_map w of None \<Rightarrow> Some None | Some d \<Rightarrow> rdict_clear (Some d));
     Some (server_state ripc_state_uninit (w\<lparr>sv_map := None\<rparr>), rcode_ok)
   }"

text \<open>The loop over the addresses: the first one that can be bound.\<close>

fun bind_addrs ::
  "net_env \<Rightarrow> int list \<Rightarrow> int \<Rightarrow> int \<Rightarrow> 'a nworld_scheme \<Rightarrow> rsocket \<Rightarrow> 'a nworld_scheme \<times> rsocket \<times> int"
where
  "bind_addrs env [] current_family ret_code w s = (w, s, ret_code)"
| "bind_addrs env (family # rest) current_family ret_code w s =
    (if current_family \<noteq> family \<or> sk_fd s = SOCKET_INVALID
     then case rsocket_close w s of (w1, s1, _) \<Rightarrow>
       (case rsocket_create env w1 s1 of (w2, s2, ret) \<Rightarrow>
         if ret \<noteq> rcode_ok then bind_addrs env rest current_family ret w2 s2
         else case rsocket_bind env (fst (rsocket_setblocking w2 s2)) s2 of (w3, ret1) \<Rightarrow>
           if ret1 = rcode_ok then (w3, s2, ret1) else bind_addrs env rest family ret1 w3 s2)
     else case rsocket_bind env (fst (rsocket_setblocking w s)) s of (w3, ret1) \<Rightarrow>
       if ret1 = rcode_ok then (w3, s, ret1) else bind_addrs env rest current_family ret1 w3 s)"

text \<open>When setting an option fails, \<open>exit1\<close> returns the 0 of \<open>listen\<close>.\<close>

definition ripc_open_server :: "'w server_env \<Rightarrow> 'w server \<Rightarrow> ('w server \<times> int) option" where
  "ripc_open_server env w = (let net = ve_net env; w0 = tick w in
     case ve_addrs env (nw_tick w) of
       Err e \<Rightarrow> if ve_res_null env then Some (w0, e) else None
     | Ret families \<Rightarrow>
         (case bind_addrs net families AF_INET rcode_ok w0 (new_socket net) of (w1, s1, ret_code) \<Rightarrow>
           if ret_code \<noteq> rcode_ok then Some (fst (rsocket_close w1 s1), ret_code)
           else case rsocket_listen net (fst (rsocket_setblocking w1 s1)) s1 of (w2, ret) \<Rightarrow>
             if ret \<noteq> rcode_ok then Some (fst (rsocket_close w2 s1), ret)
             else case rsocket_setopt net w2 s1 RSO_NONBLOCK True of (w3, s3, r) \<Rightarrow>
               if r \<noteq> rcode_ok then Some (fst (rsocket_close w3 s3), ret)
               else case rsocket_setopt net w3 s3 RTCP_NODELAY True of (w4, s4, r4) \<Rightarrow>
                 if r4 \<noteq> rcode_ok then Some (fst (rsocket_close w4 s4), ret)
                 else do {
                   let a = ep_next w4;
                   let w5 = w4\<lparr>ep_next := a + 1, ep_items := (ep_items w4)(a \<mapsto>
                     \<lparr>ri_fd = sk_fd s4, ri_req = repoll_set_event_all 0, ri_rsp = 0, ri_ds = server_addr\<rparr>)\<rparr>;
                   (w6, ret1) \<leftarrow> repoll_add net w5 (Item a);
                   if ret1 \<noteq> rcode_ok
                   then Some ((fst (rsocket_close w6 s4))\<lparr>ep_items := (ep_items w6)(a := None)\<rparr>, ret1)
                   else Some (server_state ripc_state_ready
                     (w6\<lparr>sv_stream := Some (s4\<lparr>sk_item := a\<rparr>), sv_stream_live := True\<rparr>), rcode_ok)
                 }))"

definition ripc_start_server :: "'w server \<Rightarrow> 'w server \<times> int" where
  "ripc_start_server w = (server_state ripc_state_start w, rcode_ok)"

definition ripc_stop_server :: "'w server \<Rightarrow> 'w server \<times> int" where
  "ripc_stop_server w = (server_state ripc_state_stop w, rcode_ok)"

section \<open>Closing\<close>

text \<open>\<open>close_session\<close>, and \<open>ripc_on_error_server\<close>, which only calls it.\<close>

definition close_session :: "'w server_env \<Rightarrow> 'w server \<Rightarrow> int \<Rightarrow> ('w server \<times> int) option" where
  "close_session env w a = do {
     s \<leftarrow> sv_sess w a;
     if ds_state (ss_ds s) = ripc_state_closed then Some (w, rcode_ok)
     else do {
       (mp, _) \<leftarrow> rdict_remove (sv_map w) (id_key (ds_id (ss_ds s)));
       let w1 = w\<lparr>sv_map := mp\<rparr>;
       w2 \<leftarrow> (case ss_stream s of
           None \<Rightarrow> Some w1
         | Some k \<Rightarrow> do {
             (w2, _) \<leftarrow> repoll_remove (ve_net env) w1 (Item (sk_item k));
             let w3 = w2\<lparr>ep_items := (ep_items w2)(sk_item k := None)\<rparr>;
             Some (fst (rsocket_close w3 k))
           });
       Some (w2\<lparr>sv_sess := (sv_sess w2)(a := None)\<rparr>, rcode_ok)
     }
   }"

definition ripc_on_error_server :: "'w server_env \<Rightarrow> 'w server \<Rightarrow> int \<Rightarrow> ('w server \<times> int) option" where
  "ripc_on_error_server env w a = do { (w1, _) \<leftarrow> close_session env w a; Some (w1, rcode_ok) }"

text \<open>The iteration over the sessions, while every closed session leaves the dictionary.\<close>

partial_function (option) close_sessions :: "'w server_env \<Rightarrow> rdict_iterator \<Rightarrow> 'w server \<Rightarrow> 'w server option" where
  "close_sessions env it w = do {
     d \<leftarrow> sv_map w;
     (it', e) \<leftarrow> rdict_next d it;
     (case e of
        None \<Rightarrow> Some w
      | Some de \<Rightarrow> do {
          a \<leftarrow> e_val de;
          (w1, _) \<leftarrow> close_session env w a;
          close_sessions env it' w1
        })
   }"

text \<open>The item is read through the socket before the state is looked at.\<close>

definition ripc_close_server :: "'w server_env \<Rightarrow> 'w server \<Rightarrow> ('w server \<times> int) option" where
  "ripc_close_server env w = do {
     s \<leftarrow> sv_stream w;
     if \<not> sv_stream_live w then None
     else if ds_state (sv_ds w) = ripc_state_closed then Some (w, rcode_ok)
     else do {
       (w1, _) \<leftarrow> repoll_remove (ve_net env) w (Item (sk_item s));
       let w2 = w1\<lparr>ep_items := (ep_items w1)(sk_item s := None)\<rparr>;
       let w3 = (fst (rsocket_close w2 s))\<lparr>sv_stream_live := False\<rparr>;
       w4 \<leftarrow> (case sv_map w3 of
           None \<Rightarrow> Some w3
         | Some d \<Rightarrow>
             if d_size d = 0 then Some w3
             else do {
               w4 \<leftarrow> close_sessions env None w3;
               mp \<leftarrow> rdict_clear (sv_map w4);
               Some (w4\<lparr>sv_map := mp\<rparr>)
             });
       Some (server_state ripc_state_closed w4, rcode_ok)
     }
   }"

section \<open>Sessions\<close>

text \<open>Replacing the data source of a session.\<close>

definition set_ds :: "'w server \<Rightarrow> int \<Rightarrow> ripc_data_source \<Rightarrow> 'w server" where
  "set_ds w a ds = w\<lparr>sv_sess := (sv_sess w)(a := map_option (\<lambda>s. s\<lparr>ss_ds := ds\<rparr>) (sv_sess w a))\<rparr>"

text \<open>Setting the mask of the item of a socket and handing it to the kernel.\<close>

definition remask_server ::
  "'w server_env \<Rightarrow> 'w server \<Rightarrow> rsocket option \<Rightarrow> (16 word \<Rightarrow> 16 word) \<Rightarrow> ('w server \<times> int) option" where
  "remask_server env w sp f = do {
     s \<leftarrow> sp;
     it \<leftarrow> ep_items w (sk_item s);
     repoll_modify (ve_net env) (w\<lparr>ep_items := (ep_items w)(sk_item s \<mapsto> it\<lparr>ri_req := f (ri_req it)\<rparr>)\<rparr>) (Item (sk_item s))
   }"

definition ripc_send_data_2buffer_server ::
  "'w server_env \<Rightarrow> 'w server \<Rightarrow> int \<Rightarrow> ripc_data_default \<Rightarrow> ('w server \<times> ripc_data_default \<times> int) option" where
  "ripc_send_data_2buffer_server env w a data = do {
     s \<leftarrow> sv_sess w a;
     if ss_stream s \<noteq> None \<and> ds_state (ss_ds s) \<noteq> ripc_state_start
     then Some (w, data, ipc_code rcode_err_ipc_disconnect)
     else do {
       (ds1, data1, ret) \<leftarrow> (case ve_out env of
           None \<Rightarrow> Some (ss_ds s, data, rcode_err_ok)
         | Some process \<Rightarrow> process (ss_ds s) data);
       let w1 = set_ds w a ds1;
       if ret \<noteq> rcode_err_ok then Some (w1, data1, ret)
       else do {
         wb \<leftarrow> ds_write_buff ds1;
         if rbuffer_size wb > 0 then do {
           (w2, ret_code) \<leftarrow> remask_server env w1 (ss_stream s) repoll_set_event_out;
           Some (w2, data1, if ret_code \<noteq> rcode_ok then ret_code else rcode_ok)
         } else Some (w1, data1, rcode_ok)
       }
     }
   }"

text \<open>A failed \<open>send\<close> is reported and leaves the session open.\<close>

definition ripc_send_data_server :: "'w server_env \<Rightarrow> 'w server \<Rightarrow> int \<Rightarrow> ('w server \<times> int) option" where
  "ripc_send_data_server env w a = do {
     s \<leftarrow> sv_sess w a;
     wb \<leftarrow> ds_write_buff (ss_ds s);
     data_buff \<leftarrow> mem_get (rb_data wb) (rb_offset wb) (rbuffer_size wb);
     k \<leftarrow> ss_stream s;
     (w1, sent_len, ret_code) \<leftarrow> rsocket_send (ve_net env) w k data_buff (timer_millisec (ve_net env) w 3);
     if ret_code \<noteq> rcode_io_done
     then Some (w1, ipc_code (if ret_code = rcode_io_timeout then rcode_err_ipc_timeout else rcode_err_ipc_disconnect))
     else do {
       (bp, _) \<leftarrow> rbuffer_skip (Some wb) (int sent_len);
       wb1 \<leftarrow> bp;
       let w2 = set_ds w1 a ((ss_ds s)\<lparr>ds_write_buff := Some wb1\<rparr>);
       if rbuffer_size wb1 = 0 then do {
         (w3, ret) \<leftarrow> remask_server env w2 (ss_stream s) repoll_unset_event_out;
         Some (w3, if ret \<noteq> rcode_ok then ret else rcode_ok)
       } else Some (w2, rcode_ok)
     }
   }"

definition ripc_receive_data_server :: "'w server_env \<Rightarrow> 'w server \<Rightarrow> int \<Rightarrow> ('w server \<times> int) option" where
  "ripc_receive_data_server env w a = do {
     s \<leftarrow> sv_sess w a;
     if ds_state (ss_ds s) \<noteq> ripc_state_start then Some (w, ipc_code rcode_err_ipc_disconnect)
     else do {
       rc \<leftarrow> ds_read_cache (ss_ds s);
       k \<leftarrow> ss_stream s;
       (w1, got, ret_code) \<leftarrow> rsocket_recv (ve_net env) w k (nat (rbuffer_left rc mod 2 ^ 64))
         (timer_millisec (ve_net env) w 1);
       data1 \<leftarrow> mem_put (rb_data rc) (rb_pos rc) got;
       let w2 = set_ds w1 a ((ss_ds s)\<lparr>ds_read_cache := Some (rc\<lparr>rb_data := data1\<rparr>)\<rparr>);
       if ret_code \<noteq> rcode_io_done \<and> ret_code \<noteq> rcode_io_timeout
       then do { (w3, _) \<leftarrow> ripc_on_error_server env w2 a; Some (w3, rcode_io_closed) }
       else (case ve_in env of
           None \<Rightarrow> Some (w2, rcode_ok)
         | Some process \<Rightarrow>
             if got = [] then Some (w2, rcode_ok)
             else do {
               (w3, ret) \<leftarrow> process w2 a (word_of_nat (length got));
               Some (w3, if ret \<noteq> rcode_err_ok then ipc_code rcode_err_ipc_decode else rcode_ok)
             })
     }
   }"

section \<open>Accepting\<close>

text \<open>
  \<open>exit1\<close> of \<open>ripc_accept_server\<close>: the session and the item that were made so far are undone, the
  socket is closed.
\<close>

definition undo_accept ::
  "'w server_env \<Rightarrow> 'w server \<Rightarrow> int option \<Rightarrow> int option \<Rightarrow> rsocket \<Rightarrow> 'w server option" where
  "undo_accept env w ds_client item s = do {
     w1 \<leftarrow> (case ds_client of
         None \<Rightarrow> Some w
       | Some a \<Rightarrow> do {
           c \<leftarrow> sv_sess w a;
           (mp, _) \<leftarrow> rdict_remove (sv_map w) (id_key (ds_id (ss_ds c)));
           Some (w\<lparr>sv_map := mp, sv_sess := (sv_sess w)(a := None)\<rparr>)
         });
     w2 \<leftarrow> (case item of
         None \<Rightarrow> Some w1
       | Some i \<Rightarrow> do {
           chk \<leftarrow> repoll_check w1 (Item i);
           w2 \<leftarrow> (if chk = rcode_ok then map_option fst (repoll_remove (ve_net env) w1 (Item i)) else Some w1);
           Some (w2\<lparr>ep_items := (ep_items w2)(i := None)\<rparr>)
         });
     Some (fst (rsocket_close w2 s))
   }"

text \<open>The session of a new connection: its id is the next one; the code of \<open>rdict_add\<close> is not looked at.\<close>

definition new_session :: "'w server_env \<Rightarrow> 'w server \<Rightarrow> ('w server \<times> int) option" where
  "new_session env w = do {
     rb \<leftarrow> rbuffer_create (ve_block env) buffer_bytes;
     wb \<leftarrow> rbuffer_create (ve_block env) buffer_bytes;
     let a = sv_next w;
     let sid = sv_sid w + 1;
     (mp, _) \<leftarrow> rdict_add (ve_dict env) (sv_map w) (id_key sid) (Some a);
     Some (w\<lparr>sv_next := a + 1, sv_sid := sid, sv_map := mp, sv_sess := (sv_sess w)(a \<mapsto>
       \<lparr>ss_ds = \<lparr>ds_id = sid, ds_type = ripc_data_source_type_session, ds_state = ripc_state_unknown,
         ds_read_cache = Some rb, ds_write_buff = Some wb\<rparr>, ss_stream = None\<rparr>)\<rparr>, a)
   }"

definition ripc_accept_server :: "'w server_env \<Rightarrow> 'w server \<Rightarrow> ('w server \<times> int) option" where
  "ripc_accept_server env w = (let net = ve_net env in do {
     listener \<leftarrow> sv_stream w;
     _ \<leftarrow> (if sv_stream_live w then Some () else None);
     (w1, s1, code) \<leftarrow> rsocket_accept net w listener (new_socket net) (timer_millisec net w 3);
     if code \<noteq> rcode_io_done then map_option (\<lambda>w. (w, code)) (undo_accept env w1 None None s1)
     else if sk_fd s1 = SOCKET_INVALID then map_option (\<lambda>w. (w, rcode_invalid)) (undo_accept env w1 None None s1)
     else if ve_family env (nw_tick w1) \<noteq> AF_INET \<and> ve_family env (nw_tick w1) \<noteq> AF_INET6
     then map_option (\<lambda>w. (w, rcode_invalid)) (undo_accept env w1 None None s1)
     else do {
       (w2, a) \<leftarrow> new_session env w1;
       (case rsocket_setopt net w2 s1 RSO_NONBLOCK True of (w3, s3, r3) \<Rightarrow>
         if r3 \<noteq> rcode_ok then map_option (\<lambda>w. (w, code)) (undo_accept env w3 (Some a) None s3)
         else case rsocket_setopt net w3 s3 RTCP_NODELAY True of (w4, s4, r4) \<Rightarrow>
           if r4 \<noteq> rcode_ok then map_option (\<lambda>w. (w, code)) (undo_accept env w4 (Some a) None s4)
           else do {
             let i = ep_next w4;
             let w5 = w4\<lparr>ep_next := i + 1, ep_items := (ep_items w4)(i \<mapsto>
               \<lparr>ri_fd = sk_fd s4, ri_req = repoll_set_event_in 0, ri_rsp = 0, ri_ds = a\<rparr>)\<rparr>;
             (w6, ret) \<leftarrow> repoll_add net w5 (Item i);
             if ret \<noteq> rcode_ok then map_option (\<lambda>w. (w, ret)) (undo_accept env w6 (Some a) (Some i) s4)
             else do {
               c \<leftarrow> sv_sess w6 a;
               Some (w6\<lparr>sv_sess := (sv_sess w6)(a \<mapsto> c\<lparr>ss_stream := Some (s4\<lparr>sk_item := i\<rparr>),
                 ss_ds := (ss_ds c)\<lparr>ds_state := ripc_state_start\<rparr>\<rparr>)\<rparr>, rcode_ok)
             }
           })
     }
   })"

text \<open>\<open>while (accept == ok && --accept_count > 0)\<close>, with the count 10.\<close>

fun accept_some :: "'w server_env \<Rightarrow> nat \<Rightarrow> 'w server \<Rightarrow> 'w server option" where
  "accept_some env 0 w = Some w"
| "accept_some env (Suc n) w = do {
     (w1, ret) \<leftarrow> ripc_accept_server env w;
     if ret = rcode_ok then accept_some env n w1 else Some w1
   }"

section \<open>A round\<close>

fun check_server_items :: "'w server_env \<Rightarrow> nat list \<Rightarrow> 'w server \<Rightarrow> 'w server option" where
  "check_server_items env [] w = Some w"
| "check_server_items env (i # is) w = do {
     it \<leftarrow> item_at w (Dest i);
     if ri_fd it = 0 then check_server_items env is w
     else if ri_ds it = server_addr then
       if repoll_check_event_err (ri_rsp it)
       then do { (w1, _) \<leftarrow> ripc_close_server env w; check_server_items env is w1 }
       else do {
         w1 \<leftarrow> (if repoll_check_event_in (ri_rsp it) \<and> ds_state (sv_ds w) = ripc_state_start
              then accept_some env 10 w else Some w);
         check_server_items env is w1
       }
     else if repoll_check_event_err (ri_rsp it)
     then do { (w1, _) \<leftarrow> ripc_on_error_server env w (ri_ds it); check_server_items env is w1 }
     else do {
       w1 \<leftarrow> (if repoll_check_event_out (ri_rsp it)
            then do { s \<leftarrow> sv_sess w (ri_ds it);
              if ds_state (ss_ds s) = ripc_state_start
              then map_option fst (ripc_send_data_server env w (ri_ds it)) else Some w }
            else Some w);
       w2 \<leftarrow> (if repoll_check_event_in (ri_rsp it)
            then do { s \<leftarrow> sv_sess w1 (ri_ds it);
              if ds_state (ss_ds s) = ripc_state_start
              then map_option fst (ripc_receive_data_server env w1 (ri_ds it)) else Some w1 }
            else Some w1);
       check_server_items env is w2
     }
   }"

definition ripc_check_data_server :: "'w server_env \<Rightarrow> 'w server \<Rightarrow> ('w server \<times> int) option" where
  "ripc_check_data_server env w = do {
     (w1, ret_code) \<leftarrow> repoll_poll (ve_net env) w;
     if ret_code \<noteq> rcode_ok then Some (w1, ret_code)
     else do {
       n \<leftarrow> ep_dest_count w1;
       w2 \<leftarrow> check_server_items env [0..<nat n] w1;
       Some (w2, if ds_state (sv_ds w2) \<noteq> ripc_state_start then rcode_invalid else rcode_ok)
     }
   }"

section \<open>What a server holds together\<close>

text \<open>Descriptor and item of a session.\<close>

definition link :: "'w server \<Rightarrow> int \<Rightarrow> (int \<times> int) option" where
  "link w a = do { s \<leftarrow> sv_sess w a; k \<leftarrow> ss_stream s; Some (sk_fd k, sk_item k) }"

text \<open>
  Every item is the one of the listening socket \<open>(f, l)\<close> or belongs to a session that is allocated;
  every session is started, has its two buffers and its item; every entry of the dictionary leads
  to the session of that id.
\<close>

definition items_ok :: "int \<times> int \<Rightarrow> 'w server \<Rightarrow> bool" where
  "items_ok fl w \<longleftrightarrow> (\<forall>i it. ep_items w i = Some it \<longrightarrow> i < ep_next w \<and> 0 \<le> ri_fd it \<and>
    (if ri_ds it = 0 then (ri_fd it, i) = fl else link w (ri_ds it) = Some (ri_fd it, i)))"

definition session_ok :: "'w server \<Rightarrow> int \<Rightarrow> session \<Rightarrow> bool" where
  "session_ok w a s \<longleftrightarrow> 0 < a \<and> a < sv_next w \<and> ds_state (ss_ds s) = ripc_state_start \<and>
    (\<exists>b. ds_read_cache (ss_ds s) = Some b \<and> rbuffer_inv b) \<and> (\<exists>b. ds_write_buff (ss_ds s) = Some b \<and> rbuffer_inv b) \<and>
    (\<exists>k it. ss_stream s = Some k \<and> ep_items w (sk_item k) = Some it \<and> ri_fd it = sk_fd k \<and> ri_ds it = a)"

definition map_ok :: "nat \<Rightarrow> 64 word set \<Rightarrow> 'w server \<Rightarrow> bool" where
  "map_ok B K w \<longleftrightarrow> (\<exists>d. sv_map w = Some d \<and> dict_inv B K d \<and> copied_value d = (\<lambda>x. x) \<and>
    (\<forall>k v. dict_abs d k = Some v \<longrightarrow> (\<exists>a s. v = Some a \<and> sv_sess w a = Some s \<and> id_key (ds_id (ss_ds s)) = k)))"

definition server_ok :: "nat \<Rightarrow> 64 word set \<Rightarrow> int \<times> int \<Rightarrow> 'w server \<Rightarrow> bool" where
  "server_ok B K fl w \<longleftrightarrow> reg_ok w \<and> dest_ok w \<and> ep_dest_count w \<noteq> None \<and> items_ok fl w \<and>
    (\<forall>a s. sv_sess w a = Some s \<longrightarrow> session_ok w a s) \<and> map_ok B K w \<and> sv_stream w \<noteq> None \<and> sv_stream_live w \<and> 0 < sv_next w"

lemma server_okD:
  assumes "server_ok B K fl w"
  shows "reg_ok w" "dest_ok w" "ep_dest_count w \<noteq> None" "items_ok fl w" "sv_sess w a = Some s \<Longrightarrow> session_ok w a s"
    "map_ok B K w" "sv_stream w \<noteq> None" "sv_stream_live w" "0 < sv_next w"
  using assms by (auto simp: server_ok_def)

lemma session_okE:
  assumes "session_ok w a s"
  obtains rb wb k it where "0 < a" "a < sv_next w" "ds_state (ss_ds s) = ripc_state_start" "ds_read_cache (ss_ds s) = Some rb"
    "rbuffer_inv rb" "ds_write_buff (ss_ds s) = Some wb" "rbuffer_inv wb" "ss_stream s = Some k"
    "ep_items w (sk_item k) = Some it" "ri_fd it = sk_fd k" "ri_ds it = a"
  using assms by (auto simp: session_ok_def)

text \<open>The results of a poll that are still to be looked at.\<close>

definition dest_entry :: "int \<Rightarrow> 'w server \<Rightarrow> repoll_item \<Rightarrow> bool" where
  "dest_entry f w it \<longleftrightarrow> ri_fd it = 0 \<or> (if ri_ds it = 0 then ri_fd it = f else \<exists>j. link w (ri_ds it) = Some (ri_fd it, j))"

definition dest_fd :: "'w server \<Rightarrow> nat \<Rightarrow> int" where
  "dest_fd w i = (case ep_dest w ! i of None \<Rightarrow> 0 | Some it \<Rightarrow> ri_fd it)"

definition pending_ok :: "int \<Rightarrow> nat list \<Rightarrow> 'w server \<Rightarrow> bool" where
  "pending_ok f is w \<longleftrightarrow> distinct is \<and> (\<forall>i \<in> set is. i < length (ep_dest w) \<and> (\<exists>it. ep_dest w ! i = Some it \<and> dest_entry f w it)) \<and>
    (\<forall>i \<in> set is. \<forall>j \<in> set is. i \<noteq> j \<and> dest_fd w i \<noteq> 0 \<longrightarrow> dest_fd w i \<noteq> dest_fd w j)"

text \<open>
  What a step does to them: a result may be taken out, and the sessions of the remaining ones keep
  their sockets.
\<close>

definition dests_cleared :: "'w server \<Rightarrow> 'w server \<Rightarrow> bool" where
  "dests_cleared w w' \<longleftrightarrow> length (ep_dest w') = length (ep_dest w) \<and>
    (\<forall>i d. ep_dest w ! i = Some d \<longrightarrow> ep_dest w' ! i = Some d \<or> ep_dest w' ! i = Some (d\<lparr>ri_fd := 0\<rparr>))"

lemma dests_cleared_refl: "ep_dest w' = ep_dest w \<Longrightarrow> dests_cleared w w'"
  by (simp add: dests_cleared_def)

lemma dests_cleared_trans: "dests_cleared u v \<Longrightarrow> dests_cleared v w \<Longrightarrow> dests_cleared u w"
  unfolding dests_cleared_def by (metis (no_types, lifting) repoll_item.fold_congs(1) repoll_item.surjective repoll_item.update_convs(1))

lemma pending_step:
  assumes p: "pending_ok f is w" and d: "dests_cleared w w'"
    and l: "\<And>i it j. i \<in> set is \<Longrightarrow> ep_dest w ! i = Some it \<Longrightarrow> ri_fd it \<noteq> 0 \<Longrightarrow> ri_ds it \<noteq> 0 \<Longrightarrow>
      link w (ri_ds it) = Some (ri_fd it, j) \<Longrightarrow> link w' (ri_ds it) = Some (ri_fd it, j)"
  shows "pending_ok f is w'"
proof -
  have fd: "dest_fd w' i = dest_fd w i \<or> dest_fd w' i = 0" if "i \<in> set is" for i
    using p d that by (fastforce simp: pending_ok_def dests_cleared_def dest_fd_def)
  have e: "\<exists>it. ep_dest w' ! i = Some it \<and> dest_entry f w' it" if i: "i \<in> set is" for i
  proof -
    obtain it where it: "ep_dest w ! i = Some it" "dest_entry f w it" using p i by (auto simp: pending_ok_def)
    then have "ep_dest w' ! i = Some it \<or> ep_dest w' ! i = Some (it\<lparr>ri_fd := 0\<rparr>)" using d by (simp add: dests_cleared_def)
    moreover have "dest_entry f w' it" using it(2) l [OF i it(1)] by (auto simp: dest_entry_def split: if_splits)
    moreover have "dest_entry f w' (it\<lparr>ri_fd := 0\<rparr>)" by (simp add: dest_entry_def)
    ultimately show ?thesis by blast
  qed
  have len: "i < length (ep_dest w')" if "i \<in> set is" for i using p d that by (simp add: pending_ok_def dests_cleared_def)
  have diff: "dest_fd w' i \<noteq> dest_fd w' j" if "i \<in> set is" "j \<in> set is" "i \<noteq> j" "dest_fd w' i \<noteq> 0" for i j
  proof -
    have "dest_fd w i \<noteq> 0 \<longrightarrow> dest_fd w i \<noteq> dest_fd w j" using p that(1-3) unfolding pending_ok_def by blast
    then show ?thesis using that(4) fd [OF that(1)] fd [OF that(2)] by auto
  qed
  show ?thesis unfolding pending_ok_def using p e len diff by (auto simp: pending_ok_def)
qed

section \<open>Closing a session\<close>

lemma remove_returns:
  fixes w :: "'a epworld_scheme"
  assumes it: "ep_items w a = Some it" and ok: "dest_ok w" and n: "ep_dest_count w \<noteq> None"
  obtains reg D r where "repoll_remove env w (Item a) = Some (w\<lparr>nw_tick := Suc (nw_tick w), nw_reg := reg, ep_dest := D\<rparr>, r)"
    "length D = length (ep_dest w)" "\<forall>i d. ep_dest w ! i = Some d \<longrightarrow> D ! i = Some d \<or> D ! i = Some (d\<lparr>ri_fd := 0\<rparr>)"
proof -
  note outcome = that
  obtain n where n: "ep_dest_count w = Some n" using n by blast
  from repoll_remove_cases [OF it ok n] obtain w1 e where
    c: "sys_epoll_ctl env w (ep_fd w) EPOLL_CTL_DEL (ri_fd it) 0 (Item a) = (w1, e)" and
    r: "if e \<noteq> 0 then repoll_remove env w (Item a) = Some (w1, -1)
      else repoll_remove env w (Item a) = Some (w1, rcode_ok) \<and> (\<forall>i < nat n. ri_fd (the (ep_dest w ! i)) \<noteq> ri_fd it) \<or>
       (\<exists>i < nat n. ri_fd (the (ep_dest w ! i)) = ri_fd it \<and> repoll_remove env w (Item a) =
         Some (w1\<lparr>ep_dest := (ep_dest w)[i := Some ((the (ep_dest w ! i))\<lparr>ri_fd := 0\<rparr>)]\<rparr>, rcode_ok))" by blast
  from ctl_shape [OF c] obtain reg where s: "w1 = w\<lparr>nw_tick := Suc (nw_tick w), nw_reg := reg\<rparr>" by blast
  have same: "thesis" if "repoll_remove env w (Item a) = Some (w1, x)" for x
    using that s by (intro outcome [where reg = reg and D = "ep_dest w" and r = x]) simp_all
  show thesis
  proof (cases "e = 0")
    case False
    then show thesis using r same by simp
  next
    case True
    with r consider "repoll_remove env w (Item a) = Some (w1, rcode_ok)"
      | i where "repoll_remove env w (Item a) =
         Some (w1\<lparr>ep_dest := (ep_dest w)[i := Some ((the (ep_dest w ! i))\<lparr>ri_fd := 0\<rparr>)]\<rparr>, rcode_ok)" by auto
    then show thesis
    proof cases
      case (2 i)
      let ?D = "(ep_dest w)[i := Some ((the (ep_dest w ! i))\<lparr>ri_fd := 0\<rparr>)]"
      have "?D ! j = Some d \<or> ?D ! j = Some (d\<lparr>ri_fd := 0\<rparr>)" if "ep_dest w ! j = Some d" for j d
        using that by (cases "i < length (ep_dest w)") (auto simp: nth_list_update list_update_beyond)
      then show thesis using 2 s by (intro outcome [where reg = reg and D = ?D and r = 0]) simp_all
    qed (rule same)
  qed
qed

text \<open>The dictionary without an id, when no session of that id is left behind in it.\<close>

lemma map_remove:
  assumes m: "map_ok B K w" and s: "\<And>b s. id_key (ds_id (ss_ds s)) \<noteq> k \<Longrightarrow> sv_sess w b = Some s \<Longrightarrow> sv_sess w' b = Some s"
  shows "\<exists>d' c. rdict_remove (sv_map w) k = Some (Some d', c) \<and> (sv_map w' = Some d' \<longrightarrow> map_ok B K w')"
proof -
  from m obtain d where d: "sv_map w = Some d" "dict_inv B K d" "copied_value d = (\<lambda>x. x)"
    "\<And>k v. dict_abs d k = Some v \<Longrightarrow> \<exists>a s. v = Some a \<and> sv_sess w a = Some s \<and> id_key (ds_id (ss_ds s)) = k"
    unfolding map_ok_def by blast
  obtain d' c where r: "rdict_remove (Some d) k = Some (Some d', c)" "dict_inv B K d'" "same_shape d d'"
    "dict_abs d' = (dict_abs d)(k := None)"
  proof (cases k)
    case None
    with remove_null_spec [OF d(2)] show ?thesis by (intro that [of "remove_null d" 0]) (simp_all add: rdict_remove_def)
  next
    case (Some k')
    with remove_key_spec [OF d(2), of k'] show ?thesis by (auto intro: that)
  qed
  have "\<exists>a s. v = Some a \<and> sv_sess w' a = Some s \<and> id_key (ds_id (ss_ds s)) = q" if "dict_abs d' q = Some v" for q v
  proof -
    from that r(4) have q: "q \<noteq> k" "dict_abs d q = Some v" by (auto split: if_splits)
    from d(4) [OF q(2)] q(1) s show ?thesis by blast
  qed
  then show ?thesis using r d(1,3) same_shape_copied [OF r(3)] unfolding map_ok_def by auto
qed

lemma map_drop:
  fixes w :: "'w server"
  assumes m: "map_ok B K w" and s: "sv_sess w a = Some s"
  obtains d' c where "rdict_remove (sv_map w) (id_key (ds_id (ss_ds s))) = Some (Some d', c)"
    "\<And>w' :: 'w server. sv_sess w' = (sv_sess w)(a := None) \<Longrightarrow> sv_map w' = Some d' \<Longrightarrow> map_ok B K w'"
proof -
  have step: "\<exists>d' c. rdict_remove (sv_map w) (id_key (ds_id (ss_ds s))) = Some (Some d', c) \<and> (sv_map w' = Some d' \<longrightarrow> map_ok B K w')"
    if w': "sv_sess w' = (sv_sess w)(a := None)" for w' :: "'w server"
  proof (rule map_remove [OF m])
    fix b t assume "id_key (ds_id (ss_ds t)) \<noteq> id_key (ds_id (ss_ds s))" "sv_sess w b = Some t"
    then show "sv_sess w' b = Some t" using s w' by auto
  qed
  from step [of "w\<lparr>sv_sess := (sv_sess w)(a := None)\<rparr>"] obtain d' c where
    r: "rdict_remove (sv_map w) (id_key (ds_id (ss_ds s))) = Some (Some d', c)" by auto
  have "map_ok B K w'" if "sv_sess w' = (sv_sess w)(a := None)" "sv_map w' = Some d'" for w' :: "'w server"
    using step [OF that(1)] that(2) r by simp
  with r show thesis by (rule that)
qed

lemma close_session_returns:
  fixes w :: "'w server"
  assumes ok: "server_ok B K fl w" and s: "sv_sess w a = Some s"
  obtains w' where "close_session env w a = Some (w', rcode_ok)" "server_ok B K fl w'" "sv_sess w' = (sv_sess w)(a := None)"
    "dests_cleared w w'" "sv_sid w' = sv_sid w" "ep_dest_count w' = ep_dest_count w" "sv_ds w' = sv_ds w"
proof -
  note W = server_okD [OF ok]
  from W(5) [OF s] obtain rb wb k it where S: "0 < a" "a < sv_next w" "ds_state (ss_ds s) = ripc_state_start"
    "ss_stream s = Some k" "ep_items w (sk_item k) = Some it" "ri_fd it = sk_fd k" "ri_ds it = a" by (rule session_okE)
  obtain d' c where m: "rdict_remove (sv_map w) (id_key (ds_id (ss_ds s))) = Some (Some d', c)"
    "\<And>w' :: 'w server. sv_sess w' = (sv_sess w)(a := None) \<Longrightarrow> sv_map w' = Some d' \<Longrightarrow> map_ok B K w'"
    using map_drop [OF W(6) s] by metis
  define w1 where "w1 = w\<lparr>sv_map := Some d'\<rparr>"
  have i1: "ep_items w1 (sk_item k) = Some it" "dest_ok w1" "ep_dest_count w1 \<noteq> None" "reg_ok w1"
    using S(5) dest_ok_cong [of w1 w] W(1-3) by (simp_all add: w1_def reg_ok_def)
  obtain reg D r where rm: "repoll_remove (ve_net env) w1 (Item (sk_item k)) =
      Some (w1\<lparr>nw_tick := Suc (nw_tick w1), nw_reg := reg, ep_dest := D\<rparr>, r)"
    "length D = length (ep_dest w1)" "\<forall>i d. ep_dest w1 ! i = Some d \<longrightarrow> D ! i = Some d \<or> D ! i = Some (d\<lparr>ri_fd := 0\<rparr>)"
    by (rule remove_returns [OF i1(1-3)]) blast
  define w2 where "w2 = w1\<lparr>nw_tick := Suc (nw_tick w1), nw_reg := reg, ep_dest := D\<rparr>"
  define w3 where "w3 = sys_close (w2\<lparr>ep_items := (ep_items w2)(sk_item k := None)\<rparr>) (sk_fd k)"
  have inv: "reg_ok w3" "dest_ok w3"
    using removed_inv [OF i1(1) rm(1) i1(4,2)] unfolding w3_def w2_def S(6) by auto
  define w' where "w' = w3\<lparr>sv_sess := (sv_sess w)(a := None)\<rparr>"
  have fields: "ep_items w' = (ep_items w)(sk_item k := None)" "sv_sess w' = (sv_sess w)(a := None)" "sv_map w' = Some d'"
    "ep_next w' = ep_next w" "sv_next w' = sv_next w" "sv_stream w' = sv_stream w" "sv_stream_live w' = sv_stream_live w"
    "sv_sid w' = sv_sid w" "ep_dest w' = D" "ep_dest_count w' = ep_dest_count w" "sv_ds w' = sv_ds w"
    by (simp_all add: w'_def w3_def w2_def w1_def sys_close_def tick_def)
  have "sk_fd k \<noteq> SOCKET_INVALID" using W(4) S(5,6) unfolding items_ok_def by fastforce
  then have run: "close_session env w a = Some (w', rcode_ok)"
    using s S(3,4) m(1) rm(1)
    by (simp add: close_session_def Let_def w1_def [symmetric] w2_def [symmetric] rsocket_close_def w'_def w3_def)
      (simp add: w2_def w1_def sys_close_def tick_def)
  have lk: "link w' b = link w b" if "b \<noteq> a" for b using that by (simp add: link_def fields)
  have la: "link w a = Some (sk_fd k, sk_item k)" using s S(4) by (simp add: link_def)
  have "items_ok fl w'"
    unfolding items_ok_def fields
  proof (intro allI impI)
    fix i jt assume j: "((ep_items w)(sk_item k := None)) i = Some jt"
    then have j': "i \<noteq> sk_item k" "ep_items w i = Some jt" by (auto split: if_splits)
    have "ri_ds jt \<noteq> a"
    proof
      assume "ri_ds jt = a"
      then have "link w a = Some (ri_fd jt, i)" using W(4) j'(2) S(1) unfolding items_ok_def by fastforce
      then show False using la j'(1) by simp
    qed
    then show "i < ep_next w \<and> 0 \<le> ri_fd jt \<and> (if ri_ds jt = 0 then (ri_fd jt, i) = fl else link w' (ri_ds jt) = Some (ri_fd jt, i))"
      using W(4) j'(2) lk unfolding items_ok_def by fastforce
  qed
  moreover have "session_ok w' b t" if b: "sv_sess w' b = Some t" for b t
  proof -
    from b have b': "b \<noteq> a" "sv_sess w b = Some t" by (auto simp: fields split: if_splits)
    from W(5) [OF b'(2)] obtain rb wb k' it' where T: "0 < b" "b < sv_next w" "ds_state (ss_ds t) = ripc_state_start" "ds_read_cache (ss_ds t) = Some rb"
    "rbuffer_inv rb" "ds_write_buff (ss_ds t) = Some wb" "rbuffer_inv wb" "ss_stream t = Some k'"
      "ep_items w (sk_item k') = Some it'" "ri_fd it' = sk_fd k'" "ri_ds it' = b" by (rule session_okE)
    have "sk_item k' \<noteq> sk_item k" using T(9,11) S(5,7) b'(1) by auto
    then show ?thesis using T by (auto simp: session_ok_def fields)
  qed
  moreover have "reg_ok w'" "dest_ok w'" using inv dest_ok_cong [of w' w3] by (simp_all add: w'_def reg_ok_def)
  ultimately have "server_ok B K fl w'"
    using W(3,7,8,9) m(2) [OF fields(2,3)] by (simp add: server_ok_def fields)
  moreover have "dests_cleared w w'" using rm(2,3) by (simp add: dests_cleared_def fields w1_def)
  ultimately show thesis using run fields by (intro that [of w']) simp_all
qed

end
