(* ===== verification/RServing.thy ===== *)
theory RServing
  imports RServer
begin

text \<open>
  What the epoll server of \<open>RServer\<close> keeps true while it runs: every step of a round leaves the
  sessions, the dictionary, the items and the remaining results of the poll consistent.
\<close>

section \<open>Steps that keep the server consistent\<close>

text \<open>
  What a step promises: the server stays consistent, no id is used up, results of the poll are at
  most taken out, and every session outside \<open>X\<close> keeps its socket.
\<close>

definition serves :: "nat \<Rightarrow> 64 word set \<Rightarrow> int \<times> int \<Rightarrow> int set \<Rightarrow> 'w server \<Rightarrow> 'w server \<Rightarrow> bool" where
  "serves B K fl X w w' \<longleftrightarrow> server_ok B K fl w' \<and> dests_cleared w w' \<and> sv_sid w' = sv_sid w \<and>
    (\<forall>b x. b \<notin> X \<and> link w b = Some x \<longrightarrow> link w' b = Some x)"

lemma serves_refl: "server_ok B K fl w \<Longrightarrow> serves B K fl X w w"
  by (simp add: serves_def dests_cleared_refl)

lemma serves_trans: "serves B K fl X u v \<Longrightarrow> serves B K fl X v w \<Longrightarrow> serves B K fl X u w"
  unfolding serves_def using dests_cleared_trans by metis

lemma serves_more: "serves B K fl X u v \<Longrightarrow> X \<subseteq> Y \<Longrightarrow> serves B K fl Y u v"
  unfolding serves_def by blast

lemma serves_ok: "serves B K fl X u v \<Longrightarrow> server_ok B K fl v"
  by (simp add: serves_def)

text \<open>The parts of an item and of a session the consistency speaks about.\<close>

definition bufs_ok :: "session \<Rightarrow> bool" where
  "bufs_ok s \<longleftrightarrow> (\<exists>b. ds_read_cache (ss_ds s) = Some b \<and> rbuffer_inv b) \<and> (\<exists>b. ds_write_buff (ss_ds s) = Some b \<and> rbuffer_inv b)"

definition item_sig :: "'w server \<Rightarrow> int \<Rightarrow> (int \<times> int) option" where
  "item_sig w i = map_option (\<lambda>it. (ri_fd it, ri_ds it)) (ep_items w i)"

definition sess_sig :: "'w server \<Rightarrow> int \<Rightarrow> (rsocket option \<times> 64 word \<times> ripc_state) option" where
  "sess_sig w a = map_option (\<lambda>s. (ss_stream s, ds_id (ss_ds s), ds_state (ss_ds s))) (sv_sess w a)"

lemma item_sig_back: "item_sig w' = item_sig w \<Longrightarrow> ep_items w' i = Some it' \<Longrightarrow>
    \<exists>it. ep_items w i = Some it \<and> ri_fd it = ri_fd it' \<and> ri_ds it = ri_ds it'"
  unfolding item_sig_def by (drule fun_cong [of _ _ i], cases "ep_items w i") auto

lemma sess_sig_back: "sess_sig w' = sess_sig w \<Longrightarrow> sv_sess w' a = Some s' \<Longrightarrow>
    \<exists>s. sv_sess w a = Some s \<and> ss_stream s = ss_stream s' \<and> ds_id (ss_ds s) = ds_id (ss_ds s') \<and>
      ds_state (ss_ds s) = ds_state (ss_ds s')"
  unfolding sess_sig_def by (drule fun_cong [of _ _ a], cases "sv_sess w a") auto

lemma link_sig: "sess_sig w' = sess_sig w \<Longrightarrow> link w' = link w"
proof
  fix a assume "sess_sig w' = sess_sig w"
  from fun_cong [OF this, of a] show "link w' a = link w a"
    by (cases "sv_sess w a"; cases "sv_sess w' a") (auto simp: sess_sig_def link_def)
qed

lemma serves_frame:
  fixes w w' :: "'w server"
  assumes ok: "server_ok B K fl w" and reg: "reg_ok w'" and dest: "ep_dest w' = ep_dest w"
    "ep_dest_count w' = ep_dest_count w" "ep_amount w' = ep_amount w" and i: "item_sig w' = item_sig w" and s: "sess_sig w' = sess_sig w"
    and b: "\<And>a t. sv_sess w' a = Some t \<Longrightarrow> bufs_ok t"
    and same: "ep_next w' = ep_next w" "sv_next w' = sv_next w" "sv_map w' = sv_map w" "sv_stream w' = sv_stream w"
      "sv_stream_live w' = sv_stream_live w" "sv_sid w' = sv_sid w"
  shows "serves B K fl X w w'"
proof -
  note W = server_okD [OF ok] and L = link_sig [OF s]
  have "items_ok fl w'"
    unfolding items_ok_def
  proof (intro allI impI)
    fix j jt assume "ep_items w' j = Some jt"
    from item_sig_back [OF i this] obtain it where
      it: "ep_items w j = Some it" "ri_fd it = ri_fd jt" "ri_ds it = ri_ds jt" by blast
    show "j < ep_next w' \<and> 0 \<le> ri_fd jt \<and> (if ri_ds jt = 0 then (ri_fd jt, j) = fl else link w' (ri_ds jt) = Some (ri_fd jt, j))"
      using W(4) [unfolded items_ok_def, rule_format, OF it(1)] unfolding L same(1) it(2,3) .
  qed
  moreover have "session_ok w' a t" if t: "sv_sess w' a = Some t" for a t
  proof -
    from sess_sig_back [OF s t] obtain u where
      u: "sv_sess w a = Some u" "ss_stream u = ss_stream t" "ds_state (ss_ds u) = ds_state (ss_ds t)" by blast
    from W(5) [OF u(1)] obtain rb wb k it where S: "0 < a" "a < sv_next w" "ds_state (ss_ds u) = ripc_state_start" "ds_read_cache (ss_ds u) = Some rb"
    "rbuffer_inv rb" "ds_write_buff (ss_ds u) = Some wb" "rbuffer_inv wb" "ss_stream u = Some k"
      "ep_items w (sk_item k) = Some it" "ri_fd it = sk_fd k" "ri_ds it = a" by (rule session_okE)
    from item_sig_back [OF i [symmetric] S(9)] obtain jt where
      jt: "ep_items w' (sk_item k) = Some jt" "ri_fd jt = ri_fd it" "ri_ds jt = ri_ds it" by blast
    have "ss_stream t = Some k \<and> ep_items w' (sk_item k) = Some jt \<and> ri_fd jt = sk_fd k \<and> ri_ds jt = a"
      using u(2) S(8,10,11) jt by simp
    then have "\<exists>k it. ss_stream t = Some k \<and> ep_items w' (sk_item k) = Some it \<and> ri_fd it = sk_fd k \<and> ri_ds it = a" by blast
    then show ?thesis using b [OF t] S(1-3) u(3) same(2) by (simp add: session_ok_def bufs_ok_def)
  qed
  moreover have "map_ok B K w'"
  proof -
    from W(6) obtain d where d: "sv_map w = Some d" "dict_inv B K d" "copied_value d = (\<lambda>x. x)"
      "\<And>k v. dict_abs d k = Some v \<Longrightarrow> \<exists>a s. v = Some a \<and> sv_sess w a = Some s \<and> id_key (ds_id (ss_ds s)) = k"
      unfolding map_ok_def by blast
    have "\<exists>a t. v = Some a \<and> sv_sess w' a = Some t \<and> id_key (ds_id (ss_ds t)) = k" if kv: "dict_abs d k = Some v" for k v
    proof -
      from d(4) [OF kv] obtain a u where u: "v = Some a" "sv_sess w a = Some u" "id_key (ds_id (ss_ds u)) = k" by blast
      from sess_sig_back [OF s [symmetric] u(2)] u(1,3) show ?thesis by fastforce
    qed
    then show ?thesis unfolding map_ok_def using d(1-3) same(3) by auto
  qed
  moreover have "dest_ok w'" using dest by (intro dest_ok_cong [OF _ _ _ W(2)])
  ultimately have "server_ok B K fl w'" using W(3,7-9) reg dest(2) same by (simp add: server_ok_def)
  then show ?thesis using dests_cleared_refl [of w' w] dest(1) same(6) L by (simp add: serves_def)
qed

lemma session_bufs: "session_ok w a s \<Longrightarrow> bufs_ok s"
  by (simp add: session_ok_def bufs_ok_def)

text \<open>Replacing the buffers of a session.\<close>

lemma set_ds_serves:
  assumes ok: "server_ok B K fl w" and s: "sv_sess w a = Some s"
    and d: "ds_id ds = ds_id (ss_ds s)" "ds_state ds = ds_state (ss_ds s)" and b: "bufs_ok (s\<lparr>ss_ds := ds\<rparr>)"
  shows "serves B K fl X w (set_ds w a ds)"
proof (rule serves_frame [OF ok])
  show "sess_sig (set_ds w a ds) = sess_sig w"
    using s d by (auto simp: sess_sig_def set_ds_def fun_eq_iff)
  show "bufs_ok t" if "sv_sess (set_ds w a ds) b = Some t" for b t
    using that s b session_bufs [OF server_okD(5) [OF ok]] by (auto simp: set_ds_def split: if_splits)
qed (use server_okD(1) [OF ok] in \<open>simp_all add: set_ds_def item_sig_def reg_ok_def fun_eq_iff\<close>)

text \<open>Time passes and bytes leave.\<close>

lemma net_serves:
  assumes ok: "server_ok B K fl w" and w': "w' = w\<lparr>nw_tick := t, nw_out := out\<rparr>"
  shows "serves B K fl X w w'"
  by (rule serves_frame [OF ok])
    (use server_okD(1) [OF ok] session_bufs [OF server_okD(5) [OF ok]] in \<open>simp_all add: w' item_sig_def sess_sig_def reg_ok_def fun_eq_iff\<close>)

lemma remask_serves:
  fixes w :: "'w server"
  assumes ok: "server_ok B K fl w" and s: "sv_sess w a = Some s"
  obtains w' r where "remask_server env w (ss_stream s) f = Some (w', r)" "serves B K fl X w w'"
proof -
  from server_okD(5) [OF ok s] obtain rb wb k it where S: "ss_stream s = Some k" "ep_items w (sk_item k) = Some it"
    by (rule session_okE)
  define it' where "it' = it\<lparr>ri_req := f (ri_req it)\<rparr>"
  define w1 where "w1 = w\<lparr>ep_items := (ep_items w)(sk_item k \<mapsto> it')\<rparr>"
  have it': "ep_items w1 (sk_item k) = Some it'" by (simp add: w1_def)
  have r1: "reg_ok w1" using server_okD(1) [OF ok] S(2) by (force simp: reg_ok_def w1_def it'_def)
  obtain w' r where c: "sys_epoll_ctl (ve_net env) w1 (ep_fd w1) EPOLL_CTL_MOD (ri_fd it')
      (ucast (repoll_get_event_req (ri_req it'))) (Item (sk_item k)) = (w', r)" by fastforce
  from ctl_shape [OF c] obtain reg where w': "w' = w1\<lparr>nw_tick := Suc (nw_tick w1), nw_reg := reg\<rparr>" by blast
  have "remask_server env w (ss_stream s) f = Some (w', r)"
    using S c it' by (simp add: remask_server_def repoll_modify_def repoll_ctl_def item_at_def w1_def it'_def)
  moreover have "serves B K fl X w w'"
  proof (rule serves_frame [OF ok reg_ok_ctl [OF c it' r1]])
    show "item_sig w' = item_sig w" using S(2) by (simp add: item_sig_def w' w1_def it'_def fun_eq_iff)
    show "bufs_ok t" if "sv_sess w' b = Some t" for b t
      using that session_bufs [OF server_okD(5) [OF ok]] by (simp add: w' w1_def)
  qed (simp_all add: w' w1_def sess_sig_def fun_eq_iff)
  ultimately show thesis by (rule that)
qed

text \<open>An outgoing handler that returns and works on the write buffer only.\<close>

definition writes_only :: "ipc_handler \<Rightarrow> (ripc_data_default \<Rightarrow> bool) \<Rightarrow> bool" where
  "writes_only out good \<longleftrightarrow> (\<forall>ds m b. ds_write_buff ds = Some b \<and> rbuffer_inv b \<and> good m \<longrightarrow>
    (\<exists>b' m' r. out ds m = Some (ds\<lparr>ds_write_buff := Some b'\<rparr>, m', r) \<and> rbuffer_inv b'))"

context frame_sender
begin

lemma out_writes_only: "writes_only out good"
  unfolding writes_only_def using framed by blast

end

lemma send_2buffer_serves:
  assumes ok: "server_ok B K fl w" and s: "sv_sess w a = Some s" and out: "\<And>p. ve_out env = Some p \<Longrightarrow> writes_only p good" and m: "good m"
  obtains w' m' r where "ripc_send_data_2buffer_server env w a m = Some (w', m', r)" "serves B K fl X w w'"
proof -
  from server_okD(5) [OF ok s] obtain rb wb k it where S: "ds_state (ss_ds s) = ripc_state_start" "ds_read_cache (ss_ds s) = Some rb"
    "rbuffer_inv rb" "ds_write_buff (ss_ds s) = Some wb" "rbuffer_inv wb" "ss_stream s = Some k"
    by (rule session_okE)
  obtain b' m' r where h: "(case ve_out env of None \<Rightarrow> Some (ss_ds s, m, rcode_err_ok) | Some p \<Rightarrow> p (ss_ds s) m) =
      Some ((ss_ds s)\<lparr>ds_write_buff := Some b'\<rparr>, m', r)" "rbuffer_inv b'"
  proof (cases "ve_out env")
    case None
    then show thesis using that [of wb m rcode_err_ok] S(4,5) by simp
  next
    case (Some p)
    from out [OF this] S(4,5) m obtain b' m' r where "p (ss_ds s) m = Some ((ss_ds s)\<lparr>ds_write_buff := Some b'\<rparr>, m', r)" "rbuffer_inv b'"
      unfolding writes_only_def by blast
    then show thesis using that Some by simp
  qed
  define ds1 where "ds1 = (ss_ds s)\<lparr>ds_write_buff := Some b'\<rparr>"
  define w1 where "w1 = set_ds w a ds1"
  have 1: "serves B K fl X w w1"
    unfolding w1_def by (rule set_ds_serves [OF ok s]) (use S h(2) in \<open>simp_all add: ds1_def bufs_ok_def\<close>)
  have s1: "sv_sess w1 a = Some (s\<lparr>ss_ds := ds1\<rparr>)" using s by (simp add: w1_def set_ds_def)
  obtain w2 q where m2: "remask_server env w1 (ss_stream (s\<lparr>ss_ds := ds1\<rparr>)) repoll_set_event_out = Some (w2, q)"
    "serves B K fl X w1 w2" by (rule remask_serves [OF serves_ok [OF 1] s1])
  have run: "ripc_send_data_2buffer_server env w a m =
      (if r \<noteq> rcode_err_ok then Some (w1, m', r)
       else if rbuffer_size b' > 0 then Some (w2, m', if q \<noteq> rcode_ok then q else rcode_ok) else Some (w1, m', rcode_ok))"
    using s S(1) h(1) m2(1) by (simp add: ripc_send_data_2buffer_server_def w1_def ds1_def)
  show thesis
    using run 1 serves_trans [OF 1 m2(2)] by (auto intro: that split: if_splits)
qed

lemma send_data_serves:
  assumes ok: "server_ok B K fl w" and s: "sv_sess w a = Some s" and clock: "clock_runs (ve_net env)"
  obtains w' r where "ripc_send_data_server env w a = Some (w', r)" "serves B K fl X w w'"
proof -
  from server_okD(5) [OF ok s] obtain rb wb k it where S: "ds_read_cache (ss_ds s) = Some rb"
    "rbuffer_inv rb" "ds_write_buff (ss_ds s) = Some wb" "rbuffer_inv wb" "ss_stream s = Some k"
    by (rule session_okE)
  let ?tm = "timer_millisec (ve_net env) w 3"
  obtain w1 n code where snd: "rsocket_send (ve_net env) w k (rbuffer_content wb) ?tm = Some (w1, n, code)"
    using send_recv_return(1) [OF clock, of ?tm w k] timer_bounds by fastforce
  from snd obtain t where w1: "w1 = w\<lparr>nw_tick := t, nw_out := (nw_out w)(sk_fd k := nw_out w (sk_fd k) @ take n (rbuffer_content wb))\<rparr>"
    and n: "n \<le> length (rbuffer_content wb)" by (rule rsocket_send_result)
  have 1: "serves B K fl X w w1" by (rule net_serves [OF ok w1])
  obtain wb1 where wb1: "rbuffer_skip (Some wb) (int n) = Some (Some wb1, rcode_ok)" "rbuffer_inv wb1"
    using skip_content [OF S(4) n] by blast
  define ds1 where "ds1 = (ss_ds s)\<lparr>ds_write_buff := Some wb1\<rparr>"
  define w2 where "w2 = set_ds w1 a ds1"
  have s1: "sv_sess w1 a = Some s" using s by (simp add: w1)
  have 2: "serves B K fl X w1 w2"
    unfolding w2_def by (rule set_ds_serves [OF serves_ok [OF 1] s1]) (use S wb1(2) in \<open>simp_all add: ds1_def bufs_ok_def\<close>)
  have s2: "sv_sess w2 a = Some (s\<lparr>ss_ds := ds1\<rparr>)" using s1 by (simp add: w2_def set_ds_def)
  obtain w3 q where m: "remask_server env w2 (ss_stream (s\<lparr>ss_ds := ds1\<rparr>)) repoll_unset_event_out = Some (w3, q)"
    "serves B K fl X w2 w3" by (rule remask_serves [OF serves_ok [OF 2] s2])
  have run: "ripc_send_data_server env w a =
     (if code \<noteq> rcode_io_done
      then Some (w1, ipc_code (if code = rcode_io_timeout then rcode_err_ipc_timeout else rcode_err_ipc_disconnect))
      else if rbuffer_size wb1 = 0 then Some (w3, if q \<noteq> rcode_ok then q else rcode_ok) else Some (w2, rcode_ok))"
    using s S(3,5) content_get [OF S(4)] snd wb1(1) m(1) by (simp add: ripc_send_data_server_def w2_def ds1_def)
  show thesis
    using run 1 serves_trans [OF 1 2] serves_trans [OF serves_trans [OF 1 2] m(2)] by (auto intro: that split: if_splits)
qed

lemma close_serves:
  assumes ok: "server_ok B K fl w" and s: "sv_sess w a = Some s"
  obtains w' where "close_session env w a = Some (w', rcode_ok)" "ripc_on_error_server env w a = Some (w', rcode_ok)"
    "serves B K fl {a} w w'" "sv_sess w' = (sv_sess w)(a := None)"
proof -
  obtain w' where w': "close_session env w a = Some (w', rcode_ok)" "server_ok B K fl w'" "sv_sess w' = (sv_sess w)(a := None)"
    "dests_cleared w w'" "sv_sid w' = sv_sid w" by (rule close_session_returns [OF ok s])
  have "link w' b = link w b" if "b \<noteq> a" for b using that w'(3) by (simp add: link_def)
  then have "serves B K fl {a} w w'" using w'(2,4,5) by (simp add: serves_def)
  then show thesis using w'(1,3) by (intro that) (simp_all add: ripc_on_error_server_def)
qed

text \<open>A receiving handler that returns and leaves the server consistent and its sessions open.\<close>

definition handler_ok ::
  "nat \<Rightarrow> 64 word set \<Rightarrow> int \<times> int \<Rightarrow> ('w server \<Rightarrow> int \<Rightarrow> 32 word \<Rightarrow> ('w server \<times> int) option) \<Rightarrow> bool" where
  "handler_ok B K fl h \<longleftrightarrow> (\<forall>w a n s b. server_ok B K fl w \<and> sv_sess w a = Some s \<and>
      ds_read_cache (ss_ds s) = Some b \<and> rb_pos b + uint n \<le> rb_capacity b \<longrightarrow>
    (\<exists>w' r. h w a n = Some (w', r) \<and> serves B K fl {} w w'))"

lemma handler_okD:
  assumes "handler_ok B K fl h" "server_ok B K fl w" "sv_sess w a = Some s" "ds_read_cache (ss_ds s) = Some b"
    "rb_pos b + uint n \<le> rb_capacity b"
  obtains w' r where "h w a n = Some (w', r)" "serves B K fl {} w w'"
  using assms unfolding handler_ok_def by blast

text \<open>The read cache after the bytes that were received have been put behind its content.\<close>

lemma received_cache:
  assumes rc: "rbuffer_inv rc" and got: "length got \<le> nat (rbuffer_left rc mod 18446744073709551616)"
  obtains d where "mem_put (rb_data rc) (rb_pos rc) got = Some d" "rbuffer_inv (rc\<lparr>rb_data := d\<rparr>)"
    "rb_pos rc + uint (word_of_nat (length got) :: 32 word) \<le> rb_capacity rc"
proof -
  have left: "0 \<le> rbuffer_left rc" "rbuffer_left rc \<le> INT_MAX" "0 \<le> rb_pos rc" "rb_capacity rc = int (length (rb_data rc))"
    using rc by (auto simp: rbuffer_inv_def rbuffer_left_def)
  then have "length got \<le> nat (rbuffer_left rc)" using got by (simp add: mod_pos_pos_trivial)
  then have fit: "rb_pos rc + int (length got) \<le> rb_capacity rc" using left by (simp add: rbuffer_left_def)
  define d where "d = take (nat (rb_pos rc)) (rb_data rc) @ got @ drop (nat (rb_pos rc) + length got) (rb_data rc)"
  have "mem_put (rb_data rc) (rb_pos rc) got = Some d" using fit left by (simp add: mem_put_in d_def)
  moreover have "rbuffer_inv (rc\<lparr>rb_data := d\<rparr>)" using rc fit left(3,4) by (auto simp: rbuffer_inv_def d_def)
  moreover have "uint (word_of_nat (length got) :: 32 word) = int (length got)"
    using fit rc by (simp add: unsigned_of_nat take_bit_nat_eq_self rbuffer_inv_def)
  ultimately show thesis using fit by (intro that) simp_all
qed

lemma receive_data_serves:
  assumes ok: "server_ok B K fl w" and s: "sv_sess w a = Some s" and clock: "clock_runs (ve_net env)"
    and inp: "\<And>p. ve_in env = Some p \<Longrightarrow> handler_ok B K fl p"
  obtains w' r where "ripc_receive_data_server env w a = Some (w', r)" "serves B K fl {a} w w'"
proof -
  from server_okD(5) [OF ok s] obtain rb wb k it where S: "ds_state (ss_ds s) = ripc_state_start" "ds_read_cache (ss_ds s) = Some rb"
    "rbuffer_inv rb" "ds_write_buff (ss_ds s) = Some wb" "rbuffer_inv wb" "ss_stream s = Some k"
    by (rule session_okE)
  let ?tm = "timer_millisec (ve_net env) w 1" and ?n = "nat (rbuffer_left rb mod 18446744073709551616)"
  obtain w1 got code where rcv: "rsocket_recv (ve_net env) w k ?n ?tm = Some (w1, got, code)"
    using send_recv_return(2) [OF clock, of ?tm w k] timer_bounds by fastforce
  from rcv obtain t where t: "w1 = w\<lparr>nw_tick := t\<rparr>" and got: "length got \<le> ?n"
    by (rule rsocket_recv_result)
  have 1: "serves B K fl {a} w w1" by (rule net_serves [OF ok, where t = t and out = "nw_out w"]) (simp add: t)
  obtain d where d: "mem_put (rb_data rb) (rb_pos rb) got = Some d" "rbuffer_inv (rb\<lparr>rb_data := d\<rparr>)"
    "rb_pos rb + uint (word_of_nat (length got) :: 32 word) \<le> rb_capacity rb"
    by (rule received_cache [OF S(3) got])
  define ds1 where "ds1 = (ss_ds s)\<lparr>ds_read_cache := Some (rb\<lparr>rb_data := d\<rparr>)\<rparr>"
  define w2 where "w2 = set_ds w1 a ds1"
  have s1: "sv_sess w1 a = Some s" using s by (simp add: t)
  have "serves B K fl {a} w1 w2"
    unfolding w2_def by (rule set_ds_serves [OF serves_ok [OF 1] s1]) (use S d(2) in \<open>simp_all add: ds1_def bufs_ok_def\<close>)
  from serves_trans [OF 1 this] have 2: "serves B K fl {a} w w2" .
  have s2: "sv_sess w2 a = Some (s\<lparr>ss_ds := ds1\<rparr>)" using s1 by (simp add: w2_def set_ds_def)
  have run: "ripc_receive_data_server env w a =
     (if code \<noteq> rcode_io_done \<and> code \<noteq> rcode_io_timeout
      then do { (w3, _) \<leftarrow> ripc_on_error_server env w2 a; Some (w3, rcode_io_closed) }
      else (case ve_in env of
          None \<Rightarrow> Some (w2, rcode_ok)
        | Some process \<Rightarrow>
            if got = [] then Some (w2, rcode_ok)
            else do {
              (w3, ret) \<leftarrow> process w2 a (word_of_nat (length got));
              Some (w3, if ret \<noteq> rcode_err_ok then ipc_code rcode_err_ipc_decode else rcode_ok)
            }))"
    using s S(1,2,6) rcv d(1) by (simp add: ripc_receive_data_server_def Let_def w2_def ds1_def cong: if_cong option.case_cong)
  show thesis
  proof (cases "code \<noteq> rcode_io_done \<and> code \<noteq> rcode_io_timeout")
    case True
    obtain w3 where e: "ripc_on_error_server env w2 a = Some (w3, rcode_ok)" "serves B K fl {a} w2 w3"
      by (rule close_serves [OF serves_ok [OF 2] s2])
    have "ripc_receive_data_server env w a = Some (w3, rcode_io_closed)" unfolding run using True e(1) by simp
    then show thesis using serves_trans [OF 2 e(2)] by (rule that)
  next
    case False
    show thesis
    proof (cases "ve_in env = None \<or> got = []")
      case True
      then have "ripc_receive_data_server env w a = Some (w2, rcode_ok)"
        unfolding run using False by (auto split: option.splits)
      then show thesis using 2 by (rule that)
    next
      case q: False
      then obtain p where p: "ve_in env = Some p" by auto
      have "ds_read_cache (ss_ds (s\<lparr>ss_ds := ds1\<rparr>)) = Some (rb\<lparr>rb_data := d\<rparr>)" by (simp add: ds1_def)
      from handler_okD [OF inp [OF p] serves_ok [OF 2] s2 this, of "word_of_nat (length got)"] d(3) obtain w3 r where
        h: "p w2 a (word_of_nat (length got)) = Some (w3, r)" "serves B K fl {} w2 w3" by auto
      have "ripc_receive_data_server env w a = Some (w3, if r \<noteq> rcode_err_ok then ipc_code rcode_err_ipc_decode else rcode_ok)"
        using q unfolding run if_not_P [OF False] p option.case by (simp add: h(1))
      then show thesis using serves_trans [OF 2 serves_more [OF h(2)]] by (auto intro: that)
    qed
  qed
qed

text \<open>The handlers of the client as handlers of a session: they see its data source.\<close>

definition session_handler ::
  "(ripc_data_source \<Rightarrow> 32 word \<Rightarrow> 'w \<Rightarrow> (ripc_data_source \<times> 'w \<times> int) option) \<Rightarrow>
    'w server \<Rightarrow> int \<Rightarrow> 32 word \<Rightarrow> ('w server \<times> int) option" where
  "session_handler p w a n = do {
     s \<leftarrow> sv_sess w a;
     (ds, app, r) \<leftarrow> p (ss_ds s) n (sv_app w);
     Some ((set_ds w a ds)\<lparr>sv_app := app\<rparr>, r)
   }"

lemma app_serves:
  assumes ok: "server_ok B K fl w"
  shows "serves B K fl X w (w\<lparr>sv_app := app\<rparr>)"
  by (rule serves_frame [OF ok])
    (use server_okD(1) [OF ok] session_bufs [OF server_okD(5) [OF ok]] in
      \<open>simp_all add: item_sig_def sess_sig_def reg_ok_def fun_eq_iff\<close>)

lemma session_handler_ok:
  assumes "reads_only p"
  shows "handler_ok B K fl (session_handler p)"
  unfolding handler_ok_def
proof (intro allI impI, elim conjE)
  fix w :: "'a server" and a s b and n :: "32 word"
  assume ok: "server_ok B K fl w" and s: "sv_sess w a = Some s" and b: "ds_read_cache (ss_ds s) = Some b" "rb_pos b + uint n \<le> rb_capacity b"
  have B: "bufs_ok s" by (rule session_bufs [OF server_okD(5) [OF ok s]])
  then have "rbuffer_inv b" using b(1) by (simp add: bufs_ok_def)
  with assms b obtain c app r where h: "p (ss_ds s) n (sv_app w) = Some ((ss_ds s)\<lparr>ds_read_cache := Some c\<rparr>, app, r)" "rbuffer_inv c"
    unfolding reads_only_def by blast
  have 1: "serves B K fl {} w (set_ds w a ((ss_ds s)\<lparr>ds_read_cache := Some c\<rparr>))"
    by (rule set_ds_serves [OF ok s]) (use B h(2) in \<open>simp_all add: bufs_ok_def\<close>)
  from serves_trans [OF 1 app_serves [OF serves_ok [OF 1]]] show "\<exists>w' r. session_handler p w a n = Some (w', r) \<and> serves B K fl {} w w'"
    using s h(1) by (simp add: session_handler_def)
qed

section \<open>Accepting a connection\<close>

text \<open>Calls that leave the interest list alone.\<close>

lemma server_net_same:
  fixes w w' :: "'w server"
  assumes "net_same w w'"
  shows "nw_reg w' = nw_reg w" "ep_items w' = ep_items w" "ep_next w' = ep_next w" "ep_amount w' = ep_amount w"
    "ep_dest_count w' = ep_dest_count w" "ep_dest w' = ep_dest w" "sv_ds w' = sv_ds w" "sv_stream w' = sv_stream w"
    "sv_stream_live w' = sv_stream_live w" "sv_map w' = sv_map w" "sv_sess w' = sv_sess w" "sv_next w' = sv_next w"
    "sv_sid w' = sv_sid w" "sv_app w' = sv_app w"
  using assms unfolding net_same_def by (cases w; cases w'; simp)+

lemma net_same_serves:
  assumes ok: "server_ok B K fl w" and n: "net_same w w'"
  shows "serves B K fl X w w'"
  by (rule serves_frame [OF ok])
    (use server_okD(1) [OF ok] session_bufs [OF server_okD(5) [OF ok]] server_net_same [OF n] in
      \<open>simp_all add: item_sig_def sess_sig_def reg_ok_def fun_eq_iff\<close>)

text \<open>The descriptors \<open>accept\<close> gives.\<close>

definition accepts_descriptors :: "net_env \<Rightarrow> bool" where
  "accepts_descriptors env \<longleftrightarrow> (\<forall>t fd. ne_accept env t = Ret fd \<longrightarrow> 0 \<le> fd)"

lemma accept_result:
  assumes clock: "clock_runs env" and tm: "0 \<le> tm_block tm" "0 \<le> tm_total tm" and d: "accepts_descriptors env"
    and s: "sk_fd s = -1"
  obtains w' fd code where "rsocket_accept env w l s tm = Some (w', s\<lparr>sk_fd := fd\<rparr>, code)" "net_same w w'"
    "fd = -1 \<or> 0 \<le> fd"
proof (cases "sk_fd l = SOCKET_INVALID")
  case True
  then show thesis using s by (intro that [of w "sk_fd s" rcode_io_closed]) (simp_all add: rsocket_accept_def net_same_def)
next
  case False
  obtain k where k: "over tm (ne_clock env (Suc (nw_tick w + k)))"
    using clock_runs_over [OF clock tm, of "nw_tick w"] by auto
  then have "accept_verdict env tm ((tick ^^ k) w) \<noteq> None"
    using over_done by (auto simp: verdict_none)
  then have "accept_loop env tm w \<noteq> None" unfolding accept_io.loop_stuck by (intro notI) (drule spec [of _ k], simp)
  then obtain w1 fd code where r: "accept_loop env tm w = Some (w1, fd, code)" by auto
  then obtain j where j: "accept_verdict env tm ((tick ^^ j) w) = Some (w1, fd, code)"
    using accept_io.loop_result [of env tm w "(w1, fd, code)"] by auto
  define v where "v = (tick ^^ j) w"
  have u: "net_same w v" by (simp add: v_def net_same_def tick_power)
  have w1: "net_same v w1" and fd: "fd = -1 \<or> 0 \<le> fd"
    using j [folded v_def] d unfolding accept_verdict_def sys_open_def accepts_descriptors_def
    by (auto simp: net_same_def tick_def split: answer.splits if_splits)
  have "rsocket_accept env w l s tm = Some (w1, s\<lparr>sk_fd := fd\<rparr>, code)" using r False by (simp add: rsocket_accept_def)
  then show thesis using net_same_trans [OF u w1] fd by (rule that)
qed

text \<open>The dictionary with the id of a session at a new address.\<close>

lemma map_add:
  assumes m: "map_ok B K w" and e: "env_ok B env" and k: "sid \<in> K" "sid \<noteq> 0" and a: "sv_sess w a = None"
  obtains d' c where "rdict_add env (sv_map w) (id_key sid) (Some a) = Some (Some d', c)"
    "\<And>w' s. sv_map w' = Some d' \<Longrightarrow> sv_sess w' = (sv_sess w)(a \<mapsto> s) \<Longrightarrow> ds_id (ss_ds s) = sid \<Longrightarrow> map_ok B K w'"
proof -
  from m obtain d where d: "sv_map w = Some d" "dict_inv B K d" "copied_value d = (\<lambda>x. x)"
    "\<And>k v. dict_abs d k = Some v \<Longrightarrow> \<exists>a s. v = Some a \<and> sv_sess w a = Some s \<and> id_key (ds_id (ss_ds s)) = k"
    unfolding map_ok_def by blast
  from add_key_spec [OF e k(1) d(2), of "Some a"] obtain d' c where
    r: "add_key env d sid (Some a) = Some (d', c)" "dict_inv B K d'" "same_shape d d'"
      "dict_abs d' = dict_abs d \<or> dict_abs d' = (dict_abs d)(Some sid \<mapsto> Some a)"
    unfolding d(3) by blast
  have "map_ok B K w'" if w': "sv_map w' = Some d'" "sv_sess w' = (sv_sess w)(a \<mapsto> s)" "ds_id (ss_ds s) = sid" for w' s
  proof -
    have "\<exists>b t. v = Some b \<and> sv_sess w' b = Some t \<and> id_key (ds_id (ss_ds t)) = q" if q: "dict_abs d' q = Some v" for q v
    proof (cases "q = Some sid \<and> v = Some a")
      case True
      then show ?thesis using w'(2,3) k(2) by (simp add: id_key_def)
    next
      case False
      then have "dict_abs d q = Some v" using q r(4) by (auto split: if_splits)
      from d(4) [OF this] obtain b t where "v = Some b" "sv_sess w b = Some t" "id_key (ds_id (ss_ds t)) = q" by blast
      moreover from this(2) a have "b \<noteq> a" by auto
      ultimately show ?thesis using w'(2) by simp
    qed
    then show ?thesis using w'(1) r(2) same_shape_copied [OF r(3)] d(3) by (auto simp: map_ok_def)
  qed
  moreover have "rdict_add env (sv_map w) (id_key sid) (Some a) = Some (Some d', c)"
    using d(1) r(1) k(2) by (simp add: rdict_add_def id_key_def)
  ultimately show thesis by (rule that [rotated])
qed

text \<open>The server with a session \<open>a\<close> that has no socket yet.\<close>

definition half :: "nat \<Rightarrow> 64 word set \<Rightarrow> int \<times> int \<Rightarrow> int \<Rightarrow> 'w server \<Rightarrow> bool" where
  "half B K fl a w \<longleftrightarrow> reg_ok w \<and> dest_ok w \<and> ep_dest_count w \<noteq> None \<and> items_ok fl w \<and>
    (\<forall>b s. b \<noteq> a \<and> sv_sess w b = Some s \<longrightarrow> session_ok w b s) \<and> map_ok B K w \<and> sv_stream w \<noteq> None \<and> sv_stream_live w \<and>
    0 < a \<and> a < sv_next w \<and> (\<exists>c. sv_sess w a = Some c \<and> ss_stream c = None \<and> bufs_ok c)"

lemma halfD:
  assumes "half B K fl a w"
  shows "reg_ok w" "dest_ok w" "ep_dest_count w \<noteq> None" "items_ok fl w" "b \<noteq> a \<Longrightarrow> sv_sess w b = Some s \<Longrightarrow> session_ok w b s"
    "map_ok B K w" "sv_stream w \<noteq> None" "sv_stream_live w" "0 < a" "a < sv_next w"
    "\<exists>c. sv_sess w a = Some c \<and> ss_stream c = None \<and> bufs_ok c" "link w a = None"
  using assms by (auto simp: half_def link_def)

lemma session_at: "server_ok B K fl w \<Longrightarrow> sv_sess w (sv_next w) = None"
  using server_okD(5) session_okE by (metis less_irrefl not_Some_eq)

text \<open>Sessions other than \<open>a\<close> survive a change of \<open>a\<close> and of items that are not theirs.\<close>

lemma session_ok_other:
  assumes "session_ok w b t" "sv_next w \<le> sv_next w'" "\<And>i it. ep_items w i = Some it \<Longrightarrow> ri_ds it = b \<Longrightarrow> ep_items w' i = Some it"
  shows "session_ok w' b t"
proof -
  from assms(1) obtain rb wb k it where S: "0 < b" "b < sv_next w" "ds_state (ss_ds t) = ripc_state_start" "ds_read_cache (ss_ds t) = Some rb"
    "rbuffer_inv rb" "ds_write_buff (ss_ds t) = Some wb" "rbuffer_inv wb" "ss_stream t = Some k"
    "ep_items w (sk_item k) = Some it" "ri_fd it = sk_fd k" "ri_ds it = b" by (rule session_okE)
  from S assms(2) assms(3) [OF S(9,11)] show ?thesis by (auto simp: session_ok_def)
qed

lemma half_undone:
  assumes h: "half B K fl a w" and w': "reg_ok w'" "dest_ok w'" "map_ok B K w'" "ep_dest_count w' = ep_dest_count w"
    "ep_items w' = ep_items w" "ep_next w \<le> ep_next w'" "sv_sess w' = (sv_sess w)(a := None)"
    "sv_next w' = sv_next w" "sv_stream w' = sv_stream w" "sv_stream_live w' = sv_stream_live w"
  shows "server_ok B K fl w'"
proof -
  note H = halfD [OF h]
  have l: "link w' b = link w b" for b using w'(7) H(12) by (cases "b = a") (simp_all add: link_def)
  have "items_ok fl w'" using H(4) w'(5,6) l unfolding items_ok_def by fastforce
  moreover have "session_ok w' b t" if "sv_sess w' b = Some t" for b t
  proof -
    from that w'(7) have "b \<noteq> a" "sv_sess w b = Some t" by (auto split: if_splits)
    then show ?thesis using w'(5,8) by (intro session_ok_other [OF H(5)]) simp_all
  qed
  ultimately show ?thesis using w'(1-4,8-10) H(3,7-10) by (simp add: server_ok_def)
qed

lemma half_done:
  assumes h: "half B K fl a w" and w': "reg_ok w'" "dest_ok w'" "map_ok B K w'" "ep_dest_count w' = ep_dest_count w"
    "ep_items w' = (ep_items w)(ep_next w \<mapsto> it)" "ep_next w' = ep_next w + 1" "sv_sess w' = (sv_sess w)(a \<mapsto> c)"
    "sv_next w' = sv_next w" "sv_stream w' = sv_stream w" "sv_stream_live w' = sv_stream_live w"
    and c: "ss_stream c = Some k" "sk_item k = ep_next w" "ri_fd it = sk_fd k" "ri_ds it = a" "0 \<le> sk_fd k"
      "ds_state (ss_ds c) = ripc_state_start" "bufs_ok c"
  shows "server_ok B K fl w'"
proof -
  note H = halfD [OF h]
  have la: "link w' a = Some (sk_fd k, ep_next w)" using w'(7) c(1,2) by (simp add: link_def)
  have l: "link w' b = link w b" if "b \<noteq> a" for b using w'(7) that by (simp add: link_def)
  have fresh: "ep_items w (ep_next w) = None"
  proof (cases "ep_items w (ep_next w)")
    case (Some jt)
    with H(4) show ?thesis unfolding items_ok_def by blast
  qed
  have "j < ep_next w' \<and> 0 \<le> ri_fd jt \<and> (if ri_ds jt = 0 then (ri_fd jt, j) = fl else link w' (ri_ds jt) = Some (ri_fd jt, j))"
    if j: "ep_items w' j = Some jt" for j jt
  proof (cases "j = ep_next w")
    case True
    then show ?thesis using j w'(5,6) c(3-5) la H(9) by simp
  next
    case False
    then have jt: "ep_items w j = Some jt" using j w'(5) by simp
    note I = H(4) [unfolded items_ok_def, rule_format, OF jt]
    have "ri_ds jt \<noteq> a" using I H(9,12) by auto
    then show ?thesis using I l w'(6) by simp
  qed
  then have "items_ok fl w'" unfolding items_ok_def by blast
  moreover have "session_ok w' b t" if t: "sv_sess w' b = Some t" for b t
  proof (cases "b = a")
    case True
    then have "t = c" using t w'(7) by simp
    then show ?thesis
      using True c w'(5,8) H(9,10) unfolding session_ok_def bufs_ok_def by simp
  next
    case False
    then have "sv_sess w b = Some t" using t w'(7) by simp
    from H(5) [OF False this] show ?thesis
      by (rule session_ok_other) (use w'(5,8) fresh in auto)
  qed
  ultimately show ?thesis using w'(1-4,8-10) H(3,7-10) by (simp add: server_ok_def)
qed

lemma half_net:
  assumes h: "half B K fl a w" and n: "net_same w w'"
  shows "half B K fl a w'"
proof -
  note N = server_net_same [OF n]
  have "link w' = link w" by (simp add: link_def N fun_eq_iff)
  moreover have "dest_ok w'" by (rule dest_ok_cong [OF N(6,5,4) halfD(2) [OF h]])
  ultimately show ?thesis using h by (simp add: half_def reg_ok_def items_ok_def session_ok_def map_ok_def N)
qed

lemma new_session_half:
  fixes w :: "'w server"
  assumes ok: "server_ok B K fl w" and e: "env_ok B (ve_dict env)" and k: "sv_sid w + 1 \<in> K" "sv_sid w + 1 \<noteq> 0"
    and b: "length (ve_block env) = 65536"
  obtains w' where "new_session env w = Some (w', sv_next w)" "half B K fl (sv_next w) w'" "ep_dest w' = ep_dest w"
    "sv_sid w' = sv_sid w + 1" "\<And>b. b \<noteq> sv_next w \<Longrightarrow> link w' b = link w b"
proof -
  note W = server_okD [OF ok] and at = session_at [OF ok]
  obtain rb where rb: "rbuffer_create (ve_block env) buffer_bytes = Some rb" "rbuffer_inv rb"
    using rbuffer_create_spec [of "ve_block env" buffer_bytes] b by auto
  obtain d' c where m: "rdict_add (ve_dict env) (sv_map w) (id_key (sv_sid w + 1)) (Some (sv_next w)) = Some (Some d', c)"
    "\<And>(w' :: 'w server) s. sv_map w' = Some d' \<Longrightarrow> sv_sess w' = (sv_sess w)(sv_next w \<mapsto> s) \<Longrightarrow> ds_id (ss_ds s) = sv_sid w + 1 \<Longrightarrow> map_ok B K w'"
    using map_add [OF W(6) e k at] by metis
  define s where "s = \<lparr>ss_ds = \<lparr>ds_id = sv_sid w + 1, ds_type = ripc_data_source_type_session, ds_state = ripc_state_unknown,
         ds_read_cache = Some rb, ds_write_buff = Some rb\<rparr>, ss_stream = None\<rparr>"
  define w' where "w' = w\<lparr>sv_next := sv_next w + 1, sv_sid := sv_sid w + 1, sv_map := Some d', sv_sess := (sv_sess w)(sv_next w \<mapsto> s)\<rparr>"
  have l: "link w' b = link w b" if "b \<noteq> sv_next w" for b using that by (simp add: w'_def link_def)
  have "map_ok B K w'" by (rule m(2) [of w' s]) (simp_all add: w'_def s_def)
  moreover have "dest_ok w'" by (rule dest_ok_cong [OF _ _ _ W(2)]) (simp_all add: w'_def)
  moreover have "items_ok fl w'"
    unfolding items_ok_def
  proof (intro allI impI)
    fix i it assume "ep_items w' i = Some it"
    then have i: "ep_items w i = Some it" by (simp add: w'_def)
    have "ri_ds it \<noteq> sv_next w" using W(4) [unfolded items_ok_def, rule_format, OF i] at W(9) by (auto simp: link_def)
    then show "i < ep_next w' \<and> 0 \<le> ri_fd it \<and> (if ri_ds it = 0 then (ri_fd it, i) = fl else link w' (ri_ds it) = Some (ri_fd it, i))"
      using W(4) [unfolded items_ok_def, rule_format, OF i] l by (simp add: w'_def)
  qed
  moreover have "session_ok w' b t" if "b \<noteq> sv_next w" "sv_sess w' b = Some t" for b t
    by (rule session_ok_other [OF W(5)]) (use that in \<open>simp_all add: w'_def\<close>)
  ultimately have "half B K fl (sv_next w) w'"
    using W(1,3,7-9) rb(2) by (simp add: half_def w'_def s_def bufs_ok_def reg_ok_def)
  moreover have "new_session env w = Some (w', sv_next w)"
    using rb(1) m(1) by (simp add: new_session_def Let_def w'_def s_def)
  ultimately show thesis using l by (intro that [of w']) (simp_all add: w'_def)
qed

lemma reg_ok_sub: "reg_ok w \<Longrightarrow> ep_items w' = ep_items w \<Longrightarrow>
    (\<And>fd x. nw_reg w' fd = Some x \<Longrightarrow> nw_reg w fd = Some x) \<Longrightarrow> reg_ok w'"
  unfolding reg_ok_def by (metis prod.collapse)

lemma close_socket_fields:
  fixes w :: "'w server" and s :: rsocket
  defines "w' \<equiv> fst (rsocket_close w s)"
  shows "ep_items w' = ep_items w" "ep_next w' = ep_next w" "ep_amount w' = ep_amount w"
    "ep_dest_count w' = ep_dest_count w" "ep_dest w' = ep_dest w" "sv_ds w' = sv_ds w" "sv_stream w' = sv_stream w"
    "sv_stream_live w' = sv_stream_live w" "sv_map w' = sv_map w" "sv_sess w' = sv_sess w" "sv_next w' = sv_next w"
    "sv_sid w' = sv_sid w" "nw_reg w' = (if sk_fd s = -1 then nw_reg w else (nw_reg w)(sk_fd s := None))"
  by (simp_all add: w'_def rsocket_close_def sys_close_def tick_def)

lemma close_socket_serves:
  assumes ok: "server_ok B K fl w"
  shows "serves B K fl X w (fst (rsocket_close w s))"
proof (rule serves_frame [OF ok])
  show "reg_ok (fst (rsocket_close w s))"
    by (rule reg_ok_sub [OF server_okD(1) [OF ok]]) (simp_all add: close_socket_fields split: if_splits)
qed (use session_bufs [OF server_okD(5) [OF ok]] in \<open>simp_all add: close_socket_fields item_sig_def sess_sig_def fun_eq_iff\<close>)

lemma undo_nothing: "undo_accept env w None None s = Some (fst (rsocket_close w s))"
  by (simp add: undo_accept_def)

text \<open>Undoing a session without a socket.\<close>

lemma undo_session:
  fixes w :: "'w server"
  assumes h: "half B K fl a w"
  obtains w' where "undo_accept env w (Some a) None s = Some w'" "server_ok B K fl w'" "ep_dest w' = ep_dest w"
    "sv_sid w' = sv_sid w" "\<And>b. link w' b = link w b"
proof -
  note H = halfD [OF h]
  obtain c where c: "sv_sess w a = Some c" using H(11) by blast
  obtain d' q where m: "rdict_remove (sv_map w) (id_key (ds_id (ss_ds c))) = Some (Some d', q)"
    "\<And>w' :: 'w server. sv_sess w' = (sv_sess w)(a := None) \<Longrightarrow> sv_map w' = Some d' \<Longrightarrow> map_ok B K w'"
    using map_drop [OF H(6) c] by metis
  define w1 where "w1 = w\<lparr>sv_map := Some d', sv_sess := (sv_sess w)(a := None)\<rparr>"
  define w' where "w' = fst (rsocket_close w1 s)"
  have w': "ep_items w' = ep_items w" "ep_next w' = ep_next w" "ep_amount w' = ep_amount w"
    "ep_dest_count w' = ep_dest_count w" "ep_dest w' = ep_dest w" "sv_stream w' = sv_stream w"
    "sv_stream_live w' = sv_stream_live w" "sv_map w' = Some d'" "sv_sess w' = (sv_sess w)(a := None)" "sv_next w' = sv_next w"
    "sv_sid w' = sv_sid w" "nw_reg w' = (if sk_fd s = -1 then nw_reg w else (nw_reg w)(sk_fd s := None))"
    unfolding w'_def close_socket_fields by (simp_all add: w1_def)
  have "reg_ok w'" by (rule reg_ok_sub [OF H(1)]) (simp_all add: w' split: if_splits)
  moreover have "dest_ok w'" by (rule dest_ok_cong [OF w'(5,4,3) H(2)])
  ultimately have "server_ok B K fl w'"
    using m(2) [OF w'(9,8)] w' by (intro half_undone [OF h]) simp_all
  moreover have "link w' b = link w b" for b using H(12) by (cases "b = a") (simp_all add: link_def w'(9))
  moreover have "undo_accept env w (Some a) None s = Some w'"
    using c m(1) by (simp add: undo_accept_def w'_def w1_def)
  ultimately show thesis using w'(5,11) by (intro that [of w']) simp_all
qed

text \<open>Undoing a session whose item was made but not accepted by the container.\<close>

lemma forget_item_inv:
  assumes "reg_ok w" "ep_items w i = Some it" "ri_fd it = fd"
  shows "reg_ok (sys_close (w\<lparr>ep_items := (ep_items w)(i := None)\<rparr>) fd)"
  unfolding reg_ok_def
proof (intro allI impI)
  fix fd' ev p assume "nw_reg (sys_close (w\<lparr>ep_items := (ep_items w)(i := None)\<rparr>) fd) fd' = Some (ev, p)"
  then have r: "fd' \<noteq> fd" "nw_reg w fd' = Some (ev, p)" by (auto simp: sys_close_def split: if_splits)
  from reg_okD [OF assms(1) r(2)] obtain a jt where "p = Item a" "ep_items w a = Some jt" "ri_fd jt = fd'" by blast
  moreover from this assms(2,3) r(1) have "a \<noteq> i" by auto
  ultimately show "\<exists>a it. p = Item a \<and> ep_items (sys_close (w\<lparr>ep_items := (ep_items w)(i := None)\<rparr>) fd) a = Some it \<and> ri_fd it = fd'"
    by (simp add: sys_close_def)
qed

lemma undo_item:
  fixes w :: "'w server"
  assumes h: "half B K fl a w" and fresh: "ep_items w (ep_next w) = None" and fd: "ri_fd it = sk_fd s" "sk_fd s \<noteq> -1"
    and v: "v = w\<lparr>nw_tick := t, nw_reg := reg, ep_next := ep_next w + 1, ep_items := (ep_items w)(ep_next w \<mapsto> it)\<rparr>" and r: "reg_ok v"
  obtains w' where "undo_accept env v (Some a) (Some (ep_next w)) s = Some w'" "server_ok B K fl w'" "dests_cleared w w'"
    "sv_sid w' = sv_sid w" "\<And>b. link w' b = link w b"
proof -
  note outcome = that
  note H = halfD [OF h]
  let ?i = "ep_next w"
  obtain c where c: "sv_sess w a = Some c" using H(11) by blast
  obtain d' q where m: "rdict_remove (sv_map w) (id_key (ds_id (ss_ds c))) = Some (Some d', q)"
    "\<And>w' :: 'w server. sv_sess w' = (sv_sess w)(a := None) \<Longrightarrow> sv_map w' = Some d' \<Longrightarrow> map_ok B K w'"
    using map_drop [OF H(6) c] by metis
  define v1 where "v1 = v\<lparr>sv_map := Some d', sv_sess := (sv_sess w)(a := None)\<rparr>"
  have v1: "reg_ok v1" "dest_ok v1" "ep_dest_count v1 \<noteq> None" "ep_items v1 ?i = Some it"
    using r H(3) dest_ok_cong [OF _ _ _ H(2), of v1] by (simp_all add: v1_def reg_ok_def v)
  obtain chk where chk: "repoll_check v1 (Item ?i) = Some chk"
    using item_ops_return [OF v1(4,2)] v1(3) by auto
  have cleared: "(ep_items v1)(?i := None) = ep_items w" using fresh by (simp add: v1_def v fun_upd_idem)
  have folded: "v\<lparr>sv_map := Some d', sv_sess := (sv_sess v)(a := None)\<rparr> = v1" by (simp add: v1_def v)
  have step: "undo_accept env v (Some a) (Some ?i) s = do {
      w2 \<leftarrow> (if chk = rcode_ok then map_option fst (repoll_remove (ve_net env) v1 (Item ?i)) else Some v1);
      Some (fst (rsocket_close (w2\<lparr>ep_items := (ep_items w2)(?i := None)\<rparr>) s)) }"
  proof -
    have "sv_sess v a = Some c" "sv_map v = sv_map w" using c by (simp_all add: v)
    then show ?thesis using m(1) by (simp add: undo_accept_def folded chk)
  qed
  have fin: thesis
    if u: "(if chk = rcode_ok then map_option fst (repoll_remove (ve_net env) v1 (Item ?i)) else Some v1) =
        Some (v1\<lparr>nw_tick := t', nw_reg := reg', ep_dest := D\<rparr>)"
      and ok: "reg_ok (sys_close (v1\<lparr>nw_tick := t', nw_reg := reg', ep_dest := D, ep_items := (ep_items v1)(?i := None)\<rparr>) (sk_fd s))"
        "dest_ok (sys_close (v1\<lparr>nw_tick := t', nw_reg := reg', ep_dest := D, ep_items := (ep_items v1)(?i := None)\<rparr>) (sk_fd s))"
      and D: "length D = length (ep_dest w)" "\<forall>i d. ep_dest w ! i = Some d \<longrightarrow> D ! i = Some d \<or> D ! i = Some (d\<lparr>ri_fd := 0\<rparr>)"
    for t' reg' D
  proof -
    define w' where "w' = sys_close (v1\<lparr>nw_tick := t', nw_reg := reg', ep_dest := D, ep_items := (ep_items v1)(?i := None)\<rparr>) (sk_fd s)"
    have w': "ep_items w' = ep_items w" "ep_next w' = ep_next w + 1" "ep_dest_count w' = ep_dest_count w" "ep_dest w' = D"
      "sv_stream w' = sv_stream w" "sv_stream_live w' = sv_stream_live w" "sv_map w' = Some d'"
      "sv_sess w' = (sv_sess w)(a := None)" "sv_next w' = sv_next w" "sv_sid w' = sv_sid w"
      using cleared by (simp_all add: w'_def sys_close_def tick_def) (simp_all add: v1_def v)
    have "server_ok B K fl w'"
      using ok [folded w'_def] m(2) [OF w'(8,7)] w' by (intro half_undone [OF h]) simp_all
    moreover have "undo_accept env v (Some a) (Some ?i) s = Some w'"
      unfolding step u using fd(2) by (simp add: rsocket_close_def w'_def)
    moreover have "link w' b = link w b" for b using H(12) by (cases "b = a") (simp_all add: link_def w'(8))
    moreover have "dests_cleared w w'" using D by (simp add: dests_cleared_def w'(4))
    ultimately show thesis using w'(10) by (intro outcome [of w']) simp_all
  qed
  show thesis
  proof (cases "chk = rcode_ok")
    case True
    obtain reg' D q where rm: "repoll_remove (ve_net env) v1 (Item ?i) = Some (v1\<lparr>nw_tick := Suc (nw_tick v1), nw_reg := reg', ep_dest := D\<rparr>, q)"
      "length D = length (ep_dest v1)" "\<forall>i d. ep_dest v1 ! i = Some d \<longrightarrow> D ! i = Some d \<or> D ! i = Some (d\<lparr>ri_fd := 0\<rparr>)"
      by (rule remove_returns [OF v1(4,2,3)]) blast
    have "ep_dest v1 = ep_dest w" by (simp add: v1_def v)
    then show thesis
      using removed_inv [OF v1(4) rm(1) v1(1,2)] fd(1) rm True by (intro fin [where t' = "Suc (nw_tick v1)" and reg' = reg' and D = D]) simp_all
  next
    case False
    have e: "v1 = v1\<lparr>nw_tick := nw_tick v1, nw_reg := nw_reg v1, ep_dest := ep_dest v1\<rparr>" by simp
    have "dest_ok (sys_close (v1\<lparr>ep_items := (ep_items v1)(?i := None)\<rparr>) (sk_fd s))"
      by (rule dest_ok_cong [OF _ _ _ v1(2)]) (simp_all add: sys_close_def)
    moreover have "length (ep_dest v1) = length (ep_dest w)" "\<And>i. ep_dest v1 ! i = ep_dest w ! i" by (simp_all add: v1_def v)
    ultimately show thesis
      using forget_item_inv [OF v1(1,4) fd(1)] False by (intro fin [where t' = "nw_tick v1" and reg' = "nw_reg v1" and D = "ep_dest v1"]) simp_all
  qed
qed

text \<open>What accepting promises: at most one id is used up.\<close>

definition admits :: "nat \<Rightarrow> 64 word set \<Rightarrow> int \<times> int \<Rightarrow> 'w server \<Rightarrow> 'w server \<Rightarrow> bool" where
  "admits B K fl w w' \<longleftrightarrow> server_ok B K fl w' \<and> dests_cleared w w' \<and> (sv_sid w' = sv_sid w \<or> sv_sid w' = sv_sid w + 1) \<and>
    (\<forall>b x. link w b = Some x \<longrightarrow> link w' b = Some x)"

definition server_env_ok :: "nat \<Rightarrow> 64 word set \<Rightarrow> int \<times> int \<Rightarrow> 'w server_env \<Rightarrow> bool" where
  "server_env_ok B K fl env \<longleftrightarrow> env_ok B (ve_dict env) \<and> length (ve_block env) = 65536 \<and> clock_runs (ve_net env) \<and>
    accepts_descriptors (ve_net env) \<and> (\<forall>p. ve_in env = Some p \<longrightarrow> handler_ok B K fl p)"

lemma item_fresh: "items_ok fl w \<Longrightarrow> ep_items w (ep_next w) = None"
  unfolding items_ok_def by (cases "ep_items w (ep_next w)") auto

lemma add_item:
  fixes w :: "'w server"
  assumes h: "half B K fl a w" and it: "it = \<lparr>ri_fd = fd, ri_req = req, ri_rsp = 0, ri_ds = a\<rparr>"
  obtains reg r where "repoll_add env (w\<lparr>ep_next := ep_next w + 1, ep_items := (ep_items w)(ep_next w \<mapsto> it)\<rparr>) (Item (ep_next w)) =
      Some (w\<lparr>nw_tick := Suc (nw_tick w), nw_reg := reg, ep_next := ep_next w + 1, ep_items := (ep_items w)(ep_next w \<mapsto> it)\<rparr>, r)"
    "reg_ok (w\<lparr>nw_tick := Suc (nw_tick w), nw_reg := reg, ep_next := ep_next w + 1, ep_items := (ep_items w)(ep_next w \<mapsto> it)\<rparr>)"
proof -
  let ?v = "w\<lparr>ep_next := ep_next w + 1, ep_items := (ep_items w)(ep_next w \<mapsto> it)\<rparr>"
  have fresh: "ep_items w (ep_next w) = None" by (rule item_fresh [OF halfD(4) [OF h]])
  have v: "ep_items ?v (ep_next w) = Some it" "reg_ok ?v"
    using halfD(1) [OF h] fresh by (force simp: reg_ok_def)+
  obtain u r where c: "sys_epoll_ctl env ?v (ep_fd ?v) EPOLL_CTL_ADD (ri_fd it) (ucast (repoll_get_event_req (ri_req it)))
      (Item (ep_next w)) = (u, r)" by fastforce
  from ctl_shape [OF c] obtain reg where u: "u = ?v\<lparr>nw_tick := Suc (nw_tick ?v), nw_reg := reg\<rparr>" by blast
  then have u': "u = w\<lparr>nw_tick := Suc (nw_tick w), nw_reg := reg, ep_next := ep_next w + 1, ep_items := (ep_items w)(ep_next w \<mapsto> it)\<rparr>"
    by simp
  have "repoll_add env ?v (Item (ep_next w)) = Some (u, r)"
    using c by (simp add: repoll_add_def repoll_ctl_def item_at_def)
  then show thesis using reg_ok_ctl [OF c v] unfolding u' by (rule that)
qed

lemma admits_undone:
  assumes 1: "net_same w w1" and 2: "ep_dest w2 = ep_dest w1" "sv_sid w2 = sv_sid w1 + 1" "\<And>b. link w1 b \<noteq> None \<Longrightarrow> link w2 b = link w1 b"
    and 3: "server_ok B K fl w3" "dests_cleared w2 w3" "sv_sid w3 = sv_sid w2" "\<And>b. link w2 b \<noteq> None \<Longrightarrow> link w3 b = link w2 b"
  shows "admits B K fl w w3"
proof -
  have l: "link w b = link w1 b" for b using server_net_same(11) [OF 1] by (simp add: link_def)
  have "link w3 b = Some x" if "link w b = Some x" for b x
    using that l [of b] 2(3) [of b] 3(4) [of b] by simp
  moreover have "dests_cleared w w3"
    using dests_cleared_trans [OF dests_cleared_refl 3(2), of w] 2(1) server_net_same(6) [OF 1] by simp
  moreover have "sv_sid w3 = sv_sid w + 1" using 3(3) 2(2) server_net_same(13) [OF 1] by simp
  ultimately show ?thesis using 3(1) by (simp add: admits_def)
qed

lemma accept_admits:
  fixes w :: "'w server"
  assumes ok: "server_ok B K fl w" and env: "server_env_ok B K fl env" and sid: "sv_sid w + 1 \<in> K" "sv_sid w + 1 \<noteq> 0"
  obtains w' r where "ripc_accept_server env w = Some (w', r)" "admits B K fl w w'"
proof -
  note W = server_okD [OF ok]
  have E: "env_ok B (ve_dict env)" "length (ve_block env) = 65536" "clock_runs (ve_net env)" "accepts_descriptors (ve_net env)"
    using env by (simp_all add: server_env_ok_def)
  obtain l where l: "sv_stream w = Some l" using W(7) by blast
  let ?net = "ve_net env" and ?tm = "timer_millisec (ve_net env) w 3" and ?s0 = "new_socket (ve_net env)"
  have s0: "sk_fd ?s0 = -1" by (simp add: new_socket_def)
  obtain w1 fd code where acc: "rsocket_accept ?net w l ?s0 ?tm = Some (w1, ?s0\<lparr>sk_fd := fd\<rparr>, code)" "net_same w w1" "fd = -1 \<or> 0 \<le> fd"
    using accept_result [OF E(3) _ _ E(4) s0, of ?tm w l] timer_bounds by metis
  have ok1: "server_ok B K fl w1" by (rule serves_ok [OF net_same_serves [OF ok acc(2)]])
  let ?s1 = "?s0\<lparr>sk_fd := fd\<rparr>"
  have drop: "admits B K fl w (fst (rsocket_close w1 ?s1))"
    using serves_trans [OF net_same_serves [OF ok acc(2)] close_socket_serves [OF ok1, of _ ?s1], of "{}"]
    by (simp add: serves_def admits_def)
  show thesis
  proof (cases "code = rcode_io_done \<and> fd \<noteq> -1 \<and> (ve_family env (nw_tick w1) = AF_INET \<or> ve_family env (nw_tick w1) = AF_INET6)")
    case False
    have "\<exists>r. ripc_accept_server env w = Some (fst (rsocket_close w1 ?s1), r)"
      using l W(8) acc(1) False by (auto simp: ripc_accept_server_def Let_def undo_nothing)
    then show thesis using drop that by blast
  next
    case True
    have sid1: "sv_sid w1 + 1 \<in> K" "sv_sid w1 + 1 \<noteq> 0" using sid server_net_same(13) [OF acc(2)] by simp_all
    let ?a = "sv_next w1"
    obtain w2 where n: "new_session env w1 = Some (w2, ?a)" "half B K fl ?a w2" "ep_dest w2 = ep_dest w1"
      "sv_sid w2 = sv_sid w1 + 1" "\<And>b. b \<noteq> ?a \<Longrightarrow> link w2 b = link w1 b"
      by (rule new_session_half [OF ok1 E(1) sid1 E(2)]) blast
    have l1: "link w2 b = link w1 b" if "link w1 b \<noteq> None" for b
    proof -
      have "b \<noteq> ?a" using that session_at [OF ok1] by (auto simp: link_def)
      then show ?thesis by (rule n(5))
    qed
    obtain w3 s3 r3 where o1: "rsocket_setopt ?net w2 ?s1 RSO_NONBLOCK True = (w3, s3, r3)" by (metis prod_cases3)
    obtain w4 s4 r4 where o2: "rsocket_setopt ?net w3 s3 RTCP_NODELAY True = (w4, s4, r4)" by (metis prod_cases3)
    have same3: "net_same w2 w3" "sk_fd s3 = fd" using setopt_same [OF o1] by simp_all
    have same4: "net_same w2 w4" "sk_fd s4 = fd" using setopt_same [OF o2] same3 net_same_trans by auto
    have h: "half B K fl ?a w3" "half B K fl ?a w4" using half_net [OF n(2)] same3(1) same4(1) by blast+
    have pass: "ep_dest v = ep_dest w1 \<and> sv_sid v = sv_sid w1 + 1 \<and> (\<forall>b. link v b = link w2 b)" if "net_same w2 v" for v
      using server_net_same [OF that] n(3,4) by (simp add: link_def)
    have finish: "admits B K fl w v'" if "net_same w2 v" "server_ok B K fl v'" "dests_cleared v v'" "sv_sid v' = sv_sid v"
      "\<And>b. link v b \<noteq> None \<Longrightarrow> link v' b = link v b" for v v'
      using pass [OF that(1)] l1 by (intro admits_undone [OF acc(2) _ _ _ that(2-5)]) auto
    have run: "ripc_accept_server env w =
      (if r3 \<noteq> rcode_ok then map_option (\<lambda>w. (w, code)) (undo_accept env w3 (Some ?a) None s3)
       else if r4 \<noteq> rcode_ok then map_option (\<lambda>w. (w, code)) (undo_accept env w4 (Some ?a) None s4)
       else do {
         (w6, ret) \<leftarrow> repoll_add ?net (w4\<lparr>ep_next := ep_next w4 + 1, ep_items := (ep_items w4)(ep_next w4 \<mapsto>
           \<lparr>ri_fd = fd, ri_req = repoll_set_event_in 0, ri_rsp = 0, ri_ds = ?a\<rparr>)\<rparr>) (Item (ep_next w4));
         if ret \<noteq> rcode_ok then map_option (\<lambda>w. (w, ret)) (undo_accept env w6 (Some ?a) (Some (ep_next w4)) s4)
         else do {
           c \<leftarrow> sv_sess w6 ?a;
           Some (w6\<lparr>sv_sess := (sv_sess w6)(?a \<mapsto> c\<lparr>ss_stream := Some (s4\<lparr>sk_item := ep_next w4\<rparr>),
             ss_ds := (ss_ds c)\<lparr>ds_state := ripc_state_start\<rparr>\<rparr>)\<rparr>, rcode_ok)
         }
       })"
    proof -
      have T: "code = rcode_io_done" "fd \<noteq> -1"
        "(ve_family env (nw_tick w1) \<noteq> AF_INET \<and> ve_family env (nw_tick w1) \<noteq> AF_INET6) = False" using True by auto
      then show ?thesis using l W(8) acc(1) n(1) o1 o2 same4(2) by (simp add: ripc_accept_server_def Let_def T cong: if_cong)
    qed
    show thesis
    proof (cases "r3 \<noteq> rcode_ok \<or> r4 \<noteq> rcode_ok")
      case True
      then obtain v s where v: "ripc_accept_server env w = map_option (\<lambda>w. (w, code)) (undo_accept env v (Some ?a) None s)"
          "half B K fl ?a v" "net_same w2 v"
        using run h same3(1) same4(1) by (cases "r3 = rcode_ok") auto
      obtain v' where v': "undo_accept env v (Some ?a) None s = Some v'" "server_ok B K fl v'" "ep_dest v' = ep_dest v"
        "sv_sid v' = sv_sid v" "\<And>b. link v' b = link v b" by (rule undo_session [OF v(2)]) blast
      have "admits B K fl w v'" by (rule finish [OF v(3) v'(2) dests_cleared_refl [OF v'(3)] v'(4)]) (simp add: v'(5))
      then show thesis using v(1) v'(1) by (intro that [of v' code]) simp_all
    next
      case opts: False
      let ?it = "\<lparr>ri_fd = fd, ri_req = repoll_set_event_in 0, ri_rsp = 0, ri_ds = ?a\<rparr>"
      obtain reg r where ad: "repoll_add ?net (w4\<lparr>ep_next := ep_next w4 + 1, ep_items := (ep_items w4)(ep_next w4 \<mapsto> ?it)\<rparr>) (Item (ep_next w4)) =
        Some (w4\<lparr>nw_tick := Suc (nw_tick w4), nw_reg := reg, ep_next := ep_next w4 + 1, ep_items := (ep_items w4)(ep_next w4 \<mapsto> ?it)\<rparr>, r)"
        "reg_ok (w4\<lparr>nw_tick := Suc (nw_tick w4), nw_reg := reg, ep_next := ep_next w4 + 1, ep_items := (ep_items w4)(ep_next w4 \<mapsto> ?it)\<rparr>)"
        by (rule add_item [OF h(2) refl])
      define w6 where "w6 = w4\<lparr>nw_tick := Suc (nw_tick w4), nw_reg := reg, ep_next := ep_next w4 + 1, ep_items := (ep_items w4)(ep_next w4 \<mapsto> ?it)\<rparr>"
      note ad = ad [folded w6_def]
      show thesis
      proof (cases "r = rcode_ok")
        case False
        obtain v' where v': "undo_accept env w6 (Some ?a) (Some (ep_next w4)) s4 = Some v'" "server_ok B K fl v'" "dests_cleared w4 v'"
          "sv_sid v' = sv_sid w4" "\<And>b. link v' b = link w4 b"
        proof (rule undo_item [OF h(2) item_fresh [OF halfD(4) [OF h(2)]] _ _ w6_def ad(2), where s = s4])
          show "ri_fd ?it = sk_fd s4" "sk_fd s4 \<noteq> -1" using same4(2) True by simp_all
        qed blast
        have "ripc_accept_server env w = Some (v', r)" unfolding run using opts ad(1) False v'(1) by simp
        moreover have "admits B K fl w v'" by (rule finish [OF same4(1) v'(2-4)]) (simp add: v'(5))
        ultimately show thesis by (rule that)
      next
        case ok6: True
        obtain c where c: "sv_sess w4 ?a = Some c" "ss_stream c = None" "bufs_ok c" using halfD(11) [OF h(2)] by blast
        define c' where "c' = c\<lparr>ss_stream := Some (s4\<lparr>sk_item := ep_next w4\<rparr>), ss_ds := (ss_ds c)\<lparr>ds_state := ripc_state_start\<rparr>\<rparr>"
        define v' where "v' = w6\<lparr>sv_sess := (sv_sess w6)(?a \<mapsto> c')\<rparr>"
        have run': "ripc_accept_server env w = Some (v', rcode_ok)"
          unfolding run using opts ad(1) ok6 c(1) by (simp add: v'_def c'_def w6_def)
        have "sess_sig v' = (sess_sig w4)(?a := sess_sig v' ?a)" by (simp add: sess_sig_def v'_def w6_def fun_eq_iff)
        have "map_ok B K v'"
        proof -
          from halfD(6) [OF h(2)] obtain d where d: "sv_map w4 = Some d" "dict_inv B K d" "copied_value d = (\<lambda>x. x)"
            "\<And>k v. dict_abs d k = Some v \<Longrightarrow> \<exists>a s. v = Some a \<and> sv_sess w4 a = Some s \<and> id_key (ds_id (ss_ds s)) = k"
            unfolding map_ok_def by blast
          have "\<exists>a t. v = Some a \<and> sv_sess v' a = Some t \<and> id_key (ds_id (ss_ds t)) = q" if q: "dict_abs d q = Some v" for q v
          proof -
            from d(4) [OF q] obtain b t where t: "v = Some b" "sv_sess w4 b = Some t" "id_key (ds_id (ss_ds t)) = q" by blast
            then show ?thesis using c(1) by (cases "b = ?a") (simp_all add: v'_def w6_def c'_def)
          qed
          then show ?thesis unfolding map_ok_def using d(1-3) by (simp add: v'_def w6_def)
        qed
        moreover have "reg_ok v'" using ad(2) by (simp add: reg_ok_def v'_def)
        moreover have "dest_ok v'" by (rule dest_ok_cong [OF _ _ _ halfD(2) [OF h(2)]]) (simp_all add: v'_def w6_def)
        ultimately have "server_ok B K fl v'"
          using c(3) same4(2) acc(3) True
          by (intro half_done [OF h(2), where it = ?it and c = c' and k = "s4\<lparr>sk_item := ep_next w4\<rparr>"])
            (simp_all add: v'_def w6_def c'_def bufs_ok_def)
        moreover have "link v' b = link w4 b" if "link w4 b \<noteq> None" for b
          using that halfD(12) [OF h(2)] by (cases "b = ?a") (simp_all add: link_def v'_def w6_def)
        ultimately have "admits B K fl w v'"
          by (intro finish [OF same4(1)] dests_cleared_refl) (simp_all add: v'_def w6_def)
        with run' show thesis by (rule that)
      qed
    qed
  qed
qed

section \<open>A round\<close>

text \<open>Both kinds of steps: at most \<open>n\<close> ids are used up.\<close>

definition follows :: "nat \<Rightarrow> 64 word set \<Rightarrow> int \<times> int \<Rightarrow> int set \<Rightarrow> nat \<Rightarrow> 'w server \<Rightarrow> 'w server \<Rightarrow> bool" where
  "follows B K fl X n w w' \<longleftrightarrow> server_ok B K fl w' \<and> dests_cleared w w' \<and> unat (sv_sid w') \<le> unat (sv_sid w) + n \<and>
    (\<forall>b x. b \<notin> X \<and> link w b = Some x \<longrightarrow> link w' b = Some x)"

lemma follows_refl: "server_ok B K fl w \<Longrightarrow> follows B K fl X n w w"
  by (simp add: follows_def dests_cleared_refl)

lemma follows_trans: "follows B K fl X m u v \<Longrightarrow> follows B K fl X n v w \<Longrightarrow> follows B K fl X (m + n) u w"
  unfolding follows_def using dests_cleared_trans by fastforce

lemma serves_follows: "serves B K fl X w w' \<Longrightarrow> follows B K fl X n w w'"
  by (simp add: serves_def follows_def)

text \<open>The ids \<open>1, ..., m\<close> are among those the dictionary is built for.\<close>

definition ids_upto :: "64 word set \<Rightarrow> nat \<Rightarrow> bool" where
  "ids_upto K m \<longleftrightarrow> m < 2 ^ 64 \<and> (\<forall>k. 0 < unat k \<and> unat k \<le> m \<longrightarrow> k \<in> K)"

lemma next_id:
  assumes "ids_upto K m" "unat sid < m"
  shows "sid + 1 \<in> K" "sid + 1 \<noteq> 0" "unat (sid + 1) = unat sid + 1"
proof -
  have "unat sid + 1 < 2 ^ 64" using assms by (simp add: ids_upto_def)
  then show u: "unat (sid + 1) = unat sid + 1" by (simp add: unat_word_ariths)
  then show "sid + 1 \<noteq> 0" by (metis unat_0 Suc_eq_plus1 nat.distinct(1))
  show "sid + 1 \<in> K" using assms u unfolding ids_upto_def by simp
qed

lemma accept_follows:
  assumes ok: "server_ok B K fl w" and env: "server_env_ok B K fl env" and m: "ids_upto K m" "unat (sv_sid w) < m"
  obtains w' r where "ripc_accept_server env w = Some (w', r)" "follows B K fl X 1 w w'"
proof -
  note k = next_id [OF m]
  obtain w' r where w': "ripc_accept_server env w = Some (w', r)" "admits B K fl w w'" by (rule accept_admits [OF ok env k(1,2)])
  from w'(2) k(3) have "follows B K fl X 1 w w'" by (auto simp: admits_def follows_def)
  with w'(1) show thesis by (rule that)
qed

lemma accept_some_follows:
  assumes "server_ok B K fl w" "server_env_ok B K fl env" "ids_upto K m" "unat (sv_sid w) + n \<le> m"
  shows "\<exists>w'. accept_some env n w = Some w' \<and> follows B K fl X n w w'"
  using assms(1,4)
proof (induction n arbitrary: w)
  case 0
  then show ?case by (simp add: follows_refl)
next
  case (Suc n)
  from Suc.prems(2) have "unat (sv_sid w) < m" by simp
  then obtain w1 r where 1: "ripc_accept_server env w = Some (w1, r)" "follows B K fl X 1 w w1"
    using accept_follows [OF Suc.prems(1) assms(2,3)] by metis
  then have w1: "server_ok B K fl w1" "unat (sv_sid w1) + n \<le> m" using Suc.prems(2) by (simp_all add: follows_def)
  from Suc.IH [OF w1] obtain w2 where 2: "accept_some env n w1 = Some w2" "follows B K fl X n w1 w2" by blast
  have more: "follows B K fl X (Suc n) w w1" using 1(2) by (simp add: follows_def)
  have "follows B K fl X (Suc n) w w2" using follows_trans [OF 1(2) 2(2)] by simp
  then show ?case using 1(1) 2(1) more by simp
qed

lemma check_items_cons:
  "check_server_items env (i # is) w = do { w1 \<leftarrow> check_server_items env [i] w; check_server_items env is w1 }"
  by (cases "item_at w (Dest i)") (simp_all add: Option.bind_assoc case_prod_unfold)

lemma link_session: "link w a = Some x \<Longrightarrow> \<exists>s. sv_sess w a = Some s"
  by (auto simp: link_def bind_eq_Some_conv)

lemma session_started: "server_ok B K fl w \<Longrightarrow> sv_sess w a = Some s \<Longrightarrow> ds_state (ss_ds s) = ripc_state_start"
  using server_okD(5) by (metis session_okE)

text \<open>A readable or writable session.\<close>

lemma session_io:
  assumes ok: "server_ok B K fl w" and env: "server_env_ok B K fl env" and l: "link w a = Some x"
  obtains w1 w2 where
    "(if out then do { s \<leftarrow> sv_sess w a; if ds_state (ss_ds s) = ripc_state_start
       then map_option fst (ripc_send_data_server env w a) else Some w } else Some w) = Some w1"
    "(if inp then do { s \<leftarrow> sv_sess w1 a; if ds_state (ss_ds s) = ripc_state_start
       then map_option fst (ripc_receive_data_server env w1 a) else Some w1 } else Some w1) = Some w2"
    "serves B K fl {a} w w2"
proof -
  have E: "clock_runs (ve_net env)" "\<And>p. ve_in env = Some p \<Longrightarrow> handler_ok B K fl p"
    using env by (simp_all add: server_env_ok_def)
  obtain s where s: "sv_sess w a = Some s" using link_session [OF l] by blast
  obtain w1 where 1: "(if out then do { s \<leftarrow> sv_sess w a; if ds_state (ss_ds s) = ripc_state_start
       then map_option fst (ripc_send_data_server env w a) else Some w } else Some w) = Some w1" "serves B K fl {} w w1"
  proof (cases out)
    case True
    obtain w1 r where "ripc_send_data_server env w a = Some (w1, r)" "serves B K fl {} w w1"
      by (rule send_data_serves [OF ok s E(1)])
    then show thesis using True s session_started [OF ok s] by (intro that) simp_all
  qed (use serves_refl [OF ok] that in simp)
  have ok1: "server_ok B K fl w1" by (rule serves_ok [OF 1(2)])
  have "link w1 a = Some x" using 1(2) l unfolding serves_def by blast
  then obtain t where t: "sv_sess w1 a = Some t" using link_session by blast
  obtain w2 where 2: "(if inp then do { s \<leftarrow> sv_sess w1 a; if ds_state (ss_ds s) = ripc_state_start
       then map_option fst (ripc_receive_data_server env w1 a) else Some w1 } else Some w1) = Some w2" "serves B K fl {a} w1 w2"
  proof (cases inp)
    case True
    obtain w2 r where "ripc_receive_data_server env w1 a = Some (w2, r)" "serves B K fl {a} w1 w2"
      by (rule receive_data_serves [OF ok1 t E])
    then show thesis using True t session_started [OF ok1 t] by (intro that) simp_all
  qed (use serves_refl [OF ok1] that in simp)
  show thesis using 1(1) 2 serves_trans [OF serves_more [OF 1(2)] 2(2)] by (intro that) simp_all
qed

lemma check_item_follows:
  assumes ok: "server_ok B K fl w" and env: "server_env_ok B K fl env" and ids: "ids_upto K m"
    and it: "item_at w (Dest i) = Some it" "dest_entry f w it"
    and up: "ri_fd it \<noteq> 0 \<Longrightarrow> ri_ds it = 0 \<Longrightarrow> \<not> repoll_check_event_err (ri_rsp it)"
    and m: "unat (sv_sid w) + (if ri_fd it \<noteq> 0 \<and> ri_ds it = 0 then 10 else 0) \<le> m"
  shows "\<exists>w1. check_server_items env [i] w = Some w1 \<and> follows B K fl {ri_ds it} (if ri_fd it \<noteq> 0 \<and> ri_ds it = 0 then 10 else 0) w w1"
proof -
  consider "ri_fd it = 0" | "ri_fd it \<noteq> 0" "ri_ds it = 0" | "ri_fd it \<noteq> 0" "ri_ds it \<noteq> 0" by blast
  then show ?thesis
  proof cases
    case 1
    then show ?thesis using it(1) follows_refl [OF ok] by simp
  next
    case 2
    from m 2 have "unat (sv_sid w) + 10 \<le> m" by simp
    from accept_some_follows [OF ok env ids this, of "{ri_ds it}"] obtain w1 where
      a: "accept_some env 10 w = Some w1" "follows B K fl {ri_ds it} 10 w w1" by blast
    show ?thesis
      using it(1) up 2 a follows_refl [OF ok, of "{ri_ds it}" 10]
      by (cases "repoll_check_event_in (ri_rsp it) \<and> ds_state (sv_ds w) = ripc_state_start") auto
  next
    case 3
    then obtain j where l: "link w (ri_ds it) = Some (ri_fd it, j)" using it(2) by (auto simp: dest_entry_def)
    then obtain s where s: "sv_sess w (ri_ds it) = Some s" using link_session by blast
    show ?thesis
    proof (cases "repoll_check_event_err (ri_rsp it)")
      case True
      obtain w1 where e: "ripc_on_error_server env w (ri_ds it) = Some (w1, rcode_ok)" "serves B K fl {ri_ds it} w w1"
        by (rule close_serves [OF ok s])
      have "check_server_items env [i] w = Some w1" using 3 it(1) True e(1) by simp
      then show ?thesis using 3 serves_follows [OF e(2)] by simp
    next
      case False
      obtain w1 w2 where io: "(if repoll_check_event_out (ri_rsp it) then do { s \<leftarrow> sv_sess w (ri_ds it); if ds_state (ss_ds s) = ripc_state_start
           then map_option fst (ripc_send_data_server env w (ri_ds it)) else Some w } else Some w) = Some w1"
        "(if repoll_check_event_in (ri_rsp it) then do { s \<leftarrow> sv_sess w1 (ri_ds it); if ds_state (ss_ds s) = ripc_state_start
           then map_option fst (ripc_receive_data_server env w1 (ri_ds it)) else Some w1 } else Some w1) = Some w2"
        "serves B K fl {ri_ds it} w w2" by (rule session_io [OF ok env l])
      have "check_server_items env [i] w = Some w2"
        by (simp only: check_server_items.simps it(1) Option.bind.simps if_not_P [OF 3(1)] if_not_P [OF 3(2)] if_not_P [OF False] io)
      then show ?thesis using 3 serves_follows [OF io(3)] by simp
    qed
  qed
qed

text \<open>Whether the listening socket is among the remaining results, and that it reports no error.\<close>

definition listening :: "nat list \<Rightarrow> 'w server \<Rightarrow> bool" where
  "listening is w \<longleftrightarrow> (\<exists>i \<in> set is. \<exists>it. ep_dest w ! i = Some it \<and> ri_fd it \<noteq> 0 \<and> ri_ds it = 0)"

definition quiet :: "nat list \<Rightarrow> 'w server \<Rightarrow> bool" where
  "quiet is w \<longleftrightarrow> (\<forall>i \<in> set is. \<forall>it. ep_dest w ! i = Some it \<and> ri_fd it \<noteq> 0 \<and> ri_ds it = 0 \<longrightarrow> \<not> repoll_check_event_err (ri_rsp it))"

lemma dest_back:
  assumes "dests_cleared w w'" "ep_dest w ! i = Some it0" "ep_dest w' ! i = Some it" "ri_fd it \<noteq> 0"
  shows "ep_dest w ! i = Some it"
proof -
  have "ep_dest w' ! i = Some it0 \<or> ep_dest w' ! i = Some (it0\<lparr>ri_fd := 0\<rparr>)"
    using assms(1,2) unfolding dests_cleared_def by blast
  then show ?thesis using assms(2-4) by auto
qed

lemma cleared_pending:
  assumes p: "pending_ok f is w" and d: "dests_cleared w w'"
  shows "listening is w' \<Longrightarrow> listening is w" "quiet is w \<Longrightarrow> quiet is w'"
proof -
  have e: "ep_dest w ! i = Some it" if "i \<in> set is" "ep_dest w' ! i = Some it" "ri_fd it \<noteq> 0" for i it
    using p dest_back [OF d _ that(2,3)] that(1) unfolding pending_ok_def by blast
  show "listening is w' \<Longrightarrow> listening is w" unfolding listening_def using e by blast
  show "quiet is w \<Longrightarrow> quiet is w'" unfolding quiet_def using e by blast
qed

lemma check_items_follow:
  assumes env: "server_env_ok B K fl env" and ids: "ids_upto K m"
  shows "server_ok B K fl w \<Longrightarrow> pending_ok (fst fl) is w \<Longrightarrow> quiet is w \<Longrightarrow>
    unat (sv_sid w) + (if listening is w then 10 else 0) \<le> m \<Longrightarrow>
    \<exists>w'. check_server_items env is w = Some w' \<and> server_ok B K fl w' \<and>
      unat (sv_sid w') \<le> unat (sv_sid w) + (if listening is w then 10 else 0)"
proof (induction "is" arbitrary: w)
  case (Cons i "is")
  let ?f = "fst fl"
  have P: "pending_ok ?f is w" "quiet is w" using Cons.prems(2,3) by (auto simp: pending_ok_def quiet_def)
  obtain it where it: "i < length (ep_dest w)" "ep_dest w ! i = Some it" "dest_entry ?f w it"
    using Cons.prems(2) by (auto simp: pending_ok_def)
  have at: "item_at w (Dest i) = Some it" using it by (simp add: item_at_def)
  have cons: "listening (i # is) w \<longleftrightarrow> ri_fd it \<noteq> 0 \<and> ri_ds it = 0 \<or> listening is w"
    using it(2) by (auto simp: listening_def)
  show ?case
  proof (cases "ri_fd it = 0")
    case True
    then have e: "check_server_items env (i # is) w = check_server_items env is w" "listening (i # is) w = listening is w"
      using at cons by simp_all
    show ?thesis unfolding e using Cons.IH [OF Cons.prems(1) P] Cons.prems(4) e(2) by simp
  next
    case fd: False
    let ?n = "if ri_fd it \<noteq> 0 \<and> ri_ds it = 0 then 10 else (0 :: nat)"
    have up: "ri_ds it = 0 \<Longrightarrow> \<not> repoll_check_event_err (ri_rsp it)"
      using Cons.prems(3) it(2) fd by (simp add: quiet_def)
    have m: "unat (sv_sid w) + ?n \<le> m" using Cons.prems(4) cons by (auto split: if_splits)
    obtain w1 where 1: "check_server_items env [i] w = Some w1" "follows B K fl {ri_ds it} ?n w w1"
      using check_item_follows [OF Cons.prems(1) env ids at it(3) up m] by blast
    have w1: "server_ok B K fl w1" "dests_cleared w w1" "unat (sv_sid w1) \<le> unat (sv_sid w) + ?n"
      "\<And>b x. b \<noteq> ri_ds it \<Longrightarrow> link w b = Some x \<Longrightarrow> link w1 b = Some x"
      using 1(2) unfolding follows_def by blast+
    have differ: "ri_fd jt \<noteq> ri_fd it" if "j \<in> set is" "ep_dest w ! j = Some jt" for j jt
    proof -
      have "i \<noteq> j" using Cons.prems(2) that(1) by (auto simp: pending_ok_def)
      moreover have "dest_fd w i = ri_fd it" "dest_fd w j = ri_fd jt" using it(2) that(2) by (simp_all add: dest_fd_def)
      ultimately show ?thesis using Cons.prems(2) that(1) fd unfolding pending_ok_def by (metis list.set_intros)
    qed
    have "pending_ok ?f is w1"
    proof (rule pending_step [OF P(1) w1(2)])
      fix j jt k assume j: "j \<in> set is" "ep_dest w ! j = Some jt" "ri_fd jt \<noteq> 0" "ri_ds jt \<noteq> 0" "link w (ri_ds jt) = Some (ri_fd jt, k)"
      have "ri_ds jt \<noteq> ri_ds it" using j(4,5) it(3) fd differ [OF j(1,2)] by (auto simp: dest_entry_def)
      then show "link w1 (ri_ds jt) = Some (ri_fd jt, k)" using w1(4) j(5) by blast
    qed
    moreover have lis: "listening is w1 \<Longrightarrow> listening is w" "quiet is w1"
      using cleared_pending [OF P(1) w1(2)] P(2) by blast+
    moreover have only: "\<not> listening is w" if "ri_ds it = 0"
    proof
      assume "listening is w"
      then obtain j jt where j: "j \<in> set is" "ep_dest w ! j = Some jt" "ri_fd jt \<noteq> 0" "ri_ds jt = 0" by (auto simp: listening_def)
      then have "dest_entry ?f w jt" using P(1) by (auto simp: pending_ok_def)
      then show False using j(3,4) that fd it(3) differ [OF j(1,2)] by (simp add: dest_entry_def)
    qed
    moreover have "unat (sv_sid w1) + (if listening is w1 then 10 else 0) \<le> m"
      using w1(3) Cons.prems(4) cons lis(1) only fd by (auto split: if_splits)
    ultimately obtain w2 where "check_server_items env is w1 = Some w2" "server_ok B K fl w2"
      "unat (sv_sid w2) \<le> unat (sv_sid w1) + (if listening is w1 then 10 else 0)"
      using Cons.IH [OF w1(1)] by blast
    then show ?thesis
      using 1(1) w1(3) cons lis(1) only fd by (subst check_items_cons) (auto split: if_splits)
  qed
qed simp

section \<open>Polling\<close>

text \<open>
  A descriptor is reported once by a call of \<open>epoll_wait\<close>.  The listening socket \<open>f\<close> reports no error:
  the server would close itself inside its own loop.
\<close>

definition waits_ok :: "int \<Rightarrow> net_env \<Rightarrow> bool" where
  "waits_ok f env \<longleftrightarrow> (\<forall>t evs. ne_wait env t = Ret evs \<longrightarrow> distinct (map fst evs) \<and> (\<forall>ev. (f, ev) \<in> set evs \<longrightarrow> ev AND EPOLLERR = 0))"

definition item_fd :: "'a epworld_scheme \<Rightarrow> item_ptr \<Rightarrow> int" where
  "item_fd w p = (case item_at w p of None \<Rightarrow> 0 | Some it \<Rightarrow> ri_fd it)"

lemma ready_from:
  assumes "reg_ok w" "(hit, p) \<in> set (ready_events w evs)"
  shows "\<exists>ev x. (item_fd w p, ev) \<in> set evs \<and> hit = ev AND x"
proof -
  obtain fd ev where x: "(fd, ev) \<in> set evs" "(hit, p) \<in> set (case nw_reg w fd of None \<Rightarrow> []
      | Some (req, p) \<Rightarrow> (let hit = ev AND (req OR 0x18) in if hit = 0 then [] else [(hit, p)]))"
    using assms(2) unfolding ready_events_def by auto
  then obtain y where "nw_reg w fd = Some y" by (cases "nw_reg w fd") auto
  with x(2) obtain req where r: "nw_reg w fd = Some (req, p)" "hit = ev AND (req OR 0x18)"
    by (cases y) (auto simp: Let_def split: if_splits)
  from reg_okD [OF assms(1) r(1)] have "item_fd w p = fd" by (auto simp: item_fd_def item_at_def)
  then show ?thesis using x(1) r(2) by blast
qed

lemma ready_distinct:
  assumes reg: "reg_ok w"
  shows "distinct (map fst evs) \<Longrightarrow> distinct (map (\<lambda>x. item_fd w (snd x)) (ready_events w evs))"
proof (induction evs)
  case (Cons e evs)
  obtain fd ev where e: "e = (fd, ev)" by fastforce
  have fd: "fd \<notin> fst ` set evs" using Cons.prems e by auto
  have later: "item_fd w (snd x) \<in> fst ` set evs" if "x \<in> set (ready_events w evs)" for x
    using ready_from [OF reg, of "fst x" "snd x" evs] that by force
  have first: "ready_events w (e # evs) = ready_events w [e] @ ready_events w evs" by (simp add: ready_events_def)
  have one: "ready_events w [e] = [] \<or> (\<exists>x. ready_events w [e] = [x])"
    by (cases "nw_reg w fd") (auto simp: ready_events_def e Let_def split: if_splits)
  show ?case
  proof (cases "ready_events w [e] = []")
    case True
    then show ?thesis using Cons first by simp
  next
    case False
    then obtain x where x: "ready_events w [e] = [x]" using one by blast
    have "item_fd w (snd x) = fd" using ready_from [OF reg, of "fst x" "snd x" "[e]"] x e by simp
    then show ?thesis using Cons first x fd later by auto
  qed
qed (simp add: ready_events_def)

lemma poll_copy_shape: "poll_copy i evs w = Some w' \<Longrightarrow> \<exists>D. w' = w\<lparr>ep_dest := D\<rparr>"
proof (induction i evs w rule: poll_copy.induct)
  case (1 i w)
  then show ?case by (intro exI [of _ "ep_dest w"]) simp
qed (force simp: bind_eq_Some_conv)

lemma poll_shape:
  assumes "repoll_poll env w = Some (w', r)"
  obtains D n where "w' = w\<lparr>nw_tick := Suc (nw_tick w), ep_dest := D, ep_dest_count := Some n\<rparr>"
proof -
  obtain ans where a: "sys_epoll_wait env w (ep_fd w) (ep_amount w) = (tick w, ans)" by (simp add: sys_epoll_wait_def)
  show thesis
  proof (cases ans)
    case (Err e)
    then have "w' = w\<lparr>nw_tick := Suc (nw_tick w), ep_dest := ep_dest w, ep_dest_count := Some 0\<rparr>"
      using assms a by (simp add: repoll_poll_def tick_def)
    then show thesis by (rule that)
  next
    case (Ret evs)
    show thesis
    proof (cases "evs = []")
      case True
      then have "w' = w\<lparr>nw_tick := Suc (nw_tick w), ep_dest := ep_dest w, ep_dest_count := Some 0\<rparr>"
        using assms a Ret by (simp add: repoll_poll_def tick_def)
      then show thesis by (rule that)
    next
      case False
      then obtain w2 where w2: "poll_copy 0 evs (tick w) = Some w2" "w' = w2\<lparr>ep_dest_count := Some (int (length evs))\<rparr>"
        using assms a Ret by (auto simp: repoll_poll_def bind_eq_Some_conv)
      from poll_copy_shape [OF w2(1)] obtain D where "w2 = (tick w)\<lparr>ep_dest := D\<rparr>" by blast
      then have "w' = w\<lparr>nw_tick := Suc (nw_tick w), ep_dest := D, ep_dest_count := Some (int (length evs))\<rparr>"
        using w2(2) by (simp add: tick_def)
      then show thesis by (rule that)
    qed
  qed
qed

text \<open>A poll leaves results that can be looked at one after the other.\<close>

lemma poll_pending:
  fixes w :: "'w server"
  assumes ok: "server_ok B K fl w" and wt: "waits_ok (fst fl) env"
  obtains w' r n where "repoll_poll env w = Some (w', r)" "server_ok B K fl w'" "sv_sid w' = sv_sid w" "sv_sess w' = sv_sess w"
    "ep_dest_count w' = Some n" "pending_ok (fst fl) [0..<nat n] w'" "quiet [0..<nat n] w'"
proof -
  note outcome = that
  note W = server_okD [OF ok]
  obtain w' r where p: "repoll_poll env w = Some (w', r)" "dest_ok w'" "nw_reg w' = nw_reg w" "ep_items w' = ep_items w"
    and c: "case snd (sys_epoll_wait env w (ep_fd w) (ep_amount w)) of
       Err e \<Rightarrow> ep_dest_count w' = Some 0 \<and> r = (if e = EINTR then rcode_ok else e)
     | Ret evs \<Rightarrow> r = rcode_ok \<and> ep_dest_count w' = Some (int (length evs)) \<and>
         take (length evs) (ep_dest w') = map (polled_item w) evs \<and>
         (\<forall>(ev, p) \<in> set evs. \<exists>a it req. p = Item a \<and> ep_items w a = Some it \<and> nw_reg w (ri_fd it) = Some (req, p) \<and>
           ev AND (req OR 0x18) = ev \<and> ev \<noteq> 0)"
    using repoll_poll_cases [OF W(1,2), of env] by (elim exE conjE) (rule that; assumption)
  obtain D n where s: "w' = w\<lparr>nw_tick := Suc (nw_tick w), ep_dest := D, ep_dest_count := Some n\<rparr>" by (rule poll_shape [OF p(1)])
  have l: "link w' = link w" by (simp add: link_def s fun_eq_iff)
  have ok': "server_ok B K fl w'"
    using ok p(2) unfolding server_ok_def by (simp add: reg_ok_def items_ok_def session_ok_def map_ok_def l) (simp add: s)
  have cnt: "ep_dest_count w' = Some n" by (simp add: s)
  have finish: thesis if "pending_ok (fst fl) [0..<nat n] w'" "quiet [0..<nat n] w'"
    using p(1) ok' cnt that by (intro outcome [of w' r n]) (simp_all add: s)
  show thesis
  proof (cases "snd (sys_epoll_wait env w (ep_fd w) (ep_amount w))")
    case (Err e)
    then have "n = 0" using c cnt by simp
    then show thesis by (intro finish) (simp_all add: pending_ok_def quiet_def)
  next
    case (Ret evs)
    note c = c [unfolded Ret answer.case]
    have n: "nat n = length evs" using c cnt by simp
    obtain ans k where ans: "ne_wait env (nw_tick w) = Ret ans" "evs = take k (ready_events w ans)"
      using Ret by (auto simp: sys_epoll_wait_def split: if_splits answer.splits)
    have W': "distinct (map fst ans)" "\<And>ev. (fst fl, ev) \<in> set ans \<Longrightarrow> ev AND EPOLLERR = 0"
      using wt ans(1) unfolding waits_ok_def by blast+
    have dist: "distinct (map (\<lambda>x. item_fd w (snd x)) evs)"
      unfolding ans(2) take_map [symmetric] by (rule distinct_take [OF ready_distinct [OF W(1) W'(1)]])
    have len: "length evs \<le> length (ep_dest w')" using p(2) cnt n by (auto simp: dest_ok_def)
    have entry: "\<exists>it a. ep_items w a = Some it \<and> snd (evs ! i) = Item a \<and>
        ep_dest w' ! i = Some (it\<lparr>ri_rsp := repoll_get_event_rsp (ucast (fst (evs ! i)))\<rparr>)" if i: "i < length evs" for i
    proof -
      obtain ev q where x: "evs ! i = (ev, q)" by fastforce
      have m: "(ev, q) \<in> set evs" using nth_mem [OF i] x by simp
      obtain a it where it: "q = Item a" "ep_items w a = Some it" using c m by blast
      have "ep_dest w' ! i = take (length evs) (ep_dest w') ! i" using i by simp
      also have "\<dots> = polled_item w (ev, q)" using c i x by simp
      also have "\<dots> = Some (it\<lparr>ri_rsp := repoll_get_event_rsp (ucast ev)\<rparr>)" using it by (simp add: polled_item_def item_at_def)
      finally show ?thesis using it x by auto
    qed
    have fd: "dest_fd w' i = item_fd w (snd (evs ! i))" if i: "i < length evs" for i
      using entry [OF i] by (auto simp: dest_fd_def item_fd_def item_at_def)
    have "pending_ok (fst fl) [0..<length evs] w'"
      unfolding pending_ok_def
    proof (intro conjI ballI impI)
      fix i assume "i \<in> set [0..<length evs]"
      then have i: "i < length evs" by simp
      then show "i < length (ep_dest w')" using len by simp
      from entry [OF i] obtain it a where it: "ep_items w a = Some it"
        "ep_dest w' ! i = Some (it\<lparr>ri_rsp := repoll_get_event_rsp (ucast (fst (evs ! i)))\<rparr>)" by blast
      have "dest_entry (fst fl) w' (it\<lparr>ri_rsp := repoll_get_event_rsp (ucast (fst (evs ! i)))\<rparr>)"
        using W(4) [unfolded items_ok_def, rule_format, OF it(1)] l by (auto simp: dest_entry_def split: if_splits)
      then show "\<exists>it. ep_dest w' ! i = Some it \<and> dest_entry (fst fl) w' it" using it(2) by blast
    next
      fix i j assume ij: "i \<in> set [0..<length evs]" "j \<in> set [0..<length evs]" "i \<noteq> j \<and> dest_fd w' i \<noteq> 0"
      then show "dest_fd w' i \<noteq> dest_fd w' j"
        using nth_eq_iff_index_eq [OF dist, of i j] by (simp add: fd)
    qed simp
    moreover have "quiet [0..<length evs] w'"
      unfolding quiet_def
    proof (intro ballI allI impI)
      fix i jt assume "i \<in> set [0..<length evs]" and jt: "ep_dest w' ! i = Some jt \<and> ri_fd jt \<noteq> 0 \<and> ri_ds jt = 0"
      then have i: "i < length evs" by simp
      from entry [OF i] obtain it a where it: "ep_items w a = Some it" "snd (evs ! i) = Item a"
        "ep_dest w' ! i = Some (it\<lparr>ri_rsp := repoll_get_event_rsp (ucast (fst (evs ! i)))\<rparr>)" by blast
      have f: "item_fd w (snd (evs ! i)) = fst fl"
        using W(4) [unfolded items_ok_def, rule_format, OF it(1)] jt it by (auto simp: item_fd_def item_at_def)
      have "evs ! i \<in> set (ready_events w ans)" using nth_mem [OF i] set_take_subset [of k "ready_events w ans"] ans(2) by blast
      then obtain ev x where "(fst fl, ev) \<in> set ans" "fst (evs ! i) = ev AND x"
        using ready_from [OF W(1), of "fst (evs ! i)" "snd (evs ! i)" ans] f by auto
      then have "fst (evs ! i) AND EPOLLERR = 0" using W'(2) by (metis and.assoc and.commute and_zero_eq)
      then show "\<not> repoll_check_event_err (ri_rsp jt)" using jt it(3) by (auto simp: rsp_events32(3))
    qed
    ultimately show thesis by (intro finish) (simp_all add: n)
  qed
qed

lemma check_data_server_ok:
  fixes w :: "'w server"
  assumes ok: "server_ok B K fl w" and env: "server_env_ok B K fl env" and ids: "ids_upto K m" "unat (sv_sid w) + 10 \<le> m"
    and wt: "waits_ok (fst fl) (ve_net env)"
  obtains w' r where "ripc_check_data_server env w = Some (w', r)" "server_ok B K fl w'" "unat (sv_sid w') \<le> unat (sv_sid w) + 10"
proof -
  obtain w1 r n where 1: "repoll_poll (ve_net env) w = Some (w1, r)" "server_ok B K fl w1" "sv_sid w1 = sv_sid w" "sv_sess w1 = sv_sess w"
    "ep_dest_count w1 = Some n" "pending_ok (fst fl) [0..<nat n] w1" "quiet [0..<nat n] w1"
    by (rule poll_pending [OF ok wt])
  have "unat (sv_sid w1) + (if listening [0..<nat n] w1 then 10 else 0) \<le> m" using ids(2) 1(3) by simp
  from check_items_follow [OF env ids(1) 1(2,6,7) this] obtain w2 where
    2: "check_server_items env [0..<nat n] w1 = Some w2" "server_ok B K fl w2"
      "unat (sv_sid w2) \<le> unat (sv_sid w1) + (if listening [0..<nat n] w1 then 10 else 0)" by blast
  show thesis
  proof (cases "r = rcode_ok")
    case True
    then show thesis using 1 2 by (intro that [of w2 "if ds_state (sv_ds w2) \<noteq> ripc_state_start then rcode_invalid else rcode_ok"])
        (auto simp: ripc_check_data_server_def split: if_splits)
  next
    case False
    then show thesis using 1 by (intro that [of w1 r]) (simp_all add: ripc_check_data_server_def)
  qed
qed

section \<open>Opening\<close>

lemma bind_addrs_ok:
  assumes pos: "sockets_positive env"
  shows "bind_addrs env fams cf rc w s = (w', s', r) \<Longrightarrow> socket_ok w s \<Longrightarrow> net_same w w' \<and> socket_ok w' s'"
proof (induction fams arbitrary: cf rc w s)
  case Nil
  then show ?case by (simp add: net_same_def)
next
  case (Cons family rest)
  have bind: "net_same v w' \<and> socket_ok w' s'"
    if v: "socket_ok v u" and b: "(case rsocket_bind env (fst (rsocket_setblocking v u)) u of (w3, ret1) \<Rightarrow>
      if ret1 = rcode_ok then (w3, u, ret1) else bind_addrs env rest f ret1 w3 u) = (w', s', r)" for v u f
  proof -
    obtain w3 ret1 where 3: "rsocket_bind env (fst (rsocket_setblocking v u)) u = (w3, ret1)" by fastforce
    have "net_same v w3 \<and> socket_ok w3 u"
      using 3 v by (auto simp: rsocket_bind_def rsocket_setblocking_def net_same_def socket_ok_def)
    then show ?thesis using b 3 Cons.IH [of f ret1 w3 u] net_same_trans by (auto split: if_splits)
  qed
  show ?case
  proof (cases "cf \<noteq> family \<or> sk_fd s = SOCKET_INVALID")
    case True
    obtain w1 s1 r1 where cl: "rsocket_close w s = (w1, s1, r1)" by (cases "rsocket_close w s")
    obtain w2 s2 r2 where cr: "rsocket_create env w1 s1 = (w2, s2, r2)" by (cases "rsocket_create env w1 s1")
    note 1 = close_ok [OF Cons.prems(2) cl]
    then have 2: "net_same w w2" "socket_ok w2 s2" using create_ok [OF _ pos cr] net_same_trans by blast+
    show ?thesis
    proof (cases "r2 = rcode_ok")
      case False
      then have "bind_addrs env rest cf r2 w2 s2 = (w', s', r)" using Cons.prems(1) True cl cr by simp
      then show ?thesis using Cons.IH 2 net_same_trans by blast
    next
      case ok: True
      then have "net_same w2 w' \<and> socket_ok w' s'"
        using Cons.prems(1) True cl cr by (intro bind [OF 2(2), of family]) simp
      then show ?thesis using 2(1) net_same_trans by blast
    qed
  next
    case False
    then show ?thesis using Cons.prems(1) by (intro bind [OF Cons.prems(2), of family]) simp
  qed
qed

text \<open>A program before it has a server.\<close>

definition fresh_server :: "'w server \<Rightarrow> bool" where
  "fresh_server w \<longleftrightarrow> nw_reg w = Map.empty \<and> -1 \<notin> nw_open w \<and> ep_dest_count w = None \<and> ep_items w = Map.empty \<and>
    sv_sess w = Map.empty \<and> 0 < sv_next w"

text \<open>The table the server starts with has at least 125 buckets of 16 cells.\<close>

definition server_table_ok :: "nat \<Rightarrow> 64 word set \<Rightarrow> bool" where
  "server_table_ok B K \<longleftrightarrow> 16 \<le> B \<and> B \<le> 2 ^ 28 \<and> spread (\<lambda>k. k) K 16 125 B"

lemma init_map:
  fixes w0 :: "'w server"
  assumes i: "ripc_init_server env w0 = Some (w1, rcode_ok)" and t: "server_table_ok B K" "env_ok B (ve_dict env)"
    and d: "sv_map w1 = Some d" "d_entry d \<noteq> None" and e: "sv_sess w = Map.empty" "sv_map w = Some d"
  shows "map_ok B K w" "w1 = w0\<lparr>sv_map := Some d, sv_stream := None\<rparr>"
proof -
  have fns: "d_eq session_fns = (=)" "\<forall>k. copied_key session_fns (Some k) = Some k" "copied_value session_fns = (\<lambda>x. x)"
    "d_hash session_fns = (\<lambda>k. k)"
    by (simp_all add: session_fns_def copied_key_def copied_value_def fun_eq_iff)
  have c: "rdict_create (ve_dict env) session_fns 2000 16 = Some d" and w1: "w1 = w0\<lparr>sv_map := Some d, sv_stream := None\<rparr>"
    using i d(1) by (auto simp: ripc_init_server_def bind_eq_Some_conv)
  show "w1 = w0\<lparr>sv_map := Some d, sv_stream := None\<rparr>" by (rule w1)
  obtain d' where d': "rdict_create (ve_dict env) session_fns 2000 16 = Some d'" "dict_abs d' = Map.empty"
    "d_hash d' = d_hash session_fns" "d_bucket_capacity d' = 16" "copied_value d' = copied_value session_fns"
    "d_entry d' = None \<or> dict_ok B d' \<and> 2000 \<le> length (cells d')"
    using rdict_create_spec [of 2000 16 B "ve_dict env" session_fns] t fns(1,2) by (auto simp: server_table_ok_def)
  have dd: "d' = d" using c d'(1) by simp
  note D = d'(2-6) [unfolded dd]
  have ok: "dict_ok B d" "2000 \<le> length (cells d)" using D(5) d(2) by auto
  have "length (cells d) = d_buckets d * 16" using table_okD(3) [OF dict_okD(4) [OF ok(1)]] D(3) by simp
  then have "125 \<le> d_buckets d" using ok(2) by simp
  then have "spread (d_hash d) K (d_bucket_capacity d) (d_buckets d) B"
    using t(1) spread_mono unfolding server_table_ok_def D(2,3) fns(4) by blast
  then have "dict_inv B K d" using ok(1) D(1) by (simp add: dict_inv_def)
  then show "map_ok B K w" using D(1,4) fns(3) e by (simp add: map_ok_def)
qed

lemma more_server:
  fixes w w' :: "'w server"
  assumes "nworld.more w' = nworld.more w"
  shows "ep_items w' = ep_items w" "ep_next w' = ep_next w" "ep_fd w' = ep_fd w" "ep_amount w' = ep_amount w"
    "ep_dest_count w' = ep_dest_count w" "ep_dest w' = ep_dest w" "sv_stream w' = sv_stream w"
    "sv_map w' = sv_map w" "sv_sess w' = sv_sess w" "sv_next w' = sv_next w" "sv_sid w' = sv_sid w"
  using assms by (cases w; cases w'; simp)+

lemma open_server_ok:
  fixes w :: "'w server"
  assumes w: "nw_reg w = Map.empty" "-1 \<notin> nw_open w" "dest_ok w" "ep_items w = Map.empty" "sv_sess w = Map.empty" "0 < sv_next w" "map_ok B K w"
    and pos: "sockets_positive (ve_net env)"
    and run: "ripc_open_server env w = Some (w', rcode_ok)" "sv_stream w = None" "sv_stream w' = Some l"
  shows "server_ok B K (sk_fd l, sk_item l) (w'\<lparr>ep_dest_count := Some 0\<rparr>) \<and> sv_sess w' = Map.empty \<and>
    ep_dest_count w' = ep_dest_count w \<and> sv_sid w' = sv_sid w \<and> 0 < sk_fd l"
proof -
  let ?net = "ve_net env"
  obtain fams where fams: "ve_addrs env (nw_tick w) = Ret fams"
    using run more_server(7) [OF tick_more, of w] by (cases "ve_addrs env (nw_tick w)") (auto simp: ripc_open_server_def Let_def split: if_splits)
  obtain w1 s1 rc where b: "bind_addrs ?net fams AF_INET rcode_ok (tick w) (new_socket ?net) = (w1, s1, rc)"
    by (metis prod_cases3)
  have "socket_ok (tick w) (new_socket ?net)" using w by (simp add: socket_ok_def new_socket_def)
  from bind_addrs_ok [OF pos b this] have 1: "net_same (tick w) w1" "socket_ok w1 s1" by auto
  obtain w2 r2 where li: "rsocket_listen ?net (fst (rsocket_setblocking w1 s1)) s1 = (w2, r2)" by fastforce
  have 2: "net_same (tick w) w2" "socket_ok w2 s1" "r2 = rcode_ok \<longrightarrow> sk_fd s1 \<in> nw_open w2"
    using li 1 by (auto simp: rsocket_listen_def rsocket_setblocking_def net_same_def socket_ok_def split: if_splits)
  obtain w3 s3 r3 where o1: "rsocket_setopt ?net w2 s1 RSO_NONBLOCK True = (w3, s3, r3)" by (metis prod_cases3)
  obtain w4 s4 r4 where o2: "rsocket_setopt ?net w3 s3 RTCP_NODELAY True = (w4, s4, r4)" by (metis prod_cases3)
  have 4: "net_same (tick w) w4" "sk_fd s4 = sk_fd s1" "nw_reg w4 = Map.empty"
    using setopt_same [OF o1] setopt_same [OF o2] 2 w(1) by (auto simp: net_same_def)
  have gone: "nworld.more v = nworld.more w \<Longrightarrow> sv_stream (fst (rsocket_close v u)) = None" for v :: "'w server" and u
    using run(2) more_server(7) [of v w] by (simp add: rsocket_close_def sys_close_def tick_def)
  have m: "nworld.more w1 = nworld.more w" "nworld.more w2 = nworld.more w" "nworld.more w3 = nworld.more w" "nworld.more w4 = nworld.more w"
    using 1(1) 2(1) 4(1) setopt_same [OF o1] by (simp_all add: net_same_def)
  have open_run: "ripc_open_server env w =
      (if rc \<noteq> rcode_ok then Some (fst (rsocket_close w1 s1), rc)
       else if r2 \<noteq> rcode_ok then Some (fst (rsocket_close w2 s1), r2)
       else if r3 \<noteq> rcode_ok then Some (fst (rsocket_close w3 s3), r2)
       else if r4 \<noteq> rcode_ok then Some (fst (rsocket_close w4 s4), r2)
       else do {
         (w6, ret1) \<leftarrow> repoll_add ?net (w4\<lparr>ep_next := ep_next w4 + 1, ep_items := (ep_items w4)(ep_next w4 \<mapsto>
           \<lparr>ri_fd = sk_fd s4, ri_req = repoll_set_event_all 0, ri_rsp = 0, ri_ds = server_addr\<rparr>)\<rparr>) (Item (ep_next w4));
         if ret1 \<noteq> rcode_ok
         then Some ((fst (rsocket_close w6 s4))\<lparr>ep_items := (ep_items w6)(ep_next w4 := None)\<rparr>, ret1)
         else Some (server_state ripc_state_ready
           (w6\<lparr>sv_stream := Some (s4\<lparr>sk_item := ep_next w4\<rparr>), sv_stream_live := True\<rparr>), rcode_ok)
       })"
    using fams b li o1 o2 by (simp add: ripc_open_server_def Let_def)
  have ok: "rc = rcode_ok" "r2 = rcode_ok" "r3 = rcode_ok" "r4 = rcode_ok"
    using run(1,3) gone [OF m(1)] gone [OF m(2)] gone [OF m(3)] gone [OF m(4)] unfolding open_run by (auto split: if_splits)
  define it where "it = \<lparr>ri_fd = sk_fd s4, ri_req = repoll_set_event_all 0, ri_rsp = 0, ri_ds = server_addr\<rparr>"
  define v where "v = w4\<lparr>ep_next := ep_next w4 + 1, ep_items := (ep_items w4)(ep_next w4 \<mapsto> it)\<rparr>"
  obtain w6 r6 where c: "sys_epoll_ctl ?net v (ep_fd v) EPOLL_CTL_ADD (ri_fd it) (ucast (repoll_get_event_req (ri_req it))) (Item (ep_next w4)) = (w6, r6)"
    by fastforce
  have add: "repoll_add ?net v (Item (ep_next w4)) = Some (w6, r6)"
    using c by (simp add: repoll_add_def repoll_ctl_def item_at_def v_def)
  from ctl_shape [OF c] obtain reg where w6: "w6 = v\<lparr>nw_tick := Suc (nw_tick v), nw_reg := reg\<rparr>" by blast
  have "sv_stream w6 = None" using more_server(7) [OF m(4)] run(2) by (simp add: w6 v_def)
  then have r6: "r6 = rcode_ok"
    using run(1,3) add unfolding open_run it_def [symmetric] v_def [symmetric]
    by (auto simp: ok rsocket_close_def sys_close_def tick_def split: if_splits)
  have w': "w' = server_state ripc_state_ready (w6\<lparr>sv_stream := Some (s4\<lparr>sk_item := ep_next w4\<rparr>), sv_stream_live := True\<rparr>)"
    using run(1) add unfolding open_run it_def [symmetric] v_def [symmetric] by (simp add: ok r6)
  have l: "l = s4\<lparr>sk_item := ep_next w4\<rparr>" using run(3) by (simp add: w' server_state_def)
  have fd: "0 < sk_fd s4" using 2(2,3) ok(2) 4(2) by (auto simp: socket_ok_def)
  have reg: "reg_ok w6" by (rule reg_ok_ctl [OF c]) (simp_all add: v_def reg_ok_def 4(3))
  define u where "u = w'\<lparr>ep_dest_count := Some 0\<rparr>"
  have f: "ep_items u = [ep_next w \<mapsto> it]" "ep_next u = ep_next w + 1" "ep_amount u = ep_amount w" "ep_dest u = ep_dest w"
    "ep_dest_count u = Some 0" "sv_stream u = Some l" "sv_stream_live u" "sv_map u = sv_map w" "sv_sess u = Map.empty"
    "sv_next u = sv_next w" "nw_reg u = nw_reg w6"
    unfolding u_def w' using w(4,5) more_server [OF m(4)] by (simp_all add: server_state_def w6 v_def l)
  have "reg_ok u" using reg by (simp add: u_def w' server_state_def reg_ok_def)
  moreover have "dest_ok u" using w(3) by (simp add: dest_ok_def f)
  moreover have "items_ok (sk_fd l, sk_item l) u"
    using fd more_server(2) [OF m(4)] by (simp add: items_ok_def f it_def l)
  moreover have "map_ok B K u" using w(7) by (simp add: map_ok_def f w(5))
  ultimately have "server_ok B K (sk_fd l, sk_item l) u" using w(6) by (simp add: server_ok_def f)
  moreover have "sv_sess w' = Map.empty" "ep_dest_count w' = ep_dest_count w" "sv_sid w' = sv_sid w"
    unfolding w' using w(5) more_server [OF m(4)] by (simp_all add: server_state_def w6 v_def)
  ultimately show ?thesis using fd by (simp add: u_def l)
qed

section \<open>The life of a server\<close>

text \<open>
  From the creation of the container to a started server, then rounds, messages to sessions and
  sessions that are given up, in any order.  A round is made while ten more ids below \<open>m\<close> are left, the most
  it can use up.  \<open>fl\<close> is the listening socket: its descriptor and its item.
\<close>

inductive server_run ::
  "'w server_env \<Rightarrow> (ripc_data_default \<Rightarrow> bool) \<Rightarrow> nat \<Rightarrow> 'w server \<Rightarrow> int \<times> int \<Rightarrow> 'w server \<Rightarrow> bool"
  for env :: "'w server_env" and good :: "ripc_data_default \<Rightarrow> bool" and m :: nat and v :: "'w server"
where
  opened: "fresh_server v \<Longrightarrow> repoll_create (ve_net env) v sz = (w0, rcode_ok) \<Longrightarrow> ripc_init_server env w0 = Some (w1, rcode_ok) \<Longrightarrow>
    sv_map w1 = Some d \<Longrightarrow> d_entry d \<noteq> None \<Longrightarrow> ripc_open_server env w1 = Some (w2, rcode_ok) \<Longrightarrow> sv_stream w2 = Some l \<Longrightarrow>
    server_run env good m v (sk_fd l, sk_item l) (fst (ripc_start_server w2))"
| checked: "server_run env good m v fl w \<Longrightarrow> unat (sv_sid w) + 10 \<le> m \<Longrightarrow> ripc_check_data_server env w = Some (w', r) \<Longrightarrow>
    server_run env good m v fl w'"
| sent: "server_run env good m v fl w \<Longrightarrow> sv_sess w a \<noteq> None \<Longrightarrow> good msg \<Longrightarrow>
    ripc_send_data_2buffer_server env w a msg = Some (w', msg', r) \<Longrightarrow> server_run env good m v fl w'"
| dropped: "server_run env good m v fl w \<Longrightarrow> sv_sess w a \<noteq> None \<Longrightarrow> ripc_on_error_server env w a = Some (w', r) \<Longrightarrow>
    server_run env good m v fl w'"

text \<open>The surroundings: what the system and the allocator are documented to do, and handlers that work on
  the buffers of the session they are called for.\<close>

definition server_surroundings :: "nat \<Rightarrow> 'w server_env \<Rightarrow> bool" where
  "server_surroundings B env \<longleftrightarrow> env_ok B (ve_dict env) \<and> length (ve_block env) = 65536 \<and> clock_runs (ve_net env) \<and>
    accepts_descriptors (ve_net env) \<and> epoll_answers (ve_net env) \<and> sockets_positive (ve_net env) \<and>
    (\<forall>h. ve_in env = Some h \<longrightarrow> (\<exists>p. h = session_handler p \<and> reads_only p))"

lemma surroundings_env: "server_surroundings B env \<Longrightarrow> server_env_ok B K fl env"
  by (auto simp: server_surroundings_def server_env_ok_def intro: session_handler_ok)

text \<open>Before its first round the server has not polled: nobody has set the number of results.\<close>

definition serving :: "nat \<Rightarrow> 64 word set \<Rightarrow> int \<times> int \<Rightarrow> 'w server \<Rightarrow> bool" where
  "serving B K fl w \<longleftrightarrow> server_ok B K fl w \<or>
    ep_dest_count w = None \<and> sv_sess w = Map.empty \<and> server_ok B K fl (w\<lparr>ep_dest_count := Some 0\<rparr>)"

lemma poll_copy_count:
  "poll_copy i evs (w\<lparr>ep_dest_count := c\<rparr>) = map_option (\<lambda>w. w\<lparr>ep_dest_count := c\<rparr>) (poll_copy i evs w)"
proof (induction i evs w rule: poll_copy.induct)
  case (2 i ev p evs w)
  have at: "item_at (w\<lparr>ep_dest_count := c\<rparr>) p = item_at w p" by (simp add: item_at_def split: item_ptr.split)
  show ?case
  proof (cases "item_at w p")
    case (Some it)
    define D where "D = (ep_dest w)[i := Some (it\<lparr>ri_rsp := repoll_get_event_rsp (ucast ev)\<rparr>)]"
    have swap: "w\<lparr>ep_dest_count := c, ep_dest := D\<rparr> = w\<lparr>ep_dest := D, ep_dest_count := c\<rparr>" by simp
    have l: "poll_copy i ((ev, p) # evs) (w\<lparr>ep_dest_count := c\<rparr>) = poll_copy (Suc i) evs (w\<lparr>ep_dest_count := c, ep_dest := D\<rparr>)"
      using at Some by (simp add: D_def)
    have r: "poll_copy i ((ev, p) # evs) w = poll_copy (Suc i) evs (w\<lparr>ep_dest := D\<rparr>)" using Some by (simp add: D_def)
    show ?thesis unfolding l r swap using "2.IH" [OF Some] unfolding D_def .
  qed (use at in simp)
qed simp

lemma poll_count: "repoll_poll env (w\<lparr>ep_dest_count := c\<rparr>) = repoll_poll env w"
proof -
  have s: "sys_epoll_wait env (w\<lparr>ep_dest_count := c\<rparr>) (ep_fd w) (ep_amount w) =
      (case sys_epoll_wait env w (ep_fd w) (ep_amount w) of (w1, a) \<Rightarrow> (w1\<lparr>ep_dest_count := c\<rparr>, a))"
  proof -
    have "ready_events (w\<lparr>ep_dest_count := c\<rparr>) = ready_events w" by (simp add: ready_events_def fun_eq_iff)
    then show ?thesis by (simp add: sys_epoll_wait_def tick_def cong: answer.case_cong)
  qed
  obtain w1 a where a: "sys_epoll_wait env w (ep_fd w) (ep_amount w) = (w1, a)" by fastforce
  show ?thesis
  proof (cases a)
    case (Ret evs)
    have "poll_copy 0 evs (w1\<lparr>ep_dest_count := c\<rparr>) = map_option (\<lambda>w. w\<lparr>ep_dest_count := c\<rparr>) (poll_copy 0 evs w1)"
      by (rule poll_copy_count)
    then show ?thesis using s a Ret by (cases "poll_copy 0 evs w1") (simp_all add: repoll_poll_def)
  qed (use s a in \<open>simp add: repoll_poll_def\<close>)
qed

lemma check_count: "ripc_check_data_server env (w\<lparr>ep_dest_count := c\<rparr>) = ripc_check_data_server env w"
  by (simp add: ripc_check_data_server_def poll_count)

lemma serving_check:
  fixes w :: "'w server"
  assumes w: "serving B K fl w" and env: "server_env_ok B K fl env" and ids: "ids_upto K m" "unat (sv_sid w) + 10 \<le> m"
    and wt: "waits_ok (fst fl) (ve_net env)"
  obtains w' r where "ripc_check_data_server env w = Some (w', r)" "server_ok B K fl w'"
proof -
  from w have "\<exists>u. server_ok B K fl u \<and> ripc_check_data_server env u = ripc_check_data_server env w \<and> sv_sid u = sv_sid w"
    unfolding serving_def
  proof
    assume "ep_dest_count w = None \<and> sv_sess w = Map.empty \<and> server_ok B K fl (w\<lparr>ep_dest_count := Some 0\<rparr>)"
    then show ?thesis by (intro exI [of _ "w\<lparr>ep_dest_count := Some 0\<rparr>"]) (simp add: check_count)
  qed blast
  then obtain u where u: "server_ok B K fl u" "ripc_check_data_server env u = ripc_check_data_server env w" "sv_sid u = sv_sid w"
    by blast
  obtain w' r where "ripc_check_data_server env u = Some (w', r)" "server_ok B K fl w'"
    using check_data_server_ok [OF u(1) env ids(1) _ wt] ids(2) u(3) by metis
  then show thesis using u(2) that by simp
qed

lemma serving_session: "serving B K fl w \<Longrightarrow> sv_sess w a \<noteq> None \<Longrightarrow> server_ok B K fl w"
  by (auto simp: serving_def)

lemma run_serving:
  assumes env: "server_surroundings B env" and t: "server_table_ok B K" and ids: "ids_upto K m"
    and out: "\<And>p. ve_out env = Some p \<Longrightarrow> writes_only p good"
  shows "server_run env good m v fl w \<Longrightarrow> waits_ok (fst fl) (ve_net env) \<Longrightarrow> serving B K fl w"
proof (induction rule: server_run.induct)
  case (opened sz w0 w1 d w2 l)
  have E: "epoll_answers (ve_net env)" "sockets_positive (ve_net env)" "env_ok B (ve_dict env)"
    using env by (simp_all add: server_surroundings_def)
  have V: "nw_reg v = Map.empty" "-1 \<notin> nw_open v" "ep_dest_count v = None" "ep_items v = Map.empty" "sv_sess v = Map.empty" "0 < sv_next v"
    using opened.hyps(1) by (simp_all add: fresh_server_def)
  note c = create_container [OF V(1-3) opened.hyps(2) E(1)]
  have more: "sv_sess w0 = sv_sess v" "sv_next w0 = sv_next v" using c(6) by (cases v; cases w0; simp)+
  have w1: "w1 = w0\<lparr>sv_map := Some d, sv_stream := None\<rparr>"
    by (rule init_map(2) [OF opened.hyps(3) t E(3) opened.hyps(4,5), of "w0\<lparr>sv_map := Some d, sv_sess := Map.empty\<rparr>"]) simp_all
  have m: "map_ok B K w1"
    by (rule init_map(1) [OF opened.hyps(3) t E(3) opened.hyps(4,5)]) (use more V(5) in \<open>simp_all add: w1\<close>)
  have "dest_ok w1" by (rule dest_ok_cong [OF _ _ _ c(3)]) (simp_all add: w1)
  then have o: "server_ok B K (sk_fd l, sk_item l) (w2\<lparr>ep_dest_count := Some 0\<rparr>)" "sv_sess w2 = Map.empty" "ep_dest_count w2 = ep_dest_count w1"
    using open_server_ok [OF _ _ _ _ _ _ m E(2) opened.hyps(6) _ opened.hyps(7)] c more V by (simp_all add: w1)
  define u where "u = fst (ripc_start_server w2)"
  have u: "u = w2\<lparr>sv_ds := (sv_ds w2)\<lparr>ds_state := ripc_state_start\<rparr>\<rparr>" by (simp add: u_def ripc_start_server_def server_state_def)
  have "serves B K (sk_fd l, sk_item l) {} (w2\<lparr>ep_dest_count := Some 0\<rparr>) (u\<lparr>ep_dest_count := Some 0\<rparr>)"
    by (rule serves_frame [OF o(1)])
      (use server_okD(1) [OF o(1)] o(2) in \<open>simp_all add: u item_sig_def sess_sig_def reg_ok_def fun_eq_iff\<close>)
  then show ?case unfolding u_def [symmetric] using o(2,3) c(4) by (simp add: serving_def serves_def u w1)
next
  case (checked fl w w' r)
  from serving_check [OF checked.IH [OF checked.prems] surroundings_env [OF env] ids checked.hyps(2) checked.prems] checked.hyps(3)
  show ?case by (fastforce simp: serving_def)
next
  case (sent fl w a msg w' msg' r)
  then obtain s where s: "sv_sess w a = Some s" by blast
  have "server_ok B K fl w" using serving_session [OF sent.IH [OF sent.prems] sent.hyps(2)] .
  from send_2buffer_serves [OF this s out sent.hyps(3)] obtain u q z where
    "ripc_send_data_2buffer_server env w a msg = Some (u, q, z)" "serves B K fl {} w u" by metis
  then show ?case using sent.hyps(4) by (simp add: serving_def serves_def)
next
  case (dropped fl w a w' r)
  then obtain s where s: "sv_sess w a = Some s" by blast
  have "server_ok B K fl w" using serving_session [OF dropped.IH [OF dropped.prems] dropped.hyps(2)] .
  from close_serves [OF this s, of env] obtain u where
    "ripc_on_error_server env w a = Some (u, rcode_ok)" "serves B K fl {a} w u" by metis
  then show ?case using dropped.hyps(3) by (simp add: serving_def serves_def)
qed


section \<open>A concrete server\<close>

text \<open>One client connects in the first round; every round reports the listening socket readable.\<close>

definition demo_server_net :: net_env where
  "demo_server_net = \<lparr>ne_clock = (\<lambda>t. 1000 * int t), ne_epoll = (\<lambda>_. Ret 3), ne_fcntl = (\<lambda>_. 0), ne_ctl = (\<lambda>_. 0),
    ne_wait = (\<lambda>_. Ret [(4, 1)]), ne_socket = (\<lambda>_. Ret 4), ne_accept = (\<lambda>t. if t = 11 then Ret 5 else Err EAGAIN), ne_bind = (\<lambda>_. 0),
    ne_listen = (\<lambda>_. 0), ne_connect = (\<lambda>_. 0), ne_sockopt = (\<lambda>_. 0),
    ne_send = (\<lambda>_. Ret 20), ne_recv = (\<lambda>_. Err EAGAIN), ne_behind = 0, ne_junk = 0\<rparr>"

definition demo_server_env :: "int server_env" where
  "demo_server_env = \<lparr>ve_net = demo_server_net, ve_addrs = (\<lambda>_. Ret [AF_INET]), ve_res_null = True,
    ve_block = replicate 65536 0, ve_dict = \<lparr>de_calloc = (\<lambda>n. n \<le> 2 ^ 28), de_malloc_entry = True\<rparr>,
    ve_family = (\<lambda>_. AF_INET), ve_out = Some (encode_process None),
    ve_in = Some (session_handler (\<lambda>ds n app. Some (ds, app + uint n, rcode_err_ok)))\<rparr>"

definition demo_server :: "int server" where
  "demo_server = \<lparr>nw_tick = 0, nw_open = {0}, nw_nonblock = {}, nw_reg = Map.empty, nw_out = (\<lambda>_. []), nw_opts = [],
    ep_items = Map.empty, ep_next = 1, ep_fd = 0, ep_amount = 0, ep_dest_count = None, ep_dest = [],
    sv_ds = \<lparr>ds_id = 0, ds_type = ripc_data_source_type_server, ds_state = ripc_state_init,
      ds_read_cache = None, ds_write_buff = None\<rparr>,
    sv_stream = None, sv_stream_live = False, sv_map = None, sv_sess = Map.empty, sv_next = 1, sv_sid = 0, sv_app = 0\<rparr>"

lemma demo_server_env_ok: "server_surroundings (2 ^ 28) demo_server_env"
proof -
  have "\<exists>k>t. c \<le> 1000 * int k" for c t
    by (rule exI [of _ "nat (max 0 c) + Suc t"]) auto
  then have "clock_runs demo_server_net" by (simp add: clock_runs_def demo_server_net_def)
  moreover have "reads_only (\<lambda>ds n app. Some (ds, app + uint n, rcode_err_ok))"
    unfolding reads_only_def
  proof (intro allI impI)
    fix ds :: ripc_data_source and n :: "32 word" and app b
    assume "ds_read_cache ds = Some b \<and> rbuffer_inv b \<and> rb_pos b + uint n \<le> rb_capacity b"
    then show "\<exists>c app' r. Some (ds, app + uint n, rcode_err_ok) = Some (ds\<lparr>ds_read_cache := Some c\<rparr>, app', r) \<and> rbuffer_inv c"
      by (intro exI [of _ b] exI [of _ "app + uint n"] exI [of _ 0]) (cases ds, simp)
  qed
  ultimately show ?thesis
    by (auto simp: server_surroundings_def demo_server_env_def epoll_answers_def sockets_positive_def accepts_descriptors_def
      env_ok_def demo_server_net_def)
qed

text \<open>Twenty ids; none of them is in the last bucket of a table of 125 buckets or more.\<close>

definition demo_ids :: "64 word set" where
  "demo_ids = {k. 0 < unat k \<and> unat k \<le> 20}"

lemma demo_ids_ok: "ids_upto demo_ids 20" "server_table_ok (2 ^ 28) demo_ids"
proof -
  show "ids_upto demo_ids 20" by (simp add: ids_upto_def demo_ids_def)
  have fin: "finite demo_ids" by simp
  have "card {k \<in> demo_ids. home (\<lambda>k. k) n k = n - 1} < 16" if "125 \<le> n" for n
  proof -
    have "{k \<in> demo_ids. home (\<lambda>k. k) n k = n - 1} = {}" using that by (auto simp: home_def demo_ids_def)
    then show ?thesis by (metis card.empty zero_less_numeral)
  qed
  then have "spread (\<lambda>k. k) demo_ids 16 125 (2 ^ 28)" using fin unfolding spread_def by blast
  then show "server_table_ok (2 ^ 28) demo_ids" by (simp add: server_table_ok_def)
qed

definition demo_sessions :: "(64 word, int) rdict" where
  "demo_sessions = session_fns\<lparr>d_entry := Some (replicate 2672 empty_entry), d_capacity := 2672, d_buckets := 167,
    d_bucket_capacity := 16\<rparr>"

lemma demo_sessions_scale: "scale_capacity 2000 = 2666"
  by (simp add: scale_capacity_def round_f32_def)

text \<open>After \<open>open\<close>.\<close>

definition demo_open :: "int server" where
  "demo_open = demo_server\<lparr>nw_tick := 10, nw_open := {0, 3, 4}, nw_nonblock := {4}, nw_reg := [4 \<mapsto> (7, Item 1)],
    nw_opts := [(4, TCP_NODELAY, [1]), (4, SO_REUSEADDR, [1])],
    ep_items := [1 \<mapsto> \<lparr>ri_fd = 4, ri_req = 0x17, ri_rsp = 0, ri_ds = 0\<rparr>], ep_next := 2, ep_fd := 3, ep_amount := 2,
    ep_dest := [None, None], sv_map := Some demo_sessions, sv_stream := Some \<lparr>sk_fd = 4, sk_options = 0x118, sk_item = 1\<rparr>,
    sv_stream_live := True, sv_ds := (sv_ds demo_server)\<lparr>ds_state := ripc_state_ready\<rparr>\<rparr>"

lemma demo_server_opens:
  "\<exists>w0 w1. repoll_create (ve_net demo_server_env) demo_server 2 = (w0, rcode_ok) \<and>
    ripc_init_server demo_server_env w0 = Some (w1, rcode_ok) \<and> sv_map w1 = Some demo_sessions \<and>
    ripc_open_server demo_server_env w1 = Some (demo_open, rcode_ok)"
proof -
  let ?e = demo_server_env and ?n = demo_server_net
  have two: "replicate 2 x = [x, x]" for x :: "repoll_item option" by (simp add: numeral_2_eq_2)
  define w0 where "w0 = demo_server\<lparr>nw_tick := 3, nw_open := {0, 3}, ep_fd := 3, ep_amount := 2, ep_dest := [None, None]\<rparr>"
  have create: "repoll_create (ve_net ?e) demo_server 2 = (w0, rcode_ok)"
    by (simp add: repoll_create_def sys_open_def demo_server_env_def demo_server_net_def demo_server_def tick_def Let_def
      fun_eq_iff w0_def insert_commute two)
  have dict: "rdict_create (ve_dict ?e) session_fns 2000 16 = Some demo_sessions"
    unfolding rdict_create_def
    by (subst expand_buckets.simps)
      (simp add: demo_sessions_scale demo_server_env_def demo_sessions_def session_fns_def Let_def)
  define w1 where "w1 = w0\<lparr>sv_map := Some demo_sessions\<rparr>"
  have init: "ripc_init_server ?e w0 = Some (w1, rcode_ok)"
    using dict by (simp add: ripc_init_server_def w1_def w0_def demo_server_def)
  define s where "s = \<lparr>sk_fd = 4, sk_options = RSO_REUSEADDR, sk_item = 0\<rparr>"
  define w2 where "w2 = w1\<lparr>nw_tick := 6, nw_open := {0, 3, 4}, nw_opts := [(4, SO_REUSEADDR, [1])]\<rparr>"
  have sock: "rsocket_create ?n (tick w1) \<lparr>sk_fd = -1, sk_options = 0, sk_item = 0\<rparr> = (w2, s, rcode_ok)"
    by (simp add: rsocket_create_def sys_open_def rsocket_setopt_def setopt_switch_def sys_setsockopt_def Let_def
      rsocket_check_option_def rsocket_set_option_def demo_server_net_def tick_def w2_def w1_def w0_def s_def demo_server_def
      insert_commute fun_eq_iff)
  define w3 where "w3 = w2\<lparr>nw_tick := 7\<rparr>"
  have bind: "bind_addrs ?n [AF_INET] AF_INET rcode_ok (tick w1) (new_socket ?n) = (w3, s, rcode_ok)"
    using sock by (simp add: new_socket_def rsocket_close_def rsocket_bind_def rsocket_setblocking_def s_def w3_def w2_def w1_def w0_def
      demo_server_def tick_def demo_server_net_def)
  define w4 where "w4 = w2\<lparr>nw_tick := 8\<rparr>"
  have listen: "rsocket_listen ?n (fst (rsocket_setblocking w3 s)) s = (w4, rcode_ok)"
    by (simp add: rsocket_listen_def rsocket_setblocking_def s_def w4_def w3_def w2_def w1_def w0_def demo_server_def tick_def demo_server_net_def)
  define s5 where "s5 = s\<lparr>sk_options := 0x18\<rparr>"
  define w5 where "w5 = w4\<lparr>nw_nonblock := {4}\<rparr>"
  have opt1: "rsocket_setopt ?n w4 s RSO_NONBLOCK True = (w5, s5, rcode_ok)"
    by (simp add: rsocket_setopt_def setopt_switch_def rsocket_setnonblocking_def Let_def rsocket_check_option_def rsocket_set_option_def
      w5_def w4_def w3_def w2_def w1_def w0_def demo_server_def s5_def s_def)
  define s6 where "s6 = s\<lparr>sk_options := 0x118\<rparr>"
  define w6 where "w6 = w5\<lparr>nw_tick := 9, nw_opts := [(4, TCP_NODELAY, [1]), (4, SO_REUSEADDR, [1])]\<rparr>"
  have opt2: "rsocket_setopt ?n w5 s5 RTCP_NODELAY True = (w6, s6, rcode_ok)"
    by (simp add: rsocket_setopt_def setopt_switch_def sys_setsockopt_def Let_def rsocket_check_option_def rsocket_set_option_def
      demo_server_net_def tick_def flag_at_on_def w6_def w5_def w4_def w3_def w2_def w1_def w0_def demo_server_def s6_def s5_def s_def)
  define it where "it = \<lparr>ri_fd = 4, ri_req = 0x17 :: 16 word, ri_rsp = 0, ri_ds = 0\<rparr>"
  define w7 where "w7 = w6\<lparr>nw_tick := 10, nw_reg := [4 \<mapsto> (7, Item 1)], ep_next := 2, ep_items := [1 \<mapsto> it]\<rparr>"
  have add: "repoll_add ?n (w6\<lparr>ep_next := 2, ep_items := [1 \<mapsto> it]\<rparr>) (Item 1) = Some (w7, rcode_ok)"
    by (simp add: repoll_add_def repoll_ctl_def item_at_def sys_epoll_ctl_def Let_def demo_server_net_def tick_def it_def
      repoll_get_event_req_def w7_def w6_def w5_def w4_def w3_def w2_def w1_def w0_def demo_server_def fun_eq_iff)
  have last: "server_state ripc_state_ready (w7\<lparr>sv_stream := Some (s6\<lparr>sk_item := 1\<rparr>), sv_stream_live := True\<rparr>) = demo_open"
    by (simp add: demo_open_def server_state_def w7_def w6_def w5_def w4_def w3_def w2_def w1_def w0_def demo_server_def s6_def s_def it_def)
  have f: "ep_next w6 = 1" "ep_items w6 = Map.empty" "sk_fd s6 = 4" "ve_net ?e = ?n" "ve_addrs ?e t = Ret [AF_INET]" for t
    by (simp_all add: w6_def w5_def w4_def w3_def w2_def w1_def w0_def demo_server_def s6_def s_def demo_server_env_def)
  have itm: "\<lparr>ri_fd = 4, ri_req = repoll_set_event_all 0, ri_rsp = 0, ri_ds = 0\<rparr> = it"
    by (simp add: it_def repoll_set_event_all_def)
  have "ripc_open_server ?e w1 = Some (demo_open, rcode_ok)"
    using bind listen opt1 opt2 add by (simp add: ripc_open_server_def Let_def f itm last del: bind_addrs.simps)
  moreover have "sv_map w1 = Some demo_sessions" by (simp add: w1_def)
  ultimately show ?thesis using create init by blast
qed
text \<open>The started server, and the one its first round leaves: a session with the id 1.\<close>

definition demo_on :: "int server" where
  "demo_on = fst (ripc_start_server demo_open)"

definition demo_table :: "(64 word, int) rdict" where
  "demo_table = add_at demo_sessions (replicate 2672 empty_entry) 16 1 (Some 1)"

definition demo_session :: session where
  "demo_session = (let b = \<lparr>rb_data = replicate 65536 0, rb_offset = 0, rb_pos = 0, rb_capacity = 65536\<rparr> in
    \<lparr>ss_ds = \<lparr>ds_id = 1, ds_type = ripc_data_source_type_session, ds_state = ripc_state_start,
       ds_read_cache = Some b, ds_write_buff = Some b\<rparr>, ss_stream = Some \<lparr>sk_fd = 5, sk_options = 0x108, sk_item = 2\<rparr>\<rparr>)"

definition demo_served :: "int server" where
  "demo_served = demo_on\<lparr>nw_tick := 15, nw_open := {0, 3, 4, 5}, nw_nonblock := {4, 5}, nw_reg := [4 \<mapsto> (7, Item 1), 5 \<mapsto> (1, Item 2)],
    nw_opts := [(5, TCP_NODELAY, [1]), (4, TCP_NODELAY, [1]), (4, SO_REUSEADDR, [1])],
    ep_items := [1 \<mapsto> \<lparr>ri_fd = 4, ri_req = 0x17, ri_rsp = 0, ri_ds = 0\<rparr>, 2 \<mapsto> \<lparr>ri_fd = 5, ri_req = 0x11, ri_rsp = 0, ri_ds = 1\<rparr>],
    ep_next := 3, ep_dest_count := Some 1, ep_dest := [Some \<lparr>ri_fd = 4, ri_req = 0x17, ri_rsp = 1, ri_ds = 0\<rparr>, None],
    sv_map := Some demo_table, sv_sess := [1 \<mapsto> demo_session], sv_next := 2, sv_sid := 1\<rparr>"

lemma demo_accepts:
  "\<exists>w1. repoll_poll demo_server_net demo_on = Some (w1, rcode_ok) \<and> ep_dest_count w1 = Some 1 \<and>
    item_at w1 (Dest 0) = Some \<lparr>ri_fd = 4, ri_req = 0x17, ri_rsp = 1, ri_ds = 0\<rparr> \<and> ds_state (sv_ds w1) = ripc_state_start \<and>
    (\<exists>w2. ripc_accept_server demo_server_env w1 = Some (w2, rcode_ok) \<and> ripc_accept_server demo_server_env w2 = Some (demo_served, rcode_invalid))"
proof -
  let ?e = demo_server_env and ?n = demo_server_net
  have ev: "ve_net ?e = ?n" "ve_family ?e t = AF_INET" for t by (simp_all add: demo_server_env_def)
  define it where "it = \<lparr>ri_fd = 4, ri_req = 0x17 :: 16 word, ri_rsp = 1, ri_ds = 0\<rparr>"
  define w1 where "w1 = demo_on\<lparr>nw_tick := 11, ep_dest := [Some it, None], ep_dest_count := Some 1\<rparr>"
  have poll: "repoll_poll ?n demo_on = Some (w1, rcode_ok)"
    by (simp add: repoll_poll_def sys_epoll_wait_def ready_events_def Let_def demo_server_net_def tick_def item_at_def
      repoll_get_event_rsp_def w1_def demo_on_def ripc_start_server_def server_state_def demo_open_def demo_server_def it_def)
  define s where "s = \<lparr>sk_fd = 5, sk_options = 0, sk_item = 0\<rparr>"
  define w2 where "w2 = w1\<lparr>nw_tick := 12, nw_open := {0, 3, 4, 5}\<rparr>"
  let ?l = "\<lparr>sk_fd = 4, sk_options = 0x118, sk_item = 1\<rparr>"
  have acc: "rsocket_accept ?n w1 ?l (new_socket ?n) tm = Some (w2, s, rcode_io_done)" for tm
    by (subst rsocket_accept_def, subst accept_loop.simps)
      (simp add: sys_open_def demo_server_net_def w1_def w2_def demo_on_def ripc_start_server_def server_state_def demo_open_def demo_server_def
        tick_def new_socket_def s_def fun_eq_iff insert_commute)
  have none: "rsocket_accept ?n v ?l (new_socket ?n) (timer_millisec ?n v 3) = Some (tick v, new_socket ?n, rcode_io_done)"
    if "nw_tick v = 14" for v :: "int server"
    by (subst rsocket_accept_def, subst accept_loop.simps)
      (use that in \<open>simp add: sys_open_def demo_server_net_def new_socket_def now_def timer_millisec_def rtimeout_begin_def
        rtimeout_init_millisec_def rtimeout_init_microsec_def rtimeout_done_def rtimeout_get_total_def\<close>)
  let ?b = "\<lparr>rb_data = replicate 65536 0, rb_offset = 0, rb_pos = 0, rb_capacity = 65536\<rparr>"
  define c where "c = \<lparr>ss_ds = \<lparr>ds_id = 1, ds_type = ripc_data_source_type_session, ds_state = ripc_state_unknown,
       ds_read_cache = Some ?b, ds_write_buff = Some ?b\<rparr>, ss_stream = None\<rparr>"
  define w3 where "w3 = w2\<lparr>sv_next := 2, sv_sid := 1, sv_map := Some demo_table, sv_sess := [1 \<mapsto> c]\<rparr>"
  have "add_key (ve_dict ?e) demo_sessions 1 (Some 1) = Some (demo_table, rcode_ok)"
    by (subst add_key.simps)
      (simp add: demo_sessions_def session_fns_def find_bucket_def find_bucket_raw_def scan.simps empty_entry_def Let_def demo_table_def)
  then have "rdict_add (ve_dict ?e) (Some demo_sessions) (id_key 1) (Some 1) = Some (Some demo_table, rcode_ok)"
    by (simp add: rdict_add_def id_key_def)
  moreover have "sv_map w2 = Some demo_sessions" "sv_next w2 = 1" "sv_sid w2 = 0" "sv_sess w2 = Map.empty"
    by (simp_all add: w2_def w1_def demo_on_def ripc_start_server_def server_state_def demo_open_def demo_server_def)
  moreover have "rbuffer_create (ve_block ?e) buffer_bytes = Some ?b"
    by (simp add: rbuffer_create_def demo_server_env_def)
  ultimately have new: "new_session ?e w2 = Some (w3, 1)"
    by (simp add: new_session_def Let_def w3_def c_def)
  define s4 where "s4 = s\<lparr>sk_options := 8\<rparr>"
  define w4 where "w4 = w3\<lparr>nw_nonblock := {4, 5}\<rparr>"
  have opt1: "rsocket_setopt ?n w3 s RSO_NONBLOCK True = (w4, s4, rcode_ok)"
    by (simp add: rsocket_setopt_def setopt_switch_def rsocket_setnonblocking_def Let_def rsocket_check_option_def rsocket_set_option_def
      w4_def w3_def w2_def w1_def demo_on_def ripc_start_server_def server_state_def demo_open_def s4_def s_def insert_commute)
  define s5 where "s5 = s\<lparr>sk_options := 0x108\<rparr>"
  define w5 where "w5 = w4\<lparr>nw_tick := 13, nw_opts := [(5, TCP_NODELAY, [1]), (4, TCP_NODELAY, [1]), (4, SO_REUSEADDR, [1])]\<rparr>"
  have opt2: "rsocket_setopt ?n w4 s4 RTCP_NODELAY True = (w5, s5, rcode_ok)"
    by (simp add: rsocket_setopt_def setopt_switch_def sys_setsockopt_def Let_def rsocket_check_option_def rsocket_set_option_def
      demo_server_net_def tick_def flag_at_on_def w5_def w4_def w3_def w2_def w1_def demo_on_def ripc_start_server_def server_state_def
      demo_open_def s5_def s4_def s_def)
  define jt where "jt = \<lparr>ri_fd = 5, ri_req = 0x11 :: 16 word, ri_rsp = 0, ri_ds = 1\<rparr>"
  define its :: "int \<Rightarrow> repoll_item option" where "its = [1 \<mapsto> \<lparr>ri_fd = 4, ri_req = 0x17, ri_rsp = 0, ri_ds = 0\<rparr>, 2 \<mapsto> jt]"
  define w6 where "w6 = w5\<lparr>nw_tick := 14, nw_reg := [4 \<mapsto> (7, Item 1), 5 \<mapsto> (1, Item 2)], ep_next := 3, ep_items := its\<rparr>"
  have f5: "ep_next w5 = 2" "ep_items w5 = [1 \<mapsto> \<lparr>ri_fd = 4, ri_req = 0x17, ri_rsp = 0, ri_ds = 0\<rparr>]" "sk_fd s = 5" "sk_fd s5 = 5"
    by (simp_all add: w5_def w4_def w3_def w2_def w1_def demo_on_def ripc_start_server_def server_state_def demo_open_def s5_def s_def)
  have add: "repoll_add ?n (w5\<lparr>ep_next := 3, ep_items := its\<rparr>) (Item 2) = Some (w6, rcode_ok)"
    by (simp add: repoll_add_def repoll_ctl_def item_at_def sys_epoll_ctl_def Let_def demo_server_net_def tick_def its_def jt_def
      repoll_get_event_req_def w6_def w5_def w4_def w3_def w2_def w1_def demo_on_def ripc_start_server_def server_state_def
      demo_open_def demo_server_def fun_eq_iff)
  define w7 where "w7 = w6\<lparr>sv_sess := [1 \<mapsto> demo_session]\<rparr>"
  have sess: "sv_sess w6 = [1 \<mapsto> c]" "c\<lparr>ss_stream := Some (s5\<lparr>sk_item := 2\<rparr>), ss_ds := (ss_ds c)\<lparr>ds_state := ripc_state_start\<rparr>\<rparr> = demo_session"
    by (simp_all add: w6_def w5_def w4_def w3_def c_def demo_session_def s5_def s_def Let_def)
  have itm: "\<lparr>ri_fd = 5, ri_req = repoll_set_event_in 0, ri_rsp = 0, ri_ds = 1\<rparr> = jt"
    by (simp add: jt_def repoll_set_event_in_def)
  have on: "sv_stream w1 = Some ?l" "sv_stream_live w1" "ds_state (sv_ds w1) = ripc_state_start" "sv_stream w7 = Some ?l" "sv_stream_live w7"
    "nw_tick w7 = 14"
    by (simp_all add: w7_def w6_def w5_def w4_def w3_def w2_def w1_def demo_on_def ripc_start_server_def server_state_def demo_open_def)
  have one: "ripc_accept_server ?e w1 = Some (w7, rcode_ok)"
    using on(1,2) acc new opt1 opt2 add
    by (simp add: ripc_accept_server_def Let_def ev f5 itm its_def [symmetric] sess w7_def)
  have "tick w7 = demo_served"
    by (simp add: demo_served_def w7_def w6_def w5_def w4_def w3_def w2_def w1_def tick_def its_def jt_def it_def)
  then have two: "ripc_accept_server ?e w7 = Some (demo_served, rcode_invalid)"
    using on(4-6) none [of w7] by (simp add: ripc_accept_server_def Let_def ev undo_accept_def rsocket_close_def new_socket_def)
  show ?thesis
    using poll one two on(3) by (intro exI [of _ w1] exI [of _ w7] conjI) (simp_all add: w1_def item_at_def it_def)
qed


end
