(* ===== verification/RLog.thy ===== *)
theory RLog
  imports RFile RTime
begin

text \<open>
  The logger of \<open>common/src/rlog.c\<close> and \<open>common/include/rlog.h\<close>: for every level an item with its
  file, a global log, rolling files.  Files, paths and directories are those of \<open>RFile\<close>, the names are
  built with \<open>RString\<close>, the date with \<open>RTime\<close>.  A mutex is locked so and so often; one thread is
  modelled.  The log lines the logger writes about itself (\<open>rinfo\<close>, \<open>rerror\<close>) are calls of
  \<open>rlog_printf\<close> on the global log and are part of the model.
\<close>

section \<open>Levels, items, logs\<close>

definition chars :: "string \<Rightarrow> cstr" where
  "chars s = map (\<lambda>c. of_nat (of_char c)) s"

datatype rlog_level_t = rlog_level_verb | rlog_level_trace | rlog_level_debug | rlog_level_info
  | rlog_level_warn | rlog_level_error | rlog_level_fatal | rlog_level_all

fun level_num :: "rlog_level_t \<Rightarrow> nat" where
  "level_num rlog_level_verb = 0"
| "level_num rlog_level_trace = 1"
| "level_num rlog_level_debug = 2"
| "level_num rlog_level_info = 3"
| "level_num rlog_level_warn = 4"
| "level_num rlog_level_error = 5"
| "level_num rlog_level_fatal = 6"
| "level_num rlog_level_all = 7"

text \<open>The levels as the loops count them: below \<open>rlog_level_all\<close>.\<close>

definition item_levels :: "rlog_level_t list" where
  "item_levels = [rlog_level_verb, rlog_level_trace, rlog_level_debug, rlog_level_info, rlog_level_warn,
     rlog_level_error, rlog_level_fatal]"

text \<open>C compares levels as numbers.\<close>

lemma level_num_inject: "level_num a = level_num b \<longleftrightarrow> a = b"
  by (cases a; cases b) simp_all

instantiation rlog_level_t :: linorder
begin

definition less_eq_rlog_level_t :: "rlog_level_t \<Rightarrow> rlog_level_t \<Rightarrow> bool" where
  "less_eq_rlog_level_t a b \<longleftrightarrow> level_num a \<le> level_num b"

definition less_rlog_level_t :: "rlog_level_t \<Rightarrow> rlog_level_t \<Rightarrow> bool" where
  "less_rlog_level_t a b \<longleftrightarrow> level_num a < level_num b"

instance
  by standard (auto simp: less_eq_rlog_level_t_def less_rlog_level_t_def level_num_inject)

end

definition rlog_strs :: "string list" where
  "rlog_strs = [''VEBR'', ''TRACE'', ''DEBUG'', ''INFO'', ''WARN'', ''ERROR'', ''FATAL'', ''ALL'']"

definition rlog_level_2str :: "rlog_level_t \<Rightarrow> cstr" where
  "rlog_level_2str l = chars (rlog_strs ! level_num l)"

datatype rlog_state_t = rlog_state_init | rlog_state_working | rlog_state_roll_file | rlog_state_uninit

text \<open>\<open>li_file\<close> is the \<open>FILE*\<close>, 0 for NULL; the three buffers are memory objects.\<close>

record rlog_info =
  li_level :: rlog_level_t
  li_size :: int
  li_filename :: "cstr option"
  li_file :: int
  li_item_buffer :: bytes
  li_buffer :: bytes
  li_item_fmt :: bytes

record rlog =
  rl_state :: rlog_state_t
  rl_separated :: bool
  rl_level :: rlog_level_t
  rl_size_max :: int
  rl_template :: "cstr option"
  rl_items :: "rlog_level_t \<Rightarrow> rlog_info option"

datatype lock_id = Global_lock | Log_lock int | Item_lock int rlog_level_t

text \<open>
  \<open>lw_locks\<close>: how often each initialised mutex is held.  \<open>lw_logs\<close>: the logs by address; \<open>lw_all\<close>:
  \<open>None\<close> when \<open>rlog_all\<close> is NULL, else its first element (the second is always NULL).  \<open>lw_reads\<close> counts
  the clock readings, \<open>lw_out\<close> is what went to the standard output, \<open>lw_flush_last\<close> the static variable
  of \<open>rlog_printf_cached\<close>.
\<close>

record log_world =
  lw_fs :: fworld
  lw_out :: bytes
  lw_reads :: nat
  lw_locks :: "lock_id \<Rightarrow> nat option"
  lw_logs :: "int \<Rightarrow> rlog option"
  lw_next :: int
  lw_all :: "int option"
  lw_flush_last :: int

text \<open>
  \<open>le_clock\<close>: the milliseconds of each clock reading; \<open>le_zone\<close>: \<open>rtime_zone_int\<close>; \<open>le_recursive\<close>:
  whether a thread may lock a mutex it holds (no for \<open>pthread_mutex_init(m, NULL)\<close>, yes for the critical
  sections of Windows); \<open>le_text\<close>: the text of the log line at a line of \<open>rlog.c\<close>, from its arguments;
  \<open>le_dead\<close>: what \<open>rnum2str\<close> leaves, whose result points into a block that has ended.
\<close>

record log_env =
  le_fe :: fenv
  le_clock :: "nat \<Rightarrow> int"
  le_zone :: int
  le_recursive :: bool
  le_text :: "nat \<Rightarrow> cstr list \<Rightarrow> cstr"
  le_dead :: "cstr \<Rightarrow> cstr option"

section \<open>Mutexes\<close>

definition rmutex_init :: "log_world \<Rightarrow> lock_id \<Rightarrow> log_world" where
  "rmutex_init w m = w\<lparr>lw_locks := (lw_locks w)(m \<mapsto> 0)\<rparr>"

definition rmutex_uninit :: "log_world \<Rightarrow> lock_id \<Rightarrow> log_world option" where
  "rmutex_uninit w m = (if lw_locks w m = Some 0 then Some (w\<lparr>lw_locks := (lw_locks w)(m := None)\<rparr>) else None)"

text \<open>A held mutex that is not recursive is waited for without end.\<close>

definition rmutex_lock :: "log_env \<Rightarrow> log_world \<Rightarrow> lock_id \<Rightarrow> log_world option" where
  "rmutex_lock env w m = do {
     n \<leftarrow> lw_locks w m;
     if n > 0 \<and> \<not> le_recursive env then None
     else Some (w\<lparr>lw_locks := (lw_locks w)(m \<mapsto> n + 1)\<rparr>)
   }"

text \<open>Unlocking a mutex one does not hold is undefined.\<close>

definition rmutex_unlock :: "log_world \<Rightarrow> lock_id \<Rightarrow> log_world option" where
  "rmutex_unlock w m = do {
     n \<leftarrow> lw_locks w m;
     if n = 0 then None else Some (w\<lparr>lw_locks := (lw_locks w)(m \<mapsto> n - 1)\<rparr>)
   }"

section \<open>Times and numbers as text\<close>

fun digits :: "nat \<Rightarrow> cstr" where
  "digits n = (if n < 10 then [of_nat (48 + n)] else digits (n div 10) @ [of_nat (48 + n mod 10)])"

declare digits.simps [simp del]

text \<open>\<open>printf\<close> of \<open>%.nd\<close>.\<close>

definition format_d :: "nat \<Rightarrow> int \<Rightarrow> cstr" where
  "format_d n v = (let d = digits (nat \<bar>v\<bar>) in (if v < 0 then [45] else []) @ replicate (n - length d) 48 @ d)"

text \<open>\<open>rformat_s\<close>: \<open>sprintf\<close> writes behind an array that is too small before the size is looked at.\<close>

definition rformat_s :: "nat \<Rightarrow> cstr \<Rightarrow> cstr option" where
  "rformat_s cap s = (if length s < cap then Some s else None)"

definition time_datas :: "log_env \<Rightarrow> nat \<Rightarrow> rtime_datas" where
  "time_datas env n = rtime_from_time_millis_security (le_zone env) (le_clock env n)"

definition rformat_time_s_yyyymmdd :: "log_env \<Rightarrow> nat \<Rightarrow> cstr option" where
  "rformat_time_s_yyyymmdd env n =
    (let t = time_datas env n in rformat_s 16 (format_d 4 (t_year t) @ format_d 2 (t_month t) @ format_d 2 (t_day t)))"

definition rformat_time_s_hhMMss :: "log_env \<Rightarrow> nat \<Rightarrow> cstr option" where
  "rformat_time_s_hhMMss env n =
    (let t = time_datas env n
     in rformat_s 16 (format_d 2 (t_hour t) @ format_d 2 (t_minute t) @ format_d 2 (t_second t)))"

definition full_time_text :: "log_env \<Rightarrow> nat \<Rightarrow> cstr" where
  "full_time_text env n =
    (let t = time_datas env n;
         day = format_d 4 (t_year t) @ [45] @ format_d 2 (t_month t) @ [45] @ format_d 2 (t_day t);
         clock = format_d 2 (t_hour t) @ [58] @ format_d 2 (t_minute t) @ [58] @ format_d 2 (t_second t)
     in day @ [32] @ clock @ [32] @ format_d 3 (t_mills t))"

text \<open>The time is read once by the caller, and a second time by the macro when it was 0.\<close>

definition rformat_time_s_full :: "log_env \<Rightarrow> log_world \<Rightarrow> (log_world \<times> cstr) option" where
  "rformat_time_s_full env w =
    (let n = lw_reads w; k = (if le_clock env n = 0 then n + 1 else n) in do {
       s \<leftarrow> rformat_s 32 (full_time_text env k);
       Some (w\<lparr>lw_reads := k + 1\<rparr>, s)
     })"

section \<open>File names\<close>

definition rlog_param_date :: cstr where "rlog_param_date = chars ''${date}''"
definition rlog_param_file_index :: cstr where "rlog_param_file_index = chars ''${index}''"
definition rlog_param_level :: cstr where "rlog_param_level = chars ''${level}''"
definition rlog_param_time :: cstr where "rlog_param_time = chars ''${time}''"
definition rlog_param_file_suffix :: cstr where "rlog_param_file_suffix = chars ''log''"
definition rlog_param_file_suffix_gap :: cstr where "rlog_param_file_suffix_gap = [46]"
definition rlog_param_file_index_gap :: cstr where "rlog_param_file_index_gap = [95]"

definition rlog_format_filepath_template :: "log_env \<Rightarrow> cstr \<Rightarrow> cstr option" where
  "rlog_format_filepath_template env template =
    (let fe = le_fe env; fmt = rstr_cpy (fe_alloc fe) (Some template) 0 in do {
       file_suffix \<leftarrow> rstr_last_index fmt rlog_param_file_suffix_gap;
       fmt1 \<leftarrow> (if rstr_index fmt rlog_param_file_index < 0
         then if file_suffix < 0
           then rstr_join (fe_junk fe) (fe_alloc fe) [fmt, rlog_param_file_index_gap, rlog_param_file_index]
           else rstr_join (fe_junk fe) (fe_alloc fe) [take (nat file_suffix) fmt, rlog_param_file_index_gap,
             rlog_param_file_index, rlog_param_file_suffix_gap, drop (nat file_suffix + 1) fmt]
         else Some fmt);
       fmt2 \<leftarrow> (if file_suffix < 0
         then rstr_join (fe_junk fe) (fe_alloc fe) [fmt1, rlog_param_file_suffix_gap, rlog_param_file_suffix]
         else Some fmt1);
       (fmt3, _) \<leftarrow> rfile_format_path fmt2;
       Some fmt3
     })"

text \<open>\<open>atoi\<close> of digits.\<close>

definition rstr_2int :: "cstr \<Rightarrow> int option" where
  "rstr_2int s = int32 (foldl (\<lambda>v c. 10 * v + (uint c - 48)) 0 s)"

text \<open>The loop over the files of the directory: the greatest index behind the prefix, -1 for no file with it.\<close>

fun index_loop :: "cstr \<Rightarrow> cstr list \<Rightarrow> int \<Rightarrow> int option" where
  "index_loop file_prefix [] file_id_max = Some file_id_max"
| "index_loop file_prefix (name # names) file_id_max =
    (if rstr_index name file_prefix \<noteq> 0 then index_loop file_prefix names file_id_max
     else
       let id0 = (if file_id_max = -1 then 0 else file_id_max);
           rest = drop (length file_prefix) name;
           suffix_index = rstr_index rest rlog_param_file_suffix_gap
       in if suffix_index > 0 \<and> rstr_is_digit (Some rest) suffix_index
          then do {
            file_id \<leftarrow> rstr_2int (take (nat suffix_index) rest);
            index_loop file_prefix names (if id0 < file_id then file_id else id0)
          }
          else index_loop file_prefix names id0)"

text \<open>The replacements before the index: date, time, level; two readings of the clock.\<close>

definition name_before_index :: "log_env \<Rightarrow> cstr \<Rightarrow> cstr \<Rightarrow> nat \<Rightarrow> cstr option" where
  "name_before_index env template level_str n =
    (let fe = le_fe env; repl = (\<lambda>s old new. rstr_repl (fe_junk fe) (fe_alloc fe) (Some s) (Some old) (Some new)) in do {
       date_str \<leftarrow> rformat_time_s_yyyymmdd env n;
       time_str \<leftarrow> rformat_time_s_hhMMss env (n + 1);
       s1 \<leftarrow> repl template rlog_param_date date_str;
       s2 \<leftarrow> repl s1 rlog_param_time time_str;
       repl s2 rlog_param_level level_str
     })"

definition rlog_get_filepath ::
  "log_env \<Rightarrow> log_world \<Rightarrow> cstr \<Rightarrow> cstr \<Rightarrow> bool \<Rightarrow> (log_world \<times> cstr) option" where
  "rlog_get_filepath env w template level_str need_file_index =
    (let fe = le_fe env in do {
       s \<leftarrow> name_before_index env template level_str (lw_reads w);
       path_name \<leftarrow> rdir_get_path_dir fe (Some s);
       file_name \<leftarrow> rdir_get_path_filename fe (Some s);
       gap \<leftarrow> rstr_last_index file_name rlog_param_file_index_gap;
       file_prefix \<leftarrow> rstr_sub (Some file_name) 0 (nat (gap + int (length rlog_param_file_index_gap))) True;
       (fs, made) \<leftarrow> rdir_make fe (lw_fs w) (Some path_name) True;
       _ \<leftarrow> rassert (made = rcode_ok);
       file_id_max \<leftarrow> (if need_file_index
         then do { names \<leftarrow> rdir_list fe (Some path_name) True False; index_loop file_prefix names (-1) }
         else Some (-1));
       fileidx_str \<leftarrow> (if file_id_max > -1
         then do { n \<leftarrow> int32 (file_id_max + 1); le_dead env (format_d 1 n) }
         else Some []);
       ret \<leftarrow> rstr_repl (fe_junk fe) (fe_alloc fe) (Some s) (Some rlog_param_file_index) (Some fileidx_str);
       Some (w\<lparr>lw_fs := fs, lw_reads := lw_reads w + 2\<rparr>, ret)
     })"

section \<open>Items and their files\<close>

text \<open>\<open>log_items[level]\<close>: the array has no element for \<open>rlog_level_all\<close>.\<close>

definition item_of :: "rlog \<Rightarrow> rlog_level_t \<Rightarrow> rlog_info option option" where
  "item_of lg l = (if l = rlog_level_all then None else Some (rl_items lg l))"

definition set_log :: "log_world \<Rightarrow> int \<Rightarrow> rlog \<Rightarrow> log_world" where
  "set_log w p lg = w\<lparr>lw_logs := (lw_logs w)(p \<mapsto> lg)\<rparr>"

definition set_item :: "log_world \<Rightarrow> int \<Rightarrow> rlog_level_t \<Rightarrow> rlog_info option \<Rightarrow> log_world option" where
  "set_item w p l it = do { lg \<leftarrow> lw_logs w p; Some (set_log w p (lg\<lparr>rl_items := (rl_items lg)(l := it)\<rparr>)) }"

definition print_out :: "log_world \<Rightarrow> cstr \<Rightarrow> log_world" where
  "print_out w s = w\<lparr>lw_out := lw_out w @ s\<rparr>"

text \<open>\<open>fprintf\<close>, given the text; \<open>fflush\<close> needs an open stream.\<close>

definition print_file :: "log_world \<Rightarrow> int \<Rightarrow> cstr \<Rightarrow> log_world option" where
  "print_file w f s = do { (fs, _) \<leftarrow> fwrite1 (lw_fs w) s (length s) f; Some (w\<lparr>lw_fs := fs\<rparr>) }"

definition flush_stream :: "log_world \<Rightarrow> int \<Rightarrow> unit option" where
  "flush_stream w f = (if fw_streams (lw_fs w) f = None then None else Some ())"

definition close_stream :: "log_world \<Rightarrow> int \<Rightarrow> log_world option" where
  "close_stream w f = do { (fs, _) \<leftarrow> fclose (lw_fs w) f; Some (w\<lparr>lw_fs := fs\<rparr>) }"

text \<open>What the logger logs itself: the level, the line of \<open>rlog.c\<close>, the arguments.\<close>

type_synonym say = "log_world \<Rightarrow> rlog_level_t \<Rightarrow> nat \<Rightarrow> cstr list \<Rightarrow> log_world option"

definition rlog_temp_data_size :: nat where "rlog_temp_data_size = 2048"
definition rlog_cache_data_size :: nat where "rlog_cache_data_size = 5120"

definition new_item :: "log_env \<Rightarrow> rlog_level_t \<Rightarrow> rlog_info" where
  "new_item env l =
    (let buf = (\<lambda>n. 0 # fresh (fe_junk (le_fe env)) (n - 1))
     in \<lparr>li_level = l, li_size = 0, li_filename = None, li_file = 0, li_item_buffer = buf rlog_temp_data_size,
          li_buffer = buf rlog_cache_data_size, li_item_fmt = buf rlog_temp_data_size\<rparr>)"

text \<open>
  The stream of one level: that of the level before, when the name is that of the last file, or a new
  file, after the existing one was given a number.  \<open>rfile_exists\<close> answers -1 for an empty name, which
  counts as true.
\<close>

definition roll_away :: "log_env \<Rightarrow> log_world \<Rightarrow> cstr \<Rightarrow> cstr \<Rightarrow> cstr \<Rightarrow> log_world option" where
  "roll_away env w template level_str filename =
    (if rfile_exists (lw_fs w) (Some filename) \<noteq> 0
     then do {
       (w1, roll) \<leftarrow> rlog_get_filepath env w template level_str True;
       Some (w1\<lparr>lw_fs := fst (rfile_rename (le_fe env) (lw_fs w1) filename roll)\<rparr>)
     }
     else Some w)"

definition item_stream ::
  "log_env \<Rightarrow> int \<Rightarrow> rlog_level_t \<Rightarrow> cstr \<Rightarrow> cstr \<Rightarrow> cstr \<Rightarrow> cstr \<Rightarrow> log_world \<Rightarrow> (log_world \<times> cstr \<times> int) option" where
  "item_stream env p l template level_str filename last_filepath w =
    (if last_filepath = [] \<or> last_filepath \<noteq> filename
     then do {
       w1 \<leftarrow> roll_away env w template level_str filename;
       let opened = fopen (le_fe env) (lw_fs w1) filename ''w+'';
       Some (w1\<lparr>lw_fs := fst opened\<rparr>, filename, snd opened)
     }
     else do {
       lg \<leftarrow> lw_logs w p;
       before \<leftarrow> (if l = rlog_level_verb then None else rl_items lg (item_levels ! (level_num l - 1)));
       Some (w, last_filepath, li_file before)
     })"

text \<open>One pass of the loop behind the setting up of the item; \<open>update_item\<close> writes through \<open>log_item\<close>.\<close>

definition update_item :: "log_world \<Rightarrow> int \<Rightarrow> rlog_level_t \<Rightarrow> (rlog_info \<Rightarrow> rlog_info) \<Rightarrow> log_world option" where
  "update_item w p l f = do {
     lg \<leftarrow> lw_logs w p;
     it \<leftarrow> rl_items lg l;
     set_item w p l (Some (f it))
   }"

definition open_item ::
  "log_env \<Rightarrow> say \<Rightarrow> int \<Rightarrow> rlog_level_t \<Rightarrow> cstr \<Rightarrow> cstr \<Rightarrow> log_world \<Rightarrow> (log_world \<times> cstr \<times> int) option" where
  "open_item env say p l level_str last_filepath w = do {
     lg \<leftarrow> lw_logs w p;
     template \<leftarrow> rl_template lg;
     (w1, name) \<leftarrow> rlog_get_filepath env w template level_str False;
     (filename, _) \<leftarrow> rfile_format_path name;
     w2 \<leftarrow> update_item w1 p l (li_filename_update (\<lambda>_. Some filename));
     w3 \<leftarrow> say w2 rlog_level_info 212 [filename];
     (w4, last1, f) \<leftarrow> item_stream env p l template level_str filename last_filepath w3;
     w5 \<leftarrow> update_item w4 p l (li_file_update (\<lambda>_. f));
     if f = 0 then do {
       w6 \<leftarrow> say w5 rlog_level_info 228 [filename];
       Some (w6, last1, 1)
     }
     else Some (w5, last1, rcode_ok)
   }"

text \<open>\<open>rlog->log_items[cur_level]\<close> is replaced by a new item when the log is initialised.\<close>

fun build_loop ::
  "log_env \<Rightarrow> say \<Rightarrow> int \<Rightarrow> bool \<Rightarrow> rlog_level_t \<Rightarrow> bool \<Rightarrow> rlog_level_t list \<Rightarrow> cstr \<Rightarrow> log_world \<Rightarrow> (log_world \<times> int) option"
where
  "build_loop env say p is_init level separated [] last_filepath w = Some (w, rcode_ok)"
| "build_loop env say p is_init level separated (l # ls) last_filepath w = do {
     lg \<leftarrow> lw_logs w p;
     if is_init \<and> rl_items lg l \<noteq> None then do {
       w1 \<leftarrow> say w rlog_level_info 175 [format_d 1 (int (level_num l))];
       build_loop env say p is_init level separated ls last_filepath w1
     }
     else if separated \<and> (level \<noteq> rlog_level_all \<or> level \<noteq> l)
     then build_loop env say p is_init level separated ls last_filepath w
     else do {
       let level_str = rlog_level_2str (if separated then l else rlog_level_all);
       w1 \<leftarrow> (if is_init
         then do { w1 \<leftarrow> set_item w p l (Some (new_item env l)); Some (rmutex_init w1 (Item_lock p l)) }
         else Some w);
       (w2, last1, code) \<leftarrow> open_item env say p l level_str last_filepath w1;
       if code \<noteq> rcode_ok then Some (w2, code)
       else build_loop env say p is_init level separated ls last1 w2
     }
   }"

definition rlog_build_items ::
  "log_env \<Rightarrow> say \<Rightarrow> log_world \<Rightarrow> int \<Rightarrow> bool \<Rightarrow> rlog_level_t \<Rightarrow> bool \<Rightarrow> (log_world \<times> int) option" where
  "rlog_build_items env say w p is_init level separated = do {
     (w1, code) \<leftarrow> build_loop env say p is_init level separated item_levels [] w;
     if code \<noteq> rcode_ok then do {
       w2 \<leftarrow> say w1 rlog_level_info 240 [format_d 1 code];
       Some (w2, code)
     }
     else do { w2 \<leftarrow> say w1 rlog_level_info 237 []; Some (w2, rcode_ok) }
   }"

section \<open>Flushing and rolling\<close>

text \<open>One item: files shared by neighbouring levels are closed once.\<close>

definition flush_item ::
  "bool \<Rightarrow> int \<Rightarrow> rlog_level_t \<Rightarrow> int \<times> log_world \<Rightarrow> (int \<times> log_world) option" where
  "flush_item close_file p l = (\<lambda>(last_file, w). do {
     lg \<leftarrow> lw_logs w p;
     (case rl_items lg l of
        None \<Rightarrow> Some (last_file, w)
      | Some it \<Rightarrow>
          if li_file it = 0 then Some (last_file, w)
          else do {
            let emptied = (\<lambda>it. it\<lparr>li_file := 0, li_size := 0\<rparr>);
            if li_file it \<noteq> last_file then do {
              _ \<leftarrow> flush_stream w (li_file it);
              if close_file then do {
                w1 \<leftarrow> close_stream w (li_file it);
                w2 \<leftarrow> update_item w1 p l emptied;
                Some (li_file it, w2)
              }
              else Some (last_file, w)
            }
            else if close_file then map_option (Pair last_file) (update_item w p l emptied)
            else Some (last_file, w)
          })
   })"

fun flush_loop :: "bool \<Rightarrow> int \<Rightarrow> rlog_level_t list \<Rightarrow> int \<times> log_world \<Rightarrow> (int \<times> log_world) option" where
  "flush_loop close_file p [] s = Some s"
| "flush_loop close_file p (l # ls) s = do { s1 \<leftarrow> flush_item close_file p l s; flush_loop close_file p ls s1 }"

text \<open>In the wrong state the mutex stays locked.\<close>

definition rlog_flush_file ::
  "log_env \<Rightarrow> say \<Rightarrow> log_world \<Rightarrow> int \<Rightarrow> rlog_level_t \<Rightarrow> bool \<Rightarrow> (log_world \<times> int) option" where
  "rlog_flush_file env say w p level close_file = do {
     w1 \<leftarrow> rmutex_lock env w (Log_lock p);
     lg \<leftarrow> lw_logs w1 p;
     if rl_state lg \<noteq> rlog_state_working \<and> rl_state lg \<noteq> rlog_state_roll_file then do {
       w2 \<leftarrow> say w1 rlog_level_info 430 [];
       Some (w2, rcode_invalid)
     }
     else do {
       w2 \<leftarrow> say w1 rlog_level_info 434 [];
       (_, w3) \<leftarrow> flush_loop close_file p
         (if level = rlog_level_all \<or> \<not> rl_separated lg then item_levels else [level]) (0, w2);
       w4 \<leftarrow> rmutex_unlock w3 (Log_lock p);
       Some (w4, rcode_ok)
     }
   }"

definition set_state :: "log_world \<Rightarrow> int \<Rightarrow> rlog_state_t \<Rightarrow> log_world option" where
  "set_state w p st = do { lg \<leftarrow> lw_logs w p; Some (set_log w p (lg\<lparr>rl_state := st\<rparr>)) }"

text \<open>Every way out of \<open>rlog_rolling_file\<close> sets the state to working.\<close>

definition rlog_rolling_file ::
  "log_env \<Rightarrow> say \<Rightarrow> log_world \<Rightarrow> int \<Rightarrow> rlog_level_t \<Rightarrow> (log_world \<times> int) option" where
  "rlog_rolling_file env say w p level = do {
     w1 \<leftarrow> rmutex_lock env w (Log_lock p);
     lg \<leftarrow> lw_logs w1 p;
     (w5, code) \<leftarrow> (if rl_state lg \<noteq> rlog_state_working
       then do { w2 \<leftarrow> say w1 rlog_level_info 481 []; Some (w2, 0) }
       else do {
         w2 \<leftarrow> set_state w1 p rlog_state_roll_file;
         (w3, code) \<leftarrow> rlog_flush_file env say w2 p level True;
         if code \<noteq> rcode_ok then Some (w3, code)
         else do {
           (w4, code) \<leftarrow> rlog_build_items env say w3 p False level (rl_separated lg);
           if code \<noteq> rcode_ok then Some (w4, code)
           else do { w5 \<leftarrow> say w4 rlog_level_info 500 []; Some (w5, rcode_ok) }
         }
       });
     w6 \<leftarrow> set_state w5 p rlog_state_working;
     w7 \<leftarrow> rmutex_unlock w6 (Log_lock p);
     Some (w7, code)
   }"

section \<open>Logging\<close>

text \<open>
  \<open>vsnprintf(buffer, 2047, ...)\<close>: what the buffer then holds.  The call reports the whole length.
  The arguments of a log call are what \<open>printf\<close> makes of a format with them.
\<close>

type_synonym printf_args = "cstr \<Rightarrow> cstr"

definition vsn_text :: "cstr \<Rightarrow> cstr" where
  "vsn_text s = take (rlog_temp_data_size - 2) s"

text \<open>The log a call is about: the given one, or the global one; 0 when there is none.\<close>

definition log_or_global :: "log_world \<Rightarrow> int \<Rightarrow> int" where
  "log_or_global w p = (if p \<noteq> 0 then p else case lw_all w of None \<Rightarrow> 0 | Some q \<Rightarrow> q)"

text \<open>The state of a log; \<open>None\<close> when the address holds none.\<close>

definition not_ready :: "log_world \<Rightarrow> int \<Rightarrow> bool option" where
  "not_ready w r = (if r = 0 then Some True
     else do { lg \<leftarrow> lw_logs w r; Some (rl_state lg \<noteq> rlog_state_working) })"

text \<open>The part between the locks: one line into the file, and a roll when the file has grown too big.\<close>

definition log_to_file ::
  "log_env \<Rightarrow> say \<Rightarrow> log_world \<Rightarrow> int \<Rightarrow> rlog_level_t \<Rightarrow> cstr \<Rightarrow> int \<Rightarrow> log_world option" where
  "log_to_file env say w r level text write_len = do {
     lg \<leftarrow> lw_logs w r;
     it \<leftarrow> rl_items lg level;
     w1 \<leftarrow> print_file w (li_file it) text;
     size \<leftarrow> int32 (li_size it + write_len);
     w2 \<leftarrow> set_item w1 r level (Some (it\<lparr>li_size := size\<rparr>));
     if size > rl_size_max lg \<and> rl_state lg = rlog_state_working
     then map_option fst (rlog_rolling_file env say w2 r level)
     else Some w2
   }"

definition log_line ::
  "log_env \<Rightarrow> say \<Rightarrow> log_world \<Rightarrow> int \<Rightarrow> rlog_level_t \<Rightarrow> bool \<Rightarrow> rlog_info \<Rightarrow> cstr \<Rightarrow> (log_world \<times> int) option" where
  "log_line env say w r level separated it text = do {
     (w1, time_str) \<leftarrow> rformat_time_s_full env w;
     buf \<leftarrow> mem_put (li_item_buffer it) 0 (vsn_text text @ [0]);
     w2 \<leftarrow> set_item w1 r level (Some (it\<lparr>li_item_buffer := buf\<rparr>));
     _ \<leftarrow> rassert (length text < rlog_temp_data_size);
     let line = time_str @ chars '' ['' @ rlog_level_2str level @ chars ''] '' @ cstr_of buf;
     let m = (if separated then Item_lock r level else Log_lock r);
     w3 \<leftarrow> rmutex_lock env w2 m;
     w4 \<leftarrow> log_to_file env say w3 r level line (int (length text));
     w5 \<leftarrow> rmutex_unlock w4 m;
     w6 \<leftarrow> rmutex_lock env w5 (Log_lock r);
     w7 \<leftarrow> rmutex_unlock (print_out w6 line) (Log_lock r);
     Some (w7, rcode_ok)
   }"

definition printf_with ::
  "log_env \<Rightarrow> say \<Rightarrow> log_world \<Rightarrow> int \<Rightarrow> rlog_level_t \<Rightarrow> cstr \<Rightarrow> printf_args \<Rightarrow> (log_world \<times> int) option" where
  "printf_with env say w p level fmt args = (let r = log_or_global w p; text = args fmt in do {
     nr \<leftarrow> not_ready w r;
     if nr then do {
       _ \<leftarrow> rassert (length text < rlog_temp_data_size);
       Some (print_out w (chars ''(rlog not ready) - '' @ vsn_text text), 1)
     }
     else do {
       lg \<leftarrow> lw_logs w r;
       if level < rl_level lg then Some (w, rcode_ok)
       else do {
         item \<leftarrow> item_of lg level;
         (case item of
            None \<Rightarrow> do {
              _ \<leftarrow> rassert (length text < rlog_temp_data_size);
              Some (print_out w (chars ''(rlog item not ready, error!!!) - '' @ vsn_text text), -1)
            }
          | Some it \<Rightarrow> log_line env say w r level (rl_separated lg) it text)
       }
     }
   })"

text \<open>
  The log lines of the logger itself.  The fuel is the depth of the calls: a log call may roll the global
  log, whose own lines then find that log not working, so two are enough (\<open>rinfo_enough\<close>).
\<close>

fun rinfo :: "nat \<Rightarrow> log_env \<Rightarrow> say" where
  "rinfo 0 env w level line args = None"
| "rinfo (Suc n) env w level line args = map_option fst (printf_with env (rinfo n env) w 0 level (le_text env line args) (\<lambda>s. s))"

definition rlog_printf ::
  "log_env \<Rightarrow> log_world \<Rightarrow> int \<Rightarrow> rlog_level_t \<Rightarrow> cstr \<Rightarrow> printf_args \<Rightarrow> (log_world \<times> int) option" where
  "rlog_printf env w p level fmt args = printf_with env (rinfo 2 env) w p level fmt args"

text \<open>\<open>strcat\<close>, on the memory of the destination.\<close>

definition c_strcat :: "bytes \<Rightarrow> cstr \<Rightarrow> bytes option" where
  "c_strcat dest s = do { p \<leftarrow> c_strlen dest; mem_put dest p (s @ [0]) }"

text \<open>
  \<open>rlog_printf_cached\<close>: \<open>sizeof(item_fmt)\<close> and \<open>sizeof(buffer)\<close> are the sizes of pointers.  A line that is too
  long unlocks \<open>rlog_mutex\<close>, which nobody locked.
\<close>

definition write_cached :: "log_world \<Rightarrow> int \<Rightarrow> rlog_level_t \<Rightarrow> cstr \<Rightarrow> int \<Rightarrow> log_world option" where
  "write_cached w r level text time_now = do {
     lg \<leftarrow> lw_logs w r;
     it \<leftarrow> rl_items lg level;
     w1 \<leftarrow> print_file w (li_file it) text;
     _ \<leftarrow> flush_stream w1 (li_file it);
     buf \<leftarrow> mem_put (li_buffer it) 0 [0];
     w2 \<leftarrow> set_item w1 r level (Some (it\<lparr>li_buffer := buf\<rparr>));
     Some (w2\<lparr>lw_flush_last := time_now\<rparr>)
   }"

definition clear_item_buffer :: "log_world \<Rightarrow> int \<Rightarrow> rlog_level_t \<Rightarrow> log_world option" where
  "clear_item_buffer w r level = do {
     lg \<leftarrow> lw_logs w r;
     it \<leftarrow> rl_items lg level;
     buf \<leftarrow> mem_put (li_item_buffer it) 0 [0];
     set_item w r level (Some (it\<lparr>li_item_buffer := buf\<rparr>))
   }"

definition cached_line :: "log_env \<Rightarrow> log_world \<Rightarrow> int \<Rightarrow> rlog_level_t \<Rightarrow> cstr \<Rightarrow> printf_args \<Rightarrow> (log_world \<times> int \<times> nat) option" where
  "cached_line env w r level fmt args = do {
     lg \<leftarrow> lw_logs w r;
     item \<leftarrow> item_of lg level;
     it \<leftarrow> item;
     let time_now = le_clock env (lw_reads w);
     (w2, time_str) \<leftarrow> rformat_time_s_full env w;
     f1 \<leftarrow> c_strcat (li_item_fmt it) time_str;
     f2 \<leftarrow> c_strcat f1 (chars '' ['');
     f3 \<leftarrow> c_strcat f2 (rlog_level_2str level);
     f4 \<leftarrow> c_strcat f3 (chars ''] '');
     (f5, _) \<leftarrow> rstr_cat f4 fmt 8;
     let text = args (cstr_of f5);
     buf \<leftarrow> mem_put (li_item_buffer it) 0 (vsn_text text @ [0]);
     f6 \<leftarrow> mem_put f5 0 [0];
     w3 \<leftarrow> set_item w2 r level (Some (it\<lparr>li_item_buffer := buf, li_item_fmt := f6\<rparr>));
     Some (w3, time_now, length text)
   }"

definition rlog_printf_cached ::
  "log_env \<Rightarrow> log_world \<Rightarrow> int \<Rightarrow> rlog_level_t \<Rightarrow> cstr \<Rightarrow> printf_args \<Rightarrow> (log_world \<times> int) option" where
  "rlog_printf_cached env w p level fmt args = (let r = log_or_global w p in do {
     nr \<leftarrow> not_ready w r;
     if nr then Some (print_out w (chars ''(rlog not ready) - '' @ vsn_text (args fmt)), 1)
     else do {
       lg \<leftarrow> lw_logs w r;
       if level < rl_level lg then Some (w, rcode_ok)
       else do {
         item \<leftarrow> item_of lg level;
         if item = None then Some (w, -1)
         else do {
           w1 \<leftarrow> rmutex_lock env w (Log_lock r);
           (w2, time_now, write_len) \<leftarrow> cached_line env w1 r level fmt args;
           lg2 \<leftarrow> lw_logs w2 r;
           it \<leftarrow> rl_items lg2 level;
           if write_len \<ge> rlog_temp_data_size then do {
             let cut = take (rlog_temp_data_size - 5) (cstr_of (li_item_buffer it)) @ chars ''...'' @ [10];
             w3 \<leftarrow> write_cached w2 r level
               (cstr_of (li_buffer it) @ cut @ [10] @ chars ''log item data exceed of max len('' @
                format_d 1 (int rlog_temp_data_size) @ chars '' - '' @ format_d 1 (int write_len) @ chars '').'' @ [10]) time_now;
             w4 \<leftarrow> clear_item_buffer w3 r level;
             w5 \<leftarrow> rmutex_unlock w4 Global_lock;
             Some (w5, 1)
           }
           else do {
             let text = cstr_of (li_item_buffer it);
             let free_len = nat ((8 - int (length (cstr_of (li_buffer it))) - 1) mod 2 ^ 64);
             w3 \<leftarrow> (if time_now - lw_flush_last w2 > 30000 \<or> length text \<ge> free_len
               then write_cached w2 r level (cstr_of (li_buffer it) @ text) time_now
               else do {
                 buf \<leftarrow> c_strcat (li_buffer it) text;
                 set_item w2 r level (Some (it\<lparr>li_buffer := buf\<rparr>))
               });
             w4 \<leftarrow> clear_item_buffer w3 r level;
             w5 \<leftarrow> rmutex_unlock w4 (Log_lock r);
             Some (w5, rcode_ok)
           }
         }
       }
     }
   })"

section \<open>Setting up and tearing down\<close>

definition empty_log :: rlog where
  "empty_log = \<lparr>rl_state = rlog_state_init, rl_separated = False, rl_level = rlog_level_verb, rl_size_max = 0,
     rl_template = None, rl_items = Map.empty\<rparr>"

text \<open>Between the locks: the fields of the log, its template and its items.  The limit is given in megabytes, at least one.\<close>

definition init_body ::
  "log_env \<Rightarrow> say \<Rightarrow> log_world \<Rightarrow> int \<Rightarrow> cstr option \<Rightarrow> rlog_level_t \<Rightarrow> bool \<Rightarrow> int \<Rightarrow> (log_world \<times> int) option" where
  "init_body env say w p filename level separated file_size = do {
     let w1 = rmutex_init w (Log_lock p);
     lg \<leftarrow> lw_logs w1 p;
     size_max \<leftarrow> int32 ((if file_size < 1 then 1 else file_size) * 1024000);
     let lg1 = lg\<lparr>rl_level := (if level = rlog_level_all then rlog_level_verb else level), rl_separated := separated,
       rl_size_max := size_max\<rparr>;
     let w2 = set_log w1 p lg1;
     if level \<noteq> rlog_level_all \<and> rl_items lg1 level \<noteq> None
     then do { w3 \<leftarrow> say w2 rlog_level_info 324 [format_d 1 (int (level_num level))]; Some (w3, rcode_ok) }
     else (case filename of
         None \<Rightarrow> do { w3 \<leftarrow> say w2 rlog_level_info 329 []; Some (w3, 1) }
       | Some name \<Rightarrow>
           if length name > 1024 then do { w3 \<leftarrow> say w2 rlog_level_info 329 []; Some (w3, 1) }
           else do {
             template \<leftarrow> rlog_format_filepath_template env name;
             rlog_build_items env say (set_log w2 p (lg1\<lparr>rl_template := Some template\<rparr>)) p True rlog_level_all separated
           })
   }"

text \<open>A log that is already working is answered by unlocking \<open>rlog_mutex\<close> without having locked it.\<close>

definition rlog_init_log ::
  "log_env \<Rightarrow> say \<Rightarrow> log_world \<Rightarrow> int \<Rightarrow> cstr option \<Rightarrow> rlog_level_t \<Rightarrow> bool \<Rightarrow> int \<Rightarrow> (log_world \<times> int) option" where
  "rlog_init_log env say w p filename level separated file_size = (let name = (case filename of None \<Rightarrow> [] | Some f \<Rightarrow> f) in do {
     usable \<leftarrow> (if p = 0 then Some False
       else do { lg \<leftarrow> lw_logs w p; Some (rl_state lg = rlog_state_init \<or> rl_state lg = rlog_state_uninit) });
     if \<not> usable then do {
       w1 \<leftarrow> say w rlog_level_error 350 [name, format_d 1 1];
       w2 \<leftarrow> rmutex_unlock w1 Global_lock;
       Some (w2, 1)
     }
     else do {
       w1 \<leftarrow> rmutex_lock env w Global_lock;
       (w2, code) \<leftarrow> init_body env say w1 p filename level separated file_size;
       w4 \<leftarrow> (if code = rcode_ok
         then do { w3 \<leftarrow> set_state w2 p rlog_state_working; say w3 rlog_level_info 347 [name] }
         else say w2 rlog_level_error 350 [name, format_d 1 code]);
       w5 \<leftarrow> rmutex_unlock w4 Global_lock;
       Some (w5, code)
     }
   })"

definition rlog_init ::
  "log_env \<Rightarrow> log_world \<Rightarrow> cstr option \<Rightarrow> rlog_level_t \<Rightarrow> bool \<Rightarrow> int \<Rightarrow> (log_world \<times> int) option" where
  "rlog_init env w filename level separated file_size =
    (if lw_all w \<noteq> None then map_option (\<lambda>w. (w, rcode_ok)) (rinfo 2 env w rlog_level_info 251 [])
     else do {
       let w1 = rmutex_init w Global_lock;
       let p = lw_next w1;
       let w2 = set_log (w1\<lparr>lw_next := p + 1\<rparr>) p empty_log;
       (w3, code) \<leftarrow> rlog_init_log env (rinfo 2 env) w2 p filename level separated file_size;
       if code \<noteq> rcode_ok then Some (w3\<lparr>lw_logs := (lw_logs w3)(p := None)\<rparr>, code)
       else do {
         w4 \<leftarrow> rmutex_lock env w3 Global_lock;
         w5 \<leftarrow> rmutex_unlock (w4\<lparr>lw_all := Some p\<rparr>) Global_lock;
         Some (w5, rcode_ok)
       }
     })"

definition rlog_reset :: "log_world \<Rightarrow> int \<Rightarrow> rlog_level_t \<Rightarrow> int \<Rightarrow> log_world \<times> int" where
  "rlog_reset w p level file_size = (w, rcode_ok)"

definition uninit_item :: "int \<Rightarrow> rlog_level_t \<Rightarrow> int \<times> log_world \<Rightarrow> (int \<times> log_world) option" where
  "uninit_item p l = (\<lambda>(last_file, w). do {
     lg \<leftarrow> lw_logs w p;
     (case rl_items lg l of
        None \<Rightarrow> Some (last_file, w)
      | Some it \<Rightarrow> do {
          (last1, w1) \<leftarrow> (if li_file it \<noteq> 0 \<and> last_file \<noteq> li_file it
            then do { _ \<leftarrow> flush_stream w (li_file it); w1 \<leftarrow> close_stream w (li_file it); Some (li_file it, w1) }
            else Some (last_file, w));
          w2 \<leftarrow> rmutex_uninit w1 (Item_lock p l);
          w3 \<leftarrow> set_item w2 p l None;
          Some (last1, w3)
        })
   })"

fun uninit_loop :: "int \<Rightarrow> rlog_level_t list \<Rightarrow> int \<times> log_world \<Rightarrow> (int \<times> log_world) option" where
  "uninit_loop p [] s = Some s"
| "uninit_loop p (l # ls) s = do { s1 \<leftarrow> uninit_item p l s; uninit_loop p ls s1 }"

definition rlog_uninit_log :: "log_env \<Rightarrow> say \<Rightarrow> log_world \<Rightarrow> int \<Rightarrow> (log_world \<times> int) option" where
  "rlog_uninit_log env say w p = do {
     lg \<leftarrow> lw_logs w p;
     w1 \<leftarrow> say w rlog_level_info 364 [case rl_template lg of None \<Rightarrow> [] | Some t \<Rightarrow> t];
     w2 \<leftarrow> rmutex_lock env w1 Global_lock;
     w3 \<leftarrow> set_state w2 p rlog_state_uninit;
     (_, w4) \<leftarrow> uninit_loop p item_levels (0, w3);
     w5 \<leftarrow> rmutex_uninit w4 (Log_lock p);
     w6 \<leftarrow> rmutex_unlock (w5\<lparr>lw_logs := (lw_logs w5)(p := None)\<rparr>) Global_lock;
     Some (w6, rcode_ok)
   }"

definition rlog_uninit :: "log_env \<Rightarrow> log_world \<Rightarrow> (log_world \<times> int) option" where
  "rlog_uninit env w = (case lw_all w of
     None \<Rightarrow> Some (w, rcode_invalid)
   | Some p \<Rightarrow> do {
       w1 \<leftarrow> (if p = 0 then Some w
         else do {
           (w1, code) \<leftarrow> rlog_uninit_log env (rinfo 2 env) w p;
           _ \<leftarrow> rassert (code = rcode_ok);
           Some w1
         });
       w2 \<leftarrow> rmutex_uninit (w1\<lparr>lw_all := None\<rparr>) Global_lock;
       Some (w2, rcode_ok)
     })"

section \<open>Frames\<close>

text \<open>The fuel of \<open>rinfo\<close>: while the global log is not working, its own lines only go to the output.\<close>

definition only_out :: "log_world \<Rightarrow> log_world \<Rightarrow> bool" where
  "only_out w w' \<longleftrightarrow> (\<exists>s. w' = print_out w s)"

lemma print_out_fields [simp]:
  "lw_fs (print_out w s) = lw_fs w" "lw_reads (print_out w s) = lw_reads w" "lw_locks (print_out w s) = lw_locks w"
  "lw_logs (print_out w s) = lw_logs w" "lw_next (print_out w s) = lw_next w" "lw_all (print_out w s) = lw_all w"
  "lw_flush_last (print_out w s) = lw_flush_last w" "lw_out (print_out w s) = lw_out w @ s"
  by (simp_all add: print_out_def)

lemma set_log_fields [simp]:
  "lw_fs (set_log w p lg) = lw_fs w" "lw_reads (set_log w p lg) = lw_reads w" "lw_locks (set_log w p lg) = lw_locks w"
  "lw_logs (set_log w p lg) = (lw_logs w)(p \<mapsto> lg)" "lw_next (set_log w p lg) = lw_next w" "lw_all (set_log w p lg) = lw_all w"
  "lw_flush_last (set_log w p lg) = lw_flush_last w" "lw_out (set_log w p lg) = lw_out w"
  by (simp_all add: set_log_def)

lemma set_log_twice [simp]: "set_log (set_log w p a) p b = set_log w p b"
  by (simp add: set_log_def)

lemma quiet_printf:
  "not_ready w (log_or_global w p) = Some True \<Longrightarrow> printf_with env say w p l fmt args =
    (if length (args fmt) < rlog_temp_data_size
     then Some (print_out w (chars ''(rlog not ready) - '' @ vsn_text (args fmt)), 1) else None)"
  by (simp add: printf_with_def Let_def bind_rassert)

lemma quiet_rinfo:
  "not_ready w (log_or_global w 0) = Some True \<Longrightarrow> rinfo (Suc n) env w l line args =
    (if length (le_text env line args) < rlog_temp_data_size
     then Some (print_out w (chars ''(rlog not ready) - '' @ vsn_text (le_text env line args))) else None)"
  by (simp add: quiet_printf)

text \<open>Names are built without touching anything but directories.\<close>

lemma make_loop_streams:
  "make_loop env n ds m w rv = Some (w', rv') \<Longrightarrow>
    fw_streams w' = fw_streams w \<and> fw_files w' = fw_files w \<and> fw_next w' = fw_next w"
proof (induction env n ds m w rv rule: make_loop.induct)
  case (2 env n d ds m w rv)
  define w1 rv1 where w1_rv1_def: "w1 x = fst (rdir_make_self env w (cstr_of x))" and "rv1 x = snd (rdir_make_self env w (cstr_of x))" for x
  then have s: "rdir_make_self env w (cstr_of x) = (w1 x, rv1 x)" for x by simp
  have same: "fw_streams (w1 x) = fw_streams w" "fw_files (w1 x) = fw_files w" "fw_next (w1 x) = fw_next w" for x
    by (simp_all add: w1_rv1_def rdir_make_self_def)
  show ?case
  proof (cases "d = []")
    case False
    obtain m1 k1 m2 k2 where m: "rstr_cat m d n = Some (m1, k1)" "rstr_cat m1 [47] n = Some (m2, k2)"
      using "2.prems" False by (auto simp: bind_eq_Some_conv)
    show ?thesis
    proof (cases "rv1 m2 = 0")
      case True
      then show ?thesis using "2.IH"(2) [OF False m(1) refl m(2) refl s [symmetric]] "2.prems" False m s same by auto
    qed (use "2.prems" False m s same in auto)
  qed (use "2.IH"(1) "2.prems" in auto)
qed simp

lemma rdir_make_streams:
  "rdir_make env w path rec = Some (w', rv) \<Longrightarrow>
    fw_streams w' = fw_streams w \<and> fw_files w' = fw_files w \<and> fw_next w' = fw_next w"
  by (auto simp: rdir_make_def rdir_make_self_def Let_def bind_eq_Some_conv dest!: make_loop_streams
    split: option.splits if_splits)

lemma get_filepath_frame:
  assumes "rlog_get_filepath env w t s b = Some (w', name)"
  obtains fs where "w' = w\<lparr>lw_fs := fs, lw_reads := lw_reads w + 2\<rparr>" "fw_streams fs = fw_streams (lw_fs w)"
    "fw_files fs = fw_files (lw_fs w)" "fw_next fs = fw_next (lw_fs w)"
  using assms by (auto simp: rlog_get_filepath_def Let_def bind_eq_Some_conv dest!: rdir_make_streams)

text \<open>Without an index the name depends on the clock readings only.\<close>

lemma get_filepath_name:
  assumes "rlog_get_filepath env w t s False = Some (w', name)"
  shows "\<exists>x. name_before_index env t s (lw_reads w) = Some x \<and>
    rstr_repl (fe_junk (le_fe env)) (fe_alloc (le_fe env)) (Some x) (Some rlog_param_file_index) (Some []) = Some name"
  using assms by (auto simp: rlog_get_filepath_def Let_def bind_eq_Some_conv)

lemma format_path_nonempty: "rfile_format_path s = Some (t, c) \<Longrightarrow> t \<noteq> []"
proof -
  have "strip_loop s = Some t \<Longrightarrow> t \<noteq> []" for s
    by (induction s rule: strip_loop.induct) (simp add: strip_loop.simps split: if_splits)
  then show "rfile_format_path s = Some (t, c) \<Longrightarrow> t \<noteq> []" by (auto simp: rfile_format_path_def bind_eq_Some_conv)
qed

section \<open>The fuel of the log lines of the logger\<close>

declare rinfo.simps [simp del]

text \<open>The global log is there and not working, so lines go to the output only.\<close>

definition quiet :: "int \<Rightarrow> log_world \<Rightarrow> bool" where
  "quiet r w \<longleftrightarrow> lw_all w = Some r \<and> r \<noteq> 0 \<and> (\<exists>lg. lw_logs w r = Some lg \<and> rl_state lg \<noteq> rlog_state_working)"

definition say_out :: "log_env \<Rightarrow> say" where
  "say_out env w l line args =
    (if length (le_text env line args) < rlog_temp_data_size
     then Some (print_out w (chars ''(rlog not ready) - '' @ vsn_text (le_text env line args))) else None)"

lemma quiet_say: "quiet r w \<Longrightarrow> rinfo (Suc n) env w l line args = say_out env w l line args"
  by (auto simp: quiet_def log_or_global_def not_ready_def say_out_def quiet_printf rinfo.simps)

named_theorems quiets "steps that leave the global log quiet"

lemma quiet_say_out [quiets]: "say_out env w l line args = Some w' \<Longrightarrow> quiet r w \<Longrightarrow> quiet r w'"
  by (auto simp: say_out_def quiet_def split: if_splits)

lemma quiet_set_item [quiets]: "set_item w p l it = Some w' \<Longrightarrow> quiet r w \<Longrightarrow> quiet r w'"
  by (auto simp: set_item_def quiet_def bind_eq_Some_conv)

lemma quiet_update_item [quiets]: "update_item w p l f = Some w' \<Longrightarrow> quiet r w \<Longrightarrow> quiet r w'"
  by (auto simp: update_item_def bind_eq_Some_conv intro: quiet_set_item)

lemma quiet_lock [quiets]: "rmutex_lock env w m = Some w' \<Longrightarrow> quiet r w \<Longrightarrow> quiet r w'"
  by (auto simp: rmutex_lock_def quiet_def bind_eq_Some_conv split: if_splits)

lemma quiet_unlock [quiets]: "rmutex_unlock w m = Some w' \<Longrightarrow> quiet r w \<Longrightarrow> quiet r w'"
  by (auto simp: rmutex_unlock_def quiet_def bind_eq_Some_conv split: if_splits)

lemma quiet_filepath [quiets]: "rlog_get_filepath env w t s b = Some (w', name) \<Longrightarrow> quiet r w \<Longrightarrow> quiet r w'"
  by (erule get_filepath_frame) (simp add: quiet_def)

lemma quiet_fields [simp]:
  "quiet r (w\<lparr>lw_fs := fs\<rparr>) = quiet r w" "quiet r (w\<lparr>lw_locks := ls\<rparr>) = quiet r w"
  by (simp_all add: quiet_def)

lemma quiet_close_stream [quiets]: "close_stream w f = Some w' \<Longrightarrow> quiet r w \<Longrightarrow> quiet r w'"
  by (auto simp: close_stream_def bind_eq_Some_conv)

lemma quiet_flush_item [quiets]: "flush_item c p l (lf, w) = Some (lf', w') \<Longrightarrow> quiet r w \<Longrightarrow> quiet r w'"
  by (auto simp: flush_item_def Let_def bind_eq_Some_conv split: option.splits if_splits
    dest: quiet_close_stream quiet_update_item)

lemma quiet_flush_loop [quiets]: "flush_loop c p ls (lf, w) = Some (lf', w') \<Longrightarrow> quiet r w \<Longrightarrow> quiet r w'"
proof (induction ls arbitrary: lf w)
  case (Cons l ls)
  then obtain lf1 w1 where "flush_item c p l (lf, w) = Some (lf1, w1)" "flush_loop c p ls (lf1, w1) = Some (lf', w')"
    by (auto simp: bind_eq_Some_conv)
  with Cons show ?case using quiet_flush_item by blast
qed simp

lemma quiet_roll_away [quiets]: "roll_away env w t s f = Some w' \<Longrightarrow> quiet r w \<Longrightarrow> quiet r w'"
  by (auto simp: roll_away_def bind_eq_Some_conv split: if_splits dest: quiet_filepath)

lemma quiet_item_stream [quiets]:
  "item_stream env p l t s f lf w = Some (w', x) \<Longrightarrow> quiet r w \<Longrightarrow> quiet r w'"
  by (auto simp: item_stream_def Let_def bind_eq_Some_conv split: if_splits dest: quiet_roll_away)

lemma quiet_open_item [quiets]:
  assumes "open_item env (say_out env) p l s lf w = Some (w', x)" "quiet r w"
  shows "quiet r w'"
proof -
  from assms(1) obtain t w1 name filename c w2 w3 w4 lf1 f w5 where
    "rlog_get_filepath env w t s False = Some (w1, name)" "rfile_format_path name = Some (filename, c)"
    "update_item w1 p l (li_filename_update (\<lambda>_. Some filename)) = Some w2"
    "say_out env w2 rlog_level_info 212 [filename] = Some w3"
    "item_stream env p l t s filename lf w3 = Some (w4, lf1, f)"
    "update_item w4 p l (li_file_update (\<lambda>_. f)) = Some w5"
    "w' = w5 \<or> say_out env w5 rlog_level_info 228 [filename] = Some w'"
    by (auto simp: open_item_def bind_eq_Some_conv split: if_splits)
  with assms(2) show ?thesis by (metis quiets)
qed

lemma quiet_bind:
  "(\<And>x. m = Some x \<Longrightarrow> f x = g x) \<Longrightarrow> m \<bind> f = m \<bind> g"
  by (cases m) simp_all

lemma open_item_quiet:
  assumes q: "quiet r w"
  shows "open_item env (rinfo (Suc n) env) p l s lf w = open_item env (say_out env) p l s lf w"
proof -
  have 1: "rinfo (Suc n) env v li k a = say_out env v li k a" if "quiet r v" for v li k a using quiet_say [OF that] .
  show ?thesis
    unfolding open_item_def
    apply (rule quiet_bind, rule quiet_bind, rule quiet_bind, clarsimp, rule quiet_bind, clarsimp, rule quiet_bind)
    apply (rule Option.bind_cong, rule 1, (erule quiets | rule q)+)
    apply (rule quiet_bind, clarsimp, rule quiet_bind)
    apply (rule if_cong [OF refl _ refl], rule Option.bind_cong [OF _ refl], rule 1, (erule quiets | rule q)+)
    done
qed

lemma quiet_build_loop [quiets]:
  "build_loop env (say_out env) p False level sep ls lf w = Some (w', c) \<Longrightarrow> quiet r w \<Longrightarrow> quiet r w'"
proof (induction ls arbitrary: lf w)
  case (Cons l ls)
  then show ?case by (auto simp: bind_eq_Some_conv split: if_splits dest: quiet_open_item)
qed simp

lemma build_loop_quiet:
  "quiet r w \<Longrightarrow>
    build_loop env (rinfo (Suc n) env) p False level sep ls lf w = build_loop env (say_out env) p False level sep ls lf w"
proof (induction ls arbitrary: lf w)
  case (Cons l ls)
  then show ?case by (auto simp: open_item_quiet intro!: quiet_bind dest: quiet_open_item)
qed simp

lemma flush_file_quiet:
  assumes q: "quiet r w"
  shows "rlog_flush_file env (rinfo (Suc n) env) w p l c = rlog_flush_file env (say_out env) w p l c"
    "rlog_flush_file env (say_out env) w p l c = Some (w', x) \<Longrightarrow> quiet r w'"
proof -
  have 1: "rinfo (Suc n) env v li k a = say_out env v li k a" if "quiet r v" for v li k a using quiet_say [OF that] .
  show "rlog_flush_file env (rinfo (Suc n) env) w p l c = rlog_flush_file env (say_out env) w p l c"
    unfolding rlog_flush_file_def
    apply (rule quiet_bind, rule quiet_bind, rule if_cong [OF refl])
    apply (rule Option.bind_cong [OF _ refl], rule 1, (erule quiets | rule q)+)
    apply (rule Option.bind_cong [OF _ refl], rule 1, (erule quiets | rule q)+)
    done
  show "rlog_flush_file env (say_out env) w p l c = Some (w', x) \<Longrightarrow> quiet r w'"
  proof -
    let ?ls = "\<lambda>lg. if l = rlog_level_all \<or> \<not> rl_separated lg then item_levels else [l]"
    assume "rlog_flush_file env (say_out env) w p l c = Some (w', x)"
    note e = this [unfolded rlog_flush_file_def]
    from e obtain w1 where w1: "rmutex_lock env w (Log_lock p) = Some w1" by (cases "rmutex_lock env w (Log_lock p)") auto
    from e w1 obtain lg where lg: "lw_logs w1 p = Some lg" by (cases "lw_logs w1 p") auto
    have q1: "quiet r w1" by (rule quiet_lock [OF w1 q])
    show "quiet r w'"
    proof (cases "rl_state lg \<noteq> rlog_state_working \<and> rl_state lg \<noteq> rlog_state_roll_file")
      case True
      with e w1 lg show ?thesis by (auto simp: bind_eq_Some_conv intro: quiet_say_out [OF _ q1])
    next
      case False
      with e w1 lg obtain w2 lf w3 where "say_out env w1 rlog_level_info 434 [] = Some w2"
        "flush_loop c p (?ls lg) (0, w2) = Some (lf, w3)" "rmutex_unlock w3 (Log_lock p) = Some w'"
        by (auto simp: bind_eq_Some_conv split del: if_split)
      then show ?thesis by - ((erule quiets | rule q1)+)
    qed
  qed
qed

lemma build_items_quiet:
  assumes q: "quiet r w"
  shows "rlog_build_items env (rinfo (Suc n) env) w p False l sep = rlog_build_items env (say_out env) w p False l sep"
    "rlog_build_items env (say_out env) w p False l sep = Some (w', x) \<Longrightarrow> quiet r w'"
proof -
  show "rlog_build_items env (rinfo (Suc n) env) w p False l sep = rlog_build_items env (say_out env) w p False l sep"
    unfolding rlog_build_items_def build_loop_quiet [OF q]
    by (rule quiet_bind) (auto simp: quiet_say dest!: quiet_build_loop [OF _ q])
  show "rlog_build_items env (say_out env) w p False l sep = Some (w', x) \<Longrightarrow> quiet r w'"
    by (auto simp: rlog_build_items_def bind_eq_Some_conv split: if_splits dest!: quiet_build_loop [OF _ q] intro: quiets)
qed

text \<open>Rolling the global log, or any log while the global one is quiet, needs no more than one level of fuel.\<close>

lemma rolling_quiet:
  assumes "lw_all w = Some r" "r \<noteq> 0"
  shows "rlog_rolling_file env (rinfo (Suc n) env) w r l = rlog_rolling_file env (say_out env) w r l"
proof -
  have lock: "lw_all w1 = Some r" "lw_logs w1 = lw_logs w" if "rmutex_lock env w m = Some w1" for w1 m
    using that assms(1) by (auto simp: rmutex_lock_def bind_eq_Some_conv split: if_splits)
  have roll: "quiet r w2" if "set_state v r rlog_state_roll_file = Some w2" "lw_all v = Some r" for v w2
    using that assms(2) by (auto simp: set_state_def quiet_def bind_eq_Some_conv)
  show ?thesis
    unfolding rlog_rolling_file_def
  proof (rule quiet_bind, rule quiet_bind, rule Option.bind_cong [OF _ refl], rule if_cong [OF refl])
    fix w1 lg assume a: "rmutex_lock env w (Log_lock r) = Some w1" "lw_logs w1 r = Some lg"
    show "rinfo (Suc n) env w1 rlog_level_info 481 [] \<bind> (\<lambda>w2. Some (w2, 0 :: int)) =
        say_out env w1 rlog_level_info 481 [] \<bind> (\<lambda>w2. Some (w2, 0))"
      if "rl_state lg \<noteq> rlog_state_working"
      using that a lock(1) [OF a(1)] assms(2) by (subst quiet_say [of r]) (auto simp: quiet_def)
  next
    fix w1 lg assume a: "rmutex_lock env w (Log_lock r) = Some w1" "lw_logs w1 r = Some lg"
    let ?rest = "\<lambda>say. \<lambda>w2. rlog_flush_file env say w2 r l True \<bind> (\<lambda>(w3, code).
      if code \<noteq> rcode_ok then Some (w3, code) else rlog_build_items env say w3 r False l (rl_separated lg) \<bind> (\<lambda>(w4, code).
        if code \<noteq> rcode_ok then Some (w4, code) else say w4 rlog_level_info 500 [] \<bind> (\<lambda>w5. Some (w5, rcode_ok))))"
    have "?rest (rinfo (Suc n) env) w2 = ?rest (say_out env) w2" if q: "quiet r w2" for w2
    proof -
      have "rlog_build_items env (rinfo (Suc n) env) w3 r False l s \<bind> (\<lambda>(w4, code).
          if code \<noteq> rcode_ok then Some (w4, code) else rinfo (Suc n) env w4 rlog_level_info 500 [] \<bind> (\<lambda>w5. Some (w5, rcode_ok))) =
        rlog_build_items env (say_out env) w3 r False l s \<bind> (\<lambda>(w4, code).
          if code \<noteq> rcode_ok then Some (w4, code) else say_out env w4 rlog_level_info 500 [] \<bind> (\<lambda>w5. Some (w5, rcode_ok)))"
        if "quiet r w3" for w3 s
        by (subst build_items_quiet(1) [OF that], rule quiet_bind)
          (auto simp: quiet_say dest: build_items_quiet(2) [OF that])
      then show ?thesis
        by (subst flush_file_quiet(1) [OF q], intro quiet_bind) (auto dest: flush_file_quiet(2) [OF q])
    qed
    then show "set_state w1 r rlog_state_roll_file \<bind> ?rest (rinfo (Suc n) env) =
        set_state w1 r rlog_state_roll_file \<bind> ?rest (say_out env)"
      using roll lock(1) [OF a(1)] by (intro quiet_bind) blast
  qed
qed

lemma to_file_quiet:
  assumes "lw_all w = Some r" "r \<noteq> 0"
  shows "log_to_file env (rinfo (Suc n) env) w r l text k = log_to_file env (say_out env) w r l text k"
proof -
  have "lw_all w2 = Some r" if "print_file w f text = Some w1" "set_item w1 r l it = Some w2" for f it w1 w2
    using that assms(1) by (auto simp: print_file_def set_item_def bind_eq_Some_conv)
  then show ?thesis
    unfolding log_to_file_def using rolling_quiet [OF _ assms(2), of _ env n l] by (intro quiet_bind) auto
qed

lemma line_quiet:
  assumes "lw_all w = Some r" "r \<noteq> 0"
  shows "log_line env (rinfo (Suc n) env) w r l sep it tx = log_line env (say_out env) w r l sep it tx"
proof -
  have all: "lw_all w3 = Some r" if "rformat_time_s_full env w = Some (w1, t)" "set_item w1 r l i = Some w2"
    "rmutex_lock env w2 m = Some w3" for w1 t i w2 m w3
    using that assms(1) by (auto simp: rformat_time_s_full_def Let_def set_item_def rmutex_lock_def bind_eq_Some_conv split: if_splits)
  show ?thesis
    unfolding log_line_def
    apply (rule quiet_bind, clarify, rule quiet_bind, rule quiet_bind, rule quiet_bind)
    apply (unfold Let_def, rule quiet_bind, rule Option.bind_cong [OF _ refl])
    apply (rule to_file_quiet [OF all assms(2)], assumption+)
    done
qed

theorem rinfo_enough: "rinfo (Suc (Suc n)) env = rinfo 2 env"
proof (intro ext)
  fix w l k a
  have "printf_with env (rinfo (Suc n) env) w 0 l fmt (\<lambda>s. s) = printf_with env (rinfo 1 env) w 0 l fmt (\<lambda>s. s)" for fmt
  proof (cases "log_or_global w 0 = 0")
    case False
    then have all: "lw_all w = Some (log_or_global w 0)" by (auto simp: log_or_global_def split: option.splits)
    have "log_line env (rinfo (Suc n) env) w (log_or_global w 0) = log_line env (rinfo 1 env) w (log_or_global w 0)"
      by (intro ext) (simp add: line_quiet [OF all False])
    then show ?thesis by (simp only: printf_with_def Let_def)
  qed (simp add: printf_with_def not_ready_def)
  then show "rinfo (Suc (Suc n)) env w l k a = rinfo 2 env w l k a" by (simp add: numeral_2_eq_2 rinfo.simps)
qed

section \<open>Writing lines\<close>

text \<open>The times fit their arrays, and the clock does not stand at 0.\<close>

definition times_ok :: "log_env \<Rightarrow> bool" where
  "times_ok env \<longleftrightarrow> (\<forall>n. le_clock env n \<noteq> 0 \<and> length (full_time_text env n) < 32)"

definition line_of :: "log_env \<Rightarrow> nat \<Rightarrow> rlog_level_t \<Rightarrow> cstr \<Rightarrow> cstr" where
  "line_of env n l text = full_time_text env n @ chars '' ['' @ rlog_level_2str l @ chars ''] '' @ text"

text \<open>
  A log in use as the global one, all levels in one file: \<open>f\<close> is the stream, \<open>q\<close> its path, \<open>S\<close> the other
  streams; every level has counted \<open>sz\<close> bytes of at most \<open>mx\<close>; \<open>content\<close> is what the file holds.
\<close>

definition item_ready :: "int \<Rightarrow> int \<Rightarrow> rlog_info option \<Rightarrow> bool" where
  "item_ready f n i \<longleftrightarrow> (\<exists>it. i = Some it \<and> li_file it = f \<and> li_size it = n \<and> length (li_item_buffer it) = rlog_temp_data_size)"

definition log_stream :: "cstr \<Rightarrow> bytes \<Rightarrow> stream" where
  "log_stream q content = \<lparr>fl_path = q, fl_pos = length content, fl_read = True, fl_write = True, fl_append = False\<rparr>"

definition ready ::
  "cstr \<Rightarrow> int \<Rightarrow> rlog_level_t \<Rightarrow> int \<Rightarrow> int \<Rightarrow> cstr \<Rightarrow> (int \<Rightarrow> stream option) \<Rightarrow> (int \<Rightarrow> rlog option) \<Rightarrow>
    (rlog_level_t \<Rightarrow> int) \<Rightarrow> bytes \<Rightarrow> log_world \<Rightarrow> bool"
where
  "ready t p lv mx f q S L sz content w \<longleftrightarrow> lw_all w = Some p \<and> p \<noteq> 0 \<and> f \<noteq> 0 \<and> mx \<le> INT_MAX \<and> S f = None \<and>
    (\<exists>lg. lw_logs w = L(p \<mapsto> lg) \<and> rl_state lg = rlog_state_working \<and> \<not> rl_separated lg \<and> rl_level lg = lv \<and> rl_size_max lg = mx \<and>
      rl_template lg = Some t \<and> (\<forall>l. if l = rlog_level_all then True else item_ready f (sz l) (rl_items lg l))) \<and>
    lw_locks w Global_lock = Some 0 \<and> lw_locks w (Log_lock p) = Some 0 \<and>
    (\<forall>l. if l = rlog_level_all then True else lw_locks w (Item_lock p l) = Some 0) \<and>
    fw_streams (lw_fs w) = S(f \<mapsto> log_stream q content) \<and> fw_files (lw_fs w) q = Some content"

lemma print_ready:
  assumes "fw_streams (lw_fs w) f = Some (log_stream q content)" "fw_files (lw_fs w) q = Some content" "s \<noteq> []"
  shows "print_file w f s = Some (w\<lparr>lw_fs := (lw_fs w)\<lparr>fw_files := (fw_files (lw_fs w))(q \<mapsto> content @ s),
    fw_streams := (fw_streams (lw_fs w))(f \<mapsto> log_stream q (content @ s))\<rparr>\<rparr>)"
  using assms by (simp add: print_file_def fwrite1_def log_stream_def Let_def mem_get_in)

lemma time_text_read:
  "times_ok env \<Longrightarrow> rformat_time_s_full env w = Some (w\<lparr>lw_reads := lw_reads w + 1\<rparr>, full_time_text env (lw_reads w))"
  by (simp add: times_ok_def rformat_time_s_full_def Let_def rformat_s_def)

lemma buffer_text:
  "cstr_ok s \<Longrightarrow> length s < rlog_temp_data_size - 1 \<Longrightarrow> length b = rlog_temp_data_size \<Longrightarrow>
    mem_put b 0 (vsn_text s @ [0]) = Some (s @ 0 # drop (Suc (length s)) b) \<and> cstr_of (s @ 0 # drop (Suc (length s)) b) = s"
  by (simp add: vsn_text_def mem_put_in rlog_temp_data_size_def cstr_of_append)

lemma readyE:
  assumes "ready t p lv mx f q S L sz content w"
  obtains lg where "lw_all w = Some p" "p \<noteq> 0" "f \<noteq> 0" "mx \<le> INT_MAX" "S f = None" "lw_logs w = L(p \<mapsto> lg)"
    "rl_state lg = rlog_state_working" "\<not> rl_separated lg" "rl_level lg = lv" "rl_size_max lg = mx" "rl_template lg = Some t"
    "\<And>l. l \<noteq> rlog_level_all \<Longrightarrow> item_ready f (sz l) (rl_items lg l)"
    "lw_locks w Global_lock = Some 0" "lw_locks w (Log_lock p) = Some 0"
    "\<And>l. l \<noteq> rlog_level_all \<Longrightarrow> lw_locks w (Item_lock p l) = Some 0"
    "fw_streams (lw_fs w) = S(f \<mapsto> log_stream q content)" "fw_files (lw_fs w) q = Some content"
  using assms unfolding ready_def by (elim conjE exE) (metis (full_types))

lemma line_ready:
  assumes r: "ready t p lv mx f q S L sz content w" and "times_ok env" "cstr_ok text" "length text < rlog_temp_data_size - 1"
    and l: "l \<noteq> rlog_level_all" "lw_logs w p = Some lg" "rl_items lg l = Some it"
  shows "sz l + int (length text) \<le> mx \<Longrightarrow> INT_MIN \<le> sz l + int (length text) \<Longrightarrow>
      \<exists>w'. log_line env say w p l False it text = Some (w', rcode_ok) \<and> lw_reads w' = lw_reads w + 1 \<and>
        ready t p lv mx f q S L (sz(l := sz l + int (length text))) (content @ line_of env (lw_reads w) l text) w' \<and>
        lw_out w' = lw_out w @ line_of env (lw_reads w) l text"
    and "mx < sz l + int (length text) \<Longrightarrow> \<not> le_recursive env \<Longrightarrow> log_line env say w p l False it text = None"
proof -
  obtain lg' where R: "lw_all w = Some p" "p \<noteq> 0" "f \<noteq> 0" "mx \<le> INT_MAX" "S f = None" "lw_logs w = L(p \<mapsto> lg')"
    "rl_state lg' = rlog_state_working" "\<not> rl_separated lg'" "rl_level lg' = lv" "rl_size_max lg' = mx" "rl_template lg' = Some t"
    "\<And>l. l \<noteq> rlog_level_all \<Longrightarrow> item_ready f (sz l) (rl_items lg' l)"
    "lw_locks w Global_lock = Some 0" "lw_locks w (Log_lock p) = Some 0"
    "\<And>l. l \<noteq> rlog_level_all \<Longrightarrow> lw_locks w (Item_lock p l) = Some 0"
    "fw_streams (lw_fs w) = S(f \<mapsto> log_stream q content)" "fw_files (lw_fs w) q = Some content"
    by (rule readyE [OF r]) blast
  have lg: "lg' = lg" using R(6) l(2) by simp
  have it: "li_file it = f" "li_size it = sz l" "length (li_item_buffer it) = rlog_temp_data_size"
    using R(12) [OF l(1)] l(3) by (auto simp: item_ready_def lg)
  define buf where "buf = text @ 0 # drop (Suc (length text)) (li_item_buffer it)"
  have b: "mem_put (li_item_buffer it) 0 (vsn_text text @ [0]) = Some buf" "cstr_of buf = text"
    using buffer_text [OF assms(3,4) it(3)] by (simp_all add: buf_def)
  define line where "line = line_of env (lw_reads w) l text"
  have line: "full_time_text env (lw_reads w) @ chars '' ['' @ rlog_level_2str l @ chars ''] '' @ cstr_of buf = line" "line \<noteq> []"
    by (simp_all add: line_def line_of_def b(2) chars_def)
  define it1 where "it1 = it\<lparr>li_item_buffer := buf\<rparr>"
  define w3 where "w3 = (set_log (w\<lparr>lw_reads := lw_reads w + 1\<rparr>) p (lg\<lparr>rl_items := (rl_items lg)(l \<mapsto> it1)\<rparr>))
    \<lparr>lw_locks := (lw_locks w)(Log_lock p \<mapsto> 1)\<rparr>"
  have short: "length text < rlog_temp_data_size" using assms(4) by (simp add: rlog_temp_data_size_def)
  have start: "log_line env say w p l False it text = (log_to_file env say w3 p l line (int (length text)) \<bind> (\<lambda>w4.
      rmutex_unlock w4 (Log_lock p) \<bind> (\<lambda>w5. rmutex_lock env w5 (Log_lock p) \<bind> (\<lambda>w6.
      rmutex_unlock (print_out w6 line) (Log_lock p) \<bind> (\<lambda>w7. Some (w7, rcode_ok))))))"
    using time_text_read [OF assms(2), of w] b(1) line(1) short R(14) l(2)
    by (simp add: log_line_def set_item_def it1_def [symmetric] rmutex_lock_def w3_def Let_def)
  define fs where "fs = (lw_fs w)\<lparr>fw_files := (fw_files (lw_fs w))(q \<mapsto> content @ line),
    fw_streams := (fw_streams (lw_fs w))(f \<mapsto> log_stream q (content @ line))\<rparr>"
  have print: "print_file w3 f line = Some (w3\<lparr>lw_fs := fs\<rparr>)"
    by (subst print_ready [of _ _ q content]) (simp_all add: w3_def R line(2) fs_def)
  have w3: "lw_logs w3 p = Some (lg\<lparr>rl_items := (rl_items lg)(l \<mapsto> it1)\<rparr>)" "li_file it1 = f" "li_size it1 = sz l"
    "lw_locks w3 (Log_lock p) = Some 1"
    by (simp_all add: w3_def it1_def it)
  show "log_line env say w p l False it text = None" if "mx < sz l + int (length text)" "\<not> le_recursive env"
    using that w3 print R(7,10)
    by (simp add: start log_to_file_def set_item_def lg rlog_rolling_file_def rmutex_lock_def int32_def)
  show "\<exists>w'. log_line env say w p l False it text = Some (w', rcode_ok) \<and> lw_reads w' = lw_reads w + 1 \<and>
        ready t p lv mx f q S L (sz(l := sz l + int (length text))) (content @ line_of env (lw_reads w) l text) w' \<and>
        lw_out w' = lw_out w @ line_of env (lw_reads w) l text"
    if "sz l + int (length text) \<le> mx" "INT_MIN \<le> sz l + int (length text)"
  proof -
    define it2 where "it2 = it1\<lparr>li_size := sz l + int (length text)\<rparr>"
    define lg2 where "lg2 = lg\<lparr>rl_items := (rl_items lg)(l \<mapsto> it2)\<rparr>"
    define w' where "w' = (set_log (w3\<lparr>lw_fs := fs, lw_out := lw_out w3 @ line\<rparr>) p lg2)\<lparr>lw_locks := lw_locks w\<rparr>"
    have "log_line env say w p l False it text = Some (w', rcode_ok)"
      using that w3 print R(4,7,10,14)
      by (simp add: start log_to_file_def set_item_def lg rmutex_lock_def rmutex_unlock_def int32_def w'_def w3_def print_out_def
        set_log_def fun_upd_idem it2_def lg2_def)
    moreover have "ready t p lv mx f q S L (sz(l := sz l + int (length text))) (content @ line) w'"
      using R it l(1) mem_put_length [OF b(1)] unfolding ready_def
      by (intro conjI exI [of _ lg2]) (auto simp: w'_def w3_def lg lg2_def it2_def it1_def item_ready_def fs_def)
    ultimately show ?thesis by (intro exI [of _ w']) (simp add: w'_def w3_def line_def)
  qed
qed
text \<open>A log call on the ready global log.\<close>

lemma printf_ready:
  assumes r: "ready t p lv mx f q S L sz content w" and "times_ok env" "cstr_ok (args fmt)"
    "length (args fmt) < rlog_temp_data_size - 1" "l \<noteq> rlog_level_all"
  shows "l < lv \<Longrightarrow> printf_with env say w 0 l fmt args = Some (w, rcode_ok)"
    and "lv \<le> l \<Longrightarrow> sz l + int (length (args fmt)) \<le> mx \<Longrightarrow> 0 \<le> sz l \<Longrightarrow>
      \<exists>w'. printf_with env say w 0 l fmt args = Some (w', rcode_ok) \<and> lw_reads w' = lw_reads w + 1 \<and>
        ready t p lv mx f q S L (sz(l := sz l + int (length (args fmt)))) (content @ line_of env (lw_reads w) l (args fmt)) w' \<and>
        lw_out w' = lw_out w @ line_of env (lw_reads w) l (args fmt)"
    and "lv \<le> l \<Longrightarrow> mx < sz l + int (length (args fmt)) \<Longrightarrow> \<not> le_recursive env \<Longrightarrow> printf_with env say w 0 l fmt args = None"
proof -
  obtain lg where R: "lw_all w = Some p" "p \<noteq> 0" "lw_logs w = L(p \<mapsto> lg)" "rl_state lg = rlog_state_working"
    "\<not> rl_separated lg" "rl_level lg = lv" "item_ready f (sz l) (rl_items lg l)"
    using assms(5) by (rule_tac readyE [OF r]) metis
  obtain it where it: "rl_items lg l = Some it" using R(7) by (auto simp: item_ready_def)
  have lg: "lw_logs w p = Some lg" by (simp add: R(3))
  have p: "printf_with env say w 0 l fmt args =
      (if l < lv then Some (w, rcode_ok) else log_line env say w p l False it (args fmt))"
    using R it assms(5) by (simp add: printf_with_def log_or_global_def not_ready_def item_of_def Let_def)
  note line = line_ready [OF r assms(2-5) lg it]
  show "l < lv \<Longrightarrow> printf_with env say w 0 l fmt args = Some (w, rcode_ok)" by (simp add: p)
  show "lv \<le> l \<Longrightarrow> mx < sz l + int (length (args fmt)) \<Longrightarrow> \<not> le_recursive env \<Longrightarrow> printf_with env say w 0 l fmt args = None"
    using line(2) by (simp add: p)
  show "\<exists>w'. printf_with env say w 0 l fmt args = Some (w', rcode_ok) \<and> lw_reads w' = lw_reads w + 1 \<and>
        ready t p lv mx f q S L (sz(l := sz l + int (length (args fmt)))) (content @ line_of env (lw_reads w) l (args fmt)) w' \<and>
        lw_out w' = lw_out w @ line_of env (lw_reads w) l (args fmt)"
    if "lv \<le> l" "sz l + int (length (args fmt)) \<le> mx" "0 \<le> sz l"
  proof -
    have "\<not> l < lv" using that(1) by simp
    then show ?thesis unfolding p using line(1) [of say] that by simp
  qed
qed

text \<open>Calls on the global log: level, format, arguments.\<close>

type_synonym log_call = "rlog_level_t \<times> cstr \<times> printf_args"

fun log_calls :: "log_env \<Rightarrow> log_call list \<Rightarrow> log_world \<Rightarrow> (log_world \<times> int list) option" where
  "log_calls env [] w = Some (w, [])"
| "log_calls env ((l, fmt, args) # cs) w = do {
     (w1, code) \<leftarrow> rlog_printf env w 0 l fmt args;
     (w2, codes) \<leftarrow> log_calls env cs w1;
     Some (w2, code # codes)
   }"

definition call_ok :: "log_call \<Rightarrow> bool" where
  "call_ok c \<longleftrightarrow> (case c of (l, fmt, args) \<Rightarrow> l \<noteq> rlog_level_all \<and> cstr_ok (args fmt) \<and> length (args fmt) < rlog_temp_data_size - 1)"

lemma call_ok_simp [simp]:
  "call_ok (l, fmt, args) \<longleftrightarrow> l \<noteq> rlog_level_all \<and> cstr_ok (args fmt) \<and> length (args fmt) < rlog_temp_data_size - 1"
  by (simp add: call_ok_def)

text \<open>What the calls write, from the clock reading \<open>n\<close> on, and how many bytes a level counts.\<close>

fun logged :: "log_env \<Rightarrow> rlog_level_t \<Rightarrow> nat \<Rightarrow> log_call list \<Rightarrow> bytes" where
  "logged env lv n [] = []"
| "logged env lv n ((l, fmt, args) # cs) =
    (if l < lv then logged env lv n cs else line_of env n l (args fmt) @ logged env lv (n + 1) cs)"

fun counted :: "rlog_level_t \<Rightarrow> rlog_level_t \<Rightarrow> log_call list \<Rightarrow> int" where
  "counted lv k [] = 0"
| "counted lv k ((l, fmt, args) # cs) = (if l = k \<and> lv \<le> l then int (length (args fmt)) else 0) + counted lv k cs"

lemma counted_nonneg: "0 \<le> counted lv k cs"
  by (induction lv k cs rule: counted.induct) simp_all

lemma calls_ready:
  assumes "times_ok env" "ready t p lv mx f q S L sz content w" "list_all call_ok cs" "\<forall>l. 0 \<le> sz l"
  shows "\<forall>l. sz l + counted lv l cs \<le> mx \<Longrightarrow> \<exists>w'. log_calls env cs w = Some (w', replicate (length cs) rcode_ok) \<and>
      ready t p lv mx f q S L (\<lambda>l. sz l + counted lv l cs) (content @ logged env lv (lw_reads w) cs) w' \<and>
      lw_out w' = lw_out w @ logged env lv (lw_reads w) cs"
    and "\<not> (\<forall>l. sz l + counted lv l cs \<le> mx) \<Longrightarrow> \<forall>l. sz l \<le> mx \<Longrightarrow> \<not> le_recursive env \<Longrightarrow> log_calls env cs w = None"
  using assms(2-)
proof (induction cs arbitrary: w sz content)
  case Nil
  {
    case 1 then show ?case by simp
  next
    case 2 then show ?case by simp
  }
next
  case (Cons c cs)
  obtain l fmt args where c: "c = (l, fmt, args)" by (metis surj_pair)
  {
    case 1
    let ?n = "int (length (args fmt))" and ?sz = "sz(l := sz l + int (length (args fmt)))"
    have ok: "cstr_ok (args fmt)" "length (args fmt) < rlog_temp_data_size - 1" "l \<noteq> rlog_level_all" "list_all call_ok cs"
      using "1.prems"(3) by (simp_all add: c)
    note P = printf_ready [where fmt = fmt and args = args, OF "1.prems"(2) assms(1) ok(1-3)]
    show ?case
    proof (cases "l < lv")
      case True
      then have "\<not> lv \<le> l" by simp
      then have "(\<lambda>k. sz k + counted lv k (c # cs)) = (\<lambda>k. sz k + counted lv k cs)" by (simp add: c)
      with True show ?thesis using Cons.IH(1) [OF _ "1.prems"(2) ok(4) "1.prems"(4)] "1.prems"(1) True P(1)
        by (auto simp: c rlog_printf_def fun_eq_iff)
    next
      case False
      have m: "sz l + ?n \<le> mx" using "1.prems"(1) [rule_format, of l] counted_nonneg [of lv l cs] False by (simp add: c not_less)
      obtain w1 where w1: "printf_with env (rinfo 2 env) w 0 l fmt args = Some (w1, rcode_ok)" "lw_reads w1 = lw_reads w + 1"
        "ready t p lv mx f q S L ?sz (content @ line_of env (lw_reads w) l (args fmt)) w1"
        "lw_out w1 = lw_out w @ line_of env (lw_reads w) l (args fmt)"
        using P(2) [OF leI [OF False] m "1.prems"(4) [rule_format], of "rinfo 2 env"] by (elim exE conjE) (rule that)
      have cnt: "(\<lambda>k. ?sz k + counted lv k cs) = (\<lambda>k. sz k + counted lv k (c # cs))" using False by (auto simp: c not_less)
      have "\<forall>k. ?sz k + counted lv k cs \<le> mx" using "1.prems"(1) fun_cong [OF cnt] by metis
      moreover have "\<forall>k. 0 \<le> ?sz k" using "1.prems"(4) by simp
      ultimately obtain w2 where
        "log_calls env cs w1 = Some (w2, replicate (length cs) rcode_ok)"
        "ready t p lv mx f q S L (\<lambda>k. ?sz k + counted lv k cs) ((content @ line_of env (lw_reads w) l (args fmt)) @ logged env lv (lw_reads w1) cs) w2"
        "lw_out w2 = lw_out w1 @ logged env lv (lw_reads w1) cs"
        using Cons.IH(1) [OF _ w1(3) ok(4)] by blast
      then show ?thesis using False w1 unfolding cnt by (simp add: c rlog_printf_def)
    qed
  next
    case 2
    let ?n = "int (length (args fmt))" and ?sz = "sz(l := sz l + int (length (args fmt)))"
    have ok: "cstr_ok (args fmt)" "length (args fmt) < rlog_temp_data_size - 1" "l \<noteq> rlog_level_all" "list_all call_ok cs"
      using "2.prems"(5) by (simp_all add: c)
    note P = printf_ready [where fmt = fmt and args = args, OF "2.prems"(4) assms(1) ok(1-3)]
    show ?case
    proof (cases "l < lv")
      case True
      then have "\<not> lv \<le> l" by simp
      with True show ?thesis using Cons.IH(2) [OF _ "2.prems"(2-4) ok(4) "2.prems"(6)] "2.prems"(1) P(1)
        by (auto simp: c rlog_printf_def)
    next
      case False
      show ?thesis
      proof (cases "sz l + ?n \<le> mx")
        case True
        obtain w1 where w1: "printf_with env (rinfo 2 env) w 0 l fmt args = Some (w1, rcode_ok)"
          "ready t p lv mx f q S L ?sz (content @ line_of env (lw_reads w) l (args fmt)) w1"
          using P(2) [OF leI [OF False] True "2.prems"(6) [rule_format], of "rinfo 2 env"] by (elim exE conjE) (rule that)
        have cnt: "?sz k + counted lv k cs = sz k + counted lv k (c # cs)" for k using False by (auto simp: c not_less)
        have "log_calls env cs w1 = None"
          by (rule Cons.IH(2) [OF _ _ "2.prems"(3) w1(2) ok(4)]) (use "2.prems" True cnt in auto)
        then show ?thesis using w1(1) by (simp add: c rlog_printf_def)
      next
        case over: False
        then show ?thesis using P(3) [of "rinfo 2 env"] False "2.prems"(3) by (simp add: c rlog_printf_def not_less)
      qed
    qed
  }
qed

section \<open>Opening the log\<close>

text \<open>Without a global log the lines of the logger go to the output.\<close>

lemma none_say: "lw_all w = None \<Longrightarrow> rinfo (Suc n) env w l line args = say_out env w l line args"
  by (simp add: quiet_rinfo log_or_global_def not_ready_def say_out_def)

lemma say_outE:
  assumes "say_out env w l line args = Some w'"
  obtains s where "w' = print_out w s"
  using assms by (auto simp: say_out_def split: if_splits)

text \<open>
  The file of a log that is not split by levels: the path its name stands for, which must not change
  with the date or the second while the log is opened.
\<close>

definition log_path :: "log_env \<Rightarrow> cstr \<Rightarrow> nat \<Rightarrow> cstr option" where
  "log_path env template n = do {
     s \<leftarrow> name_before_index env template (rlog_level_2str rlog_level_all) n;
     name \<leftarrow> rstr_repl (fe_junk (le_fe env)) (fe_alloc (le_fe env)) (Some s) (Some rlog_param_file_index) (Some []);
     (q, _) \<leftarrow> rfile_format_path name;
     Some q
   }"

lemma filepath_path:
  assumes "rlog_get_filepath env w t (rlog_level_2str rlog_level_all) False = Some (w', name)"
    "rfile_format_path name = Some (filename, c)"
  shows "log_path env t (lw_reads w) = Some filename"
  using get_filepath_name [OF assms(1)] assms(2) by (auto simp: log_path_def)

text \<open>
  While the items are built: those of the levels \<open>ds\<close> share the stream \<open>f\<close>, which is opened for the
  first of them.
\<close>

definition building ::
  "int \<Rightarrow> rlog \<Rightarrow> int \<Rightarrow> cstr \<Rightarrow> (int \<Rightarrow> stream option) \<Rightarrow> (int \<Rightarrow> rlog option) \<Rightarrow> rlog_level_t set \<Rightarrow> log_world \<Rightarrow> bool" where
  "building p lg f q S L ds w \<longleftrightarrow> lw_all w = None \<and>
    (\<exists>its. lw_logs w = L(p \<mapsto> lg\<lparr>rl_items := its\<rparr>) \<and>
      (\<forall>l. if l \<in> ds then item_ready f 0 (its l) else its l = None)) \<and>
    lw_locks w Global_lock = Some 1 \<and> lw_locks w (Log_lock p) = Some 0 \<and> (\<forall>l\<in>ds. lw_locks w (Item_lock p l) = Some 0) \<and>
    (if ds = {} then fw_streams (lw_fs w) = S \<and> fw_next (lw_fs w) = f
     else f \<noteq> 0 \<and> fw_streams (lw_fs w) = S(f \<mapsto> log_stream q []) \<and> fw_files (lw_fs w) q = Some [])"

lemma fopen_new:
  assumes "fopen env w q ''w+'' = (w', f)" "f \<noteq> 0"
  shows "f = fw_next w" "fw_streams w' = (fw_streams w)(f \<mapsto> log_stream q [])" "fw_files w' q = Some []"
  using assms by (auto simp: fopen_def log_stream_def split: if_splits)

lemma update_itemE:
  assumes "update_item w p l g = Some w'"
  obtains lg it where "lw_logs w p = Some lg" "rl_items lg l = Some it"
    "w' = set_log w p (lg\<lparr>rl_items := (rl_items lg)(l \<mapsto> g it)\<rparr>)"
  using assms by (auto simp: update_item_def set_item_def bind_eq_Some_conv)

lemma roll_awayE:
  assumes "roll_away env w t s q = Some w'"
  obtains fs n where "w' = w\<lparr>lw_fs := fs, lw_reads := n\<rparr>" "fw_streams fs = fw_streams (lw_fs w)" "fw_next fs = fw_next (lw_fs w)"
proof (cases "rfile_exists (lw_fs w) (Some q) \<noteq> 0")
  case True
  with assms obtain w1 roll where g: "rlog_get_filepath env w t s True = Some (w1, roll)"
    "w' = w1\<lparr>lw_fs := fst (rfile_rename (le_fe env) (lw_fs w1) q roll)\<rparr>"
    by (auto simp: roll_away_def bind_eq_Some_conv)
  have rn: "fw_streams (fst (rfile_rename (le_fe env) x q roll)) = fw_streams x"
    "fw_next (fst (rfile_rename (le_fe env) x q roll)) = fw_next x" for x by (simp_all add: rfile_rename_def)
  from g(1) show ?thesis
  proof (rule get_filepath_frame)
    fix fs assume "w1 = w\<lparr>lw_fs := fs, lw_reads := lw_reads w + 2\<rparr>" "fw_streams fs = fw_streams (lw_fs w)"
      "fw_next fs = fw_next (lw_fs w)"
    then show ?thesis using g(2) rn by (intro that [of "lw_reads w + 2" "fst (rfile_rename (le_fe env) fs q roll)"]) simp_all
  qed
next
  case False
  with assms have "w' = w" by (simp add: roll_away_def)
  then show ?thesis by (intro that [of "lw_reads w" "lw_fs w"]) simp_all
qed
lemma open_itemE:
  assumes "open_item env say p l s lf w = Some (w', lf', code)"
  obtains lg t w1 name fn c w2 w3 w4 f4 w5 where "lw_logs w p = Some lg" "rl_template lg = Some t"
    "rlog_get_filepath env w t s False = Some (w1, name)" "rfile_format_path name = Some (fn, c)"
    "update_item w1 p l (li_filename_update (\<lambda>_. Some fn)) = Some w2" "say w2 rlog_level_info 212 [fn] = Some w3"
    "item_stream env p l t s fn lf w3 = Some (w4, lf', f4)" "update_item w4 p l (li_file_update (\<lambda>_. f4)) = Some w5"
    "code = rcode_ok \<Longrightarrow> f4 \<noteq> 0 \<and> w' = w5"
  using assms by (auto simp: open_item_def bind_eq_Some_conv split: if_splits)

lemma open_item_building:
  assumes b: "building p lg f q S L ds w" and t: "rl_template lg = Some t" "\<And>n. log_path env t n = Some q"
    and l: "l \<notin> ds" "w0 = rmutex_init (set_log w p (lg\<lparr>rl_items := its(l \<mapsto> new_item env l)\<rparr>)) (Item_lock p l)"
    and its: "lw_logs w p = Some (lg\<lparr>rl_items := its\<rparr>)"
    and lf: "lf = (if ds = {} then [] else q)" "ds = {} \<or> l \<noteq> rlog_level_verb \<and> item_levels ! (level_num l - 1) \<in> ds"
    and run: "open_item env (rinfo (Suc n) env) p l (rlog_level_2str rlog_level_all) lf w0 = Some (w', lf', rcode_ok)"
  shows "building p lg f q S L (insert l ds) w' \<and> lf' = q"
proof -
  have B: "lw_all w = None" "lw_logs w = L(p \<mapsto> lg\<lparr>rl_items := its\<rparr>)"
    "\<And>k. if k \<in> ds then item_ready f 0 (its k) else its k = None"
    "lw_locks w Global_lock = Some 1" "lw_locks w (Log_lock p) = Some 0" "\<And>k. k \<in> ds \<Longrightarrow> lw_locks w (Item_lock p k) = Some 0"
    "if ds = {} then fw_streams (lw_fs w) = S \<and> fw_next (lw_fs w) = f
     else f \<noteq> 0 \<and> fw_streams (lw_fs w) = S(f \<mapsto> log_stream q []) \<and> fw_files (lw_fs w) q = Some []"
  proof -
    obtain its' where i: "lw_logs w = L(p \<mapsto> lg\<lparr>rl_items := its'\<rparr>)" "\<forall>l. if l \<in> ds then item_ready f 0 (its' l) else its' l = None"
      using b unfolding building_def by blast
    have "lg\<lparr>rl_items := its'\<rparr> = lg\<lparr>rl_items := its\<rparr>" using its i(1) by simp
    then have "its' = its" using arg_cong [of _ _ rl_items] by fastforce
    with i show "lw_logs w = L(p \<mapsto> lg\<lparr>rl_items := its\<rparr>)" "\<And>k. if k \<in> ds then item_ready f 0 (its k) else its k = None" by auto
  qed (use b in \<open>simp_all add: building_def\<close>)
  have w0: "lw_logs w0 p = Some (lg\<lparr>rl_items := its(l \<mapsto> new_item env l)\<rparr>)" "lw_all w0 = None" using B(1) by (simp_all add: l(2) rmutex_init_def)
  obtain lgx tx w1 name fn c w2 w3 w4 lf4 f4 w5 where r: "lw_logs w0 p = Some lgx" "rl_template lgx = Some tx"
    "rlog_get_filepath env w0 tx (rlog_level_2str rlog_level_all) False = Some (w1, name)" "rfile_format_path name = Some (fn, c)"
    "update_item w1 p l (li_filename_update (\<lambda>_. Some fn)) = Some w2"
    "rinfo (Suc n) env w2 rlog_level_info 212 [fn] = Some w3"
    "item_stream env p l tx (rlog_level_2str rlog_level_all) fn lf w3 = Some (w4, lf4, f4)"
    "update_item w4 p l (li_file_update (\<lambda>_. f4)) = Some w5"
    and out: "f4 \<noteq> 0" "w' = w5" "lf' = lf4"
    by (rule open_itemE [OF run]) simp
  have tx: "tx = t" using r(1,2) w0(1) t(1) by auto
  have fnq: "fn = q" "q \<noteq> []" using filepath_path [OF r(3,4)] tx t(2) format_path_nonempty [OF r(4)] by auto
  note w2 = r(5) [unfolded fnq(1)] and w4 = r(7) [unfolded fnq(1) tx] and w5 = r(8)
  obtain fs1 where w1: "w1 = w0\<lparr>lw_fs := fs1, lw_reads := lw_reads w0 + 2\<rparr>" "fw_streams fs1 = fw_streams (lw_fs w0)"
    "fw_files fs1 = fw_files (lw_fs w0)" "fw_next fs1 = fw_next (lw_fs w0)" by (rule get_filepath_frame [OF r(3)])
  have all2: "lw_all w2 = None" by (rule update_itemE [OF w2]) (simp add: w0(2) w1(1))
  obtain s where w3: "w3 = print_out w2 s" using say_outE [OF r(6) [unfolded none_say [OF all2]]] by blast
  have all3: "lw_all w3 = None" using all2 w3 by simp
  define it where "it = (new_item env l)\<lparr>li_filename := Some q\<rparr>"
  have w2': "w2 = set_log w1 p (lg\<lparr>rl_items := its(l \<mapsto> it)\<rparr>)"
    using w2 w0(1) w1(1) by (auto simp: update_item_def set_item_def it_def)
  have pre: "fw_streams (lw_fs w3) = fw_streams (lw_fs w)" "fw_files (lw_fs w3) = fw_files (lw_fs w)"
    "fw_next (lw_fs w3) = fw_next (lw_fs w)" "lw_logs w3 = L(p \<mapsto> lg\<lparr>rl_items := its(l \<mapsto> it)\<rparr>)"
    "lw_locks w3 = (lw_locks w)(Item_lock p l \<mapsto> 0)"
    using w1 B(2) by (simp_all add: w3 w2' l(2) rmutex_init_def)
  have stream: "lf4 = q \<and> f4 = f \<and> lw_logs w4 = lw_logs w3 \<and> lw_locks w4 = lw_locks w3 \<and> lw_all w4 = None \<and>
      fw_streams (lw_fs w4) = S(f \<mapsto> log_stream q []) \<and> fw_files (lw_fs w4) q = Some []"
  proof (cases "ds = {}")
    case True
    then have lf0: "lf = []" using lf(1) by simp
    obtain w31 where w31: "roll_away env w3 t (rlog_level_2str rlog_level_all) q = Some w31"
      "w4 = w31\<lparr>lw_fs := fst (fopen (le_fe env) (lw_fs w31) q ''w+'')\<rparr>" "lf4 = q" "f4 = snd (fopen (le_fe env) (lw_fs w31) q ''w+'')"
      using w4 lf0 by (auto simp: item_stream_def Let_def bind_eq_Some_conv)
    have "fopen (le_fe env) (lw_fs w31) q ''w+'' = (lw_fs w4, f4)" using w31(2,4) by simp
    note F = fopen_new [OF this out(1)]
    show ?thesis
      by (rule roll_awayE [OF w31(1)]) (use F w31 pre B(7) True all3 in auto)
  next
    case False
    then have "lf = q" "item_levels ! (level_num l - 1) \<in> ds" "l \<noteq> rlog_level_verb" "item_levels ! (level_num l - 1) \<noteq> l"
      using lf l(1) by auto
    then show ?thesis
      using w4 pre B(3) [of "item_levels ! (level_num l - 1)"] B(7) False fnq(2) all3
      by (auto simp: item_stream_def bind_eq_Some_conv item_ready_def split: if_splits)
  qed
  define it' where "it' = it\<lparr>li_file := f\<rparr>"
  have w5': "w5 = set_log w4 p (lg\<lparr>rl_items := its(l \<mapsto> it')\<rparr>)"
    using w5 stream pre(4) by (auto simp: update_item_def set_item_def it'_def)
  have "item_ready f 0 (Some it')"
    by (simp add: item_ready_def it'_def it_def new_item_def Let_def rlog_temp_data_size_def)
  then have "\<forall>k. if k \<in> insert l ds then item_ready f 0 ((its(l \<mapsto> it')) k) else (its(l \<mapsto> it')) k = None"
    using B(3) by auto
  then show ?thesis
    using stream pre B(4-6) out unfolding building_def out(2) w5'
    by (intro conjI exI [of _ "its(l \<mapsto> it')"]) auto
qed
lemma item_levels_nth: "i < 7 \<Longrightarrow> level_num (item_levels ! i) = i"
  by (auto simp: item_levels_def less_Suc_eq numeral_eq_Suc)

lemma item_levels_split:
  assumes "item_levels = pre @ l # ls"
  shows "l \<notin> set pre" "pre = [] \<or> l \<noteq> rlog_level_verb \<and> item_levels ! (level_num l - 1) \<in> set pre"
proof -
  have "distinct item_levels" by (simp add: item_levels_def)
  then show "l \<notin> set pre" by (simp add: assms)
  have len: "length pre < 7" using arg_cong [OF assms, of length] by (simp add: item_levels_def)
  have n: "level_num l = length pre" using item_levels_nth [OF len] by (simp add: assms)
  show "pre = [] \<or> l \<noteq> rlog_level_verb \<and> item_levels ! (level_num l - 1) \<in> set pre"
    using n by (cases "pre = []") (auto simp: assms nth_append)
qed

lemma build_loop_building:
  assumes "rl_template lg = Some t" "\<And>n. log_path env t n = Some q"
  shows "item_levels = pre @ ls \<Longrightarrow> building p lg f q S L (set pre) w \<Longrightarrow> lf = (if pre = [] then [] else q) \<Longrightarrow>
    build_loop env (rinfo (Suc n) env) p True lev False ls lf w = Some (w', rcode_ok) \<Longrightarrow>
    building p lg f q S L (set item_levels) w'"
proof (induction ls arbitrary: pre lf w)
  case (Cons l ls)
  note I = item_levels_split [OF Cons.prems(1)]
  obtain its where its: "lw_logs w p = Some (lg\<lparr>rl_items := its\<rparr>)" "its l = None"
    using Cons.prems(2) I(1) unfolding building_def by fastforce
  let ?w0 = "rmutex_init (set_log w p (lg\<lparr>rl_items := its(l \<mapsto> new_item env l)\<rparr>)) (Item_lock p l)"
  obtain w1 lf1 where o: "open_item env (rinfo (Suc n) env) p l (rlog_level_2str rlog_level_all) lf ?w0 = Some (w1, lf1, rcode_ok)"
    and r: "build_loop env (rinfo (Suc n) env) p True lev False ls lf1 w1 = Some (w', rcode_ok)"
    using Cons.prems(4) its by (auto simp: set_item_def bind_eq_Some_conv split: if_splits)
  have lf: "lf = (if set pre = {} then [] else q)" "set pre = {} \<or> l \<noteq> rlog_level_verb \<and> item_levels ! (level_num l - 1) \<in> set pre"
    using Cons.prems(3) I(2) by auto
  note S = open_item_building [OF Cons.prems(2) assms I(1) refl its(1) lf o]
  show ?case
    by (rule Cons.IH [OF _ _ _ r, of "pre @ [l]"]) (use S Cons.prems(1) in auto)
qed simp

lemma rlog_initE:
  assumes "rlog_init env w (Some name) level sep mb = Some (w', rcode_ok)" "lw_all w = None" "lw_next w \<noteq> 0"
  obtains w1 w2 w3 w4 where
    "rmutex_lock env (set_log (rmutex_init w Global_lock\<lparr>lw_next := lw_next w + 1\<rparr>) (lw_next w) empty_log) Global_lock = Some w1"
    "init_body env (rinfo 2 env) w1 (lw_next w) (Some name) level sep mb = Some (w2, rcode_ok)"
    "set_state w2 (lw_next w) rlog_state_working = Some w3" "rinfo 2 env w3 rlog_level_info 347 [name] = Some w4"
    "(do { w5 \<leftarrow> rmutex_unlock w4 Global_lock; w6 \<leftarrow> rmutex_lock env w5 Global_lock;
       rmutex_unlock (w6\<lparr>lw_all := Some (lw_next w)\<rparr>) Global_lock }) = Some w'"
  using assms
  by (auto simp: rlog_init_def rlog_init_log_def Let_def rmutex_init_def empty_log_def bind_eq_Some_conv split: if_splits)

lemma init_ready:
  assumes fresh: "lw_all w = None" "lw_next w \<noteq> 0" "fw_streams (lw_fs w) (fw_next (lw_fs w)) = None"
    and path: "rlog_format_filepath_template env name = Some t" "\<And>n. log_path env t n = Some q"
    and run: "rlog_init env w (Some name) level False mb = Some (w', rcode_ok)"
  shows "ready t (lw_next w) (if level = rlog_level_all then rlog_level_verb else level) ((if mb < 1 then 1 else mb) * 1024000)
    (fw_next (lw_fs w)) q (fw_streams (lw_fs w)) (lw_logs w) (\<lambda>_. 0) [] w'"
proof -
  let ?p = "lw_next w" and ?L = "lw_logs w" and ?mx = "(if mb < 1 then 1 else mb) * 1024000"
    and ?lv = "if level = rlog_level_all then rlog_level_verb else level" and ?S = "fw_streams (lw_fs w)" and ?f = "fw_next (lw_fs w)"
  obtain w1 w2 w3 w4 where r:
    "rmutex_lock env (set_log (rmutex_init w Global_lock\<lparr>lw_next := ?p + 1\<rparr>) ?p empty_log) Global_lock = Some w1"
    "init_body env (rinfo 2 env) w1 ?p (Some name) level False mb = Some (w2, rcode_ok)"
    "set_state w2 ?p rlog_state_working = Some w3" "rinfo 2 env w3 rlog_level_info 347 [name] = Some w4"
    "(do { w5 \<leftarrow> rmutex_unlock w4 Global_lock; w6 \<leftarrow> rmutex_lock env w5 Global_lock;
       rmutex_unlock (w6\<lparr>lw_all := Some ?p\<rparr>) Global_lock }) = Some w'"
    using rlog_initE [OF run fresh(1,2)] .
  define lg where "lg = empty_log\<lparr>rl_level := ?lv, rl_size_max := ?mx, rl_template := Some t\<rparr>"
  have w1: "lw_all w1 = None" "lw_logs w1 = ?L(?p \<mapsto> empty_log)" "lw_locks w1 Global_lock = Some 1" "lw_fs w1 = lw_fs w"
    using r(1) fresh(1) by (auto simp: rmutex_lock_def rmutex_init_def)
  define v where "v = set_log (rmutex_init w1 (Log_lock ?p)) ?p lg"
  have "rlog_build_items env (rinfo 2 env) v ?p True rlog_level_all False = Some (w2, rcode_ok)" and mx: "?mx \<le> INT_MAX"
    using r(2) w1(2) path(1) by (auto simp: init_body_def Let_def rmutex_init_def empty_log_def set_log_def v_def lg_def
      bind_eq_Some_conv int32_eq_Some split: if_splits)
  then obtain v1 where v1: "build_loop env (rinfo 2 env) ?p True rlog_level_all False item_levels [] v = Some (v1, rcode_ok)"
    "rinfo 2 env v1 rlog_level_info 237 [] = Some w2"
    by (auto simp: rlog_build_items_def bind_eq_Some_conv split: if_splits)
  have "building ?p lg ?f q ?S ?L {} v"
    using w1 unfolding building_def
    by (intro conjI exI [of _ Map.empty]) (simp_all add: v_def rmutex_init_def lg_def empty_log_def split del: if_split)
  then have b: "building ?p lg ?f q ?S ?L (set item_levels) v1"
    using build_loop_building [of lg t env q "[]" item_levels ?p ?f ?S ?L v "[]" 1 rlog_level_all v1] path(2) v1(1)
    by (simp add: lg_def numeral_2_eq_2)
  then obtain its where B: "lw_all v1 = None" "lw_logs v1 = ?L(?p \<mapsto> lg\<lparr>rl_items := its\<rparr>)"
    "\<And>l. if l \<in> set item_levels then item_ready ?f 0 (its l) else its l = None"
    "lw_locks v1 Global_lock = Some 1" "lw_locks v1 (Log_lock ?p) = Some 0"
    "\<And>l. l \<in> set item_levels \<Longrightarrow> lw_locks v1 (Item_lock ?p l) = Some 0"
    "?f \<noteq> 0" "fw_streams (lw_fs v1) = ?S(?f \<mapsto> log_stream q [])" "fw_files (lw_fs v1) q = Some []"
    unfolding building_def by (auto simp: item_levels_def)
  have say: "rinfo 2 env v' l n a = say_out env v' l n a" if "lw_all v' = None" for v' l n a
    using none_say [OF that, of 1] by (simp add: numeral_2_eq_2)
  obtain s1 where w2: "w2 = print_out v1 s1" using say_outE [OF v1(2) [unfolded say [OF B(1)]]] by blast
  have w3: "w3 = set_log w2 ?p (lg\<lparr>rl_items := its, rl_state := rlog_state_working\<rparr>)"
    using r(3) B(2) by (auto simp: set_state_def w2 bind_eq_Some_conv)
  then have "lw_all w3 = None" using B(1) w2 by simp
  then obtain s2 where w4: "w4 = print_out w3 s2" using say_outE r(4) say by metis
  have all: "l \<in> set item_levels" if "l \<noteq> rlog_level_all" for l using that by (cases l) (simp_all add: item_levels_def)
  have locks: "lw_locks w4 Global_lock = Some 1" by (simp add: w4 w3 w2 B(4))
  have w': "w' = w4\<lparr>lw_locks := (lw_locks w4)(Global_lock \<mapsto> 0), lw_all := Some ?p\<rparr>"
    using r(5) locks by (auto simp: rmutex_unlock_def rmutex_lock_def bind_eq_Some_conv split: if_splits)
  show ?thesis
    unfolding ready_def
    by (intro conjI exI [of _ "lg\<lparr>rl_items := its, rl_state := rlog_state_working\<rparr>"])
      (use B all mx fresh in \<open>auto simp: w' w4 w3 w2 lg_def empty_log_def split: if_splits\<close>)
qed

section \<open>Closing the log\<close>

definition closed_stream :: "log_world \<Rightarrow> int \<Rightarrow> fworld" where
  "closed_stream w f = (lw_fs w)\<lparr>fw_streams := (fw_streams (lw_fs w))(f := None)\<rparr>"

lemma uninit_loop_closes:
  assumes "lw_logs w p = Some lg" "\<And>l. l \<in> set ls \<Longrightarrow> \<exists>it. rl_items lg l = Some it \<and> li_file it = f"
    "\<And>l. l \<in> set ls \<Longrightarrow> lw_locks w (Item_lock p l) = Some 0" "distinct ls" "f \<noteq> 0"
    "lf = 0 \<and> fw_streams (lw_fs w) f \<noteq> None \<or> lf = f"
  shows "\<exists>lg'. uninit_loop p ls (lf, w) = Some (if ls = [] then lf else f,
    w\<lparr>lw_logs := (lw_logs w)(p \<mapsto> lg'), lw_fs := (if lf = 0 \<and> ls \<noteq> [] then closed_stream w f else lw_fs w),
      lw_locks := (\<lambda>m. if m \<in> Item_lock p ` set ls then None else lw_locks w m)\<rparr>)"
  using assms
proof (induction ls arbitrary: lf w lg)
  case Nil
  then show ?case by (intro exI [of _ lg]) (simp add: fun_upd_idem)
next
  case (Cons l ls)
  obtain it where it: "rl_items lg l = Some it" "li_file it = f" using Cons.prems(2) by auto
  have lock: "lw_locks w (Item_lock p l) = Some 0" using Cons.prems(3) by simp
  define fs where "fs = (if lf = 0 then closed_stream w f else lw_fs w)"
  define lg1 where "lg1 = lg\<lparr>rl_items := (rl_items lg)(l := None)\<rparr>"
  define w1 where "w1 = w\<lparr>lw_fs := fs, lw_locks := (lw_locks w)(Item_lock p l := None), lw_logs := (lw_logs w)(p \<mapsto> lg1)\<rparr>"
  have step: "uninit_item p l (lf, w) = Some (f, w1)"
    using Cons.prems(1,5,6) it lock
    by (auto simp: uninit_item_def flush_stream_def close_stream_def fclose_def rmutex_uninit_def set_item_def set_log_def
      w1_def fs_def lg1_def closed_stream_def)
  have "\<exists>lg'. uninit_loop p ls (f, w1) = Some (if ls = [] then f else f,
    w1\<lparr>lw_logs := (lw_logs w1)(p \<mapsto> lg'), lw_fs := (if f = 0 \<and> ls \<noteq> [] then closed_stream w1 f else lw_fs w1),
      lw_locks := (\<lambda>m. if m \<in> Item_lock p ` set ls then None else lw_locks w1 m)\<rparr>)"
  proof (rule Cons.IH [of w1 lg1])
    show "\<exists>it. rl_items lg1 k = Some it \<and> li_file it = f" if "k \<in> set ls" for k
      using Cons.prems(2) [of k] Cons.prems(4) that by (auto simp: lg1_def)
    show "lw_locks w1 (Item_lock p k) = Some 0" if "k \<in> set ls" for k
      using Cons.prems(3) [of k] Cons.prems(4) that by (auto simp: w1_def)
  qed (use Cons.prems in \<open>auto simp: w1_def\<close>)
  then obtain lg' where e: "uninit_loop p ls (f, w1) = Some (f, w1\<lparr>lw_logs := (lw_logs w1)(p \<mapsto> lg'), lw_fs := lw_fs w1,
      lw_locks := (\<lambda>m. if m \<in> Item_lock p ` set ls then None else lw_locks w1 m)\<rparr>)"
    using Cons.prems(5) by auto
  have "(\<lambda>m. if m \<in> Item_lock p ` set ls then None else lw_locks w1 m) =
      (\<lambda>m. if m \<in> Item_lock p ` set (l # ls) then None else lw_locks w m)"
    by (auto simp: w1_def fun_eq_iff)
  note e [unfolded this]
  then show ?case by (intro exI [of _ lg']) (auto simp: step w1_def fs_def fun_eq_iff intro!: log_world.equality)
qed

text \<open>The log as it is when \<open>rlog_uninit\<close> begins, and what is left.\<close>

lemma uninit_ready:
  assumes r: "ready t p lv mx f q S L sz content w" and "times_ok env"
    and c: "cstr_ok (le_text env 364 [t])" "length (le_text env 364 [t]) < rlog_temp_data_size - 1"
      "sz rlog_level_info + int (length (le_text env 364 [t])) \<le> mx" "0 \<le> sz rlog_level_info"
  obtains w' where "rlog_uninit env w = Some (w', rcode_ok)" "lw_all w' = None" "lw_logs w' = L(p := None)"
    "fw_streams (lw_fs w') = S" "lw_locks w' Global_lock = None" "lw_locks w' (Log_lock p) = None"
    "\<And>l. l \<noteq> rlog_level_all \<Longrightarrow> lw_locks w' (Item_lock p l) = None"
    "fw_files (lw_fs w') q = Some (content @ (if lv \<le> rlog_level_info then line_of env (lw_reads w) rlog_level_info (le_text env 364 [t]) else []))"
proof -
  let ?c = "le_text env 364 [t]" and ?i = rlog_level_info
  let ?content = "content @ (if lv \<le> ?i then line_of env (lw_reads w) ?i ?c else [])"
  note P = printf_ready [where fmt = ?c and args = "\<lambda>s. s", OF r assms(2) c(1,2), of ?i]
  have "\<exists>w1 sz1. rinfo 2 env w ?i 364 [t] = Some w1 \<and> ready t p lv mx f q S L sz1 ?content w1"
  proof (cases "lv \<le> ?i")
    case True
    then show ?thesis using P(2) [of "rinfo 1 env"] c(3,4) by (fastforce simp: numeral_2_eq_2 rinfo.simps)
  next
    case False
    then show ?thesis using P(1) [of "rinfo 1 env"] r by (force simp: numeral_2_eq_2 rinfo.simps not_le)
  qed
  then obtain w1 sz1 where w1: "rinfo 2 env w ?i 364 [t] = Some w1" "ready t p lv mx f q S L sz1 ?content w1" by blast
  obtain lg1 where R: "lw_all w1 = Some p" "p \<noteq> 0" "f \<noteq> 0" "S f = None" "lw_logs w1 = L(p \<mapsto> lg1)"
    "\<And>l. l \<noteq> rlog_level_all \<Longrightarrow> item_ready f (sz1 l) (rl_items lg1 l)"
    "lw_locks w1 Global_lock = Some 0" "lw_locks w1 (Log_lock p) = Some 0"
    "\<And>l. l \<noteq> rlog_level_all \<Longrightarrow> lw_locks w1 (Item_lock p l) = Some 0"
    "fw_streams (lw_fs w1) = S(f \<mapsto> log_stream q ?content)" "fw_files (lw_fs w1) q = Some ?content"
    by (rule readyE [OF w1(2)]) metis
  obtain lg where lg: "lw_logs w p = Some lg" "rl_template lg = Some t" using r by (auto simp: ready_def)
  define lg2 where "lg2 = lg1\<lparr>rl_state := rlog_state_uninit\<rparr>"
  define w2 where "w2 = set_log (w1\<lparr>lw_locks := (lw_locks w1)(Global_lock \<mapsto> 1)\<rparr>) p lg2"
  have nall: "rlog_level_all \<notin> set item_levels" "distinct item_levels" "item_levels \<noteq> []" by (simp_all add: item_levels_def)
  have "\<exists>lg'. uninit_loop p item_levels (0, w2) = Some (if item_levels = [] then 0 else f,
    w2\<lparr>lw_logs := (lw_logs w2)(p \<mapsto> lg'), lw_fs := (if (0::int) = 0 \<and> item_levels \<noteq> [] then closed_stream w2 f else lw_fs w2),
      lw_locks := (\<lambda>m. if m \<in> Item_lock p ` set item_levels then None else lw_locks w2 m)\<rparr>)"
  proof (rule uninit_loop_closes)
    show "\<exists>it. rl_items lg2 l = Some it \<and> li_file it = f" if "l \<in> set item_levels" for l
      using R(6) [of l] nall(1) that by (auto simp: lg2_def item_ready_def)
    show "lw_locks w2 (Item_lock p l) = Some 0" if "l \<in> set item_levels" for l
      using R(9) [of l] nall(1) that by (auto simp: w2_def)
  qed (use R nall in \<open>auto simp: w2_def\<close>)
  then obtain lg' where loop: "uninit_loop p item_levels (0, w2) = Some (f,
    w2\<lparr>lw_logs := (lw_logs w2)(p \<mapsto> lg'), lw_fs := closed_stream w2 f,
      lw_locks := (\<lambda>m. if m \<in> Item_lock p ` set item_levels then None else lw_locks w2 m)\<rparr>)" using nall(3) by auto
  define w' where "w' = w2\<lparr>lw_logs := L(p := None), lw_fs := closed_stream w2 f, lw_all := None,
    lw_locks := (\<lambda>m. if m = Global_lock \<or> m = Log_lock p \<or> m \<in> Item_lock p ` set item_levels then None else lw_locks w1 m)\<rparr>"
  have lk: "rmutex_lock env w1 Global_lock = Some (w1\<lparr>lw_locks := (lw_locks w1)(Global_lock \<mapsto> Suc 0)\<rparr>)"
    using R(7) by (simp add: rmutex_lock_def)
  have st: "set_state (w1\<lparr>lw_locks := (lw_locks w1)(Global_lock \<mapsto> Suc 0)\<rparr>) p rlog_state_uninit = Some w2"
    using R(5) by (simp add: set_state_def w2_def lg2_def)
  let ?w4 = "w2\<lparr>lw_logs := (lw_logs w2)(p \<mapsto> lg'), lw_fs := closed_stream w2 f,
      lw_locks := (\<lambda>m. if m \<in> Item_lock p ` set item_levels then None else lw_locks w2 m)\<rparr>"
  have "rlog_uninit_log env (rinfo 2 env) w p = rmutex_uninit ?w4 (Log_lock p) \<bind> (\<lambda>w5.
      rmutex_unlock (w5\<lparr>lw_logs := (lw_logs w5)(p := None)\<rparr>) Global_lock \<bind> (\<lambda>w6. Some (w6, rcode_ok)))"
    by (simp add: rlog_uninit_log_def lg w1(1) lk st loop)
  also have "rmutex_uninit ?w4 (Log_lock p) = Some (?w4\<lparr>lw_locks := (lw_locks ?w4)(Log_lock p := None)\<rparr>)"
    using R(8) by (simp add: rmutex_uninit_def w2_def image_iff)
  also have "Some (?w4\<lparr>lw_locks := (lw_locks ?w4)(Log_lock p := None)\<rparr>) \<bind> (\<lambda>w5.
      rmutex_unlock (w5\<lparr>lw_logs := (lw_logs w5)(p := None)\<rparr>) Global_lock \<bind> (\<lambda>w6. Some (w6, rcode_ok))) =
      Some (w'\<lparr>lw_all := Some p, lw_locks := (lw_locks w')(Global_lock \<mapsto> 0)\<rparr>, rcode_ok)"
  proof -
    let ?w5 = "(?w4\<lparr>lw_locks := (lw_locks ?w4)(Log_lock p := None)\<rparr>)\<lparr>lw_logs := (lw_logs ?w4)(p := None)\<rparr>"
    have g: "lw_locks ?w5 Global_lock = Some 1" by (simp add: w2_def image_iff)
    have "?w5\<lparr>lw_locks := (lw_locks ?w5)(Global_lock \<mapsto> 1 - 1)\<rparr> = w'\<lparr>lw_all := Some p, lw_locks := (lw_locks w')(Global_lock \<mapsto> 0)\<rparr>"
      by (rule log_world.equality) (simp_all add: w'_def w2_def R(1,5) fun_eq_iff image_iff)
    then show ?thesis using g by (simp add: rmutex_unlock_def)
  qed
  finally have "rlog_uninit_log env (rinfo 2 env) w p = Some (w'\<lparr>lw_all := Some p, lw_locks := (lw_locks w')(Global_lock \<mapsto> 0)\<rparr>, rcode_ok)" .
  note closing = this
  have a: "lw_all w = Some p" using r by (simp add: ready_def)
  have "rmutex_uninit (w'\<lparr>lw_locks := (lw_locks w')(Global_lock \<mapsto> 0)\<rparr>) Global_lock = Some w'"
    by (simp add: rmutex_uninit_def w'_def) (auto intro!: log_world.equality)
  moreover have "w'\<lparr>lw_locks := x, lw_all := None\<rparr> = w'\<lparr>lw_locks := x\<rparr>" for x by (simp add: w'_def)
  ultimately have run: "rlog_uninit env w = Some (w', rcode_ok)"
    by (simp add: rlog_uninit_def a R(2) closing)
  have "l \<in> set item_levels" if "l \<noteq> rlog_level_all" for l using that by (cases l) (simp_all add: item_levels_def)
  then show ?thesis
    using R(4,10,11) by (intro that [OF run]) (auto simp: w'_def w2_def closed_stream_def)
qed

section \<open>Templates\<close>

lemma template_form:
  assumes "\<forall>n. fe_alloc (le_fe env) n" "cstr_ok name" "length name < 2 ^ 16" "rstr_index name rlog_param_file_index < 0"
  shows "rlog_format_filepath_template env name = Some (strip_slashes (norm_slashes (
    case strrchr name 46 of
      None \<Rightarrow> name @ chars ''_${index}.log''
    | Some i \<Rightarrow> take i name @ chars ''_${index}'' @ drop i name)))"
proof -
  let ?al = "fe_alloc (le_fe env)" and ?j = "fe_junk (le_fe env)"
  have cpy: "rstr_cpy ?al (Some name) 0 = name" using assms(1,3) by (simp add: rstr_cpy_def Let_def)
  have idx: "rlog_param_file_index = chars ''${index}''" "cstr_ok rlog_param_file_index" "length rlog_param_file_index = 8"
    by (simp_all add: rlog_param_file_index_def chars_def)
  have join: "rstr_join ?j ?al ss = Some (concat ss)" if "\<forall>s\<in>set ss. cstr_ok s" "length (concat ss) < 2 ^ 17" for ss
    using join_concat_spec [of ss "[]" ?al ?j] that assms(1) by simp
  have fin: "\<not> set (a @ chars ''_${index}'' @ b) \<subseteq> {47, 92}" for a b by (simp add: chars_def)
  show ?thesis
  proof (cases "strrchr name 46")
    case None
    have sfx: "rlog_param_file_suffix = chars ''log''" "cstr_ok rlog_param_file_suffix"
      by (simp_all add: rlog_param_file_suffix_def chars_def)
    have "rstr_join ?j ?al [name, [95], rlog_param_file_index] = Some (name @ [95] @ rlog_param_file_index)"
      using join [of "[name, [95], rlog_param_file_index]"] assms(2,3) idx by simp
    moreover have "rstr_join ?j ?al [name @ [95] @ rlog_param_file_index, [46], rlog_param_file_suffix] =
        Some ((name @ [95] @ rlog_param_file_index) @ [46] @ rlog_param_file_suffix)"
      using join [of "[name @ [95] @ rlog_param_file_index, [46], rlog_param_file_suffix]"] assms(2,3) idx sfx
      by (simp add: rlog_param_file_suffix_def chars_def)
    moreover have "(name @ [95] @ rlog_param_file_index) @ [46] @ rlog_param_file_suffix = name @ chars ''_${index}.log''"
      by (simp add: idx(1) sfx(1) chars_def)
    moreover have "\<not> set (name @ chars ''_${index}.log'') \<subseteq> {47, 92}" by (simp add: chars_def)
    ultimately show ?thesis
      using None assms(4) by (simp add: rlog_format_filepath_template_def cpy rstr_last_index_def rlog_param_file_suffix_gap_def
        rlog_param_file_index_gap_def rfile_format_path_spec)
  next
    case (Some i)
    then have i: "i < length name" "name ! i = 46" by (simp_all add: strrchr_Some)
    have dr: "drop i name = 46 # drop (i + 1) name" using i Cons_nth_drop_Suc [of i name] by simp
    have "rstr_join ?j ?al [take i name, [95], rlog_param_file_index, [46], drop (i + 1) name] =
        Some (take i name @ [95] @ rlog_param_file_index @ [46] @ drop (i + 1) name)"
      using join [of "[take i name, [95], rlog_param_file_index, [46], drop (i + 1) name]"] assms(2,3) idx i cstr_ok_take_drop
      by simp
    moreover have "take i name @ [95] @ rlog_param_file_index @ [46] @ drop (i + 1) name =
        take i name @ chars ''_${index}'' @ drop i name" by (simp add: dr idx(1) chars_def)
    ultimately show ?thesis
      using Some assms(4) fin [of "take i name" "drop i name"]
      by (simp add: rlog_format_filepath_template_def cpy rstr_last_index_def rlog_param_file_suffix_gap_def
        rlog_param_file_index_gap_def rfile_format_path_spec)
  qed
qed

section \<open>Properties\<close>

text \<open>C7: a log for all levels in one file, from \<open>rlog_init\<close> on.  A sequence of log calls returns exactly
when no single level logs more bytes than the limit; then every call reports success, and the file holds
the lines of the calls at or above the level of the log, each once, whole and in order, as does the
output.  The first line that takes a level over the limit never returns: \<open>rlog_rolling_file\<close> waits for
the mutex its caller holds.\<close>

theorem rlog_session:
  assumes "lw_all w = None" "lw_next w \<noteq> 0" "fw_streams (lw_fs w) (fw_next (lw_fs w)) = None"
    and "rlog_format_filepath_template env name = Some t" "\<forall>n. log_path env t n = Some q"
    and "times_ok env" "\<not> le_recursive env"
    and "rlog_init env w (Some name) level False mb = Some (w1, rcode_ok)" "list_all call_ok cs"
    and "lv = (if level = rlog_level_all then rlog_level_verb else level)"
  shows "if \<forall>l. counted lv l cs \<le> max 1 mb * 1024000
    then \<exists>w2. log_calls env cs w1 = Some (w2, replicate (length cs) rcode_ok) \<and>
      fw_files (lw_fs w2) q = Some (logged env lv (lw_reads w1) cs) \<and>
      lw_out w2 = lw_out w1 @ logged env lv (lw_reads w1) cs
    else log_calls env cs w1 = None"
proof -
  have mx: "(if mb < 1 then 1 else mb) = max 1 mb" by (simp add: max_def)
  note r = init_ready [OF assms(1-4) assms(5) [rule_format] assms(8), folded assms(10), unfolded mx]
  note C = calls_ready [OF assms(6) r assms(9)]
  show ?thesis
  proof (cases "\<forall>l. counted lv l cs \<le> max 1 mb * 1024000")
    case True
    then obtain w2 where w2: "log_calls env cs w1 = Some (w2, replicate (length cs) rcode_ok)"
      "ready t (lw_next w) lv (max 1 mb * 1024000) (fw_next (lw_fs w)) q (fw_streams (lw_fs w)) (lw_logs w)
        (\<lambda>l. 0 + counted lv l cs) ([] @ logged env lv (lw_reads w1) cs) w2"
      "lw_out w2 = lw_out w1 @ logged env lv (lw_reads w1) cs"
      using C(1) by auto
    moreover have "fw_files (lw_fs w2) q = Some (logged env lv (lw_reads w1) cs)" using w2(2) by (simp add: ready_def)
    ultimately show ?thesis using True by auto
  next
    case False
    moreover have "log_calls env cs w1 = None" by (rule C(2)) (use False assms(7) in auto)
    ultimately show ?thesis by simp
  qed
qed

text \<open>Closing the log after such calls.  \<open>rlog_uninit\<close> returns, after one more line of its own when the
level of the log lets it through.  It closes the stream, and only that, gives back the log and forgets
every mutex; the file keeps all lines.\<close>

theorem rlog_closing:
  assumes "lw_all w = None" "lw_next w \<noteq> 0" "fw_streams (lw_fs w) (fw_next (lw_fs w)) = None"
    and "rlog_format_filepath_template env name = Some t" "\<forall>n. log_path env t n = Some q" "times_ok env"
    and "rlog_init env w (Some name) level False mb = Some (w1, rcode_ok)" "list_all call_ok cs"
    and "lv = (if level = rlog_level_all then rlog_level_verb else level)"
    and "\<forall>l. counted lv l cs \<le> max 1 mb * 1024000" "log_calls env cs w1 = Some (w2, codes)"
    and "call_ok (rlog_level_info, le_text env 364 [t], id)"
      "counted lv rlog_level_info cs + int (length (le_text env 364 [t])) \<le> max 1 mb * 1024000"
  shows "\<exists>w3. rlog_uninit env w2 = Some (w3, rcode_ok) \<and> lw_all w3 = None \<and> lw_logs w3 = (lw_logs w)(lw_next w := None) \<and>
    fw_streams (lw_fs w3) = fw_streams (lw_fs w) \<and>
    lw_locks w3 Global_lock = None \<and> lw_locks w3 (Log_lock (lw_next w)) = None \<and>
    (\<forall>l. if l = rlog_level_all then True else lw_locks w3 (Item_lock (lw_next w) l) = None) \<and>
    fw_files (lw_fs w3) q = Some (logged env lv (lw_reads w1) cs @
      (if lv \<le> rlog_level_info then line_of env (lw_reads w2) rlog_level_info (le_text env 364 [t]) else []))"
proof -
  have mx: "(if mb < 1 then 1 else mb) = max 1 mb" by (simp add: max_def)
  note r = init_ready [OF assms(1-4) assms(5) [rule_format] assms(7), folded assms(9), unfolded mx]
  have r2: "ready t (lw_next w) lv (max 1 mb * 1024000) (fw_next (lw_fs w)) q (fw_streams (lw_fs w)) (lw_logs w)
      (\<lambda>l. 0 + counted lv l cs) ([] @ logged env lv (lw_reads w1) cs) w2"
    using calls_ready(1) [OF assms(6) r assms(8)] assms(10,11) by auto
  from assms(12) have c: "cstr_ok (le_text env 364 [t])" "length (le_text env 364 [t]) < rlog_temp_data_size - 1" by simp_all
  show ?thesis
    by (rule uninit_ready [OF r2 assms(6) c]) (use assms(13) counted_nonneg in auto)
qed

text \<open>C31: a log with a file for every level has no file at all.  The test that is to leave out the other
levels holds for every level, so no item is built; \<open>rlog_init\<close> reports success all the same, and every
call at or above the level of the log prints an error to the output, reports -1 and writes no file.\<close>

theorem rlog_separated_never_writes:
  assumes "lw_all w = None" "lw_next w \<noteq> 0" "mb * 1024000 \<le> INT_MAX" "length name \<le> 1024"
    and "rlog_format_filepath_template env name \<noteq> None" "\<forall>line args. length (le_text env line args) < rlog_temp_data_size"
    and "lv = (if level = rlog_level_all then rlog_level_verb else level)"
  shows "\<exists>w1. rlog_init env w (Some name) level True mb = Some (w1, rcode_ok) \<and> lw_fs w1 = lw_fs w \<and>
    (\<forall>l fmt args. if lv \<le> l \<and> l \<noteq> rlog_level_all \<and> length (args fmt) < rlog_temp_data_size
      then rlog_printf env w1 0 l fmt args =
        Some (print_out w1 (chars ''(rlog item not ready, error!!!) - '' @ vsn_text (args fmt)), -1)
      else True)"
proof -
  let ?p = "lw_next w"
  obtain t where t: "rlog_format_filepath_template env name = Some t" using assms(5) by blast
  have say: "\<exists>s. rinfo 2 env v l n a = Some (print_out v s)" if "lw_all v = None" for v l n a
    using none_say [OF that, of 1] assms(6) by (auto simp: numeral_2_eq_2 say_out_def)
  have loop: "build_loop env (rinfo 2 env) ?p True rlog_level_all True ls lf v = Some (v, rcode_ok)"
    if "lw_logs v ?p = Some lg" "rl_items lg = Map.empty" "rlog_level_all \<notin> set ls" for v lg ls lf
    using that by (induction ls) auto
  define lg where "lg = empty_log\<lparr>rl_level := lv, rl_separated := True, rl_size_max := (if mb < 1 then 1 else mb) * 1024000,
    rl_template := Some t\<rparr>"
  let ?start = "set_log (rmutex_init w Global_lock\<lparr>lw_next := ?p + 1\<rparr>) ?p empty_log"
  define v where "v = ?start\<lparr>lw_locks := (lw_locks ?start)(Global_lock \<mapsto> 1)\<rparr>"
  have v: "lw_all v = None" "lw_logs v = (lw_logs w)(?p \<mapsto> empty_log)" "lw_fs v = lw_fs w" "lw_locks v Global_lock = Some 1"
    using assms(1) by (simp_all add: v_def rmutex_init_def)
  define u where "u = set_log (rmutex_init v (Log_lock ?p)) ?p lg"
  have u: "lw_all u = None" "lw_logs u = (lw_logs w)(?p \<mapsto> lg)" "lw_fs u = lw_fs w" "lw_locks u Global_lock = Some 1"
    using v by (simp_all add: u_def rmutex_init_def)
  obtain s1 where s1: "rinfo 2 env u rlog_level_info 237 [] = Some (print_out u s1)" using say [OF u(1)] by blast
  define u1 where "u1 = set_log (print_out u s1) ?p (lg\<lparr>rl_state := rlog_state_working\<rparr>)"
  have u1: "lw_all u1 = None" "lw_logs u1 = (lw_logs w)(?p \<mapsto> lg\<lparr>rl_state := rlog_state_working\<rparr>)" "lw_fs u1 = lw_fs w"
    "lw_locks u1 Global_lock = Some 1" using u by (simp_all add: u1_def)
  obtain s2 where s2: "rinfo 2 env u1 rlog_level_info 347 [name] = Some (print_out u1 s2)" using say [OF u1(1)] by blast
  define w1 where "w1 = (print_out u1 s2)\<lparr>lw_all := Some ?p, lw_locks := (lw_locks u1)(Global_lock \<mapsto> 0)\<rparr>"
  have w1: "lw_all w1 = Some ?p" "lw_logs w1 ?p = Some (lg\<lparr>rl_state := rlog_state_working\<rparr>)" "lw_fs w1 = lw_fs w"
    using u1 by (simp_all add: w1_def)
  have mx: "int32 ((if mb < 1 then 1 else mb) * 1024000) = Some ((if mb < 1 then 1 else mb) * 1024000)"
    using assms(3) by (simp add: int32_def)
  have items: "rlog_build_items env (rinfo 2 env) u ?p True rlog_level_all True = Some (print_out u s1, rcode_ok)"
    using loop [of u lg item_levels "[]"] s1 u(2) by (simp add: rlog_build_items_def lg_def empty_log_def item_levels_def)
  have body: "init_body env (rinfo 2 env) v ?p (Some name) level True mb = Some (print_out u s1, rcode_ok)"
    using assms(4) t mx items v(2)
    by (simp add: init_body_def Let_def u_def lg_def assms(7) rmutex_init_def empty_log_def split del: if_split)
  have "rmutex_lock env ?start Global_lock = Some v" by (simp add: rmutex_lock_def v_def rmutex_init_def)
  moreover have "lw_logs ?start ?p = Some empty_log" by simp
  moreover have "set_state (print_out u s1) ?p rlog_state_working = Some u1" by (simp add: set_state_def u(2) u1_def)
  ultimately have "rlog_init_log env (rinfo 2 env) ?start ?p (Some name) level True mb =
      Some (print_out u1 s2\<lparr>lw_locks := (lw_locks u1)(Global_lock \<mapsto> 0)\<rparr>, rcode_ok)"
    using assms(2) body s2 u1(4) by (simp add: rlog_init_log_def Let_def rmutex_unlock_def empty_log_def)
  then have "rlog_init env w (Some name) level True mb = Some (w1, rcode_ok)"
    using assms(1) by (simp add: rlog_init_def Let_def rmutex_init_def rmutex_lock_def rmutex_unlock_def w1_def)
  moreover have "lw_fs w1 = lw_fs w" by (rule w1(3))
  moreover have "rlog_printf env w1 0 l fmt args =
      Some (print_out w1 (chars ''(rlog item not ready, error!!!) - '' @ vsn_text (args fmt)), -1)"
    if "lv \<le> l" "l \<noteq> rlog_level_all" "length (args fmt) < rlog_temp_data_size" for l fmt args
  proof -
    have "\<not> l < lv" using that(1) by simp
    moreover have "rl_items lg = Map.empty" "rl_level lg = lv" by (simp_all add: lg_def empty_log_def)
    ultimately show ?thesis using that(2,3) assms(2)
      by (simp add: rlog_printf_def printf_with_def Let_def log_or_global_def not_ready_def w1(1,2) item_of_def)
  qed
  ultimately show ?thesis by (intro exI [of _ w1]) simp
qed

text \<open>The template of a log.  Unless the name has one, the place of the index goes in front of the last
dot, with an underscore; a name without a dot gets the suffix \<open>log\<close>.  The dot is looked for in the whole
path: one in the name of a directory splits the path there.\<close>

theorem rlog_template_form:
  assumes "\<forall>n. fe_alloc (le_fe env) n" "cstr_ok name" "length name < 2 ^ 16" "rstr_index name rlog_param_file_index < 0"
  shows "rlog_format_filepath_template env name = Some (strip_slashes (norm_slashes (
    case strrchr name 46 of
      None \<Rightarrow> name @ chars ''_${index}.log''
    | Some i \<Rightarrow> take i name @ chars ''_${index}'' @ drop i name)))"
  by (rule template_form [OF assms])

section \<open>A concrete log\<close>

text \<open>A clock that stands at one millisecond, every file can be opened, log lines of the logger are empty.\<close>

definition demo_log_env :: log_env where
  "demo_log_env = \<lparr>le_fe = demo_fenv, le_clock = (\<lambda>_. 1), le_zone = 0, le_recursive = False, le_text = (\<lambda>_ _. []),
    le_dead = Some\<rparr>"

definition demo_log_world :: log_world where
  "demo_log_world = \<lparr>lw_fs = \<lparr>fw_files = Map.empty, fw_dirs = {}, fw_streams = Map.empty, fw_next = 5\<rparr>, lw_out = [], lw_reads = 0,
    lw_locks = Map.empty, lw_logs = Map.empty, lw_next = 1, lw_all = None, lw_flush_last = 0\<rparr>"

lemma demo_year: "year_loop 0 1970 = (0, 1970)" "month_loop 0 1 1970 = (0, 1)"
  by (simp_all add: year_loop.simps month_loop.simps rlib_is_leap_year_def rlib_last_day_of_mon_def g_day_per_mon_def)

lemma demo_time: "time_datas demo_log_env n = \<lparr>t_year = 1970, t_month = 1, t_day = 1, t_hour = 0, t_minute = 0, t_second = 0, t_mills = 1\<rparr>"
  by (simp add: time_datas_def demo_log_env_def rtime_from_time_millis_security_def Let_def sdiv_nonneg smod_nonneg demo_year)

lemma demo_digits: "digits 1970 = [49, 57, 55, 48]" "digits (Suc 0) = [49]" "digits 0 = [48]" "replicate 2 x = [x, x]"
  by (simp_all add: digits.simps numeral_2_eq_2)

lemma demo_text: "full_time_text demo_log_env n = chars ''1970-01-01 00:00:00 001''"
  by (simp add: full_time_text_def Let_def demo_time format_d_def demo_digits chars_def)

lemma demo_times_ok: "times_ok demo_log_env"
  by (simp add: times_ok_def demo_text) (simp add: demo_log_env_def chars_def)

lemma demo_fe: "fe_alloc demo_fenv = (\<lambda>_. True)" "le_fe demo_log_env = demo_fenv"
  by (simp_all add: demo_log_env_def demo_fenv_def)

lemma demo_template: "rlog_format_filepath_template demo_log_env (chars ''a.log'') = Some (chars ''a_${index}.log'')"
proof -
  have "strrchr (chars ''a.log'') 46 = Some 1" by (simp add: chars_def)
  moreover have "rstr_index (chars ''a.log'') rlog_param_file_index < 0"
    by (simp add: rstr_index_def strstr.simps chars_def rlog_param_file_index_def)
  moreover have "strip_slashes (norm_slashes (chars ''a_${index}.log'')) = chars ''a_${index}.log''"
    by (simp add: strip_slashes_def chars_def)
  ultimately show ?thesis using template_form [of demo_log_env "chars ''a.log''"]
    by (simp add: chars_def demo_fe)
qed

lemma demo_repl:
  assumes "cstr_ok s" "length s < 100" "cstr_ok new_str" "strstr s old_str = None" "old_str \<noteq> []"
  shows "rstr_repl (fe_junk demo_fenv) (fe_alloc demo_fenv) (Some s) (Some old_str) (Some new_str) = Some s"
proof -
  have "repl_ref s old_str new_str = s" using assms(4) by (simp add: repl_ref.simps)
  then show ?thesis
    using rstr_repl_spec [of old_str s "Some new_str" "fe_alloc demo_fenv" "fe_junk demo_fenv"] assms
    by (simp add: demo_fe)
qed

lemma demo_name: "cstr_ok s \<Longrightarrow> name_before_index demo_log_env (chars ''a_${index}.log'') s n = Some (chars ''a_${index}.log'')"
  by (simp add: name_before_index_def rformat_time_s_yyyymmdd_def rformat_time_s_hhMMss_def rformat_s_def Let_def demo_time
    format_d_def demo_digits)
    (simp add: demo_log_env_def demo_repl strstr.simps rlog_param_date_def rlog_param_time_def rlog_param_level_def chars_def)

lemma demo_index: "rstr_repl (fe_junk demo_fenv) (fe_alloc demo_fenv) (Some (chars ''a_${index}.log'')) (Some rlog_param_file_index) (Some [])
    = Some (chars ''a_.log'')"
proof -
  have "repl_ref (chars ''a_${index}.log'') rlog_param_file_index [] = chars ''a_.log''"
    by (simp add: repl_ref.simps strstr.simps chars_def rlog_param_file_index_def)
  moreover have "rlog_param_file_index \<noteq> []" "cstr_ok (chars ''a_${index}.log'')" by (simp_all add: rlog_param_file_index_def chars_def)
  ultimately show ?thesis
    using rstr_repl_spec [of rlog_param_file_index "chars ''a_${index}.log''" "Some []" "fe_alloc demo_fenv" "fe_junk demo_fenv"]
      by (simp add: demo_fe chars_def)
qed
lemma demo_filepath:
  "rlog_get_filepath demo_log_env w (chars ''a_${index}.log'') (rlog_level_2str rlog_level_all) False =
    Some (w\<lparr>lw_fs := lw_fs w, lw_reads := lw_reads w + 2\<rparr>, chars ''a_.log'')"
proof -
  have "cstr_ok (rlog_level_2str rlog_level_all)" by (simp add: rlog_level_2str_def rlog_strs_def chars_def)
  note n = demo_name [OF this]
  let ?t = "chars ''a_${index}.log''"
  have f: "rfile_format_path ?t = Some (?t, rcode_ok)"
    by (simp add: rfile_format_path_spec strip_slashes_def chars_def)
  have "rstr_last_index ?t [47] = Some (-1)" "rstr_last_index ?t [95] = Some 1" by (simp_all add: rstr_last_index_def chars_def)
  moreover have "rstr_cpy (fe_alloc demo_fenv) (Some ?t) 0 = ?t" by (simp add: rstr_cpy_def Let_def demo_fe chars_def)
  moreover have "?t \<noteq> []" "length ?t = 14" by (simp_all add: chars_def)
  ultimately show ?thesis
    by (simp add: rlog_get_filepath_def Let_def n demo_fe rdir_get_path_dir_def rdir_get_path_filename_def f
      rlog_param_file_index_gap_def rstr_sub_def rdir_make_def demo_index [unfolded demo_fe])
qed

lemma demo_open_returns:
  assumes b: "building p lg f q S L ds w" and lg: "rl_template lg = Some (chars ''a_${index}.log'')" "q = chars ''a_.log''" "f \<noteq> 0"
    and w0: "w0 = rmutex_init (set_log w p (lg\<lparr>rl_items := its(l \<mapsto> new_item demo_log_env l)\<rparr>)) (Item_lock p l)"
      "lw_logs w p = Some (lg\<lparr>rl_items := its\<rparr>)" "l \<notin> ds"
    and lf: "lf = (if ds = {} then [] else q)" "ds = {} \<or> l \<noteq> rlog_level_verb \<and> item_levels ! (level_num l - 1) \<in> ds"
    and fs: "ds = {} \<Longrightarrow> fw_files (lw_fs w) = Map.empty \<and> fw_dirs (lw_fs w) = {}"
  shows "\<exists>w'. open_item demo_log_env (rinfo 2 demo_log_env) p l (rlog_level_2str rlog_level_all) lf w0 = Some (w', q, rcode_ok)"
proof -
  have B: "lw_all w = None" "\<And>k. k \<in> ds \<Longrightarrow> item_ready f 0 (its k)" "ds = {} \<Longrightarrow> fw_next (lw_fs w) = f"
    using b w0(2) unfolding building_def by (auto dest!: arg_cong [of _ _ rl_items])
  have say: "rinfo 2 demo_log_env v l n a = Some (print_out v (chars ''(rlog not ready) - ''))" if "lw_all v = None" for v l n a
    using none_say [OF that, of 1] by (simp add: numeral_2_eq_2 say_out_def demo_log_env_def rlog_temp_data_size_def vsn_text_def)
  have q: "rfile_format_path q = Some (q, rcode_ok)" "q \<noteq> []"
    by (simp_all add: lg(2) rfile_format_path_spec strip_slashes_def chars_def)
  define v where "v = print_out (set_log (w0\<lparr>lw_fs := lw_fs w0, lw_reads := lw_reads w0 + 2\<rparr>) p
    (lg\<lparr>rl_items := its(l \<mapsto> (new_item demo_log_env l)\<lparr>li_filename := Some q\<rparr>)\<rparr>)) (chars ''(rlog not ready) - '')"
  have v: "lw_logs v p = Some (lg\<lparr>rl_items := its(l \<mapsto> (new_item demo_log_env l)\<lparr>li_filename := Some q\<rparr>)\<rparr>)" "lw_fs v = lw_fs w"
    by (simp_all add: v_def w0(1) rmutex_init_def)
  have "\<exists>v'. item_stream demo_log_env p l (chars ''a_${index}.log'') (rlog_level_2str rlog_level_all) q lf v = Some (v', q, f) \<and>
      lw_logs v' p = lw_logs v p"
  proof (cases "ds = {}")
    case True
    then have "rfile_exists (lw_fs v) (Some q) = 0" using fs q(2) v(2) by (simp add: rfile_exists_def path_there_def)
    moreover have "snd (fopen demo_fenv (lw_fs v) q ''w+'') = f" using True B(3) v(2) by (simp add: fopen_def demo_fenv_def Let_def)
    ultimately show ?thesis using True lf(1) by (simp add: item_stream_def roll_away_def demo_fe Let_def)
  next
    case False
    then obtain k where k: "l \<noteq> rlog_level_verb" "item_levels ! (level_num l - 1) = k" "k \<in> ds" using lf(2) by blast
    moreover have "k \<noteq> l" using k(3) w0(3) by blast
    moreover obtain it where "its k = Some it" "li_file it = f" using B(2) [OF k(3)] by (auto simp: item_ready_def)
    ultimately show ?thesis using False lf(1) q(2) v(1) by (simp add: item_stream_def)
  qed
  then obtain v' where v': "item_stream demo_log_env p l (chars ''a_${index}.log'') (rlog_level_2str rlog_level_all) q lf v = Some (v', q, f)"
    "lw_logs v' p = lw_logs v p" by blast
  have "open_item demo_log_env (rinfo 2 demo_log_env) p l (rlog_level_2str rlog_level_all) lf w0 =
      update_item v' p l (li_file_update (\<lambda>_. f)) \<bind> (\<lambda>w5. Some (w5, q, rcode_ok))"
    using v' B(1) lg(3) q(1)
    by (simp add: open_item_def demo_filepath w0(1) lg(1) lg(2) [symmetric] update_item_def set_item_def rmutex_init_def say v_def)
  then show ?thesis using v(1) v'(2) by (simp add: update_item_def set_item_def)
qed

lemma demo_log_path: "log_path demo_log_env (chars ''a_${index}.log'') n = Some (chars ''a_.log'')"
proof -
  have "cstr_ok (rlog_level_2str rlog_level_all)" by (simp add: rlog_level_2str_def rlog_strs_def chars_def)
  note n = demo_name [OF this]
  have "rfile_format_path (chars ''a_.log'') = Some (chars ''a_.log'', rcode_ok)"
    by (simp add: rfile_format_path_spec strip_slashes_def chars_def)
  then show ?thesis by (simp add: log_path_def n demo_fe demo_index [unfolded demo_fe])
qed

lemma demo_loop_returns:
  assumes lg: "rl_template lg = Some (chars ''a_${index}.log'')" "q = chars ''a_.log''" "f \<noteq> 0"
  shows "item_levels = pre @ ls \<Longrightarrow> building p lg f q S L (set pre) w \<Longrightarrow> lf = (if pre = [] then [] else q) \<Longrightarrow>
    (pre = [] \<Longrightarrow> fw_files (lw_fs w) = Map.empty \<and> fw_dirs (lw_fs w) = {}) \<Longrightarrow>
    \<exists>w'. build_loop demo_log_env (rinfo 2 demo_log_env) p True lev False ls lf w = Some (w', rcode_ok)"
proof (induction ls arbitrary: pre lf w)
  case (Cons l ls)
  note I = item_levels_split [OF Cons.prems(1)]
  obtain its where its: "lw_logs w p = Some (lg\<lparr>rl_items := its\<rparr>)" "its l = None"
    using Cons.prems(2) I(1) unfolding building_def by fastforce
  let ?w0 = "rmutex_init (set_log w p (lg\<lparr>rl_items := its(l \<mapsto> new_item demo_log_env l)\<rparr>)) (Item_lock p l)"
  have lf: "lf = (if set pre = {} then [] else q)" "set pre = {} \<or> l \<noteq> rlog_level_verb \<and> item_levels ! (level_num l - 1) \<in> set pre"
    using Cons.prems(3) I(2) by auto
  have fs: "set pre = {} \<Longrightarrow> fw_files (lw_fs w) = Map.empty \<and> fw_dirs (lw_fs w) = {}" using Cons.prems(4) by simp
  obtain w1 where o: "open_item demo_log_env (rinfo 2 demo_log_env) p l (rlog_level_2str rlog_level_all) lf ?w0 = Some (w1, q, rcode_ok)"
    using demo_open_returns [OF Cons.prems(2) lg refl its(1) I(1) lf fs] by blast
  have "building p lg f q S L (insert l (set pre)) w1"
    using open_item_building [OF Cons.prems(2) lg(1) _ I(1) refl its(1) lf, of demo_log_env 1 w1 q] demo_log_path o
    by (simp add: lg(2) numeral_2_eq_2)
  then have "\<exists>w'. build_loop demo_log_env (rinfo 2 demo_log_env) p True lev False ls q w1 = Some (w', rcode_ok)"
    by (intro Cons.IH [of "pre @ [l]"]) (simp_all add: Cons.prems(1))
  then show ?case using o its by (auto simp: set_item_def)
qed simp

lemma demo_init_returns: "\<exists>w1. rlog_init demo_log_env demo_log_world (Some (chars ''a.log'')) rlog_level_warn False 1 = Some (w1, rcode_ok)"
proof -
  let ?e = demo_log_env and ?w = demo_log_world
  have say: "rinfo 2 ?e v l n a = Some (print_out v (chars ''(rlog not ready) - ''))" if "lw_all v = None" for v l n a
    using none_say [OF that, of 1] by (simp add: numeral_2_eq_2 say_out_def demo_log_env_def rlog_temp_data_size_def vsn_text_def)
  let ?start = "set_log (rmutex_init ?w Global_lock\<lparr>lw_next := lw_next ?w + 1\<rparr>) 1 empty_log"
  define v where "v = ?start\<lparr>lw_locks := (lw_locks ?start)(Global_lock \<mapsto> 1)\<rparr>"
  define lg where "lg = empty_log\<lparr>rl_level := rlog_level_warn, rl_size_max := 1024000, rl_template := Some (chars ''a_${index}.log'')\<rparr>"
  define u where "u = set_log (rmutex_init v (Log_lock 1)) 1 lg"
  have u: "lw_all u = None" "lw_locks u Global_lock = Some 1" "fw_files (lw_fs u) = Map.empty" "fw_dirs (lw_fs u) = {}"
    by (simp_all add: u_def v_def rmutex_init_def demo_log_world_def)
  have b: "building 1 lg 5 (chars ''a_.log'') Map.empty Map.empty {} u"
    unfolding building_def
    by (intro conjI exI [of _ Map.empty]) (simp_all add: u_def v_def lg_def empty_log_def rmutex_init_def demo_log_world_def fun_eq_iff)
  obtain v1 where v1: "build_loop ?e (rinfo 2 ?e) 1 True rlog_level_all False item_levels [] u = Some (v1, rcode_ok)"
    using demo_loop_returns [of lg "chars ''a_.log''" 5 "[]" item_levels 1 Map.empty Map.empty u "[]" rlog_level_all] b u
    by (auto simp: lg_def)
  have "building 1 lg 5 (chars ''a_.log'') Map.empty Map.empty (set item_levels) v1"
    using build_loop_building [of lg _ ?e _ "[]" item_levels 1 5 Map.empty Map.empty u "[]" 1 rlog_level_all v1] demo_log_path b v1
    by (simp add: lg_def numeral_2_eq_2)
  then obtain its where B: "lw_all v1 = None" "lw_logs v1 1 = Some (lg\<lparr>rl_items := its\<rparr>)" "lw_locks v1 Global_lock = Some 1"
    unfolding building_def by fastforce
  have "init_body ?e (rinfo 2 ?e) v 1 (Some (chars ''a.log'')) rlog_level_warn False 1 =
      Some (print_out v1 (chars ''(rlog not ready) - ''), rcode_ok)"
    using v1 B(1) say [of v1] by (simp add: init_body_def Let_def v_def rmutex_init_def int32_def empty_log_def demo_template
      rlog_build_items_def u_def lg_def) (simp add: chars_def)
  then have "\<exists>w1. rlog_init_log ?e (rinfo 2 ?e) ?start 1 (Some (chars ''a.log'')) rlog_level_warn False 1 = Some (w1, rcode_ok) \<and>
      lw_locks w1 Global_lock = Some 0"
    using B say
    by (simp add: rlog_init_log_def Let_def rmutex_lock_def v_def rmutex_init_def empty_log_def set_state_def rmutex_unlock_def)
  then show ?thesis
    by (auto simp: rlog_init_def Let_def demo_log_world_def rmutex_init_def rmutex_lock_def rmutex_unlock_def)
qed

lemma demo_fresh: "lw_all demo_log_world = None" "lw_next demo_log_world \<noteq> 0"
  "fw_streams (lw_fs demo_log_world) (fw_next (lw_fs demo_log_world)) = None"
  by (simp_all add: demo_log_world_def)

definition demo_calls :: "log_call list" where
  "demo_calls = [(rlog_level_error, chars ''hi'', id), (rlog_level_info, chars ''no'', id)]"

lemma demo_calls_ok: "list_all call_ok demo_calls" "\<forall>l. counted rlog_level_warn l demo_calls \<le> max 1 1 * 1024000"
  "logged demo_log_env rlog_level_warn n demo_calls = chars ''1970-01-01 00:00:00 001 [ERROR] hi''"
  by (simp_all add: demo_calls_def chars_def rlog_temp_data_size_def line_of_def demo_text rlog_level_2str_def rlog_strs_def
    less_rlog_level_t_def less_eq_rlog_level_t_def)

theorem rlog_session_witness:
  "\<exists>w1 w2. rlog_init demo_log_env demo_log_world (Some (chars ''a.log'')) rlog_level_warn False 1 = Some (w1, rcode_ok) \<and>
    log_calls demo_log_env demo_calls w1 = Some (w2, [rcode_ok, rcode_ok]) \<and>
    fw_files (lw_fs w2) (chars ''a_.log'') = Some (chars ''1970-01-01 00:00:00 001 [ERROR] hi'')"
proof -
  obtain w1 where i: "rlog_init demo_log_env demo_log_world (Some (chars ''a.log'')) rlog_level_warn False 1 = Some (w1, rcode_ok)"
    using demo_init_returns by blast
  have p: "\<forall>n. log_path demo_log_env (chars ''a_${index}.log'') n = Some (chars ''a_.log'')" using demo_log_path by blast
  have nr: "\<not> le_recursive demo_log_env" by (simp add: demo_log_env_def)
  have lv: "rlog_level_warn = (if rlog_level_warn = rlog_level_all then rlog_level_verb else rlog_level_warn)" by simp
  have "length demo_calls = 2" by (simp add: demo_calls_def)
  then show ?thesis
    using rlog_session [OF demo_fresh demo_template p demo_times_ok nr i demo_calls_ok(1) lv] demo_calls_ok(2,3) i
    by (auto simp: numeral_2_eq_2)
qed

theorem rlog_closing_witness:
  "\<exists>w1 w2 w3. rlog_init demo_log_env demo_log_world (Some (chars ''a.log'')) rlog_level_warn False 1 = Some (w1, rcode_ok) \<and>
    log_calls demo_log_env [] w1 = Some (w2, []) \<and> rlog_uninit demo_log_env w2 = Some (w3, rcode_ok) \<and>
    fw_streams (lw_fs w3) = Map.empty \<and> lw_logs w3 = Map.empty"
proof -
  obtain w1 where i: "rlog_init demo_log_env demo_log_world (Some (chars ''a.log'')) rlog_level_warn False 1 = Some (w1, rcode_ok)"
    using demo_init_returns by blast
  have p: "\<forall>n. log_path demo_log_env (chars ''a_${index}.log'') n = Some (chars ''a_.log'')" using demo_log_path by blast
  have lv: "rlog_level_warn = (if rlog_level_warn = rlog_level_all then rlog_level_verb else rlog_level_warn)" by simp
  have c: "list_all call_ok []" "\<forall>l. counted rlog_level_warn l [] \<le> max 1 1 * 1024000" "log_calls demo_log_env [] w1 = Some (w1, [])"
    "call_ok (rlog_level_info, le_text demo_log_env 364 [chars ''a_${index}.log''], id)"
    "counted rlog_level_warn rlog_level_info [] + int (length (le_text demo_log_env 364 [chars ''a_${index}.log''])) \<le> max 1 1 * 1024000"
    by (simp_all add: demo_log_env_def rlog_temp_data_size_def)
  from rlog_closing [OF demo_fresh demo_template p demo_times_ok i c(1) lv c(2-5)] i show ?thesis
    by (auto simp: demo_log_world_def)
qed

theorem rlog_separated_never_writes_witness:
  "\<exists>w1. rlog_init demo_log_env demo_log_world (Some (chars ''a.log'')) rlog_level_all True 100 = Some (w1, rcode_ok) \<and>
    (\<exists>w2. rlog_printf demo_log_env w1 0 rlog_level_error (chars ''hi'') id = Some (w2, -1))"
proof -
  have t: "rlog_format_filepath_template demo_log_env (chars ''a.log'') \<noteq> None" by (simp add: demo_template)
  have x: "\<forall>line args. length (le_text demo_log_env line args) < rlog_temp_data_size" "100 * 1024000 \<le> INT_MAX"
    "length (chars ''a.log'') \<le> 1024" by (simp_all add: demo_log_env_def rlog_temp_data_size_def chars_def)
  have lv: "rlog_level_verb = (if rlog_level_all = rlog_level_all then rlog_level_verb else rlog_level_all)" by simp
  obtain w1 where w1: "rlog_init demo_log_env demo_log_world (Some (chars ''a.log'')) rlog_level_all True 100 = Some (w1, rcode_ok)"
    and c: "\<forall>l fmt args. if rlog_level_verb \<le> l \<and> l \<noteq> rlog_level_all \<and> length (args fmt) < rlog_temp_data_size
      then rlog_printf demo_log_env w1 0 l fmt args =
        Some (print_out w1 (chars ''(rlog item not ready, error!!!) - '' @ vsn_text (args fmt)), -1) else True"
    using rlog_separated_never_writes [OF demo_fresh(1,2) x(2,3) t x(1) lv] by blast
  have "rlog_level_verb \<le> rlog_level_error" by (simp add: less_eq_rlog_level_t_def)
  then show ?thesis using w1 c [THEN spec, of rlog_level_error, THEN spec, of "chars ''hi''", THEN spec, of id]
    by (simp add: chars_def rlog_temp_data_size_def)
qed

theorem rlog_template_form_witness:
  "rlog_format_filepath_template demo_log_env (chars ''./logs/x'') = Some (chars ''_${index}./logs/x'')"
proof -
  have "cstr_ok (chars ''./logs/x'')" "length (chars ''./logs/x'') < 2 ^ 16" by (simp_all add: chars_def)
  moreover have "rstr_index (chars ''./logs/x'') rlog_param_file_index < 0"
    by (simp add: rstr_index_def strstr.simps chars_def rlog_param_file_index_def)
  moreover have "strrchr (chars ''./logs/x'') 46 = Some 0" by (simp add: chars_def)
  moreover have "strip_slashes (norm_slashes (chars ''_${index}./logs/x'')) = chars ''_${index}./logs/x''"
    by (simp add: strip_slashes_def chars_def)
  ultimately show ?thesis using rlog_template_form [of demo_log_env "chars ''./logs/x''"] demo_fe by (simp add: chars_def)
qed

end
