(* ===== verification/RPoll.thy ===== *)
theory RPoll
  imports RClient
begin

text \<open>
  The poll client of \<open>ipc/src/rsocket_poll.c\<close>, the client \<open>rsocket_c\<close> of the Linux build.  It keeps the
  data source of \<open>RClient\<close> and works without an event container: every operation waits for its socket
  with \<open>poll\<close> itself.  Its functions have the names of the epoll client in the code; here they carry the
  suffix \<open>_p\<close>.  The conventions are those of \<open>RClient\<close>: a store through the address of an \<open>int\<close> that is
  passed as a \<open>size_t*\<close> hits that \<open>int\<close> only, and log lines are dropped.
\<close>

section \<open>Waiting for a descriptor\<close>

abbreviation (input) rcode_io_nothing :: int where "rcode_io_nothing \<equiv> 1"
abbreviation (input) wait_read :: "16 word" where "wait_read \<equiv> 1"
abbreviation (input) wait_write :: "16 word" where "wait_write \<equiv> 4"
abbreviation (input) wait_connect :: "16 word" where "wait_connect \<equiv> 5"
abbreviation (input) POLLIN :: "16 word" where "POLLIN \<equiv> 1"
abbreviation (input) POLLOUT :: "16 word" where "POLLOUT \<equiv> 4"
abbreviation (input) POLLERR :: "16 word" where "POLLERR \<equiv> 8"
abbreviation (input) POLLNVAL :: "16 word" where "POLLNVAL \<equiv> 0x20"

text \<open>
  What \<open>poll\<close> answers after so many calls, given the time to wait in milliseconds: the state of the
  descriptor or an error.  This is a parameter \<open>pl\<close> of everything beside the environment.
\<close>

type_synonym poll_answers = "nat \<Rightarrow> int \<Rightarrow> 16 word answer"

text \<open>
  \<open>poll\<close> on one descriptor: \<open>revents\<close>, which is 0 exactly when the call gives 0.  Errors, hang-ups and
  descriptors that are not open are reported unasked; a negative descriptor is ignored.
\<close>

definition sys_poll ::
  "poll_answers \<Rightarrow> 'a nworld_scheme \<Rightarrow> int \<Rightarrow> 16 word \<Rightarrow> int \<Rightarrow> 'a nworld_scheme \<times> 16 word answer" where
  "sys_poll pl w fd events time =
    (tick w, if 0 \<le> fd \<and> fd \<notin> nw_open w then Ret POLLNVAL
       else case pl (nw_tick w) time of
         Err e \<Rightarrow> Err e
       | Ret state \<Rightarrow> Ret (if fd < 0 then 0 else state AND (events OR 0x38)))"

text \<open>The inner loop of \<open>rsocket_check_fd\<close>; the division of C rounds -1 up to 0.\<close>

definition wait_millisec :: "rtimeout \<Rightarrow> int \<Rightarrow> int" where
  "wait_millisec tm t = (let time = rtimeout_get_total tm t sdiv 1000 in if time \<ge> 0 then time else -1)"

partial_function (option) poll_loop ::
  "poll_answers \<Rightarrow> net_env \<Rightarrow> int \<Rightarrow> 16 word \<Rightarrow> rtimeout \<Rightarrow> 'a nworld_scheme \<Rightarrow>
    ('a nworld_scheme \<times> 16 word answer) option"
where
  "poll_loop pl net fd events tm w =
    (case sys_poll pl w fd events (wait_millisec tm (now net w)) of
       (w1, Err e) \<Rightarrow> if e = EINTR then poll_loop pl net fd events tm w1 else Some (w1, Err e)
     | (w1, Ret revents) \<Rightarrow> Some (w1, Ret revents))"

definition rsocket_check_fd ::
  "poll_answers \<Rightarrow> net_env \<Rightarrow> 'a nworld_scheme \<Rightarrow> rsocket \<Rightarrow> 16 word \<Rightarrow> rtimeout \<Rightarrow> ('a nworld_scheme \<times> int) option" where
  "rsocket_check_fd pl net w s wait_op tm =
    (if rtimeout_done tm (now net w) then Some (w, rcode_io_timeout)
     else do {
       (w1, ans) \<leftarrow> poll_loop pl net (sk_fd s) wait_op tm w;
       (case ans of
          Err e \<Rightarrow> Some (w1, e)
        | Ret revents \<Rightarrow>
            if revents = 0 then Some (w1, rcode_io_timeout)
            else if wait_op = wait_read then
              Some (w1, if revents AND (POLLIN OR POLLERR) \<noteq> 0 then rcode_io_done else rcode_io_nothing)
            else if wait_op = wait_write then
              Some (w1, if revents AND (POLLOUT OR POLLERR) \<noteq> 0 then rcode_io_done else rcode_io_nothing)
            else if wait_op = wait_connect then
              (if revents AND (POLLIN OR POLLERR) \<noteq> 0
               then (case sys_recv net w1 0 of (w2, got) \<Rightarrow>
                 Some (w2, if got = Ret [] then rcode_io_done else rcode_io_closed))
               else Some (w1, rcode_io_closed))
            else Some (w1, rcode_io_unknown))
     })"

section \<open>Opening and closing\<close>

definition ripc_init_p :: "'w client \<Rightarrow> 'w client \<times> int" where
  "ripc_init_p w = (w, rcode_ok)"

text \<open>
  The loop over the addresses.  Unlike in the epoll client each address has its own two seconds, and a
  connection that is under way is waited for.
\<close>

fun open_addrs_p ::
  "poll_answers \<Rightarrow> net_env \<Rightarrow> int list \<Rightarrow> int \<Rightarrow> int \<Rightarrow> 'a nworld_scheme \<Rightarrow> rsocket \<Rightarrow> ('a nworld_scheme \<times> rsocket \<times> int) option"
where
  "open_addrs_p pl net [] current_family ret_code w s = Some (w, s, ret_code)"
| "open_addrs_p pl net (family # rest) current_family ret_code w s =
    (let tm = timer_sec net w 2 in
     case (if current_family \<noteq> family \<or> sk_fd s = SOCKET_INVALID
           then case rsocket_close w s of (w1, s1, _) \<Rightarrow>
             (case rsocket_create net w1 s1 of (w2, s2, ret) \<Rightarrow>
               if ret \<noteq> rcode_ok then Inl (w2, s2, ret)
               else Inr (fst (rsocket_setnonblocking w2 s2), s2, family))
           else Inr (w, s, current_family)) of
       Inl (w2, s2, ret) \<Rightarrow> open_addrs_p pl net rest current_family ret w2 s2
     | Inr (w2, s2, current) \<Rightarrow> do {
         (w3, ret) \<leftarrow> rsocket_connect net w2 s2 tm;
         (w4, ret1) \<leftarrow> (if ret = EINPROGRESS \<or> ret = EAGAIN then rsocket_check_fd pl net w3 s2 wait_connect tm
                       else Some (w3, ret));
         if ret1 = rcode_io_done then Some (w4, s2, ret1)
         else open_addrs_p pl net rest current
           (if rtimeout_done tm (now net w4) then ipc_code rcode_err_ipc_timeout else ret1) w4 s2
       })"

text \<open>
  \<open>exit1\<close> returns \<open>ret_code\<close> as it is: when one of the two options cannot be set, that is 0.
\<close>

definition ripc_open_p :: "poll_answers \<Rightarrow> 'w client_env \<Rightarrow> 'w client \<Rightarrow> ('w client \<times> int) option" where
  "ripc_open_p pl env w = (let net = ce_net env; w0 = tick w in
     case ce_addrs env (nw_tick w) of
       Err e \<Rightarrow> if ce_res_null env then Some (w0, e) else None
     | Ret families \<Rightarrow> do {
         (w1, s1, ret_code) \<leftarrow> open_addrs_p pl net families AF_INET rcode_ok w0 (new_socket net);
         if ret_code \<noteq> rcode_ok then Some (fst (rsocket_close w1 s1), ret_code)
         else case rsocket_setopt net w1 s1 RSO_NONBLOCK True of (w2, s2, r2) \<Rightarrow>
           if r2 \<noteq> rcode_ok then Some (fst (rsocket_close w2 s2), ret_code)
           else case rsocket_setopt net w2 s2 RTCP_NODELAY True of (w3, s3, r3) \<Rightarrow>
             if r3 \<noteq> rcode_ok then Some (fst (rsocket_close w3 s3), ret_code)
             else do {
               rb \<leftarrow> rbuffer_create (ce_block env) buffer_bytes;
               wb \<leftarrow> rbuffer_create (ce_block env) buffer_bytes;
               Some (w3\<lparr>cl_live := True, cl_stream := Some s3, cl_ds := (cl_ds w3)\<lparr>ds_read_cache := Some rb,
                 ds_write_buff := Some wb, ds_state := ripc_state_ready\<rparr>\<rparr>, rcode_ok)
             }
       })"

definition ripc_close_p :: "'w client \<Rightarrow> ('w client \<times> int) option" where
  "ripc_close_p w =
    (if ds_state (cl_ds w) = ripc_state_closed \<or> cl_stream w = None then Some (w, rcode_ok)
     else do {
       w2 \<leftarrow> (if ds_state (cl_ds w) \<in> {ripc_state_ready, ripc_state_disconnect, ripc_state_start, ripc_state_stop}
         then do {
           w1 \<leftarrow> release_buffers w;
           s \<leftarrow> cl_stream w1;
           Some ((fst (rsocket_close w1 s))\<lparr>cl_stream := None\<rparr>)
         }
         else Some w);
       Some (w2\<lparr>cl_ds := (cl_ds w2)\<lparr>ds_state := ripc_state_closed\<rparr>\<rparr>, rcode_ok)
     })"

definition ripc_uninit_p :: "'w client \<Rightarrow> ('w client \<times> int) option" where
  "ripc_uninit_p w =
    (if ds_state (cl_ds w) = ripc_state_uninit then Some (w, rcode_ok)
     else do {
       (w1, ret_code) \<leftarrow> (if ds_state (cl_ds w) \<noteq> ripc_state_closed then ripc_close_p w else Some (w, rcode_ok));
       if ret_code \<noteq> rcode_ok then Some (w1, ret_code)
       else Some (w1\<lparr>cl_ds := (cl_ds w1)\<lparr>ds_state := ripc_state_uninit\<rparr>\<rparr>, rcode_ok)
     })"

definition ripc_start_p :: "'w client \<Rightarrow> 'w client \<times> int" where
  "ripc_start_p w = (w\<lparr>cl_ds := (cl_ds w)\<lparr>ds_state := ripc_state_start\<rparr>\<rparr>, rcode_ok)"

definition ripc_stop_p :: "'w client \<Rightarrow> 'w client \<times> int" where
  "ripc_stop_p w = (w\<lparr>cl_ds := (cl_ds w)\<lparr>ds_state := ripc_state_stop\<rparr>\<rparr>, rcode_ok)"

section \<open>Sending and receiving\<close>

text \<open>
  The loop of \<open>ripc_send_data_c\<close>: \<open>sofar\<close> bytes are gone.  Every round hands \<open>count\<close> bytes to the socket,
  also when some of them have been sent; a range that leaves the memory of the buffer is undefined.
\<close>

partial_function (option) send_rounds ::
  "poll_answers \<Rightarrow> net_env \<Rightarrow> rsocket \<Rightarrow> rbuffer \<Rightarrow> rtimeout \<Rightarrow> int \<Rightarrow> int \<Rightarrow> 'a nworld_scheme \<Rightarrow>
    ('a nworld_scheme \<times> int \<times> int) option"
where
  "send_rounds pl net s wb tm sofar ret_code w =
    (if sofar < rbuffer_size wb \<and> ret_code = rcode_io_done then do {
       (w1, ready) \<leftarrow> rsocket_check_fd pl net w s wait_write tm;
       if ready \<noteq> rcode_io_done then Some (w1, sofar, ready)
       else do {
         data \<leftarrow> mem_get (rb_data wb) (rb_offset wb + sofar) (rbuffer_size wb);
         (w2, sent_len, ret) \<leftarrow> rsocket_send net w1 s data tm;
         sofar1 \<leftarrow> int32 (sofar + int sent_len);
         if sofar1 \<ge> rbuffer_size wb then Some (w2, sofar1, rcode_io_done)
         else if ret \<noteq> rcode_io_done
         then Some (w2, sofar1, if ret = rcode_io_timeout then ipc_code rcode_err_ipc_timeout
           else ipc_code rcode_err_ipc_disconnect)
         else send_rounds pl net s wb tm sofar1 ret w2
       }
     } else Some (w, sofar, ret_code))"

definition ripc_send_data_p ::
  "poll_answers \<Rightarrow> 'w client_env \<Rightarrow> 'w client \<Rightarrow> ripc_data_default \<Rightarrow> ('w client \<times> ripc_data_default \<times> int) option" where
  "ripc_send_data_p pl env w data =
    (if ds_state (cl_ds w) \<noteq> ripc_state_start then Some (w, data, ipc_code rcode_err_ipc_disconnect)
     else do {
       (w1, data1, ret) \<leftarrow> (case ce_out env of
           None \<Rightarrow> Some (w, data, rcode_err_ok)
         | Some process \<Rightarrow> do {
             b \<leftarrow> live_buffer w (ds_write_buff (cl_ds w));
             (ds1, data1, ret) \<leftarrow> process (cl_ds w) data;
             Some (w\<lparr>cl_ds := ds1\<rparr>, data1, ret)
           });
       if ret \<noteq> rcode_err_ok then Some (w1, data1, ret)
       else do {
         wb \<leftarrow> live_buffer w1 (ds_write_buff (cl_ds w1));
         s \<leftarrow> cl_stream w1;
         (w2, sofar, ret_code) \<leftarrow> send_rounds pl (ce_net env) s wb (timer_millisec (ce_net env) w1 100) 0 rcode_io_done w1;
         (bp, _) \<leftarrow> rbuffer_skip (Some wb) sofar;
         Some (w2\<lparr>cl_ds := (cl_ds w2)\<lparr>ds_write_buff := bp\<rparr>\<rparr>, data1, ret_code)
       }
     })"

text \<open>
  The loop of \<open>ripc_receive_data_c\<close>: \<open>sofar\<close> bytes are stored from the write position on.  Every round
  offers the socket \<open>count\<close> bytes, and a wait that timed out is followed by a call all the same.
\<close>

partial_function (option) recv_rounds ::
  "poll_answers \<Rightarrow> net_env \<Rightarrow> rsocket \<Rightarrow> int \<Rightarrow> int \<Rightarrow> rtimeout \<Rightarrow> bytes \<Rightarrow> int \<Rightarrow> 'a nworld_scheme \<Rightarrow>
    ('a nworld_scheme \<times> bytes \<times> int \<times> int) option"
where
  "recv_rounds pl net s at count tm memory sofar w = do {
     (w1, ready) \<leftarrow> rsocket_check_fd pl net w s wait_read tm;
     if ready = rcode_io_nothing then Some (w1, memory, sofar, rcode_io_done)
     else do {
       (w2, got, ret) \<leftarrow> rsocket_recv net w1 s (nat (count mod 2 ^ 64)) tm;
       memory1 \<leftarrow> mem_put memory (at + sofar) got;
       sofar1 \<leftarrow> int32 (sofar + int (length got));
       if got = [] then Some (w2, memory1, sofar1, ret)
       else if ret = rcode_io_done then recv_rounds pl net s at count tm memory1 sofar1 w2
       else Some (w2, memory1, sofar1, ret)
     }
   }"

definition ripc_receive_data_p :: "poll_answers \<Rightarrow> 'w client_env \<Rightarrow> 'w client \<Rightarrow> ('w client \<times> int) option" where
  "ripc_receive_data_p pl env w =
    (if ds_state (cl_ds w) \<noteq> ripc_state_start then Some (w, ipc_code rcode_err_ipc_disconnect)
     else do {
       rc \<leftarrow> live_buffer w (ds_read_cache (cl_ds w));
       s \<leftarrow> cl_stream w;
       (w1, memory, sofar, ret) \<leftarrow> recv_rounds pl (ce_net env) s (rb_pos rc) (rbuffer_left rc) (timer_millisec (ce_net env) w 1)
         (rb_data rc) 0 w;
       let w2 = w1\<lparr>cl_ds := (cl_ds w1)\<lparr>ds_read_cache := Some (rc\<lparr>rb_data := memory\<rparr>)\<rparr>\<rparr>;
       let ret_code = (if ret = rcode_io_timeout then rcode_io_done
         else if ret = rcode_io_closed then if sofar > 0 then rcode_io_done else rcode_io_closed
         else ret);
       if ret_code \<noteq> rcode_io_done then do {
         (w3, _) \<leftarrow> ripc_close_p w2;
         Some (w3, if ret_code = rcode_io_timeout then ipc_code rcode_err_ipc_timeout
           else ipc_code rcode_err_ipc_disconnect)
       }
       else (case ce_in env of
           None \<Rightarrow> Some (w2, ret_code)
         | Some process \<Rightarrow>
             if sofar > 0 then do {
               (ds1, app1, ret1) \<leftarrow> process (cl_ds w2) (word_of_int sofar) (cl_app w2);
               Some (w2\<lparr>cl_ds := ds1, cl_app := app1\<rparr>,
                 if ret1 \<noteq> rcode_err_ok then ipc_code rcode_err_ipc_decode else rcode_io_done)
             } else Some (w2, ret_code))
     })"

definition ripc_check_data_p :: "poll_answers \<Rightarrow> 'w client_env \<Rightarrow> 'w client \<Rightarrow> ('w client \<times> int) option" where
  "ripc_check_data_p pl env w = ripc_receive_data_p pl env w"

section \<open>The loop around \<open>poll\<close> as a repeated call\<close>

definition poll_verdict ::
  "poll_answers \<Rightarrow> net_env \<Rightarrow> int \<Rightarrow> 16 word \<Rightarrow> rtimeout \<Rightarrow> 'a nworld_scheme \<Rightarrow> ('a nworld_scheme \<times> 16 word answer) option"
where
  "poll_verdict pl net fd events tm w =
    (case sys_poll pl w fd events (wait_millisec tm (now net w)) of (w1, ans) \<Rightarrow>
      if ans = Err EINTR then None else Some (w1, ans))"

lemma sys_poll_tick: "sys_poll pl w fd events time = (w1, ans) \<Longrightarrow> w1 = tick w"
  by (simp add: sys_poll_def)

interpretation poll_io: retry_call "poll_loop pl net fd events tm" "poll_verdict pl net fd events tm" tick
  for pl net fd events tm
proof (unfold_locales, goal_cases)
  case (1 w)
  show ?case
    by (subst poll_loop.simps) (auto simp: poll_verdict_def dest: sys_poll_tick split: answer.splits prod.splits if_splits)
next
  case (2 w r)
  show ?case
  proof (rule poll_loop.raw_induct [where P = "\<lambda>pl net fd events tm w r. \<exists>k. poll_verdict pl net fd events tm ((tick ^^ k) w) \<noteq> None", OF _ 2],
      goal_cases)
    case (1 f pl net fd events tm w r)
    show ?case
    proof (cases "poll_verdict pl net fd events tm w")
      case None
      then have "f pl net fd events tm (tick w) = Some r" using 1(2)
        by (auto simp: poll_verdict_def dest: sys_poll_tick split: if_splits answer.splits prod.splits)
      from funpow_later [OF 1(1) [OF this]] show ?thesis .
    qed (rule funpow_first, simp)
  qed
qed

text \<open>Waiting changes nothing but the count of calls.\<close>

lemma check_fd_result:
  assumes "rsocket_check_fd pl net w s op tm = Some (w', r)"
  obtains t where "w' = w\<lparr>nw_tick := t\<rparr>" "nw_tick w \<le> t" "r \<noteq> rcode_io_timeout \<longrightarrow> nw_tick w < t"
proof (cases "rtimeout_done tm (now net w)")
  case True
  then have "w' = w\<lparr>nw_tick := nw_tick w\<rparr>" "r = rcode_io_timeout" using assms by (simp_all add: rsocket_check_fd_def)
  then show ?thesis using that [of "nw_tick w"] by simp
next
  case False
  then obtain w1 ans where p: "poll_loop pl net (sk_fd s) op tm w = Some (w1, ans)"
    using assms by (auto simp: rsocket_check_fd_def bind_eq_Some_conv)
  then obtain k where "poll_verdict pl net (sk_fd s) op tm ((tick ^^ k) w) = Some (w1, ans)"
    using poll_io.loop_result [of pl net "sk_fd s" op tm w "(w1, ans)"] by auto
  then have "w1 = tick ((tick ^^ k) w)"
    by (auto simp: poll_verdict_def dest!: sys_poll_tick split: prod.splits if_splits)
  then have w1: "w1 = w\<lparr>nw_tick := Suc (nw_tick w + k)\<rparr>" by (simp add: tick_power tick_def)
  have "w' = w1 \<or> w' = tick w1" using assms False p
    by (auto simp: rsocket_check_fd_def sys_recv_def split: answer.splits if_splits)
  then have "w' = w\<lparr>nw_tick := Suc (nw_tick w + k)\<rparr> \<or> w' = w\<lparr>nw_tick := Suc (Suc (nw_tick w + k))\<rparr>"
    by (auto simp: w1 tick_def)
  then show ?thesis by (elim disjE) (rule that, assumption, simp, simp)+
qed

text \<open>No \<open>poll\<close> is interrupted for ever.\<close>

definition interrupts_end :: "poll_answers \<Rightarrow> bool" where
  "interrupts_end pl \<longleftrightarrow> (\<forall>t. \<exists>k\<ge>t. \<forall>time. pl k time \<noteq> Err EINTR)"

lemma check_fd_returns:
  assumes "interrupts_end pl"
  shows "\<exists>w' r. rsocket_check_fd pl net w s op tm = Some (w', r)"
proof -
  obtain k where "nw_tick w \<le> k" "\<forall>time. pl k time \<noteq> Err EINTR"
    using assms unfolding interrupts_end_def by blast
  then have "poll_verdict pl net (sk_fd s) op tm ((tick ^^ (k - nw_tick w)) w) \<noteq> None"
    by (auto simp: poll_verdict_def sys_poll_def split: answer.splits)
  then obtain w1 ans where "poll_loop pl net (sk_fd s) op tm w = Some (w1, ans)"
    using poll_io.loop_returns [of pl net "sk_fd s" op tm w] by fastforce
  then show ?thesis
    by (cases ans) (simp_all add: rsocket_check_fd_def split: prod.splits)
qed

section \<open>What the two loops do\<close>

text \<open>
  Sending: whatever the socket takes per round, what it gets in all is the memory of the buffer from
  the first unread byte on, \<open>k - sofar\<close> bytes of it.
\<close>

definition sends_to :: "rsocket \<Rightarrow> rbuffer \<Rightarrow> int \<Rightarrow> 'a nworld_scheme \<Rightarrow> 'a nworld_scheme \<times> int \<times> int \<Rightarrow> bool" where
  "sends_to s wb sofar w res \<longleftrightarrow> (case res of (w', k, r) \<Rightarrow>
    sofar \<le> k \<and> (\<exists>t. w' = w\<lparr>nw_tick := t, nw_out := (nw_out w)(sk_fd s := nw_out w (sk_fd s) @
      take (nat (k - sofar)) (drop (nat (rb_offset wb + sofar)) (rb_data wb)))\<rparr>) \<and>
    (k \<noteq> sofar \<longrightarrow> rb_offset wb + k \<le> int (length (rb_data wb))) \<and>
    (r = rcode_io_done \<longrightarrow> rbuffer_size wb \<le> k))"

lemma send_rounds_result:
  assumes "send_rounds pl net s wb tm sofar rcode_io_done w = Some res" "0 \<le> rb_offset wb" "0 \<le> sofar"
  shows "sends_to s wb sofar w res"
proof -
  have "c = rcode_io_done \<and> 0 \<le> rb_offset wb \<and> 0 \<le> sofar \<longrightarrow> sends_to s wb sofar w res"
    if "send_rounds pl net s wb tm sofar c w = Some res" for c
  proof (rule send_rounds.raw_induct [where P = "\<lambda>pl net s wb tm sofar c w res.
      c = rcode_io_done \<and> 0 \<le> rb_offset wb \<and> 0 \<le> sofar \<longrightarrow> sends_to s wb sofar w res", OF _ that], goal_cases)
    case (1 f pl net s wb tm sofar c w res)
    show ?case
    proof (intro impI)
      assume a: "c = rcode_io_done \<and> 0 \<le> rb_offset wb \<and> 0 \<le> sofar"
      note body = 1(2)
      show "sends_to s wb sofar w res"
      proof (cases "sofar < rbuffer_size wb")
        case False
        then show ?thesis using body a by (auto simp: sends_to_def intro: exI [of _ "nw_tick w"])
      next
        case more: True
        obtain w1 ready where chk: "rsocket_check_fd pl net w s wait_write tm = Some (w1, ready)"
          using body more a by (auto simp: bind_eq_Some_conv)
        obtain t1 where w1: "w1 = w\<lparr>nw_tick := t1\<rparr>" by (rule check_fd_result [OF chk])
        show ?thesis
        proof (cases "ready = rcode_io_done")
          case False
          then have "res = (w1, sofar, ready)" using body more a chk by simp
          then show ?thesis using False by (auto simp: sends_to_def w1)
        next
          case True
          then obtain data w2 n ret k where d: "mem_get (rb_data wb) (rb_offset wb + sofar) (rbuffer_size wb) = Some data"
              "rsocket_send net w1 s data tm = Some (w2, n, ret)" "int32 (sofar + int n) = Some k"
              "(if k \<ge> rbuffer_size wb then Some (w2, k, rcode_io_done)
                else if ret \<noteq> rcode_io_done
                then Some (w2, k, if ret = rcode_io_timeout then ipc_code rcode_err_ipc_timeout else ipc_code rcode_err_ipc_disconnect)
                else f pl net s wb tm k ret w2) = Some res"
            using body more a chk by (auto simp: bind_eq_Some_conv)
          obtain t2 where w2: "w2 = w1\<lparr>nw_tick := t2, nw_out := (nw_out w1)(sk_fd s := nw_out w1 (sk_fd s) @ take n data)\<rparr>"
            and n: "n \<le> length data" by (rule rsocket_send_result [OF d(2)])
          have k: "k = sofar + int n" using d(3) by (simp add: int32_eq_Some)
          have g: "0 \<le> rb_offset wb + sofar" "rb_offset wb + sofar + rbuffer_size wb \<le> int (length (rb_data wb))"
              "data = take (nat (rbuffer_size wb)) (drop (nat (rb_offset wb + sofar)) (rb_data wb))"
              "int (length data) = rbuffer_size wb"
            using d(1) mem_get_length [OF d(1)] by (simp_all add: mem_get_Some)
          have take_n: "take n data = take (nat (k - sofar)) (drop (nat (rb_offset wb + sofar)) (rb_data wb))"
          proof -
            have "n \<le> nat (rbuffer_size wb)" using n g(4) by linarith
            then show ?thesis using k by (simp add: g(3) min_absorb1)
          qed
          have one: "sends_to s wb sofar w (w2, k, r)" if "r = rcode_io_done \<longrightarrow> rbuffer_size wb \<le> k" for r
            using that take_n n g(2,4) k by (auto simp: sends_to_def w2 w1)
          show ?thesis
          proof (cases "k \<ge> rbuffer_size wb \<or> ret \<noteq> rcode_io_done")
            case True
            then show ?thesis using d(4) one by (auto split: if_splits)
          next
            case False
            then have "f pl net s wb tm k ret w2 = Some res" "ret = rcode_io_done" using d(4) by auto
            from 1(1) [OF this(1)] this(2) a k have IH: "sends_to s wb k w2 res" by simp
            obtain w3 l r where res: "res = (w3, l, r)" by (cases res)
            have l: "k \<le> l" "l \<noteq> k \<longrightarrow> rb_offset wb + l \<le> int (length (rb_data wb))" "r = rcode_io_done \<longrightarrow> rbuffer_size wb \<le> l"
              using IH by (auto simp: sends_to_def res)
            obtain t3 where w3: "w3 = w2\<lparr>nw_tick := t3, nw_out := (nw_out w2)(sk_fd s := nw_out w2 (sk_fd s) @
              take (nat (l - k)) (drop (nat (rb_offset wb + k)) (rb_data wb)))\<rparr>"
              using IH by (auto simp: sends_to_def res)
            have "take (nat (l - sofar)) (drop (nat (rb_offset wb + sofar)) (rb_data wb)) =
                take (nat (k - sofar)) (drop (nat (rb_offset wb + sofar)) (rb_data wb)) @
                take (nat (l - k)) (drop (nat (rb_offset wb + k)) (rb_data wb))"
              if "l \<noteq> k"
              using mem_get_split [of "k - sofar" "l - k" "rb_offset wb + sofar" "rb_data wb"] l that a k
              by (simp add: algebra_simps)
            then show ?thesis
              using l k g(2,4) n take_n by (cases "l = k") (auto simp: sends_to_def res w3 w2 w1)
          qed
        qed
      qed
    qed
  qed
  with assms show ?thesis by blast
qed

text \<open>Receiving: what the socket gave in all is stored in one piece behind the write position.\<close>

definition receives :: "int \<Rightarrow> bytes \<Rightarrow> int \<Rightarrow> 'a nworld_scheme \<Rightarrow> 'a nworld_scheme \<times> bytes \<times> int \<times> int \<Rightarrow> bool" where
  "receives at memory sofar w res \<longleftrightarrow> (case res of (w', memory', k, r) \<Rightarrow>
    \<exists>t got. w' = w\<lparr>nw_tick := t\<rparr> \<and> mem_put memory (at + sofar) got = Some memory' \<and> k = sofar + int (length got))"

lemma mem_put_put:
  assumes "mem_put m at xs = Some m1" "mem_put m1 (at + int (length xs)) ys = Some m2"
  shows "mem_put m at (xs @ ys) = Some m2"
proof -
  have len: "length m1 = length m" using assms(1) by (rule mem_put_length)
  have a: "0 \<le> at" "at + int (length xs) \<le> int (length m)" "m1 = take (nat at) m @ xs @ drop (nat at + length xs) m"
    using assms(1) by (auto simp: mem_put_Some)
  have b: "at + int (length xs) + int (length ys) \<le> int (length m)"
      "m2 = take (nat (at + int (length xs))) m1 @ ys @ drop (nat (at + int (length xs)) + length ys) m1"
    using assms(2) len by (auto simp: mem_put_Some)
  have n: "nat (at + int (length xs)) = nat at + length xs" using a(1) by (simp add: nat_add_distrib)
  have "take (nat at + length xs) m1 = take (nat at) m @ xs"
    unfolding a(3) by (rule splice_take) (use a in auto)
  moreover have "drop (nat at + length xs + length ys) m1 = drop (nat at + length xs + length ys) m"
    unfolding a(3) by (rule splice_drop) (use a in auto)
  ultimately have "m2 = take (nat at) m @ (xs @ ys) @ drop (nat at + length (xs @ ys)) m"
    using b(2) n by (simp add: add.assoc)
  then show ?thesis using a(1) b(1) by (simp add: mem_put_Some)
qed

lemma recv_rounds_result:
  assumes "recv_rounds pl net s at count tm memory sofar w = Some res"
  shows "0 \<le> at + sofar \<and> at + sofar \<le> int (length memory) \<longrightarrow> receives at memory sofar w res"
proof (rule recv_rounds.raw_induct [where P = "\<lambda>pl net s at count tm memory sofar w res.
    0 \<le> at + sofar \<and> at + sofar \<le> int (length memory) \<longrightarrow> receives at memory sofar w res", OF _ assms], goal_cases)
  case (1 f pl net s at count tm memory sofar w res)
  note body = 1(2)
  obtain w1 ready where chk: "rsocket_check_fd pl net w s wait_read tm = Some (w1, ready)"
    using body by (auto simp: bind_eq_Some_conv)
  obtain t1 where w1: "w1 = w\<lparr>nw_tick := t1\<rparr>" by (rule check_fd_result [OF chk])
  show ?case
  proof (cases "ready = rcode_io_nothing")
    case True
    then have "res = (w1, memory, sofar, rcode_io_done)" using body chk by simp
    then show ?thesis by (auto simp: receives_def w1 mem_put_Some intro: exI [of _ "[]"])
  next
    case False
    then obtain w2 got ret memory1 k where d: "rsocket_recv net w1 s (nat (count mod 2 ^ 64)) tm = Some (w2, got, ret)"
        "mem_put memory (at + sofar) got = Some memory1" "int32 (sofar + int (length got)) = Some k"
        "(if got = [] then Some (w2, memory1, k, ret)
          else if ret = rcode_io_done then f pl net s at count tm memory1 k w2
          else Some (w2, memory1, k, ret)) = Some res"
      using body chk by (auto simp: bind_eq_Some_conv)
    obtain t2 where w2: "w2 = w1\<lparr>nw_tick := t2\<rparr>" by (rule rsocket_recv_result [OF d(1)])
    have k: "k = sofar + int (length got)" using d(3) by (simp add: int32_eq_Some)
    have one: "receives at memory sofar w (w2, memory1, k, r)" for r
      using d(2) k by (auto simp: receives_def w2 w1)
    show ?thesis
    proof (cases "got = [] \<or> ret \<noteq> rcode_io_done")
      case True
      then show ?thesis using d(4) one by (auto split: if_splits)
    next
      case False
      then have "f pl net s at count tm memory1 k w2 = Some res" using d(4) by auto
      moreover have "0 \<le> at + k \<and> at + k \<le> int (length memory1)"
        using d(2) k mem_put_length [OF d(2)] by (auto simp: mem_put_Some)
      ultimately have IH: "receives at memory1 k w2 res" using 1(1) by blast
      obtain w3 m3 l r where res: "res = (w3, m3, l, r)" by (cases res)
      obtain t3 got2 where g: "w3 = w2\<lparr>nw_tick := t3\<rparr>" "mem_put memory1 (at + k) got2 = Some m3" "l = k + int (length got2)"
        using IH by (auto simp: receives_def res)
      have "mem_put memory (at + sofar) (got @ got2) = Some m3"
        by (rule mem_put_put [OF d(2)]) (use g(2) k in \<open>simp add: add.assoc\<close>)
      then show ?thesis using g k by (auto simp: receives_def res w2 w1 intro!: exI [of _ "got @ got2"])
    qed
  qed
qed

section \<open>When the two loops return\<close>

text \<open>A clock that passes every time and does not run backwards.\<close>

definition clock_steady :: "net_env \<Rightarrow> bool" where
  "clock_steady net \<longleftrightarrow> clock_runs net \<and> (\<forall>t. ne_clock net t \<le> ne_clock net (Suc t))"

lemma clock_steady_mono: "clock_steady net \<Longrightarrow> t \<le> u \<Longrightarrow> ne_clock net t \<le> ne_clock net u"
  unfolding clock_steady_def by (rule lift_Suc_mono_le [of "ne_clock net"]) auto

lemma over_later: "over tm c \<Longrightarrow> c \<le> d \<Longrightarrow> over tm d"
  by (simp add: over_def)

lemma check_fd_ticks:
  assumes "rsocket_check_fd pl net w s op tm = Some (w', r)"
  shows "nw_tick w \<le> nw_tick w'"
proof -
  obtain t where "w' = w\<lparr>nw_tick := t\<rparr>" "nw_tick w \<le> t" by (rule check_fd_result [OF assms])
  then show ?thesis by simp
qed

lemma rsocket_send_ticks:
  assumes "rsocket_send net w s data tm = Some (w', n, code)"
  shows "nw_tick w \<le> nw_tick w'"
proof (cases "sk_fd s = SOCKET_INVALID")
  case True
  then show ?thesis using assms by (simp add: rsocket_send_def)
next
  case False
  then obtain k where "send_verdict net (\<lambda>w. rtimeout_done tm (now net w)) (sk_fd s) data ((tick ^^ k) w) = Some (w', n, code)"
    using assms send_io.loop_result [of net "sk_fd s" data tm w "(w', n, code)"] by (auto simp: rsocket_send_def)
  then show ?thesis
    by (auto simp: send_verdict_def sys_send_def tick_def tick_power split: answer.splits if_splits)
qed

lemma rsocket_recv_got:
  assumes "rsocket_recv net w s count tm = Some (w', got, code)" "got \<noteq> []"
  shows "\<exists>t xs. nw_tick w \<le> t \<and> nw_tick w' = Suc t \<and> ne_recv net t = Ret xs \<and> length got \<le> length xs"
proof -
  have "sk_fd s \<noteq> SOCKET_INVALID" using assms by (auto simp: rsocket_recv_def)
  then obtain k where "recv_verdict net (\<lambda>w. rtimeout_done tm (now net w)) count ((tick ^^ k) w) = Some (w', got, code)"
    using assms(1) recv_io.loop_result [of net count tm w "(w', got, code)"] by (auto simp: rsocket_recv_def)
  then show ?thesis using assms(2)
    by (auto simp: recv_verdict_def sys_recv_def tick_def tick_power intro!: exI [of _ "nw_tick w + k"]
      split: answer.splits if_splits)
qed

text \<open>
  Sending ends with the time of its timer; that the buffer has room for its content once more behind the
  write position keeps every round inside the memory.
\<close>

lemma send_rounds_returns:
  assumes pl: "interrupts_end pl" and clock: "clock_steady net" and tm: "0 \<le> tm_block tm" "0 \<le> tm_total tm"
    and wb: "rbuffer_inv wb" "rb_pos wb + rbuffer_size wb \<le> rb_capacity wb"
    and sofar: "0 \<le> sofar"
  shows "\<exists>res. send_rounds pl net s wb tm sofar c w = Some res"
proof -
  obtain K where "over tm (ne_clock net (0 + Suc K))"
    using clock_runs_over [OF _ tm, of net 0] clock by (auto simp: clock_steady_def)
  then obtain L where L: "over tm (ne_clock net L)" by blast
  show ?thesis using sofar
  proof (induction "L - nw_tick w" arbitrary: w sofar c rule: less_induct)
    case less
    obtain w1 ready where chk: "rsocket_check_fd pl net w s wait_write tm = Some (w1, ready)"
      using check_fd_returns [OF pl] by blast
    obtain t where t: "w1 = w\<lparr>nw_tick := t\<rparr>" "nw_tick w \<le> t" "ready \<noteq> rcode_io_timeout \<longrightarrow> nw_tick w < t" by (rule check_fd_result [OF chk])
    show ?case
    proof (cases "sofar < rbuffer_size wb \<and> c = rcode_io_done \<and> ready = rcode_io_done")
      case False
      then show ?thesis using chk by (subst send_rounds.simps) auto
    next
      case True
      have range: "0 \<le> rb_offset wb + sofar" "0 \<le> rbuffer_size wb" "rb_offset wb + sofar + rbuffer_size wb \<le> int (length (rb_data wb))"
        using True less.prems wb by (auto simp: rbuffer_inv_def rbuffer_size_def)
      then obtain data where data: "mem_get (rb_data wb) (rb_offset wb + sofar) (rbuffer_size wb) = Some data"
        by (simp add: mem_get_in)
      obtain w2 n ret where snd: "rsocket_send net w1 s data tm = Some (w2, n, ret)"
        using send_recv_return(1) [OF _ tm, of net w1 s data] clock by (fastforce simp: clock_steady_def)
      obtain t2 where n: "n \<le> length data" by (rule rsocket_send_result [OF snd])
      have len: "int (length data) = rbuffer_size wb" by (rule mem_get_length [OF data])
      have "sofar + int n \<le> INT_MAX" using n len range wb(1) by (simp add: rbuffer_inv_def)
      then have k: "int32 (sofar + int n) = Some (sofar + int n)" using less.prems by (simp add: int32_in_range)
      have early: "\<not> L \<le> nw_tick w"
      proof
        assume "L \<le> nw_tick w"
        then have "rtimeout_done tm (now net w)"
          using over_later [OF L clock_steady_mono [OF clock]] over_done by (simp add: now_def)
        then have "ready = rcode_io_timeout" using chk by (simp add: rsocket_check_fd_def)
        then show False using True by simp
      qed
      have "nw_tick w < nw_tick w2" using t True rsocket_send_ticks [OF snd] by simp
      then have "L - nw_tick w2 < L - nw_tick w" using early by simp
      from less.hyps [OF this, of "sofar + int n" ret] less.prems
      obtain res where "send_rounds pl net s wb tm (sofar + int n) ret w2 = Some res" by auto
      then show ?thesis using True chk data snd k by (cases res; subst send_rounds.simps) auto
    qed
  qed
qed

text \<open>What the socket may still give: no more than \<open>n\<close> bytes from a call on.\<close>

definition answer_len :: "bytes answer \<Rightarrow> nat" where
  "answer_len a = (case a of Ret xs \<Rightarrow> length xs | Err e \<Rightarrow> 0)"

definition gives_at_most :: "net_env \<Rightarrow> nat \<Rightarrow> nat \<Rightarrow> bool" where
  "gives_at_most net t n \<longleftrightarrow> (\<forall>u. (\<Sum>k = t..<u. answer_len (ne_recv net k)) \<le> n)"

lemma gives_later: "gives_at_most net t n \<Longrightarrow> t \<le> u \<Longrightarrow> gives_at_most net u n"
  unfolding gives_at_most_def
proof
  fix v assume a: "\<forall>u. (\<Sum>k = t..<u. answer_len (ne_recv net k)) \<le> n" "t \<le> u"
  have "(\<Sum>k = u..<v. answer_len (ne_recv net k)) \<le> (\<Sum>k = t..<v. answer_len (ne_recv net k))"
    by (rule sum_mono2) (use a(2) in auto)
  then show "(\<Sum>k = u..<v. answer_len (ne_recv net k)) \<le> n" using a(1) le_trans by blast
qed

lemma gives_used:
  assumes "gives_at_most net t n" "t \<le> u" "ne_recv net u = Ret xs"
  shows "length xs \<le> n \<and> gives_at_most net (Suc u) (n - length xs)"
proof -
  have "length xs + (\<Sum>k = Suc u..<v. answer_len (ne_recv net k)) \<le> n" for v
  proof (cases "u < v")
    case True
    have "(\<Sum>k = u..<v. answer_len (ne_recv net k)) = length xs + (\<Sum>k = Suc u..<v. answer_len (ne_recv net k))"
      using True by (simp add: sum.atLeast_Suc_lessThan assms(3) answer_len_def)
    then show ?thesis using gives_later [OF assms(1,2)] unfolding gives_at_most_def by metis
  next
    case False
    have "(\<Sum>k = u..<Suc u. answer_len (ne_recv net k)) \<le> n"
      using gives_later [OF assms(1,2)] unfolding gives_at_most_def by blast
    then show ?thesis using False by (simp add: assms(3) answer_len_def)
  qed
  then show ?thesis unfolding gives_at_most_def by (metis add_leD1 le_diff_conv2 add.commute)
qed

text \<open>Receiving ends when the socket has nothing; that it has no more than there is room for keeps it inside the cache.\<close>

lemma recv_rounds_returns:
  assumes pl: "interrupts_end pl" and clock: "clock_runs net" and tm: "0 \<le> tm_block tm" "0 \<le> tm_total tm"
    and len: "int (length memory) \<le> INT_MAX" and at: "0 \<le> at"
    and sofar: "0 \<le> sofar" "at + sofar + int n \<le> int (length memory)" "gives_at_most net (nw_tick w) n"
  shows "\<exists>res. recv_rounds pl net s at count tm memory sofar w = Some res"
  using sofar len
proof (induction n arbitrary: w sofar memory rule: less_induct)
  case (less n)
  obtain w1 ready where chk: "rsocket_check_fd pl net w s wait_read tm = Some (w1, ready)"
    using check_fd_returns [OF pl] by blast
  obtain t where t: "w1 = w\<lparr>nw_tick := t\<rparr>" "nw_tick w \<le> t" "ready \<noteq> rcode_io_timeout \<longrightarrow> nw_tick w < t" by (rule check_fd_result [OF chk])
  show ?case
  proof (cases "ready = rcode_io_nothing")
    case True
    then show ?thesis using chk by (subst recv_rounds.simps) auto
  next
    case False
    obtain w2 got ret where rcv: "rsocket_recv net w1 s (nat (count mod 2 ^ 64)) tm = Some (w2, got, ret)"
      using send_recv_return(2) [OF clock tm, of w1 s "nat (count mod 2 ^ 64)"] by (metis not_None_eq prod_cases3)
    have ticks: "nw_tick w \<le> nw_tick w1" using check_fd_ticks [OF chk] .
    show ?thesis
    proof (cases "got = []")
      case True
      have "mem_put memory (at + sofar) [] = Some memory" "int32 sofar = Some sofar"
        using less.prems at by (simp_all add: mem_put_Some int32_in_range)
      then show ?thesis using chk False rcv True by (subst recv_rounds.simps) simp
    next
      case some: False
      obtain u xs where u: "nw_tick w1 \<le> u" "nw_tick w2 = Suc u" "ne_recv net u = Ret xs" "length got \<le> length xs"
        using rsocket_recv_got [OF rcv some] by blast
      have sup: "length xs \<le> n" "gives_at_most net (nw_tick w2) (n - length xs)"
        using gives_used [OF less.prems(3) _ u(3)] u(1,2) ticks by auto
      have put: "mem_put memory (at + sofar) got =
          Some (take (nat (at + sofar)) memory @ got @ drop (nat (at + sofar) + length got) memory)" (is "_ = Some ?m")
        by (rule mem_put_in) (use less.prems at u sup in auto)
      have len1: "length ?m = length memory" by (rule mem_put_length [OF put])
      have k: "int32 (sofar + int (length got)) = Some (sofar + int (length got))"
        using less.prems at u sup by (intro int32_in_range) auto
      have "0 < length got" using some by simp
      then have "0 < length xs" using u(4) by linarith
      then have "n - length xs < n" using sup(1) by linarith
      from less.IH [OF this, of "sofar + int (length got)" ?m w2] obtain res where
        "recv_rounds pl net s at count tm ?m (sofar + int (length got)) w2 = Some res"
        using less.prems u(4) sup len1 by auto
      then show ?thesis using chk False rcv some put k by (cases res; subst recv_rounds.simps) auto
    qed
  qed
qed

section \<open>What the client holds\<close>

text \<open>
  Beside the descriptors \<open>base\<close> of the rest of the program the client holds the one of its stream, and
  its two buffers exactly while it has a stream.
\<close>

definition sock_held :: "int set \<Rightarrow> 'a nworld_scheme \<Rightarrow> rsocket \<Rightarrow> bool" where
  "sock_held base w s \<longleftrightarrow>
    (if sk_fd s = SOCKET_INVALID then nw_open w = base
     else 0 < sk_fd s \<and> sk_fd s \<notin> base \<and> nw_open w = insert (sk_fd s) base)"

definition holds :: "int set \<Rightarrow> 'w client \<Rightarrow> bool" where
  "holds base w \<longleftrightarrow> (case cl_stream w of
     None \<Rightarrow> \<not> cl_live w \<and> nw_open w = base
   | Some s \<Rightarrow> cl_live w \<and> 0 < sk_fd s \<and> sk_fd s \<notin> base \<and> nw_open w = insert (sk_fd s) base \<and>
       ds_state (cl_ds w) \<in> {ripc_state_ready, ripc_state_start, ripc_state_stop} \<and>
       (\<exists>rc. ds_read_cache (cl_ds w) = Some rc \<and> rbuffer_inv rc) \<and>
       (\<exists>wb. ds_write_buff (cl_ds w) = Some wb \<and> rbuffer_inv wb))"

text \<open>The documented behaviour of \<open>socket\<close>: a descriptor that is not in use.\<close>

definition fresh_sockets :: "net_env \<Rightarrow> int set \<Rightarrow> bool" where
  "fresh_sockets net base \<longleftrightarrow> (\<forall>t fd. ne_socket net t = Ret fd \<longrightarrow> 0 < fd \<and> fd \<notin> base)"

definition sock_step :: "int set \<Rightarrow> 'a nworld_scheme \<Rightarrow> 'a nworld_scheme \<Rightarrow> rsocket \<Rightarrow> bool" where
  "sock_step base w w' s' \<longleftrightarrow> nworld.more w' = nworld.more w \<and> sock_held base w' s'"

lemma close_held: "sock_held base w s \<Longrightarrow> rsocket_close w s = (w', s', r) \<Longrightarrow>
    sock_step base w w' s' \<and> sk_fd s' = SOCKET_INVALID \<and> nw_open w' = base"
  by (auto simp: rsocket_close_def sys_close_def sock_step_def sock_held_def split: if_splits)

lemma setopt_held:
  assumes "sock_held base w s" "rsocket_setopt net w s option on = (w', s', r)"
  shows "sock_step base w w' s'"
  using setopt_same [OF assms(2)] assms(1) by (simp add: sock_step_def sock_held_def net_same_def)

lemma create_held:
  assumes "fresh_sockets net base" "nw_open w = base" "rsocket_create net w s = (w', s', r)"
  shows "sock_step base w w' s'"
proof -
  obtain w1 fd e where o: "sys_open (ne_socket net (nw_tick w)) w = (w1, fd, e)" by (cases "sys_open (ne_socket net (nw_tick w)) w")
  have 1: "sock_step base w w1 (s\<lparr>sk_fd := fd\<rparr>)"
  proof (cases "ne_socket net (nw_tick w)")
    case (Ret x)
    then have "0 < x \<and> x \<notin> base" using assms(1) unfolding fresh_sockets_def by blast
    then show ?thesis using o assms(2) Ret by (auto simp: sys_open_def sock_step_def sock_held_def tick_def)
  qed (use o assms(2) in \<open>auto simp: sys_open_def sock_step_def sock_held_def tick_def\<close>)
  obtain w2 s2 rv where so: "rsocket_setopt net w1 (s\<lparr>sk_fd := fd\<rparr>) RSO_REUSEADDR True = (w2, s2, rv)"
    by (cases "rsocket_setopt net w1 (s\<lparr>sk_fd := fd\<rparr>) RSO_REUSEADDR True")
  have "sock_step base w1 w2 s2" by (rule setopt_held [OF _ so]) (use 1 in \<open>simp add: sock_step_def\<close>)
  then have 2: "sock_step base w w2 s2" using 1 by (simp add: sock_step_def)
  show ?thesis using assms(3) o so 1 2 by (auto simp: rsocket_create_def Let_def split: if_splits)
qed

lemma connect_tick:
  assumes "rsocket_connect net w s tm = Some (w', r)"
  shows "\<exists>t. w' = w\<lparr>nw_tick := t\<rparr>" "r \<noteq> EINPROGRESS" "r \<noteq> EAGAIN"
proof -
  consider "w' = w" "r = rcode_io_closed"
    | e where "connect_loop net w = Some (w', e)" "r \<noteq> EINPROGRESS" "r \<noteq> EAGAIN"
    using assms by (auto simp: rsocket_connect_def bind_eq_Some_conv split: if_splits)
  then have "(\<exists>t. w' = w\<lparr>nw_tick := t\<rparr>) \<and> r \<noteq> EINPROGRESS \<and> r \<noteq> EAGAIN"
  proof cases
    case 1
    then show ?thesis by (auto intro: exI [of _ "nw_tick w"])
  next
    case (2 e)
    then obtain k where "connect_verdict net ((tick ^^ k) w) = Some (w', e)"
      using connect_io.loop_result [of net w "(w', e)"] by auto
    then have "w' = w\<lparr>nw_tick := Suc (nw_tick w + k)\<rparr>"
      by (auto simp: connect_verdict_def Let_def tick_power tick_def split: if_splits)
    then show ?thesis using 2(2,3) by blast
  qed
  then show "\<exists>t. w' = w\<lparr>nw_tick := t\<rparr>" "r \<noteq> EINPROGRESS" "r \<noteq> EAGAIN" by auto
qed

text \<open>
  The wait for the connection is never reached, since \<open>rsocket_connect\<close> reports a connection under way
  as done.
\<close>

lemma connect_wait:
  "(rsocket_connect net w s tm \<bind> (\<lambda>(w3, ret). (if ret = EINPROGRESS \<or> ret = EAGAIN
      then rsocket_check_fd pl net w3 s wait_connect tm else Some (w3, ret)) \<bind> g)) = rsocket_connect net w s tm \<bind> g"
proof (cases "rsocket_connect net w s tm")
  case (Some x)
  obtain w3 ret where x: "x = (w3, ret)" by (cases x)
  then have "ret \<noteq> EINPROGRESS" "ret \<noteq> EAGAIN" using connect_tick(2,3) Some by blast+
  then show ?thesis using Some x by simp
qed simp

text \<open>One address of the list: the socket that is tried, or the error of making it.\<close>

definition addr_socket ::
  "net_env \<Rightarrow> int \<Rightarrow> int \<Rightarrow> 'a nworld_scheme \<Rightarrow> rsocket \<Rightarrow>
    ('a nworld_scheme \<times> rsocket \<times> int) + ('a nworld_scheme \<times> rsocket \<times> int)"
where
  "addr_socket net family cf w s =
    (if cf \<noteq> family \<or> sk_fd s = SOCKET_INVALID
     then case rsocket_close w s of (w1, s1, _) \<Rightarrow>
       (case rsocket_create net w1 s1 of (w2, s2, ret) \<Rightarrow>
         if ret \<noteq> rcode_ok then Inl (w2, s2, ret)
         else Inr (fst (rsocket_setnonblocking w2 s2), s2, family))
     else Inr (w, s, cf))"

lemma open_addrs_step:
  "open_addrs_p pl net (family # rest) cf rc w s = (case addr_socket net family cf w s of
     Inl (w2, s2, ret) \<Rightarrow> open_addrs_p pl net rest cf ret w2 s2
   | Inr (w2, s2, current) \<Rightarrow> do {
       (w4, ret1) \<leftarrow> rsocket_connect net w2 s2 (timer_sec net w 2);
       if ret1 = rcode_io_done then Some (w4, s2, ret1)
       else open_addrs_p pl net rest current
         (if rtimeout_done (timer_sec net w 2) (now net w4) then ipc_code rcode_err_ipc_timeout else ret1) w4 s2
     })"
  unfolding open_addrs_p.simps Let_def connect_wait addr_socket_def ..

lemma addr_socket_held:
  assumes "fresh_sockets net base" "sock_held base w s"
  shows "case addr_socket net family cf w s of Inl (w2, s2, r) \<Rightarrow> sock_step base w w2 s2
    | Inr (w2, s2, cf2) \<Rightarrow> sock_step base w w2 s2"
proof (cases "cf \<noteq> family \<or> sk_fd s = SOCKET_INVALID")
  case True
  obtain w1 s1 r1 where cl: "rsocket_close w s = (w1, s1, r1)" by (cases "rsocket_close w s")
  obtain w2 s2 r2 where cr: "rsocket_create net w1 s1 = (w2, s2, r2)" by (cases "rsocket_create net w1 s1")
  have 1: "sock_step base w w1 s1" "nw_open w1 = base" using close_held [OF assms(2) cl] by auto
  have "sock_step base w1 w2 s2" by (rule create_held [OF assms(1) 1(2) cr])
  then have "sock_step base w w2 s2" using 1 by (simp add: sock_step_def)
  moreover from this have "sock_step base w (fst (rsocket_setnonblocking w2 s2)) s2"
    by (simp add: sock_step_def sock_held_def rsocket_setnonblocking_def)
  ultimately show ?thesis using True cl cr by (simp add: addr_socket_def)
qed (use assms in \<open>simp add: addr_socket_def sock_step_def\<close>)

lemma open_addrs_held:
  assumes "fresh_sockets net base"
  shows "open_addrs_p pl net fams cf rc w s = Some (w', s', r) \<Longrightarrow> sock_held base w s \<Longrightarrow> sock_step base w w' s'"
proof (induction fams arbitrary: cf rc w s)
  case Nil
  then show ?case by (simp add: sock_step_def)
next
  case (Cons family rest)
  note held = addr_socket_held [OF assms Cons.prems(2), of family cf]
  show ?case
  proof (cases "addr_socket net family cf w s")
    case (Inl x)
    obtain w2 s2 ret where x: "x = (w2, s2, ret)" by (cases x)
    have "open_addrs_p pl net rest cf ret w2 s2 = Some (w', s', r)"
      using Cons.prems(1) by (simp only: open_addrs_step Inl x sum.case prod.case)
    from Cons.IH [OF this] held show ?thesis by (simp add: Inl x sock_step_def)
  next
    case (Inr x)
    obtain v u f where x: "x = (v, u, f)" by (cases x)
    let ?tm = "timer_sec net w 2"
    obtain v4 c where c: "rsocket_connect net v u ?tm = Some (v4, c)" "(if c = rcode_io_done then Some (v4, u, c)
        else open_addrs_p pl net rest f (if rtimeout_done ?tm (now net v4) then ipc_code rcode_err_ipc_timeout else c) v4 u) =
        Some (w', s', r)"
      using Cons.prems(1) by (simp only: open_addrs_step Inr x sum.case prod.case) (auto simp: bind_eq_Some_conv)
    obtain t where "v4 = v\<lparr>nw_tick := t\<rparr>" using connect_tick(1) [OF c(1)] by blast
    then have 4: "sock_step base w v4 u" using held by (simp add: Inr x sock_step_def sock_held_def)
    show ?thesis
    proof (cases "c = rcode_io_done")
      case True
      then show ?thesis using 4 c(2) by simp
    next
      case False
      then have "open_addrs_p pl net rest f (if rtimeout_done ?tm (now net v4) then ipc_code rcode_err_ipc_timeout else c) v4 u =
          Some (w', s', r)" using c(2) by simp
      from Cons.IH [OF this] 4 show ?thesis by (simp add: sock_step_def)
    qed
  qed
qed

text \<open>What \<open>poll\<close> would answer makes no difference to opening.\<close>

lemma open_addrs_no_poll: "open_addrs_p pl net fams cf rc w s = open_addrs_p pl' net fams cf rc w s"
proof (induction fams arbitrary: cf rc w s)
  case (Cons family rest)
  show ?case unfolding open_addrs_step Cons.IH [of _ _ _ _] ..
qed simp

section \<open>Every operation keeps the account\<close>

lemma holds_stream:
  assumes "holds base w" "cl_stream w = Some s"
  obtains rc wb where "cl_live w" "0 < sk_fd s" "sk_fd s \<notin> base" "nw_open w = insert (sk_fd s) base"
    "ds_state (cl_ds w) \<in> {ripc_state_ready, ripc_state_start, ripc_state_stop}"
    "ds_read_cache (cl_ds w) = Some rc" "rbuffer_inv rc" "ds_write_buff (cl_ds w) = Some wb" "rbuffer_inv wb"
  using assms by (auto simp: holds_def)

lemma holds_cong:
  assumes "holds base w" "cl_stream w' = cl_stream w" "cl_live w' = cl_live w" "nw_open w' = nw_open w"
    "ds_state (cl_ds w') = ds_state (cl_ds w)" "ds_read_cache (cl_ds w') = ds_read_cache (cl_ds w)"
    "ds_write_buff (cl_ds w') = ds_write_buff (cl_ds w)"
  shows "holds base w'"
  using assms(1) unfolding holds_def assms(2-7) .

lemma block_buffer: "rbuffer_create block buffer_bytes = Some b \<Longrightarrow> rbuffer_inv b"
  by (auto simp: rbuffer_create_def rbuffer_inv_def split: if_splits)

text \<open>With an address, opening goes on with a socket that was made.\<close>

lemma connected_socket:
  "open_addrs_p pl net fams cf rc w s = Some (w', s', rcode_ok) \<Longrightarrow> fams \<noteq> [] \<or> rc \<noteq> rcode_ok \<Longrightarrow> sk_fd s' \<noteq> SOCKET_INVALID"
proof (induction fams arbitrary: cf rc w s)
  case (Cons family rest)
  show ?case
  proof (cases "addr_socket net family cf w s")
    case (Inl x)
    obtain w2 s2 ret where x: "x = (w2, s2, ret)" by (cases x)
    have "ret \<noteq> rcode_ok" using Inl x by (auto simp: addr_socket_def split: if_splits prod.splits)
    moreover have "open_addrs_p pl net rest cf ret w2 s2 = Some (w', s', rcode_ok)"
      using Cons.prems(1) by (simp only: open_addrs_step Inl x sum.case prod.case)
    ultimately show ?thesis using Cons.IH by blast
  next
    case (Inr x)
    obtain v u f where x: "x = (v, u, f)" by (cases x)
    let ?tm = "timer_sec net w 2"
    obtain v4 c where c: "rsocket_connect net v u ?tm = Some (v4, c)" "(if c = rcode_io_done then Some (v4, u, c)
        else open_addrs_p pl net rest f (if rtimeout_done ?tm (now net v4) then ipc_code rcode_err_ipc_timeout else c) v4 u) =
        Some (w', s', rcode_ok)"
      using Cons.prems(1) by (simp only: open_addrs_step Inr x sum.case prod.case) (auto simp: bind_eq_Some_conv)
    show ?thesis
    proof (cases "c = rcode_io_done")
      case True
      then show ?thesis using c by (auto simp: rsocket_connect_def)
    next
      case False
      let ?c = "if rtimeout_done ?tm (now net v4) then ipc_code rcode_err_ipc_timeout else c"
      have "open_addrs_p pl net rest f ?c v4 u = Some (w', s', rcode_ok)" "?c \<noteq> rcode_ok" using c(2) False by simp_all
      then show ?thesis using Cons.IH by blast
    qed
  qed
qed simp

lemma open_holds:
  assumes h: "holds base w" "cl_stream w = None" and env: "fresh_sockets (ce_net env) base" "\<forall>t. ce_addrs env t \<noteq> Ret []"
    and run: "ripc_open_p pl env w = Some (w', r)"
  shows "holds base w' \<and> (r \<noteq> rcode_ok \<longrightarrow> cl_stream w' = None)"
proof -
  let ?net = "ce_net env"
  have base: "nw_open w = base" "\<not> cl_live w" using h by (simp_all add: holds_def)
  note more = more_client(8,9)
  show ?thesis
  proof (cases "ce_addrs env (nw_tick w)")
    case (Err e)
    then have "w' = tick w" using run by (auto simp: ripc_open_p_def Let_def split: if_splits)
    then show ?thesis using base h(2) more [OF tick_more, of w] by (simp add: holds_def)
  next
    case (Ret fams)
    obtain w1 s1 rc where a: "open_addrs_p pl ?net fams AF_INET rcode_ok (tick w) (new_socket ?net) = Some (w1, s1, rc)"
      using run Ret by (auto simp: ripc_open_p_def Let_def bind_eq_Some_conv)
    have "sock_held base (tick w) (new_socket ?net)" using base by (simp add: sock_held_def new_socket_def)
    from open_addrs_held [OF env(1) a this] have 1: "sock_step base w w1 s1" by (simp add: sock_step_def)
    obtain w2 s2 r2 where o2: "rsocket_setopt ?net w1 s1 RSO_NONBLOCK True = (w2, s2, r2)"
      by (cases "rsocket_setopt ?net w1 s1 RSO_NONBLOCK True")
    obtain w3 s3 r3 where o3: "rsocket_setopt ?net w2 s2 RTCP_NODELAY True = (w3, s3, r3)"
      by (cases "rsocket_setopt ?net w2 s2 RTCP_NODELAY True")
    have 2: "sock_step base w w2 s2" using setopt_held [OF _ o2, of base] 1 by (simp add: sock_step_def)
    have 3: "sock_step base w w3 s3" using setopt_held [OF _ o3, of base] 2 by (simp add: sock_step_def)
    have given_up: "holds base (fst (rsocket_close v s)) \<and> cl_stream (fst (rsocket_close v s)) = None"
      if "sock_step base w v s" for v s
    proof -
      obtain v1 v2 v3 where c: "rsocket_close v s = (v1, v2, v3)" by (cases "rsocket_close v s")
      from close_held [OF _ c, of base] that have "nworld.more v1 = nworld.more w" "nw_open v1 = base"
        by (auto simp: sock_step_def)
      then show ?thesis using more [of v1 w] base h(2) c by (simp add: holds_def)
    qed
    show ?thesis
    proof (cases "rc = rcode_ok \<and> r2 = rcode_ok \<and> r3 = rcode_ok")
      case False
      then have "Some (w', r) = Some (fst (rsocket_close w1 s1), rc) \<or> Some (w', r) = Some (fst (rsocket_close w2 s2), rc) \<or>
          Some (w', r) = Some (fst (rsocket_close w3 s3), rc)"
        unfolding run [symmetric] using Ret a o2 o3 by (simp add: ripc_open_p_def Let_def)
      then have "w' = fst (rsocket_close w1 s1) \<or> w' = fst (rsocket_close w2 s2) \<or> w' = fst (rsocket_close w3 s3)" by blast
      then show ?thesis using given_up [OF 1] given_up [OF 2] given_up [OF 3] by (elim disjE) simp_all
    next
      case True
      then obtain rb wb where b: "rbuffer_create (ce_block env) buffer_bytes = Some rb" "rbuffer_create (ce_block env) buffer_bytes = Some wb"
        "w' = w3\<lparr>cl_live := True, cl_stream := Some s3, cl_ds := (cl_ds w3)\<lparr>ds_read_cache := Some rb,
                 ds_write_buff := Some wb, ds_state := ripc_state_ready\<rparr>\<rparr>" "r = rcode_ok"
      proof -
        have e: "ripc_open_p pl env w = do {
            rb \<leftarrow> rbuffer_create (ce_block env) buffer_bytes;
            wb \<leftarrow> rbuffer_create (ce_block env) buffer_bytes;
            Some (w3\<lparr>cl_live := True, cl_stream := Some s3, cl_ds := (cl_ds w3)\<lparr>ds_read_cache := Some rb,
              ds_write_buff := Some wb, ds_state := ripc_state_ready\<rparr>\<rparr>, rcode_ok)
          }"
          using Ret a o2 o3 True by (simp add: ripc_open_p_def Let_def)
        show thesis
        proof (cases "rbuffer_create (ce_block env) buffer_bytes")
          case None
          then have "ripc_open_p pl env w = None" unfolding e by simp
          then show thesis using run by simp
        next
          case (Some b)
          then have "ripc_open_p pl env w = Some (w3\<lparr>cl_live := True, cl_stream := Some s3, cl_ds := (cl_ds w3)\<lparr>ds_read_cache := Some b,
              ds_write_buff := Some b, ds_state := ripc_state_ready\<rparr>\<rparr>, rcode_ok)" unfolding e by simp
          then show thesis using that Some run by simp
        qed
      qed
      have "fams \<noteq> []" using env(2) Ret by metis
      then have "sk_fd s1 \<noteq> SOCKET_INVALID" using connected_socket a True by blast
      then have "sk_fd s3 \<noteq> SOCKET_INVALID" using setopt_same [OF o2] setopt_same [OF o3] by simp
      then show ?thesis using 3 b(3,4) block_buffer [OF b(1)] block_buffer [OF b(2)]
        by (simp add: holds_def sock_step_def sock_held_def)
    qed
  qed
qed

lemma close_holds:
  assumes "holds base w"
  obtains w' where "ripc_close_p w = Some (w', rcode_ok)" "cl_stream w' = None" "\<not> cl_live w'" "nw_open w' = base"
    "nw_out w' = nw_out w" "cl_stream w \<noteq> None \<longrightarrow> ds_state (cl_ds w') = ripc_state_closed"
proof (cases "cl_stream w")
  case None
  then have "ripc_close_p w = Some (w, rcode_ok)" by (simp add: ripc_close_p_def)
  then show ?thesis using that None assms by (simp add: holds_def)
next
  case (Some s)
  obtain rc wb where h: "cl_live w" "0 < sk_fd s" "sk_fd s \<notin> base" "nw_open w = insert (sk_fd s) base"
    "ds_state (cl_ds w) \<in> {ripc_state_ready, ripc_state_start, ripc_state_stop}"
    "ds_read_cache (cl_ds w) = Some rc" "rbuffer_inv rc" "ds_write_buff (cl_ds w) = Some wb" "rbuffer_inv wb"
    by (rule holds_stream [OF assms Some])
  define v where "v = sys_close (w\<lparr>cl_live := False\<rparr>) (sk_fd s)"
  define w' where "w' = v\<lparr>cl_stream := None, cl_ds := (cl_ds v)\<lparr>ds_state := ripc_state_closed\<rparr>\<rparr>"
  have "ripc_close_p w = Some (w', rcode_ok)"
    using h(1,2,5) Some by (auto simp: ripc_close_p_def release_buffers_def rsocket_close_def w'_def v_def)
  then show ?thesis using h(3,4) by (intro that [of w']) (auto simp: w'_def v_def sys_close_def tick_def)
qed

lemma uninit_holds:
  assumes "holds base w"
  obtains w' where "ripc_uninit_p w = Some (w', rcode_ok)" "holds base w'"
    "ds_state (cl_ds w') = ripc_state_uninit" "ds_state (cl_ds w) \<noteq> ripc_state_uninit \<longrightarrow> cl_stream w' = None"
proof -
  obtain v where v: "ripc_close_p w = Some (v, rcode_ok)" "cl_stream v = None" "\<not> cl_live v" "nw_open v = base"
    by (rule close_holds [OF assms])
  show ?thesis
  proof (cases "ds_state (cl_ds w) = ripc_state_uninit")
    case True
    then show ?thesis using assms by (intro that [of w]) (simp_all add: ripc_uninit_p_def)
  next
    case False
    define u where "u = (if ds_state (cl_ds w) \<noteq> ripc_state_closed then v else w)"
    have u: "cl_stream u = None" "\<not> cl_live u" "nw_open u = base"
    proof -
      have "cl_stream w = None" if "ds_state (cl_ds w) = ripc_state_closed"
        using assms that by (auto simp: holds_def split: option.splits)
      then show "cl_stream u = None" "\<not> cl_live u" "nw_open u = base"
        using v assms by (auto simp: u_def holds_def)
    qed
    have "ripc_uninit_p w = Some (u\<lparr>cl_ds := (cl_ds u)\<lparr>ds_state := ripc_state_uninit\<rparr>\<rparr>, rcode_ok)"
      using False v(1) by (simp add: ripc_uninit_p_def u_def)
    then show ?thesis using u by (intro that) (auto simp: holds_def)
  qed
qed

lemma start_stop_holds: "holds base w \<Longrightarrow> holds base (fst (ripc_start_p w)) \<and> holds base (fst (ripc_stop_p w))"
  by (auto simp: holds_def ripc_start_p_def ripc_stop_p_def split: option.splits)

section \<open>Sending\<close>

text \<open>The write buffer when the loop begins.\<close>

definition written :: "'w client_env \<Rightarrow> 'w client \<Rightarrow> ripc_data_default \<Rightarrow> rbuffer option" where
  "written env w m = (case ce_out env of
     None \<Rightarrow> ds_write_buff (cl_ds w)
   | Some process \<Rightarrow> (case process (cl_ds w) m of None \<Rightarrow> None | Some (ds, _, _) \<Rightarrow> ds_write_buff ds))"

lemma rsocket_send_whole:
  assumes "rsocket_send net w s data tm = Some (w', n, code)" "\<forall>t k. ne_send net t = Ret k \<longrightarrow> length data \<le> k"
  shows "n = 0 \<or> n = length data"
proof (cases "sk_fd s = SOCKET_INVALID")
  case True
  then show ?thesis using assms(1) by (simp add: rsocket_send_def)
next
  case False
  then obtain k where "send_verdict net (\<lambda>w. rtimeout_done tm (now net w)) (sk_fd s) data ((tick ^^ k) w) = Some (w', n, code)"
    using assms(1) send_io.loop_result [of net "sk_fd s" data tm w "(w', n, code)"] by (auto simp: rsocket_send_def)
  then show ?thesis using assms(2) [rule_format, of "nw_tick w + k"]
    by (auto simp: send_verdict_def sys_send_def min_def split: answer.splits if_splits)
qed

lemma send_rounds_whole:
  assumes "send_rounds pl net s wb tm 0 rcode_io_done w = Some (w', k, r)" "0 \<le> rbuffer_size wb"
    "\<forall>t n. ne_send net t = Ret n \<longrightarrow> rbuffer_size wb \<le> int n"
  shows "k = 0 \<or> k = rbuffer_size wb"
proof -
  have "c = rcode_io_done \<and> sofar = 0 \<and> 0 \<le> rbuffer_size wb \<and> (\<forall>t n. ne_send net t = Ret n \<longrightarrow> rbuffer_size wb \<le> int n) \<longrightarrow>
      fst (snd res) = 0 \<or> fst (snd res) = rbuffer_size wb"
    if "send_rounds pl net s wb tm sofar c w = Some res" for sofar c res
  proof (rule send_rounds.raw_induct [where P = "\<lambda>pl net s wb tm sofar c w res. c = rcode_io_done \<and> sofar = 0 \<and>
      0 \<le> rbuffer_size wb \<and> (\<forall>t n. ne_send net t = Ret n \<longrightarrow> rbuffer_size wb \<le> int n) \<longrightarrow>
      fst (snd res) = 0 \<or> fst (snd res) = rbuffer_size wb", OF _ that], goal_cases)
    case (1 f pl net s wb tm sofar c w res)
    show ?case
    proof (intro impI)
      assume a: "c = rcode_io_done \<and> sofar = 0 \<and> 0 \<le> rbuffer_size wb \<and> (\<forall>t n. ne_send net t = Ret n \<longrightarrow> rbuffer_size wb \<le> int n)"
      note body = 1(2)
      show "fst (snd res) = 0 \<or> fst (snd res) = rbuffer_size wb"
      proof (cases "0 < rbuffer_size wb")
        case False
        then show ?thesis using body a by auto
      next
        case more: True
        obtain w1 ready where chk: "rsocket_check_fd pl net w s wait_write tm = Some (w1, ready)"
          using body more a by (auto simp: bind_eq_Some_conv)
        show ?thesis
        proof (cases "ready = rcode_io_done")
          case False
          then show ?thesis using body more a chk by auto
        next
          case True
          then obtain data w2 n ret k where d: "mem_get (rb_data wb) (rb_offset wb) (rbuffer_size wb) = Some data"
              "rsocket_send net w1 s data tm = Some (w2, n, ret)" "int32 (int n) = Some k"
              "(if k \<ge> rbuffer_size wb then Some (w2, k, rcode_io_done)
                else if ret \<noteq> rcode_io_done
                then Some (w2, k, if ret = rcode_io_timeout then ipc_code rcode_err_ipc_timeout else ipc_code rcode_err_ipc_disconnect)
                else f pl net s wb tm k ret w2) = Some res"
            using body more a chk by (auto simp: bind_eq_Some_conv)
          have len: "int (length data) = rbuffer_size wb" by (rule mem_get_length [OF d(1)])
          have "\<forall>t n. ne_send net t = Ret n \<longrightarrow> length data \<le> n" using a len by (metis nat_int nat_mono)
          then have "n = 0 \<or> n = length data" by (rule rsocket_send_whole [OF d(2)])
          then have k: "k = 0 \<or> k = rbuffer_size wb" using d(3) len by (auto simp: int32_eq_Some)
          show ?thesis
          proof (cases "k \<ge> rbuffer_size wb \<or> ret \<noteq> rcode_io_done")
            case True
            then show ?thesis using d(4) k by (auto split: if_splits)
          next
            case False
            then have "f pl net s wb tm k ret w2 = Some res" "ret = rcode_io_done" "k = 0" using d(4) k by auto
            from 1(1) [OF this(1)] this(2,3) a show ?thesis by blast
          qed
        qed
      qed
    qed
  qed
  from this [OF assms(1)] assms(2,3) show ?thesis by simp
qed

lemma skip_content_any:
  assumes "rbuffer_inv b" "0 \<le> k" "rb_offset b + k \<le> INT_MAX"
  shows "\<exists>b'. rbuffer_skip (Some b) k = Some (Some b', rcode_ok) \<and> rbuffer_inv b' \<and>
    rbuffer_content b' = drop (nat k) (rbuffer_content b)"
proof -
  have b: "0 \<le> rb_offset b" "rb_offset b \<le> rb_pos b" using assms(1) by (auto simp: rbuffer_inv_def)
  obtain b' where b': "rbuffer_skip (Some b) k = Some (Some b', rcode_ok)" "rbuffer_inv b'"
      "rb_offset b' = max 0 (min (rb_offset b + k) (rb_pos b))" "rb_pos b' = rb_pos b" "rb_data b' = rb_data b"
    using rbuffer_skip_spec [OF assms(1) _ assms(3)] assms(2) b by fastforce
  have "rbuffer_content b' = drop (nat k) (rbuffer_content b)"
  proof (cases "rb_offset b + k \<le> rb_pos b")
    case True
    then show ?thesis using b assms(2) by (simp add: rbuffer_content_def rbuffer_size_def b'(3-5) drop_take nat_diff_distrib nat_add_distrib
      algebra_simps)
  next
    case False
    then have "rbuffer_size b' = 0" "length (rbuffer_content b) \<le> nat k"
      using b by (simp_all add: rbuffer_size_def b'(3,4) rbuffer_content_def)
    then show ?thesis by (simp add: rbuffer_content_def)
  qed
  with b'(1,2) show ?thesis by blast
qed

text \<open>The memory from the first unread byte on is the content and what lies behind it.\<close>

lemma content_and_behind:
  assumes "rbuffer_inv b"
  shows "drop (nat (rb_offset b)) (rb_data b) = rbuffer_content b @ drop (nat (rb_pos b)) (rb_data b)"
proof -
  have b: "0 \<le> rb_offset b" "rb_offset b \<le> rb_pos b" using assms by (auto simp: rbuffer_inv_def)
  then have "nat (rb_pos b) = nat (rbuffer_size b) + nat (rb_offset b)"
    by (simp add: rbuffer_size_def nat_diff_distrib)
  then show ?thesis unfolding rbuffer_content_def by (metis append_take_drop_id drop_drop)
qed

lemma timer_100: "0 \<le> tm_block (timer_millisec net w 100)" "0 \<le> tm_total (timer_millisec net w 100)"
  by (simp_all add: timer_millisec_def rtimeout_begin_def rtimeout_init_millisec_def rtimeout_init_microsec_def)

text \<open>The end of a sending, from the write buffer \<open>b\<close> on.\<close>

definition send_from ::
  "poll_answers \<Rightarrow> 'w client_env \<Rightarrow> 'w client \<Rightarrow> rbuffer \<Rightarrow> rsocket \<Rightarrow> ripc_data_default \<Rightarrow>
    ('w client \<times> ripc_data_default \<times> int) option" where
  "send_from pl env w b s m = do {
     (w2, k, r) \<leftarrow> send_rounds pl (ce_net env) s b (timer_millisec (ce_net env) w 100) 0 rcode_io_done w;
     (bp, _) \<leftarrow> rbuffer_skip (Some b) k;
     Some (w2\<lparr>cl_ds := (cl_ds w2)\<lparr>ds_write_buff := bp\<rparr>\<rparr>, m, r)
   }"

lemma send_from_result:
  assumes run: "send_from pl env w b s m = Some (w', m', r)" and b: "rbuffer_inv b"
  shows "\<exists>k t b' stale. w' = w\<lparr>nw_tick := t, nw_out := (nw_out w)(sk_fd s := nw_out w (sk_fd s) @ take k (rbuffer_content b @ stale)),
      cl_ds := (cl_ds w)\<lparr>ds_write_buff := Some b'\<rparr>\<rparr> \<and> rbuffer_inv b' \<and> rbuffer_content b' = drop k (rbuffer_content b) \<and>
    k \<le> length (rbuffer_content b @ stale) \<and> (r = rcode_io_done \<longrightarrow> length (rbuffer_content b) \<le> k) \<and>
    ((\<forall>t n. ne_send (ce_net env) t = Ret n \<longrightarrow> length (rbuffer_content b) \<le> n) \<longrightarrow> k \<le> length (rbuffer_content b))"
proof -
  let ?net = "ce_net env"
  obtain w2 k where snd: "send_rounds pl ?net s b (timer_millisec ?net w 100) 0 rcode_io_done w = Some (w2, k, r)"
    and w': "rbuffer_skip (Some b) k \<bind> (\<lambda>(bp, _). Some (w2\<lparr>cl_ds := (cl_ds w2)\<lparr>ds_write_buff := bp\<rparr>\<rparr>, m, r)) = Some (w', m', r)"
    using run by (auto simp: send_from_def bind_eq_Some_conv)
  have inv: "0 \<le> rb_offset b" "rb_offset b \<le> rb_pos b" "rb_pos b \<le> int (length (rb_data b))" "int (length (rb_data b)) \<le> INT_MAX"
    using b by (auto simp: rbuffer_inv_def)
  note len = rbuffer_content_length [OF b]
  have S: "0 \<le> k" "k \<noteq> 0 \<longrightarrow> rb_offset b + k \<le> int (length (rb_data b))" "r = rcode_io_done \<longrightarrow> rbuffer_size b \<le> k"
    using send_rounds_result [OF snd inv(1)] by (simp_all add: sends_to_def)
  obtain t where w2: "w2 = w\<lparr>nw_tick := t, nw_out := (nw_out w)(sk_fd s := nw_out w (sk_fd s) @
      take (nat k) (drop (nat (rb_offset b)) (rb_data b)))\<rparr>"
    using send_rounds_result [OF snd inv(1)] by (auto simp: sends_to_def)
  let ?stale = "drop (nat (rb_pos b)) (rb_data b)"
  obtain b' where b': "rbuffer_skip (Some b) k = Some (Some b', rcode_ok)" "rbuffer_inv b'"
      "rbuffer_content b' = drop (nat k) (rbuffer_content b)"
    using skip_content_any [OF b S(1)] S inv by (cases "k = 0") auto
  have "w' = w\<lparr>nw_tick := t, nw_out := (nw_out w)(sk_fd s := nw_out w (sk_fd s) @ take (nat k) (rbuffer_content b @ ?stale)),
      cl_ds := (cl_ds w)\<lparr>ds_write_buff := Some b'\<rparr>\<rparr>"
    using w' b'(1) unfolding content_and_behind [OF b, symmetric] by (simp add: w2)
  moreover have "nat k \<le> length (rbuffer_content b @ ?stale)"
    unfolding content_and_behind [OF b, symmetric] using S inv by (cases "k = 0") auto
  moreover have "nat k \<le> length (rbuffer_content b)"
    if "\<forall>t n. ne_send ?net t = Ret n \<longrightarrow> length (rbuffer_content b) \<le> n"
  proof -
    have "0 \<le> rbuffer_size b" using inv by (simp add: rbuffer_size_def)
    moreover have "\<forall>t n. ne_send ?net t = Ret n \<longrightarrow> rbuffer_size b \<le> int n" using that len by fastforce
    ultimately have "k = 0 \<or> k = rbuffer_size b" by (rule send_rounds_whole [OF snd])
    then show ?thesis using len by auto
  qed
  ultimately show ?thesis using b'(2,3) S(3) len by (intro exI [of _ "nat k"] exI [of _ t] exI [of _ b'] exI [of _ ?stale]) auto
qed

lemma send_from_returns:
  assumes "interrupts_end pl" "clock_steady (ce_net env)" "rbuffer_inv b" "rb_pos b + rbuffer_size b \<le> rb_capacity b"
  shows "send_from pl env w b s m \<noteq> None"
proof -
  let ?net = "ce_net env"
  obtain w2 k r where snd: "send_rounds pl ?net s b (timer_millisec ?net w 100) 0 rcode_io_done w = Some (w2, k, r)"
    using send_rounds_returns [OF assms(1,2) timer_100 assms(3,4) order_refl] by (metis prod_cases3)
  have inv: "0 \<le> rb_offset b" "rb_offset b \<le> INT_MAX" "int (length (rb_data b)) \<le> INT_MAX" using assms(3) by (auto simp: rbuffer_inv_def)
  have "0 \<le> k" "k \<noteq> 0 \<longrightarrow> rb_offset b + k \<le> int (length (rb_data b))"
    using send_rounds_result [OF snd inv(1)] by (simp_all add: sends_to_def)
  then obtain b' where "rbuffer_skip (Some b) k = Some (Some b', rcode_ok)"
    using skip_content_any [OF assms(3), of k] inv by (cases "k = 0") auto
  then show ?thesis using snd by (simp add: send_from_def)
qed

context frame_sender
begin

lemma send_p_encoded:
  assumes h: "holds base w" "cl_stream w = Some s" "ds_state (cl_ds w) = ripc_state_start"
    and out: "ce_out env = Some out" and good: "good m"
  obtains b m1 where "written env w m = Some b" "rbuffer_inv b"
    "rbuffer_content b = unsent w @ (if queued env w m then frame (ds_id (cl_ds w)) m else [])"
    "if queued env w m then ripc_send_data_p pl env w m = send_from pl env (w\<lparr>cl_ds := (cl_ds w)\<lparr>ds_write_buff := Some b\<rparr>\<rparr>) b s m1
     else \<exists>r. r \<noteq> rcode_ok \<and> ripc_send_data_p pl env w m = Some (w\<lparr>cl_ds := (cl_ds w)\<lparr>ds_write_buff := Some b\<rparr>\<rparr>, m1, r)"
proof -
  obtain rc wb where H: "cl_live w" "ds_write_buff (cl_ds w) = Some wb" "rbuffer_inv wb" by (rule holds_stream [OF h(1,2)])
  from framed [OF H(2,3) good] obtain b m1 c where o: "out (cl_ds w) m = Some ((cl_ds w)\<lparr>ds_write_buff := Some b\<rparr>, m1, c)"
    "rbuffer_inv b" "rbuffer_content b = rbuffer_content wb @ (if c = rcode_err_ok then frame (ds_id (cl_ds w)) m else [])" by blast
  have q: "queued env w m \<longleftrightarrow> c = rcode_err_ok" using h(2,3) out o(1) by (simp add: queued_def)
  have "written env w m = Some b" using out o(1) by (simp add: written_def)
  moreover have "rbuffer_content b = unsent w @ (if queued env w m then frame (ds_id (cl_ds w)) m else [])"
    using o(3) q H(2) by (simp add: unsent_def)
  moreover have "if queued env w m then ripc_send_data_p pl env w m = send_from pl env (w\<lparr>cl_ds := (cl_ds w)\<lparr>ds_write_buff := Some b\<rparr>\<rparr>) b s m1
     else \<exists>r. r \<noteq> rcode_ok \<and> ripc_send_data_p pl env w m = Some (w\<lparr>cl_ds := (cl_ds w)\<lparr>ds_write_buff := Some b\<rparr>\<rparr>, m1, r)"
    using h(2,3) H out o(1) q by (simp add: ripc_send_data_p_def live_buffer_def send_from_def cong: if_cong)
  ultimately show ?thesis using that o(2) by blast
qed

end

context frame_sender
begin

text \<open>Every outcome of a sending.\<close>

lemma send_p_result:
  assumes h: "holds base w" "cl_stream w = Some s" "ds_state (cl_ds w) = ripc_state_start"
    and out: "ce_out env = Some out" and good: "good m" and env: "interrupts_end pl" "clock_steady (ce_net env)"
  shows "case ripc_send_data_p pl env w m of
      None \<Rightarrow> \<exists>b. written env w m = Some b \<and> rb_capacity b < rb_pos b + rbuffer_size b
    | Some (w', m', r) \<Rightarrow> holds base w' \<and> cl_stream w' = Some s \<and> ds_id (cl_ds w') = ds_id (cl_ds w) \<and>
        (\<exists>n queue stale. queue = unsent w @ (if queued env w m then frame (ds_id (cl_ds w)) m else []) \<and>
          nw_out w' = (nw_out w)(sk_fd s := nw_out w (sk_fd s) @ take n (queue @ stale)) \<and> n \<le> length (queue @ stale) \<and>
          (\<not> queued env w m \<longrightarrow> n = 0) \<and>
          unsent w' = drop n queue \<and> (r = rcode_io_done \<longrightarrow> length queue \<le> n) \<and>
          ((\<forall>t k. ne_send (ce_net env) t = Ret k \<longrightarrow> length queue \<le> k) \<longrightarrow> n \<le> length queue))"
proof -
  obtain b m1 where B: "written env w m = Some b" "rbuffer_inv b"
    "rbuffer_content b = unsent w @ (if queued env w m then frame (ds_id (cl_ds w)) m else [])"
    "if queued env w m then ripc_send_data_p pl env w m = send_from pl env (w\<lparr>cl_ds := (cl_ds w)\<lparr>ds_write_buff := Some b\<rparr>\<rparr>) b s m1
     else \<exists>r. r \<noteq> rcode_ok \<and> ripc_send_data_p pl env w m = Some (w\<lparr>cl_ds := (cl_ds w)\<lparr>ds_write_buff := Some b\<rparr>\<rparr>, m1, r)"
    by (rule send_p_encoded [OF h out good])
  define w1 where "w1 = w\<lparr>cl_ds := (cl_ds w)\<lparr>ds_write_buff := Some b\<rparr>\<rparr>"
  have h1: "holds base w1" using h B(2) by (auto simp: holds_def w1_def)
  show ?thesis
  proof (cases "queued env w m")
    case False
    then obtain r where r: "r \<noteq> rcode_ok" "ripc_send_data_p pl env w m = Some (w1, m1, r)" using B(4) by (auto simp: w1_def)
    have "unsent w1 = unsent w" using B(3) False by (simp add: unsent_def w1_def)
    then show ?thesis using r h h1 False by (auto simp: w1_def intro!: exI [of _ 0])
  next
    case True
    then have run: "ripc_send_data_p pl env w m = send_from pl env w1 b s m1" using B(4) by (simp add: w1_def)
    show ?thesis
    proof (cases "send_from pl env w1 b s m1")
      case None
      then have "\<not> rb_pos b + rbuffer_size b \<le> rb_capacity b" using send_from_returns [OF env B(2)] by blast
      then show ?thesis using run None B(1) by simp
    next
      case (Some res)
      obtain w' m' r where res: "res = (w', m', r)" by (cases res)
      from send_from_result [OF Some [unfolded res] B(2)] obtain k t b' stale where R:
        "w' = w1\<lparr>nw_tick := t, nw_out := (nw_out w1)(sk_fd s := nw_out w1 (sk_fd s) @ take k (rbuffer_content b @ stale)),
          cl_ds := (cl_ds w1)\<lparr>ds_write_buff := Some b'\<rparr>\<rparr>" "rbuffer_inv b'" "rbuffer_content b' = drop k (rbuffer_content b)"
        "k \<le> length (rbuffer_content b @ stale)" "r = rcode_io_done \<longrightarrow> length (rbuffer_content b) \<le> k"
        "(\<forall>t n. ne_send (ce_net env) t = Ret n \<longrightarrow> length (rbuffer_content b) \<le> n) \<longrightarrow> k \<le> length (rbuffer_content b)" by blast
      have "holds base w'" using h1 R(2) h(2) by (auto simp: holds_def R(1) w1_def)
      moreover have "unsent w' = drop k (rbuffer_content b)" using R(3) by (simp add: unsent_def R(1))
      moreover have "cl_stream w' = Some s" "ds_id (cl_ds w') = ds_id (cl_ds w)"
        "nw_out w' = (nw_out w)(sk_fd s := nw_out w (sk_fd s) @ take k (rbuffer_content b @ stale))"
        using h(2) by (simp_all add: R(1) w1_def)
      ultimately show ?thesis unfolding run Some res option.case prod.case B(3) [symmetric]
        using R(4-6) True by blast
    qed
  qed
qed

end

section \<open>Receiving\<close>

text \<open>What the handler makes of the bytes \<open>got\<close>, which lie behind the write position of the cache \<open>rc\<close>.\<close>

definition handed_on :: "'w client_env \<Rightarrow> 'w client \<Rightarrow> rbuffer \<Rightarrow> bytes \<Rightarrow> 'w client \<Rightarrow> int \<Rightarrow> bool" where
  "handed_on env w rc got w' r \<longleftrightarrow> (case mem_put (rb_data rc) (rb_pos rc) got of
     None \<Rightarrow> False
   | Some memory \<Rightarrow> (let ds1 = (cl_ds w)\<lparr>ds_read_cache := Some (rc\<lparr>rb_data := memory\<rparr>)\<rparr> in
       case ce_in env of
         None \<Rightarrow> cl_ds w' = ds1 \<and> cl_app w' = cl_app w \<and> r = rcode_io_done
       | Some process \<Rightarrow>
           if got = [] then cl_ds w' = ds1 \<and> cl_app w' = cl_app w \<and> r = rcode_io_done
           else case process ds1 (word_of_nat (length got)) (cl_app w) of
             None \<Rightarrow> False
           | Some (ds2, app2, c) \<Rightarrow> cl_ds w' = ds2 \<and> cl_app w' = app2 \<and>
               r = (if c \<noteq> rcode_err_ok then ipc_code rcode_err_ipc_decode else rcode_io_done)))"

lemma timer_1: "0 \<le> tm_block (timer_millisec net w 1)" "0 \<le> tm_total (timer_millisec net w 1)"
  by (simp_all add: timer_millisec_def rtimeout_begin_def rtimeout_init_millisec_def rtimeout_init_microsec_def)

lemma receive_p_result:
  assumes h: "holds base w" "cl_stream w = Some s" "ds_state (cl_ds w) = ripc_state_start" "ds_read_cache (cl_ds w) = Some rc"
    and env: "interrupts_end pl" "clock_runs (ce_net env)" "\<And>p. ce_in env = Some p \<Longrightarrow> reads_only p"
  shows "case ripc_receive_data_p pl env w of
      None \<Rightarrow> \<not> gives_at_most (ce_net env) (nw_tick w) (nat (rbuffer_left rc))
    | Some (w', r) \<Rightarrow> holds base w' \<and> nw_out w' = nw_out w \<and>
        (if cl_stream w' = None then ds_state (cl_ds w') = ripc_state_closed \<and> r = ipc_code rcode_err_ipc_disconnect
         else cl_stream w' = Some s \<and> (\<exists>got. handed_on env w rc got w' r))"
proof -
  let ?net = "ce_net env"
  obtain wb where H: "cl_live w" "rbuffer_inv rc" "ds_write_buff (cl_ds w) = Some wb" "rbuffer_inv wb"
    using h by (auto simp: holds_def)
  have rc: "0 \<le> rb_pos rc" "rb_pos rc \<le> rb_capacity rc" "rb_capacity rc = int (length (rb_data rc))" "rb_capacity rc \<le> INT_MAX"
    using H(2) by (auto simp: rbuffer_inv_def)
  let ?rounds = "recv_rounds pl ?net s (rb_pos rc) (rbuffer_left rc) (timer_millisec ?net w 1) (rb_data rc) 0 w"
  show ?thesis
  proof (cases ?rounds)
    case None
    have "\<not> gives_at_most ?net (nw_tick w) (nat (rbuffer_left rc))"
    proof
      assume "gives_at_most ?net (nw_tick w) (nat (rbuffer_left rc))"
      moreover have "rb_pos rc + 0 + int (nat (rbuffer_left rc)) \<le> int (length (rb_data rc))"
        using rc by (simp add: rbuffer_left_def)
      moreover have "int (length (rb_data rc)) \<le> INT_MAX" using rc by simp
      ultimately have "\<exists>res. ?rounds = Some res"
        using recv_rounds_returns [OF env(1,2) timer_1] rc(1) by (metis order_refl)
      then show False using None by simp
    qed
    then show ?thesis using h H None by (simp add: ripc_receive_data_p_def live_buffer_def)
  next
    case (Some res)
    obtain w1 memory k ret where res: "res = (w1, memory, k, ret)" by (cases res)
    have "receives (rb_pos rc) (rb_data rc) 0 w res" using recv_rounds_result [OF Some] rc by simp
    then obtain t got where w1: "w1 = w\<lparr>nw_tick := t\<rparr>" and got: "mem_put (rb_data rc) (rb_pos rc) got = Some memory" "k = int (length got)"
      by (auto simp: receives_def res)
    have len: "length memory = length (rb_data rc)" by (rule mem_put_length [OF got(1)])
    have fit: "rb_pos rc + int (length got) \<le> rb_capacity rc" using got(1) rc(3) by (auto simp: mem_put_Some)
    define rc1 where "rc1 = rc\<lparr>rb_data := memory\<rparr>"
    have rc1: "rbuffer_inv rc1" using H(2) len by (simp add: rc1_def rbuffer_inv_def)
    define w2 where "w2 = w1\<lparr>cl_ds := (cl_ds w1)\<lparr>ds_read_cache := Some rc1\<rparr>\<rparr>"
    have h2: "holds base w2" using h rc1 by (auto simp: holds_def w2_def w1)
    have s2: "cl_stream w2 = Some s" "nw_out w2 = nw_out w" "cl_ds w2 = (cl_ds w)\<lparr>ds_read_cache := Some rc1\<rparr>" "cl_app w2 = cl_app w"
      using h(2) by (simp_all add: w2_def w1)
    define code where "code = (if ret = rcode_io_timeout then rcode_io_done
       else if ret = rcode_io_closed then if k > 0 then rcode_io_done else rcode_io_closed else ret)"
    have code: "code \<noteq> rcode_io_timeout" by (simp add: code_def)
    have run: "ripc_receive_data_p pl env w =
      (if code \<noteq> rcode_io_done then do {
         (w3, _) \<leftarrow> ripc_close_p w2;
         Some (w3, if code = rcode_io_timeout then ipc_code rcode_err_ipc_timeout else ipc_code rcode_err_ipc_disconnect)
       }
       else (case ce_in env of
           None \<Rightarrow> Some (w2, code)
         | Some process \<Rightarrow>
             if k > 0 then do {
               (ds1, app1, ret1) \<leftarrow> process (cl_ds w2) (word_of_int k) (cl_app w2);
               Some (w2\<lparr>cl_ds := ds1, cl_app := app1\<rparr>,
                 if ret1 \<noteq> rcode_err_ok then ipc_code rcode_err_ipc_decode else rcode_io_done)
             } else Some (w2, code)))"
      unfolding code_def w2_def rc1_def using h H Some
      by (simp add: ripc_receive_data_p_def live_buffer_def res Let_def cong: if_cong option.case_cong)
    consider (closed) "code \<noteq> rcode_io_done" | (kept) "code = rcode_io_done" "ce_in env = None \<or> got = []"
      | (handled) p where "code = rcode_io_done" "ce_in env = Some p" "got \<noteq> []" by fastforce
    then show ?thesis
    proof cases
      case closed
      obtain w3 where c: "ripc_close_p w2 = Some (w3, rcode_ok)" "cl_stream w3 = None" "\<not> cl_live w3" "nw_open w3 = base"
        "nw_out w3 = nw_out w2" "cl_stream w2 \<noteq> None \<longrightarrow> ds_state (cl_ds w3) = ripc_state_closed" by (rule close_holds [OF h2])
      then have "holds base w3" by (simp add: holds_def)
      moreover have "ripc_receive_data_p pl env w = Some (w3, ipc_code rcode_err_ipc_disconnect)"
        unfolding run using closed code c(1) by simp
      ultimately show ?thesis using c s2 by simp
    next
      case kept
      then have "ripc_receive_data_p pl env w = Some (w2, rcode_io_done)" unfolding run using got(2) by (auto split: option.splits)
      moreover have "handed_on env w rc got w2 rcode_io_done"
        using kept(2) got(1) s2 by (auto simp: handed_on_def rc1_def Let_def split: option.splits)
      ultimately show ?thesis using h2 s2 by auto
    next
      case handled
      have "int (length got) \<le> INT_MAX" using fit rc by simp
      then have "uint (word_of_nat (length got) :: 32 word) = int (length got)"
        by (simp add: unsigned_of_nat take_bit_nat_eq_self)
      then have "ds_read_cache (cl_ds w2) = Some rc1 \<and> rbuffer_inv rc1 \<and>
          rb_pos rc1 + uint (word_of_nat (length got) :: 32 word) \<le> rb_capacity rc1"
        using rc1 fit s2(3) by (simp add: rc1_def)
      with env(3) [OF handled(2), unfolded reads_only_def] obtain c app' r where p:
          "p (cl_ds w2) (word_of_nat (length got)) (cl_app w2) = Some ((cl_ds w2)\<lparr>ds_read_cache := Some c\<rparr>, app', r)"
          "rbuffer_inv c" by blast
      define w3 where "w3 = w2\<lparr>cl_ds := (cl_ds w2)\<lparr>ds_read_cache := Some c\<rparr>, cl_app := app'\<rparr>"
      let ?r = "if r \<noteq> rcode_err_ok then ipc_code rcode_err_ipc_decode else rcode_io_done"
      have "ripc_receive_data_p pl env w = Some (w3, ?r)"
        unfolding run using handled got(2) p(1) by (simp add: w3_def)
      moreover have "handed_on env w rc got w3 ?r"
        using handled got(1) s2 p(1) by (simp add: handed_on_def rc1_def w3_def Let_def)
      moreover have "holds base w3" using h2 p(2) s2(1) by (auto simp: holds_def w3_def)
      ultimately show ?thesis using s2 by (auto simp: w3_def)
    qed
  qed
qed

section \<open>The life of a client\<close>

text \<open>
  Any calls of the eight entries in any order, from a program that has no client on.  The one thing asked
  of the caller is not to open a client that has a stream: its socket and its buffers would be forgotten.
\<close>

inductive poll_run ::
  "poll_answers \<Rightarrow> 'w client_env \<Rightarrow> (ripc_data_default \<Rightarrow> bool) \<Rightarrow> 'w client \<Rightarrow> 'w client \<Rightarrow> bool"
  for pl :: poll_answers and env :: "'w client_env" and good :: "ripc_data_default \<Rightarrow> bool" and v :: "'w client"
where
  fresh: "cl_stream v = None \<Longrightarrow> \<not> cl_live v \<Longrightarrow> poll_run pl env good v v"
| inited: "poll_run pl env good v w \<Longrightarrow> ripc_init_p w = (w', r) \<Longrightarrow> poll_run pl env good v w'"
| opened: "poll_run pl env good v w \<Longrightarrow> cl_stream w = None \<Longrightarrow> ripc_open_p pl env w = Some (w', r) \<Longrightarrow> poll_run pl env good v w'"
| started: "poll_run pl env good v w \<Longrightarrow> ripc_start_p w = (w', r) \<Longrightarrow> poll_run pl env good v w'"
| stopped: "poll_run pl env good v w \<Longrightarrow> ripc_stop_p w = (w', r) \<Longrightarrow> poll_run pl env good v w'"
| closed: "poll_run pl env good v w \<Longrightarrow> ripc_close_p w = Some (w', r) \<Longrightarrow> poll_run pl env good v w'"
| uninited: "poll_run pl env good v w \<Longrightarrow> ripc_uninit_p w = Some (w', r) \<Longrightarrow> poll_run pl env good v w'"
| sent: "poll_run pl env good v w \<Longrightarrow> good m \<Longrightarrow> ripc_send_data_p pl env w m = Some (w', m', r) \<Longrightarrow> poll_run pl env good v w'"
| checked: "poll_run pl env good v w \<Longrightarrow> ripc_check_data_p pl env w = Some (w', r) \<Longrightarrow> poll_run pl env good v w'"

text \<open>
  What the surroundings are documented to do: a call of \<open>poll\<close> is interrupted now and then only, the clock
  goes on, a new descriptor is not in use, a name that is found has an address.
\<close>

definition poll_env_ok :: "poll_answers \<Rightarrow> 'w client_env \<Rightarrow> int set \<Rightarrow> bool" where
  "poll_env_ok pl env base \<longleftrightarrow> interrupts_end pl \<and> clock_steady (ce_net env) \<and> fresh_sockets (ce_net env) base \<and>
    (\<forall>t. ce_addrs env t \<noteq> Ret []) \<and> (\<forall>p. ce_in env = Some p \<longrightarrow> reads_only p)"

lemma poll_env_okD:
  assumes "poll_env_ok pl env base"
  shows "interrupts_end pl" "clock_steady (ce_net env)" "clock_runs (ce_net env)" "fresh_sockets (ce_net env) base"
    "\<forall>t. ce_addrs env t \<noteq> Ret []" "ce_in env = Some p \<Longrightarrow> reads_only p"
  using assms by (simp_all add: poll_env_ok_def clock_steady_def)

text \<open>Without a stream nothing can be sent or received.\<close>

lemma no_stream_no_data:
  assumes "holds base w" "cl_stream w = None"
  shows "ripc_send_data_p pl env w m = Some (w', m', r) \<Longrightarrow> w' = w" "ripc_receive_data_p pl env w = Some (w', r) \<Longrightarrow> w' = w"
  using assms by (auto simp: holds_def ripc_send_data_p_def ripc_receive_data_p_def live_buffer_def bind_eq_Some_conv
    split: if_splits option.splits)

lemma not_started_no_data:
  assumes "ds_state (cl_ds w) \<noteq> ripc_state_start"
  shows "ripc_send_data_p pl env w m = Some (w', m', r) \<Longrightarrow> w' = w" "ripc_receive_data_p pl env w = Some (w', r) \<Longrightarrow> w' = w"
  using assms by (simp_all add: ripc_send_data_p_def ripc_receive_data_p_def)

context frame_sender
begin

lemma poll_run_holds:
  assumes env: "poll_env_ok pl env (nw_open v)" "ce_out env = Some out"
  shows "poll_run pl env good v w \<Longrightarrow> holds (nw_open v) w"
proof (induction rule: poll_run.induct)
  case fresh
  then show ?case by (simp add: holds_def)
next
  case (inited w w' r)
  then show ?case by (simp add: ripc_init_p_def)
next
  case (opened w w' r)
  then show ?case using open_holds poll_env_okD(4,5) [OF env(1)] by blast
next
  case (started w w' r)
  then show ?case using start_stop_holds by (metis fst_conv)
next
  case (stopped w w' r)
  then show ?case using start_stop_holds by (metis fst_conv)
next
  case (closed w w' r)
  obtain u where "ripc_close_p w = Some (u, rcode_ok)" "cl_stream u = None" "\<not> cl_live u" "nw_open u = nw_open v"
    by (rule close_holds [OF closed.IH])
  then show ?case using closed.hyps(2) by (simp add: holds_def)
next
  case (uninited w w' r)
  obtain u where "ripc_uninit_p w = Some (u, rcode_ok)" "holds (nw_open v) u" by (rule uninit_holds [OF uninited.IH])
  then show ?case using uninited.hyps(2) by simp
next
  case (sent w m w' m' r)
  show ?case
  proof (cases "cl_stream w = None \<or> ds_state (cl_ds w) \<noteq> ripc_state_start")
    case True
    then show ?thesis using no_stream_no_data(1) not_started_no_data(1) sent by blast
  next
    case False
    then obtain s where s: "cl_stream w = Some s" "ds_state (cl_ds w) = ripc_state_start" by auto
    show ?thesis using send_p_result [OF sent.IH s env(2) sent.hyps(2) poll_env_okD(1,2) [OF env(1)]] sent.hyps(3) by simp
  qed
next
  case (checked w w' r)
  show ?case
  proof (cases "cl_stream w = None \<or> ds_state (cl_ds w) \<noteq> ripc_state_start")
    case True
    then show ?thesis using no_stream_no_data(2) not_started_no_data(2) checked by (metis ripc_check_data_p_def)
  next
    case False
    then obtain s where s: "cl_stream w = Some s" "ds_state (cl_ds w) = ripc_state_start" by auto
    obtain rc where rc: "ds_read_cache (cl_ds w) = Some rc" using holds_stream [OF checked.IH s(1)] by metis
    show ?thesis using receive_p_result [OF checked.IH s rc poll_env_okD(1,3,6) [OF env(1)]] checked.hyps(2)
      by (simp add: ripc_check_data_p_def)
  qed
qed

end

text \<open>C14: what the poll client holds.  Whatever of its operations were called in whatever order, stopping after
a lost connection and closing twice included, the descriptors open beyond those of the rest of the
program are its stream's one, and its buffers are allocated exactly while it has a stream.  Closing and
uninitialising always return, report success and leave no descriptor and no buffer behind.\<close>

theorem poll_account:
  assumes "poll_run pl env sendable v w" "poll_env_ok pl env (nw_open v)" "ce_out env = Some (encode_process None)"
  shows "(case cl_stream w of
      None \<Rightarrow> \<not> cl_live w \<and> nw_open w = nw_open v
    | Some s \<Rightarrow> cl_live w \<and> sk_fd s \<notin> nw_open v \<and> nw_open w = insert (sk_fd s) (nw_open v)) \<and>
    (\<exists>w'. ripc_close_p w = Some (w', rcode_ok) \<and> cl_stream w' = None \<and> \<not> cl_live w' \<and> nw_open w' = nw_open v) \<and>
    (\<exists>w'. ripc_uninit_p w = Some (w', rcode_ok) \<and> ds_state (cl_ds w') = ripc_state_uninit \<and>
      cl_stream w' = None \<and> \<not> cl_live w' \<and> nw_open w' = nw_open v)"
proof -
  from codec_out.poll_run_holds [OF assms(2,3,1)] have h: "holds (nw_open v) w" .
  obtain w1 where c: "ripc_close_p w = Some (w1, rcode_ok)" "cl_stream w1 = None" "\<not> cl_live w1" "nw_open w1 = nw_open v"
    by (rule close_holds [OF h])
  obtain w2 where u: "ripc_uninit_p w = Some (w2, rcode_ok)" "holds (nw_open v) w2" "ds_state (cl_ds w2) = ripc_state_uninit"
    by (rule uninit_holds [OF h])
  have "cl_stream w2 = None" using u(2,3) by (auto simp: holds_def split: option.splits)
  then have "\<exists>w'. ripc_uninit_p w = Some (w', rcode_ok) \<and> ds_state (cl_ds w') = ripc_state_uninit \<and>
      cl_stream w' = None \<and> \<not> cl_live w' \<and> nw_open w' = nw_open v"
    using u by (auto simp: holds_def)
  moreover have "case cl_stream w of
      None \<Rightarrow> \<not> cl_live w \<and> nw_open w = nw_open v
    | Some s \<Rightarrow> cl_live w \<and> sk_fd s \<notin> nw_open v \<and> nw_open w = insert (sk_fd s) (nw_open v)"
    using h by (auto simp: holds_def split: option.splits)
  ultimately show ?thesis using c by blast
qed

text \<open>C16: a message sent through a started poll client.  If the encoder takes it, its frame joins what the
write buffer holds, and the socket gets a beginning of this queue, which leaves the buffer; a result 0 means
the whole queue.  If the encoder refuses it nothing is sent.  When the socket takes less than it is given the loop hands it as many bytes again from
where it stopped: stale memory behind the queue may then follow it onto the connection, never when the
socket takes the queue at once or not at all.  The call returns unless the buffer has not the room for its
content once more behind the write position.\<close>

theorem poll_send:
  assumes "poll_run pl env sendable v w" "poll_env_ok pl env (nw_open v)" "ce_out env = Some (encode_process None)"
    "ds_state (cl_ds w) = ripc_state_start" "cl_stream w = Some s" "sendable m"
  shows "case ripc_send_data_p pl env w m of
      None \<Rightarrow> \<exists>b. written env w m = Some b \<and> rb_capacity b < rb_pos b + rbuffer_size b
    | Some (w', m', r) \<Rightarrow> cl_stream w' = Some s \<and>
        (\<exists>n queue stale. queue = unsent w @ (if queued env w m then frame_of (sent_msg (ds_id (cl_ds w)) m) else []) \<and>
          nw_out w' = (nw_out w)(sk_fd s := nw_out w (sk_fd s) @ take n (queue @ stale)) \<and> n \<le> length (queue @ stale) \<and>
          (\<not> queued env w m \<longrightarrow> n = 0) \<and>
          unsent w' = drop n queue \<and> (r = rcode_io_done \<longrightarrow> length queue \<le> n) \<and>
          ((\<forall>t k. ne_send (ce_net env) t = Ret k \<longrightarrow> length queue \<le> k) \<longrightarrow> n \<le> length queue))"
proof -
  from codec_out.poll_run_holds [OF assms(2,3,1)] have h: "holds (nw_open v) w" .
  note sent = codec_out.send_p_result [OF h assms(5,4,3,6) poll_env_okD(1,2) [OF assms(2)]]
  show ?thesis
  proof (cases "ripc_send_data_p pl env w m")
    case None
    then show ?thesis using sent by (simp only: option.case)
  next
    case (Some res)
    obtain w' m' r where "res = (w', m', r)" by (cases res)
    then show ?thesis using sent unfolding Some by (simp only: option.case prod.case)
  qed
qed


text \<open>
  Opening does not depend on \<open>poll\<close>: the wait for a connection that is under way is never reached, and the
  client is reported ready before it is connected.
\<close>

theorem poll_open_never_waits: "ripc_open_p pl env w = ripc_open_p pl' env w"
  unfolding ripc_open_p_def by (simp only: open_addrs_no_poll [of pl _ _ _ _ _ _ pl'])

section \<open>A concrete client\<close>

definition demo_poll :: poll_answers where
  "demo_poll = (\<lambda>t time. Ret 5)"

text \<open>After \<open>open\<close>, and after \<open>start\<close>.\<close>

definition demo_ready :: "int client" where
  "demo_ready = (let b = \<lparr>rb_data = replicate 65536 0, rb_offset = 0, rb_pos = 0, rb_capacity = 65536\<rparr> in
    demo_client\<lparr>nw_tick := 5, nw_open := {0, 4}, nw_nonblock := {4},
      nw_opts := [(4, TCP_NODELAY, [1]), (4, SO_REUSEADDR, [1])],
      cl_live := True, cl_stream := Some \<lparr>sk_fd = 4, sk_options = 0x118, sk_item = 0\<rparr>,
      cl_ds := (cl_ds demo_client)\<lparr>ds_read_cache := Some b, ds_write_buff := Some b, ds_state := ripc_state_ready\<rparr>\<rparr>)"

definition demo_started :: "int client" where
  "demo_started = fst (ripc_start_p demo_ready)"

lemma demo_poll_opens: "ripc_open_p demo_poll demo_client_env demo_client = Some (demo_ready, rcode_ok)"
proof -
  let ?e = demo_client_env
  have ev: "ce_net ?e = demo_client_net" "ce_addrs ?e 0 = Ret [AF_INET]" by (simp_all add: demo_client_env_def)
  define s where "s = \<lparr>sk_fd = 4, sk_options = RSO_REUSEADDR, sk_item = 0\<rparr>"
  define w1 where "w1 = demo_client\<lparr>nw_tick := 3, nw_open := {0, 4}, nw_opts := [(4, SO_REUSEADDR, [1])]\<rparr>"
  have sock: "rsocket_create demo_client_net (tick demo_client) \<lparr>sk_fd = -1, sk_options = 0, sk_item = 0\<rparr> = (w1, s, rcode_ok)"
    by (simp add: rsocket_create_def sys_open_def rsocket_setopt_def setopt_switch_def sys_setsockopt_def Let_def
      rsocket_check_option_def rsocket_set_option_def demo_client_net_def tick_def w1_def s_def demo_client_def insert_commute fun_eq_iff)
  define w2 where "w2 = w1\<lparr>nw_tick := 4, nw_nonblock := {4}\<rparr>"
  have conn: "rsocket_connect demo_client_net (fst (rsocket_setnonblocking w1 s)) s tm = Some (w2, rcode_ok)" for tm
    by (subst rsocket_connect_def, subst connect_loop.simps)
      (simp add: rsocket_setnonblocking_def s_def demo_client_net_def w2_def w1_def demo_client_def tick_def)
  have new: "new_socket demo_client_net = \<lparr>sk_fd = -1, sk_options = 0, sk_item = 0\<rparr>"
    by (simp add: new_socket_def demo_client_net_def)
  have addrs: "open_addrs_p demo_poll demo_client_net [AF_INET] AF_INET rcode_ok (tick demo_client) (new_socket demo_client_net) =
      Some (w2, s, rcode_ok)"
    using sock conn by (simp add: open_addrs_step addr_socket_def new rsocket_close_def)
  define s2 where "s2 = s\<lparr>sk_options := 0x18\<rparr>"
  have nonblock: "rsocket_setopt demo_client_net w2 s RSO_NONBLOCK True = (w2, s2, rcode_ok)"
    by (simp add: rsocket_setopt_def setopt_switch_def Let_def rsocket_check_option_def rsocket_set_option_def
      rsocket_setnonblocking_def w2_def w1_def s2_def s_def)
  define w3 where "w3 = w2\<lparr>nw_tick := 5, nw_opts := [(4, TCP_NODELAY, [1]), (4, SO_REUSEADDR, [1])]\<rparr>"
  define s3 where "s3 = s\<lparr>sk_options := 0x118\<rparr>"
  have nodelay: "rsocket_setopt demo_client_net w2 s2 RTCP_NODELAY True = (w3, s3, rcode_ok)"
    by (simp add: rsocket_setopt_def setopt_switch_def sys_setsockopt_def Let_def rsocket_check_option_def rsocket_set_option_def
      demo_client_net_def tick_def w3_def w2_def w1_def s3_def s2_def s_def flag_at_on_def)
  let ?b = "\<lparr>rb_data = replicate 65536 0, rb_offset = 0, rb_pos = 0, rb_capacity = 65536\<rparr>"
  have block: "rbuffer_create (ce_block ?e) buffer_bytes = Some ?b"
    by (simp add: rbuffer_create_def demo_client_env_def)
  have ready: "w3\<lparr>cl_live := True, cl_stream := Some s3, cl_ds := (cl_ds w3)\<lparr>ds_read_cache := Some ?b,
      ds_write_buff := Some ?b, ds_state := ripc_state_ready\<rparr>\<rparr> = demo_ready"
    by (simp add: demo_ready_def Let_def w3_def w2_def w1_def s3_def s_def)
  have "nw_tick demo_client = 0" by (simp add: demo_client_def)
  then show ?thesis
    using addrs nonblock nodelay block by (simp add: ripc_open_p_def Let_def ev ready)
qed

lemma demo_poll_env_ok: "poll_env_ok demo_poll demo_client_env (nw_open demo_client)"
proof -
  have "interrupts_end demo_poll" by (auto simp: interrupts_end_def demo_poll_def)
  moreover have "clock_steady (ce_net demo_client_env)"
    using demo_client_env_ok by (simp add: clock_steady_def client_env_ok_def) (simp add: demo_client_env_def demo_client_net_def)
  moreover have "fresh_sockets (ce_net demo_client_env) (nw_open demo_client)"
    by (simp add: fresh_sockets_def demo_client_env_def demo_client_net_def demo_client_def)
  moreover have "\<forall>t. ce_addrs demo_client_env t \<noteq> Ret []" by (simp add: demo_client_env_def)
  ultimately show ?thesis using demo_client_env_ok by (simp add: poll_env_ok_def client_env_ok_def)
qed

lemma demo_poll_run: "poll_run demo_poll demo_client_env good demo_client demo_started"
proof -
  have "poll_run demo_poll demo_client_env good demo_client demo_client"
    by (rule poll_run.fresh) (simp_all add: demo_client_def)
  from poll_run.opened [OF this _ demo_poll_opens] have "poll_run demo_poll demo_client_env good demo_client demo_ready"
    by (simp add: demo_client_def)
  then show ?thesis by (rule poll_run.started) (simp add: demo_started_def ripc_start_p_def)
qed

lemma demo_started_fields:
  "ce_out demo_client_env = Some (encode_process None)" "ds_state (cl_ds demo_started) = ripc_state_start"
  "cl_stream demo_started = Some \<lparr>sk_fd = 4, sk_options = 0x118, sk_item = 0\<rparr>" "nw_open demo_started = {0, 4}"
  "unsent demo_started = []" "ds_id (cl_ds demo_started) = 7" "nw_out demo_started = (\<lambda>_. [])" "nw_open demo_client = {0}"
  "ds_read_cache (cl_ds demo_started) = Some \<lparr>rb_data = replicate 65536 0, rb_offset = 0, rb_pos = 0, rb_capacity = 65536\<rparr>"
  by (simp_all add: demo_client_env_def demo_started_def ripc_start_p_def demo_ready_def Let_def unsent_def
    rbuffer_content_def rbuffer_size_def demo_client_def)

theorem poll_account_witness:
  "poll_run demo_poll demo_client_env sendable demo_client demo_started \<and> nw_open demo_started = {0, 4} \<and>
    (\<exists>w'. ripc_close_p demo_started = Some (w', rcode_ok) \<and> cl_stream w' = None \<and> \<not> cl_live w' \<and> nw_open w' = {0})"
  using poll_account [OF demo_poll_run demo_poll_env_ok demo_started_fields(1)] demo_poll_run demo_started_fields(4,8)
  by simp

theorem poll_send_witness:
  "case ripc_send_data_p demo_poll demo_client_env demo_started codec_demo_msg of
      None \<Rightarrow> \<exists>b. written demo_client_env demo_started codec_demo_msg = Some b \<and> rb_capacity b < rb_pos b + rbuffer_size b
    | Some (w', m', r) \<Rightarrow> \<exists>n queue stale. queue =
          (if queued demo_client_env demo_started codec_demo_msg then wire_frame 7 codec_demo_msg [104, 105] else []) \<and>
        nw_out w' 4 = take n (queue @ stale) \<and> unsent w' = drop n queue \<and> (r = rcode_io_done \<longrightarrow> length queue \<le> n)"
proof -
  have m: "sendable codec_demo_msg" by (simp add: sendable_def msg_ok_def msg_payload_def codec_demo_msg_def)
  have p: "msg_payload codec_demo_msg = [104, 105]" by (simp add: msg_payload_def codec_demo_msg_def)
  note sent = poll_send [OF demo_poll_run demo_poll_env_ok demo_started_fields(1-3) m]
  show ?thesis
  proof (cases "ripc_send_data_p demo_poll demo_client_env demo_started codec_demo_msg")
    case None
    then show ?thesis using sent by (simp only: option.case)
  next
    case (Some res)
    obtain w' m' r where "res = (w', m', r)" by (cases res)
    then have "\<exists>n queue stale. queue =
          (if queued demo_client_env demo_started codec_demo_msg then wire_frame 7 codec_demo_msg [104, 105] else []) \<and>
        nw_out w' = (\<lambda>_. [])(4 := take n (queue @ stale)) \<and> unsent w' = drop n queue \<and>
        (r = rcode_io_done \<longrightarrow> length queue \<le> n)"
      using sent p unfolding Some
      by (simp only: option.case prod.case demo_started_fields(5-7) append_Nil sent_msg_def frame_of.simps rsocket.select_convs) blast
    then obtain n queue stale where "queue =
          (if queued demo_client_env demo_started codec_demo_msg then wire_frame 7 codec_demo_msg [104, 105] else [])"
        "nw_out w' = (\<lambda>_. [])(4 := take n (queue @ stale))" "unsent w' = drop n queue"
        "r = rcode_io_done \<longrightarrow> length queue \<le> n" by blast
    then show ?thesis unfolding Some \<open>res = (w', m', r)\<close> option.case prod.case
      by (intro exI [of _ n] exI [of _ queue] exI [of _ stale] conjI) simp_all
  qed
qed


text \<open>
  The stale bytes: four bytes are to be sent, the socket takes three at a time, and gets six.
\<close>

lemma demo_poll_ready:
  assumes "\<not> rtimeout_done tm (now net w)" "sk_fd s \<in> nw_open w" "0 \<le> sk_fd s"
  shows "rsocket_check_fd demo_poll net w s wait_write tm = Some (tick w, rcode_io_done)"
proof -
  have "poll_loop demo_poll net (sk_fd s) wait_write tm w = Some (tick w, Ret 4)"
    using assms(2,3) by (subst poll_loop.simps) (simp add: sys_poll_def demo_poll_def)
  then show ?thesis using assms(1) by (simp add: rsocket_check_fd_def)
qed

lemma send_takes:
  assumes "ne_send net (nw_tick w) = Ret k" "sk_fd s \<noteq> SOCKET_INVALID"
  shows "rsocket_send net w s data tm =
    Some ((tick w)\<lparr>nw_out := (nw_out w)(sk_fd s := nw_out w (sk_fd s) @ take k data)\<rparr>, min k (length data), rcode_io_done)"
  using assms by (simp add: rsocket_send_def send_loop.simps sys_send_def)

lemma send_rounds_stale:
  fixes w :: nworld
  assumes w: "w = \<lparr>nw_tick = 0, nw_open = {4}, nw_nonblock = {}, nw_reg = Map.empty, nw_out = (\<lambda>_. []), nw_opts = []\<rparr>"
    and net: "net = demo_client_net\<lparr>ne_send := (\<lambda>_. Ret 3)\<rparr>" and s: "s = \<lparr>sk_fd = 4, sk_options = 0, sk_item = 0\<rparr>"
    and b: "b = \<lparr>rb_data = [1, 2, 3, 4, 5, 6, 7, 8], rb_offset = 0, rb_pos = 4, rb_capacity = 8\<rparr>"
  shows "\<exists>w'. send_rounds demo_poll net s b (timer_millisec net w 100) 0 rcode_io_done w = Some (w', 6, rcode_io_done) \<and>
    rbuffer_content b = [1, 2, 3, 4] \<and> nw_out w' 4 = [1, 2, 3, 4, 5, 6]"
proof -
  let ?tm = "timer_millisec net w 100"
  have late: "\<not> rtimeout_done ?tm (now net u)" if "nw_tick u < 100" for u :: nworld
    using that by (simp add: timer_millisec_def rtimeout_done_def rtimeout_get_total_def rtimeout_begin_def
      rtimeout_init_millisec_def rtimeout_init_microsec_def now_def net w demo_client_net_def min_def max_def)
  define w2 where "w2 = w\<lparr>nw_tick := 2, nw_out := (\<lambda>_. [])(4 := [1, 2, 3])\<rparr>"
  define w4 where "w4 = w\<lparr>nw_tick := 4, nw_out := (\<lambda>_. [])(4 := [1, 2, 3, 4, 5, 6])\<rparr>"
  have size: "rbuffer_size b = 4" by (simp add: b rbuffer_size_def)
  have "rsocket_check_fd demo_poll net w s wait_write ?tm = Some (tick w, rcode_io_done)"
    by (rule demo_poll_ready [OF late]) (simp_all add: w s)
  moreover have "mem_get (rb_data b) (rb_offset b + 0) 4 = Some [1, 2, 3, 4]" by (simp add: mem_get_def b)
  moreover have "rsocket_send net (tick w) s [1, 2, 3, 4] ?tm = Some (w2, 3, rcode_io_done)"
    by (subst send_takes [where k = 3]) (simp_all add: net s w w2_def tick_def)
  ultimately have one: "send_rounds demo_poll net s b ?tm 0 rcode_io_done w = send_rounds demo_poll net s b ?tm 3 rcode_io_done w2"
    by (subst send_rounds.simps) (simp add: size int32_def)
  have "rsocket_check_fd demo_poll net w2 s wait_write ?tm = Some (tick w2, rcode_io_done)"
    by (rule demo_poll_ready [OF late]) (simp_all add: w2_def w s)
  moreover have "mem_get (rb_data b) (rb_offset b + 3) 4 = Some [4, 5, 6, 7]" by (simp add: mem_get_def b)
  moreover have "rsocket_send net (tick w2) s [4, 5, 6, 7] ?tm = Some (w4, 3, rcode_io_done)"
    by (subst send_takes [where k = 3]) (simp_all add: net s w w2_def w4_def tick_def)
  ultimately have "send_rounds demo_poll net s b ?tm 3 rcode_io_done w2 = Some (w4, 6, rcode_io_done)"
    by (subst send_rounds.simps) (simp add: size int32_def)
  then show ?thesis unfolding one by (simp add: b rbuffer_content_def rbuffer_size_def w4_def)
qed

end
